(* ===== verification/Prelude.thy ===== *)
theory Prelude
  imports Main "HOL-Library.Word" "HOL-Library.List_Lexorder"
begin

text \<open>
  What every component of the development shares: the names of the machine types, results
  with errors as values, little-endian and big-endian byte strings, slices and in-place
  overwrites of byte buffers, the bounds-checked cursor the parsers use, and UTF-8.

  A Rust \<open>[u8]\<close>, \<open>Vec<u8>\<close> or \<open>[u8; n]\<close> is a list of bytes, a \<open>u16/u32/u64\<close> a word of that
  width (its \<open>+\<close> wraps, as a release build does), a \<open>usize\<close> a natural number whose upper
  bound is written out where the code checks for overflow. A \<open>String\<close> is the list of its
  UTF-8 bytes.
\<close>

section \<open>Types and theorem collections\<close>

type_synonym byte = "8 word"
type_synonym bytes = "byte list"
type_synonym str = "byte list"
type_synonym u16 = "16 word"
type_synonym u32 = "32 word"
type_synonym u64 = "64 word"

named_theorems len_simps \<open>lengths of encodings and buffers\<close>
named_theorems slice_simps \<open>slices of buffers that were written\<close>
named_theorems eval_simps \<open>evaluation of encodings at concrete values\<close>
named_theorems result_simps \<open>inversion of successful results\<close>

text \<open>The text of an ASCII literal, as \<open>b"..."\<close> in the source.\<close>

definition ascii :: "string \<Rightarrow> bytes" where
  "ascii s = map (\<lambda>c. of_char c) s"

lemma length_ascii [simp, len_simps]: "length (ascii s) = length s"
  by (simp add: ascii_def)

lemma ascii_Nil [simp]: "ascii [] = []"
  by (simp add: ascii_def)

lemma ascii_Cons [simp]: "ascii (c # s) = of_char c # ascii s"
  by (simp add: ascii_def)

section \<open>Results\<close>

text \<open>A \<open>Result<T, E>\<close> is \<open>'e + 'a\<close> with \<open>Inl\<close> the error; \<open>try_then\<close> is the \<open>?\<close> operator.\<close>

fun try_then :: "'e + 'a \<Rightarrow> ('a \<Rightarrow> 'e + 'b) \<Rightarrow> 'e + 'b" where
  "try_then (Inl e) f = Inl e"
| "try_then (Inr x) f = f x"

lemma try_then_Inr_iff [result_simps]:
  "try_then r f = Inr y \<longleftrightarrow> (\<exists>x. r = Inr x \<and> f x = Inr y)"
  by (cases r) auto

lemma try_then_Inl_iff:
  "try_then r f = Inl e \<longleftrightarrow> r = Inl e \<or> (\<exists>x. r = Inr x \<and> f x = Inl e)"
  by (cases r) auto

lemma try_then_cong [fundef_cong]:
  "r = r' \<Longrightarrow> (\<And>x. r' = Inr x \<Longrightarrow> f x = f' x) \<Longrightarrow> try_then r f = try_then r' f'"
  by (cases r') auto

fun map_err :: "('e \<Rightarrow> 'f) \<Rightarrow> 'e + 'a \<Rightarrow> 'f + 'a" where
  "map_err g (Inl e) = Inl (g e)"
| "map_err g (Inr x) = Inr x"

lemma map_err_Inr_iff [simp, result_simps]: "map_err g r = Inr x \<longleftrightarrow> r = Inr x"
  by (cases r) auto

fun is_ok :: "'e + 'a \<Rightarrow> bool" where
  "is_ok (Inl e) = False"
| "is_ok (Inr x) = True"

lemma is_ok_iff: "is_ok r \<longleftrightarrow> (\<exists>x. r = Inr x)"
  by (cases r) auto

fun of_option :: "'e \<Rightarrow> 'a option \<Rightarrow> 'e + 'a" where
  "of_option e None = Inl e"
| "of_option e (Some x) = Inr x"

lemma of_option_Inr_iff [simp, result_simps]: "of_option e r = Inr x \<longleftrightarrow> r = Some x"
  by (cases r) auto

text \<open>
  Stateful code returns its result with the state it leaves, also when it fails: the effects
  made before an error stay. \<open>st_then\<close> is the \<open>?\<close> operator there.
\<close>

fun st_then :: "('e + 'a) \<times> 's \<Rightarrow> ('a \<Rightarrow> 's \<Rightarrow> ('e + 'b) \<times> 's) \<Rightarrow> ('e + 'b) \<times> 's" where
  "st_then (Inl e, s) f = (Inl e, s)"
| "st_then (Inr x, s) f = f x s"

lemma st_then_Inr_iff [result_simps]:
  "st_then m f = (Inr y, s') \<longleftrightarrow> (\<exists>x s. m = (Inr x, s) \<and> f x s = (Inr y, s'))"
  by (cases "(m, f)" rule: st_then.cases) auto

lemma st_then_cong [fundef_cong]:
  "m = m' \<Longrightarrow> (\<And>x s. m' = (Inr x, s) \<Longrightarrow> f x s = f' x s) \<Longrightarrow> st_then m f = st_then m' f'"
  by (cases "(m', f')" rule: st_then.cases) auto

section \<open>Little-endian and big-endian byte strings\<close>

text \<open>
  \<open>nat_le n x\<close> is the \<open>n\<close> low bytes of \<open>x\<close>, least significant first: \<open>w.to_le_bytes()\<close> is
  \<open>nat_le k (unat w)\<close>, and \<open>(x as u32).to_le_bytes()\<close> of a \<open>usize\<close> is \<open>nat_le 4 x\<close>, which
  drops the high bits as the cast does. \<open>le_nat\<close> reads such a string back.
\<close>

fun nat_le :: "nat \<Rightarrow> nat \<Rightarrow> bytes" where
  "nat_le 0 x = []"
| "nat_le (Suc n) x = word_of_nat x # nat_le n (x div 256)"

fun le_nat :: "bytes \<Rightarrow> nat" where
  "le_nat [] = 0"
| "le_nat (b # bs) = unat b + 256 * le_nat bs"

lemma length_nat_le [simp, len_simps]: "length (nat_le n x) = n"
  by (induction n arbitrary: x) auto

lemma nat_le_numeral [eval_simps]:
  "nat_le (numeral k) x = word_of_nat x # nat_le (pred_numeral k) (x div 256)"
  by (subst numeral_eq_Suc) (rule nat_le.simps)

lemma unat_byte_of_nat: "unat (word_of_nat x :: byte) = x mod 256"
  by (simp add: unat_of_nat)

lemma byte_lt_256 [simp]: "unat (b :: byte) < 256"
  using unsigned_less [of b] by simp

lemma le_nat_nat_le_mod: "le_nat (nat_le n x) = x mod 256 ^ n"
proof (induction n arbitrary: x)
  case 0
  then show ?case by simp
next
  case (Suc n)
  have "x mod 256 ^ Suc n = x mod 256 + 256 * (x div 256 mod 256 ^ n)"
    by (simp add: mod_mult2_eq)
  then show ?case using Suc by (simp add: unat_byte_of_nat)
qed

lemma le_nat_nat_le [simp]: "x < 256 ^ n \<Longrightarrow> le_nat (nat_le n x) = x"
  by (simp add: le_nat_nat_le_mod)

lemma le_nat_bound: "le_nat bs < 256 ^ length bs"
proof (induction bs)
  case Nil
  then show ?case by simp
next
  case (Cons b bs)
  have "unat b + 256 * le_nat bs < 256 + 256 * le_nat bs" by simp
  also have "\<dots> \<le> 256 * 256 ^ length bs" using Cons by simp
  finally show ?case by simp
qed

lemma nat_le_le_nat [simp]: "nat_le (length bs) (le_nat bs) = bs"
proof (induction bs)
  case Nil
  then show ?case by simp
next
  case (Cons b bs)
  have "(word_of_nat (unat b + 256 * le_nat bs) :: byte) = b"
  proof -
    have "(unat b + 256 * le_nat bs) mod 256 = unat b" by simp
    then show ?thesis by (metis unat_byte_of_nat word_eq_iff_unsigned)
  qed
  moreover have "(unat b + 256 * le_nat bs) div 256 = le_nat bs" by simp
  ultimately show ?case using Cons by simp
qed

lemma nat_le_le_nat': "length bs = n \<Longrightarrow> nat_le n (le_nat bs) = bs"
  by auto

lemma nat_le_inj: "x < 256 ^ n \<Longrightarrow> y < 256 ^ n \<Longrightarrow> nat_le n x = nat_le n y \<longleftrightarrow> x = y"
  by (metis le_nat_nat_le)

definition u64_le :: "u64 \<Rightarrow> bytes" where
  "u64_le w = nat_le 8 (unat w)"

definition le_u64 :: "bytes \<Rightarrow> u64" where
  "le_u64 bs = word_of_nat (le_nat bs)"

lemma length_u64_le [simp, len_simps]: "length (u64_le w) = 8"
  by (simp add: u64_le_def)

lemma le_u64_u64_le [simp]: "le_u64 (u64_le w) = w"
proof -
  have "unat w < 256 ^ 8" using unsigned_less [of w] by simp
  then show ?thesis by (simp add: le_u64_def u64_le_def)
qed

lemma u64_le_le_u64 [simp]: "length bs = 8 \<Longrightarrow> u64_le (le_u64 bs) = bs"
proof -
  assume l: "length bs = 8"
  have "le_nat bs < 2 ^ 64" using le_nat_bound [of bs] l by simp
  then have "unat (word_of_nat (le_nat bs) :: u64) = le_nat bs"
    by (simp add: unat_of_nat)
  then show "u64_le (le_u64 bs) = bs"
    using l by (simp add: u64_le_def le_u64_def nat_le_le_nat')
qed

lemma u64_le_inj [simp]: "u64_le v = u64_le w \<longleftrightarrow> v = w"
  by (metis le_u64_u64_le)

text \<open>Big-endian reads, used by SQLite's own headers.\<close>

definition be_nat :: "bytes \<Rightarrow> nat" where
  "be_nat bs = le_nat (rev bs)"

definition nat_be :: "nat \<Rightarrow> nat \<Rightarrow> bytes" where
  "nat_be n x = rev (nat_le n x)"

lemma length_nat_be [simp, len_simps]: "length (nat_be n x) = n"
  by (simp add: nat_be_def)

lemma be_nat_nat_be [simp]: "x < 256 ^ n \<Longrightarrow> be_nat (nat_be n x) = x"
  by (simp add: be_nat_def nat_be_def)


lemma list_all_replicate [simp]: "list_all p (replicate n x) \<longleftrightarrow> n = 0 \<or> p x"
  by (induction n) auto

lemma length_filter_all_iff: "length (filter p xs) = length xs \<longleftrightarrow> (\<forall>x \<in> set xs. p x)"
proof (induction xs)
  case (Cons x xs)
  moreover have "length (filter p xs) \<noteq> Suc (length xs)" using length_filter_le [of p xs] by linarith
  ultimately show ?case by (cases "p x") auto
qed simp

lemma less_word_succ:
  fixes x :: u64
  assumes "x \<noteq> -1"
  shows "x < x + 1" and "unat (x + 1) = unat x + 1"
proof -
  have "unat x \<noteq> 2 ^ 64 - 1"
  proof
    assume "unat x = 2 ^ 64 - 1"
    then have "unat x = unat (-1 :: u64)" by (simp add: unsigned_minus_1_eq_mask mask_eq_exp_minus_1)
    with assms show False by (simp add: word_unat_eq_iff)
  qed
  moreover have "unat x < 2 ^ 64" using unsigned_less [of x] by simp
  ultimately have l: "unat x + 1 < 2 ^ 64" by simp
  then show "unat (x + 1) = unat x + 1" by (simp add: unat_word_ariths)
  then show "x < x + 1" by (simp add: word_less_nat_alt)
qed

section \<open>Slices and in-place overwrites\<close>

text \<open>
  \<open>slice at n b\<close> is \<open>&b[at..at + n]\<close> and \<open>put_at at src b\<close> is
  \<open>b[at..at + src.len()].copy_from_slice(src)\<close>, both used only where the range is inside
  the buffer (every other case is an explicit error branch of the model).
\<close>

definition slice :: "nat \<Rightarrow> nat \<Rightarrow> 'a list \<Rightarrow> 'a list" where
  "slice at n b = take n (drop at b)"

definition put_at :: "nat \<Rightarrow> 'a list \<Rightarrow> 'a list \<Rightarrow> 'a list" where
  "put_at at src b = take at b @ src @ drop (at + length src) b"

lemma length_slice [simp, len_simps]: "at + n \<le> length b \<Longrightarrow> length (slice at n b) = n"
  by (simp add: slice_def)

lemma length_slice_le: "length (slice at n b) \<le> n"
  by (simp add: slice_def)

lemma length_put_at [simp, len_simps]:
  "at + length src \<le> length b \<Longrightarrow> length (put_at at src b) = length b"
  by (simp add: put_at_def)

lemma nth_put_at:
  "at + length src \<le> length b \<Longrightarrow> i < length b \<Longrightarrow>
   put_at at src b ! i = (if at \<le> i \<and> i < at + length src then src ! (i - at) else b ! i)"
  by (auto simp: put_at_def nth_append min_def)

lemma nth_slice: "i < n \<Longrightarrow> at + n \<le> length b \<Longrightarrow> slice at n b ! i = b ! (at + i)"
  by (simp add: slice_def)

lemma slice_all [simp, slice_simps]: "length b = n \<Longrightarrow> slice 0 n b = b"
  by (simp add: slice_def)

lemma slice_append_left [slice_simps]:
  "at + n \<le> length xs \<Longrightarrow> slice at n (xs @ ys) = slice at n xs"
  by (simp add: slice_def)

lemma slice_append_right [slice_simps]:
  "length xs \<le> at \<Longrightarrow> slice at n (xs @ ys) = slice (at - length xs) n ys"
  by (simp add: slice_def)

lemma slice_prefix [slice_simps]: "length xs = n \<Longrightarrow> slice 0 n (xs @ ys) = xs"
  by (simp add: slice_def)

lemma slice_put_at_same [slice_simps]:
  "at + length src \<le> length b \<Longrightarrow> n = length src \<Longrightarrow> slice at n (put_at at src b) = src"
  by (simp add: slice_def put_at_def)

lemma slice_put_at_before [slice_simps]:
  "at' + n \<le> at \<Longrightarrow> at + length src \<le> length b \<Longrightarrow>
   slice at' n (put_at at src b) = slice at' n b"
  by (rule nth_equalityI) (auto simp: nth_slice nth_put_at)

lemma slice_put_at_after [slice_simps]:
  "at + length src \<le> at' \<Longrightarrow> at' + n \<le> length b \<Longrightarrow>
   slice at' n (put_at at src b) = slice at' n b"
  by (rule nth_equalityI) (auto simp: nth_slice nth_put_at)

lemma slice_concat_split:
  "at + n + m \<le> length b \<Longrightarrow> slice at (n + m) b = slice at n b @ slice (at + n) m b"
  by (simp add: slice_def take_add) (simp add: add.commute)

lemma slice_add: "slice at (n + m) b = slice at n b @ slice (at + n) m b"
  unfolding slice_def take_add drop_drop by (simp only: add.commute [of n at])

lemma set_slice: "set (slice at n b) \<subseteq> set b"
  by (auto simp: slice_def dest: in_set_takeD in_set_dropD)

section \<open>The bounds-checked cursor\<close>

text \<open>
  \<open>cur_take mx ovf trunc b at n\<close> is the \<open>take\<close> helper that \<open>bundle.rs\<close>, \<open>sync.rs\<close> and the
  standalone decryptor each define: \<open>at.checked_add(n)\<close> fails above the largest \<open>usize\<close>
  \<open>mx\<close>, an end past the buffer is a truncation, and otherwise the slice and the advanced
  cursor come back.
\<close>

definition USIZE_MAX_32 :: nat where "USIZE_MAX_32 = 2 ^ 32 - 1"

definition USIZE_MAX_64 :: nat where "USIZE_MAX_64 = 2 ^ 64 - 1"

definition cur_take :: "nat \<Rightarrow> 'e \<Rightarrow> 'e \<Rightarrow> bytes \<Rightarrow> nat \<Rightarrow> nat \<Rightarrow> 'e + (bytes \<times> nat)" where
  "cur_take mx ovf trunc b at n =
     (if at + n > mx then Inl ovf
      else if at + n > length b then Inl trunc
      else Inr (slice at n b, at + n))"

lemma cur_take_Inr_iff [result_simps]:
  "cur_take mx ovf trunc b at n = Inr (s, at') \<longleftrightarrow>
     at' = at + n \<and> s = slice at n b \<and> at + n \<le> mx \<and> at + n \<le> length b"
  by (auto simp: cur_take_def)

lemma cur_take_progress: "cur_take mx ovf trunc b at n = Inr (s, at') \<Longrightarrow> at \<le> at' \<and> at' \<le> length b"
  by (auto simp: cur_take_Inr_iff)

lemma cur_take_append [simp]:
  "length xs = at \<Longrightarrow> length ys = n \<Longrightarrow> at + n \<le> mx \<Longrightarrow>
   cur_take mx ovf trunc (xs @ ys @ zs) at n = Inr (ys, at + n)"
  by (simp add: cur_take_def slice_def)

text \<open>
  \<open>view mx buf at rest\<close>: the cursor \<open>at\<close> stands before \<open>rest\<close> in a buffer no longer than
  \<open>mx\<close>. Parsing what an encoder wrote is a sequence of views.
\<close>

definition view :: "nat \<Rightarrow> 'a list \<Rightarrow> nat \<Rightarrow> 'a list \<Rightarrow> bool" where
  "view mx buf at rest \<longleftrightarrow> (\<exists>pre. buf = pre @ rest \<and> length pre = at) \<and> length buf \<le> mx"

lemma view_start: "length buf \<le> mx \<Longrightarrow> view mx buf 0 buf"
  by (simp add: view_def)

lemma view_prefix: "length (pre @ rest) \<le> mx \<Longrightarrow> length pre = at \<Longrightarrow> view mx (pre @ rest) at rest"
  by (auto simp: view_def)

lemma view_next: "view mx buf at (x @ rest) \<Longrightarrow> n = at + length x \<Longrightarrow> view mx buf n rest"
  unfolding view_def by (metis append.assoc length_append)

lemma view_Cons: "view mx buf at (c # rest) \<Longrightarrow>
    at < length buf \<and> buf ! at = c \<and> view mx buf (Suc at) rest"
  using view_next [of mx buf at "[c]" rest] by (auto simp: view_def)

lemma view_take: "view mx buf at (x @ rest) \<Longrightarrow> n = length x \<Longrightarrow>
    cur_take mx ovf trunc buf at n = Inr (x, at + n)"
  by (auto simp: view_def cur_take_def slice_def)

lemma view_end: "view mx buf at [] \<Longrightarrow> at = length buf"
  by (auto simp: view_def)

lemma view_nonempty: "view mx buf at rest \<Longrightarrow> rest \<noteq> [] \<Longrightarrow> at < length buf"
  by (auto simp: view_def)

end
