(* ===== verification/Codec.thy ===== *)
theory Codec
  imports Prelude
begin

text \<open>
  The interface of the binary formats. A codec promises that decoding inverts encoding on
  well-formed values; a strict codec also that only encodings decode; a prefix codec reads
  its value at a cursor inside a larger buffer and returns the advanced cursor. The formats
  of the program interpret these locales in the theories that define them. The second half
  is about tables of fixed-width entries written into a zeroed block.
\<close>

section \<open>Interfaces\<close>

locale codec =
  fixes enc :: "'a \<Rightarrow> bytes"
    and dec :: "bytes \<Rightarrow> 'a option"
    and wf :: "'a \<Rightarrow> bool"
  assumes dec_enc: "wf x \<Longrightarrow> dec (enc x) = Some x"
begin

lemma enc_inj: "wf x \<Longrightarrow> wf y \<Longrightarrow> enc x = enc y \<Longrightarrow> x = y"
  by (metis dec_enc option.inject)

lemma enc_eq_iff: "wf x \<Longrightarrow> wf y \<Longrightarrow> enc x = enc y \<longleftrightarrow> x = y"
  using enc_inj by blast

lemma enc_inj_on: "inj_on enc {x. wf x}"
  by (rule inj_onI) (simp add: enc_inj)

end

locale strict_codec = codec +
  assumes dec_wf: "dec b = Some x \<Longrightarrow> wf x"
    and enc_dec: "dec b = Some x \<Longrightarrow> enc x = b"
begin

lemma dec_iff: "dec b = Some x \<longleftrightarrow> wf x \<and> b = enc x"
  using dec_enc dec_wf enc_dec by blast

lemma dec_inj: "dec b = Some x \<Longrightarrow> dec c = Some x \<Longrightarrow> b = c"
  using enc_dec by blast

end

locale prefix_codec =
  fixes enc :: "'a \<Rightarrow> bytes"
    and dec_at :: "bytes \<Rightarrow> nat \<Rightarrow> 'e + ('a \<times> nat)"
    and wf :: "'a \<Rightarrow> bool"
    and fits :: "nat \<Rightarrow> bool"
  assumes dec_at_enc:
    "wf x \<Longrightarrow> fits (length (pre @ enc x @ post)) \<Longrightarrow>
     dec_at (pre @ enc x @ post) (length pre) = Inr (x, length pre + length (enc x))"
begin

definition dec_all :: "bytes \<Rightarrow> 'a option" where
  "dec_all b = (case dec_at b 0 of
      Inl e \<Rightarrow> None | Inr (x, n) \<Rightarrow> if n = length b then Some x else None)"

sublocale all: codec enc dec_all "\<lambda>x. wf x \<and> fits (length (enc x))"
proof
  fix x assume "wf x \<and> fits (length (enc x))"
  then show "dec_all (enc x) = Some x"
    using dec_at_enc [of x "[]" "[]"] by (simp add: dec_all_def)
qed

text \<open>Two encodings that start at the same place of one buffer are the same value.\<close>

lemma enc_prefix_inj:
  assumes "wf x" and "wf y" and "enc x @ p = enc y @ q" and "fits (length (enc x @ p))"
  shows "x = y \<and> p = q"
proof -
  have "dec_at (enc x @ p) 0 = Inr (x, length (enc x))"
    using dec_at_enc [of x "[]" p] assms by simp
  moreover have "dec_at (enc y @ q) 0 = Inr (y, length (enc y))"
    using dec_at_enc [of y "[]" q] assms by simp
  ultimately have "x = y" using assms(3) by simp
  with assms(3) show ?thesis by simp
qed

end

section \<open>Tables of fixed-width entries\<close>

lemma put_at_put_at_append:
  "at + length s + length t \<le> length b \<Longrightarrow>
   put_at (at + length s) t (put_at at s b) = put_at at (s @ t) b"
  by (rule nth_equalityI) (auto simp: nth_put_at nth_append)

lemma length_concat_const [len_simps]:
  "(\<And>x. x \<in> set xs \<Longrightarrow> length (g x) = w) \<Longrightarrow> length (concat (map g xs)) = w * length xs"
  by (induction xs) auto

lemma slice_concat_nth:
  "(\<And>x. x \<in> set xs \<Longrightarrow> length (g x) = w) \<Longrightarrow> i < length xs \<Longrightarrow>
   slice (w * i) w (concat (map g xs)) = g (xs ! i)"
proof (induction xs arbitrary: i)
  case Nil
  then show ?case by simp
next
  case (Cons x xs)
  have lx: "length (g x) = w" using Cons.prems(1) by simp
  show ?case
  proof (cases i)
    case 0
    with lx show ?thesis by (simp add: slice_prefix)
  next
    case (Suc j)
    with Cons.prems have "slice (w * j) w (concat (map g xs)) = g (xs ! j)"
      by (intro Cons.IH) auto
    with Suc lx show ?thesis by (simp add: slice_append_right)
  qed
qed

lemma slice_slice: "o2 + n2 \<le> n1 \<Longrightarrow> slice o2 n2 (slice o1 n1 b) = slice (o1 + o2) n2 b"
  by (simp add: slice_def drop_take min_def add.commute)

lemma slice_table:
  assumes "\<And>x. x \<in> set xs \<Longrightarrow> length (g x) = w" and "i < length xs"
    and "at + w * length xs \<le> length b"
  shows "slice (at + w * i) w (put_at at (concat (map g xs)) b) = g (xs ! i)"
proof -
  let ?t = "concat (map g xs)"
  have lt: "length ?t = w * length xs" using assms(1) by (rule length_concat_const)
  have "w * i + w \<le> w * length xs"
    using assms(2) by (metis Suc_leI mult_Suc_right add.commute mult_le_mono2)
  then have "slice (w * i) w (slice at (w * length xs) (put_at at ?t b))
      = slice (at + w * i) w (put_at at ?t b)"
    by (rule slice_slice)
  moreover have "slice at (w * length xs) (put_at at ?t b) = ?t"
    using assms(3) lt by (simp add: slice_put_at_same)
  ultimately show ?thesis using slice_concat_nth [OF assms(1,2)] by simp
qed

text \<open>Reading \<open>n\<close> entries of width \<open>w\<close> from offset \<open>at\<close>, as the decoders' loops do.\<close>

definition read_table :: "nat \<Rightarrow> nat \<Rightarrow> (bytes \<Rightarrow> 'a) \<Rightarrow> nat \<Rightarrow> bytes \<Rightarrow> 'a list" where
  "read_table at w f n b = map (\<lambda>i. f (slice (at + i * w) w b)) [0..<n]"

lemma length_read_table [simp]: "length (read_table at w f n b) = n"
  by (simp add: read_table_def)

lemma read_table_put_at:
  assumes "\<And>x. x \<in> set xs \<Longrightarrow> length (g x) = w"
    and "\<And>x. x \<in> set xs \<Longrightarrow> f (g x) = x"
    and "at + w * length xs \<le> length b"
  shows "read_table at w f (length xs) (put_at at (concat (map g xs)) b) = xs"
proof (rule nth_equalityI)
  fix i assume "i < length (read_table at w f (length xs) (put_at at (concat (map g xs)) b))"
  then have i: "i < length xs" by simp
  with assms show "read_table at w f (length xs) (put_at at (concat (map g xs)) b) ! i = xs ! i"
    using slice_table [of xs g w i at b] by (simp add: read_table_def mult.commute)
qed simp

end
