(* ===== verification/Utf8.thy ===== *)
theory Utf8
  imports Prelude
begin

text \<open>
  The part of Rust's \<open>str\<close> the program uses, on the UTF-8 bytes of a string: the validity
  test of \<open>String::from_utf8\<close>, the replacement of \<open>to_string_lossy\<close>, the Unicode \<open>White_Space\<close> characters, \<open>trim\<close>, removal of
  whitespace, prefix and suffix tests, \<open>split\<close> and \<open>join\<close> on a one-byte separator.
\<close>

section \<open>Validity\<close>

definition utf8_cont :: "byte \<Rightarrow> bool" where
  "utf8_cont b \<longleftrightarrow> 0x80 \<le> b \<and> b \<le> 0xBF"

text \<open>The second byte of a three- or four-byte sequence: no overlong form, no surrogate,
  nothing above U+10FFFF.\<close>

definition utf8_second3 :: "byte \<Rightarrow> byte \<Rightarrow> bool" where
  "utf8_second3 a b \<longleftrightarrow>
     (if a = 0xE0 then 0xA0 \<le> b \<and> b \<le> 0xBF
      else if a = 0xED then 0x80 \<le> b \<and> b \<le> 0x9F
      else utf8_cont b)"

definition utf8_second4 :: "byte \<Rightarrow> byte \<Rightarrow> bool" where
  "utf8_second4 a b \<longleftrightarrow>
     (if a = 0xF0 then 0x90 \<le> b \<and> b \<le> 0xBF
      else if a = 0xF4 then 0x80 \<le> b \<and> b \<le> 0x8F
      else utf8_cont b)"

text \<open>The length of the character a string starts with, 0 when it starts with none.\<close>

definition utf8_len :: "bytes \<Rightarrow> nat" where
  "utf8_len s = (case s of
     [] \<Rightarrow> 0
   | a # r \<Rightarrow>
     if a < 0x80 then 1
     else if 0xC2 \<le> a \<and> a \<le> 0xDF then
       (case r of b # _ \<Rightarrow> if utf8_cont b then 2 else 0 | _ \<Rightarrow> 0)
     else if 0xE0 \<le> a \<and> a \<le> 0xEF then
       (case r of b # c # _ \<Rightarrow> if utf8_second3 a b \<and> utf8_cont c then 3 else 0 | _ \<Rightarrow> 0)
     else if 0xF0 \<le> a \<and> a \<le> 0xF4 then
       (case r of b # c # d # _ \<Rightarrow>
          if utf8_second4 a b \<and> utf8_cont c \<and> utf8_cont d then 4 else 0 | _ \<Rightarrow> 0)
     else 0)"

lemma utf8_len_le: "utf8_len s \<le> length s"
  by (simp add: utf8_len_def split: list.split)

lemma utf8_len_append: "0 < utf8_len xs \<Longrightarrow> utf8_len (xs @ ys) = utf8_len xs"
  by (simp add: utf8_len_def split: list.split_asm if_split_asm)

function utf8_valid :: "bytes \<Rightarrow> bool" where
  "utf8_valid s =
     (if s = [] then True
      else if utf8_len s = 0 then False
      else utf8_valid (drop (utf8_len s) s))"
  by pat_completeness auto
termination
  by (relation "measure length") auto

declare utf8_valid.simps [simp del]

lemma utf8_valid_Nil [simp]: "utf8_valid []"
  by (subst utf8_valid.simps) simp

lemma utf8_valid_ascii: "(\<And>b. b \<in> set s \<Longrightarrow> b < 0x80) \<Longrightarrow> utf8_valid s"
proof (induction s)
  case (Cons b s)
  then show ?case by (subst utf8_valid.simps) (simp add: utf8_len_def)
qed simp

lemma utf8_valid_append: "utf8_valid xs \<Longrightarrow> utf8_valid ys \<Longrightarrow> utf8_valid (xs @ ys)"
proof (induction xs rule: utf8_valid.induct)
  case (1 xs)
  show ?case
  proof (cases "xs = []")
    case True
    with "1.prems" show ?thesis by simp
  next
    case False
    with "1.prems" have l: "0 < utf8_len xs" and v: "utf8_valid (drop (utf8_len xs) xs)"
      by (subst (asm) utf8_valid.simps, simp split: if_splits)+
    have "utf8_valid (drop (utf8_len xs) xs @ ys)"
      using "1.IH" False l v "1.prems"(2) by blast
    with l show ?thesis
      by (subst utf8_valid.simps) (simp add: utf8_len_append utf8_len_le)
  qed
qed

text \<open>\<open>String::from_utf8\<close> and \<open>str::from_utf8\<close>: the same bytes, or an error.\<close>

definition from_utf8 :: "bytes \<Rightarrow> str option" where
  "from_utf8 bs = (if utf8_valid bs then Some bs else None)"

lemma from_utf8_Some_iff [simp, result_simps]: "from_utf8 bs = Some s \<longleftrightarrow> s = bs \<and> utf8_valid bs"
  by (auto simp: from_utf8_def)

text \<open>
  \<open>String::from_utf8_lossy\<close>: each maximal run of bytes that begins a character without completing
  it, and each other byte that begins none, becomes U+FFFD. \<open>utf8_bad_len\<close> is the length of the run a
  string starts with when it starts with no character.
\<close>

definition utf8_bad_len :: "bytes \<Rightarrow> nat" where
  "utf8_bad_len s = (case s of
     [] \<Rightarrow> 0
   | a # r \<Rightarrow>
     if 0xE0 \<le> a \<and> a \<le> 0xEF then (case r of b # _ \<Rightarrow> if utf8_second3 a b then 2 else 1 | _ \<Rightarrow> 1)
     else if 0xF0 \<le> a \<and> a \<le> 0xF4 then
       (case r of b # r1 \<Rightarrow>
          if utf8_second4 a b then (case r1 of c # _ \<Rightarrow> if utf8_cont c then 3 else 2 | _ \<Rightarrow> 2) else 1 | _ \<Rightarrow> 1)
     else 1)"

lemma utf8_bad_len_pos: "s \<noteq> [] \<Longrightarrow> 0 < utf8_bad_len s"
  by (simp add: utf8_bad_len_def split: list.split)

definition REPLACEMENT :: str where "REPLACEMENT = [0xEF, 0xBF, 0xBD]"

function from_utf8_lossy :: "bytes \<Rightarrow> str" where
  "from_utf8_lossy s =
     (if s = [] then []
      else if utf8_len s = 0 then REPLACEMENT @ from_utf8_lossy (drop (utf8_bad_len s) s)
      else take (utf8_len s) s @ from_utf8_lossy (drop (utf8_len s) s))"
  by pat_completeness auto
termination
  by (relation "measure length") (auto simp: utf8_bad_len_pos)

declare from_utf8_lossy.simps [simp del]

lemma from_utf8_lossy_Nil [simp]: "from_utf8_lossy [] = []"
  by (subst from_utf8_lossy.simps) simp

lemma from_utf8_lossy_id: "utf8_valid s \<Longrightarrow> from_utf8_lossy s = s"
proof (induction s rule: utf8_valid.induct)
  case (1 s)
  show ?case
  proof (cases "s = []")
    case False
    then have n: "utf8_len s \<noteq> 0" and v: "utf8_valid (drop (utf8_len s) s)"
      using "1.prems" by (subst (asm) utf8_valid.simps, simp split: if_splits)+
    then have "from_utf8_lossy (drop (utf8_len s) s) = drop (utf8_len s) s" using "1.IH" False by blast
    then show ?thesis using False n by (subst from_utf8_lossy.simps) simp
  qed simp
qed

text \<open>\<open>CStr::from_ptr(p).to_string_lossy()\<close>: the bytes before the first NUL, made valid.\<close>

definition c_text :: "bytes \<Rightarrow> str" where
  "c_text s = from_utf8_lossy (takeWhile (\<lambda>b. b \<noteq> 0) s)"

lemma c_text_id: "utf8_valid s \<Longrightarrow> 0 \<notin> set s \<Longrightarrow> c_text s = s"
proof -
  assume "utf8_valid s" "0 \<notin> set s"
  moreover have "takeWhile (\<lambda>b. b \<noteq> 0) s = s" using \<open>0 \<notin> set s\<close> by (auto simp: takeWhile_eq_all_conv)
  ultimately show "c_text s = s" unfolding c_text_def by (simp only: from_utf8_lossy_id)
qed

lemma c_text_nul: "0 \<notin> set s \<Longrightarrow> c_text (s @ 0 # t) = c_text s"
proof -
  assume "0 \<notin> set s"
  then have "\<And>b. b \<in> set s \<Longrightarrow> b \<noteq> 0" by auto
  then have "takeWhile (\<lambda>b. b \<noteq> 0) (s @ 0 # t) = s" "takeWhile (\<lambda>b. b \<noteq> 0) (s @ []) = s"
    by (subst takeWhile_append2, assumption, simp)+
  then show "c_text (s @ 0 # t) = c_text s" unfolding c_text_def append_Nil2 by (simp only:)
qed

section \<open>Whitespace\<close>

text \<open>
  The length of the whitespace character a string starts with, 0 when it starts with none:
  U+0009 to U+000D and U+0020, U+0085 and U+00A0, U+1680, U+2000 to U+200A, U+2028,
  U+2029, U+202F, U+205F and U+3000.
\<close>

definition ws1 :: "byte \<Rightarrow> bool" where
  "ws1 a \<longleftrightarrow> (0x09 \<le> a \<and> a \<le> 0x0D) \<or> a = 0x20"

definition ws2 :: "byte \<Rightarrow> byte \<Rightarrow> bool" where
  "ws2 a b \<longleftrightarrow> a = 0xC2 \<and> (b = 0x85 \<or> b = 0xA0)"

definition ws3 :: "byte \<Rightarrow> byte \<Rightarrow> byte \<Rightarrow> bool" where
  "ws3 a b c \<longleftrightarrow>
     (a = 0xE1 \<and> b = 0x9A \<and> c = 0x80)
   \<or> (a = 0xE2 \<and> b = 0x80 \<and> ((0x80 \<le> c \<and> c \<le> 0x8A) \<or> c = 0xA8 \<or> c = 0xA9 \<or> c = 0xAF))
   \<or> (a = 0xE2 \<and> b = 0x81 \<and> c = 0x9F)
   \<or> (a = 0xE3 \<and> b = 0x80 \<and> c = 0x80)"

definition ws_len :: "bytes \<Rightarrow> nat" where
  "ws_len s = (case s of
     [] \<Rightarrow> 0
   | a # r \<Rightarrow>
     if ws1 a then 1
     else (case r of
         [] \<Rightarrow> 0
       | b # r1 \<Rightarrow>
         if ws2 a b then 2
         else (case r1 of [] \<Rightarrow> 0 | c # _ \<Rightarrow> if ws3 a b c then 3 else 0)))"

lemma ws_len_le: "ws_len s \<le> length s"
  by (simp add: ws_len_def split: list.split)

lemma ws_len_pos: "0 < ws_len s \<Longrightarrow> 0 < length s"
  using ws_len_le [of s] by linarith

text \<open>The same test at the end of a string, on its reversed bytes.\<close>

definition ws_len_rev :: "bytes \<Rightarrow> nat" where
  "ws_len_rev s = (case s of
     [] \<Rightarrow> 0
   | c # r \<Rightarrow>
     if ws1 c then 1
     else (case r of
         [] \<Rightarrow> 0
       | b # r1 \<Rightarrow>
         if ws2 b c then 2
         else (case r1 of [] \<Rightarrow> 0 | a # _ \<Rightarrow> if ws3 a b c then 3 else 0)))"

lemma ws_len_rev_le: "ws_len_rev s \<le> length s"
  by (simp add: ws_len_rev_def split: list.split)

lemma ws_len_rev_pos: "0 < ws_len_rev s \<Longrightarrow> 0 < length s"
  using ws_len_rev_le [of s] by linarith

function trim_start :: "bytes \<Rightarrow> bytes" where
  "trim_start s = (if ws_len s = 0 then s else trim_start (drop (ws_len s) s))"
  by pat_completeness auto
termination
  by (relation "measure length") (auto intro!: diff_less dest: ws_len_pos)

function trim_start_rev :: "bytes \<Rightarrow> bytes" where
  "trim_start_rev s = (if ws_len_rev s = 0 then s else trim_start_rev (drop (ws_len_rev s) s))"
  by pat_completeness auto
termination
  by (relation "measure length") (auto intro!: diff_less dest: ws_len_rev_pos)

declare trim_start.simps [simp del] trim_start_rev.simps [simp del]

text \<open>\<open>str::trim\<close>.\<close>

definition trim :: "str \<Rightarrow> str" where
  "trim s = rev (trim_start_rev (rev (trim_start s)))"

lemma ws_len_prefix: "0 < ws_len p \<Longrightarrow> ws_len (p @ q) = ws_len p"
  by (auto simp: ws_len_def split: list.splits if_splits)

lemma ws_len_trim_start: "ws_len (trim_start s) = 0"
proof (induction s rule: trim_start.induct)
  case (1 s)
  then show ?case by (cases "ws_len s = 0") (subst trim_start.simps, simp)+
qed

lemma ws_len_trim_start_rev: "ws_len_rev (trim_start_rev s) = 0"
proof (induction s rule: trim_start_rev.induct)
  case (1 s)
  then show ?case by (cases "ws_len_rev s = 0") (subst trim_start_rev.simps, simp)+
qed

lemma trim_start_rev_suffix: "\<exists>p. s = p @ trim_start_rev s"
proof (induction s rule: trim_start_rev.induct)
  case (1 s)
  show ?case
  proof (cases "ws_len_rev s = 0")
    case True
    then show ?thesis by (subst trim_start_rev.simps) simp
  next
    case False
    then obtain p where "drop (ws_len_rev s) s = p @ trim_start_rev (drop (ws_len_rev s) s)"
      using 1 by blast
    then have "s = (take (ws_len_rev s) s @ p) @ trim_start_rev (drop (ws_len_rev s) s)"
      by (metis append.assoc append_take_drop_id)
    moreover have "trim_start_rev s = trim_start_rev (drop (ws_len_rev s) s)"
      using False by (subst trim_start_rev.simps) simp
    ultimately show ?thesis by (metis (no_types))
  qed
qed

lemma trim_trimmed: "ws_len (trim s) = 0" "ws_len_rev (rev (trim s)) = 0"
proof -
  obtain p where "rev (trim_start s) = p @ rev (trim s)"
    using trim_start_rev_suffix [of "rev (trim_start s)"] by (auto simp: trim_def)
  then have "trim_start s = trim s @ rev p" by (metis rev_append rev_rev_ident)
  then show "ws_len (trim s) = 0"
    using ws_len_trim_start [of s] ws_len_prefix [of "trim s" "rev p"] by (metis gr0I)
  show "ws_len_rev (rev (trim s)) = 0" by (simp add: trim_def ws_len_trim_start_rev)
qed

lemma trim_id: "ws_len s = 0 \<Longrightarrow> ws_len_rev (rev s) = 0 \<Longrightarrow> trim s = s"
  by (simp add: trim_def trim_start.simps [of s] trim_start_rev.simps [of "rev s"])

lemma trim_idem [simp]: "trim (trim s) = trim s"
  using trim_trimmed by (rule trim_id)

lemma set_trim: "set (trim s) \<subseteq> set s"
proof -
  have "set (trim_start_rev r) \<subseteq> set r" for r
    using trim_start_rev_suffix [of r] by (metis set_append Un_upper2)
  moreover have "set (trim_start s) \<subseteq> set s"
  proof (induction s rule: trim_start.induct)
    case (1 s)
    then show ?case by (subst trim_start.simps) (auto dest: in_set_dropD)
  qed
  ultimately show ?thesis unfolding trim_def by (metis dual_order.trans set_rev)
qed

text \<open>
  \<open>split_whitespace().collect::<Vec<_>>().join("")\<close>: every whitespace character removed.
  A byte that does not start a whitespace character is kept; in valid UTF-8 no other byte of
  a character can start one.
\<close>

function remove_ws :: "bytes \<Rightarrow> bytes" where
  "remove_ws [] = []"
| "remove_ws (a # r) =
     (if ws_len (a # r) = 0 then a # remove_ws r else remove_ws (drop (ws_len (a # r)) (a # r)))"
  by pat_completeness auto
termination
  by (relation "measure length") auto

section \<open>Prefixes, suffixes, splitting and joining\<close>

definition starts_with :: "str \<Rightarrow> str \<Rightarrow> bool" where
  "starts_with s p \<longleftrightarrow> take (length p) s = p"

definition ends_with :: "str \<Rightarrow> str \<Rightarrow> bool" where
  "ends_with s p \<longleftrightarrow> length p \<le> length s \<and> drop (length s - length p) s = p"

definition strip_suffix :: "str \<Rightarrow> str \<Rightarrow> str option" where
  "strip_suffix s p = (if ends_with s p then Some (take (length s - length p) s) else None)"

lemma ends_with_iff: "ends_with s p \<longleftrightarrow> (\<exists>q. s = q @ p)"
proof
  assume "ends_with s p"
  then have "s = take (length s - length p) s @ p"
    unfolding ends_with_def by (metis append_take_drop_id)
  then show "\<exists>q. s = q @ p" by blast
qed (auto simp: ends_with_def)

lemma starts_with_iff: "starts_with s p \<longleftrightarrow> (\<exists>q. s = p @ q)"
proof
  assume "starts_with s p"
  then have "s = p @ drop (length p) s"
    unfolding starts_with_def by (metis append_take_drop_id)
  then show "\<exists>q. s = p @ q" by blast
qed (auto simp: starts_with_def)

lemma strip_suffix_Some_iff [result_simps]: "strip_suffix s p = Some q \<longleftrightarrow> s = q @ p"
  by (auto simp: strip_suffix_def ends_with_def) (metis append_take_drop_id)

lemma strip_suffix_append [simp]: "strip_suffix (q @ p) p = Some q"
  by (simp add: strip_suffix_Some_iff)

fun split_on :: "byte \<Rightarrow> bytes \<Rightarrow> bytes list" where
  "split_on sep [] = [[]]"
| "split_on sep (b # bs) =
     (if b = sep then [] # split_on sep bs
      else (case split_on sep bs of [] \<Rightarrow> [[b]] | w # ws \<Rightarrow> (b # w) # ws))"

fun join_with :: "byte \<Rightarrow> bytes list \<Rightarrow> bytes" where
  "join_with sep [] = []"
| "join_with sep [w] = w"
| "join_with sep (w # ws) = w @ sep # join_with sep ws"

lemma split_on_nonempty [simp]: "split_on sep s \<noteq> []"
  by (induction s) (auto split: list.splits)

lemma join_split [simp]: "join_with sep (split_on sep s) = s"
proof (induction s)
  case Nil
  then show ?case by simp
next
  case (Cons b s)
  obtain w ws where sp: "split_on sep s = w # ws"
    by (meson list.exhaust split_on_nonempty)
  then show ?case using Cons by (cases ws) auto
qed

lemma split_on_word: "sep \<notin> set w \<Longrightarrow> split_on sep w = [w]"
  by (induction w) auto

lemma split_on_append: "sep \<notin> set w \<Longrightarrow> split_on sep (w @ sep # s) = w # split_on sep s"
  by (induction w) (auto split: list.splits)

lemma split_join:
  "ws \<noteq> [] \<Longrightarrow> (\<And>w. w \<in> set ws \<Longrightarrow> sep \<notin> set w) \<Longrightarrow> split_on sep (join_with sep ws) = ws"
  by (induction sep ws rule: join_with.induct) (auto simp: split_on_word split_on_append)

lemma split_on_no_sep: "w \<in> set (split_on sep s) \<Longrightarrow> sep \<notin> set w"
proof (induction s arbitrary: w)
  case Nil
  then show ?case by simp
next
  case (Cons b s)
  obtain v vs where sp: "split_on sep s = v # vs"
    by (meson list.exhaust split_on_nonempty)
  with Cons show ?case by (auto split: if_splits)
qed

section \<open>Cutting a string at character boundaries\<close>

lemma utf8_valid_step: "0 < utf8_len s \<Longrightarrow> utf8_valid s \<longleftrightarrow> utf8_valid (drop (utf8_len s) s)"
  using utf8_len_le [of s] by (subst utf8_valid.simps) auto

lemma utf8_valid_char: "0 < utf8_len s \<Longrightarrow> utf8_valid (take (utf8_len s) s)"
proof -
  assume n: "0 < utf8_len s"
  have "utf8_len (take (utf8_len s) s) = utf8_len s"
    using n by (auto simp: utf8_len_def split: list.splits if_splits)
  then show "utf8_valid (take (utf8_len s) s)" using n utf8_valid_step [of "take (utf8_len s) s"] by simp
qed

lemma from_utf8_lossy_valid: "utf8_valid (from_utf8_lossy s)"
proof (induction s rule: from_utf8_lossy.induct)
  case (1 s)
  have r: "utf8_valid REPLACEMENT"
    by (subst utf8_valid.simps) (simp add: REPLACEMENT_def utf8_len_def utf8_second3_def utf8_cont_def)
  show ?case
  proof (cases "s = []")
    case False
    show ?thesis
    proof (cases "utf8_len s = 0")
      case True
      then show ?thesis using False "1.IH"(1) utf8_valid_append [OF r] by (subst from_utf8_lossy.simps) simp
    next
      case n: False
      then show ?thesis using False "1.IH"(2) utf8_valid_append [OF utf8_valid_char] by (subst from_utf8_lossy.simps) simp
    qed
  qed simp
qed

lemma utf8_second_cont: "utf8_second3 a b \<Longrightarrow> utf8_cont b" "utf8_second4 a b \<Longrightarrow> utf8_cont b"
  by (auto simp: utf8_second3_def utf8_second4_def utf8_cont_def word_le_nat_alt split: if_splits)

lemma utf8_len_inner:
  assumes "0 < i" and "i < utf8_len s"
  shows "utf8_cont (s ! i)"
proof -
  have "utf8_len s \<le> 4" by (simp add: utf8_len_def split: list.split)
  then consider "i = 1" | "i = 2" | "i = 3" using assms by linarith
  then show ?thesis
    using assms(2) by cases (auto simp: utf8_len_def dest: utf8_second_cont split: list.splits if_splits)
qed

lemma utf8_len_prefix:
  assumes "utf8_len (xs @ ys) \<le> length xs" and "0 < utf8_len (xs @ ys)"
  shows "utf8_len xs = utf8_len (xs @ ys)"
proof -
  obtain a r where xs: "xs = a # r" using assms by (cases xs) auto
  consider "a < 0x80" | "\<not> a < 0x80" "0xC2 \<le> a \<and> a \<le> 0xDF"
    | "\<not> a < 0x80" "\<not> (0xC2 \<le> a \<and> a \<le> 0xDF)" "0xE0 \<le> a \<and> a \<le> 0xEF"
    | "\<not> a < 0x80" "\<not> (0xC2 \<le> a \<and> a \<le> 0xDF)" "\<not> (0xE0 \<le> a \<and> a \<le> 0xEF)" "0xF0 \<le> a \<and> a \<le> 0xF4"
    | "\<not> a < 0x80" "\<not> (0xC2 \<le> a \<and> a \<le> 0xDF)" "\<not> (0xE0 \<le> a \<and> a \<le> 0xEF)" "\<not> (0xF0 \<le> a \<and> a \<le> 0xF4)" by blast
  then show ?thesis
  proof cases
    case 2
    then show ?thesis using assms unfolding xs utf8_len_def by (cases r) (auto split: list.splits if_splits)
  next
    case 3
    then show ?thesis using assms unfolding xs utf8_len_def by (cases r; cases "tl r") (auto split: list.splits if_splits)
  next
    case 4
    then show ?thesis using assms unfolding xs utf8_len_def
      by (cases r; cases "tl r"; cases "tl (tl r)") (auto split: list.splits if_splits)
  next
    case 5
    then show ?thesis by (simp only: xs utf8_len_def append_Cons list.case if_False)
  qed (simp add: xs utf8_len_def)
qed

lemma utf8_boundary: "utf8_valid (xs @ b # ys) \<Longrightarrow> \<not> utf8_cont b \<Longrightarrow> utf8_valid xs \<and> utf8_valid (b # ys)"
proof (induction xs rule: utf8_valid.induct)
  case (1 xs)
  let ?n = "utf8_len (xs @ b # ys)"
  show ?case
  proof (cases "xs = []")
    case False
    have n: "0 < ?n" using "1.prems"(1) False by (subst (asm) utf8_valid.simps) (auto split: if_splits)
    have le: "?n \<le> length xs"
    proof (rule ccontr)
      assume "\<not> ?n \<le> length xs"
      then have "utf8_cont ((xs @ b # ys) ! length xs)" using False by (intro utf8_len_inner) auto
      then show False using "1.prems"(2) by simp
    qed
    have e: "utf8_len xs = ?n" by (rule utf8_len_prefix [OF le n])
    have "utf8_valid (drop ?n xs @ b # ys)" using "1.prems"(1) utf8_valid_step [OF n] le by simp
    then have "utf8_valid (drop (utf8_len xs) xs) \<and> utf8_valid (b # ys)" using "1.IH" "1.prems"(2) False n unfolding e by simp
    then show ?thesis using utf8_valid_step [of xs] n unfolding e by blast
  qed (use "1.prems" in simp)
qed

lemma utf8_valid_drop: "utf8_valid (xs @ ys) \<Longrightarrow> utf8_valid xs \<Longrightarrow> utf8_valid ys"
proof (induction xs rule: utf8_valid.induct)
  case (1 xs)
  show ?case
  proof (cases "xs = []")
    case False
    have n: "0 < utf8_len xs" using "1.prems"(2) False by (subst (asm) utf8_valid.simps) (auto split: if_splits)
    then have "utf8_valid (drop (utf8_len xs) xs @ ys)" "utf8_valid (drop (utf8_len xs) xs)"
      using "1.prems" utf8_valid_step [of "xs @ ys"] utf8_valid_step [of xs] utf8_len_append [of xs ys] utf8_len_le [of xs] by simp_all
    then show ?thesis using "1.IH" False n by simp
  qed (use "1.prems" in simp)
qed

lemma ws_bytes:
  "ws1 a \<Longrightarrow> a < 0x80"
  "ws2 a b \<Longrightarrow> \<not> a < 0x80 \<and> 0xC2 \<le> a \<and> a \<le> 0xDF \<and> utf8_cont b"
  "ws3 a b c \<Longrightarrow> \<not> a < 0x80 \<and> \<not> (0xC2 \<le> a \<and> a \<le> 0xDF) \<and> 0xE0 \<le> a \<and> a \<le> 0xEF \<and> utf8_second3 a b \<and> utf8_cont c"
  by (auto simp: ws1_def ws2_def ws3_def utf8_cont_def utf8_second3_def word_le_nat_alt word_less_nat_alt)

lemma ws_char:
  assumes "0 < ws_len s"
  shows "utf8_len s = ws_len s"
proof -
  obtain a r where s: "s = a # r" using assms by (cases s) (auto simp: ws_len_def)
  consider "ws1 a" | b r' where "\<not> ws1 a" "r = b # r'" "ws2 a b" | b c r' where "\<not> ws1 a" "r = b # c # r'" "\<not> ws2 a b" "ws3 a b c"
    using assms by (auto simp: s ws_len_def split: list.splits if_splits)
  then show ?thesis
    using ws_bytes by cases (simp_all add: s ws_len_def utf8_len_def)
qed

lemma utf8_trim_start: "utf8_valid s \<Longrightarrow> utf8_valid (trim_start s)"
proof (induction s rule: trim_start.induct)
  case (1 s)
  then show ?case using utf8_valid_step [of s] ws_char [of s] by (cases "ws_len s = 0") (simp_all add: trim_start.simps [of s])
qed

lemma ws_rev_char:
  assumes "0 < ws_len_rev r"
  obtains b w where "rev r = rev (drop (ws_len_rev r) r) @ b # w" and "\<not> utf8_cont b"
  using assms that
  by (auto simp: ws_len_rev_def ws1_def ws2_def ws3_def utf8_cont_def word_less_nat_alt word_le_nat_alt split: list.splits if_splits)

lemma utf8_trim_end: "utf8_valid (rev r) \<Longrightarrow> utf8_valid (rev (trim_start_rev r))"
proof (induction r rule: trim_start_rev.induct)
  case (1 r)
  show ?case
  proof (cases "ws_len_rev r = 0")
    case False
    then obtain b w where "rev r = rev (drop (ws_len_rev r) r) @ b # w" "\<not> utf8_cont b" using ws_rev_char by blast
    then have "utf8_valid (rev (drop (ws_len_rev r) r))" using "1.prems" utf8_boundary by metis
    then show ?thesis using "1.IH" False by (simp add: trim_start_rev.simps [of r])
  qed (use "1.prems" in \<open>simp add: trim_start_rev.simps [of r]\<close>)
qed

lemma utf8_trim: "utf8_valid s \<Longrightarrow> utf8_valid (trim s)"
  unfolding trim_def by (intro utf8_trim_end) (simp add: utf8_trim_start)

lemma utf8_split: "utf8_valid s \<Longrightarrow> sep < 0x80 \<Longrightarrow> w \<in> set (split_on sep s) \<Longrightarrow> utf8_valid w"
proof (induction "split_on sep s" arbitrary: s)
  case (Cons v vs)
  have s: "join_with sep (v # vs) = s" unfolding Cons.hyps(2) by simp
  show ?case
  proof (cases vs)
    case Nil
    then show ?thesis using Cons.prems s Cons.hyps(2) [symmetric] by simp
  next
    case (Cons u us)
    have "\<not> utf8_cont sep" using Cons.prems(2) by (simp add: utf8_cont_def not_le)
    moreover have "s = v @ sep # join_with sep vs" using s Cons by simp
    ultimately have v: "utf8_valid v" "utf8_valid (sep # join_with sep vs)" using utf8_boundary Cons.prems(1) by blast+
    moreover have "utf8_valid [sep]" using Cons.prems(2) by (intro utf8_valid_ascii) simp
    ultimately have "utf8_valid (join_with sep vs)" using utf8_valid_drop [of "[sep]"] by simp
    moreover have "split_on sep (join_with sep vs) = vs"
      using split_on_no_sep [of _ sep s] Cons unfolding Cons.hyps(2) [symmetric] by (intro split_join) auto
    ultimately have "utf8_valid w" if "w \<in> set vs" using Cons.hyps(1) [of "join_with sep vs"] Cons.prems(2) that by simp
    moreover have "w \<in> set (v # vs)" using Cons.prems(3) unfolding Cons.hyps(2) .
    ultimately show ?thesis using v(1) by auto
  qed
qed simp

lemma utf8_join: "(\<And>w. w \<in> set ws \<Longrightarrow> utf8_valid w) \<Longrightarrow> sep < 0x80 \<Longrightarrow> utf8_valid (join_with sep ws)"
proof (induction sep ws rule: join_with.induct)
  case (3 sep w v vs)
  have "utf8_valid [sep]" using "3.prems"(2) by (intro utf8_valid_ascii) simp
  then have "utf8_valid (w @ [sep] @ join_with sep (v # vs))" using 3 by (intro utf8_valid_append) auto
  then show ?case by simp
qed auto

end
