(* ===== verification/Bundle.thy ===== *)
theory Bundle
  imports Codec Utf8
begin

text \<open>
  \<open>crates/freehold/src/bundle.rs\<close>: the tag-length-value container \<open>.freehold\<close> and its
  strict parser, whose cursor arithmetic runs on a 32-bit \<open>usize\<close> (wasm32).
\<close>

section \<open>Format\<close>

definition BUNDLE_MAGIC :: bytes where "BUNDLE_MAGIC = ascii ''FREEHOLD''"
definition BUNDLE_VERSION :: byte where "BUNDLE_VERSION = 1"
definition TAG_ENVELOPE :: byte where "TAG_ENVELOPE = 1"
definition TAG_CRED_ID :: byte where "TAG_CRED_ID = 2"
definition TAG_FILE :: byte where "TAG_FILE = 3"
definition TAG_EPOCH :: byte where "TAG_EPOCH = 4"

lemmas tag_defs = TAG_ENVELOPE_def TAG_CRED_ID_def TAG_FILE_def TAG_EPOCH_def

record bundle_t =
  b_envelope :: bytes
  b_cred_id :: bytes
  b_files :: "(str \<times> bytes) list"
  b_epoch :: bytes

datatype bundle_error =
    BadMagic | UnsupportedVersion byte | LengthOverflow | Truncated | NotUtf8
  | UnknownTag byte | NoEnvelope

definition blob_section :: "byte \<Rightarrow> bytes \<Rightarrow> bytes" where
  "blob_section tag s = tag # nat_le 4 (length s) @ s"

definition file_section :: "str \<times> bytes \<Rightarrow> bytes" where
  "file_section f = TAG_FILE # nat_le 2 (length (fst f)) @ fst f @ nat_le 4 (length (snd f)) @ snd f"

definition bundle_encode :: "bytes \<Rightarrow> bytes \<Rightarrow> (str \<times> bytes) list \<Rightarrow> bytes \<Rightarrow> bytes" where
  "bundle_encode envelope cred_id files epoch =
     BUNDLE_MAGIC @ [BUNDLE_VERSION] @ blob_section TAG_ENVELOPE envelope
     @ (if cred_id = [] then [] else blob_section TAG_CRED_ID cred_id)
     @ concat (map file_section files)
     @ (if epoch = [] then [] else blob_section TAG_EPOCH epoch)"

section \<open>The parser\<close>

definition bundle_take :: "bytes \<Rightarrow> nat \<Rightarrow> nat \<Rightarrow> bundle_error + (bytes \<times> nat)" where
  "bundle_take = cur_take USIZE_MAX_32 LengthOverflow Truncated"

definition bundle_take_u16 :: "bytes \<Rightarrow> nat \<Rightarrow> bundle_error + (nat \<times> nat)" where
  "bundle_take_u16 b at = try_then (bundle_take b at 2) (\<lambda>(s, at'). Inr (le_nat s, at'))"

definition bundle_take_u32 :: "bytes \<Rightarrow> nat \<Rightarrow> bundle_error + (nat \<times> nat)" where
  "bundle_take_u32 b at = try_then (bundle_take b at 4) (\<lambda>(s, at'). Inr (le_nat s, at'))"

text \<open>A section whose payload is a \<open>u32\<close> length and that many bytes.\<close>

definition take_blob :: "bytes \<Rightarrow> nat \<Rightarrow> bundle_error + (bytes \<times> nat)" where
  "take_blob bytes at =
     try_then (bundle_take_u32 bytes at) (\<lambda>(n, at'). bundle_take bytes at' n)"

definition take_file :: "bytes \<Rightarrow> nat \<Rightarrow> bundle_error + ((str \<times> bytes) \<times> nat)" where
  "take_file bytes at =
     try_then (bundle_take_u16 bytes at) (\<lambda>(nlen, at1).
     try_then (bundle_take bytes at1 nlen) (\<lambda>(raw, at2).
     try_then (of_option NotUtf8 (from_utf8 raw)) (\<lambda>name.
     try_then (bundle_take_u32 bytes at2) (\<lambda>(dlen, at3).
     try_then (bundle_take bytes at3 dlen) (\<lambda>(data, at4). Inr ((name, data), at4))))))"

text \<open>One turn of the \<open>while\<close> loop: the tag at the cursor and its section.\<close>

definition bundle_section ::
  "bytes \<Rightarrow> bundle_t \<times> bool \<Rightarrow> nat \<Rightarrow> bundle_error + ((bundle_t \<times> bool) \<times> nat)" where
  "bundle_section bytes st at =
     (let tag = bytes ! at; b = fst st; have_envelope = snd st in
      if tag = TAG_ENVELOPE then
        try_then (take_blob bytes (at + 1)) (\<lambda>(s, at'). Inr ((b\<lparr>b_envelope := s\<rparr>, True), at'))
      else if tag = TAG_CRED_ID then
        try_then (take_blob bytes (at + 1)) (\<lambda>(s, at'). Inr ((b\<lparr>b_cred_id := s\<rparr>, have_envelope), at'))
      else if tag = TAG_FILE then
        try_then (take_file bytes (at + 1))
          (\<lambda>(f, at'). Inr ((b\<lparr>b_files := b_files b @ [f]\<rparr>, have_envelope), at'))
      else if tag = TAG_EPOCH then
        try_then (take_blob bytes (at + 1)) (\<lambda>(s, at'). Inr ((b\<lparr>b_epoch := s\<rparr>, have_envelope), at'))
      else Inl (UnknownTag tag))"

lemma bundle_take_Inr_iff [result_simps]:
  "bundle_take b at n = Inr (s, at') \<longleftrightarrow>
     at' = at + n \<and> s = slice at n b \<and> at + n \<le> USIZE_MAX_32 \<and> at + n \<le> length b"
  by (simp add: bundle_take_def cur_take_Inr_iff)

lemma take_blob_progress: "take_blob bytes at = Inr (s, at') \<Longrightarrow> at \<le> at' \<and> at' \<le> length bytes"
  by (auto simp: take_blob_def bundle_take_u32_def result_simps)

lemma take_file_progress: "take_file bytes at = Inr (f, at') \<Longrightarrow> at \<le> at' \<and> at' \<le> length bytes"
  by (auto simp: take_file_def bundle_take_u16_def bundle_take_u32_def result_simps)

lemma bundle_section_progress:
  "bundle_section bytes st at = Inr (st', at') \<Longrightarrow> at < at' \<and> at' \<le> length bytes"
  by (auto simp: bundle_section_def Let_def try_then_Inr_iff split: if_splits
      dest: take_blob_progress take_file_progress)

function bundle_loop :: "bytes \<Rightarrow> bundle_t \<times> bool \<Rightarrow> nat \<Rightarrow> bundle_error + (bundle_t \<times> bool)" where
  "bundle_loop bytes st at =
     (if at < length bytes then
        (case bundle_section bytes st at of
           Inl e \<Rightarrow> Inl e
         | Inr (st', at') \<Rightarrow> bundle_loop bytes st' at')
      else Inr st)"
  by pat_completeness auto
termination
  by (relation "measure (\<lambda>(bytes, st, at). length bytes - at)")
    (auto dest: bundle_section_progress)

declare bundle_loop.simps [simp del]

definition empty_bundle :: bundle_t where
  "empty_bundle = \<lparr>b_envelope = [], b_cred_id = [], b_files = [], b_epoch = []\<rparr>"

definition bundle_decode :: "bytes \<Rightarrow> bundle_error + bundle_t" where
  "bundle_decode bytes =
     (if length bytes < 9 \<or> take 8 bytes \<noteq> BUNDLE_MAGIC then Inl BadMagic
      else if bytes ! 8 \<noteq> BUNDLE_VERSION then Inl (UnsupportedVersion (bytes ! 8))
      else try_then (bundle_loop bytes (empty_bundle, False) 9) (\<lambda>(b, have_envelope).
        if \<not> have_envelope then Inl NoEnvelope else Inr b))"

section \<open>Round trip\<close>

definition bundle_wf :: "bundle_t \<Rightarrow> bool" where
  "bundle_wf b \<longleftrightarrow> list_all (\<lambda>f. utf8_valid (fst f) \<and> length (fst f) < 2 ^ 16) (b_files b)"

definition bundle_bytes :: "bundle_t \<Rightarrow> bytes" where
  "bundle_bytes b = bundle_encode (b_envelope b) (b_cred_id b) (b_files b) (b_epoch b)"

lemma view_le_u32: "view USIZE_MAX_32 buf at rest \<Longrightarrow> length rest < 256 ^ 4"
  by (auto simp: view_def USIZE_MAX_32_def)

lemma view_take_blob:
  assumes v: "view USIZE_MAX_32 buf at (nat_le 4 (length s) @ s @ rest)"
  shows "take_blob buf at = Inr (s, at + 4 + length s)"
    and "view USIZE_MAX_32 buf (at + 4 + length s) rest"
proof -
  have l: "length s < 256 ^ 4" using view_le_u32 [OF v] by simp
  have v1: "view USIZE_MAX_32 buf (at + 4) (s @ rest)" using v by (rule view_next) simp
  show "take_blob buf at = Inr (s, at + 4 + length s)"
    using view_take [OF v, of 4 LengthOverflow Truncated] view_take [OF v1 refl, of LengthOverflow Truncated] l
    by (simp add: take_blob_def bundle_take_u32_def bundle_take_def)
  show "view USIZE_MAX_32 buf (at + 4 + length s) rest" using v1 by (rule view_next) simp
qed

lemma view_blob_section:
  assumes v: "view USIZE_MAX_32 buf at (blob_section tag s @ rest)"
  shows "buf ! at = tag" and "take_blob buf (at + 1) = Inr (s, at + length (blob_section tag s))"
    and "view USIZE_MAX_32 buf (at + length (blob_section tag s)) rest"
proof -
  have v': "view USIZE_MAX_32 buf at (tag # nat_le 4 (length s) @ s @ rest)"
    using v by (simp add: blob_section_def)
  note c = view_Cons [OF v']
  then show "buf ! at = tag" by simp
  from c have v1: "view USIZE_MAX_32 buf (Suc at) (nat_le 4 (length s) @ s @ rest)" by simp
  show "take_blob buf (at + 1) = Inr (s, at + length (blob_section tag s))"
    using view_take_blob(1) [OF v1] by (simp add: blob_section_def)
  show "view USIZE_MAX_32 buf (at + length (blob_section tag s)) rest"
    using view_take_blob(2) [OF v1] by (simp add: blob_section_def ac_simps)
qed

lemma view_file_section:
  assumes v: "view USIZE_MAX_32 buf at (file_section f @ rest)"
    and wf: "utf8_valid (fst f)" "length (fst f) < 2 ^ 16"
  shows "buf ! at = TAG_FILE" and "take_file buf (at + 1) = Inr (f, at + length (file_section f))"
    and "view USIZE_MAX_32 buf (at + length (file_section f)) rest"
proof -
  obtain n d where f: "f = (n, d)" by fastforce
  have v0: "view USIZE_MAX_32 buf at
      (TAG_FILE # nat_le 2 (length n) @ n @ nat_le 4 (length d) @ d @ rest)"
    using v f by (simp add: file_section_def)
  note c = view_Cons [OF v0]
  then show "buf ! at = TAG_FILE" by simp
  from c have v1: "view USIZE_MAX_32 buf (Suc at)
      (nat_le 2 (length n) @ n @ nat_le 4 (length d) @ d @ rest)" by simp
  have v2: "view USIZE_MAX_32 buf (Suc at + 2) (n @ nat_le 4 (length d) @ d @ rest)"
    using v1 by (rule view_next) simp
  have v3: "view USIZE_MAX_32 buf (Suc at + 2 + length n) (nat_le 4 (length d) @ d @ rest)"
    using v2 by (rule view_next) simp
  have l: "length d < 256 ^ 4" using view_le_u32 [OF v3] by simp
  have v4: "view USIZE_MAX_32 buf (Suc at + 2 + length n + 4) (d @ rest)"
    using v3 by (rule view_next) simp
  note t = view_take [where ovf = LengthOverflow and trunc = Truncated]
  show "take_file buf (at + 1) = Inr (f, at + length (file_section f))"
    using t [OF v1, of 2] t [OF v2 refl] t [OF v3, of 4] t [OF v4 refl] l wf f
    by (simp add: take_file_def bundle_take_u16_def bundle_take_u32_def bundle_take_def
        file_section_def from_utf8_def)
  show "view USIZE_MAX_32 buf (at + length (file_section f)) rest"
    using v4 by (rule view_next) (simp add: f file_section_def)
qed

lemma bundle_loop_step:
  "at < length bytes \<Longrightarrow> bundle_section bytes st at = Inr (st', at') \<Longrightarrow>
   bundle_loop bytes st at = bundle_loop bytes st' at'"
  by (subst bundle_loop.simps) simp

lemma bundle_loop_files:
  "view USIZE_MAX_32 buf at (concat (map file_section fs) @ rest) \<Longrightarrow>
   list_all (\<lambda>f. utf8_valid (fst f) \<and> length (fst f) < 2 ^ 16) fs \<Longrightarrow>
   bundle_loop buf (b, h) at =
     bundle_loop buf (b\<lparr>b_files := b_files b @ fs\<rparr>, h) (at + length (concat (map file_section fs)))"
proof (induction fs arbitrary: b at)
  case Nil
  then show ?case by simp
next
  case (Cons f fs)
  from Cons.prems(1) have v:
    "view USIZE_MAX_32 buf at (file_section f @ concat (map file_section fs) @ rest)"
    by simp
  from Cons.prems(2) have wf: "utf8_valid (fst f)" "length (fst f) < 2 ^ 16" by simp_all
  note s = view_file_section [OF v wf]
  have "bundle_section buf (b, h) at
      = Inr ((b\<lparr>b_files := b_files b @ [f]\<rparr>, h), at + length (file_section f))"
    using s by (simp add: bundle_section_def Let_def tag_defs)
  moreover have "at < length buf"
    using v by (rule view_nonempty) (simp add: file_section_def)
  ultimately have "bundle_loop buf (b, h) at
      = bundle_loop buf (b\<lparr>b_files := b_files b @ [f]\<rparr>, h) (at + length (file_section f))"
    by (simp add: bundle_loop_step)
  then show ?case
    using Cons.IH [OF s(3)] Cons.prems(2) by (simp add: add.assoc)
qed

text \<open>An optional trailing section: absent when empty.\<close>

lemma bundle_loop_cred:
  assumes "view USIZE_MAX_32 buf at ((if c = [] then [] else blob_section TAG_CRED_ID c) @ rest)"
    and "b_cred_id b = []"
  shows "\<exists>at'. bundle_loop buf (b, h) at = bundle_loop buf (b\<lparr>b_cred_id := c\<rparr>, h) at'
      \<and> view USIZE_MAX_32 buf at' rest"
proof (cases "c = []")
  case True
  then have "b\<lparr>b_cred_id := c\<rparr> = b" using assms(2) by simp
  then show ?thesis using assms(1) True by (intro exI [of _ at]) simp
next
  case False
  then have v: "view USIZE_MAX_32 buf at (blob_section TAG_CRED_ID c @ rest)"
    using assms(1) by simp
  note s = view_blob_section [OF v]
  have "at < length buf" using v by (rule view_nonempty) (simp add: blob_section_def)
  moreover have "bundle_section buf (b, h) at
      = Inr ((b\<lparr>b_cred_id := c\<rparr>, h), at + length (blob_section TAG_CRED_ID c))"
    using s by (simp add: bundle_section_def Let_def tag_defs)
  ultimately show ?thesis using s(3) bundle_loop_step by blast
qed

lemma bundle_loop_epoch:
  assumes "view USIZE_MAX_32 buf at (if c = [] then [] else blob_section TAG_EPOCH c)"
    and "b_epoch b = []"
  shows "bundle_loop buf (b, h) at = Inr (b\<lparr>b_epoch := c\<rparr>, h)"
proof (cases "c = []")
  case True
  then have "b\<lparr>b_epoch := c\<rparr> = b" using assms(2) by simp
  moreover have "at = length buf" using assms(1) True view_end by simp
  ultimately show ?thesis by (subst bundle_loop.simps) simp
next
  case False
  then have v: "view USIZE_MAX_32 buf at (blob_section TAG_EPOCH c @ [])"
    using assms(1) by simp
  note s = view_blob_section [OF v]
  have "at < length buf" using v by (rule view_nonempty) (simp add: blob_section_def)
  moreover have "bundle_section buf (b, h) at
      = Inr ((b\<lparr>b_epoch := c\<rparr>, h), at + length (blob_section TAG_EPOCH c))"
    using s by (simp add: bundle_section_def Let_def tag_defs)
  ultimately have "bundle_loop buf (b, h) at
      = bundle_loop buf (b\<lparr>b_epoch := c\<rparr>, h) (at + length (blob_section TAG_EPOCH c))"
    by (rule bundle_loop_step)
  also have "\<dots> = Inr (b\<lparr>b_epoch := c\<rparr>, h)"
    using view_end [OF s(3)] by (subst bundle_loop.simps) simp
  finally show ?thesis .
qed

lemma bundle_decode_encode:
  assumes wf: "bundle_wf b" and fits: "length (bundle_bytes b) \<le> USIZE_MAX_32"
  shows "bundle_decode (bundle_bytes b) = Inr b"
proof -
  let ?buf = "bundle_bytes b"
  let ?cred = "if b_cred_id b = [] then [] else blob_section TAG_CRED_ID (b_cred_id b)"
  let ?fs = "concat (map file_section (b_files b))"
  let ?ep = "if b_epoch b = [] then [] else blob_section TAG_EPOCH (b_epoch b)"
  let ?hd = "BUNDLE_MAGIC @ [BUNDLE_VERSION]"
  let ?b1 = "empty_bundle\<lparr>b_envelope := b_envelope b\<rparr>"
  let ?b2 = "?b1\<lparr>b_cred_id := b_cred_id b\<rparr>"
  have buf: "?buf = ?hd @ blob_section TAG_ENVELOPE (b_envelope b) @ ?cred @ ?fs @ ?ep"
    by (simp add: bundle_bytes_def bundle_encode_def)
  have v: "view USIZE_MAX_32 ?buf 9 (blob_section TAG_ENVELOPE (b_envelope b) @ ?cred @ ?fs @ ?ep)"
  proof -
    have "?buf = ?hd @ (blob_section TAG_ENVELOPE (b_envelope b) @ ?cred @ ?fs @ ?ep)"
      unfolding buf by simp
    then show ?thesis
      unfolding view_def using fits by (intro conjI exI [of _ ?hd]) (simp_all add: BUNDLE_MAGIC_def)
  qed
  note s = view_blob_section [OF v]
  have "bundle_section ?buf (empty_bundle, False) 9
      = Inr ((?b1, True), 9 + length (blob_section TAG_ENVELOPE (b_envelope b)))"
    using s by (simp add: bundle_section_def Let_def tag_defs)
  moreover have "9 < length ?buf" using v by (rule view_nonempty) (simp add: blob_section_def)
  ultimately have "bundle_loop ?buf (empty_bundle, False) 9
      = bundle_loop ?buf (?b1, True) (9 + length (blob_section TAG_ENVELOPE (b_envelope b)))"
    by (simp add: bundle_loop_step)
  moreover obtain at2 where "bundle_loop ?buf (?b1, True)
        (9 + length (blob_section TAG_ENVELOPE (b_envelope b))) = bundle_loop ?buf (?b2, True) at2"
    and v2: "view USIZE_MAX_32 ?buf at2 (?fs @ ?ep)"
    using bundle_loop_cred [OF s(3), of ?b1 True] by (auto simp: empty_bundle_def)
  moreover have "bundle_loop ?buf (?b2, True) at2
      = bundle_loop ?buf (?b2\<lparr>b_files := b_files b\<rparr>, True) (at2 + length ?fs)"
    using bundle_loop_files [OF v2, of ?b2 True] wf
    by (simp add: bundle_wf_def empty_bundle_def)
  moreover have "bundle_loop ?buf (?b2\<lparr>b_files := b_files b\<rparr>, True) (at2 + length ?fs)
      = Inr (?b2\<lparr>b_files := b_files b, b_epoch := b_epoch b\<rparr>, True)"
    using bundle_loop_epoch [OF view_next [OF v2 refl]] by (simp add: empty_bundle_def)
  moreover have "?b2\<lparr>b_files := b_files b, b_epoch := b_epoch b\<rparr> = b"
    by (simp add: empty_bundle_def)
  moreover have "take 8 ?buf = BUNDLE_MAGIC" and "?buf ! 8 = BUNDLE_VERSION" and "\<not> length ?buf < 9"
    by (simp_all add: buf BUNDLE_MAGIC_def nth_append)
  ultimately show ?thesis by (simp add: bundle_decode_def)
qed

definition bundle_decode_opt :: "bytes \<Rightarrow> bundle_t option" where
  "bundle_decode_opt bs = (case bundle_decode bs of Inl e \<Rightarrow> None | Inr b \<Rightarrow> Some b)"

interpretation bundle_codec: codec bundle_bytes bundle_decode_opt
  "\<lambda>b. bundle_wf b \<and> length (bundle_bytes b) \<le> USIZE_MAX_32"
  by unfold_locales (simp add: bundle_decode_opt_def bundle_decode_encode)

section \<open>Properties\<close>

text \<open>a bundle decodes to exactly what was encoded, with any number of files in their order, and
  absent optional sections come back empty; a buffer of another format or version is refused
  before any section is read.\<close>

theorem bundle_roundtrip:
  assumes "\<forall>f \<in> set files. utf8_valid (fst f) \<and> length (fst f) < 2 ^ 16"
    and "length (bundle_encode envelope cred files epoch) < 2 ^ 32"
  shows "bundle_decode (bundle_encode envelope cred files epoch)
      = Inr \<lparr>b_envelope = envelope, b_cred_id = cred, b_files = files, b_epoch = epoch\<rparr>
    \<and> (\<forall>bytes. take 8 bytes \<noteq> BUNDLE_MAGIC \<longrightarrow> bundle_decode bytes = Inl BadMagic)
    \<and> (\<forall>bytes. 9 \<le> length bytes \<and> take 8 bytes = BUNDLE_MAGIC \<and> bytes ! 8 \<noteq> BUNDLE_VERSION
         \<longrightarrow> bundle_decode bytes = Inl (UnsupportedVersion (bytes ! 8)))"
proof -
  let ?b = "\<lparr>b_envelope = envelope, b_cred_id = cred, b_files = files, b_epoch = epoch\<rparr>"
  have "bundle_wf ?b" using assms(1) by (simp add: bundle_wf_def list_all_iff)
  moreover have "length (bundle_bytes ?b) \<le> USIZE_MAX_32" using assms(2) by (simp add: bundle_bytes_def USIZE_MAX_32_def)
  ultimately have "bundle_decode (bundle_bytes ?b) = Inr ?b" by (rule bundle_decode_encode)
  then show ?thesis by (simp add: bundle_bytes_def bundle_decode_def)
qed

theorem bundle_roundtrip_witness:
  "bundle_decode (bundle_encode [1, 2] [] [(ascii ''a.db'', [5]), (ascii ''b.db'', [])] [9])
     = Inr \<lparr>b_envelope = [1, 2], b_cred_id = [], b_files = [(ascii ''a.db'', [5]), (ascii ''b.db'', [])], b_epoch = [9]\<rparr>"
proof -
  have "utf8_valid (ascii ''a.db'')" "utf8_valid (ascii ''b.db'')" by (rule utf8_valid_ascii; auto)+
  then show ?thesis
    using bundle_roundtrip [of "[(ascii ''a.db'', [5]), (ascii ''b.db'', [])]" "[1, 2]" "[]" "[9]"]
    by (simp add: bundle_encode_def blob_section_def file_section_def BUNDLE_MAGIC_def)
qed

end
