(* ===== verification/Prims.thy ===== *)
theory Prims
  imports Utf8
begin

text \<open>
  The third-party code the program calls, as a parameter. A record of functions stands for
  XChaCha20-Poly1305 (\<open>chacha20poly1305\<close>), SHA-256 (\<open>sha2\<close>), HKDF-SHA256 without salt
  (\<open>hkdf\<close>), HMAC-SHA256 (\<open>hmac\<close>), Argon2id (\<open>argon2\<close>), Ed25519 (\<open>ed25519-dalek\<close>) and the
  Unicode table behind \<open>str::to_uppercase\<close>; every definition that uses one takes the record
  as its first argument. What the code relies on is a named predicate over the record, and a
  small executable instance shows that the predicates can hold.

  The random source \<open>getrandom\<close> is the list of the outcomes of its calls, consumed in order.
\<close>

section \<open>The primitives\<close>

record prims =
  aead_enc :: "bytes \<Rightarrow> bytes \<Rightarrow> bytes \<Rightarrow> bytes \<Rightarrow> (bytes \<times> bytes) option"
    \<comment> \<open>\<open>encrypt_in_place_detached\<close>: key, nonce, associated data, plaintext to ciphertext and tag\<close>
  aead_dec :: "bytes \<Rightarrow> bytes \<Rightarrow> bytes \<Rightarrow> bytes \<Rightarrow> bytes \<Rightarrow> bytes option"
    \<comment> \<open>\<open>decrypt_in_place_detached\<close>: key, nonce, associated data, ciphertext, tag to plaintext\<close>
  sha256 :: "bytes \<Rightarrow> bytes"
  hkdf :: "bytes \<Rightarrow> bytes \<Rightarrow> bytes"
    \<comment> \<open>\<open>Hkdf::<Sha256>::new(None, ikm).expand(info, 32 bytes)\<close>\<close>
  hmac :: "bytes \<Rightarrow> bytes \<Rightarrow> bytes"
  argon2id :: "nat \<Rightarrow> nat \<Rightarrow> nat \<Rightarrow> bytes \<Rightarrow> bytes \<Rightarrow> bytes option"
    \<comment> \<open>memory, time and lane costs, password, salt; a 32-byte key\<close>
  ed_pk :: "bytes \<Rightarrow> bytes"
    \<comment> \<open>\<open>SigningKey::from_bytes(seed).verifying_key()\<close>\<close>
  ed_sign :: "bytes \<Rightarrow> bytes \<Rightarrow> bytes"
  ed_pk_ok :: "bytes \<Rightarrow> bool"
    \<comment> \<open>\<open>VerifyingKey::from_bytes\<close> accepts the key\<close>
  ed_verify :: "bytes \<Rightarrow> bytes \<Rightarrow> bytes \<Rightarrow> bool"
    \<comment> \<open>\<open>verify_strict\<close>: key, message, signature\<close>
  to_upper :: "str \<Rightarrow> str"

section \<open>Documented behaviour\<close>

text \<open>
  An authenticated encryption: for a 32-byte key and a 24-byte nonce it succeeds on every
  message that fits a 32-bit address space, keeps the length, and decryption inverts it.
  The last clause says that a tag is accepted only for the ciphertext and tag that
  encryption produces for the decrypted message.
\<close>

definition aead_ok :: "'z prims_scheme \<Rightarrow> bool" where
  "aead_ok P \<longleftrightarrow>
     (\<forall>k n a p. length k = 32 \<longrightarrow> length n = 24 \<longrightarrow> length p < 2 ^ 32 \<longrightarrow>
        (\<exists>c t. aead_enc P k n a p = Some (c, t) \<and> length c = length p \<and> length t = 16
             \<and> aead_dec P k n a c t = Some p))
   \<and> (\<forall>k n a c t p. aead_dec P k n a c t = Some p \<longrightarrow>
        length p = length c \<and> aead_enc P k n a p = Some (c, t))"

definition hash_ok :: "'z prims_scheme \<Rightarrow> bool" where
  "hash_ok P \<longleftrightarrow> (\<forall>x. length (sha256 P x) = 32) \<and> (\<forall>k i. length (hkdf P k i) = 32)
     \<and> (\<forall>k x. length (hmac P k x) = 32)"

definition ed_ok :: "'z prims_scheme \<Rightarrow> bool" where
  "ed_ok P \<longleftrightarrow> (\<forall>s. length s = 32 \<longrightarrow> length (ed_pk P s) = 32 \<and> ed_pk_ok P (ed_pk P s)
     \<and> (\<forall>m. length (ed_sign P s m) = 64 \<and> ed_verify P (ed_pk P s) m (ed_sign P s m)))"

definition argon_ok :: "'z prims_scheme \<Rightarrow> bool" where
  "argon_ok P \<longleftrightarrow> (\<forall>m t p pw salt k. argon2id P m t p pw salt = Some k \<longrightarrow> length k = 32)"

definition ascii_upper :: "byte \<Rightarrow> byte" where
  "ascii_upper b = (if 97 \<le> b \<and> b \<le> 122 then b - 32 else b)"

definition upper_ok :: "'z prims_scheme \<Rightarrow> bool" where
  "upper_ok P \<longleftrightarrow> (\<forall>s. list_all (\<lambda>b. b < 0x80) s \<longrightarrow> to_upper P s = map ascii_upper s)"

text \<open>A set of messages on which the hash has no collision.\<close>

definition collision_free :: "'z prims_scheme \<Rightarrow> bytes set \<Rightarrow> bool" where
  "collision_free P M \<longleftrightarrow> inj_on (sha256 P) M"

lemma aead_okD:
  assumes "aead_ok P" and "length k = 32" and "length n = 24" and "length p < 2 ^ 32"
  obtains c t where "aead_enc P k n a p = Some (c, t)" and "length c = length p"
    and "length t = 16" and "aead_dec P k n a c t = Some p"
  using assms unfolding aead_ok_def by blast

lemma aead_ok_dec: "aead_ok P \<Longrightarrow> aead_dec P k n a c t = Some p \<Longrightarrow>
    length p = length c \<and> aead_enc P k n a p = Some (c, t)"
  unfolding aead_ok_def by blast

lemma hash_ok_lengths [len_simps]:
  assumes "hash_ok P"
  shows "length (sha256 P x) = 32" and "length (hkdf P k i) = 32" and "length (hmac P k y) = 32"
  using assms by (auto simp: hash_ok_def)

section \<open>The random source\<close>

type_synonym rng = "bytes option list"

text \<open>One call of \<open>getrandom\<close> for \<open>n\<close> bytes; \<open>None\<close> is an error of the source.\<close>

fun getrandom :: "nat \<Rightarrow> rng \<Rightarrow> bytes option \<times> rng" where
  "getrandom n [] = (None, [])"
| "getrandom n (None # ds) = (None, ds)"
| "getrandom n (Some bs # ds) = (if length bs = n then (Some bs, ds) else (None, ds))"

text \<open>
  The pattern of every key, nonce and identifier draw: fail on an error of the source and on
  an all-zero result.
\<close>

definition draw_nonzero :: "nat \<Rightarrow> rng \<Rightarrow> bytes option \<times> rng" where
  "draw_nonzero n r = (case getrandom n r of
       (None, r') \<Rightarrow> (None, r')
     | (Some bs, r') \<Rightarrow> if list_all (\<lambda>b. b = 0) bs then (None, r') else (Some bs, r'))"

lemma getrandom_length: "getrandom n r = (Some bs, r') \<Longrightarrow> length bs = n"
  by (induction n r rule: getrandom.induct) (auto split: if_splits)

lemma draw_nonzero_length: "draw_nonzero n r = (Some bs, r') \<Longrightarrow> length bs = n"
  by (auto simp: draw_nonzero_def dest: getrandom_length split: prod.splits option.splits if_splits)

lemma draw_nonzero_nonzero: "draw_nonzero n r = (Some bs, r') \<Longrightarrow> \<exists>b \<in> set bs. b \<noteq> 0"
  by (auto simp: draw_nonzero_def list_all_iff split: prod.splits option.splits if_splits)

lemma draw_nonzero_Cons [simp]:
  "draw_nonzero n (Some bs # r) =
     (if length bs = n \<and> \<not> list_all (\<lambda>b. b = 0) bs then (Some bs, r) else (None, r))"
  by (simp add: draw_nonzero_def)

section \<open>A small executable instance\<close>

text \<open>
  Used by the witnesses only: the \<open>hash\<close> keeps the length and the last bytes, the \<open>cipher\<close>
  leaves the text as it is and appends a checksum of the key and of the associated data, so
  every documented law above holds and every term can be evaluated. It has none of the
  secrecy of the real primitives.
\<close>

definition toy_hash :: "bytes \<Rightarrow> bytes" where
  "toy_hash x = word_of_nat (length x) # take 31 (rev x @ replicate 31 0)"

definition toy_tag :: "bytes \<Rightarrow> bytes \<Rightarrow> bytes \<Rightarrow> bytes \<Rightarrow> bytes" where
  "toy_tag k n a p = sum_list k # take 15 (toy_hash a)"

definition toy :: prims where
  "toy = \<lparr>
     aead_enc = (\<lambda>k n a p. Some (p, toy_tag k n a p)),
     aead_dec = (\<lambda>k n a c t. if t = toy_tag k n a c then Some c else None),
     sha256 = toy_hash,
     hkdf = (\<lambda>k i. take 16 (toy_hash k) @ take 16 (toy_hash i)),
     hmac = (\<lambda>k x. toy_hash (x @ k)),
     argon2id = (\<lambda>m t p pw salt. Some (toy_hash (pw @ salt))),
     ed_pk = (\<lambda>s. s),
     ed_sign = (\<lambda>s m. toy_hash (s @ m) @ toy_hash m),
     ed_pk_ok = (\<lambda>p. length p = 32),
     ed_verify = (\<lambda>p m g. g = toy_hash (p @ m) @ toy_hash m),
     to_upper = map ascii_upper \<rparr>"

lemma toy_simps [simp]:
  "aead_enc toy k n a p = Some (p, toy_tag k n a p)"
  "aead_dec toy k n a c t = (if t = toy_tag k n a c then Some c else None)"
  "sha256 toy x = toy_hash x"
  "hkdf toy k i = take 16 (toy_hash k) @ take 16 (toy_hash i)"
  "hmac toy k x = toy_hash (x @ k)"
  "argon2id toy mc tc pc pw salt = Some (toy_hash (pw @ salt))"
  "ed_pk toy s = s"
  "ed_sign toy s x = toy_hash (s @ x) @ toy_hash x"
  "ed_pk_ok toy s \<longleftrightarrow> length s = 32"
  "ed_verify toy s x g \<longleftrightarrow> g = toy_hash (s @ x) @ toy_hash x"
  "to_upper toy u = map ascii_upper u"
  by (simp_all add: toy_def)

lemma length_toy_hash [simp]: "length (toy_hash x) = 32"
  by (simp add: toy_hash_def)

lemma length_toy_tag [simp]: "length (toy_tag k n a p) = 16"
  by (simp add: toy_tag_def)

lemma toy_aead_ok [simp]: "aead_ok toy"
  by (auto simp: aead_ok_def split: if_splits)

lemma toy_hash_ok [simp]: "hash_ok toy"
  by (simp add: hash_ok_def)

lemma toy_ed_ok [simp]: "ed_ok toy"
  by (simp add: ed_ok_def)

lemma toy_argon_ok [simp]: "argon_ok toy"
  by (auto simp: argon_ok_def)

lemma toy_upper_ok [simp]: "upper_ok toy"
  by (simp add: upper_ok_def)

end
