(* ===== verification/Crypto_Core.thy ===== *)
theory Crypto_Core
  imports Prims
begin

text \<open>
  \<open>crates/freehold/src/crypto.rs\<close>: the sealing of blocks and of small payloads, the domain
  separated subkeys, the file identifier, the full-state root and the draws from the random
  source. A \<open>Crypto\<close> value is the 32-byte subkey it holds.
\<close>

section \<open>Constants and errors\<close>

definition BLOCK_SIZE :: nat where "BLOCK_SIZE = 4096"
definition NONCE_LEN :: nat where "NONCE_LEN = 24"
definition TAG_LEN :: nat where "TAG_LEN = 16"
definition PHYS_BLOCK :: nat where "PHYS_BLOCK = BLOCK_SIZE + NONCE_LEN + TAG_LEN"
definition CIPHER_ID :: byte where "CIPHER_ID = 1"
definition FILE_ID_LEN :: nat where "FILE_ID_LEN = 16"
definition KEY_DOMAIN_LEN :: nat where "KEY_DOMAIN_LEN = 16"
definition NO_DOMAIN :: bytes where "NO_DOMAIN = replicate KEY_DOMAIN_LEN 0"
definition AAD_LEN :: nat where "AAD_LEN = FILE_ID_LEN + KEY_DOMAIN_LEN + 8 + 4 + 1"
definition MERKLE_ROOT_LABEL :: bytes where
  "MERKLE_ROOT_LABEL = ascii ''freehold/full-state-root-v1''"
definition ZERO_ROOT :: bytes where "ZERO_ROOT = replicate 32 0"

lemmas size_defs = BLOCK_SIZE_def NONCE_LEN_def TAG_LEN_def PHYS_BLOCK_def FILE_ID_LEN_def
  KEY_DOMAIN_LEN_def AAD_LEN_def

text \<open>\<open>AssertFailed\<close> is a failed \<open>assert_eq!\<close> on a buffer length, which aborts the program.\<close>

datatype crypto_error = Rng | Seal | Open | AssertFailed

type_synonym crypto = bytes

section \<open>Subkeys\<close>

definition from_info :: "'z prims_scheme \<Rightarrow> bytes \<Rightarrow> bytes \<Rightarrow> crypto" where
  "from_info P dek info = hkdf P dek info"

definition pool_key :: "'z prims_scheme \<Rightarrow> bytes \<Rightarrow> crypto" where
  "pool_key P dek = from_info P dek (ascii ''freehold-v1'')"

definition db_key :: "'z prims_scheme \<Rightarrow> bytes \<Rightarrow> bytes \<Rightarrow> crypto" where
  "db_key P dek db_uuid =
     from_info P dek (ascii ''freehold/vfs-db-v1'' @ [0] @ db_uuid)"

definition anchor_key :: "'z prims_scheme \<Rightarrow> bytes \<Rightarrow> crypto" where
  "anchor_key P dek = from_info P dek (ascii ''freehold-anchor-v1'')"

definition epoch_key :: "'z prims_scheme \<Rightarrow> bytes \<Rightarrow> crypto" where
  "epoch_key P dek = from_info P dek (ascii ''freehold-epoch-v1'')"

definition sync_key :: "'z prims_scheme \<Rightarrow> bytes \<Rightarrow> crypto" where
  "sync_key P dek = from_info P dek (ascii ''freehold-sync-v1'')"

definition rotate_intent_key :: "'z prims_scheme \<Rightarrow> bytes \<Rightarrow> crypto" where
  "rotate_intent_key P dek = from_info P dek (ascii ''freehold-rotate-intent-v1'')"

definition trust_seal_key :: "'z prims_scheme \<Rightarrow> bytes \<Rightarrow> crypto" where
  "trust_seal_key P dek = from_info P dek (ascii ''freehold-vault-trust-v1'')"

lemmas subkey_defs = pool_key_def db_key_def anchor_key_def epoch_key_def sync_key_def
  rotate_intent_key_def trust_seal_key_def

lemma length_subkeys [len_simps]:
  assumes "hash_ok P"
  shows "length (pool_key P d) = 32" and "length (db_key P d u) = 32"
    and "length (anchor_key P d) = 32" and "length (epoch_key P d) = 32"
    and "length (sync_key P d) = 32" and "length (rotate_intent_key P d) = 32"
    and "length (trust_seal_key P d) = 32"
  using assms by (simp_all add: subkey_defs from_info_def hash_ok_lengths)

section \<open>Small payloads\<close>

definition seal_bytes ::
  "'z prims_scheme \<Rightarrow> crypto \<Rightarrow> bytes \<Rightarrow> bytes \<Rightarrow> rng \<Rightarrow> (crypto_error + bytes) \<times> rng" where
  "seal_bytes P key aad plaintext r =
     (case draw_nonzero NONCE_LEN r of
        (None, r') \<Rightarrow> (Inl Rng, r')
      | (Some nonce, r') \<Rightarrow>
          (case aead_enc P key nonce aad plaintext of
             None \<Rightarrow> (Inl Seal, r')
           | Some (ct, tag) \<Rightarrow> (Inr (nonce @ ct @ tag), r')))"

definition open_bytes :: "'z prims_scheme \<Rightarrow> crypto \<Rightarrow> bytes \<Rightarrow> bytes \<Rightarrow> crypto_error + bytes" where
  "open_bytes P key aad sealed =
     (if length sealed < NONCE_LEN + TAG_LEN then Inl Open
      else let nonce = take NONCE_LEN sealed; rest = drop NONCE_LEN sealed;
               ct = take (length rest - TAG_LEN) rest; tag = drop (length rest - TAG_LEN) rest
           in of_option Open (aead_dec P key nonce aad ct tag))"

section \<open>Blocks\<close>

definition block_aad :: "bytes \<Rightarrow> bytes \<Rightarrow> u64 \<Rightarrow> bytes" where
  "block_aad file_id key_domain block_index =
     file_id @ key_domain @ u64_le block_index @ nat_le 4 BLOCK_SIZE @ [CIPHER_ID]"

definition seal_into ::
  "'z prims_scheme \<Rightarrow> crypto \<Rightarrow> bytes \<Rightarrow> bytes \<Rightarrow> u64 \<Rightarrow> bytes \<Rightarrow> rng \<Rightarrow>
   (crypto_error + bytes) \<times> rng" where
  "seal_into P key file_id key_domain block_index plaintext r =
     (if length plaintext \<noteq> BLOCK_SIZE then (Inl AssertFailed, r)
      else case draw_nonzero NONCE_LEN r of
        (None, r') \<Rightarrow> (Inl Rng, r')
      | (Some nonce, r') \<Rightarrow>
          (case aead_enc P key nonce (block_aad file_id key_domain block_index) plaintext of
             None \<Rightarrow> (Inl Seal, r')
           | Some (ct, tag) \<Rightarrow> (Inr (ct @ nonce @ tag), r')))"

definition open_into ::
  "'z prims_scheme \<Rightarrow> crypto \<Rightarrow> bytes \<Rightarrow> bytes \<Rightarrow> u64 \<Rightarrow> bytes \<Rightarrow> crypto_error + bytes" where
  "open_into P key file_id key_domain block_index phys =
     (if length phys \<noteq> PHYS_BLOCK then Inl AssertFailed
      else of_option Open
        (aead_dec P key (slice BLOCK_SIZE NONCE_LEN phys)
           (block_aad file_id key_domain block_index)
           (take BLOCK_SIZE phys) (drop (BLOCK_SIZE + NONCE_LEN) phys)))"

definition file_id_for :: "'z prims_scheme \<Rightarrow> str \<Rightarrow> bytes" where
  "file_id_for P path = take FILE_ID_LEN (sha256 P path)"

section \<open>The full-state root\<close>

text \<open>The running hasher is the bytes it has absorbed.\<close>

record FullStateRoot =
  hasher :: bytes
  fsr_count :: u64

definition fsr_new :: FullStateRoot where
  "fsr_new = \<lparr>hasher = MERKLE_ROOT_LABEL, fsr_count = 0\<rparr>"

definition root_leaf :: "'z prims_scheme \<Rightarrow> u64 \<Rightarrow> bytes \<Rightarrow> bytes" where
  "root_leaf P block_index plaintext =
     sha256 P (MERKLE_ROOT_LABEL @ u64_le block_index @ plaintext)"

definition update_block :: "'z prims_scheme \<Rightarrow> u64 \<Rightarrow> bytes \<Rightarrow> FullStateRoot \<Rightarrow> FullStateRoot" where
  "update_block P block_index plaintext s =
     s\<lparr>hasher := hasher s @ root_leaf P block_index plaintext, fsr_count := fsr_count s + 1\<rparr>"

definition fsr_finish :: "'z prims_scheme \<Rightarrow> FullStateRoot \<Rightarrow> bytes" where
  "fsr_finish P s = sha256 P (hasher s @ u64_le (fsr_count s))"

text \<open>Feeding a list of blocks in index order from index \<open>k\<close>, as every caller does.\<close>

fun fsr_blocks :: "'z prims_scheme \<Rightarrow> nat \<Rightarrow> bytes list \<Rightarrow> FullStateRoot \<Rightarrow> FullStateRoot" where
  "fsr_blocks P k [] s = s"
| "fsr_blocks P k (b # bs) s = fsr_blocks P (Suc k) bs (update_block P (word_of_nat k) b s)"

definition root_of_blocks :: "'z prims_scheme \<Rightarrow> bytes list \<Rightarrow> bytes" where
  "root_of_blocks P bs = fsr_finish P (fsr_blocks P 0 bs fsr_new)"

section \<open>Draws\<close>

definition random_uuid :: "rng \<Rightarrow> (crypto_error + bytes) \<times> rng" where
  "random_uuid r = (case draw_nonzero 16 r of
       (None, r') \<Rightarrow> (Inl Rng, r') | (Some u, r') \<Rightarrow> (Inr u, r'))"

text \<open>One draw of the self-test: 32 bytes of which at least eight are not zero.\<close>

definition selftest_draw :: "rng \<Rightarrow> bytes option \<times> rng" where
  "selftest_draw r = (case getrandom 32 r of
       (None, r') \<Rightarrow> (None, r')
     | (Some d, r') \<Rightarrow> if length (filter (\<lambda>x. x \<noteq> 0) d) < 8 then (None, r') else (Some d, r'))"

definition rng_selftest :: "rng \<Rightarrow> bool \<times> rng" where
  "rng_selftest r = (case selftest_draw r of
       (None, r1) \<Rightarrow> (False, r1)
     | (Some d0, r1) \<Rightarrow> (case selftest_draw r1 of
         (None, r2) \<Rightarrow> (False, r2)
       | (Some d1, r2) \<Rightarrow> (case selftest_draw r2 of
           (None, r3) \<Rightarrow> (False, r3)
         | (Some d2, r3) \<Rightarrow> (d0 \<noteq> d1 \<and> d1 \<noteq> d2 \<and> d0 \<noteq> d2, r3))))"

section \<open>Sealed boxes\<close>

text \<open>
  The contract the rest of the program relies on, for small payloads and for blocks alike: with
  a usable key a message that fits is sealed whenever the nonce draw succeeds, the box is 40
  bytes longer than the message, and opening under the same associated data gives it back.
\<close>

locale sealed_box =
  fixes seal :: "'k \<Rightarrow> 'a \<Rightarrow> bytes \<Rightarrow> rng \<Rightarrow> ('e + bytes) \<times> rng"
    and unseal :: "'k \<Rightarrow> 'a \<Rightarrow> bytes \<Rightarrow> 'e + bytes"
    and key_ok :: "'k \<Rightarrow> bool"
    and msg_ok :: "bytes \<Rightarrow> bool"
  assumes seal_draw: "key_ok k \<Longrightarrow> msg_ok p \<Longrightarrow> draw_nonzero NONCE_LEN r = (Some n, r') \<Longrightarrow>
      \<exists>c. seal k a p r = (Inr c, r') \<and> length c = length p + NONCE_LEN + TAG_LEN \<and> unseal k a c = Inr p"
    and seal_no_draw: "fst (draw_nonzero NONCE_LEN r) = None \<Longrightarrow> \<not> is_ok (fst (seal k a p r))"
    and unseal_length: "key_ok k \<Longrightarrow> unseal k a c = Inr p \<Longrightarrow> length c = length p + NONCE_LEN + TAG_LEN"
begin

lemma seal_ok_iff:
  assumes "key_ok k" and "msg_ok p"
  shows "is_ok (fst (seal k a p r)) \<longleftrightarrow> fst (draw_nonzero NONCE_LEN r) \<noteq> None"
proof (cases "draw_nonzero NONCE_LEN r")
  case (Pair d r')
  then show ?thesis
  proof (cases d)
    case None
    then show ?thesis using Pair seal_no_draw [of r k a p] by simp
  next
    case (Some n)
    then show ?thesis using Pair seal_draw [OF assms, of r n r' a] by auto
  qed
qed

lemma seal_Inr:
  assumes "key_ok k" and "msg_ok p" and "seal k a p r = (Inr c, r')"
  shows "unseal k a c = Inr p" and "length c = length p + NONCE_LEN + TAG_LEN"
    and "r' = snd (draw_nonzero NONCE_LEN r)"
proof -
  have "fst (draw_nonzero NONCE_LEN r) \<noteq> None"
    using seal_ok_iff [OF assms(1,2), of a r] assms(3) by simp
  then obtain n r'' where d: "draw_nonzero NONCE_LEN r = (Some n, r'')"
    by (metis option.exhaust prod.collapse)
  then show "unseal k a c = Inr p" and "length c = length p + NONCE_LEN + TAG_LEN"
    and "r' = snd (draw_nonzero NONCE_LEN r)"
    using seal_draw [OF assms(1,2) d, of a] assms(3) by auto
qed

text \<open>A box shorter than the overhead never opens, and a box seals one message.\<close>

lemma short_box: "key_ok k \<Longrightarrow> length c < NONCE_LEN + TAG_LEN \<Longrightarrow> unseal k a c \<noteq> Inr p"
  using unseal_length by fastforce

lemma box_unique:
  "key_ok k \<Longrightarrow> msg_ok p \<Longrightarrow> msg_ok q \<Longrightarrow> seal k a p r = (Inr c, r1) \<Longrightarrow>
   seal k a q s = (Inr c, s1) \<Longrightarrow> p = q"
  by (metis seal_Inr(1) sum.inject(2))

end

text \<open>A key with the primitives it is used with.\<close>

definition key_ok :: "'z prims_scheme \<times> crypto \<Rightarrow> bool" where
  "key_ok k \<longleftrightarrow> aead_ok (fst k) \<and> length (snd k) = 32"

lemma open_bytes_parts:
  "length n = NONCE_LEN \<Longrightarrow> length t = TAG_LEN \<Longrightarrow>
   open_bytes P k a (n @ c @ t) = of_option Open (aead_dec P k n a c t)"
  by (simp add: open_bytes_def Let_def NONCE_LEN_def TAG_LEN_def)

lemma open_into_parts:
  "length n = NONCE_LEN \<Longrightarrow> length t = TAG_LEN \<Longrightarrow> length c = BLOCK_SIZE \<Longrightarrow>
   open_into P k f d i (c @ n @ t) = of_option Open (aead_dec P k n (block_aad f d i) c t)"
  by (simp add: open_into_def size_defs slice_def)

interpretation bytes_box:
  sealed_box "\<lambda>k. seal_bytes (fst k) (snd k)" "\<lambda>k. open_bytes (fst k) (snd k)"
    key_ok "\<lambda>p. length p < 2 ^ 32"
proof
  fix k :: "'z prims_scheme \<times> crypto" and p a n :: bytes and r r' :: rng
  assume k: "key_ok k" and p: "length p < 2 ^ 32" and d: "draw_nonzero NONCE_LEN r = (Some n, r')"
  have n: "length n = NONCE_LEN" using d by (rule draw_nonzero_length)
  obtain c t where "aead_enc (fst k) (snd k) n a p = Some (c, t)" "length c = length p"
    "length t = 16" "aead_dec (fst k) (snd k) n a c t = Some p"
    using k p n aead_okD [of "fst k" "snd k" n p a] by (auto simp: key_ok_def NONCE_LEN_def)
  then show "\<exists>c. seal_bytes (fst k) (snd k) a p r = (Inr c, r')
      \<and> length c = length p + NONCE_LEN + TAG_LEN \<and> open_bytes (fst k) (snd k) a c = Inr p"
    using d n by (intro exI [of _ "n @ c @ t"])
      (simp add: seal_bytes_def open_bytes_parts TAG_LEN_def)
next
  fix k :: "'z prims_scheme \<times> crypto" and p a :: bytes and r :: rng
  assume "fst (draw_nonzero NONCE_LEN r) = None"
  then show "\<not> is_ok (fst (seal_bytes (fst k) (snd k) a p r))"
    by (cases "draw_nonzero NONCE_LEN r") (simp add: seal_bytes_def)
next
  fix k :: "'z prims_scheme \<times> crypto" and p a c :: bytes
  assume "key_ok k" and "open_bytes (fst k) (snd k) a c = Inr p"
  then show "length c = length p + NONCE_LEN + TAG_LEN"
    by (auto simp: open_bytes_def Let_def key_ok_def dest: aead_ok_dec split: if_splits)
qed

interpretation block_box:
  sealed_box "\<lambda>k a. seal_into (fst k) (snd k) (fst a) (fst (snd a)) (snd (snd a))"
    "\<lambda>k a. open_into (fst k) (snd k) (fst a) (fst (snd a)) (snd (snd a))"
    key_ok "\<lambda>p. length p = BLOCK_SIZE"
proof
  fix k :: "'z prims_scheme \<times> crypto" and p n :: bytes and a :: "bytes \<times> bytes \<times> u64" and r r' :: rng
  assume k: "key_ok k" and p: "length p = BLOCK_SIZE" and d: "draw_nonzero NONCE_LEN r = (Some n, r')"
  have n: "length n = NONCE_LEN" using d by (rule draw_nonzero_length)
  let ?a = "block_aad (fst a) (fst (snd a)) (snd (snd a))"
  obtain c t where "aead_enc (fst k) (snd k) n ?a p = Some (c, t)" "length c = length p"
    "length t = 16" "aead_dec (fst k) (snd k) n ?a c t = Some p"
    using k p n aead_okD [of "fst k" "snd k" n p ?a] by (auto simp: key_ok_def size_defs)
  then show "\<exists>c. seal_into (fst k) (snd k) (fst a) (fst (snd a)) (snd (snd a)) p r = (Inr c, r')
      \<and> length c = length p + NONCE_LEN + TAG_LEN
      \<and> open_into (fst k) (snd k) (fst a) (fst (snd a)) (snd (snd a)) c = Inr p"
    using d n p by (intro exI [of _ "c @ n @ t"])
      (simp add: seal_into_def open_into_parts TAG_LEN_def)
next
  fix k :: "'z prims_scheme \<times> crypto" and p :: bytes and a :: "bytes \<times> bytes \<times> u64" and r :: rng
  assume "fst (draw_nonzero NONCE_LEN r) = None"
  then show "\<not> is_ok (fst (seal_into (fst k) (snd k) (fst a) (fst (snd a)) (snd (snd a)) p r))"
    by (cases "draw_nonzero NONCE_LEN r") (simp add: seal_into_def)
next
  fix k :: "'z prims_scheme \<times> crypto" and p c :: bytes and a :: "bytes \<times> bytes \<times> u64"
  assume "key_ok k" and "open_into (fst k) (snd k) (fst a) (fst (snd a)) (snd (snd a)) c = Inr p"
  then show "length c = length p + NONCE_LEN + TAG_LEN"
    by (auto simp: open_into_def key_ok_def size_defs dest: aead_ok_dec split: if_splits)
qed

lemma open_into_length: "key_ok (E, key) \<Longrightarrow> open_into E key f d i b = Inr p \<Longrightarrow> length p = BLOCK_SIZE \<and> length b = PHYS_BLOCK"
proof -
  assume k: "key_ok (E, key)" and o: "open_into E key f d i b = Inr p"
  have "length b = PHYS_BLOCK" using o by (simp add: open_into_def split: if_splits)
  then show ?thesis using block_box.unseal_length [of "(E, key)" "(f, d, i)" b p] k o by (simp add: PHYS_BLOCK_def)
qed

section \<open>Binding of blocks to their place\<close>

lemma length_block_aad [len_simps]:
  "length f = 16 \<Longrightarrow> length d = 16 \<Longrightarrow> length (block_aad f d i) = AAD_LEN"
  by (simp add: block_aad_def size_defs)

lemma block_aad_inj:
  assumes "length f = 16" and "length f' = 16" and "length d = 16" and "length d' = 16"
    and "block_aad f d i = block_aad f' d' i'"
  shows "f = f' \<and> d = d' \<and> i = i'"
  using assms by (simp add: block_aad_def)

text \<open>
  Associated data in \<open>M\<close> is bound: no box produced by the encryption is one under two of them.
\<close>

definition aad_binding :: "'z prims_scheme \<Rightarrow> crypto \<Rightarrow> bytes set \<Rightarrow> bool" where
  "aad_binding P key M \<longleftrightarrow> (\<forall>a \<in> M. \<forall>b \<in> M. \<forall>n p q c t.
     aead_enc P key n a p = Some (c, t) \<longrightarrow> aead_enc P key n b q = Some (c, t) \<longrightarrow> a = b)"

lemma open_into_Inr:
  assumes "aead_ok P" and "open_into P key f d i phys = Inr p"
  shows "aead_enc P key (slice BLOCK_SIZE NONCE_LEN phys) (block_aad f d i) p
      = Some (take BLOCK_SIZE phys, drop (BLOCK_SIZE + NONCE_LEN) phys)"
  using assms by (auto simp: open_into_def dest: aead_ok_dec split: if_splits)

text \<open>The associated data of a block that opens is the only bound one it opens under.\<close>

lemma open_into_unique:
  assumes ok: "aead_ok P" and b: "aad_binding P key M"
    and M: "block_aad f d i \<in> M" "block_aad f' d' i' \<in> M"
    and o1: "open_into P key f d i phys = Inr p" and o2: "open_into P key f' d' i' phys = Inr q"
  shows "block_aad f d i = block_aad f' d' i'"
  using b M open_into_Inr [OF ok o1] open_into_Inr [OF ok o2] unfolding aad_binding_def by blast

section \<open>What the full-state root commits to\<close>

fun leaf_msgs :: "nat \<Rightarrow> bytes list \<Rightarrow> bytes list" where
  "leaf_msgs k [] = []"
| "leaf_msgs k (b # bs) = (MERKLE_ROOT_LABEL @ u64_le (word_of_nat k) @ b) # leaf_msgs (Suc k) bs"

definition root_msg :: "'z prims_scheme \<Rightarrow> bytes list \<Rightarrow> bytes" where
  "root_msg P bs = MERKLE_ROOT_LABEL @ concat (map (sha256 P) (leaf_msgs 0 bs))
     @ u64_le (word_of_nat (length bs))"

text \<open>All messages hashed for the root of \<open>bs\<close>.\<close>

definition root_msgs :: "'z prims_scheme \<Rightarrow> bytes list \<Rightarrow> bytes set" where
  "root_msgs P bs = insert (root_msg P bs) (set (leaf_msgs 0 bs))"

lemma length_leaf_msgs [simp]: "length (leaf_msgs k bs) = length bs"
  by (induction bs arbitrary: k) auto

lemma fsr_blocks_eq:
  "fsr_blocks P k bs s =
     s\<lparr>hasher := hasher s @ concat (map (sha256 P) (leaf_msgs k bs)),
       fsr_count := fsr_count s + word_of_nat (length bs)\<rparr>"
  by (induction bs arbitrary: k s) (simp_all add: update_block_def root_leaf_def)

lemma root_of_blocks_eq: "root_of_blocks P bs = sha256 P (root_msg P bs)"
  by (simp add: root_of_blocks_def fsr_blocks_eq fsr_finish_def fsr_new_def root_msg_def)

lemma leaf_msgs_inj: "leaf_msgs k bs = leaf_msgs k cs \<Longrightarrow> bs = cs"
proof (induction bs arbitrary: k cs)
  case Nil
  then show ?case by (cases cs) auto
next
  case (Cons b bs)
  then show ?case by (cases cs) auto
qed

lemma concat_fixed_inj:
  "(\<And>x. length (h x) = w) \<Longrightarrow> length xs = length ys \<Longrightarrow>
   concat (map h xs) = concat (map h ys) \<Longrightarrow> map h xs = map h ys"
proof (induction xs arbitrary: ys)
  case Nil
  then show ?case by simp
next
  case (Cons x xs)
  then obtain y ys' where y: "ys = y # ys'" by (cases ys) auto
  have "h x = h y \<and> concat (map h xs) = concat (map h ys')" using Cons.prems y by simp
  then show ?case using Cons y by simp
qed

lemma root_of_blocks_commits:
  assumes cf: "collision_free P (root_msgs P bs \<union> root_msgs P cs)" and h: "hash_ok P"
    and len: "length bs < 2 ^ 64" "length cs < 2 ^ 64"
    and eq: "root_of_blocks P bs = root_of_blocks P cs"
  shows "bs = cs"
proof -
  let ?M = "root_msgs P bs \<union> root_msgs P cs"
  have inj: "inj_on (sha256 P) ?M" using cf by (simp add: collision_free_def)
  have h32: "length (sha256 P x) = 32" for x using h by (rule hash_ok_lengths)
  have "root_msg P bs = root_msg P cs"
    by (rule inj_onD [OF inj eq [unfolded root_of_blocks_eq]]) (simp_all add: root_msgs_def)
  then have m: "concat (map (sha256 P) (leaf_msgs 0 bs)) @ u64_le (word_of_nat (length bs))
      = concat (map (sha256 P) (leaf_msgs 0 cs)) @ u64_le (word_of_nat (length cs))"
    by (simp add: root_msg_def)
  have c: "concat (map (sha256 P) (leaf_msgs 0 bs)) = concat (map (sha256 P) (leaf_msgs 0 cs))
      \<and> u64_le (word_of_nat (length bs)) = u64_le (word_of_nat (length cs))"
    by (rule append_eq_append_conv [THEN iffD1, OF _ m]) simp
  then have "unat (word_of_nat (length bs) :: u64) = unat (word_of_nat (length cs) :: u64)" by simp
  then have "length bs = length cs" using len by (simp add: unat_of_nat)
  then have "map (sha256 P) (leaf_msgs 0 bs) = map (sha256 P) (leaf_msgs 0 cs)"
    using c h32 by (intro concat_fixed_inj [where w = 32]) simp_all
  moreover have "inj_on (sha256 P) (set (leaf_msgs 0 bs) \<union> set (leaf_msgs 0 cs))"
    using inj by (rule inj_on_subset) (auto simp: root_msgs_def)
  ultimately have "leaf_msgs 0 bs = leaf_msgs 0 cs" by (simp add: inj_on_map_eq_map)
  then show ?thesis by (rule leaf_msgs_inj)
qed

section \<open>Properties\<close>

text \<open>sealing a payload succeeds exactly when the nonce draw does, and what it returns opens
  to the payload under the same key and associated data, 40 bytes longer than the payload.\<close>

theorem seal_bytes_roundtrip:
  assumes "aead_ok P" and "length key = 32" and "length p < 2 ^ 32"
  shows "case draw_nonzero NONCE_LEN r of
      (None, r') \<Rightarrow> \<not> is_ok (fst (seal_bytes P key aad p r))
    | (Some n, r') \<Rightarrow> \<exists>c. seal_bytes P key aad p r = (Inr c, r')
          \<and> open_bytes P key aad c = Inr p \<and> length c = length p + 40"
proof -
  have k: "key_ok (P, key)" using assms by (simp add: key_ok_def)
  show ?thesis
    using bytes_box.seal_draw [of "(P, key)" p r _ _ aad, OF k assms(3)]
      bytes_box.seal_no_draw [of r "(P, key)" aad p]
    by (auto simp: NONCE_LEN_def TAG_LEN_def split: prod.split option.split)
qed

theorem seal_bytes_roundtrip_witness:
  "\<exists>c. seal_bytes toy (replicate 32 7) [1] [2, 3] [Some (replicate 24 9)] = (Inr c, [])
     \<and> open_bytes toy (replicate 32 7) [1] c = Inr [2, 3]"
  using seal_bytes_roundtrip [where P = toy and key = "replicate 32 7" and p = "[2, 3]"
      and r = "[Some (replicate 24 9)]" and aad = "[1]"]
  by (auto simp: NONCE_LEN_def)

text \<open>C32: a block sealed for one file, key domain and index opens to its plaintext there, and
  opens at no other file, key domain or index whose associated data the cipher binds.\<close>

theorem block_roundtrip_and_binding:
  assumes "aead_ok P" and "length key = 32"
    and "seal_into P key f d i p r = (Inr phys, r')"
    and "length f = 16" and "length d = 16" and "length f' = 16" and "length d' = 16"
    and "aad_binding P key {block_aad f d i, block_aad f' d' i'}"
  shows "open_into P key f' d' i' phys = (if (f', d', i') = (f, d, i) then Inr p else Inl Open)"
proof -
  have lp: "length p = BLOCK_SIZE" using assms(3) by (auto simp: seal_into_def split: if_splits)
  have k: "key_ok (P, key)" using assms by (simp add: key_ok_def)
  have o: "open_into P key f d i phys = Inr p" and lc: "length phys = PHYS_BLOCK"
    using block_box.seal_Inr [of "(P, key)" p "(f, d, i)" r phys r'] k lp assms(3)
    by (auto simp: PHYS_BLOCK_def)
  show ?thesis
  proof (cases "open_into P key f' d' i' phys")
    case (Inl e)
    then have "e = Open" using lc by (cases "aead_dec P key (slice BLOCK_SIZE NONCE_LEN phys)
        (block_aad f' d' i') (take BLOCK_SIZE phys) (drop (BLOCK_SIZE + NONCE_LEN) phys)")
        (auto simp: open_into_def)
    with Inl o show ?thesis by auto
  next
    case (Inr q)
    then have "block_aad f d i = block_aad f' d' i'"
      using open_into_unique [OF assms(1) assms(8) _ _ o, of f' d' i' q] by simp
    then have "f = f' \<and> d = d' \<and> i = i'" using assms(4-7) by (intro block_aad_inj) auto
    with o show ?thesis by simp
  qed
qed

lemma toy_binding:
  "take 15 (toy_hash a) \<noteq> take 15 (toy_hash b) \<Longrightarrow> aad_binding toy key {a, b}"
  by (auto simp: aad_binding_def toy_tag_def)

theorem block_roundtrip_and_binding_witness:
  "\<exists>phys r. seal_into toy (replicate 32 7) (replicate 16 1) (replicate 16 0) 5
        (replicate 4096 3) [Some (replicate 24 9)] = (Inr phys, r)
     \<and> open_into toy (replicate 32 7) (replicate 16 1) (replicate 16 0) 6 phys = Inl Open"
proof -
  have "draw_nonzero NONCE_LEN [Some (replicate 24 9)] = (Some (replicate 24 9), [])"
    by (simp add: draw_nonzero_def NONCE_LEN_def)
  then obtain phys where s: "seal_into toy (replicate 32 7) (replicate 16 1) (replicate 16 0) 5
        (replicate 4096 3) [Some (replicate 24 9)] = (Inr phys, [])"
    using block_box.seal_draw [of "(toy, replicate 32 7)" "replicate 4096 3" "[Some (replicate 24 9)]"
        "replicate 24 9" "[]" "(replicate 16 1, replicate 16 0, 5)"]
    by (auto simp: key_ok_def BLOCK_SIZE_def)
  have b: "aad_binding toy (replicate 32 7)
      {block_aad (replicate 16 1) (replicate 16 0) 5, block_aad (replicate 16 1) (replicate 16 0) 6}"
    by (rule toy_binding)
      (simp add: block_aad_def u64_le_def toy_hash_def CIPHER_ID_def BLOCK_SIZE_def eval_simps)
  have "open_into toy (replicate 32 7) (replicate 16 1) (replicate 16 0) 6 phys = Inl Open"
    using block_roundtrip_and_binding [OF toy_aead_ok _ s _ _ _ _ b] by simp
  with s show ?thesis by blast
qed

text \<open>C33: the full-state root commits to every block and to their number: on messages without a
  hash collision two block sequences have the same root only when they are equal.\<close>

theorem full_state_root_commits:
  assumes "collision_free P (root_msgs P bs \<union> root_msgs P cs)" and "hash_ok P"
    and "length bs < 2 ^ 64" and "length cs < 2 ^ 64"
  shows "root_of_blocks P bs = root_of_blocks P cs \<longleftrightarrow> bs = cs"
  using root_of_blocks_commits [OF assms] by auto

theorem full_state_root_commits_witness:
  "root_of_blocks toy [[1]] \<noteq> root_of_blocks toy [[2], [1]]"
proof -
  have "collision_free toy (root_msgs toy [[1]] \<union> root_msgs toy [[2], [1]])"
    unfolding collision_free_def by code_simp
  then show ?thesis using full_state_root_commits [of toy "[[1]]" "[[2], [1]]"] by simp
qed

end
