(* ===== verification/Envelope.thy ===== *)
theory Envelope
  imports Crypto_Core Codec
begin

text \<open>
  \<open>crates/freehold/src/envelope.rs\<close>: the envelope that wraps the data key under one key per
  unlock method. The operations work on the blob as the code does; the second half describes
  a blob as its header fields and the list of its slots and shows what each operation does to
  them.
\<close>

section \<open>Format\<close>

definition DEK_LEN :: nat where "DEK_LEN = 32"
definition ENV_MAGIC :: bytes where "ENV_MAGIC = ascii ''FREEHENV''"
definition ENV_VERSION :: byte where "ENV_VERSION = 3"
definition SALT_LEN :: nat where "SALT_LEN = 16"
definition SALT_OFF :: nat where "SALT_OFF = 12"
definition GEN_OFF :: nat where "GEN_OFF = 28"
definition GEN_LEN :: nat where "GEN_LEN = 8"
definition HEADER_LEN :: nat where "HEADER_LEN = 8 + 1 + 1 + 2 + SALT_LEN + GEN_LEN"
definition SLOT_LEN :: nat where "SLOT_LEN = 1 + 1 + NONCE_LEN + DEK_LEN + TAG_LEN"
definition MAC_LEN :: nat where "MAC_LEN = 32"

lemmas env_sizes = DEK_LEN_def SALT_LEN_def SALT_OFF_def GEN_OFF_def GEN_LEN_def HEADER_LEN_def
  SLOT_LEN_def MAC_LEN_def NONCE_LEN_def TAG_LEN_def

definition KEK_INFO :: bytes where "KEK_INFO = ascii ''freehold-kek-v1''"
definition MAC_INFO :: bytes where "MAC_INFO = ascii ''freehold-envelope-mac-v1''"
definition WRAP_AAD_PREFIX :: bytes where "WRAP_AAD_PREFIX = ascii ''freehold-envelope-v3''"

definition KIND_PASSKEY :: byte where "KIND_PASSKEY = 0"
definition KIND_RECOVERY :: byte where "KIND_RECOVERY = 1"
definition KIND_DEVICE :: byte where "KIND_DEVICE = 2"

lemmas kind_defs = KIND_PASSKEY_def KIND_RECOVERY_def KIND_DEVICE_def

text \<open>\<open>EPanic\<close> is an index out of range, which aborts the program.\<close>

datatype env_error = ERng | EFormat | EUnlock | ETamper | ERollback | ESeal | EKdf | EPanic

record slot_info =
  kek_id :: byte
  kind :: byte

section \<open>Keys of the slots\<close>

definition slot_aad :: "byte \<Rightarrow> byte \<Rightarrow> bytes" where
  "slot_aad i k = WRAP_AAD_PREFIX @ [i, k]"

definition kek_from_prf :: "'z prims_scheme \<Rightarrow> bytes \<Rightarrow> bytes" where
  "kek_from_prf P prf_output = hkdf P prf_output KEK_INFO"

definition ARGON2_M_COST :: nat where "ARGON2_M_COST = 19456"
definition ARGON2_T_COST :: nat where "ARGON2_T_COST = 2"
definition ARGON2_P_COST :: nat where "ARGON2_P_COST = 1"

definition recovery_argon2 :: "'z prims_scheme \<Rightarrow> bytes \<Rightarrow> bytes \<Rightarrow> bytes option" where
  "recovery_argon2 P pw salt = argon2id P ARGON2_M_COST ARGON2_T_COST ARGON2_P_COST pw salt"

definition kek_from_recovery :: "'z prims_scheme \<Rightarrow> str \<Rightarrow> bytes \<Rightarrow> env_error + bytes" where
  "kek_from_recovery P code salt =
     of_option EKdf (recovery_argon2 P (to_upper P (remove_ws code)) salt)"

definition env_draw :: "nat \<Rightarrow> rng \<Rightarrow> (env_error + bytes) \<times> rng" where
  "env_draw n r = (case getrandom n r of (d, r') \<Rightarrow> (of_option ERng d, r'))"

definition env_draw_nonzero :: "nat \<Rightarrow> rng \<Rightarrow> (env_error + bytes) \<times> rng" where
  "env_draw_nonzero n r = (case draw_nonzero n r of (d, r') \<Rightarrow> (of_option ERng d, r'))"

definition wrap_slot ::
  "'z prims_scheme \<Rightarrow> bytes \<Rightarrow> bytes \<Rightarrow> byte \<Rightarrow> byte \<Rightarrow> rng \<Rightarrow> (env_error + bytes) \<times> rng" where
  "wrap_slot P dek kek i k r =
     st_then (env_draw_nonzero NONCE_LEN r) (\<lambda>nonce r.
       (case aead_enc P kek nonce (slot_aad i k) dek of
          None \<Rightarrow> (Inl ESeal, r)
        | Some (ct, tag) \<Rightarrow> (Inr ([i, k] @ nonce @ ct @ tag), r)))"

section \<open>Framing\<close>

definition body_len :: "nat \<Rightarrow> nat" where
  "body_len slot_count = HEADER_LEN + slot_count * SLOT_LEN"

definition env_parse :: "bytes \<Rightarrow> env_error + nat" where
  "env_parse blob =
     (if length blob < HEADER_LEN + MAC_LEN \<or> take 8 blob \<noteq> ENV_MAGIC \<or> blob ! 8 \<noteq> ENV_VERSION
      then Inl EFormat
      else let slot_count = unat (blob ! 9) in
      if length blob \<noteq> body_len slot_count + MAC_LEN then Inl EFormat else Inr slot_count)"

definition read_generation :: "bytes \<Rightarrow> env_error + u64" where
  "read_generation blob =
     (if length blob < GEN_OFF + GEN_LEN then Inl EPanic else Inr (le_u64 (slice GEN_OFF GEN_LEN blob)))"

text \<open>The generation of a blob that parses, where the read cannot leave the blob.\<close>

definition gen_of :: "bytes \<Rightarrow> u64" where
  "gen_of blob = le_u64 (slice GEN_OFF GEN_LEN blob)"

definition envelope_generation :: "bytes \<Rightarrow> u64" where
  "envelope_generation blob = (if \<not> is_ok (env_parse blob) then 0 else gen_of blob)"

definition check_fresh :: "bytes \<Rightarrow> u64 \<Rightarrow> env_error + unit" where
  "check_fresh blob floor =
     try_then (env_parse blob) (\<lambda>_. if gen_of blob < floor then Inl ERollback else Inr ())"

text \<open>The \<open>n\<close> slots of a blob, in order: the range the loops run over.\<close>

definition blob_slots :: "bytes \<Rightarrow> nat \<Rightarrow> bytes list" where
  "blob_slots blob n = map (\<lambda>i. slice (HEADER_LEN + i * SLOT_LEN) SLOT_LEN blob) [0..<n]"

definition mac_key :: "'z prims_scheme \<Rightarrow> bytes \<Rightarrow> bytes" where
  "mac_key P dek = hkdf P dek MAC_INFO"

definition compute_mac :: "'z prims_scheme \<Rightarrow> bytes \<Rightarrow> bytes \<Rightarrow> bytes" where
  "compute_mac P body dek = hmac P (mac_key P dek) body"

definition finalize :: "'z prims_scheme \<Rightarrow> bytes \<Rightarrow> bytes \<Rightarrow> bytes" where
  "finalize P body dek = body @ compute_mac P body dek"

definition next_kek_id :: "bytes \<Rightarrow> nat \<Rightarrow> byte" where
  "next_kek_id blob slot_count =
     (let mx = fold (\<lambda>s m. Some (case m of None \<Rightarrow> s ! 0 | Some x \<Rightarrow> max x (s ! 0)))
                (blob_slots blob slot_count) None
      in case mx of None \<Rightarrow> 0 | Some m \<Rightarrow> m + 1)"

definition random_dek :: "rng \<Rightarrow> (env_error + bytes) \<times> rng" where
  "random_dek r = env_draw_nonzero DEK_LEN r"

section \<open>Recovery codes\<close>

definition RECOVERY_ALPHABET :: bytes where
  "RECOVERY_ALPHABET = ascii ''0123456789ABCDEFGHJKMNPQRSTVWXYZ''"

definition RECOVERY_PAYLOAD_LEN :: nat where "RECOVERY_PAYLOAD_LEN = 26"
definition RECOVERY_CHECK_LEN :: nat where "RECOVERY_CHECK_LEN = 4"

unbundle bit_operations_syntax

definition symbol_at :: "u32 \<Rightarrow> byte" where
  "symbol_at x = RECOVERY_ALPHABET ! unat (x AND 0x1f)"

definition push_byte :: "u32 \<Rightarrow> byte \<Rightarrow> u32" where
  "push_byte acc b = push_bit 8 acc OR ucast b"

text \<open>
  The inner \<open>while\<close>: as long as five bits are pending and fewer than \<open>lim\<close> symbols are out,
  emit the next symbol. The generator has no limit, which is \<open>None\<close>.
\<close>

function emit_symbols :: "nat option \<Rightarrow> u32 \<Rightarrow> nat \<Rightarrow> str \<Rightarrow> nat \<times> str" where
  "emit_symbols lim acc bits out =
     (if bits \<ge> 5 \<and> (case lim of None \<Rightarrow> True | Some l \<Rightarrow> length out < l)
      then emit_symbols lim acc (bits - 5) (out @ [symbol_at (drop_bit (bits - 5) acc)])
      else (bits, out))"
  by pat_completeness auto
termination by (relation "measure (\<lambda>(lim, acc, bits, out). bits)") auto

declare emit_symbols.simps [simp del]

fun checksum_loop :: "bytes \<Rightarrow> u32 \<Rightarrow> nat \<Rightarrow> str \<Rightarrow> str" where
  "checksum_loop [] acc bits out = out"
| "checksum_loop (b # h) acc bits out =
     (let acc' = push_byte acc b;
          (bits', out') = emit_symbols (Some RECOVERY_CHECK_LEN) acc' (bits + 8) out
      in if length out' = RECOVERY_CHECK_LEN then out' else checksum_loop h acc' bits' out')"

definition recovery_checksum :: "'z prims_scheme \<Rightarrow> str \<Rightarrow> str" where
  "recovery_checksum P payload = checksum_loop (sha256 P payload) 0 0 []"

definition recovery_canon :: "'z prims_scheme \<Rightarrow> str \<Rightarrow> str" where
  "recovery_canon P code = to_upper P (filter (\<lambda>c. c \<noteq> 0x2D) (remove_ws code))"

definition verify_recovery_checksum :: "'z prims_scheme \<Rightarrow> str \<Rightarrow> bool" where
  "verify_recovery_checksum P code =
     (let canon = recovery_canon P code in
      if length canon \<noteq> RECOVERY_PAYLOAD_LEN + RECOVERY_CHECK_LEN
         \<or> \<not> list_all (\<lambda>b. b \<in> set RECOVERY_ALPHABET) canon then False
      else recovery_checksum P (take RECOVERY_PAYLOAD_LEN canon) = drop RECOVERY_PAYLOAD_LEN canon)"

fun payload_loop :: "bytes \<Rightarrow> u32 \<Rightarrow> nat \<Rightarrow> str \<Rightarrow> u32 \<times> nat \<times> str" where
  "payload_loop [] acc bits out = (acc, bits, out)"
| "payload_loop (b # ent) acc bits out =
     (let acc' = push_byte acc b; (bits', out') = emit_symbols None acc' (bits + 8) out
      in payload_loop ent acc' bits' out')"

definition recovery_payload :: "bytes \<Rightarrow> str" where
  "recovery_payload ent =
     (case payload_loop ent 0 0 [] of (acc, bits, chars) \<Rightarrow>
        if bits > 0 then chars @ [symbol_at (push_bit (5 - bits) acc)] else chars)"

function chunks_of :: "nat \<Rightarrow> 'a list \<Rightarrow> 'a list list" where
  "chunks_of n xs = (if xs = [] \<or> n = 0 then [] else take n xs # chunks_of n (drop n xs))"
  by pat_completeness auto
termination by (relation "measure (\<lambda>(n, xs). length xs)") auto

declare chunks_of.simps [simp del]

definition generate_recovery_code :: "'z prims_scheme \<Rightarrow> rng \<Rightarrow> (env_error + str) \<times> rng" where
  "generate_recovery_code P r =
     st_then (env_draw 16 r) (\<lambda>ent r.
       let chars = recovery_payload ent; all = chars @ recovery_checksum P chars
       in (Inr (join_with 0x2D (chunks_of 5 all)), r))"

section \<open>Building and changing envelopes\<close>

definition create_envelope_kind ::
  "'z prims_scheme \<Rightarrow> bytes \<Rightarrow> bytes \<Rightarrow> byte \<Rightarrow> rng \<Rightarrow> (env_error + bytes) \<times> rng" where
  "create_envelope_kind P dek secret k r =
     st_then (env_draw SALT_LEN r) (\<lambda>salt r.
       let h0 = replicate HEADER_LEN 0;
           h1 = put_at 0 ENV_MAGIC h0;
           h2 = put_at 8 [ENV_VERSION] h1;
           h3 = put_at 9 [1] h2;
           h4 = put_at SALT_OFF salt h3;
           header = put_at GEN_OFF (u64_le 1) h4
       in st_then (wrap_slot P dek (kek_from_prf P secret) 0 k r) (\<lambda>slot r.
            (Inr (finalize P (header @ slot) dek), r)))"

definition create_envelope ::
  "'z prims_scheme \<Rightarrow> bytes \<Rightarrow> bytes \<Rightarrow> rng \<Rightarrow> (env_error + bytes) \<times> rng" where
  "create_envelope P dek prf_output r = create_envelope_kind P dek prf_output KIND_PASSKEY r"

definition create_device_envelope ::
  "'z prims_scheme \<Rightarrow> bytes \<Rightarrow> bytes \<Rightarrow> rng \<Rightarrow> (env_error + bytes) \<times> rng" where
  "create_device_envelope P dek secret r = create_envelope_kind P dek secret KIND_DEVICE r"

text \<open>\<open>count as u8\<close> keeps the low byte.\<close>

definition rebuild_gen ::
  "'z prims_scheme \<Rightarrow> bytes \<Rightarrow> bytes \<Rightarrow> bytes \<Rightarrow> nat \<Rightarrow> u64 \<Rightarrow> bytes" where
  "rebuild_gen P blob dek keep count gen =
     (let body = put_at GEN_OFF (u64_le gen) (put_at 9 [word_of_nat count] (take HEADER_LEN blob))
      in finalize P (body @ keep) dek)"

definition rebuild :: "'z prims_scheme \<Rightarrow> bytes \<Rightarrow> bytes \<Rightarrow> bytes \<Rightarrow> nat \<Rightarrow> bytes" where
  "rebuild P blob dek keep count = rebuild_gen P blob dek keep count (gen_of blob + 1)"

definition strip_kind :: "'z prims_scheme \<Rightarrow> bytes \<Rightarrow> bytes \<Rightarrow> byte \<Rightarrow> env_error + bytes" where
  "strip_kind P blob dek k =
     try_then (env_parse blob) (\<lambda>n.
       let keep = filter (\<lambda>s. s ! 1 \<noteq> k) (blob_slots blob n); kept = length keep in
       if kept = 0 then Inl EFormat
       else if kept = n then Inr blob
       else Inr (rebuild_gen P blob dek (concat keep) kept (gen_of blob)))"

definition add_passkey_slot ::
  "'z prims_scheme \<Rightarrow> bytes \<Rightarrow> bytes \<Rightarrow> bytes \<Rightarrow> rng \<Rightarrow> (env_error + bytes) \<times> rng" where
  "add_passkey_slot P blob dek prf_output r =
     (case env_parse blob of
        Inl e \<Rightarrow> (Inl e, r)
      | Inr n \<Rightarrow>
          st_then (wrap_slot P dek (kek_from_prf P prf_output) (next_kek_id blob n) KIND_PASSKEY r)
            (\<lambda>slot r. (Inr (rebuild P blob dek (slice HEADER_LEN (body_len n - HEADER_LEN) blob @ slot) (n + 1)), r)))"

definition add_recovery_slot ::
  "'z prims_scheme \<Rightarrow> bytes \<Rightarrow> bytes \<Rightarrow> str \<Rightarrow> rng \<Rightarrow> (env_error + bytes) \<times> rng" where
  "add_recovery_slot P blob dek recovery_code r =
     (case env_parse blob of
        Inl e \<Rightarrow> (Inl e, r)
      | Inr n \<Rightarrow>
          (case kek_from_recovery P recovery_code (slice SALT_OFF SALT_LEN blob) of
             Inl e \<Rightarrow> (Inl e, r)
           | Inr kek \<Rightarrow>
               st_then (wrap_slot P dek kek (next_kek_id blob n) KIND_RECOVERY r)
                 (\<lambda>slot r. (Inr (rebuild P blob dek (slice HEADER_LEN (body_len n - HEADER_LEN) blob @ slot) (n + 1)), r))))"

definition remove_slot :: "'z prims_scheme \<Rightarrow> bytes \<Rightarrow> bytes \<Rightarrow> byte \<Rightarrow> env_error + bytes" where
  "remove_slot P blob dek i =
     try_then (env_parse blob) (\<lambda>n.
       if n \<le> 1 then Inl EFormat
       else let keep = filter (\<lambda>s. s ! 0 \<noteq> i) (blob_slots blob n); kept = length keep in
       if kept = n then Inl EFormat
       else Inr (rebuild P blob dek (concat keep) kept))"

definition set_generation :: "'z prims_scheme \<Rightarrow> bytes \<Rightarrow> u64 \<Rightarrow> bytes \<Rightarrow> env_error + bytes" where
  "set_generation P blob gen dek =
     try_then (env_parse blob) (\<lambda>n.
       let b = put_at GEN_OFF (u64_le gen) blob
       in Inr (put_at (body_len n) (compute_mac P (take (body_len n) b) dek) b))"

text \<open>The generation is read before the framing is checked.\<close>

definition rotate_envelope ::
  "'z prims_scheme \<Rightarrow> bytes \<Rightarrow> bytes \<Rightarrow> bytes \<Rightarrow> rng \<Rightarrow> (env_error + (bytes \<times> str)) \<times> rng" where
  "rotate_envelope P old_blob new_dek surviving_prf r =
     (case read_generation old_blob of
        Inl e \<Rightarrow> (Inl e, r)
      | Inr old_gen \<Rightarrow>
     (case env_parse old_blob of
        Inl e \<Rightarrow> (Inl e, r)
      | Inr _ \<Rightarrow>
     st_then (create_envelope P new_dek surviving_prf r) (\<lambda>env r.
     st_then (generate_recovery_code P r) (\<lambda>code r.
     st_then (add_recovery_slot P env new_dek code r) (\<lambda>env r.
     (try_then (set_generation P env (old_gen + 1) new_dek) (\<lambda>env. Inr (env, code)), r))))))"

section \<open>Listing and opening\<close>

definition slot_infos :: "bytes \<Rightarrow> slot_info list" where
  "slot_infos blob = (case env_parse blob of
       Inl e \<Rightarrow> []
     | Inr n \<Rightarrow> map (\<lambda>s. \<lparr>kek_id = s ! 0, kind = s ! 1\<rparr>) (blob_slots blob n))"

definition mac_ok :: "'z prims_scheme \<Rightarrow> bytes \<Rightarrow> nat \<Rightarrow> bytes \<Rightarrow> bool" where
  "mac_ok P blob n dek \<longleftrightarrow>
     hmac P (mac_key P dek) (take (body_len n) blob) = slice (body_len n) MAC_LEN blob"

text \<open>One slot under a candidate key.\<close>

definition open_slot :: "'z prims_scheme \<Rightarrow> bytes \<Rightarrow> bytes \<Rightarrow> bytes option" where
  "open_slot P kek s =
     aead_dec P kek (slice 2 NONCE_LEN s) (slot_aad (s ! 0) (s ! 1))
       (slice (2 + NONCE_LEN) DEK_LEN s) (slice (2 + NONCE_LEN + DEK_LEN) TAG_LEN s)"

fun try_slots :: "'z prims_scheme \<Rightarrow> bytes \<Rightarrow> nat \<Rightarrow> bytes \<Rightarrow> bytes list \<Rightarrow> env_error + bytes" where
  "try_slots P blob n kek [] = Inl EUnlock"
| "try_slots P blob n kek (s # ss) =
     (case open_slot P kek s of
        None \<Rightarrow> try_slots P blob n kek ss
      | Some dek \<Rightarrow> if \<not> mac_ok P blob n dek then Inl ETamper else Inr dek)"

definition open_with_kek :: "'z prims_scheme \<Rightarrow> bytes \<Rightarrow> bytes \<Rightarrow> env_error + bytes" where
  "open_with_kek P blob kek =
     try_then (env_parse blob) (\<lambda>n. try_slots P blob n kek (blob_slots blob n))"

definition open_with_prf :: "'z prims_scheme \<Rightarrow> bytes \<Rightarrow> bytes \<Rightarrow> env_error + bytes" where
  "open_with_prf P blob prf_output = open_with_kek P blob (kek_from_prf P prf_output)"

definition open_with_recovery :: "'z prims_scheme \<Rightarrow> bytes \<Rightarrow> str \<Rightarrow> env_error + bytes" where
  "open_with_recovery P blob recovery_code =
     try_then (env_parse blob) (\<lambda>_.
     try_then (kek_from_recovery P recovery_code (slice SALT_OFF SALT_LEN blob)) (\<lambda>kek.
     open_with_kek P blob kek))"

section \<open>An envelope as its fields\<close>

text \<open>What a blob says: the reserved header bytes, the salt, the generation and the slots.\<close>

record env =
  e_reserved :: bytes
  e_salt :: bytes
  e_gen :: u64
  e_slots :: "bytes list"

definition env_ok :: "env \<Rightarrow> bool" where
  "env_ok e \<longleftrightarrow> length (e_reserved e) = 2 \<and> length (e_salt e) = SALT_LEN
     \<and> list_all (\<lambda>s. length s = SLOT_LEN) (e_slots e)"

definition env_header :: "env \<Rightarrow> bytes" where
  "env_header e = ENV_MAGIC @ [ENV_VERSION, word_of_nat (length (e_slots e))] @ e_reserved e
     @ e_salt e @ u64_le (e_gen e)"

definition env_body :: "env \<Rightarrow> bytes" where
  "env_body e = env_header e @ concat (e_slots e)"

definition env_blob :: "'z prims_scheme \<Rightarrow> env \<Rightarrow> bytes \<Rightarrow> bytes" where
  "env_blob P e dek = finalize P (env_body e) dek"

definition slot_id :: "bytes \<Rightarrow> byte" where "slot_id s = s ! 0"
definition slot_kind :: "bytes \<Rightarrow> byte" where "slot_kind s = s ! 1"

lemma length_env_header [simp]: "env_ok e \<Longrightarrow> length (env_header e) = HEADER_LEN"
  by (simp add: env_header_def env_ok_def ENV_MAGIC_def env_sizes)

lemma length_env_slots [simp]: "env_ok e \<Longrightarrow> length (concat (e_slots e)) = length (e_slots e) * SLOT_LEN"
  using length_concat_const [of "e_slots e" "\<lambda>x. x" SLOT_LEN]
  by (simp add: env_ok_def list_all_iff mult.commute)

lemma length_env_body [simp]: "env_ok e \<Longrightarrow> length (env_body e) = body_len (length (e_slots e))"
  by (simp add: env_body_def body_len_def)

lemma env_header_slices:
  assumes "env_ok e"
  shows "take 8 (env_header e @ x) = ENV_MAGIC" and "(env_header e @ x) ! 8 = ENV_VERSION"
    and "(env_header e @ x) ! 9 = word_of_nat (length (e_slots e))"
    and "slice SALT_OFF SALT_LEN (env_header e @ x) = e_salt e"
    and "slice GEN_OFF GEN_LEN (env_header e @ x) = u64_le (e_gen e)"
    and "take HEADER_LEN (env_header e @ x) = env_header e"
  using assms length_env_header [OF assms]
  by (simp_all add: env_header_def env_ok_def ENV_MAGIC_def env_sizes slice_def nth_append nth_Cons')

lemma env_parse_body:
  assumes "env_ok e" and "length (e_slots e) < 256" and "length m = MAC_LEN"
  shows "env_parse (env_body e @ m) = Inr (length (e_slots e))"
proof -
  have "unat (word_of_nat (length (e_slots e)) :: byte) = length (e_slots e)"
    using assms(2) by (simp add: unat_of_nat)
  then show ?thesis
    using env_header_slices(1-3) [OF assms(1), of "concat (e_slots e) @ m"] assms
    by (simp add: env_parse_def env_body_def body_len_def Let_def)
qed

lemma blob_slots_body [simp]:
  assumes "env_ok e"
  shows "blob_slots (env_body e @ m) (length (e_slots e)) = e_slots e"
proof (rule nth_equalityI)
  fix i assume "i < length (blob_slots (env_body e @ m) (length (e_slots e)))"
  then have i: "i < length (e_slots e)" by (simp add: blob_slots_def)
  have "Suc i * SLOT_LEN \<le> length (e_slots e) * SLOT_LEN" using i by (intro mult_right_mono) auto
  then have "i * SLOT_LEN + SLOT_LEN \<le> length (concat (e_slots e))" using assms by (simp add: add.commute)
  then have "slice (HEADER_LEN + i * SLOT_LEN) SLOT_LEN (env_body e @ m)
      = slice (i * SLOT_LEN) SLOT_LEN (concat (e_slots e))"
    using assms by (simp add: env_body_def slice_append_right slice_append_left)
  also have "\<dots> = e_slots e ! i"
    using slice_concat_nth [of "e_slots e" "\<lambda>x. x" SLOT_LEN i] assms i
    by (simp add: env_ok_def list_all_iff mult.commute)
  finally show "blob_slots (env_body e @ m) (length (e_slots e)) ! i = e_slots e ! i"
    using i by (simp add: blob_slots_def)
qed (simp add: blob_slots_def)

lemma gen_of_body [simp]: "env_ok e \<Longrightarrow> gen_of (env_body e @ m) = e_gen e"
  using env_header_slices(5) [of e "concat (e_slots e) @ m"] by (simp add: gen_of_def env_body_def)

lemma salt_of_body [simp]: "env_ok e \<Longrightarrow> slice SALT_OFF SALT_LEN (env_body e @ m) = e_salt e"
  using env_header_slices(4) [of e "concat (e_slots e) @ m"] by (simp add: env_body_def)

lemma slots_of_body [simp]:
  assumes "env_ok e"
  shows "slice HEADER_LEN (body_len (length (e_slots e)) - HEADER_LEN) (env_body e @ m) = concat (e_slots e)"
  using assms length_env_slots [OF assms]
  by (simp add: env_body_def body_len_def slice_append_right slice_prefix)

text \<open>Every blob that parses has such fields.\<close>

lemma env_parse_Inr:
  assumes "env_parse blob = Inr n"
  obtains e m where "env_ok e" and "length (e_slots e) = n" and "n < 256" and "length m = MAC_LEN"
    and "blob = env_body e @ m"
proof -
  define e where "e = \<lparr>e_reserved = slice 10 2 blob, e_salt = slice 12 16 blob,
    e_gen = le_u64 (slice 28 8 blob), e_slots = blob_slots blob n\<rparr>"
  from assms have l: "length blob = body_len n + MAC_LEN" and mg: "take 8 blob = ENV_MAGIC"
    and vn: "blob ! 8 = ENV_VERSION" and nb: "n = unat (blob ! 9)"
    by (auto simp: env_parse_def Let_def split: if_splits)
  have n: "n < 256" using nb by simp
  have ok: "env_ok e"
  proof -
    have "length (slice (HEADER_LEN + i * SLOT_LEN) SLOT_LEN blob) = SLOT_LEN" if "i < n" for i
    proof -
      have "Suc i * SLOT_LEN \<le> n * SLOT_LEN" using that by (intro mult_right_mono) auto
      then show ?thesis using l by (simp add: body_len_def)
    qed
    then show ?thesis using l
      by (auto simp: env_ok_def e_def blob_slots_def list_all_iff body_len_def env_sizes)
  qed
  have h: "env_header e = take HEADER_LEN blob"
  proof -
    have "[blob ! 8, blob ! 9] = slice 8 2 blob"
      using l by (intro nth_equalityI) (auto simp: nth_slice body_len_def env_sizes less_Suc_eq nth_Cons')
    moreover have "u64_le (le_u64 (slice 28 8 blob)) = slice 28 8 blob"
      using l by (simp add: body_len_def env_sizes)
    moreover have "ENV_MAGIC = slice 0 8 blob" using mg by (simp add: slice_def)
    moreover have "word_of_nat (length (e_slots e)) = blob ! 9" using nb by (simp add: e_def blob_slots_def)
    ultimately have "env_header e = slice 0 8 blob @ slice (0 + 8) 2 blob @ slice (0 + 8 + 2) 2 blob
        @ slice (0 + 8 + 2 + 2) 16 blob @ slice (0 + 8 + 2 + 2 + 16) 8 blob"
      using vn by (simp add: env_header_def e_def)
    also have "\<dots> = slice 0 (8 + 2 + 2 + 16 + 8) blob" by (simp only: slice_add append.assoc add_0)
    finally show ?thesis by (simp add: slice_def env_sizes)
  qed
  have "concat (map (\<lambda>i. slice (HEADER_LEN + i * SLOT_LEN) SLOT_LEN blob) [0..<k])
      = slice HEADER_LEN (k * SLOT_LEN) blob" for k
  proof (induction k)
    case 0
    then show ?case by (simp add: slice_def)
  next
    case (Suc k)
    then show ?case
      using slice_add [of HEADER_LEN "k * SLOT_LEN" SLOT_LEN blob] by (simp add: add.commute [of SLOT_LEN])
  qed
  then have "concat (e_slots e) = slice HEADER_LEN (n * SLOT_LEN) blob" by (simp add: e_def blob_slots_def)
  then have "blob = env_body e @ drop (body_len n) blob"
    using h by (simp add: env_body_def slice_def body_len_def flip: take_add)
  then show ?thesis using that [of e "drop (body_len n) blob"] ok n l by (simp add: e_def blob_slots_def)
qed

section \<open>What the operations do to the fields\<close>

lemma rebuild_gen_body:
  assumes "env_ok e"
  shows "rebuild_gen P (env_body e @ m) dek (concat ks) (length ks) g
      = env_blob P (e\<lparr>e_gen := g, e_slots := ks\<rparr>) dek"
proof -
  have t: "take HEADER_LEN (env_body e @ m) = env_header e"
    using env_header_slices(6) [OF assms, of "concat (e_slots e) @ m"] by (simp add: env_body_def)
  have "put_at GEN_OFF (u64_le g) (put_at 9 [word_of_nat (length ks)] (env_header e))
      = env_header (e\<lparr>e_gen := g, e_slots := ks\<rparr>)"
    using assms
    by (simp add: env_header_def put_at_def env_ok_def ENV_MAGIC_def env_sizes numeral_eq_Suc)
  then show ?thesis unfolding rebuild_gen_def Let_def t by (simp add: env_blob_def env_body_def)
qed

lemma rebuild_body:
  "env_ok e \<Longrightarrow> rebuild P (env_body e @ m) dek (concat ks) (length ks)
      = env_blob P (e\<lparr>e_gen := e_gen e + 1, e_slots := ks\<rparr>) dek"
  by (simp add: rebuild_def rebuild_gen_body)

lemma env_ok_slots:
  "env_ok e \<Longrightarrow> set ks \<subseteq> set (e_slots e) \<Longrightarrow> env_ok (e\<lparr>e_gen := g, e_slots := ks\<rparr>)"
  by (auto simp: env_ok_def list_all_iff)

lemma env_ok_snoc:
  "env_ok e \<Longrightarrow> length s = SLOT_LEN \<Longrightarrow> env_ok (e\<lparr>e_gen := g, e_slots := e_slots e @ [s]\<rparr>)"
  by (simp add: env_ok_def)

lemma length_compute_mac [len_simps]: "hash_ok P \<Longrightarrow> length (compute_mac P b dek) = MAC_LEN"
  by (simp add: compute_mac_def hash_ok_lengths MAC_LEN_def)

lemma env_blob_parse:
  "env_ok e \<Longrightarrow> length (e_slots e) < 256 \<Longrightarrow> hash_ok P \<Longrightarrow>
   env_parse (env_blob P e dek) = Inr (length (e_slots e))"
  by (simp add: env_blob_def finalize_def env_parse_body length_compute_mac)

lemma env_blob_mac:
  assumes "env_ok e" and "hash_ok P"
  shows "mac_ok P (env_blob P e dek) (length (e_slots e)) dek"
  using assms length_env_body [OF assms(1)]
  by (simp add: mac_ok_def env_blob_def finalize_def compute_mac_def slice_append_right slice_def
      hash_ok_lengths MAC_LEN_def)

text \<open>A wrapped slot opens under its key, and carries its identifier and kind.\<close>

lemma wrap_slot_Inr:
  assumes "aead_ok P" and "length kek = 32" and "length dek = DEK_LEN"
    and "wrap_slot P dek kek i k r = (Inr s, r')"
  shows "length s = SLOT_LEN" and "slot_id s = i" and "slot_kind s = k" and "open_slot P kek s = Some dek"
proof -
  from assms(4) obtain nonce ct tag where d: "draw_nonzero NONCE_LEN r = (Some nonce, r')"
    and e: "aead_enc P kek nonce (slot_aad i k) dek = Some (ct, tag)" and s: "s = [i, k] @ nonce @ ct @ tag"
    by (auto simp: wrap_slot_def env_draw_nonzero_def result_simps split: prod.splits option.splits)
  have ln: "length nonce = 24" using draw_nonzero_length [OF d] by (simp add: NONCE_LEN_def)
  obtain c t where "aead_enc P kek nonce (slot_aad i k) dek = Some (c, t)" "length c = length dek"
    "length t = 16" "aead_dec P kek nonce (slot_aad i k) c t = Some dek"
    by (rule aead_okD [OF assms(1,2) ln, of dek "slot_aad i k"]) (use assms(3) in \<open>auto simp: DEK_LEN_def\<close>)
  with e have l: "length ct = 32" "length tag = 16"
    and o: "aead_dec P kek nonce (slot_aad i k) ct tag = Some dek"
    using assms(3) by (auto simp: DEK_LEN_def)
  show "length s = SLOT_LEN" "slot_id s = i" "slot_kind s = k"
    using s ln l by (simp_all add: env_sizes slot_id_def slot_kind_def)
  show "open_slot P kek s = Some dek"
    using s ln l o by (simp add: open_slot_def env_sizes slice_def)
qed

text \<open>The first slot that authenticates decides.\<close>

lemma try_slots_eq:
  "try_slots P blob n kek ss =
     (case filter (\<lambda>s. open_slot P kek s \<noteq> None) ss of
        [] \<Rightarrow> Inl EUnlock
      | s # _ \<Rightarrow> if mac_ok P blob n (the (open_slot P kek s))
                then Inr (the (open_slot P kek s)) else Inl ETamper)"
  by (induction ss) (auto split: option.splits)

lemma open_with_kek_blob:
  assumes "env_ok e" and "length (e_slots e) < 256" and "hash_ok P"
    and "open_slot P kek s = Some dek" and "e_slots e = before @ s # after"
    and "\<And>t. t \<in> set before \<Longrightarrow> open_slot P kek t = None"
  shows "open_with_kek P (env_blob P e dek) kek = Inr dek"
proof -
  have p: "env_parse (env_blob P e dek) = Inr (length (e_slots e))"
    using assms by (simp add: env_blob_parse)
  have b: "blob_slots (env_blob P e dek) (length (e_slots e)) = e_slots e"
    using assms(1) by (simp add: env_blob_def finalize_def)
  have f: "filter (\<lambda>s. open_slot P kek s \<noteq> None) (e_slots e)
      = s # filter (\<lambda>s. open_slot P kek s \<noteq> None) after"
    using assms(4-6) by (auto simp: filter_empty_conv)
  show ?thesis
    unfolding open_with_kek_def p try_then.simps b try_slots_eq f
    using env_blob_mac [OF assms(1,3), of dek] assms(4) by simp
qed

lemma kek_from_prf_length [len_simps]: "hash_ok P \<Longrightarrow> length (kek_from_prf P x) = 32"
  by (simp add: kek_from_prf_def hash_ok_lengths)

lemma kek_from_recovery_length: "argon_ok P \<Longrightarrow> kek_from_recovery P c s = Inr k \<Longrightarrow> length k = 32"
  by (auto simp: kek_from_recovery_def recovery_argon2_def argon_ok_def)

text \<open>The single envelope a creation makes.\<close>

lemma create_envelope_kind_Inr:
  assumes "aead_ok P" and "hash_ok P" and "length dek = DEK_LEN"
    and "create_envelope_kind P dek secret k r = (Inr blob, r')"
  obtains e s where "blob = env_blob P e dek" and "env_ok e" and "e_gen e = 1" and "e_slots e = [s]"
    and "slot_id s = 0" and "slot_kind s = k" and "open_slot P (kek_from_prf P secret) s = Some dek"
proof -
  from assms(4) obtain salt r1 s where sa: "getrandom SALT_LEN r = (Some salt, r1)"
    and w: "wrap_slot P dek (kek_from_prf P secret) 0 k r1 = (Inr s, r')"
    and b: "blob = finalize P (put_at GEN_OFF (u64_le 1) (put_at SALT_OFF salt (put_at 9 [1]
        (put_at 8 [ENV_VERSION] (put_at 0 ENV_MAGIC (replicate HEADER_LEN 0))))) @ s) dek"
    by (auto simp: create_envelope_kind_def env_draw_def result_simps Let_def split: prod.splits)
  have ls: "length salt = 16" using getrandom_length [OF sa] by (simp add: SALT_LEN_def)
  let ?e = "\<lparr>e_reserved = [0, 0], e_salt = salt, e_gen = 1, e_slots = [s]\<rparr>"
  have "put_at GEN_OFF (u64_le 1) (put_at SALT_OFF salt (put_at 9 [1]
        (put_at 8 [ENV_VERSION] (put_at 0 ENV_MAGIC (replicate HEADER_LEN 0))))) = env_header ?e"
    using ls by (simp add: env_header_def put_at_def ENV_MAGIC_def env_sizes numeral_eq_Suc)
  with b have "blob = env_blob P ?e dek" by (simp add: env_blob_def env_body_def)
  moreover note wrap_slot_Inr [OF assms(1) kek_from_prf_length [OF assms(2)] assms(3) w]
  moreover from this ls have "env_ok ?e" by (simp add: env_ok_def SALT_LEN_def)
  ultimately show ?thesis using that [of ?e s] by simp
qed

lemma add_passkey_slot_body:
  assumes "env_ok e" and "length (e_slots e) < 256" and "length m = MAC_LEN"
  shows "add_passkey_slot P (env_body e @ m) dek prf r =
    st_then (wrap_slot P dek (kek_from_prf P prf) (next_kek_id (env_body e @ m) (length (e_slots e)))
        KIND_PASSKEY r)
      (\<lambda>s r. (Inr (env_blob P (e\<lparr>e_gen := e_gen e + 1, e_slots := e_slots e @ [s]\<rparr>) dek), r))"
  using rebuild_body [OF assms(1), of P m dek "e_slots e @ [s]" for s] assms
  by (simp add: add_passkey_slot_def env_parse_body)

lemma add_recovery_slot_body:
  assumes "env_ok e" and "length (e_slots e) < 256" and "length m = MAC_LEN"
  shows "add_recovery_slot P (env_body e @ m) dek code r =
    (case kek_from_recovery P code (e_salt e) of
       Inl x \<Rightarrow> (Inl x, r)
     | Inr kek \<Rightarrow>
       st_then (wrap_slot P dek kek (next_kek_id (env_body e @ m) (length (e_slots e))) KIND_RECOVERY r)
         (\<lambda>s r. (Inr (env_blob P (e\<lparr>e_gen := e_gen e + 1, e_slots := e_slots e @ [s]\<rparr>) dek), r)))"
  using rebuild_body [OF assms(1), of P m dek "e_slots e @ [s]" for s] assms
  by (simp add: add_recovery_slot_def env_parse_body split: sum.split)

lemma next_kek_id_body:
  assumes "env_ok e" and "length (e_slots e) < 256"
  shows "next_kek_id (env_body e @ m) (length (e_slots e)) =
    (if e_slots e = [] then 0 else Max (slot_id ` set (e_slots e)) + 1)"
proof -
  have f: "fold (\<lambda>s m. Some (case m of None \<Rightarrow> s ! 0 | Some x \<Rightarrow> max x (s ! 0))) ss (Some a)
      = Some (Max (insert a (slot_id ` set ss)))" for ss and a :: byte
  proof (induction ss arbitrary: a)
    case (Cons s ss)
    have "Max (insert (max a (slot_id s)) (slot_id ` set ss))
        = Max (insert a (insert (slot_id s) (slot_id ` set ss)))"
      by (cases "ss = []") (simp_all add: max.assoc)
    then show ?case using Cons by (simp add: slot_id_def)
  qed simp
  show ?thesis
    unfolding next_kek_id_def blob_slots_body [OF assms(1)]
    using f [of "tl (e_slots e)" "slot_id (hd (e_slots e))"]
    by (cases "e_slots e") (simp_all add: slot_id_def)
qed

lemma strip_kind_body:
  assumes "env_ok e" and "length (e_slots e) < 256" and "length m = MAC_LEN"
  shows "strip_kind P (env_body e @ m) dek k =
    (let ks = filter (\<lambda>s. slot_kind s \<noteq> k) (e_slots e) in
     if ks = [] then Inl EFormat
     else if length ks = length (e_slots e) then Inr (env_body e @ m)
     else Inr (env_blob P (e\<lparr>e_slots := ks\<rparr>) dek))"
  using assms rebuild_gen_body [OF assms(1), of P m dek "filter (\<lambda>s. slot_kind s \<noteq> k) (e_slots e)" "e_gen e"]
  by (simp add: strip_kind_def env_parse_body Let_def slot_kind_def)

lemma remove_slot_body:
  assumes "env_ok e" and "length (e_slots e) < 256" and "length m = MAC_LEN"
  shows "remove_slot P (env_body e @ m) dek i =
    (let ks = filter (\<lambda>s. slot_id s \<noteq> i) (e_slots e) in
     if length (e_slots e) \<le> 1 \<or> length ks = length (e_slots e) then Inl EFormat
     else Inr (env_blob P (e\<lparr>e_gen := e_gen e + 1, e_slots := ks\<rparr>) dek))"
  using assms rebuild_body [OF assms(1), of P m dek "filter (\<lambda>s. slot_id s \<noteq> i) (e_slots e)"]
  by (simp add: remove_slot_def env_parse_body Let_def slot_id_def)

lemma slot_infos_body:
  assumes "env_ok e" and "length (e_slots e) < 256" and "length m = MAC_LEN"
  shows "slot_infos (env_body e @ m) = map (\<lambda>s. \<lparr>kek_id = slot_id s, kind = slot_kind s\<rparr>) (e_slots e)"
  using assms by (simp add: slot_infos_def env_parse_body slot_id_def slot_kind_def)

lemma set_generation_blob:
  assumes "env_ok e" and "length (e_slots e) < 256" and "hash_ok P"
  shows "set_generation P (env_blob P e dek) g dek = Inr (env_blob P (e\<lparr>e_gen := g\<rparr>) dek)"
proof -
  have h: "put_at GEN_OFF (u64_le g) (env_header e @ x) = env_header (e\<lparr>e_gen := g\<rparr>) @ x" for x
    using assms by (simp add: env_header_def put_at_def env_ok_def ENV_MAGIC_def env_sizes numeral_eq_Suc)
  have b: "put_at GEN_OFF (u64_le g) (env_blob P e dek)
      = env_body (e\<lparr>e_gen := g\<rparr>) @ compute_mac P (env_body e) dek"
    by (simp add: env_blob_def finalize_def env_body_def h)
  have ok: "env_ok (e\<lparr>e_gen := g\<rparr>)" using assms(1) by (simp add: env_ok_def)
  have l: "length (env_body (e\<lparr>e_gen := g\<rparr>)) = body_len (length (e_slots e))"
    using length_env_body [OF ok] by simp
  show ?thesis
    using assms l by (simp add: set_generation_def env_blob_parse b Let_def)
      (simp add: put_at_def env_blob_def finalize_def length_compute_mac)
qed

section \<open>The shape of recovery codes\<close>

lemma symbol_in_alphabet: "symbol_at x \<in> set RECOVERY_ALPHABET"
proof -
  have "x AND 0x1f \<le> 0x1f" by (rule word_and_le1)
  then have "unat (x AND 0x1f) \<le> 31" by (simp add: word_le_nat_alt)
  then have "unat (x AND 0x1f) < length RECOVERY_ALPHABET" by (simp add: RECOVERY_ALPHABET_def)
  then show ?thesis by (simp add: symbol_at_def)
qed

lemma emit_symbols_None:
  "emit_symbols None acc bits out = (b, o') \<Longrightarrow> b = bits mod 5
     \<and> length o' = length out + bits div 5 \<and> set o' \<subseteq> set out \<union> set RECOVERY_ALPHABET"
proof (induction "None :: nat option" acc bits out rule: emit_symbols.induct)
  case (1 acc bits out)
  show ?case
  proof (cases "bits \<ge> 5")
    case True
    then have "b = (bits - 5) mod 5 \<and> length o' = Suc (length out) + (bits - 5) div 5
        \<and> set o' \<subseteq> set (out @ [symbol_at (drop_bit (bits - 5) acc)]) \<union> set RECOVERY_ALPHABET"
      using 1 by (subst (asm) (2) emit_symbols.simps) simp
    then show ?thesis using True symbol_in_alphabet [of "drop_bit (bits - 5) acc"]
      by (auto simp: le_mod_geq le_div_geq)
  next
    case False
    then show ?thesis using "1.prems" by (subst (asm) emit_symbols.simps) auto
  qed
qed

lemma payload_loop_shape:
  "payload_loop ent acc bits out = (a, b, o') \<Longrightarrow> bits < 5 \<Longrightarrow>
   b = (bits + 8 * length ent) mod 5 \<and> length o' = length out + (bits + 8 * length ent) div 5
     \<and> set o' \<subseteq> set out \<union> set RECOVERY_ALPHABET"
proof (induction ent arbitrary: acc bits out)
  case Nil
  then show ?case by auto
next
  case (Cons x ent)
  obtain b1 o1 where e: "emit_symbols None (push_byte acc x) (bits + 8) out = (b1, o1)" by fastforce
  note s = emit_symbols_None [OF e]
  have rec: "payload_loop ent (push_byte acc x) b1 o1 = (a, b, o')" using Cons.prems(1) e by simp
  have IH: "b = (b1 + 8 * length ent) mod 5 \<and> length o' = length o1 + (b1 + 8 * length ent) div 5
     \<and> set o' \<subseteq> set o1 \<union> set RECOVERY_ALPHABET"
    using s by (intro Cons.IH [OF rec]) simp
  have q: "bits + 8 * length (x # ent) = 5 * ((bits + 8) div 5) + (b1 + 8 * length ent)"
    using s mult_div_mod_eq [of 5 "bits + 8"] by simp
  have "(bits + 8 * length (x # ent)) mod 5 = (b1 + 8 * length ent) mod 5"
    and "(bits + 8 * length (x # ent)) div 5 = (bits + 8) div 5 + (b1 + 8 * length ent) div 5"
    unfolding q by simp_all
  then show ?case using IH s by (simp only: add.assoc) blast
qed

lemma recovery_payload_shape:
  assumes "length ent = 16"
  shows "length (recovery_payload ent) = RECOVERY_PAYLOAD_LEN"
    and "set (recovery_payload ent) \<subseteq> set RECOVERY_ALPHABET"
proof -
  obtain a b o' where p: "payload_loop ent 0 0 [] = (a, b, o')" by (metis prod_cases3)
  from payload_loop_shape [OF p] assms
  show "length (recovery_payload ent) = RECOVERY_PAYLOAD_LEN"
    and "set (recovery_payload ent) \<subseteq> set RECOVERY_ALPHABET"
    using symbol_in_alphabet by (auto simp: recovery_payload_def p RECOVERY_PAYLOAD_LEN_def)
qed

lemma emit_symbols_Some:
  "emit_symbols (Some l) acc bits out = (b, o') \<Longrightarrow> length out \<le> l \<Longrightarrow>
   length o' = min l (length out + bits div 5) \<and> (length o' < l \<longrightarrow> b = bits mod 5)
     \<and> set o' \<subseteq> set out \<union> set RECOVERY_ALPHABET"
proof (induction "Some l" acc bits out rule: emit_symbols.induct)
  case (1 acc bits out)
  show ?case
  proof (cases "bits \<ge> 5 \<and> length out < l")
    case True
    then have "length o' = min l (Suc (length out) + (bits - 5) div 5)
        \<and> (length o' < l \<longrightarrow> b = (bits - 5) mod 5)
        \<and> set o' \<subseteq> set (out @ [symbol_at (drop_bit (bits - 5) acc)]) \<union> set RECOVERY_ALPHABET"
      using 1 by (subst (asm) (2) emit_symbols.simps) simp
    then show ?thesis using True symbol_in_alphabet [of "drop_bit (bits - 5) acc"]
      by (auto simp: le_mod_geq le_div_geq)
  next
    case False
    then show ?thesis using "1.prems" by (subst (asm) emit_symbols.simps) auto
  qed
qed

lemma checksum_loop_shape:
  "bits < 5 \<Longrightarrow> length out < RECOVERY_CHECK_LEN \<Longrightarrow>
   length (checksum_loop h acc bits out) = min RECOVERY_CHECK_LEN (length out + (bits + 8 * length h) div 5)
   \<and> set (checksum_loop h acc bits out) \<subseteq> set out \<union> set RECOVERY_ALPHABET"
proof (induction h arbitrary: acc bits out)
  case Nil
  then show ?case by simp
next
  case (Cons x h)
  obtain b1 o1 where e: "emit_symbols (Some RECOVERY_CHECK_LEN) (push_byte acc x) (bits + 8) out = (b1, o1)"
    by fastforce
  note s = emit_symbols_Some [OF e less_imp_le [OF Cons.prems(2)]]
  show ?case
  proof (cases "length o1 = RECOVERY_CHECK_LEN")
    case True
    then have "RECOVERY_CHECK_LEN \<le> length out + (bits + 8) div 5" using s by simp
    also have "\<dots> \<le> length out + (bits + 8 * length (x # h)) div 5" by (simp add: div_le_mono)
    finally show ?thesis using True e s by simp
  next
    case False
    then have lt: "length o1 < RECOVERY_CHECK_LEN" using s by simp
    then have b1: "b1 = (bits + 8) mod 5" and l1: "length o1 = length out + (bits + 8) div 5" using s by auto
    have q: "bits + 8 * length (x # h) = 5 * ((bits + 8) div 5) + (b1 + 8 * length h)"
      using b1 mult_div_mod_eq [of 5 "bits + 8"] by simp
    have d: "length out + (bits + 8 * length (x # h)) div 5 = length o1 + (b1 + 8 * length h) div 5"
      unfolding q l1 by simp
    have "b1 < 5" using b1 by simp
    note IH = Cons.IH [OF this lt, of "push_byte acc x"]
    have c: "checksum_loop (x # h) acc bits out = checksum_loop h (push_byte acc x) b1 o1"
      using e False by simp
    show ?thesis unfolding c d using IH s by blast
  qed
qed

lemma recovery_checksum_shape:
  assumes "hash_ok P"
  shows "length (recovery_checksum P x) = RECOVERY_CHECK_LEN"
    and "set (recovery_checksum P x) \<subseteq> set RECOVERY_ALPHABET"
  using checksum_loop_shape [of 0 "[]" "sha256 P x" 0] assms
  by (simp_all add: recovery_checksum_def RECOVERY_CHECK_LEN_def hash_ok_lengths)

lemma chunks_concat: "n \<noteq> 0 \<Longrightarrow> concat (chunks_of n xs) = xs"
proof (induction n xs rule: chunks_of.induct)
  case (1 n xs)
  then show ?case by (subst chunks_of.simps) auto
qed

lemma filter_join: "filter (\<lambda>c. c \<noteq> sep) (join_with sep ws) = concat (map (filter (\<lambda>c. c \<noteq> sep)) ws)"
  by (induction sep ws rule: join_with.induct) auto

lemma set_join: "set (join_with sep ws) \<subseteq> insert sep (set (concat ws))"
  by (induction sep ws rule: join_with.induct) auto

lemma remove_ws_none: "(\<And>b. b \<in> set s \<Longrightarrow> b < 0x80 \<and> \<not> ws1 b) \<Longrightarrow> remove_ws s = s"
proof (induction s)
  case (Cons a s)
  have "a < 0x80 \<and> \<not> ws1 a" using Cons.prems by simp
  then have "ws_len (a # s) = 0"
    by (auto simp: ws_len_def ws2_def ws3_def split: list.split)
  then show ?case using Cons by simp
qed simp

lemma alphabet_plain: "b \<in> set RECOVERY_ALPHABET \<Longrightarrow>
    b < 0x80 \<and> \<not> ws1 b \<and> b \<noteq> 0x2D \<and> ascii_upper b = b"
  by (auto simp: RECOVERY_ALPHABET_def ws1_def ascii_upper_def)

lemma canon_generated:
  assumes "upper_ok P" and "set all \<subseteq> set RECOVERY_ALPHABET"
  shows "recovery_canon P (join_with 0x2D (chunks_of 5 all)) = all"
proof -
  have c: "concat (chunks_of 5 all) = all" by (rule chunks_concat) simp
  let ?code = "join_with 0x2D (chunks_of 5 all)"
  have "set ?code \<subseteq> insert 0x2D (set RECOVERY_ALPHABET)"
    using set_join [of "0x2D" "chunks_of 5 all"] c assms(2) by auto
  then have "b = 0x2D \<or> b \<in> set RECOVERY_ALPHABET" if "b \<in> set ?code" for b
    using that by blast
  moreover have "0x2D < (0x80 :: byte) \<and> \<not> ws1 0x2D" by (simp add: ws1_def)
  ultimately have "b < 0x80 \<and> \<not> ws1 b" if "b \<in> set ?code" for b
    using that alphabet_plain by metis
  then have "remove_ws ?code = ?code" by (rule remove_ws_none)
  moreover have "filter (\<lambda>c. c \<noteq> 0x2D) ?code = filter (\<lambda>c. c \<noteq> 0x2D) (concat (chunks_of 5 all))"
    unfolding filter_join filter_concat ..
  moreover have "filter (\<lambda>c. c \<noteq> 0x2D) all = all"
    using assms(2) alphabet_plain by (intro filter_True) blast
  moreover have "to_upper P all = map ascii_upper all"
    using assms alphabet_plain by (auto simp: upper_ok_def list_all_iff subset_iff)
  moreover have "map ascii_upper all = all"
    using assms(2) alphabet_plain by (intro map_idI) blast
  ultimately show ?thesis by (simp add: recovery_canon_def c)
qed

lemma env_blob_fields:
  assumes "env_ok e" and "length (e_slots e) < 256" and "hash_ok P"
  shows "envelope_generation (env_blob P e dek) = e_gen e"
    and "slot_infos (env_blob P e dek) = map (\<lambda>s. \<lparr>kek_id = slot_id s, kind = slot_kind s\<rparr>) (e_slots e)"
    and "gen_of (env_blob P e dek) = e_gen e"
    and "blob_slots (env_blob P e dek) (length (e_slots e)) = e_slots e"
    and "open_with_kek P (env_blob P e dek) kek
       = try_slots P (env_blob P e dek) (length (e_slots e)) kek (e_slots e)"
  using env_parse_body [OF assms(1,2)] slot_infos_body [OF assms(1,2)] assms
  by (simp_all add: envelope_generation_def env_blob_def finalize_def length_compute_mac open_with_kek_def)

text \<open>A blob that opens is MAC-authentic under the key it yields, and so is what a rebuild makes.\<close>

lemma try_slots_Inr:
  "try_slots P blob n kek ss = Inr dek \<Longrightarrow>
     mac_ok P blob n dek \<and> (\<exists>s \<in> set ss. open_slot P kek s = Some dek)"
  by (induction ss) (auto split: option.splits if_splits)

lemma try_slots_keep:
  assumes "try_slots P blob n kek ss = Inr dek" and "mac_ok P blob' n' dek"
    and "filter (\<lambda>s. open_slot P kek s \<noteq> None) ss' = filter (\<lambda>s. open_slot P kek s \<noteq> None) ss @ rest"
  shows "try_slots P blob' n' kek ss' = Inr dek"
proof -
  obtain s fs where f: "filter (\<lambda>s. open_slot P kek s \<noteq> None) ss = s # fs"
    using assms(1) unfolding try_slots_eq by (cases "filter (\<lambda>s. open_slot P kek s \<noteq> None) ss") simp_all
  have "the (open_slot P kek s) = dek"
    using assms(1) unfolding try_slots_eq f by (simp split: if_splits)
  moreover have "filter (\<lambda>s. open_slot P kek s \<noteq> None) ss' = s # (fs @ rest)"
    using assms(3) unfolding f by simp
  ultimately show ?thesis using assms(2) unfolding try_slots_eq by (simp only: list.case if_True)
qed

section \<open>Properties\<close>

text \<open>a new envelope, for a passkey or for a device secret, opens with the secret it was made
  from to the data key that was wrapped, starts at generation 1 and lists one slot of its kind.\<close>

lemma create_envelope_opens:
  assumes "aead_ok P" and "hash_ok P" and "length dek = DEK_LEN"
    and "create_envelope_kind P dek secret k r = (Inr blob, r')"
  shows "open_with_prf P blob secret = Inr dek \<and> envelope_generation blob = 1
    \<and> slot_infos blob = [\<lparr>kek_id = 0, kind = k\<rparr>]"
proof -
  obtain e s where b: "blob = env_blob P e dek" and e: "env_ok e" "e_gen e = 1" "e_slots e = [s]"
    and s: "slot_id s = 0" "slot_kind s = k" "open_slot P (kek_from_prf P secret) s = Some dek"
    using assms by (rule create_envelope_kind_Inr)
  have "open_with_kek P blob (kek_from_prf P secret) = Inr dek"
    unfolding b by (rule open_with_kek_blob [where before = "[]" and after = "[]" and s = s])
      (use e s assms in auto)
  then show ?thesis
    using env_blob_fields(1,2) [of e P dek] e s assms(2) by (simp add: open_with_prf_def b)
qed

lemma toy_create:
  "create_envelope_kind toy dek secret k [Some (replicate 16 5), Some (replicate 24 9)]
    = (Inr (fst (the (case create_envelope_kind toy dek secret k [Some (replicate 16 5), Some (replicate 24 9)]
        of (Inr b, r) \<Rightarrow> Some (b, r) | _ \<Rightarrow> None))), [])"
  by (simp add: create_envelope_kind_def env_draw_def wrap_slot_def env_draw_nonzero_def NONCE_LEN_def
      SALT_LEN_def Let_def)

lemma create_envelope_opens_witness:
  "\<exists>blob. create_envelope_kind toy (replicate 32 4) [8] KIND_PASSKEY [Some (replicate 16 5), Some (replicate 24 9)]
       = (Inr blob, []) \<and> open_with_prf toy blob [8] = Inr (replicate 32 4)"
  using create_envelope_opens [OF toy_aead_ok toy_hash_ok _ toy_create, of "replicate 32 4" "[8]" KIND_PASSKEY]
    toy_create [of "replicate 32 4" "[8]" KIND_PASSKEY]
  by (auto simp: DEK_LEN_def)

text \<open>The shape both additions share.\<close>

lemma add_slot_effect:
  assumes ok: "env_ok e" and n: "length (e_slots e) < 255" and h: "hash_ok P"
    and s: "length s = SLOT_LEN" "open_slot P kek s = Some dek"
    and b': "blob' = env_blob P (e\<lparr>e_gen := e_gen e + 1, e_slots := e_slots e @ [s]\<rparr>) dek"
    and lm: "length m = MAC_LEN"
  shows "envelope_generation blob' = envelope_generation (env_body e @ m) + 1"
    and "slot_infos blob' = slot_infos (env_body e @ m) @ [\<lparr>kek_id = slot_id s, kind = slot_kind s\<rparr>]"
    and "open_with_kek P (env_body e @ m) k2 = Inr dek \<Longrightarrow> open_with_kek P blob' k2 = Inr dek"
    and "(\<And>t. t \<in> set (e_slots e) \<Longrightarrow> open_slot P kek t = None) \<Longrightarrow> open_with_kek P blob' kek = Inr dek"
proof -
  let ?e' = "e\<lparr>e_gen := e_gen e + 1, e_slots := e_slots e @ [s]\<rparr>"
  have ok': "env_ok ?e'" and n': "length (e_slots ?e') < 256" using ok s n by (simp_all add: env_ok_snoc)
  have p: "env_parse (env_body e @ m) = Inr (length (e_slots e))" using ok n lm by (simp add: env_parse_body)
  note f = env_blob_fields [OF ok' n' h, of dek]
  show "envelope_generation blob' = envelope_generation (env_body e @ m) + 1"
    using f(1) ok by (simp add: b' envelope_generation_def p)
  show "slot_infos blob' = slot_infos (env_body e @ m) @ [\<lparr>kek_id = slot_id s, kind = slot_kind s\<rparr>]"
    using f(2) slot_infos_body [OF ok _ lm] n by (simp add: b')
  show "open_with_kek P blob' k2 = Inr dek" if "open_with_kek P (env_body e @ m) k2 = Inr dek"
  proof -
    from that have t: "try_slots P (env_body e @ m) (length (e_slots e)) k2 (e_slots e) = Inr dek"
      using ok by (simp add: open_with_kek_def p)
    show ?thesis unfolding b' f(5)
      by (rule try_slots_keep [OF t env_blob_mac [OF ok' h]]) simp
  qed
  show "open_with_kek P blob' kek = Inr dek" if "\<And>t. t \<in> set (e_slots e) \<Longrightarrow> open_slot P kek t = None"
    unfolding b' by (rule open_with_kek_blob [where before = "e_slots e" and after = "[]", OF ok' n' h s(2)])
      (use that in auto)
qed

text \<open>adding a passkey to an envelope with fewer than 255 slots appends one slot with the next
  identifier and raises the generation by one; every method that opened the envelope to this key
  still does, and the new passkey does unless an older slot happens to authenticate under it.\<close>

theorem add_passkey_slot_effect:
  assumes "aead_ok P" and "hash_ok P" and "length dek = DEK_LEN"
    and "env_parse blob = Inr n" and "n < 255"
    and "add_passkey_slot P blob dek prf r = (Inr blob', r')"
  shows "envelope_generation blob' = envelope_generation blob + 1
    \<and> slot_infos blob' = slot_infos blob @ [\<lparr>kek_id = next_kek_id blob n, kind = KIND_PASSKEY\<rparr>]
    \<and> (\<forall>kek. open_with_kek P blob kek = Inr dek \<longrightarrow> open_with_kek P blob' kek = Inr dek)
    \<and> ((\<forall>t \<in> set (blob_slots blob n). open_slot P (kek_from_prf P prf) t = None) \<longrightarrow>
         open_with_prf P blob' prf = Inr dek)"
proof -
  obtain e m where e: "env_ok e" "length (e_slots e) = n" "length m = MAC_LEN" "blob = env_body e @ m"
    using assms(4) by (rule env_parse_Inr) blast
  obtain s where w: "wrap_slot P dek (kek_from_prf P prf) (next_kek_id blob n) KIND_PASSKEY r = (Inr s, r')"
    and b': "blob' = env_blob P (e\<lparr>e_gen := e_gen e + 1, e_slots := e_slots e @ [s]\<rparr>) dek"
    using add_passkey_slot_body [OF e(1) _ e(3), of P dek "prf" r] assms(5,6) e
    by (auto simp: result_simps)
  note s = wrap_slot_Inr [OF assms(1) kek_from_prf_length [OF assms(2)] assms(3) w]
  have bs: "blob_slots blob n = e_slots e" using e by auto
  show ?thesis unfolding bs
    using add_slot_effect [OF e(1) _ assms(2) s(1,4) b' e(3)] assms(5) e s(2,3)
    by (simp add: open_with_prf_def)
qed

text \<open>adding a recovery code does the same with a recovery slot, whose key is stretched with the
  envelope's own salt.\<close>

theorem add_recovery_slot_effect:
  assumes "aead_ok P" and "hash_ok P" and "argon_ok P" and "length dek = DEK_LEN"
    and "env_parse blob = Inr n" and "n < 255"
    and "kek_from_recovery P code (slice SALT_OFF SALT_LEN blob) = Inr rkek"
    and "add_recovery_slot P blob dek code r = (Inr blob', r')"
  shows "envelope_generation blob' = envelope_generation blob + 1
    \<and> slot_infos blob' = slot_infos blob @ [\<lparr>kek_id = next_kek_id blob n, kind = KIND_RECOVERY\<rparr>]
    \<and> (\<forall>kek. open_with_kek P blob kek = Inr dek \<longrightarrow> open_with_kek P blob' kek = Inr dek)
    \<and> ((\<forall>t \<in> set (blob_slots blob n). open_slot P rkek t = None) \<longrightarrow>
         open_with_recovery P blob' code = Inr dek)"
proof -
  obtain e m where e: "env_ok e" "length (e_slots e) = n" "length m = MAC_LEN" "blob = env_body e @ m"
    using assms(5) by (rule env_parse_Inr) blast
  have k: "kek_from_recovery P code (e_salt e) = Inr rkek" using assms(7) e by simp
  obtain s where w: "wrap_slot P dek rkek (next_kek_id blob n) KIND_RECOVERY r = (Inr s, r')"
    and b': "blob' = env_blob P (e\<lparr>e_gen := e_gen e + 1, e_slots := e_slots e @ [s]\<rparr>) dek"
    using assms(6,8) e k add_recovery_slot_body [OF e(1) _ e(3), of P dek code r]
    by (auto simp: result_simps)
  note s = wrap_slot_Inr [OF assms(1) kek_from_recovery_length [OF assms(3) k] assms(4) w]
  have ok': "env_ok (e\<lparr>e_gen := e_gen e + 1, e_slots := e_slots e @ [s]\<rparr>)"
    using e(1) s(1) by (rule env_ok_snoc)
  have o: "open_with_recovery P blob' code = open_with_kek P blob' rkek"
    using env_blob_parse [OF ok', of P dek] assms(2,6) e(2) k salt_of_body [OF ok']
    by (simp add: open_with_recovery_def b') (simp add: env_blob_def finalize_def)
  have bs: "blob_slots blob n = e_slots e" using e by auto
  show ?thesis unfolding bs
    using add_slot_effect [OF e(1) _ assms(2) s(1,4) b' e(3)] assms(6) e s(2,3) o by simp
qed

text \<open>An envelope with two methods, for the instances below.\<close>

definition toy_slot :: "byte \<Rightarrow> byte \<Rightarrow> bytes \<Rightarrow> bytes \<Rightarrow> bytes" where
  "toy_slot i k kek dek = [i, k] @ replicate 24 9 @ dek @ toy_tag kek (replicate 24 9) (slot_aad i k) dek"

definition toy_dek :: bytes where "toy_dek = replicate 32 4"

definition toy_env :: env where
  "toy_env = \<lparr>e_reserved = [0, 0], e_salt = replicate 16 5, e_gen = 7,
     e_slots = [toy_slot 0 KIND_PASSKEY (replicate 32 1) toy_dek, toy_slot 1 KIND_RECOVERY (replicate 32 2) toy_dek]\<rparr>"

lemma toy_env_ok: "env_ok toy_env" "length (e_slots toy_env) = 2"
  by (simp_all add: env_ok_def toy_env_def toy_slot_def toy_dek_def env_sizes)

lemma toy_slot_ids [simp]: "slot_id (toy_slot i k kek dek) = i" "slot_kind (toy_slot i k kek dek) = k"
  by (simp_all add: slot_id_def slot_kind_def toy_slot_def)

lemma toy_env_parse: "env_parse (env_blob toy toy_env toy_dek) = Inr 2"
  using env_blob_parse [OF toy_env_ok(1) _ toy_hash_ok] toy_env_ok(2) by simp

lemma toy_blob_eq: "env_blob toy toy_env toy_dek = env_body toy_env @ compute_mac toy (env_body toy_env) toy_dek"
  by (simp add: env_blob_def finalize_def)

theorem add_passkey_slot_effect_witness:
  "\<exists>blob' r'. add_passkey_slot toy (env_blob toy toy_env toy_dek) toy_dek [3] [Some (replicate 24 6)] = (Inr blob', r')
     \<and> envelope_generation blob' = envelope_generation (env_blob toy toy_env toy_dek) + 1"
proof -
  obtain blob' r' where a: "add_passkey_slot toy (env_blob toy toy_env toy_dek) toy_dek [3] [Some (replicate 24 6)]
      = (Inr blob', r')"
    by (simp add: add_passkey_slot_def toy_env_parse wrap_slot_def env_draw_nonzero_def NONCE_LEN_def)
  moreover have "length toy_dek = DEK_LEN" by (simp add: toy_dek_def DEK_LEN_def)
  ultimately show ?thesis
    using add_passkey_slot_effect [OF toy_aead_ok toy_hash_ok _ toy_env_parse _ a] by auto
qed

theorem add_recovery_slot_effect_witness:
  "\<exists>blob' r'. add_recovery_slot toy (env_blob toy toy_env toy_dek) toy_dek [65] [Some (replicate 24 6)] = (Inr blob', r')
     \<and> length (slot_infos blob') = length (slot_infos (env_blob toy toy_env toy_dek)) + 1"
proof -
  let ?b = "env_blob toy toy_env toy_dek"
  obtain k where k: "kek_from_recovery toy [65] (slice SALT_OFF SALT_LEN ?b) = Inr k"
    by (simp add: kek_from_recovery_def recovery_argon2_def)
  obtain blob' r' where a: "add_recovery_slot toy ?b toy_dek [65] [Some (replicate 24 6)] = (Inr blob', r')"
    by (simp add: add_recovery_slot_def toy_env_parse k wrap_slot_def env_draw_nonzero_def NONCE_LEN_def)
  moreover have "length toy_dek = DEK_LEN" by (simp add: toy_dek_def DEK_LEN_def)
  ultimately show ?thesis
    using add_recovery_slot_effect [OF toy_aead_ok toy_hash_ok toy_argon_ok _ toy_env_parse _ k a] by auto
qed

text \<open>revoking a method succeeds exactly when the envelope has at least two slots and one of that
  identifier. It keeps the other slots in order, raises the generation, shuts out every key that
  opened only revoked slots and keeps every key that opened no revoked one.\<close>

theorem remove_slot_effect:
  assumes "hash_ok P" and "env_parse blob = Inr n"
  shows "case remove_slot P blob dek i of
      Inl x \<Rightarrow> x = EFormat \<and> (n \<le> 1 \<or> (\<forall>s \<in> set (slot_infos blob). kek_id s \<noteq> i))
    | Inr blob' \<Rightarrow> n \<ge> 2
        \<and> envelope_generation blob' = envelope_generation blob + 1
        \<and> slot_infos blob' = filter (\<lambda>s. kek_id s \<noteq> i) (slot_infos blob)
        \<and> (\<forall>kek. (\<forall>s \<in> set (blob_slots blob n). open_slot P kek s \<noteq> None \<longrightarrow> slot_id s = i)
              \<longrightarrow> open_with_kek P blob' kek = Inl EUnlock)
        \<and> (\<forall>kek. open_with_kek P blob kek = Inr dek \<longrightarrow>
              (\<forall>s \<in> set (blob_slots blob n). open_slot P kek s \<noteq> None \<longrightarrow> slot_id s \<noteq> i)
              \<longrightarrow> open_with_kek P blob' kek = Inr dek)"
proof -
  obtain e m where e: "env_ok e" "length (e_slots e) = n" "n < 256" "length m = MAC_LEN" "blob = env_body e @ m"
    using assms(2) by (rule env_parse_Inr) blast
  let ?ks = "filter (\<lambda>s. slot_id s \<noteq> i) (e_slots e)"
  let ?e' = "e\<lparr>e_gen := e_gen e + 1, e_slots := ?ks\<rparr>"
  have n: "length (e_slots e) < 256" using e by simp
  note r = remove_slot_body [OF e(1) n e(4), of P dek i]
  have si: "slot_infos blob = map (\<lambda>s. \<lparr>kek_id = slot_id s, kind = slot_kind s\<rparr>) (e_slots e)"
    using slot_infos_body [OF e(1) n e(4)] e by simp
  have bs: "blob_slots blob n = e_slots e" using e by auto
  have no: "length ?ks = length (e_slots e) \<longleftrightarrow> (\<forall>s \<in> set (e_slots e). slot_id s \<noteq> i)"
    by (rule length_filter_all_iff)
  show ?thesis
  proof (cases "n \<le> 1 \<or> length ?ks = length (e_slots e)")
    case True
    then have "remove_slot P blob dek i = Inl EFormat" using r e by (auto simp: Let_def)
    then show ?thesis using True no by (auto simp: si)
  next
    case False
    then have rm: "remove_slot P blob dek i = Inr (env_blob P ?e' dek)" using r e by (auto simp: Let_def)
    have ok': "env_ok ?e'" by (rule env_ok_slots [OF e(1)]) simp
    have n': "length (e_slots ?e') < 256" 
      using le_less_trans [OF length_filter_le n] by simp
    note f = env_blob_fields [OF ok' n' assms(1), of dek]
    have out: "open_with_kek P (env_blob P ?e' dek) kek = Inl EUnlock"
      if "\<forall>s \<in> set (e_slots e). open_slot P kek s \<noteq> None \<longrightarrow> slot_id s = i" for kek
    proof -
      have "filter (\<lambda>s. open_slot P kek s \<noteq> None) ?ks = []" using that by (auto simp: filter_empty_conv)
      then show ?thesis unfolding f(5) try_slots_eq by simp
    qed
    have keep: "open_with_kek P (env_blob P ?e' dek) kek = Inr dek"
      if o: "open_with_kek P blob kek = Inr dek"
        and d: "\<forall>s \<in> set (e_slots e). open_slot P kek s \<noteq> None \<longrightarrow> slot_id s \<noteq> i" for kek
    proof -
      have t: "try_slots P blob n kek (e_slots e) = Inr dek"
        using o by (simp add: open_with_kek_def assms(2) bs)
      have "filter (\<lambda>s. open_slot P kek s \<noteq> None) ?ks = filter (\<lambda>s. open_slot P kek s \<noteq> None) (e_slots e) @ []"
        using d by (auto simp: filter_filter intro!: filter_cong)
      then show ?thesis unfolding f(5) by (intro try_slots_keep [OF t env_blob_mac [OF ok' assms(1)]]) simp
    qed
    have g: "envelope_generation blob = e_gen e" using e assms(2) by (simp add: envelope_generation_def)
    have s: "slot_infos (env_blob P ?e' dek) = filter (\<lambda>s. kek_id s \<noteq> i) (slot_infos blob)"
      using f(2) by (simp add: si filter_map comp_def)
    have "envelope_generation (env_blob P ?e' dek) = envelope_generation blob + 1" using f(1) g by simp
    then show ?thesis unfolding rm sum.case bs using False s out keep by auto
  qed
qed

theorem remove_slot_effect_witness:
  "\<exists>blob'. remove_slot toy (env_blob toy toy_env toy_dek) toy_dek 1 = Inr blob'
     \<and> envelope_generation blob' = envelope_generation (env_blob toy toy_env toy_dek) + 1"
proof -
  have "kek_id \<lparr>kek_id = 1, kind = KIND_RECOVERY\<rparr> = 1" by simp
  then have "\<exists>s \<in> set (slot_infos (env_blob toy toy_env toy_dek)). kek_id s = 1"
    using env_blob_fields(2) [OF toy_env_ok(1) _ toy_hash_ok, of toy_dek] toy_env_ok(2)
    by (auto simp: toy_env_def)
  then show ?thesis
    using remove_slot_effect [OF toy_hash_ok toy_env_parse, where dek = toy_dek and i = 1] by (auto split: sum.splits)
qed

text \<open>stripping a kind for an export removes exactly the slots of that kind, leaves the
  generation as it is, refuses to leave no slot at all, and keeps every unlock key that opened
  only slots of other kinds.\<close>

theorem strip_kind_effect:
  assumes "hash_ok P" and "env_parse blob = Inr n"
  shows "case strip_kind P blob dek k of
      Inl x \<Rightarrow> x = EFormat \<and> (\<forall>s \<in> set (slot_infos blob). kind s = k)
    | Inr blob' \<Rightarrow>
        envelope_generation blob' = envelope_generation blob
        \<and> slot_infos blob' = filter (\<lambda>s. kind s \<noteq> k) (slot_infos blob) \<and> slot_infos blob' \<noteq> []
        \<and> (\<forall>kek. open_with_kek P blob kek = Inr dek \<longrightarrow>
              (\<forall>s \<in> set (blob_slots blob n). open_slot P kek s \<noteq> None \<longrightarrow> slot_kind s \<noteq> k)
              \<longrightarrow> open_with_kek P blob' kek = Inr dek)"
proof -
  obtain e m where e: "env_ok e" "length (e_slots e) = n" "n < 256" "length m = MAC_LEN" "blob = env_body e @ m"
    using assms(2) by (rule env_parse_Inr) blast
  let ?ks = "filter (\<lambda>s. slot_kind s \<noteq> k) (e_slots e)"
  let ?e' = "e\<lparr>e_slots := ?ks\<rparr>"
  have n: "length (e_slots e) < 256" using e by simp
  note r = strip_kind_body [OF e(1) n e(4), of P dek k]
  have si: "slot_infos blob = map (\<lambda>s. \<lparr>kek_id = slot_id s, kind = slot_kind s\<rparr>) (e_slots e)"
    using slot_infos_body [OF e(1) n e(4)] e by simp
  have bs: "blob_slots blob n = e_slots e" using e by auto
  consider (none) "?ks = []" | (all) "?ks \<noteq> []" "length ?ks = length (e_slots e)"
    | (some) "?ks \<noteq> []" "length ?ks \<noteq> length (e_slots e)" by blast
  then show ?thesis
  proof cases
    case none
    then have "strip_kind P blob dek k = Inl EFormat" using r e by (simp add: Let_def)
    then show ?thesis using none by (auto simp: si filter_empty_conv)
  next
    case all
    then have st: "strip_kind P blob dek k = Inr blob" using r e by (simp add: Let_def)
    have "?ks = e_slots e" using all(2) length_filter_all_iff by (metis filter_True)
    then show ?thesis using all(1) by (simp add: st si filter_map comp_def)
  next
    case some
    then have st: "strip_kind P blob dek k = Inr (env_blob P ?e' dek)" using r e by (simp add: Let_def)
    have ok': "env_ok ?e'" using env_ok_slots [OF e(1), of ?ks "e_gen e"] by simp
    have n': "length (e_slots ?e') < 256"
      using le_less_trans [OF length_filter_le n] by simp
    note f = env_blob_fields [OF ok' n' assms(1), of dek]
    have keep: "open_with_kek P (env_blob P ?e' dek) kek = Inr dek"
      if o: "open_with_kek P blob kek = Inr dek"
        and d: "\<forall>s \<in> set (e_slots e). open_slot P kek s \<noteq> None \<longrightarrow> slot_kind s \<noteq> k" for kek
    proof -
      have t: "try_slots P blob n kek (e_slots e) = Inr dek"
        using o by (simp add: open_with_kek_def assms(2) bs)
      have "filter (\<lambda>s. open_slot P kek s \<noteq> None) ?ks = filter (\<lambda>s. open_slot P kek s \<noteq> None) (e_slots e) @ []"
        using d by (auto simp: filter_filter intro!: filter_cong)
      then show ?thesis unfolding f(5) by (intro try_slots_keep [OF t env_blob_mac [OF ok' assms(1)]]) simp
    qed
    have s: "slot_infos (env_blob P ?e' dek) = filter (\<lambda>s. kind s \<noteq> k) (slot_infos blob)"
      using f(2) by (simp add: si filter_map comp_def)
    have ne: "slot_infos (env_blob P ?e' dek) \<noteq> []" using f(2) some(1) by simp
    have "envelope_generation (env_blob P ?e' dek) = envelope_generation blob"
      using f(1) e assms(2) by (simp add: envelope_generation_def)
    then show ?thesis unfolding st sum.case bs using s ne keep by auto
  qed
qed

theorem strip_kind_effect_witness:
  "case strip_kind toy (env_blob toy toy_env toy_dek) toy_dek KIND_RECOVERY of
      Inl x \<Rightarrow> x = EFormat
    | Inr blob' \<Rightarrow> envelope_generation blob' = envelope_generation (env_blob toy toy_env toy_dek)"
  using strip_kind_effect [OF toy_hash_ok toy_env_parse, where dek = toy_dek and k = KIND_RECOVERY]
  by (auto split: sum.splits)

text \<open>C34: an envelope that opens is authentic under the key it yields: a slot authenticates to that
  key and the MAC covers header, generation and every slot, so a copy with the same MAC and a
  different byte anywhere before it never opens to the same key.\<close>

theorem open_envelope_authentic:
  assumes "hash_ok P" and "open_with_kek P blob kek = Inr dek" and "open_with_kek P blob' kek' = Inr dek"
    and "length blob' = length blob"
    and "inj_on (hmac P (mac_key P dek)) {take (length blob - MAC_LEN) blob, take (length blob - MAC_LEN) blob'}"
  shows "(\<exists>n. env_parse blob = Inr n \<and> (\<exists>s \<in> set (blob_slots blob n). open_slot P kek s = Some dek))
    \<and> (drop (length blob - MAC_LEN) blob' = drop (length blob - MAC_LEN) blob \<longrightarrow> blob' = blob)"
proof -
  have o: "\<exists>n. env_parse b = Inr n \<and> (\<exists>s \<in> set (blob_slots b n). open_slot P k s = Some dek)
      \<and> hmac P (mac_key P dek) (take (length b - MAC_LEN) b) = drop (length b - MAC_LEN) b"
    if ob: "open_with_kek P b k = Inr dek" for b k
  proof -
    obtain n where n: "env_parse b = Inr n" and t: "try_slots P b n k (blob_slots b n) = Inr dek"
      using ob by (auto simp: open_with_kek_def result_simps)
    have l: "length b = body_len n + MAC_LEN"
      using n by (auto simp: env_parse_def Let_def split: if_splits)
    have "mac_ok P b n dek" using try_slots_Inr [OF t] by simp
    then show ?thesis using try_slots_Inr [OF t] n l by (simp add: mac_ok_def slice_def)
  qed
  have "blob' = blob" if "drop (length blob - MAC_LEN) blob' = drop (length blob - MAC_LEN) blob"
  proof -
    have "hmac P (mac_key P dek) (take (length blob - MAC_LEN) blob')
        = hmac P (mac_key P dek) (take (length blob - MAC_LEN) blob)"
      using o [OF assms(2)] o [OF assms(3)] assms(4) that by auto
    then have "take (length blob - MAC_LEN) blob' = take (length blob - MAC_LEN) blob"
      using assms(5) by (auto dest: inj_onD)
    with that show ?thesis by (metis append_take_drop_id)
  qed
  with o [OF assms(2)] show ?thesis by blast
qed

theorem open_envelope_authentic_witness:
  "\<exists>n. env_parse (env_blob toy toy_env toy_dek) = Inr n
     \<and> (\<exists>s \<in> set (blob_slots (env_blob toy toy_env toy_dek) n). open_slot toy (replicate 32 1) s = Some toy_dek)"
proof -
  have "open_slot toy (replicate 32 1) (toy_slot 0 KIND_PASSKEY (replicate 32 1) toy_dek) = Some toy_dek"
    by (simp add: open_slot_def toy_slot_def toy_dek_def env_sizes slice_def)
  then have "open_with_kek toy (env_blob toy toy_env toy_dek) (replicate 32 1) = Inr toy_dek"
    using toy_env_ok
    by (intro open_with_kek_blob [where before = "[]" and s = "toy_slot 0 KIND_PASSKEY (replicate 32 1) toy_dek"])
      (simp_all add: toy_env_def)
  then show ?thesis using open_envelope_authentic [OF toy_hash_ok, of _ _ toy_dek] by auto
qed

lemma env_blob_body: "env_blob P e dek = env_body e @ compute_mac P (env_body e) dek"
  by (simp add: env_blob_def finalize_def)

lemma open_with_recovery_blob:
  assumes "env_ok e" and "length (e_slots e) < 256" and "hash_ok P"
    and "kek_from_recovery P code (e_salt e) = Inr k"
  shows "open_with_recovery P (env_blob P e dek) code = open_with_kek P (env_blob P e dek) k"
proof -
  have "slice SALT_OFF SALT_LEN (env_blob P e dek) = e_salt e"
    unfolding env_blob_body using assms(1) by (rule salt_of_body)
  then show ?thesis
    using env_blob_parse [OF assms(1-3), of dek] assms(4) by (simp add: open_with_recovery_def)
qed

text \<open>The envelope a rotation makes: one passkey slot and one recovery slot.\<close>

lemma rotate_envelope_Inr:
  assumes "aead_ok P" and "hash_ok P" and "argon_ok P" and "length dek = DEK_LEN"
    and "rotate_envelope P old dek secret r = (Inr (blob, code), r')"
  obtains e s t rk where "is_ok (env_parse old)" and "blob = env_blob P e dek" and "env_ok e"
    and "e_gen e = gen_of old + 1" and "e_slots e = [s, t]"
    and "slot_id s = 0" and "slot_kind s = KIND_PASSKEY" and "open_slot P (kek_from_prf P secret) s = Some dek"
    and "slot_id t = 1" and "slot_kind t = KIND_RECOVERY" and "open_slot P rk t = Some dek"
    and "kek_from_recovery P code (e_salt e) = Inr rk"
proof -
  from assms(5) obtain env1 r1 r2 env2 where ok: "is_ok (env_parse old)"
    and c: "create_envelope_kind P dek secret KIND_PASSKEY r = (Inr env1, r1)"
    and a: "add_recovery_slot P env1 dek code r2 = (Inr env2, r')"
    and g: "set_generation P env2 (gen_of old + 1) dek = Inr blob"
    by (auto simp: rotate_envelope_def read_generation_def gen_of_def create_envelope_def result_simps
        split: sum.splits if_splits)
  obtain e s where b: "env1 = env_blob P e dek" and e: "env_ok e" "e_slots e = [s]"
    and s: "slot_id s = 0" "slot_kind s = KIND_PASSKEY" "open_slot P (kek_from_prf P secret) s = Some dek"
    by (rule create_envelope_kind_Inr [OF assms(1,2,4) c])
  have lm: "length (compute_mac P (env_body e) dek) = MAC_LEN" using assms(2) by (rule length_compute_mac)
  have n1: "length (e_slots e) < 256" using e by simp
  obtain rk t where rk: "kek_from_recovery P code (e_salt e) = Inr rk"
    and w: "wrap_slot P dek rk (next_kek_id env1 1) KIND_RECOVERY r2 = (Inr t, r')"
    and e2: "env2 = env_blob P (e\<lparr>e_gen := e_gen e + 1, e_slots := [s, t]\<rparr>) dek"
    using a add_recovery_slot_body [OF e(1) n1 lm, of P dek code r2] e
    by (auto simp: b env_blob_body result_simps split: sum.splits)
  have "next_kek_id env1 1 = 1"
    using next_kek_id_body [OF e(1) n1, of "compute_mac P (env_body e) dek"] e(2) s(1)
    by (simp add: b env_blob_body)
  then have w1: "wrap_slot P dek rk 1 KIND_RECOVERY r2 = (Inr t, r')" using w by simp
  note t = wrap_slot_Inr [OF assms(1) kek_from_recovery_length [OF assms(3) rk] assms(4) w1]
  have ok2: "env_ok (e\<lparr>e_gen := e_gen e + 1, e_slots := [s, t]\<rparr>)"
    using env_ok_snoc [OF e(1) t(1)] e(2) by simp
  let ?e2 = "e\<lparr>e_gen := e_gen e + 1, e_slots := [s, t]\<rparr>"
  have "blob = env_blob P (?e2\<lparr>e_gen := gen_of old + 1\<rparr>) dek"
    using set_generation_blob [OF ok2 _ assms(2), of dek "gen_of old + 1"] g by (simp add: e2)
  moreover have "env_ok (?e2\<lparr>e_gen := gen_of old + 1\<rparr>)" using ok2 by (simp add: env_ok_def)
  ultimately show ?thesis using that [OF ok, of "?e2\<lparr>e_gen := gen_of old + 1\<rparr>"] s t rk by simp
qed

text \<open>Rotation keeps nothing of the old envelope but its generation, which it passes by one: the
  result has exactly one passkey slot and one recovery slot, opens with the presenting passkey and
  with the minted code to the new data key, and the old envelope fails the freshness check
  against it.\<close>

theorem rotate_envelope_effect:
  assumes "aead_ok P" and "hash_ok P" and "argon_ok P" and "length dek = DEK_LEN"
    and "rotate_envelope P old dek secret r = (Inr (blob, code), r')" and "gen_of old \<noteq> -1"
  shows "slot_infos blob = [\<lparr>kek_id = 0, kind = KIND_PASSKEY\<rparr>, \<lparr>kek_id = 1, kind = KIND_RECOVERY\<rparr>]
    \<and> envelope_generation blob = envelope_generation old + 1
    \<and> open_with_prf P blob secret = Inr dek
    \<and> (\<forall>rk. kek_from_recovery P code (slice SALT_OFF SALT_LEN blob) = Inr rk \<longrightarrow>
          open_slot P rk (blob_slots blob 2 ! 0) = None \<longrightarrow> open_with_recovery P blob code = Inr dek)
    \<and> check_fresh old (envelope_generation blob) = Inl ERollback
    \<and> check_fresh blob (envelope_generation blob) = Inr ()"
proof -
  obtain e s t rk where ok: "is_ok (env_parse old)" and b: "blob = env_blob P e dek" and e: "env_ok e"
    and g: "e_gen e = gen_of old + 1" and st: "e_slots e = [s, t]"
    and s: "slot_id s = 0" "slot_kind s = KIND_PASSKEY" "open_slot P (kek_from_prf P secret) s = Some dek"
    and t: "slot_id t = 1" "slot_kind t = KIND_RECOVERY" "open_slot P rk t = Some dek"
    and rk: "kek_from_recovery P code (e_salt e) = Inr rk"
    by (rule rotate_envelope_Inr [OF assms(1-5)])
  have n: "length (e_slots e) < 256" using st by simp
  note f = env_blob_fields [OF e n assms(2), of dek]
  have lt: "gen_of old < gen_of old + 1" using assms(6) by (rule less_word_succ)
  have p: "env_parse blob = Inr 2" using env_blob_parse [OF e n assms(2), of dek] st by (simp add: b)
  have old: "envelope_generation old = gen_of old" using ok by (simp add: envelope_generation_def)
  have "open_with_prf P blob secret = Inr dek"
    unfolding open_with_prf_def b
    by (rule open_with_kek_blob [OF e n assms(2) s(3), where before = "[]" and after = "[t]"]) (use st in auto)
  moreover have "slice SALT_OFF SALT_LEN blob = e_salt e"
    unfolding b env_blob_body using e by (rule salt_of_body)
  moreover have "blob_slots blob 2 ! 0 = s" using f(4) st by (simp add: b numeral_2_eq_2)
  moreover have "open_with_recovery P blob code = Inr dek" if "open_slot P rk s = None"
    unfolding b open_with_recovery_blob [OF e n assms(2) rk]
    by (rule open_with_kek_blob [OF e n assms(2) t(3), where before = "[s]" and after = "[]"]) (use st that in auto)
  ultimately show ?thesis
    using f(1-3) s t st g lt old p ok rk
    by (auto simp: b check_fresh_def is_ok_iff)
qed

text \<open>Rotation succeeds when its four draws do.\<close>

lemma rotate_envelope_succeeds:
  assumes "aead_ok P" and "hash_ok P" and "argon_ok P" and "length dek = DEK_LEN"
    and "env_parse old = Inr n" and "length salt = 16" and "length ent = 16"
    and "length n1 = 24" and "length n2 = 24" and "\<exists>x \<in> set n1. x \<noteq> 0" and "\<exists>x \<in> set n2. x \<noteq> 0"
    and "\<And>c s. argon2id P ARGON2_M_COST ARGON2_T_COST ARGON2_P_COST c s \<noteq> None"
  shows "\<exists>blob code. rotate_envelope P old dek secret [Some salt, Some n1, Some ent, Some n2]
      = (Inr (blob, code), [])"
proof -
  have w: "\<exists>s. wrap_slot P dek kek i k (Some n # r) = (Inr s, r)"
    if lk: "length kek = 32" and ln: "length n = 24" and nz: "\<exists>x \<in> set n. x \<noteq> 0" for kek i k n and r :: rng
  proof -
    have ld: "length dek < 2 ^ 32" using assms(4) by (simp add: DEK_LEN_def)
    obtain c t where "aead_enc P kek n (slot_aad i k) dek = Some (c, t)"
      by (rule aead_okD [OF assms(1) lk ln ld])
    moreover have "draw_nonzero NONCE_LEN (Some n # r) = (Some n, r)"
      using ln nz by (auto simp: NONCE_LEN_def list_all_iff)
    ultimately show ?thesis by (simp add: wrap_slot_def env_draw_nonzero_def)
  qed
  obtain env where c: "create_envelope_kind P dek secret KIND_PASSKEY [Some salt, Some n1, Some ent, Some n2]
      = (Inr env, [Some ent, Some n2])"
    using w [OF kek_from_prf_length [OF assms(2)] assms(8,10), of secret 0 KIND_PASSKEY "[Some ent, Some n2]"] assms(6)
    by (auto simp: create_envelope_kind_def env_draw_def SALT_LEN_def Let_def)
  obtain code where g: "generate_recovery_code P [Some ent, Some n2] = (Inr code, [Some n2])"
    using assms(7) by (simp add: generate_recovery_code_def env_draw_def Let_def)
  obtain e s where b: "env = env_blob P e dek" "env_ok e" "e_slots e = [s]"
    by (rule create_envelope_kind_Inr [OF assms(1,2,4) c])
  have lm: "length (compute_mac P (env_body e) dek) = MAC_LEN" using assms(2) by (rule length_compute_mac)
  have n1: "length (e_slots e) < 256" using b by simp
  obtain rk where rk: "kek_from_recovery P code (e_salt e) = Inr rk"
    using assms(12) [of "to_upper P (remove_ws code)" "e_salt e"]
    by (auto simp: kek_from_recovery_def recovery_argon2_def)
  have lrk: "length rk = 32" using kek_from_recovery_length [OF assms(3) rk] .
  obtain t where t: "wrap_slot P dek rk (next_kek_id env 1) KIND_RECOVERY [Some n2] = (Inr t, [])"
    using w [OF lrk assms(9,11), of "next_kek_id env 1" KIND_RECOVERY "[]"] by blast
  let ?e2 = "e\<lparr>e_gen := e_gen e + 1, e_slots := [s, t]\<rparr>"
  have a: "add_recovery_slot P env dek code [Some n2] = (Inr (env_blob P ?e2 dek), [])"
    using add_recovery_slot_body [OF b(2) n1 lm, of P dek code "[Some n2]"] rk t b
    by (simp add: env_blob_body)
  have ok2: "env_ok ?e2"
    using env_ok_snoc [OF b(2) wrap_slot_Inr(1) [OF assms(1) lrk assms(4) t]] b(3) by simp
  have lo: "\<not> length old < GEN_OFF + GEN_LEN"
    using assms(5) by (auto simp: env_parse_def env_sizes split: if_splits)
  show ?thesis
    using set_generation_blob [OF ok2 _ assms(2), of dek "gen_of old + 1"] c g a assms(5) lo
    by (simp add: rotate_envelope_def read_generation_def create_envelope_def gen_of_def)
qed

theorem rotate_envelope_effect_witness:
  "\<exists>blob code. rotate_envelope toy (env_blob toy toy_env toy_dek) (replicate 32 6) [8]
      [Some (replicate 16 1), Some (replicate 24 2), Some (replicate 16 3), Some (replicate 24 4)] = (Inr (blob, code), [])
    \<and> open_with_prf toy blob [8] = Inr (replicate 32 6)"
proof -
  have d: "length (replicate 32 (6 :: byte)) = DEK_LEN" by (simp add: DEK_LEN_def)
  obtain blob code where r: "rotate_envelope toy (env_blob toy toy_env toy_dek) (replicate 32 6) [8]
      [Some (replicate 16 1), Some (replicate 24 2), Some (replicate 16 3), Some (replicate 24 4)] = (Inr (blob, code), [])"
    using rotate_envelope_succeeds [OF toy_aead_ok toy_hash_ok toy_argon_ok d toy_env_parse, of
        "replicate 16 1" "replicate 16 3" "replicate 24 2" "replicate 24 4" "[8]"] by auto
  have "gen_of (env_blob toy toy_env toy_dek) \<noteq> -1"
    using env_blob_fields(3) [OF toy_env_ok(1) _ toy_hash_ok, of toy_dek] toy_env_ok(2) by (simp add: toy_env_def)
  with rotate_envelope_effect [OF toy_aead_ok toy_hash_ok toy_argon_ok d r] r show ?thesis by blast
qed

text \<open>a generated recovery code is 30 symbols of the alphabet in six groups and passes the
  checksum test as it is.\<close>

theorem generated_code_verifies:
  assumes "hash_ok P" and "upper_ok P" and "generate_recovery_code P r = (Inr code, r')"
  shows "verify_recovery_checksum P code \<and> length (recovery_canon P code) = 30
    \<and> set (recovery_canon P code) \<subseteq> set RECOVERY_ALPHABET"
proof -
  obtain ent where ent: "length ent = 16"
    and code: "code = join_with 0x2D (chunks_of 5 (recovery_payload ent @ recovery_checksum P (recovery_payload ent)))"
    using assms(3) by (auto simp: generate_recovery_code_def env_draw_def Let_def result_simps
        dest: getrandom_length split: prod.splits)
  note p = recovery_payload_shape [OF ent]
  note c = recovery_checksum_shape [OF assms(1), of "recovery_payload ent"]
  have "recovery_canon P code = recovery_payload ent @ recovery_checksum P (recovery_payload ent)"
    unfolding code by (rule canon_generated [OF assms(2)]) (use p c in simp)
  then show ?thesis using p c
    by (auto simp: verify_recovery_checksum_def list_all_iff RECOVERY_PAYLOAD_LEN_def RECOVERY_CHECK_LEN_def)
qed

theorem generated_code_verifies_witness:
  "\<exists>code. generate_recovery_code toy [Some (replicate 16 3)] = (Inr code, []) \<and> verify_recovery_checksum toy code"
proof -
  obtain code where g: "generate_recovery_code toy [Some (replicate 16 3)] = (Inr code, [])"
    by (simp add: generate_recovery_code_def env_draw_def Let_def)
  with generated_code_verifies [OF toy_hash_ok toy_upper_ok g] show ?thesis by blast
qed

text \<open>at 255 slots an addition still reports success, but the slot count wraps to zero and the
  envelope it returns does not parse, so no method opens it.\<close>

theorem add_to_full_envelope_breaks:
  assumes "aead_ok P" and "hash_ok P" and "length dek = DEK_LEN" and "env_parse blob = Inr 255"
    and "add_passkey_slot P blob dek prf r = (Inr blob', r')"
  shows "env_parse blob' = Inl EFormat \<and> open_with_kek P blob' kek = Inl EFormat"
proof -
  obtain e m where e: "env_ok e" "length (e_slots e) = 255" "length m = MAC_LEN" "blob = env_body e @ m"
    using assms(4) by (rule env_parse_Inr) blast
  obtain s where w: "wrap_slot P dek (kek_from_prf P prf) (next_kek_id blob 255) KIND_PASSKEY r = (Inr s, r')"
    and b': "blob' = env_blob P (e\<lparr>e_gen := e_gen e + 1, e_slots := e_slots e @ [s]\<rparr>) dek"
    using add_passkey_slot_body [OF e(1) _ e(3), of P dek "prf" r] assms(5) e by (auto simp: result_simps)
  let ?e' = "e\<lparr>e_gen := e_gen e + 1, e_slots := e_slots e @ [s]\<rparr>"
  have ok': "env_ok ?e'"
    using e(1) wrap_slot_Inr(1) [OF assms(1) kek_from_prf_length [OF assms(2)] assms(3) w] by (rule env_ok_snoc)
  have l: "length blob' = body_len 256 + MAC_LEN"
    using length_env_body [OF ok'] e(2) by (simp add: b' env_blob_body length_compute_mac [OF assms(2)])
  have "blob' ! 9 = word_of_nat 256"
    using env_header_slices(3) [OF ok'] e(2) by (simp add: b' env_blob_body env_body_def)
  then have "unat (blob' ! 9) = 0" by simp
  then have "env_parse blob' = Inl EFormat" using l by (simp add: env_parse_def Let_def body_len_def env_sizes)
  then show ?thesis by (simp add: open_with_kek_def)
qed

definition toy_full :: env where
  "toy_full = \<lparr>e_reserved = [0, 0], e_salt = replicate 16 5, e_gen = 300,
     e_slots = replicate 255 (toy_slot 0 KIND_PASSKEY (replicate 32 1) toy_dek)\<rparr>"

lemma toy_full_parse: "env_parse (env_blob toy toy_full toy_dek) = Inr 255"
  using env_blob_parse [of toy_full toy toy_dek]
  by (simp add: toy_full_def env_ok_def toy_slot_def toy_dek_def env_sizes)

theorem add_to_full_envelope_breaks_witness:
  "\<exists>blob'. add_passkey_slot toy (env_blob toy toy_full toy_dek) toy_dek [3] [Some (replicate 24 6)] = (Inr blob', [])
     \<and> open_with_prf toy blob' [3] = Inl EFormat"
proof -
  obtain blob' where a: "add_passkey_slot toy (env_blob toy toy_full toy_dek) toy_dek [3] [Some (replicate 24 6)]
      = (Inr blob', [])"
    by (simp add: add_passkey_slot_def toy_full_parse wrap_slot_def env_draw_nonzero_def NONCE_LEN_def)
  have "length toy_dek = DEK_LEN" by (simp add: toy_dek_def DEK_LEN_def)
  then show ?thesis
    using add_to_full_envelope_breaks [OF toy_aead_ok toy_hash_ok _ toy_full_parse a] a
    by (simp add: open_with_prf_def)
qed

lemma remove_slot_blob:
  assumes "env_ok e" and "length (e_slots e) < 256" and "hash_ok P"
  shows "remove_slot P (env_blob P e dk) dek i =
    (let ks = filter (\<lambda>s. slot_id s \<noteq> i) (e_slots e) in
     if length (e_slots e) \<le> 1 \<or> length ks = length (e_slots e) then Inl EFormat
     else Inr (env_blob P (e\<lparr>e_gen := e_gen e + 1, e_slots := ks\<rparr>) dek))"
  unfolding env_blob_body [of P e dk] using assms by (intro remove_slot_body) (simp_all add: length_compute_mac)

lemma add_passkey_slot_blob:
  assumes "env_ok e" and "length (e_slots e) < 256" and "hash_ok P"
  shows "add_passkey_slot P (env_blob P e dk) dek pr r =
    st_then (wrap_slot P dek (kek_from_prf P pr)
        (next_kek_id (env_blob P e dk) (length (e_slots e))) KIND_PASSKEY r)
      (\<lambda>s r. (Inr (env_blob P (e\<lparr>e_gen := e_gen e + 1, e_slots := e_slots e @ [s]\<rparr>) dek), r))"
  unfolding env_blob_body [of P e dk] using assms by (intro add_passkey_slot_body) (simp_all add: length_compute_mac)

text \<open>identifiers wrap as well, and then revocation can orphan the data key although it refuses
  to remove the last slot: with slots 0 and 255 the next passkey gets identifier 0 again, and
  once 255 is revoked, revoking 0 succeeds and leaves an envelope no key opens.\<close>

theorem revoke_orphans_after_wrap:
  assumes "aead_ok P" and "hash_ok P" and "length dek = DEK_LEN" and "env_parse blob = Inr 2"
    and "map kek_id (slot_infos blob) = [0, 255]"
    and "add_passkey_slot P blob dek prf r = (Inr b1, r')" and "remove_slot P b1 dek 255 = Inr b2"
  shows "\<exists>b3. remove_slot P b2 dek 0 = Inr b3 \<and> slot_infos b3 = []
    \<and> (\<forall>kek. open_with_kek P b3 kek = Inl EUnlock)"
proof -
  obtain e m where e: "env_ok e" "length (e_slots e) = 2" "length m = MAC_LEN" "blob = env_body e @ m"
    using assms(4) by (rule env_parse_Inr) blast
  have n2: "length (e_slots e) < 256" using e by simp
  have "map slot_id (e_slots e) = [0, 255]"
    using assms(5) slot_infos_body [OF e(1) n2 e(3)] e(4) by (simp add: comp_def)
  then obtain s t where st: "e_slots e = [s, t]" "slot_id s = 0" "slot_id t = 255" by auto
  have "next_kek_id blob (length (e_slots e)) = 0"
    unfolding e(4) next_kek_id_body [OF e(1) n2] using st by (simp add: max_def)
  then have id: "next_kek_id blob 2 = 0" by (simp only: e(2))
  have "st_then (wrap_slot P dek (kek_from_prf P prf) 0 KIND_PASSKEY r) (\<lambda>u r. (Inr (env_blob P
        (e\<lparr>e_gen := e_gen e + 1, e_slots := [s, t, u]\<rparr>) dek), r)) = (Inr b1, r')"
    using add_passkey_slot_body [OF e(1) n2 e(3), of P dek "prf" r] assms(6)
    unfolding st(1) e(4) [symmetric] by (simp add: id [unfolded numeral_2_eq_2])
  then obtain u where w: "wrap_slot P dek (kek_from_prf P prf) 0 KIND_PASSKEY r = (Inr u, r')"
    and b1: "b1 = env_blob P (e\<lparr>e_gen := e_gen e + 1, e_slots := [s, t, u]\<rparr>) dek"
    by (auto simp: result_simps)
  note u = wrap_slot_Inr [OF assms(1) kek_from_prf_length [OF assms(2)] assms(3) w]
  let ?e1 = "e\<lparr>e_gen := e_gen e + 1, e_slots := [s, t, u]\<rparr>"
  let ?e2 = "?e1\<lparr>e_gen := e_gen ?e1 + 1, e_slots := [s, u]\<rparr>"
  let ?e3 = "?e2\<lparr>e_gen := e_gen ?e2 + 1, e_slots := []\<rparr>"
  have ok1: "env_ok ?e1" using env_ok_snoc [OF e(1) u(1)] st(1) by simp
  have ok2: "env_ok ?e2" by (rule env_ok_slots [OF ok1]) simp
  have ok3: "env_ok ?e3" by (rule env_ok_slots [OF ok2]) simp
  have "remove_slot P b1 dek 255 = Inr (env_blob P ?e2 dek)"
    using remove_slot_blob [OF ok1 _ assms(2), of dek dek 255] st u(2) by (simp add: b1 Let_def)
  then have b2: "b2 = env_blob P ?e2 dek" using assms(7) by simp
  have "remove_slot P b2 dek 0 = Inr (env_blob P ?e3 dek)"
    using remove_slot_blob [OF ok2 _ assms(2), of dek dek 0] st u(2) by (simp add: b2 Let_def)
  moreover have "slot_infos (env_blob P ?e3 dek) = []"
    and "open_with_kek P (env_blob P ?e3 dek) kek = Inl EUnlock" for kek
    using env_blob_fields(2,5) [OF ok3 _ assms(2)] by simp_all
  ultimately show ?thesis by blast
qed

definition toy_wrap :: env where
  "toy_wrap = toy_env\<lparr>e_slots := [toy_slot 0 KIND_PASSKEY (replicate 32 1) toy_dek,
     toy_slot 255 KIND_PASSKEY (replicate 32 2) toy_dek]\<rparr>"

lemma toy_wrap_ok: "env_ok toy_wrap" "length (e_slots toy_wrap) < 256"
  by (simp_all add: toy_wrap_def toy_env_def env_ok_def toy_slot_def toy_dek_def env_sizes)

theorem revoke_orphans_after_wrap_witness:
  "\<exists>b1 b2 b3. add_passkey_slot toy (env_blob toy toy_wrap toy_dek) toy_dek [3] [Some (replicate 24 6)] = (Inr b1, [])
     \<and> remove_slot toy b1 toy_dek 255 = Inr b2 \<and> remove_slot toy b2 toy_dek 0 = Inr b3 \<and> slot_infos b3 = []"
proof -
  let ?b = "env_blob toy toy_wrap toy_dek"
  have p: "env_parse ?b = Inr 2"
    using env_blob_parse [OF toy_wrap_ok toy_hash_ok] by (simp add: toy_wrap_def)
  have i: "map kek_id (slot_infos ?b) = [0, 255]"
    using env_blob_fields(2) [OF toy_wrap_ok toy_hash_ok] by (simp add: toy_wrap_def)
  have d: "length toy_dek = DEK_LEN" by (simp add: toy_dek_def DEK_LEN_def)
  obtain s where s: "wrap_slot toy toy_dek (kek_from_prf toy [3]) (next_kek_id ?b 2) KIND_PASSKEY [Some (replicate 24 6)]
      = (Inr s, [])"
    by (simp add: wrap_slot_def env_draw_nonzero_def NONCE_LEN_def)
  let ?e1 = "toy_wrap\<lparr>e_gen := e_gen toy_wrap + 1, e_slots := e_slots toy_wrap @ [s]\<rparr>"
  have a: "add_passkey_slot toy ?b toy_dek [3] [Some (replicate 24 6)] = (Inr (env_blob toy ?e1 toy_dek), [])"
    using add_passkey_slot_blob [OF toy_wrap_ok toy_hash_ok, of toy_dek toy_dek "[3]" "[Some (replicate 24 6)]"] s
    by (simp add: toy_wrap_def numeral_2_eq_2)
  have ls: "length s = SLOT_LEN" and ids: "slot_id s = next_kek_id ?b 2"
    using wrap_slot_Inr [OF toy_aead_ok kek_from_prf_length [OF toy_hash_ok] d s] by simp_all
  have ok1: "env_ok ?e1" by (rule env_ok_snoc [OF toy_wrap_ok(1) ls])
  have "length (e_slots ?e1) < 256" by (simp add: toy_wrap_def)
  note r = remove_slot_blob [OF ok1 this toy_hash_ok, of toy_dek toy_dek 255]
  obtain b2 where b2: "remove_slot toy (env_blob toy ?e1 toy_dek) toy_dek 255 = Inr b2"
    using r length_filter_le [of "\<lambda>s. slot_id s \<noteq> 255" "[s]"]
    by (simp add: Let_def toy_wrap_def split: if_splits)
  show ?thesis
    using revoke_orphans_after_wrap [OF toy_aead_ok toy_hash_ok d p i a b2] a b2 by blast
qed

end
