(* ===== verification/Attest.thy ===== *)
theory Attest
  imports Prims Codec
begin

text \<open>
  \<open>crates/freehold/src/attest.rs\<close>: the vault identity key and the attestations signed under
  it. A length that does not fit its \<open>u16\<close> prefix aborts the program, which is \<open>None\<close> here.
\<close>

definition IDENTITY_INFO :: bytes where "IDENTITY_INFO = ascii ''freehold-vault-identity-v1''"
definition ATTEST_DOMAIN :: bytes where "ATTEST_DOMAIN = ascii ''freehold-attestation-v1''"

definition vault_identity_seed :: "'z prims_scheme \<Rightarrow> bytes \<Rightarrow> bytes" where
  "vault_identity_seed P dek = hkdf P dek IDENTITY_INFO"

definition vault_public_key :: "'z prims_scheme \<Rightarrow> bytes \<Rightarrow> bytes" where
  "vault_public_key P dek = ed_pk P (vault_identity_seed P dek)"

definition fits_u16 :: "bytes \<Rightarrow> bool" where
  "fits_u16 b \<longleftrightarrow> length b < 2 ^ 16"

definition attest_message :: "str \<Rightarrow> bytes \<Rightarrow> u64 \<Rightarrow> u64 \<Rightarrow> bytes option" where
  "attest_message claim audience issued_at expiry =
     (if \<not> fits_u16 claim then None
      else if \<not> fits_u16 audience then None
      else Some (ATTEST_DOMAIN @ nat_le 2 (length claim) @ claim
                 @ nat_le 2 (length audience) @ audience @ u64_le issued_at @ u64_le expiry))"

definition attest_with_seed ::
  "'z prims_scheme \<Rightarrow> bytes \<Rightarrow> str \<Rightarrow> bytes \<Rightarrow> u64 \<Rightarrow> u64 \<Rightarrow> bytes option" where
  "attest_with_seed P seed claim audience issued_at expiry =
     map_option (\<lambda>msg. ed_sign P seed msg) (attest_message claim audience issued_at expiry)"

definition attest ::
  "'z prims_scheme \<Rightarrow> bytes \<Rightarrow> str \<Rightarrow> bytes \<Rightarrow> u64 \<Rightarrow> u64 \<Rightarrow> bytes option" where
  "attest P dek claim audience issued_at expiry =
     attest_with_seed P (vault_identity_seed P dek) claim audience issued_at expiry"

text \<open>A key the library rejects is answered with \<open>False\<close> before the message is built.\<close>

definition attest_verify ::
  "'z prims_scheme \<Rightarrow> bytes \<Rightarrow> str \<Rightarrow> bytes \<Rightarrow> u64 \<Rightarrow> u64 \<Rightarrow> bytes \<Rightarrow> bool option" where
  "attest_verify P pubkey claim audience issued_at expiry sig =
     (if \<not> ed_pk_ok P pubkey then Some False
      else map_option (\<lambda>msg. ed_verify P pubkey msg sig)
             (attest_message claim audience issued_at expiry))"

section \<open>The message determines its fields\<close>

text \<open>
  A length-prefixed field: the little-endian \<open>u16\<close> length and the bytes. Its reader is the
  inner \<open>take\<close> of the certificate parser, and the pair is a prefix codec.
\<close>

definition field16 :: "bytes \<Rightarrow> bytes" where
  "field16 b = nat_le 2 (length b) @ b"

definition take16 :: "bytes \<Rightarrow> nat \<Rightarrow> unit + (bytes \<times> nat)" where
  "take16 raw p =
     (if p + 2 > length raw then Inl ()
      else let len = le_nat (slice p 2 raw); q = p + 2 in
        if q + len > length raw then Inl () else Inr (slice q len raw, q + len))"

interpretation field: prefix_codec field16 take16 fits_u16 "\<lambda>_. True"
  by unfold_locales (simp add: field16_def take16_def fits_u16_def slice_append_right slice_prefix
      slice_append_left Let_def)

lemma take16_bound: "take16 raw p = Inr (s, q) \<Longrightarrow> p < q \<and> q \<le> length raw \<and> q = p + length (field16 s)"
  by (auto simp: take16_def field16_def Let_def split: if_splits)

lemma take16_field:
  assumes "take16 raw p = Inr (s, q)"
  shows "fits_u16 s \<and> slice p (q - p) raw = field16 s"
proof -
  from assms have b: "p + 2 \<le> length raw" "q = p + 2 + le_nat (slice p 2 raw)" "q \<le> length raw"
    "s = slice (p + 2) (le_nat (slice p 2 raw)) raw"
    by (auto simp: take16_def Let_def split: if_splits)
  then have ls: "length s = le_nat (slice p 2 raw)" by simp
  moreover have "le_nat (slice p 2 raw) < 256 ^ 2"
    using le_nat_bound [of "slice p 2 raw"] b(1) by simp
  moreover have "slice p (2 + length s) raw = slice p 2 raw @ slice (p + 2) (length s) raw"
    using b ls by (intro slice_concat_split) simp
  ultimately show ?thesis
    using b by (simp add: fits_u16_def field16_def nat_le_le_nat')
qed

lemma attest_message_eq:
  "attest_message c a i e = Some m \<longleftrightarrow> fits_u16 c \<and> fits_u16 a \<and>
     m = ATTEST_DOMAIN @ field16 c @ field16 a @ u64_le i @ u64_le e"
  by (auto simp: attest_message_def field16_def)

lemma attest_message_inj:
  assumes "attest_message c a i e = Some m" and "attest_message c' a' i' e' = Some m"
  shows "c = c' \<and> a = a' \<and> i = i' \<and> e = e'"
proof -
  from assms have w: "fits_u16 c" "fits_u16 a" "fits_u16 c'" "fits_u16 a'"
    and m: "field16 c @ field16 a @ u64_le i @ u64_le e
          = field16 c' @ field16 a' @ u64_le i' @ u64_le e'"
    by (auto simp: attest_message_eq)
  from field.enc_prefix_inj [OF w(1,3) m] have c: "c = c'"
    and m2: "field16 a @ u64_le i @ u64_le e = field16 a' @ u64_le i' @ u64_le e'" by simp_all
  from field.enc_prefix_inj [OF w(2,4) m2] have a: "a = a'"
    and m3: "u64_le i @ u64_le e = u64_le i' @ u64_le e'" by simp_all
  from m3 have "u64_le i = u64_le i'" and "u64_le e = u64_le e'" by simp_all
  with c a show ?thesis by simp
qed

lemma attest_verifies:
  assumes "ed_ok P" and "length seed = 32" and "attest_with_seed P seed c a i e = Some sig"
  shows "attest_verify P (ed_pk P seed) c a i e sig = Some True"
  using assms by (auto simp: attest_with_seed_def attest_verify_def ed_ok_def)

section \<open>Properties\<close>

text \<open>an attestation signed under a vault's DEK verifies under its public key, and the signed
  bytes determine the claim, the audience, the issue time and the expiry: no signature can be
  moved to another claim, audience or window.\<close>

theorem attestation_binds:
  assumes "ed_ok P" and "hash_ok P" and "attest P dek claim aud iat ex = Some sig"
  shows "attest_verify P (vault_public_key P dek) claim aud iat ex sig = Some True
    \<and> (\<forall>claim' aud' iat' ex'. attest_message claim' aud' iat' ex' = attest_message claim aud iat ex
         \<longrightarrow> claim' = claim \<and> aud' = aud \<and> iat' = iat \<and> ex' = ex)"
proof -
  have l: "length (vault_identity_seed P dek) = 32" using assms(2) by (simp add: vault_identity_seed_def hash_ok_lengths)
  have s: "attest_with_seed P (vault_identity_seed P dek) claim aud iat ex = Some sig" using assms(3) by (simp add: attest_def)
  then obtain m where "attest_message claim aud iat ex = Some m" by (auto simp: attest_with_seed_def)
  then show ?thesis using attest_verifies [OF assms(1) l s] attest_message_inj by (auto simp: vault_public_key_def)
qed

theorem attestation_binds_witness:
  "\<exists>sig. attest_verify toy (vault_public_key toy [1]) [65] [66] 5 9 sig = Some True"
proof -
  obtain sig where "attest toy [1] [65] [66] 5 9 = Some sig"
    by (simp add: attest_def attest_with_seed_def attest_message_def fits_u16_def)
  from attestation_binds [OF toy_ed_ok toy_hash_ok this] show ?thesis by blast
qed

end
