(* ===== verification/Relay_Auth.thy ===== *)
theory Relay_Auth
  imports Prims Codec
begin

text \<open>
  \<open>crates/freehold/src/relay_auth.rs\<close>: the per-database signing key, the bucket name that
  commits to it, and the signed relay operations.
\<close>

definition AUTH_INFO_PREFIX :: bytes where "AUTH_INFO_PREFIX = ascii ''freehold-sync-relay-auth-v1''"
definition SYNC_ID_LABEL :: bytes where "SYNC_ID_LABEL = ascii ''freehold-sync-id-v1''"
definition MSG_DOMAIN :: bytes where "MSG_DOMAIN = ascii ''freehold-relay-auth-v1''"
definition METHOD_PUSH :: byte where "METHOD_PUSH = 1"
definition METHOD_LIST :: byte where "METHOD_LIST = 2"
definition METHOD_GET :: byte where "METHOD_GET = 3"
definition METHOD_SUBSCRIBE :: byte where "METHOD_SUBSCRIBE = 4"

definition signing_seed :: "'z prims_scheme \<Rightarrow> bytes \<Rightarrow> bytes \<Rightarrow> bytes" where
  "signing_seed P dek db_uuid = hkdf P dek (AUTH_INFO_PREFIX @ db_uuid)"

definition relay_public_key :: "'z prims_scheme \<Rightarrow> bytes \<Rightarrow> bytes \<Rightarrow> bytes" where
  "relay_public_key P dek db_uuid = ed_pk P (signing_seed P dek db_uuid)"

definition sync_id_from_pubkey :: "'z prims_scheme \<Rightarrow> bytes \<Rightarrow> bytes" where
  "sync_id_from_pubkey P pubkey = take 16 (sha256 P (SYNC_ID_LABEL @ pubkey))"

definition sync_id :: "'z prims_scheme \<Rightarrow> bytes \<Rightarrow> bytes \<Rightarrow> bytes" where
  "sync_id P dek db_uuid = sync_id_from_pubkey P (relay_public_key P dek db_uuid)"

definition relay_message :: "byte \<Rightarrow> bytes \<Rightarrow> bytes \<Rightarrow> bytes" where
  "relay_message method sid arg = MSG_DOMAIN @ [method] @ sid @ nat_le 4 (length arg) @ arg"

definition relay_sign ::
  "'z prims_scheme \<Rightarrow> bytes \<Rightarrow> bytes \<Rightarrow> byte \<Rightarrow> bytes \<Rightarrow> bytes \<times> bytes" where
  "relay_sign P dek db_uuid method arg =
     (let seed = signing_seed P dek db_uuid;
          pubkey = ed_pk P seed;
          sid = sync_id_from_pubkey P pubkey
      in (pubkey, ed_sign P seed (relay_message method sid arg)))"

definition relay_verify ::
  "'z prims_scheme \<Rightarrow> bytes \<Rightarrow> byte \<Rightarrow> bytes \<Rightarrow> bytes \<Rightarrow> bool" where
  "relay_verify P pubkey method arg sig =
     (if \<not> ed_pk_ok P pubkey then False
      else ed_verify P pubkey (relay_message method (sync_id_from_pubkey P pubkey) arg) sig)"

lemma length_sync_id: "hash_ok P \<Longrightarrow> length (sync_id_from_pubkey P pk) = 16"
  by (simp add: sync_id_from_pubkey_def hash_ok_lengths)

text \<open>The signed bytes determine the operation, the bucket and the argument.\<close>

lemma relay_message_inj:
  assumes "relay_message m s a = relay_message m' s' a'" and "length s = length s'"
  shows "m = m' \<and> s = s' \<and> a = a'"
proof -
  from assms(1) have "m = m'" and "s @ (nat_le 4 (length a) @ a) = s' @ (nat_le 4 (length a') @ a')"
    by (simp_all add: relay_message_def)
  then show ?thesis using assms(2) by simp
qed

lemma relay_sign_verifies:
  assumes "ed_ok P" and "hash_ok P" and "relay_sign P dek u m arg = (pk, sig)"
  shows "relay_verify P pk m arg sig"
  using assms by (auto simp: relay_sign_def relay_verify_def Let_def ed_ok_def signing_seed_def
      hash_ok_lengths)

section \<open>Properties\<close>

text \<open>a relay operation signed for a database verifies under the key it carries, that key hashes
  to the database's bucket name, and the signed bytes determine the method, the bucket and the
  argument.\<close>

theorem relay_operation_binds:
  assumes "ed_ok P" and "hash_ok P" and "relay_sign P dek u m arg = (pk, sig)"
  shows "relay_verify P pk m arg sig \<and> sync_id_from_pubkey P pk = sync_id P dek u
    \<and> (\<forall>m' pk' arg'. relay_message m' (sync_id_from_pubkey P pk') arg' = relay_message m (sync_id P dek u) arg
         \<longrightarrow> m' = m \<and> sync_id_from_pubkey P pk' = sync_id P dek u \<and> arg' = arg)"
proof -
  have "sync_id_from_pubkey P pk = sync_id P dek u"
    using assms(3) by (auto simp: relay_sign_def sync_id_def relay_public_key_def Let_def)
  moreover have "m' = m \<and> sync_id_from_pubkey P pk' = sync_id P dek u \<and> arg' = arg"
    if "relay_message m' (sync_id_from_pubkey P pk') arg' = relay_message m (sync_id P dek u) arg" for m' pk' arg'
    using relay_message_inj [OF that] length_sync_id [OF assms(2)] by (simp add: sync_id_def)
  ultimately show ?thesis using relay_sign_verifies [OF assms] by blast
qed

theorem relay_operation_binds_witness:
  "\<exists>pk sig. relay_verify toy pk METHOD_PUSH [1, 2] sig \<and> sync_id_from_pubkey toy pk = sync_id toy [7] [8]"
proof -
  obtain pk sig where "relay_sign toy [7] [8] METHOD_PUSH [1, 2] = (pk, sig)" by fastforce
  from relay_operation_binds [OF toy_ed_ok toy_hash_ok this] show ?thesis by blast
qed

end
