(* ===== verification/Device.thy ===== *)
theory Device
  imports Attest Utf8
begin

text \<open>
  \<open>crates/freehold/src/device.rs\<close>: base64url, device identifiers, the canonical form of a scope
  list and the device certificates with their verifier. A length that does not fit its \<open>u16\<close>
  prefix aborts the program, which is \<open>None\<close> here.
\<close>

section \<open>base64url\<close>

unbundle bit_operations_syntax

definition DEVICE_ID_LABEL :: bytes where "DEVICE_ID_LABEL = ascii ''freehold-device-id-v1''"
definition CERT_DOMAIN :: bytes where "CERT_DOMAIN = ascii ''freehold-device-cert-v1''"
definition DEVICE_ID_BYTES :: nat where "DEVICE_ID_BYTES = 12"
definition B64URL :: bytes where
  "B64URL = ascii ''ABCDEFGHIJKLMNOPQRSTUVWXYZabcdefghijklmnopqrstuvwxyz0123456789-_''"

definition b64_word :: "byte \<Rightarrow> byte \<Rightarrow> byte \<Rightarrow> u32" where
  "b64_word b0 b1 b2 = push_bit 16 (ucast b0) OR push_bit 8 (ucast b1) OR ucast b2"

definition b64_sym :: "u32 \<Rightarrow> byte" where
  "b64_sym x = B64URL ! unat (x AND 0x3f)"

fun base64url_encode :: "bytes \<Rightarrow> str" where
  "base64url_encode [] = []"
| "base64url_encode [b0] =
     (let n = b64_word b0 0 0 in [b64_sym (drop_bit 18 n), b64_sym (drop_bit 12 n)])"
| "base64url_encode [b0, b1] =
     (let n = b64_word b0 b1 0 in
      [b64_sym (drop_bit 18 n), b64_sym (drop_bit 12 n), b64_sym (drop_bit 6 n)])"
| "base64url_encode (b0 # b1 # b2 # r) =
     (let n = b64_word b0 b1 b2 in
      [b64_sym (drop_bit 18 n), b64_sym (drop_bit 12 n), b64_sym (drop_bit 6 n), b64_sym n]
      @ base64url_encode r)"

definition b64_val :: "byte \<Rightarrow> byte option" where
  "b64_val c =
     (if 65 \<le> c \<and> c \<le> 90 then Some (c - 65)
      else if 97 \<le> c \<and> c \<le> 122 then Some (c - 97 + 26)
      else if 48 \<le> c \<and> c \<le> 57 then Some (c - 48 + 52)
      else if c = 45 then Some 62
      else if c = 95 then Some 63
      else None)"

fun b64_acc :: "u32 \<Rightarrow> str \<Rightarrow> u32 option" where
  "b64_acc acc [] = Some acc"
| "b64_acc acc (c # cs) = (case b64_val c of
     None \<Rightarrow> None | Some v \<Rightarrow> b64_acc (push_bit 6 acc OR ucast v) cs)"

definition b64_group :: "str \<Rightarrow> bytes option" where
  "b64_group chunk =
     (if length chunk = 1 then None
      else case b64_acc 0 chunk of
        None \<Rightarrow> None
      | Some acc0 \<Rightarrow>
          let acc = push_bit (6 * (4 - length chunk)) acc0
          in Some ([ucast (drop_bit 16 acc)]
             @ (if length chunk \<ge> 3 then [ucast (drop_bit 8 acc)] else [])
             @ (if length chunk \<ge> 4 then [ucast acc] else [])))"

function base64url_decode :: "str \<Rightarrow> bytes option" where
  "base64url_decode s =
     (if s = [] then Some []
      else case b64_group (take 4 s) of
        None \<Rightarrow> None
      | Some out \<Rightarrow> map_option (\<lambda>rest. out @ rest) (base64url_decode (drop 4 s)))"
  by pat_completeness auto
termination by (relation "measure length") auto

declare base64url_decode.simps [simp del]

section \<open>Keys and identifiers\<close>

definition random_device_seed :: "rng \<Rightarrow> bytes option \<times> rng" where
  "random_device_seed r = draw_nonzero 32 r"

definition random_trust_seed :: "rng \<Rightarrow> bytes option \<times> rng" where
  "random_trust_seed r = draw_nonzero 32 r"

definition device_public_key :: "'z prims_scheme \<Rightarrow> bytes \<Rightarrow> bytes" where
  "device_public_key P seed = ed_pk P seed"

definition vault_trust_public_key :: "'z prims_scheme \<Rightarrow> bytes \<Rightarrow> bytes" where
  "vault_trust_public_key P trust_seed = ed_pk P trust_seed"

definition device_id_from_pubkey :: "'z prims_scheme \<Rightarrow> bytes \<Rightarrow> str" where
  "device_id_from_pubkey P device_pubkey =
     ascii ''dev_'' @ base64url_encode (take DEVICE_ID_BYTES (sha256 P (DEVICE_ID_LABEL @ device_pubkey)))"

section \<open>Scope lists\<close>

definition NEWLINE :: byte where "NEWLINE = 10"

definition canonicalize_caps :: "str list \<Rightarrow> str" where
  "canonicalize_caps caps =
     join_with NEWLINE (remdups_adj (sort (filter (\<lambda>s. s \<noteq> []) (map trim caps))))"

definition caps_well_formed :: "str \<Rightarrow> bool" where
  "caps_well_formed caps_canon =
     (if caps_canon = [] then True
      else let scopes = split_on NEWLINE caps_canon in
      if list_ex (\<lambda>s. s = [] \<or> trim s \<noteq> s) scopes then False
      else canonicalize_caps scopes = caps_canon)"

section \<open>The claim\<close>

record cert_fields =
  cf_trust_pubkey :: bytes
  cf_device_id :: str
  cf_device_pubkey :: bytes
  cf_caps :: str
  cf_issued_at :: u64
  cf_expiry :: u64

definition push_field :: "bytes \<Rightarrow> bytes \<Rightarrow> bytes option" where
  "push_field m b = (if fits_u16 b then Some (m @ nat_le 2 (length b) @ b) else None)"

fun push_fields :: "bytes \<Rightarrow> bytes list \<Rightarrow> bytes option" where
  "push_fields m [] = Some m"
| "push_fields m (b # bs) = (case push_field m b of None \<Rightarrow> None | Some m' \<Rightarrow> push_fields m' bs)"

definition canonical_claim_bytes :: "cert_fields \<Rightarrow> bytes option" where
  "canonical_claim_bytes f =
     push_fields CERT_DOMAIN
       [cf_trust_pubkey f, cf_device_id f, cf_device_pubkey f, cf_caps f,
        u64_le (cf_issued_at f), u64_le (cf_expiry f)]"

definition build_device_cert_claim ::
  "bytes \<Rightarrow> str \<Rightarrow> bytes \<Rightarrow> str list \<Rightarrow> u64 \<Rightarrow> u64 \<Rightarrow> str option" where
  "build_device_cert_claim vault_trust_pubkey device_id device_pubkey caps issued_at expiry =
     map_option base64url_encode (canonical_claim_bytes
       \<lparr>cf_trust_pubkey = vault_trust_pubkey, cf_device_id = device_id, cf_device_pubkey = device_pubkey,
        cf_caps = canonicalize_caps caps, cf_issued_at = issued_at, cf_expiry = expiry\<rparr>)"

definition take_key :: "bytes \<Rightarrow> nat \<Rightarrow> unit + (bytes \<times> nat)" where
  "take_key raw p =
     try_then (take16 raw p) (\<lambda>(f, q). if length f = 32 then Inr (f, q) else Inl ())"

definition take_u64 :: "bytes \<Rightarrow> nat \<Rightarrow> unit + (u64 \<times> nat)" where
  "take_u64 raw p =
     try_then (take16 raw p) (\<lambda>(f, q). if length f = 8 then Inr (le_u64 f, q) else Inl ())"

definition take_str :: "bytes \<Rightarrow> nat \<Rightarrow> unit + (str \<times> nat)" where
  "take_str raw p =
     try_then (take16 raw p) (\<lambda>(f, q). if utf8_valid f then Inr (f, q) else Inl ())"

definition parse_claim_bytes :: "bytes \<Rightarrow> unit + cert_fields" where
  "parse_claim_bytes raw =
     (if length raw < length CERT_DOMAIN \<or> take (length CERT_DOMAIN) raw \<noteq> CERT_DOMAIN then Inl ()
      else
        try_then (take_key raw (length CERT_DOMAIN)) (\<lambda>(tpk, p).
        try_then (take_str raw p) (\<lambda>(did, p).
        try_then (take_key raw p) (\<lambda>(dpk, p).
        try_then (take_str raw p) (\<lambda>(caps, p).
        try_then (take_u64 raw p) (\<lambda>(iat, p).
        try_then (take_u64 raw p) (\<lambda>(ex, p).
          if p \<noteq> length raw then Inl ()
          else Inr \<lparr>cf_trust_pubkey = tpk, cf_device_id = did, cf_device_pubkey = dpk, cf_caps = caps,
                   cf_issued_at = iat, cf_expiry = ex\<rparr>)))))))"

definition parse_device_cert_claim :: "str \<Rightarrow> cert_fields option" where
  "parse_device_cert_claim claim =
     (case base64url_decode claim of
        None \<Rightarrow> None
      | Some raw \<Rightarrow> (case parse_claim_bytes raw of Inl _ \<Rightarrow> None | Inr f \<Rightarrow> Some f))"

section \<open>Issue and verify\<close>

definition issue_device_cert ::
  "'z prims_scheme \<Rightarrow> bytes \<Rightarrow> bytes \<Rightarrow> str list \<Rightarrow> u64 \<Rightarrow> u64 \<Rightarrow> (str \<times> bytes) option" where
  "issue_device_cert P trust_seed device_pubkey caps issued_at expiry =
     (let trust_pk = vault_trust_public_key P trust_seed;
          device_id = device_id_from_pubkey P device_pubkey
      in case build_device_cert_claim trust_pk device_id device_pubkey caps issued_at expiry of
           None \<Rightarrow> None
         | Some claim \<Rightarrow>
             map_option (\<lambda>sig. (claim, sig)) (attest_with_seed P trust_seed claim device_id issued_at expiry))"

definition verify_device_cert ::
  "'z prims_scheme \<Rightarrow> bytes \<Rightarrow> str \<Rightarrow> bytes \<Rightarrow> bytes \<Rightarrow> u64 \<Rightarrow> bool option" where
  "verify_device_cert P vault_trust_pubkey cert_claim device_pubkey sig now =
     (case parse_device_cert_claim cert_claim of
        None \<Rightarrow> Some False
      | Some f \<Rightarrow>
        if cf_trust_pubkey f \<noteq> vault_trust_pubkey \<or> cf_device_pubkey f \<noteq> device_pubkey
        then Some False
        else (case canonical_claim_bytes f of
          None \<Rightarrow> None
        | Some raw \<Rightarrow>
          if base64url_encode raw \<noteq> cert_claim then Some False
          else if cf_device_id f \<noteq> device_id_from_pubkey P device_pubkey then Some False
          else if \<not> caps_well_formed (cf_caps f) then Some False
          else (case attest_verify P vault_trust_pubkey cert_claim (cf_device_id f)
                       (cf_issued_at f) (cf_expiry f) sig of
                  None \<Rightarrow> None
                | Some False \<Rightarrow> Some False
                | Some True \<Rightarrow> Some (cf_issued_at f \<le> now \<and> now \<le> cf_expiry f))))"

section \<open>base64url is invertible\<close>

lemma less_64_cases: "i < 64 \<Longrightarrow> b64_val (B64URL ! i) = Some (word_of_nat i)"
proof -
  have "\<forall>i \<in> set [0..<64]. b64_val (B64URL ! i) = Some (word_of_nat i)" by code_simp
  then show "i < 64 \<Longrightarrow> b64_val (B64URL ! i) = Some (word_of_nat i)" by simp
qed

lemma b64_val_sym: "b64_val (b64_sym x) = Some (ucast (x AND 0x3f))"
proof -
  have "x AND 0x3f \<le> 0x3f" by (rule word_and_le1)
  then have "unat (x AND 0x3f) < 64" by (simp add: word_le_nat_alt)
  then show ?thesis by (simp add: b64_sym_def less_64_cases)
qed

lemma mask_6: "(0x3f :: u32) = mask 6"
  by (simp add: mask_eq_exp_minus_1)

lemma b64_acc_sym: "b64_acc acc (b64_sym x # cs) = b64_acc (push_bit 6 acc OR (x AND 0x3f)) cs"
proof -
  have "(ucast (ucast (x AND mask 6) :: byte) :: u32) = x AND mask 6"
    by (rule bit_word_eqI) (auto simp: bit_simps)
  then show ?thesis by (simp add: b64_val_sym mask_6)
qed

text \<open>The bits of a word put together from sextets.\<close>

definition sextets :: "u32 \<Rightarrow> u32" where
  "sextets n = push_bit 6 (push_bit 6 (push_bit 6 (drop_bit 18 n AND mask 6) OR (drop_bit 12 n AND mask 6))
       OR (drop_bit 6 n AND mask 6)) OR (n AND mask 6)"

lemma bit_sextets: "bit (sextets n) k \<longleftrightarrow> k < 24 \<and> bit n k"
proof -
  consider "k < 6" | "6 \<le> k" "k < 12" | "12 \<le> k" "k < 18" | "18 \<le> k" "k < 24" | "24 \<le> k" by linarith
  then show ?thesis by cases (auto simp: sextets_def bit_simps)
qed

lemma b64_bytes:
  "ucast (drop_bit 16 (sextets (b64_word b0 b1 b2))) = b0"
  "ucast (drop_bit 8 (sextets (b64_word b0 b1 b2))) = b1"
  "ucast (sextets (b64_word b0 b1 b2)) = b2"
  by (rule bit_word_eqI, auto simp: bit_simps bit_sextets b64_word_def dest: bit_imp_le_length)+

lemma b64_word_low:
  "b64_word b0 b1 0 AND mask 6 = 0"
  "drop_bit 6 (b64_word b0 0 0) AND mask 6 = 0"
  by (rule bit_word_eqI, auto simp: bit_simps b64_word_def dest: bit_imp_le_length)+

lemmas acc_simps = b64_acc_sym b64_acc.simps(1) mask_6 push_bit_of_0 or.left_neutral or.right_neutral

lemma b64_group_4:
  "b64_group [b64_sym (drop_bit 18 n), b64_sym (drop_bit 12 n), b64_sym (drop_bit 6 n), b64_sym n]
    = Some [ucast (drop_bit 16 (sextets n)), ucast (drop_bit 8 (sextets n)), ucast (sextets n)]"
proof -
  have "b64_acc 0 [b64_sym (drop_bit 18 n), b64_sym (drop_bit 12 n), b64_sym (drop_bit 6 n), b64_sym n]
      = Some (sextets n)"
    by (simp only: acc_simps sextets_def)
  then show ?thesis by (simp add: b64_group_def Let_def del: b64_acc.simps)
qed

lemma b64_group_3:
  assumes "n AND mask 6 = 0"
  shows "b64_group [b64_sym (drop_bit 18 n), b64_sym (drop_bit 12 n), b64_sym (drop_bit 6 n)]
    = Some [ucast (drop_bit 16 (sextets n)), ucast (drop_bit 8 (sextets n))]"
proof -
  obtain t where "b64_acc 0 [b64_sym (drop_bit 18 n), b64_sym (drop_bit 12 n), b64_sym (drop_bit 6 n)] = Some t"
    and "push_bit 6 t = sextets n"
    by (simp only: acc_simps sextets_def assms option.inject)
  then show ?thesis by (simp add: b64_group_def Let_def del: b64_acc.simps)
qed

lemma b64_group_2:
  assumes "n AND mask 6 = 0" and "drop_bit 6 n AND mask 6 = 0"
  shows "b64_group [b64_sym (drop_bit 18 n), b64_sym (drop_bit 12 n)]
    = Some [ucast (drop_bit 16 (sextets n))]"
proof -
  have "push_bit 12 t = push_bit 6 (push_bit 6 t)" for t :: u32 by simp
  then obtain t where "b64_acc 0 [b64_sym (drop_bit 18 n), b64_sym (drop_bit 12 n)] = Some t"
    and "push_bit 12 t = sextets n"
    by (simp only: acc_simps sextets_def assms option.inject)
  then show ?thesis by (simp add: b64_group_def Let_def del: b64_acc.simps)
qed

lemma base64url_decode_encode: "base64url_decode (base64url_encode d) = Some d"
proof (induction d rule: base64url_encode.induct)
  case 1
  then show ?case by (subst base64url_decode.simps) simp
next
  case (2 b0)
  show ?case
    by (subst base64url_decode.simps)
      (simp add: Let_def b64_group_2 b64_word_low b64_bytes base64url_decode.simps [of "[]"])
next
  case (3 b0 b1)
  show ?case
    by (subst base64url_decode.simps)
      (simp add: Let_def b64_group_3 b64_word_low b64_bytes base64url_decode.simps [of "[]"])
next
  case (4 b0 b1 b2 r)
  then show ?case
    by (subst base64url_decode.simps) (simp add: Let_def b64_group_4 b64_bytes)
qed

interpretation base64url: codec base64url_encode base64url_decode "\<lambda>_. True"
  by unfold_locales (rule base64url_decode_encode)

lemma length_base64url: "length (base64url_encode d) = (4 * length d + 2) div 3"
  by (induction d rule: base64url_encode.induct) (simp_all add: Let_def)

section \<open>The claim is canonical\<close>

definition fields_wf :: "cert_fields \<Rightarrow> bool" where
  "fields_wf f \<longleftrightarrow> length (cf_trust_pubkey f) = 32 \<and> length (cf_device_pubkey f) = 32
     \<and> fits_u16 (cf_device_id f) \<and> utf8_valid (cf_device_id f)
     \<and> fits_u16 (cf_caps f) \<and> utf8_valid (cf_caps f)"

definition claim_fields :: "cert_fields \<Rightarrow> bytes list" where
  "claim_fields f = [cf_trust_pubkey f, cf_device_id f, cf_device_pubkey f, cf_caps f,
     u64_le (cf_issued_at f), u64_le (cf_expiry f)]"

definition claim_bytes :: "cert_fields \<Rightarrow> bytes" where
  "claim_bytes f = CERT_DOMAIN @ concat (map field16 (claim_fields f))"

lemma push_fields_eq:
  "push_fields m bs = (if list_all fits_u16 bs then Some (m @ concat (map field16 bs)) else None)"
  by (induction bs arbitrary: m) (simp_all add: push_field_def field16_def)

lemma canonical_claim_bytes_eq:
  "canonical_claim_bytes f = (if list_all fits_u16 (claim_fields f) then Some (claim_bytes f) else None)"
  by (simp add: canonical_claim_bytes_def push_fields_eq claim_bytes_def claim_fields_def)

lemma fields_wf_fit: "fields_wf f \<Longrightarrow> list_all fits_u16 (claim_fields f)"
  by (simp add: fields_wf_def claim_fields_def fits_u16_def)

lemma canonical_wf: "fields_wf f \<Longrightarrow> canonical_claim_bytes f = Some (claim_bytes f)"
  by (simp add: canonical_claim_bytes_eq fields_wf_fit)

lemma take16_at:
  "fits_u16 s \<Longrightarrow> length pre = p \<Longrightarrow> take16 (pre @ field16 s @ post) p = Inr (s, p + length (field16 s))"
  using field.dec_at_enc [of s pre post] by auto

lemma take16_view:
  "fits_u16 s \<Longrightarrow> view mx buf at (field16 s @ rest) \<Longrightarrow>
     take16 buf at = Inr (s, at + length (field16 s)) \<and> view mx buf (at + length (field16 s)) rest"
  using view_next [of mx buf at "field16 s" rest] by (auto simp: view_def take16_at)

lemma parse_claim_bytes_of:
  assumes wf: "fields_wf f"
  shows "parse_claim_bytes (claim_bytes f) = Inr f"
proof -
  let ?r = "claim_bytes f" and ?n = "length (claim_bytes f)"
  have fit: "fits_u16 (cf_trust_pubkey f)" "fits_u16 (cf_device_id f)" "fits_u16 (cf_device_pubkey f)"
    "fits_u16 (cf_caps f)" "fits_u16 (u64_le w)" for w
    using wf by (auto simp: fields_wf_def fits_u16_def)
  have v0: "view ?n ?r (length CERT_DOMAIN) (field16 (cf_trust_pubkey f) @ field16 (cf_device_id f)
      @ field16 (cf_device_pubkey f) @ field16 (cf_caps f) @ field16 (u64_le (cf_issued_at f))
      @ field16 (u64_le (cf_expiry f)) @ [])"
    by (simp add: claim_bytes_def claim_fields_def view_def)
  note t1 = take16_view [OF fit(1) v0]
  note t2 = take16_view [OF fit(2) t1 [THEN conjunct2]]
  note t3 = take16_view [OF fit(3) t2 [THEN conjunct2]]
  note t4 = take16_view [OF fit(4) t3 [THEN conjunct2]]
  note t5 = take16_view [OF fit(5) t4 [THEN conjunct2]]
  note t6 = take16_view [OF fit(5) t5 [THEN conjunct2]]
  have d: "\<not> length ?r < length CERT_DOMAIN" "take (length CERT_DOMAIN) ?r = CERT_DOMAIN"
    by (simp_all add: claim_bytes_def)
  show ?thesis
    using t1 t2 t3 t4 t5 t6 view_end [OF t6 [THEN conjunct2]] wf d
    by (simp add: parse_claim_bytes_def take_key_def take_str_def take_u64_def fields_wf_def)
qed

lemma take16_field_at:
  "take16 raw p = Inr (s, q) \<Longrightarrow> fits_u16 s \<and> q = p + length (field16 s) \<and> q \<le> length raw
     \<and> drop p raw = field16 s @ drop q raw"
proof -
  assume t: "take16 raw p = Inr (s, q)"
  have b: "p < q \<and> q \<le> length raw \<and> q = p + length (field16 s)" using t by (rule take16_bound)
  have "slice p (q - p) raw = field16 s" using take16_field [OF t] by simp
  then have "drop p raw = field16 s @ drop (q - p) (drop p raw)"
    unfolding slice_def by (metis append_take_drop_id)
  moreover have "drop (q - p) (drop p raw) = drop q raw" using b by (simp add: add.commute)
  ultimately show ?thesis using b take16_field [OF t] by simp
qed

text \<open>Whatever parses is the canonical layout of the fields returned.\<close>

lemma parse_claim_bytes_canonical:
  assumes "parse_claim_bytes raw = Inr f"
  shows "fields_wf f \<and> raw = claim_bytes f"
proof -
  obtain tpk p1 did p2 dpk p3 caps p4 ib p5 eb p6
    where t: "take16 raw (length CERT_DOMAIN) = Inr (tpk, p1)" "take16 raw p1 = Inr (did, p2)"
      "take16 raw p2 = Inr (dpk, p3)" "take16 raw p3 = Inr (caps, p4)" "take16 raw p4 = Inr (ib, p5)"
      "take16 raw p5 = Inr (eb, p6)"
      and e: "p6 = length raw"
      and l: "length tpk = 32" "length dpk = 32" "length ib = 8" "length eb = 8"
      and u: "utf8_valid did" "utf8_valid caps"
      and d: "take (length CERT_DOMAIN) raw = CERT_DOMAIN"
      and f: "f = \<lparr>cf_trust_pubkey = tpk, cf_device_id = did, cf_device_pubkey = dpk, cf_caps = caps,
          cf_issued_at = le_u64 ib, cf_expiry = le_u64 eb\<rparr>"
    using assms
    by (auto simp: parse_claim_bytes_def take_key_def take_str_def take_u64_def result_simps split: if_splits)
  have "raw = CERT_DOMAIN @ drop (length CERT_DOMAIN) raw" using d by (metis append_take_drop_id)
  also have "\<dots> = CERT_DOMAIN @ field16 tpk @ field16 did @ field16 dpk @ field16 caps @ field16 ib @ field16 eb"
    using t [THEN take16_field_at] e by simp
  also have "\<dots> = claim_bytes f" using l f by (simp add: claim_bytes_def claim_fields_def)
  finally show ?thesis using t [THEN take16_field_at] l u f by (simp add: fields_wf_def)
qed

text \<open>
  The claims of well-formed fields are a strict codec once non-canonical base64 is refused, as
  the verifier does.
\<close>

definition claim_of :: "cert_fields \<Rightarrow> str" where
  "claim_of f = base64url_encode (claim_bytes f)"

definition parse_canonical :: "str \<Rightarrow> cert_fields option" where
  "parse_canonical c = (case parse_device_cert_claim c of
     None \<Rightarrow> None | Some f \<Rightarrow> if claim_of f = c then Some f else None)"

lemma parse_claim_of: "fields_wf f \<Longrightarrow> parse_device_cert_claim (claim_of f) = Some f"
  by (simp add: parse_device_cert_claim_def claim_of_def base64url_decode_encode parse_claim_bytes_of)

lemma parse_claim_wf: "parse_device_cert_claim c = Some f \<Longrightarrow> fields_wf f"
  using parse_claim_bytes_canonical
  by (auto simp: parse_device_cert_claim_def split: option.splits sum.splits)

interpretation cert_claim: strict_codec claim_of parse_canonical fields_wf
  by unfold_locales
    (auto simp: parse_canonical_def parse_claim_of dest: parse_claim_wf split: option.splits if_splits)

section \<open>Scopes\<close>

lemma strict_sorted_remdups_adj: "sorted xs \<Longrightarrow> sorted_wrt (<) (remdups_adj xs)"
  by (induction xs rule: remdups_adj.induct) (auto simp: less_le)

lemma strict_sorted_canon:
  assumes "sorted_wrt (<) ws"
  shows "remdups_adj (sort ws) = ws"
  using assms by (simp add: strict_sorted_iff sorted_sort_id remdups_adj_distinct)

lemma join_nonempty: "ws \<noteq> [] \<Longrightarrow> hd ws \<noteq> [] \<Longrightarrow> join_with sep ws \<noteq> []"
  by (induction sep ws rule: join_with.induct) auto

definition scope_list :: "str list \<Rightarrow> str list" where
  "scope_list caps = remdups_adj (sort (filter (\<lambda>s. s \<noteq> []) (map trim caps)))"

lemma scope_list_props:
  assumes "\<And>s. s \<in> set caps \<Longrightarrow> NEWLINE \<notin> set s"
  shows "sorted_wrt (<) (scope_list caps)"
    and "w \<in> set (scope_list caps) \<Longrightarrow> w \<noteq> [] \<and> trim w = w \<and> NEWLINE \<notin> set w"
  using assms set_trim by (auto simp: scope_list_def strict_sorted_remdups_adj)

lemma scope_list_idem:
  "sorted_wrt (<) ws \<Longrightarrow> (\<And>w. w \<in> set ws \<Longrightarrow> w \<noteq> [] \<and> trim w = w) \<Longrightarrow> scope_list ws = ws"
  by (simp add: scope_list_def strict_sorted_canon map_idI)

lemma caps_well_formed_canonical:
  assumes "\<And>s. s \<in> set caps \<Longrightarrow> NEWLINE \<notin> set s"
  shows "caps_well_formed (canonicalize_caps caps)"
proof (cases "scope_list caps = []")
  case True
  then show ?thesis by (simp add: caps_well_formed_def canonicalize_caps_def flip: scope_list_def)
next
  case False
  let ?ws = "scope_list caps"
  note p = scope_list_props [OF assms]
  have c: "canonicalize_caps caps = join_with NEWLINE ?ws"
    by (simp add: canonicalize_caps_def scope_list_def)
  have ne: "join_with NEWLINE ?ws \<noteq> []"
    using False p(2) [where w = "hd ?ws"] by (intro join_nonempty) auto
  have s: "split_on NEWLINE (join_with NEWLINE ?ws) = ?ws"
    using False p(2) by (intro split_join) auto
  have i: "canonicalize_caps ?ws = join_with NEWLINE ?ws"
    using scope_list_idem [OF p(1)] p(2) unfolding canonicalize_caps_def scope_list_def by metis
  have "\<not> list_ex (\<lambda>s. s = [] \<or> trim s \<noteq> s) ?ws" using p(2) by (auto simp: list_ex_iff)
  then show ?thesis using ne i by (simp add: caps_well_formed_def c s)
qed

text \<open>Equal scope sets have one canonical form.\<close>

lemma canonicalize_caps_set:
  assumes "set (filter (\<lambda>s. s \<noteq> []) (map trim a)) = set (filter (\<lambda>s. s \<noteq> []) (map trim b))"
  shows "canonicalize_caps a = canonicalize_caps b"
proof -
  have "sorted_wrt (<) (remdups_adj (sort l))" for l :: "str list"
    by (simp add: strict_sorted_remdups_adj)
  then have "remdups_adj (sort (filter (\<lambda>s. s \<noteq> []) (map trim a)))
      = remdups_adj (sort (filter (\<lambda>s. s \<noteq> []) (map trim b)))"
    using assms by (intro sorted_distinct_set_unique) (simp_all add: strict_sorted_iff)
  then show ?thesis by (simp add: canonicalize_caps_def)
qed

section \<open>What the verifier accepts\<close>

lemma b64_sym_ascii: "b64_sym x < 0x80"
proof -
  have "x AND 0x3f \<le> 0x3f" by (rule word_and_le1)
  then have "unat (x AND 0x3f) < 64" by (simp add: word_le_nat_alt)
  moreover have "\<forall>i \<in> set [0..<64]. B64URL ! i < 0x80" by code_simp
  ultimately show ?thesis by (simp add: b64_sym_def)
qed

lemma b64url_ascii: "b \<in> set (base64url_encode d) \<Longrightarrow> b < 0x80"
proof (induction d rule: base64url_encode.induct)
  case (4 b0 b1 b2 r)
  then show ?case using b64_sym_ascii by (auto simp: Let_def)
qed (auto simp: Let_def b64_sym_ascii)

lemma verify_device_cert_cases:
  "verify_device_cert P tpk claim dpk sig now = Some True \<longleftrightarrow>
     (\<exists>f. parse_canonical claim = Some f \<and> cf_trust_pubkey f = tpk \<and> cf_device_pubkey f = dpk
        \<and> cf_device_id f = device_id_from_pubkey P dpk \<and> caps_well_formed (cf_caps f)
        \<and> attest_verify P tpk claim (cf_device_id f) (cf_issued_at f) (cf_expiry f) sig = Some True
        \<and> cf_issued_at f \<le> now \<and> now \<le> cf_expiry f)"
  using parse_claim_wf canonical_wf
  by (auto simp: verify_device_cert_def parse_canonical_def claim_of_def split: option.splits if_splits bool.splits)

section \<open>Properties\<close>

text \<open>the canonical form of a scope list does not depend on order, repetition or surrounding
  whitespace, and when no scope contains the separator it is the one encoding the verifier's
  test accepts.\<close>

theorem caps_canonical_form:
  assumes "\<forall>s \<in> set a. NEWLINE \<notin> set s"
  shows "caps_well_formed (canonicalize_caps a)
    \<and> (\<forall>b. set (filter (\<lambda>s. s \<noteq> []) (map trim a)) = set (filter (\<lambda>s. s \<noteq> []) (map trim b))
          \<longrightarrow> canonicalize_caps a = canonicalize_caps b)"
  using assms caps_well_formed_canonical [of a] canonicalize_caps_set by blast

theorem caps_canonical_form_witness:
  "canonicalize_caps [ascii ''b'', ascii ''a''] = canonicalize_caps [ascii ''a'', ascii ''b'', ascii ''b'']"
proof -
  have "\<forall>s \<in> set [ascii ''b'', ascii ''a'']. NEWLINE \<notin> set s" by (simp add: NEWLINE_def)
  from caps_canonical_form [OF this] show ?thesis
    by (elim conjE allE [of _ "[ascii ''a'', ascii ''b'', ascii ''b'']"]) auto
qed

lemma device_id_shape:
  assumes "hash_ok P"
  shows "length (device_id_from_pubkey P pk) = 20" and "utf8_valid (device_id_from_pubkey P pk)"
proof -
  show "length (device_id_from_pubkey P pk) = 20"
    using assms by (simp add: device_id_from_pubkey_def length_base64url hash_ok_lengths DEVICE_ID_BYTES_def)
  show "utf8_valid (device_id_from_pubkey P pk)"
    by (rule utf8_valid_ascii) (auto simp: device_id_from_pubkey_def dest: b64url_ascii)
qed

text \<open>a certificate issued for a device key under a trust seed is accepted under the matching
  trust key, for exactly that device key and signature, from its issue time to its expiry and at
  no other time.\<close>

lemma issue_then_verify:
  assumes "ed_ok P" and "hash_ok P" and "length seed = 32" and "length dpk = 32"
    and "\<forall>s \<in> set caps. NEWLINE \<notin> set s" and "utf8_valid (canonicalize_caps caps)"
    and "issue_device_cert P seed dpk caps iat ex = Some (claim, sig)"
  shows "verify_device_cert P (vault_trust_public_key P seed) claim dpk sig now = Some (iat \<le> now \<and> now \<le> ex)"
proof -
  let ?tpk = "vault_trust_public_key P seed" and ?id = "device_id_from_pubkey P dpk"
  let ?f = "\<lparr>cf_trust_pubkey = ?tpk, cf_device_id = ?id, cf_device_pubkey = dpk,
    cf_caps = canonicalize_caps caps, cf_issued_at = iat, cf_expiry = ex\<rparr>"
  from assms(7) obtain raw where c: "canonical_claim_bytes ?f = Some raw" and claim: "claim = base64url_encode raw"
    and sig: "attest_with_seed P seed claim ?id iat ex = Some sig"
    by (auto simp: issue_device_cert_def build_device_cert_claim_def Let_def split: option.splits)
  have raw: "raw = claim_bytes ?f" and fit: "fits_u16 (canonicalize_caps caps)"
    using c by (auto simp: canonical_claim_bytes_eq claim_fields_def split: if_splits)
  have tl: "length ?tpk = 32" using assms(1,3) by (simp add: vault_trust_public_key_def ed_ok_def)
  have wf: "fields_wf ?f"
    using tl device_id_shape [OF assms(2), of dpk] assms(4,6) fit by (simp add: fields_wf_def fits_u16_def)
  have p: "parse_device_cert_claim claim = Some ?f"
    using parse_claim_of [OF wf] by (simp add: claim claim_of_def raw)
  have caps: "caps_well_formed (canonicalize_caps caps)" using assms(5) by (intro caps_well_formed_canonical) blast
  have v: "attest_verify P ?tpk claim ?id iat ex sig = Some True"
    using attest_verifies [OF assms(1,3) sig] by (simp add: vault_trust_public_key_def)
  show ?thesis using p c claim caps v by (simp add: verify_device_cert_def)
qed

lemma issue_then_verify_witness:
  "\<exists>claim sig. issue_device_cert toy (replicate 32 1) (replicate 32 2) [[115, 121]] 5 9 = Some (claim, sig)
     \<and> verify_device_cert toy (vault_trust_public_key toy (replicate 32 1)) claim (replicate 32 2) sig 7 = Some True"
proof -
  let ?caps = "[[115, 121]] :: str list"
  have cc: "canonicalize_caps ?caps = [115, 121]" by code_simp
  have lid: "length (device_id_from_pubkey toy (replicate 32 2)) = 20" by (rule device_id_shape) simp
  obtain claim sig where i: "issue_device_cert toy (replicate 32 1) (replicate 32 2) ?caps 5 9 = Some (claim, sig)"
    using lid
    by (simp add: issue_device_cert_def build_device_cert_claim_def canonical_claim_bytes_eq cc claim_fields_def
        fits_u16_def vault_trust_public_key_def attest_with_seed_def attest_message_def claim_bytes_def
        length_base64url field16_def CERT_DOMAIN_def Let_def)
  have "utf8_valid (canonicalize_caps ?caps)" unfolding cc by (rule utf8_valid_ascii) auto
  with issue_then_verify [OF toy_ed_ok toy_hash_ok _ _ _ _ i, of 7] i show ?thesis
    by (simp add: NEWLINE_def)
qed

text \<open>C36: an accepted certificate is the canonical encoding of its fields, commits to the presented
  device key through its identifier, carries a canonical scope list, is inside its validity window
  and has a signature of the pinned trust key over exactly the attestation message of the claim.\<close>

theorem accepted_cert_is_genuine:
  assumes "verify_device_cert P tpk claim dpk sig now = Some True"
  shows "\<exists>f msg. parse_device_cert_claim claim = Some f \<and> claim = claim_of f
    \<and> cf_trust_pubkey f = tpk \<and> cf_device_pubkey f = dpk \<and> cf_device_id f = device_id_from_pubkey P dpk
    \<and> caps_well_formed (cf_caps f) \<and> cf_issued_at f \<le> now \<and> now \<le> cf_expiry f
    \<and> attest_message claim (cf_device_id f) (cf_issued_at f) (cf_expiry f) = Some msg
    \<and> ed_pk_ok P tpk \<and> ed_verify P tpk msg sig"
  using assms unfolding verify_device_cert_cases
  by (auto simp: parse_canonical_def attest_verify_def split: option.splits if_splits)

theorem accepted_cert_is_genuine_witness:
  "\<exists>claim f. parse_device_cert_claim claim = Some f \<and> cf_device_pubkey f = replicate 32 2 \<and> cf_issued_at f \<le> 7"
proof -
  let ?caps = "[[115, 121]] :: str list" and ?seed = "replicate 32 1 :: bytes" and ?dpk = "replicate 32 2 :: bytes"
  let ?id = "device_id_from_pubkey toy ?dpk"
  let ?f = "\<lparr>cf_trust_pubkey = vault_trust_public_key toy ?seed, cf_device_id = ?id, cf_device_pubkey = ?dpk,
    cf_caps = [115, 121], cf_issued_at = 5, cf_expiry = 9\<rparr>"
  have cc: "canonicalize_caps ?caps = [115, 121]" by code_simp
  have id: "length ?id = 20" "utf8_valid ?id" by (rule device_id_shape, simp)+
  have u: "utf8_valid [115, 121]" by (rule utf8_valid_ascii) auto
  have wf: "fields_wf ?f" using id u by (simp add: fields_wf_def fits_u16_def vault_trust_public_key_def)
  have l: "length (claim_of ?f) < 65536"
  proof -
    have "length (claim_bytes ?f) < 200"
      using id by (simp add: claim_bytes_def claim_fields_def field16_def CERT_DOMAIN_def vault_trust_public_key_def)
    then show ?thesis unfolding claim_of_def length_base64url by linarith
  qed
  then obtain sig where sig: "attest_with_seed toy ?seed (claim_of ?f) ?id 5 9 = Some sig"
    using id by (simp add: attest_with_seed_def attest_message_def fits_u16_def Let_def)
  have cw: "caps_well_formed [115, 121]" using caps_well_formed_canonical [of ?caps] by (simp add: cc NEWLINE_def)
  have "verify_device_cert toy (vault_trust_public_key toy ?seed) (claim_of ?f) ?dpk sig 7 = Some True"
    unfolding verify_device_cert_cases
    using parse_claim_of [OF wf] attest_verifies [OF toy_ed_ok _ sig] cw
    by (simp add: parse_canonical_def vault_trust_public_key_def)
  from accepted_cert_is_genuine [OF this] show ?thesis by blast
qed

lemma trim_letters: "trim (replicate n 97) = replicate n 97"
proof -
  have n: "n = 0 \<or> n = Suc 0 \<or> n = Suc (Suc 0) \<or> (\<exists>m. n = Suc (Suc (Suc m)))" by presburger
  have "ws_len (replicate n 97) = 0" using n
    by (elim disjE exE) (simp_all add: ws_len_def ws1_def ws2_def ws3_def)
  moreover have "ws_len_rev (replicate n 97) = 0" using n
    by (elim disjE exE) (simp_all add: ws_len_rev_def ws1_def ws2_def ws3_def)
  ultimately show ?thesis by (intro trim_id) simp_all
qed

text \<open>the verifier is not total: a well-formed claim whose text is longer than the 16-bit length
  prefix of the attestation message passes every check before the signature and then aborts,
  for any trust key and device key, although no signature is known.\<close>

theorem verify_aborts_on_long_claim:
  assumes "hash_ok P" and "ed_pk_ok P tpk" and "length tpk = 32" and "length dpk = 32"
  shows "verify_device_cert P tpk
      (claim_of \<lparr>cf_trust_pubkey = tpk, cf_device_id = device_id_from_pubkey P dpk, cf_device_pubkey = dpk,
         cf_caps = replicate 60000 97, cf_issued_at = iat, cf_expiry = ex\<rparr>) dpk sig now = None"
proof -
  let ?w = "replicate 60000 (97 :: byte)"
  let ?f = "\<lparr>cf_trust_pubkey = tpk, cf_device_id = device_id_from_pubkey P dpk, cf_device_pubkey = dpk,
         cf_caps = ?w, cf_issued_at = iat, cf_expiry = ex\<rparr>"
  have "utf8_valid ?w" by (rule utf8_valid_ascii) auto
  then have wf: "fields_wf ?f"
    using assms device_id_shape [OF assms(1), of dpk] by (simp add: fields_wf_def fits_u16_def)
  have ne: "?w \<noteq> []" by simp
  have s: "split_on NEWLINE ?w = [?w]" by (rule split_on_word) (simp add: NEWLINE_def)
  have "canonicalize_caps [?w] = ?w" using ne by (simp add: canonicalize_caps_def trim_letters)
  then have caps: "caps_well_formed ?w" using ne by (simp add: caps_well_formed_def s trim_letters)
  have "length (claim_bytes ?f) \<ge> 60000" by (simp add: claim_bytes_def claim_fields_def field16_def)
  then have "length (claim_of ?f) \<ge> 65536" by (simp add: claim_of_def length_base64url)
  then have "\<not> fits_u16 (claim_of ?f)" by (simp add: fits_u16_def)
  then show ?thesis
    using parse_claim_of [OF wf] canonical_wf [OF wf] caps assms(2)
    by (simp add: verify_device_cert_def attest_verify_def attest_message_def claim_of_def)
qed

theorem verify_aborts_on_long_claim_witness:
  "\<exists>claim. verify_device_cert toy (replicate 32 1) claim (replicate 32 2) [] 0 = None"
  by (rule exI, rule verify_aborts_on_long_claim) simp_all

end
