(* ===== verification/Json.thy ===== *)
theory Json
  imports Utf8
begin

text \<open>
  Text the program writes: hexadecimal bytes, and the JSON that \<open>crates/freehold/src/lib.rs\<close> builds
  by hand for the rows of a query (\<open>json_escape_into\<close>, \<open>push_row_json\<close>, \<open>query_json\<close> and
  \<open>query_json_params\<close>). What SQLite answers is a parameter: for each statement of a script the outcome
  of preparing it and the outcomes of its steps.
\<close>

section \<open>Hexadecimal\<close>

definition hex_digit :: "nat \<Rightarrow> byte" where
  "hex_digit n = (if n < 10 then word_of_nat (48 + n) else word_of_nat (87 + n))"

definition hex_byte :: "byte \<Rightarrow> str" where
  "hex_byte b = [hex_digit (unat b div 16), hex_digit (unat b mod 16)]"

text \<open>\<open>char::to_digit(16)\<close>.\<close>

definition hex_val :: "byte \<Rightarrow> nat option" where
  "hex_val c = (if 48 \<le> c \<and> c \<le> 57 then Some (unat c - 48)
     else if 97 \<le> c \<and> c \<le> 102 then Some (unat c - 87)
     else if 65 \<le> c \<and> c \<le> 70 then Some (unat c - 55) else None)"

lemma hex_table:
  "list_all (\<lambda>n. hex_val (hex_digit n) = Some n \<and> hex_digit n < 0x80
     \<and> list_all (\<lambda>c. hex_digit n \<noteq> c) [10, 13, 0x22, 0x2B, 0x5C, 0x7C]) [0..<16]"
  by code_simp

lemma hex_digit_at:
  assumes "n < 16"
  shows "hex_val (hex_digit n) = Some n" and "hex_digit n < 0x80"
    and "hex_digit n \<notin> {10, 13, 0x22, 0x2B, 0x5C, 0x7C}"
  using hex_table assms by (auto simp: list_all_iff)

lemma hex_halves: "unat (b :: byte) div 16 < 16" "unat b mod 16 < 16"
    "word_of_nat (16 * (unat b div 16) + unat b mod 16) = b"
  using byte_lt_256 [of b] by (simp_all add: less_mult_imp_div_less)

section \<open>Strings\<close>

definition json_char :: "byte \<Rightarrow> str" where
  "json_char c =
     (if c = 0x22 then [0x5C, 0x22] else if c = 0x5C then [0x5C, 0x5C]
      else if c = 10 then [0x5C, 0x6E] else if c = 13 then [0x5C, 0x72] else if c = 9 then [0x5C, 0x74]
      else if c < 0x20 then [0x5C, 0x75, 0x30, 0x30] @ hex_byte c
      else [c])"

definition json_escape_into :: "str \<Rightarrow> str \<Rightarrow> str" where
  "json_escape_into out s = out @ [0x22] @ concat (map json_char s) @ [0x22]"

section \<open>Rows\<close>

text \<open>
  A column as SQLite gives it: of type NULL, or what \<open>sqlite3_column_text\<close> answers, which is a null
  pointer or the bytes of the value, any bytes, with a NUL behind them. Rust reads them as a C string.
\<close>

datatype column = SqlNull | SqlText "bytes option"

definition column_json :: "str \<Rightarrow> column \<Rightarrow> str" where
  "column_json out v = (case v of
       SqlNull \<Rightarrow> out @ ascii ''null''
     | SqlText t \<Rightarrow>
         let s = (case t of None \<Rightarrow> [] | Some bytes \<Rightarrow> c_text bytes)
         in json_escape_into out s)"

fun columns_json :: "bool \<Rightarrow> str \<Rightarrow> column list \<Rightarrow> str" where
  "columns_json first out [] = out"
| "columns_json first out (v # vs) =
     columns_json False (column_json (if first then out else out @ [0x2C]) v) vs"

definition push_row_json :: "column list \<Rightarrow> str \<times> bool \<Rightarrow> str \<times> bool" where
  "push_row_json row st =
     (case st of (out, first_row) \<Rightarrow>
        let out = (if \<not> first_row then out @ [0x2C] else out) in
        (columns_json True (out @ [0x5B]) row @ [0x5D], False))"

datatype query_error = NulByte | PrepareFailed str | StepFailed str | NoStatement | TrailingStatement
  | ParamCount | ParamTooLarge nat | ParamNul nat | ParamType nat | BindFailed nat

datatype sql_step = Row "column list" | StepDone | StepError str

text \<open>The inner loop, to the first step that is not a row.\<close>

fun run_steps :: "sql_step list \<Rightarrow> str \<times> bool \<Rightarrow> query_error + (str \<times> bool)" where
  "run_steps [] st = Inr st"
| "run_steps (Row r # ss) st = run_steps ss (push_row_json r st)"
| "run_steps (StepDone # ss) st = Inr st"
| "run_steps (StepError e # ss) st = Inl (StepFailed (c_text e))"

text \<open>The outer loop: one entry per prepared tail of the script, without a statement for trailing blanks.\<close>

fun run_script :: "(str + sql_step list option) list \<Rightarrow> str \<times> bool \<Rightarrow> query_error + (str \<times> bool)" where
  "run_script [] st = Inr st"
| "run_script (Inl e # ps) st = Inl (PrepareFailed (c_text e))"
| "run_script (Inr None # ps) st = run_script ps st"
| "run_script (Inr (Some ss) # ps) st = try_then (run_steps ss st) (run_script ps)"

definition query_json :: "str \<Rightarrow> (str + sql_step list option) list \<Rightarrow> query_error + str" where
  "query_json sql script =
     (if 0 \<in> set sql then Inl NulByte
      else try_then (run_script script ([0x5B], True)) (\<lambda>(out, _). Inr (out @ [0x5D])))"

section \<open>Parameters\<close>

text \<open>
  The values JavaScript can pass, with an integral double as its integer, and what SQLite is asked to
  bind. A text longer than an \<open>i32\<close> is refused, and so is one with a NUL.
\<close>

datatype js_value = JsNull | JsBool bool | JsInteger int | JsFraction | JsString str | JsOther
datatype binding = BindNull | BindInt int | BindDouble | BindText str

definition bind_param :: "nat \<Rightarrow> js_value \<Rightarrow> query_error + binding" where
  "bind_param i v = (case v of
       JsNull \<Rightarrow> Inr BindNull
     | JsBool b \<Rightarrow> Inr (BindInt (if b then 1 else 0))
     | JsInteger n \<Rightarrow> Inr (if \<bar>n\<bar> \<le> 9007199254740992 then BindInt n else BindDouble)
     | JsFraction \<Rightarrow> Inr BindDouble
     | JsString s \<Rightarrow> if length s > 2147483647 then Inl (ParamTooLarge i)
                    else if 0 \<in> set s then Inl (ParamNul i) else Inr (BindText s)
     | JsOther \<Rightarrow> Inl (ParamType i))"

text \<open>\<open>answers\<close> is what each bind call returns.\<close>

fun bind_params :: "nat \<Rightarrow> js_value list \<Rightarrow> bool list \<Rightarrow> query_error + binding list" where
  "bind_params i [] answers = Inr []"
| "bind_params i (v # vs) answers =
     try_then (bind_param i v) (\<lambda>b.
       if answers \<noteq> [] \<and> \<not> hd answers then Inl (BindFailed i)
       else try_then (bind_params (Suc i) vs (tl answers)) (\<lambda>bs. Inr (b # bs)))"

text \<open>
  \<open>prepared\<close> is what preparing the statement gives: an error, or the statement if there is one with the
  number of its parameters and its steps as a function of the bindings, and the tail of the text.
\<close>

definition query_json_params ::
  "str \<Rightarrow> str + ((nat \<times> (binding list \<Rightarrow> sql_step list)) option \<times> str) \<Rightarrow> js_value list \<Rightarrow> bool list \<Rightarrow> query_error + str" where
  "query_json_params sql prepared params answers =
     (if 0 \<in> set sql then Inl NulByte
      else case prepared of
        Inl e \<Rightarrow> Inl (PrepareFailed (c_text e))
      | Inr (None, tail) \<Rightarrow> Inl NoStatement
      | Inr (Some (want, steps), tail) \<Rightarrow>
        if trim (c_text tail) \<noteq> [] then Inl TrailingStatement
        else if want \<noteq> length params then Inl ParamCount
        else try_then (bind_params 0 params answers) (\<lambda>bs.
             try_then (run_steps (steps bs) ([0x5B], True)) (\<lambda>(out, _). Inr (out @ [0x5D]))))"

section \<open>Reading it back\<close>

text \<open>
  A reader of JSON strings, with the escapes of RFC 8259 and \<open>\u00XX\<close>, from behind the opening quote:
  the text and the rest behind the closing quote. A raw control character is an error.
\<close>

definition read_escape :: "str \<Rightarrow> (byte \<times> str) option" where
  "read_escape r = (case r of
       [] \<Rightarrow> None
     | e # r \<Rightarrow>
       if e = 0x22 \<or> e = 0x5C \<or> e = 0x2F then Some (e, r)
       else if e = 0x6E then Some (10, r) else if e = 0x72 then Some (13, r) else if e = 0x74 then Some (9, r)
       else if e = 0x62 then Some (8, r) else if e = 0x66 then Some (12, r)
       else if e = 0x75 \<and> take 2 r = [0x30, 0x30] \<and> 4 \<le> length r then
         (case (hex_val (r ! 2), hex_val (r ! 3)) of
            (Some x, Some y) \<Rightarrow> Some (word_of_nat (16 * x + y), drop 4 r) | _ \<Rightarrow> None)
       else None)"

lemma read_escape_shorter: "read_escape r = Some (b, r') \<Longrightarrow> length r' < length r"
  by (auto simp: read_escape_def split: list.splits if_splits option.splits)

function read_string :: "str \<Rightarrow> (str \<times> str) option" where
  "read_string s = (case s of
       [] \<Rightarrow> None
     | c # r \<Rightarrow>
       if c = 0x22 then Some ([], r)
       else if c = 0x5C then
         (case read_escape r of None \<Rightarrow> None | Some (b, r) \<Rightarrow> map_option (\<lambda>(t, r). (b # t, r)) (read_string r))
       else if c < 0x20 then None
       else map_option (\<lambda>(t, r). (c # t, r)) (read_string r))"
  by pat_completeness auto
termination by (relation "measure length") (auto dest: read_escape_shorter)

declare read_string.simps [simp del]

lemma read_json_char: "read_string (json_char c @ r) = map_option (\<lambda>(t, r). (c # t, r)) (read_string r)"
proof -
  note h = hex_digit_at(1) [OF hex_halves(1), of c] hex_digit_at(1) [OF hex_halves(2), of c] hex_halves(3) [of c]
  show ?thesis
    by (subst read_string.simps) (auto simp: json_char_def read_escape_def hex_byte_def h split: option.splits)
qed

lemma read_json_body: "read_string (concat (map json_char s) @ 0x22 # r) = Some (s, r)"
proof (induction s)
  case Nil
  then show ?case by (subst read_string.simps) simp
qed (simp add: read_json_char)

lemma read_string_shorter: "read_string s = Some (t, r) \<Longrightarrow> length r < length s"
proof (induction s arbitrary: t r rule: read_string.induct)
  case (1 s)
  from "1.prems" obtain c u where s: "s = c # u" by (subst (asm) read_string.simps) (auto split: list.splits)
  consider "r = u" | b u' t' where "c \<noteq> 0x22" "c = 0x5C" "read_escape u = Some (b, u')" "read_string u' = Some (t', r)"
    | t' where "c \<noteq> 0x22" "c \<noteq> 0x5C" "\<not> c < 0x20" "read_string u = Some (t', r)"
    using "1.prems" unfolding s by (subst (asm) read_string.simps) (auto split: if_splits option.splits)
  then show ?case
  proof cases
    case 2
    then show ?thesis using "1.IH"(1) [OF s 2(1,2,3) refl 2(4)] read_escape_shorter [OF 2(3)] s by simp
  next
    case 3
    then show ?thesis using "1.IH"(2) [OF s 3] s by simp
  qed (use s in simp)
qed

text \<open>An array of arrays of strings and nulls, whole and nothing behind it.\<close>

definition read_column :: "str \<Rightarrow> (str option \<times> str) option" where
  "read_column s = (if starts_with s (ascii ''null'') then Some (None, drop 4 s)
     else case s of [] \<Rightarrow> None
       | c # r \<Rightarrow> if c = 0x22 then map_option (\<lambda>(t, r). (Some t, r)) (read_string r) else None)"

lemma read_column_shorter: "read_column s = Some (v, r) \<Longrightarrow> length r < length s"
  by (auto simp: read_column_def starts_with_iff dest: read_string_shorter split: if_splits list.splits)

text \<open>Columns behind the opening bracket or a comma, and rows likewise.\<close>

function read_columns :: "str \<Rightarrow> (str option list \<times> str) option" where
  "read_columns s = (case read_column s of
       None \<Rightarrow> None
     | Some (v, r) \<Rightarrow> (case r of
         [] \<Rightarrow> None
       | c # r \<Rightarrow> if c = 0x5D then Some ([v], r)
                 else if c = 0x2C then map_option (\<lambda>(vs, r). (v # vs, r)) (read_columns r) else None))"
  by pat_completeness auto
termination by (relation "measure length") (auto dest: read_column_shorter)

declare read_columns.simps [simp del]

definition read_row :: "str \<Rightarrow> (str option list \<times> str) option" where
  "read_row s = (case s of
       c # d # r \<Rightarrow> if c \<noteq> 0x5B then None else if d = 0x5D then Some ([], r) else read_columns (d # r)
     | _ \<Rightarrow> None)"

fun row_text :: "column list \<Rightarrow> str" where
  "row_text [] = []"
| "row_text [v] = column_json [] v"
| "row_text (v # vs) = column_json [] v @ 0x2C # row_text vs"

text \<open>What the page is given for a column.\<close>

definition page_value :: "column \<Rightarrow> str option" where
  "page_value v = (case v of SqlNull \<Rightarrow> None | SqlText None \<Rightarrow> Some [] | SqlText (Some b) \<Rightarrow> Some (c_text b))"

lemma page_value_valid: "page_value v = Some t \<Longrightarrow> utf8_valid t"
  by (auto simp: page_value_def c_text_def from_utf8_lossy_valid split: column.splits option.splits)

lemma page_value_exact: "utf8_valid t \<Longrightarrow> 0 \<notin> set t \<Longrightarrow> page_value (SqlText (Some t)) = Some t"
  by (simp add: page_value_def c_text_id)

text \<open>A NUL inside a text or a blob ends it, whatever follows.\<close>

lemma page_value_cut: "0 \<notin> set t \<Longrightarrow> page_value (SqlText (Some (t @ 0 # u))) = page_value (SqlText (Some t))"
  by (simp add: page_value_def c_text_nul)

lemma column_json_value:
  "column_json out v = (case page_value v of None \<Rightarrow> out @ ascii ''null'' | Some s \<Rightarrow> json_escape_into out s)"
  by (auto simp: column_json_def page_value_def split: column.split option.split)

lemma column_json_out: "column_json out v = out @ column_json [] v"
  by (simp add: column_json_value json_escape_into_def split: option.splits)

lemma columns_json_out: "columns_json first out vs = out @ (if \<not> first \<and> vs \<noteq> [] then [0x2C] else []) @ row_text vs"
proof (induction first out vs rule: columns_json.induct)
  case (2 first out v vs)
  then show ?case by (cases vs) (simp_all add: column_json_out [of "out @ [0x2C]"] column_json_out [of out])
qed simp

lemma read_column_json: "read_column (column_json [] v @ r) = Some (page_value v, r)"
proof (cases "page_value v")
  case (Some s)
  have "read_string ((concat (map json_char s) @ [0x22]) @ r) = Some (s, r)" using read_json_body by simp
  then show ?thesis using Some by (simp add: read_column_def column_json_value json_escape_into_def starts_with_def)
qed (simp add: read_column_def column_json_value starts_with_def)

lemma read_row_text: "vs \<noteq> [] \<Longrightarrow> read_columns (row_text vs @ 0x5D # r) = Some (map page_value vs, r)"
proof (induction vs rule: row_text.induct)
  case (2 v)
  show ?case by (subst read_columns.simps) (simp add: read_column_json)
next
  case (3 v w vs)
  have "read_column (column_json [] v @ 0x2C # row_text (w # vs) @ 0x5D # r) = Some (page_value v, 0x2C # row_text (w # vs) @ 0x5D # r)"
    by (rule read_column_json)
  then show ?case using 3 by (subst read_columns.simps) simp
qed simp

lemma row_text_head: "vs \<noteq> [] \<Longrightarrow> \<exists>d t. row_text vs = d # t \<and> d \<noteq> 0x5D"
  by (induction vs rule: row_text.induct) (auto simp: column_json_value json_escape_into_def split: option.splits)

lemma read_row_json: "read_row (0x5B # row_text vs @ 0x5D # r) = Some (map page_value vs, r)"
proof (cases "vs = []")
  case False
  then obtain d t where "row_text vs = d # t" "d \<noteq> 0x5D" using row_text_head by blast
  then show ?thesis using read_row_text [OF False, of r] by (simp add: read_row_def)
qed (simp add: read_row_def)

lemma read_columns_shorter: "read_columns s = Some (vs, r) \<Longrightarrow> length r < length s"
proof (induction s arbitrary: vs r rule: read_columns.induct)
  case (1 s)
  from "1.prems" obtain v c u where s: "read_column s = Some (v, c # u)"
    by (subst (asm) read_columns.simps) (auto split: option.splits list.splits)
  note l = read_column_shorter [OF s]
  consider "r = u" | vs' where "c \<noteq> 0x5D" "c = 0x2C" "read_columns u = Some (vs', r)"
    using "1.prems" s by (subst (asm) read_columns.simps) (auto split: if_splits)
  then show ?case
  proof cases
    case 2
    then show ?thesis using "1.IH" [OF s refl refl 2] l by simp
  qed (use l in simp)
qed

lemma read_row_shorter: "read_row s = Some (vs, r) \<Longrightarrow> length r < length s"
  by (auto simp: read_row_def dest!: read_columns_shorter split: list.splits if_splits)

function read_rows :: "str \<Rightarrow> str option list list option" where
  "read_rows s = (case read_row s of
       None \<Rightarrow> None
     | Some (row, r) \<Rightarrow> (case r of
         [] \<Rightarrow> None
       | c # r \<Rightarrow> if c = 0x5D then (if r = [] then Some [row] else None)
                 else if c = 0x2C then map_option ((#) row) (read_rows r) else None))"
  by pat_completeness auto
termination by (relation "measure length") (auto dest: read_row_shorter)

declare read_rows.simps [simp del]

definition read_result :: "str \<Rightarrow> str option list list option" where
  "read_result s = (if s = [0x5B, 0x5D] then Some [] else if take 1 s = [0x5B] then read_rows (drop 1 s) else None)"

fun rows_text :: "column list list \<Rightarrow> str" where
  "rows_text [] = []"
| "rows_text [vs] = 0x5B # row_text vs @ [0x5D]"
| "rows_text (vs # rows) = 0x5B # row_text vs @ 0x5D # 0x2C # rows_text rows"

lemma rows_text_snoc:
  "rows_text (rows @ [vs]) = rows_text rows @ (if rows = [] then [] else [0x2C]) @ 0x5B # row_text vs @ [0x5D]"
proof (induction rows rule: rows_text.induct)
  case (3 ws w rows)
  then show ?case by (cases "rows @ [vs]") auto
qed simp_all

lemma read_rows_text: "rows \<noteq> [] \<Longrightarrow> read_rows (rows_text rows @ [0x5D]) = Some (map (map page_value) rows)"
proof (induction rows rule: rows_text.induct)
  case (2 vs)
  show ?case using read_row_json [of vs "[0x5D]"] by (subst read_rows.simps) simp
next
  case (3 vs w rows)
  then show ?case using read_row_json [of vs "0x2C # rows_text (w # rows) @ [0x5D]"] by (subst read_rows.simps) simp
qed simp

fun step_rows :: "sql_step list \<Rightarrow> column list list" where
  "step_rows (Row r # ss) = r # step_rows ss"
| "step_rows _ = []"

definition script_rows :: "(str + sql_step list option) list \<Rightarrow> column list list" where
  "script_rows ps = concat (map (\<lambda>p. case p of Inr (Some ss) \<Rightarrow> step_rows ss | _ \<Rightarrow> []) ps)"

definition rows_so_far :: "column list list \<Rightarrow> str \<times> bool" where
  "rows_so_far rows = (0x5B # rows_text rows, rows = [])"

lemma push_row_so_far: "push_row_json vs (rows_so_far rows) = rows_so_far (rows @ [vs])"
  by (simp add: push_row_json_def rows_so_far_def columns_json_out rows_text_snoc)

lemma run_steps_rows: "run_steps ss (rows_so_far rows) = Inr st \<Longrightarrow> st = rows_so_far (rows @ step_rows ss)"
proof (induction ss arbitrary: rows rule: step_rows.induct)
  case (1 r ss)
  then show ?case using "1.IH" [of "rows @ [r]"] by (simp add: push_row_so_far)
qed simp_all

lemma run_script_rows: "run_script ps (rows_so_far rows) = Inr st \<Longrightarrow> st = rows_so_far (rows @ script_rows ps)"
proof (induction ps arbitrary: rows)
  case (Cons p ps)
  show ?case
  proof (cases p)
    case (Inr so)
    show ?thesis
    proof (cases so)
      case (Some ss)
      then obtain st1 where st1: "run_steps ss (rows_so_far rows) = Inr st1" "run_script ps st1 = Inr st"
        using Cons.prems Inr by (auto simp: try_then_Inr_iff)
      then show ?thesis using Cons.IH [of "rows @ step_rows ss"] run_steps_rows [OF st1(1)] Inr Some by (simp add: script_rows_def)
    qed (use Cons Inr in \<open>simp add: script_rows_def\<close>)
  qed (use Cons in simp)
qed (simp add: script_rows_def)

lemma read_so_far: "read_result (fst (rows_so_far rows) @ [0x5D]) = Some (map (map page_value) rows)"
proof (cases "rows = []")
  case False
  then have "rows_text rows \<noteq> []" by (cases rows rule: rows_text.cases) auto
  then show ?thesis using False read_rows_text [OF False] by (simp add: read_result_def rows_so_far_def)
qed (simp add: read_result_def rows_so_far_def)

section \<open>Properties\<close>

text \<open>
  C40: The JSON a query returns is well formed and says exactly which rows SQLite gave, as C strings.
  Reading it as an array of arrays of strings and nulls yields the rows of all statements of the
  script, in order; each text is the bytes SQLite has before the first NUL, with invalid UTF-8
  replaced, so a text that is valid and has no NUL comes back exactly, whatever quotes, backslashes,
  control characters or bytes above ASCII it contains, and one with a NUL comes back cut there.
\<close>

theorem query_json_reads_back:
  assumes "query_json sql script = Inr out"
  shows "read_result out = Some (map (map page_value) (script_rows script))
    \<and> (\<forall>t. utf8_valid t \<and> 0 \<notin> set t \<longrightarrow> page_value (SqlText (Some t)) = Some t
         \<and> (\<forall>u. page_value (SqlText (Some (t @ 0 # u))) = Some t))"
proof -
  obtain st where st: "run_script script ([0x5B], True) = Inr st" "out = fst st @ [0x5D]"
    using assms by (auto simp: query_json_def try_then_Inr_iff split: if_splits)
  have "st = rows_so_far (script_rows script)" using run_script_rows [of script "[]"] st(1) by (simp add: rows_so_far_def)
  then show ?thesis using st(2) read_so_far by (simp add: page_value_cut page_value_exact)
qed

text \<open>An instance with a quote, a line break, a null, a character beyond ASCII and a text cut at its NUL.\<close>

definition sample_script :: "(str + sql_step list option) list" where
  "sample_script =
     [Inr (Some [Row [SqlText (Some [0x61, 0x22, 10]), SqlNull], StepDone]), Inr None,
      Inr (Some [Row [SqlText (Some [0xC3, 0xA9]), SqlText (Some [0x62, 0, 0x63])]])]"

definition sample_json :: str where
  "sample_json = ascii ''[['' @ [0x22, 0x61, 0x5C, 0x22, 0x5C, 0x6E, 0x22] @ ascii '',null],[''
     @ [0x22, 0xC3, 0xA9, 0x22, 0x2C, 0x22, 0x62, 0x22] @ ascii '']]''"

lemma sample_texts:
  "c_text [0x61, 0x22, 10] = [0x61, 0x22, 10]" "c_text [0xC3, 0xA9] = [0xC3, 0xA9]" "c_text [0x62, 0, 0x63] = [0x62]"
  by code_simp+

lemma sample_query: "query_json (ascii ''SELECT a, b FROM t; SELECT c, d FROM u'') sample_script = Inr sample_json"
  by (simp add: query_json_def sample_script_def sample_json_def push_row_json_def column_json_def json_escape_into_def
      json_char_def sample_texts)

theorem query_json_reads_back_witness:
  "read_result sample_json = Some [[Some [0x61, 0x22, 10], None], [Some [0xC3, 0xA9], Some [0x62]]]"
  using query_json_reads_back [OF sample_query]
  by (simp add: script_rows_def sample_script_def page_value_def sample_texts)

text \<open>The parameters reach SQLite one for one, and every integral double in the exact range as itself.\<close>

lemma bind_params_values:
  "bind_params i vs answers = Inr bs \<Longrightarrow> length bs = length vs \<and> (\<forall>k < length vs. bind_param (i + k) (vs ! k) = Inr (bs ! k))"
proof (induction i vs answers arbitrary: bs rule: bind_params.induct)
  case (2 i v vs answers)
  from "2.prems" obtain b bs' where b: "bind_param i v = Inr b" "bs = b # bs'" "bind_params (Suc i) vs (tl answers) = Inr bs'"
    "\<not> (answers \<noteq> [] \<and> \<not> hd answers)"
    by (auto simp: try_then_Inr_iff split: if_splits)
  then have "length bs' = length vs \<and> (\<forall>k < length vs. bind_param (Suc i + k) (vs ! k) = Inr (bs' ! k))" using "2.IH" by simp
  then show ?case using b(1,2) by (auto simp: nth_Cons split: nat.splits)
qed simp

end
