(* ===== verification/Storage.thy ===== *)
theory Storage
  imports Crypto_Core
begin

unbundle bit_operations_syntax

text \<open>
  The browser's storage as a parameter: an OPFS sync access handle and its calls. A handle is a
  value of an arbitrary type that each call returns updated; a call that throws answers \<open>None\<close>
  (or \<open>False\<close>). What the code relies on is the predicate \<open>sah_ok\<close>, relative to the bytes a handle
  holds; a list of bytes is an instance.
\<close>

record 'h env = prims +
  sah_size :: "'h \<Rightarrow> nat option"
    \<comment> \<open>\<open>getSize()\<close>\<close>
  sah_read :: "'h \<Rightarrow> nat \<Rightarrow> nat \<Rightarrow> bytes option"
    \<comment> \<open>\<open>read(buffer, {at})\<close>: offset and buffer length to the bytes read, at most that many\<close>
  sah_write :: "'h \<Rightarrow> nat \<Rightarrow> bytes \<Rightarrow> nat option \<times> 'h"
    \<comment> \<open>\<open>write(buffer, {at})\<close>: the number of bytes written\<close>
  sah_truncate :: "'h \<Rightarrow> nat \<Rightarrow> bool \<times> 'h"
  sah_flush :: "'h \<Rightarrow> bool \<times> 'h"
  SQLITE_OPEN_DELETEONCLOSE :: u32
    \<comment> \<open>the open flags of SQLite's C interface\<close>
  SQLITE_OPEN_MAIN_DB :: u32
  SQLITE_OPEN_MAIN_JOURNAL :: u32
  SQLITE_OPEN_SUPER_JOURNAL :: u32
  SQLITE_OPEN_WAL :: u32

text \<open>A write past the end fills the gap with zeros; a truncation cuts or extends with zeros.\<close>

definition blit :: "nat \<Rightarrow> bytes \<Rightarrow> bytes \<Rightarrow> bytes" where
  "blit at src b = take at b @ replicate (at - length b) 0 @ src @ drop (at + length src) b"

definition resize :: "nat \<Rightarrow> bytes \<Rightarrow> bytes" where
  "resize n b = take n b @ replicate (n - length b) 0"

text \<open>A healthy handle: \<open>c\<close> gives the bytes a handle holds.\<close>

definition sah_ok :: "('h, 'z) env_scheme \<Rightarrow> ('h \<Rightarrow> bytes) \<Rightarrow> bool" where
  "sah_ok E c \<longleftrightarrow>
     (\<forall>h. sah_size E h = Some (length (c h)))
   \<and> (\<forall>h at n. sah_read E h at n = Some (slice at n (c h)))
   \<and> (\<forall>h at b. fst (sah_write E h at b) = Some (length b) \<and> c (snd (sah_write E h at b)) = blit at b (c h))
   \<and> (\<forall>h n. fst (sah_truncate E h n) \<and> c (snd (sah_truncate E h n)) = resize n (c h))
   \<and> (\<forall>h. fst (sah_flush E h) \<and> c (snd (sah_flush E h)) = c h)"

lemma sah_okD [simp]:
  assumes "sah_ok E c"
  shows "sah_size E h = Some (length (c h))" and "sah_read E h at n = Some (slice at n (c h))"
    and "fst (sah_write E h at b) = Some (length b)" and "c (snd (sah_write E h at b)) = blit at b (c h)"
    and "fst (sah_truncate E h n)" and "c (snd (sah_truncate E h n)) = resize n (c h)"
    and "fst (sah_flush E h)" and "c (snd (sah_flush E h)) = c h"
  using assms by (auto simp: sah_ok_def)

lemma length_blit [simp]: "length (blit at src b) = max (length b) (at + length src)"
  by (auto simp: blit_def max_def min_def)

lemma length_resize [simp]: "length (resize n b) = n"
  by (simp add: resize_def)

lemma resize_shrink: "n \<le> length b \<Longrightarrow> resize n b = take n b"
  by (simp add: resize_def)

lemma blit_inside: "at + length src \<le> length b \<Longrightarrow> blit at src b = put_at at src b"
  by (simp add: blit_def put_at_def)

lemma blit_append: "at = length b \<Longrightarrow> blit at src b = b @ src"
  by (simp add: blit_def)

lemma drop_blit: "k \<le> at \<Longrightarrow> k \<le> length b \<Longrightarrow> drop k (blit at src b) = blit (at - k) src (drop k b)"
  by (simp add: blit_def drop_take add.commute)

lemma drop_resize: "k \<le> n \<Longrightarrow> k \<le> length b \<Longrightarrow> drop k (resize n b) = resize (n - k) (drop k b)"
  by (simp add: resize_def drop_take)

lemma slice_blit_same: "slice at (length src) (blit at src b) = src"
  by (simp add: blit_def slice_def)

lemma slice_blit_other:
  "at' + n \<le> at \<or> at + length src \<le> at' \<Longrightarrow> at' + n \<le> length b \<Longrightarrow> slice at' n (blit at src b) = slice at' n b"
proof (rule nth_equalityI)
  assume a: "at' + n \<le> at \<or> at + length src \<le> at'" and b: "at' + n \<le> length b"
  show "length (slice at' n (blit at src b)) = length (slice at' n b)" using b by (simp add: slice_def)
  fix i assume "i < length (slice at' n (blit at src b))"
  then have i: "i < n" by (simp add: slice_def)
  have "blit at src b ! (at' + i) = b ! (at' + i)"
    using a b i by (elim disjE) (auto simp: blit_def nth_append)
  then show "slice at' n (blit at src b) ! i = slice at' n b ! i"
    using a b i by (simp add: nth_slice)
qed

text \<open>What the pool relies on of the flags: a main database is a persistent file, not one deleted on close.\<close>

definition flags_ok :: "('h, 'z) env_scheme \<Rightarrow> bool" where
  "flags_ok E \<longleftrightarrow> SQLITE_OPEN_MAIN_DB E \<noteq> 0 \<and> SQLITE_OPEN_MAIN_DB E AND SQLITE_OPEN_DELETEONCLOSE E = 0"

text \<open>Storage in memory, for the instances.\<close>

definition mem_env :: "bytes env" where
  "mem_env = prims.extend toy \<lparr>
     sah_size = \<lambda>h. Some (length h),
     sah_read = \<lambda>h at n. Some (slice at n h),
     sah_write = \<lambda>h at b. (Some (length b), blit at b h),
     sah_truncate = \<lambda>h n. (True, resize n h),
     sah_flush = \<lambda>h. (True, h),
     SQLITE_OPEN_DELETEONCLOSE = 0x8, SQLITE_OPEN_MAIN_DB = 0x100, SQLITE_OPEN_MAIN_JOURNAL = 0x800,
     SQLITE_OPEN_SUPER_JOURNAL = 0x4000, SQLITE_OPEN_WAL = 0x80000 \<rparr>"

lemma mem_env_ok [simp]: "sah_ok mem_env (\<lambda>h. h)"
  by (simp add: sah_ok_def mem_env_def prims.extend_def)

lemma mem_env_flags [simp]: "flags_ok mem_env"
  by (simp add: flags_ok_def mem_env_def prims.extend_def)

lemma mem_env_prims [simp]:
  "aead_enc mem_env = aead_enc toy" "aead_dec mem_env = aead_dec toy" "sha256 mem_env = sha256 toy"
  "hkdf mem_env = hkdf toy" "hmac mem_env = hmac toy" "argon2id mem_env = argon2id toy"
  "ed_pk mem_env = ed_pk toy" "ed_sign mem_env = ed_sign toy" "ed_pk_ok mem_env = ed_pk_ok toy"
  "ed_verify mem_env = ed_verify toy" "to_upper mem_env = to_upper toy"
  by (simp_all add: mem_env_def prims.extend_def)

lemma mem_env_laws [simp]:
  "aead_ok mem_env" "hash_ok mem_env" "ed_ok mem_env" "argon_ok mem_env" "upper_ok mem_env"
  using toy_aead_ok toy_hash_ok toy_ed_ok toy_argon_ok toy_upper_ok
  unfolding aead_ok_def hash_ok_def ed_ok_def argon_ok_def upper_ok_def mem_env_prims by blast+

end
