(* ===== verification/Block_Device.thy ===== *)
theory Block_Device
  imports Storage
begin

text \<open>
  \<open>SyncAccessFile\<close> and \<open>FaultState\<close> of \<open>crates/freehold/src/vfs.rs\<close>: the encrypted block device that
  maps SQLite's byte offsets to sealed blocks, with the fault gate of the development harness. The
  state of an operation is the file, the shared gate and the random source.
\<close>

section \<open>State\<close>

definition HEADER_OFFSET_DATA :: nat where "HEADER_OFFSET_DATA = 4096"

record fault_state =
  countdown :: "nat option"
  crashed :: bool

definition fault_new :: fault_state where
  "fault_new = \<lparr>countdown = None, crashed = False\<rparr>"

text \<open>\<open>True\<close>: persist the operation; \<open>False\<close>: the disk is dead from this point on.\<close>

definition gate :: "fault_state \<Rightarrow> bool \<times> fault_state" where
  "gate f = (if crashed f then (False, f)
     else case countdown f of
       None \<Rightarrow> (True, f)
     | Some n \<Rightarrow> if n = 0 then (False, f\<lparr>crashed := True\<rparr>) else (True, f\<lparr>countdown := Some (n - 1)\<rparr>))"

definition arm :: "nat \<Rightarrow> fault_state \<Rightarrow> fault_state" where
  "arm n f = f\<lparr>countdown := Some n, crashed := False\<rparr>"

definition clear_fault :: "fault_state \<Rightarrow> fault_state" where
  "clear_fault f = f\<lparr>countdown := None, crashed := False\<rparr>"

record 'h saf =
  handle :: 'h
  opaque :: str
  f_crypto :: crypto
  f_file_id :: bytes
  f_key_domain :: bytes
  is_main_db :: bool
  logical_size :: "nat option"

record 'h dev =
  d_file :: "'h saf"
  d_fault :: fault_state
  d_rng :: rng

datatype vfs_error =
    EReadFail | EWriteFail | EShortWrite | EGetSize | ETruncateFail | EFlushFail
  | EOffsetOverflow | EPhysOverflow | EAuthRead | EAuthRmw | ETornRmw | ESealFail
  | EPageSize nat | EAuthTruncate | ESealTruncate

type_synonym ('h, 'a) dev_result = "(vfs_error + 'a) \<times> 'h dev"

section \<open>Physical operations\<close>

text \<open>Sums and products of \<open>usize\<close> values that no check guards wrap on wasm32.\<close>

definition usize_add :: "nat \<Rightarrow> nat \<Rightarrow> nat" where
  "usize_add a b = (a + b) mod 2 ^ 32"

definition usize_mul :: "nat \<Rightarrow> nat \<Rightarrow> nat" where
  "usize_mul a b = (a * b) mod 2 ^ 32"

definition set_handle :: "'h \<Rightarrow> 'h dev \<Rightarrow> 'h dev" where
  "set_handle h d = d\<lparr>d_file := (d_file d)\<lparr>handle := h\<rparr>\<rparr>"

definition set_logical :: "nat \<Rightarrow> 'h dev \<Rightarrow> 'h dev" where
  "set_logical s d = d\<lparr>d_file := (d_file d)\<lparr>logical_size := Some s\<rparr>\<rparr>"

definition phys_read :: "('h, 'z) env_scheme \<Rightarrow> 'h dev \<Rightarrow> nat \<Rightarrow> nat \<Rightarrow> vfs_error + bytes" where
  "phys_read E d len at = of_option EReadFail (sah_read E (handle (d_file d)) (usize_add HEADER_OFFSET_DATA at) len)"

definition phys_write :: "('h, 'z) env_scheme \<Rightarrow> bytes \<Rightarrow> nat \<Rightarrow> 'h dev \<Rightarrow> ('h, unit) dev_result" where
  "phys_write E buf at d =
     (case gate (d_fault d) of (go, f) \<Rightarrow>
        let d = d\<lparr>d_fault := f\<rparr> in
        if \<not> go then (Inr (), d)
        else (case sah_write E (handle (d_file d)) (usize_add HEADER_OFFSET_DATA at) buf of (r, h) \<Rightarrow>
          let d = set_handle h d in
          case r of
            None \<Rightarrow> (Inl EWriteFail, d)
          | Some n \<Rightarrow> if length buf \<noteq> n then (Inl EShortWrite, d) else (Inr (), d)))"

definition phys_size :: "('h, 'z) env_scheme \<Rightarrow> 'h dev \<Rightarrow> vfs_error + nat" where
  "phys_size E d = (case sah_size E (handle (d_file d)) of
     None \<Rightarrow> Inl EGetSize | Some sz \<Rightarrow> Inr (sz - HEADER_OFFSET_DATA))"

definition phys_truncate :: "('h, 'z) env_scheme \<Rightarrow> nat \<Rightarrow> 'h dev \<Rightarrow> ('h, unit) dev_result" where
  "phys_truncate E sz d =
     (case gate (d_fault d) of (go, f) \<Rightarrow>
        let d = d\<lparr>d_fault := f\<rparr> in
        if \<not> go then (Inr (), d)
        else (case sah_truncate E (handle (d_file d)) (usize_add HEADER_OFFSET_DATA sz) of (ok, h) \<Rightarrow>
          let d = set_handle h d in if ok then (Inr (), d) else (Inl ETruncateFail, d)))"

definition ensure_logical :: "('h, 'z) env_scheme \<Rightarrow> 'h dev \<Rightarrow> ('h, nat) dev_result" where
  "ensure_logical E d =
     (case logical_size (d_file d) of
        Some s \<Rightarrow> (Inr s, d)
      | None \<Rightarrow> (case phys_size E d of
          Inl e \<Rightarrow> (Inl e, d)
        | Inr phys \<Rightarrow> let s = (phys div PHYS_BLOCK) * BLOCK_SIZE in (Inr s, set_logical s d)))"

section \<open>Block operations\<close>

text \<open>Sealing and opening block \<open>k\<close> of a file, under its key, identifier and domain.\<close>

definition open_block :: "'z prims_scheme \<Rightarrow> 'h saf \<Rightarrow> nat \<Rightarrow> bytes \<Rightarrow> crypto_error + bytes" where
  "open_block E f k phys = open_into E (f_crypto f) (f_file_id f) (f_key_domain f) (word_of_nat k) phys"

definition seal_block :: "'z prims_scheme \<Rightarrow> 'h dev \<Rightarrow> nat \<Rightarrow> bytes \<Rightarrow> (crypto_error + bytes) \<times> 'h dev" where
  "seal_block E d k plain =
     (case seal_into E (f_crypto (d_file d)) (f_file_id (d_file d)) (f_key_domain (d_file d))
             (word_of_nat k) plain (d_rng d) of
        (r, rng) \<Rightarrow> (r, d\<lparr>d_rng := rng\<rparr>))"

text \<open>One turn of the read loop: the buffer with the block's part filled in, and the short flag.\<close>

definition read_block ::
  "('h, 'z) env_scheme \<Rightarrow> 'h dev \<Rightarrow> nat \<Rightarrow> nat \<Rightarrow> nat \<Rightarrow> nat \<Rightarrow> bytes \<times> bool \<Rightarrow> vfs_error + (bytes \<times> bool)" where
  "read_block E d phys start end k st =
     (let (buf, short) = st;
          blk_start = k * BLOCK_SIZE;
          copy_lo = max start blk_start;
          copy_hi = min end (blk_start + BLOCK_SIZE);
          dst_lo = copy_lo - start;
          zeros = put_at dst_lo (replicate (copy_hi - copy_lo) 0) buf
      in if k * PHYS_BLOCK > USIZE_MAX_32 then Inl EPhysOverflow
      else let phys_at = k * PHYS_BLOCK in
      if usize_add phys_at PHYS_BLOCK \<le> phys then
        try_then (phys_read E d PHYS_BLOCK phys_at) (\<lambda>physbuf.
          if length physbuf < PHYS_BLOCK then Inr (zeros, True)
          else try_then (map_err (\<lambda>_. EAuthRead) (open_block E (d_file d) k physbuf)) (\<lambda>plain.
            Inr (put_at dst_lo (slice (copy_lo - blk_start) (copy_hi - copy_lo) plain) buf, short)))
      else Inr (zeros, True))"

fun read_blocks ::
  "('h, 'z) env_scheme \<Rightarrow> 'h dev \<Rightarrow> nat \<Rightarrow> nat \<Rightarrow> nat \<Rightarrow> nat list \<Rightarrow> bytes \<times> bool \<Rightarrow> vfs_error + (bytes \<times> bool)" where
  "read_blocks E d phys start end [] st = Inr st"
| "read_blocks E d phys start end (k # ks) st =
     try_then (read_block E d phys start end k st) (\<lambda>st. read_blocks E d phys start end ks st)"

text \<open>The buffer comes back filled; the flag is false for a short read.\<close>

definition dev_read :: "('h, 'z) env_scheme \<Rightarrow> bytes \<Rightarrow> nat \<Rightarrow> 'h dev \<Rightarrow> vfs_error + (bytes \<times> bool)" where
  "dev_read E buf offset d =
     (if buf = [] then Inr (buf, True)
      else try_then (phys_size E d) (\<lambda>phys.
        if offset + length buf > USIZE_MAX_32 then Inl EOffsetOverflow
        else let end = offset + length buf; first = offset div BLOCK_SIZE; last = (end - 1) div BLOCK_SIZE
        in try_then (read_blocks E d phys offset end [first..<last + 1] (buf, False))
             (\<lambda>(buf, short). Inr (buf, \<not> short))))"

text \<open>The plaintext a write puts into block \<open>k\<close>.\<close>

definition write_plain ::
  "('h, 'z) env_scheme \<Rightarrow> 'h dev \<Rightarrow> nat \<Rightarrow> bytes \<Rightarrow> nat \<Rightarrow> nat \<Rightarrow> nat \<Rightarrow> vfs_error + bytes" where
  "write_plain E d phys buf start end k =
     (let blk_start = k * BLOCK_SIZE;
          phys_at = k * PHYS_BLOCK;
          ov_lo = max start blk_start;
          ov_hi = min end (blk_start + BLOCK_SIZE);
          src = slice (ov_lo - start) (ov_hi - ov_lo) buf
      in if ov_lo = blk_start \<and> ov_hi = blk_start + BLOCK_SIZE then Inr src
      else try_then
        (if usize_add phys_at PHYS_BLOCK \<le> phys then
           try_then (phys_read E d PHYS_BLOCK phys_at) (\<lambda>physbuf.
             if length physbuf < PHYS_BLOCK then Inl ETornRmw
             else map_err (\<lambda>_. EAuthRmw) (open_block E (d_file d) k physbuf))
         else Inr (replicate BLOCK_SIZE 0))
        (\<lambda>plain. Inr (put_at (ov_lo - blk_start) src plain)))"

definition write_block ::
  "('h, 'z) env_scheme \<Rightarrow> nat \<Rightarrow> bytes \<Rightarrow> nat \<Rightarrow> nat \<Rightarrow> nat \<Rightarrow> 'h dev \<Rightarrow> ('h, unit) dev_result" where
  "write_block E phys buf start end k d =
     (if k * PHYS_BLOCK > USIZE_MAX_32 then (Inl EPhysOverflow, d)
      else case write_plain E d phys buf start end k of
        Inl e \<Rightarrow> (Inl e, d)
      | Inr plain \<Rightarrow> (case seal_block E d k plain of
          (Inl _, d) \<Rightarrow> (Inl ESealFail, d)
        | (Inr physbuf, d) \<Rightarrow> phys_write E physbuf (k * PHYS_BLOCK) d))"

fun write_blocks ::
  "('h, 'z) env_scheme \<Rightarrow> nat \<Rightarrow> bytes \<Rightarrow> nat \<Rightarrow> nat \<Rightarrow> nat list \<Rightarrow> 'h dev \<Rightarrow> ('h, unit) dev_result" where
  "write_blocks E phys buf start end [] d = (Inr (), d)"
| "write_blocks E phys buf start end (k # ks) d =
     st_then (write_block E phys buf start end k d) (\<lambda>_ d. write_blocks E phys buf start end ks d)"

text \<open>The page size an SQLite header declares, when the buffer is one.\<close>

definition SQLITE_HEADER :: bytes where "SQLITE_HEADER = ascii ''SQLite format 3'' @ [0]"

definition header_page_size :: "bytes \<Rightarrow> nat" where
  "header_page_size buf = (let ps = be_nat (slice 16 2 buf) in if ps = 1 then 65536 else ps)"

definition dev_write :: "('h, 'z) env_scheme \<Rightarrow> bytes \<Rightarrow> nat \<Rightarrow> 'h dev \<Rightarrow> ('h, unit) dev_result" where
  "dev_write E buf offset d =
     (if buf = [] then (Inr (), d)
      else case phys_size E d of
        Inl e \<Rightarrow> (Inl e, d)
      | Inr phys \<Rightarrow>
        if is_main_db (d_file d) \<and> offset = 0 \<and> length buf \<ge> 18 \<and> starts_with buf SQLITE_HEADER
           \<and> header_page_size buf \<noteq> BLOCK_SIZE
        then (Inl (EPageSize (header_page_size buf)), d)
        else if offset + length buf > USIZE_MAX_32 then (Inl EOffsetOverflow, d)
        else let end = offset + length buf; first = offset div BLOCK_SIZE; last = (end - 1) div BLOCK_SIZE
        in st_then (write_blocks E phys buf offset end [first..<last + 1] d) (\<lambda>_ d.
             let base = (case logical_size (d_file d) of
                   Some s \<Rightarrow> s | None \<Rightarrow> (phys div PHYS_BLOCK) * BLOCK_SIZE)
             in (Inr (), set_logical (max base end) d)))"

section \<open>Truncation, flush and size\<close>

text \<open>The reseal of the last kept block with its tail zeroed.\<close>

definition reseal_tail :: "('h, 'z) env_scheme \<Rightarrow> nat \<Rightarrow> nat \<Rightarrow> 'h dev \<Rightarrow> ('h, unit) dev_result" where
  "reseal_tail E k tail d =
     (let phys_at = usize_mul k PHYS_BLOCK in
      case phys_size E d of
        Inl e \<Rightarrow> (Inl e, d)
      | Inr phys \<Rightarrow>
        if usize_add phys_at PHYS_BLOCK \<le> phys then
          (case phys_read E d PHYS_BLOCK phys_at of
             Inl e \<Rightarrow> (Inl e, d)
           | Inr physbuf \<Rightarrow>
             if length physbuf < PHYS_BLOCK then (Inr (), d)
             else (case open_block E (d_file d) k physbuf of
               Inl _ \<Rightarrow> (Inl EAuthTruncate, d)
             | Inr plain \<Rightarrow>
               (case seal_block E d k (take tail plain @ replicate (length plain - tail) 0) of
                  (Inl _, d) \<Rightarrow> (Inl ESealTruncate, d)
                | (Inr physbuf, d) \<Rightarrow> phys_write E physbuf phys_at d)))
        else (Inr (), d))"

definition dev_truncate :: "('h, 'z) env_scheme \<Rightarrow> nat \<Rightarrow> 'h dev \<Rightarrow> ('h, unit) dev_result" where
  "dev_truncate E sz d =
     (let blocks = (sz + BLOCK_SIZE - 1) div BLOCK_SIZE; tail = sz mod BLOCK_SIZE in
      st_then (if tail \<noteq> 0 then reseal_tail E (blocks - 1) tail d else (Inr (), d)) (\<lambda>_ d.
      st_then (phys_truncate E (usize_mul blocks PHYS_BLOCK) d) (\<lambda>_ d. (Inr (), set_logical sz d))))"

definition dev_flush :: "('h, 'z) env_scheme \<Rightarrow> 'h dev \<Rightarrow> ('h, unit) dev_result" where
  "dev_flush E d =
     (if crashed (d_fault d) then (Inr (), d)
      else case sah_flush E (handle (d_file d)) of (ok, h) \<Rightarrow>
        if ok then (Inr (), set_handle h d) else (Inl EFlushFail, set_handle h d))"

definition dev_size :: "('h, 'z) env_scheme \<Rightarrow> 'h dev \<Rightarrow> ('h, nat) dev_result" where
  "dev_size E d = ensure_logical E d"

section \<open>The device as an array of blocks\<close>

text \<open>
  The physical data region of a file holds \<open>n\<close> sealed blocks whose plaintexts are \<open>g 0\<close> to
  \<open>g (n - 1)\<close>.
\<close>

definition holds :: "('h, 'z) env_scheme \<Rightarrow> ('h \<Rightarrow> bytes) \<Rightarrow> 'h dev \<Rightarrow> nat \<Rightarrow> (nat \<Rightarrow> bytes) \<Rightarrow> bool" where
  "holds E c d n g \<longleftrightarrow> length (c (handle (d_file d))) = HEADER_OFFSET_DATA + n * PHYS_BLOCK
     \<and> (\<forall>k < n. open_block E (d_file d) k
           (slice (HEADER_OFFSET_DATA + k * PHYS_BLOCK) PHYS_BLOCK (c (handle (d_file d)))) = Inr (g k))"

definition dev_ok :: "('h, 'z) env_scheme \<Rightarrow> ('h \<Rightarrow> bytes) \<Rightarrow> 'h dev \<Rightarrow> bool" where
  "dev_ok E c d \<longleftrightarrow> sah_ok E c \<and> aead_ok E \<and> length (f_crypto (d_file d)) = 32"

definition alive :: "'h dev \<Rightarrow> bool" where
  "alive d \<longleftrightarrow> \<not> crashed (d_fault d) \<and> countdown (d_fault d) = None"

text \<open>The source has \<open>m\<close> usable nonces ready.\<close>

fun rng_good :: "nat \<Rightarrow> rng \<Rightarrow> bool" where
  "rng_good 0 r = True"
| "rng_good (Suc m) r = (case draw_nonzero NONCE_LEN r of (Some n, r') \<Rightarrow> rng_good m r' | _ \<Rightarrow> False)"

lemma gate_alive: "alive d \<Longrightarrow> gate (d_fault d) = (True, d_fault d)"
  by (simp add: alive_def gate_def)

lemma dev_fault_id [simp]: "d\<lparr>d_fault := d_fault d\<rparr> = d" for d :: "'h dev"
  by (cases d) simp

text \<open>The largest offset used below: block arithmetic stays far from the 32-bit bound.\<close>

definition DEV_LIMIT :: nat where "DEV_LIMIT = 2 ^ 31"

lemma phys_fits:
  assumes "k * BLOCK_SIZE < DEV_LIMIT"
  shows "HEADER_OFFSET_DATA + k * PHYS_BLOCK + PHYS_BLOCK < 2 ^ 32"
    and "k * PHYS_BLOCK \<le> USIZE_MAX_32"
    and "usize_add (k * PHYS_BLOCK) PHYS_BLOCK = k * PHYS_BLOCK + PHYS_BLOCK"
    and "usize_add HEADER_OFFSET_DATA (k * PHYS_BLOCK) = HEADER_OFFSET_DATA + k * PHYS_BLOCK"
    and "usize_mul k PHYS_BLOCK = k * PHYS_BLOCK"
proof -
  have k: "k * 4096 < 2147483648" using assms by (simp add: DEV_LIMIT_def BLOCK_SIZE_def)
  then have p: "HEADER_OFFSET_DATA + k * PHYS_BLOCK + PHYS_BLOCK < 4294967296"
    by (simp add: size_defs HEADER_OFFSET_DATA_def)
  then show "HEADER_OFFSET_DATA + k * PHYS_BLOCK + PHYS_BLOCK < 2 ^ 32"
    and "k * PHYS_BLOCK \<le> USIZE_MAX_32"
    and "usize_add (k * PHYS_BLOCK) PHYS_BLOCK = k * PHYS_BLOCK + PHYS_BLOCK"
    and "usize_add HEADER_OFFSET_DATA (k * PHYS_BLOCK) = HEADER_OFFSET_DATA + k * PHYS_BLOCK"
    and "usize_mul k PHYS_BLOCK = k * PHYS_BLOCK"
    by (simp_all add: USIZE_MAX_32_def usize_add_def usize_mul_def)
qed

lemma block_pos: "0 < PHYS_BLOCK" "0 < BLOCK_SIZE"
  by (simp_all add: size_defs)

lemma present_iff: "k * PHYS_BLOCK + PHYS_BLOCK \<le> n * PHYS_BLOCK \<longleftrightarrow> k < n"
  using block_pos(1) by (metis Suc_le_eq add.commute mult_Suc mult_le_cancel2)

lemma phys_size_holds: "sah_ok E c \<Longrightarrow> holds E c d n g \<Longrightarrow> phys_size E d = Inr (n * PHYS_BLOCK)"
  by (simp add: phys_size_def holds_def)

lemma phys_read_holds:
  assumes "sah_ok E c" and "holds E c d n g" and "k < n" and "k * BLOCK_SIZE < DEV_LIMIT"
  shows "\<exists>pb. phys_read E d PHYS_BLOCK (k * PHYS_BLOCK) = Inr pb \<and> length pb = PHYS_BLOCK
    \<and> open_block E (d_file d) k pb = Inr (g k)"
proof -
  have l: "HEADER_OFFSET_DATA + k * PHYS_BLOCK + PHYS_BLOCK \<le> length (c (handle (d_file d)))"
    using assms(2,3) present_iff [of k n] by (simp add: holds_def)
  then show ?thesis
    using assms(1,2,3) phys_fits(4) [OF assms(4)] by (simp add: phys_read_def holds_def)
qed

lemma holds_cong: "holds E c d n g \<Longrightarrow> (\<And>k. k < n \<Longrightarrow> g k = h k) \<Longrightarrow> holds E c d n h"
  by (simp add: holds_def)

text \<open>Writing one sealed block, inside the region or right after it.\<close>

lemma phys_write_holds:
  assumes E: "sah_ok E c" and h: "holds E c d n g" and a: "alive d" and k: "k \<le> n" "k * BLOCK_SIZE < DEV_LIMIT"
    and pb: "length pb = PHYS_BLOCK" "open_block E (d_file d) k pb = Inr new"
  shows "\<exists>x. phys_write E pb (k * PHYS_BLOCK) d = (Inr (), set_handle x d)
    \<and> holds E c (set_handle x d) (max n (Suc k)) (g(k := new))"
proof -
  let ?h = "handle (d_file d)" and ?at = "HEADER_OFFSET_DATA + k * PHYS_BLOCK"
  let ?x = "snd (sah_write E ?h ?at pb)"
  have w: "phys_write E pb (k * PHYS_BLOCK) d = (Inr (), set_handle ?x d)"
    using sah_okD(3) [OF E, of ?h ?at pb] gate_alive [OF a] phys_fits(4) [OF k(2)] pb(1)
    by (auto simp: phys_write_def Let_def split: prod.split)
  have c: "c ?x = blit ?at pb (c ?h)" using E by simp
  have lc: "length (c ?h) = HEADER_OFFSET_DATA + n * PHYS_BLOCK" using h by (simp add: holds_def)
  have l0: "length (c ?x) = max (length (c ?h)) (?at + length pb)" by (simp only: c length_blit)
  have len: "length (c ?x) = HEADER_OFFSET_DATA + max n (Suc k) * PHYS_BLOCK"
  proof (cases "k = n")
    case True
    then show ?thesis unfolding l0 lc pb(1) by simp
  next
    case False
    then have "k * PHYS_BLOCK + PHYS_BLOCK \<le> n * PHYS_BLOCK" and "max n (Suc k) = n"
      using k(1) present_iff [of k n] by simp_all
    then show ?thesis unfolding l0 lc pb(1) by simp
  qed
  have op: "open_block E (d_file d) i (slice (HEADER_OFFSET_DATA + i * PHYS_BLOCK) PHYS_BLOCK (c ?x)) = Inr ((g(k := new)) i)"
    if i: "i < max n (Suc k)" for i
  proof (cases "i = k")
    case True
    then show ?thesis using slice_blit_same [of ?at pb "c ?h"] pb by (simp add: c)
  next
    case False
    then have "i < n" using i k(1) by simp
    then have l: "HEADER_OFFSET_DATA + i * PHYS_BLOCK + PHYS_BLOCK \<le> length (c ?h)"
      using present_iff [of i n] lc by simp
    have "i * PHYS_BLOCK + PHYS_BLOCK \<le> k * PHYS_BLOCK \<or> k * PHYS_BLOCK + PHYS_BLOCK \<le> i * PHYS_BLOCK"
      using present_iff [of i k] present_iff [of k i] False by linarith
    then have "slice (HEADER_OFFSET_DATA + i * PHYS_BLOCK) PHYS_BLOCK (c ?x)
        = slice (HEADER_OFFSET_DATA + i * PHYS_BLOCK) PHYS_BLOCK (c ?h)"
      unfolding c using l pb(1) by (intro slice_blit_other) auto
    then show ?thesis using h \<open>i < n\<close> False by (simp add: holds_def)
  qed
  have "holds E c (set_handle ?x d) (max n (Suc k)) (g(k := new))"
    using len op by (simp add: holds_def set_handle_def open_block_def)
  with w show ?thesis by blast
qed

lemma seal_block_good:
  assumes "aead_ok E" and "length (f_crypto (d_file d)) = 32" and "length p = BLOCK_SIZE"
    and "rng_good (Suc m) (d_rng d)"
  shows "\<exists>pb r. seal_block E d k p = (Inr pb, d\<lparr>d_rng := r\<rparr>) \<and> length pb = PHYS_BLOCK
    \<and> open_block E (d_file d) k pb = Inr p \<and> rng_good m r"
proof -
  obtain n r' where dr: "draw_nonzero NONCE_LEN (d_rng d) = (Some n, r')" and g: "rng_good m r'"
    using assms(4) by (auto split: prod.splits option.splits)
  have ko: "key_ok (E, f_crypto (d_file d))" using assms by (simp add: key_ok_def)
  show ?thesis
    using block_box.seal_draw [OF ko assms(3) dr, of "(f_file_id (d_file d), f_key_domain (d_file d), word_of_nat k)"]
      g assms(3)
    by (auto simp: seal_block_def open_block_def PHYS_BLOCK_def)
qed

section \<open>The device as an array of bytes\<close>

text \<open>Byte \<open>x\<close> of a file, zero past its end, and its \<open>i\<close>-th block.\<close>

definition padf :: "bytes \<Rightarrow> nat \<Rightarrow> byte" where
  "padf s x = (if x < length s then s ! x else 0)"

definition gpad :: "bytes \<Rightarrow> nat \<Rightarrow> bytes" where
  "gpad s i = map (\<lambda>j. padf s (i * BLOCK_SIZE + j)) [0..<BLOCK_SIZE]"

definition nblk :: "nat \<Rightarrow> nat" where
  "nblk m = (m + BLOCK_SIZE - 1) div BLOCK_SIZE"

text \<open>The abstraction: the device \<open>d\<close> stands for the file contents \<open>s\<close>.\<close>

definition dev_repr :: "('h, 'z) env_scheme \<Rightarrow> ('h \<Rightarrow> bytes) \<Rightarrow> 'h dev \<Rightarrow> bytes \<Rightarrow> bool" where
  "dev_repr E c d s \<longleftrightarrow> holds E c d (nblk (length s)) (gpad s) \<and> logical_size (d_file d) = Some (length s)"

lemma length_gpad [simp]: "length (gpad s i) = BLOCK_SIZE"
  by (simp add: gpad_def)

lemma nth_gpad: "j < BLOCK_SIZE \<Longrightarrow> gpad s i ! j = padf s (i * BLOCK_SIZE + j)"
  by (simp add: gpad_def)

lemma gpad_past: "length s \<le> i * BLOCK_SIZE \<Longrightarrow> gpad s i = replicate BLOCK_SIZE 0"
  by (rule nth_equalityI) (simp_all add: nth_gpad padf_def)

lemma less_nblk: "i < nblk m \<longleftrightarrow> i * BLOCK_SIZE < m"
proof -
  have "i < nblk m \<longleftrightarrow> Suc i * BLOCK_SIZE \<le> m + BLOCK_SIZE - 1"
    using block_pos(2) by (simp add: nblk_def less_eq_div_iff_mult_less_eq flip: Suc_le_eq)
  also have "\<dots> \<longleftrightarrow> i * BLOCK_SIZE < m" using block_pos(2) by simp linarith
  finally show ?thesis .
qed

lemma nblk_le_iff: "nblk m \<le> i \<longleftrightarrow> m \<le> i * BLOCK_SIZE"
  using less_nblk [of i m] by linarith

text \<open>What a write leaves: the bytes of the buffer in their range, the old ones elsewhere.\<close>

definition splice :: "nat \<Rightarrow> bytes \<Rightarrow> bytes \<Rightarrow> bytes" where
  "splice off buf s = take off s @ buf @ drop (off + length buf) s"

lemma length_splice: "off \<le> length s \<Longrightarrow> length (splice off buf s) = max (length s) (off + length buf)"
  by (simp add: splice_def)

lemma padf_splice:
  "off \<le> length s \<Longrightarrow> padf (splice off buf s) x =
     (if off \<le> x \<and> x < off + length buf then buf ! (x - off) else padf s x)"
  by (auto simp: padf_def splice_def nth_append min_def)

lemma overlay_block:
  assumes "off \<le> length s" and "i * BLOCK_SIZE < off + length buf" and "off < (i + 1) * BLOCK_SIZE"
  shows "put_at (max off (i * BLOCK_SIZE) - i * BLOCK_SIZE)
      (slice (max off (i * BLOCK_SIZE) - off)
         (min (off + length buf) (i * BLOCK_SIZE + BLOCK_SIZE) - max off (i * BLOCK_SIZE)) buf)
      (gpad s i) = gpad (splice off buf s) i" (is "put_at ?a ?src _ = _")
proof (rule nth_equalityI)
  let ?lo = "max off (i * BLOCK_SIZE)" and ?hi = "min (off + length buf) (i * BLOCK_SIZE + BLOCK_SIZE)"
  have lh: "?lo \<le> ?hi" using assms(2,3) by auto
  have ls: "length ?src = ?hi - ?lo" using lh by (intro length_slice) auto
  have fit: "?a + length ?src \<le> BLOCK_SIZE" unfolding ls using lh by auto
  then show "length (put_at ?a ?src (gpad s i)) = length (gpad (splice off buf s) i)" by simp
  fix j assume "j < length (put_at ?a ?src (gpad s i))"
  then have j: "j < BLOCK_SIZE" using fit by simp
  show "put_at ?a ?src (gpad s i) ! j = gpad (splice off buf s) i ! j"
  proof (cases "?a \<le> j \<and> j < ?a + length ?src")
    case True
    then have r: "off \<le> i * BLOCK_SIZE + j" "i * BLOCK_SIZE + j < off + length buf"
      unfolding ls using lh by auto
    have "?src ! (j - ?a) = buf ! (?lo - off + (j - ?a))"
      using True ls lh by (intro nth_slice) auto
    also have "?lo - off + (j - ?a) = i * BLOCK_SIZE + j - off" using True by auto
    finally show ?thesis using True fit j r by (simp add: nth_put_at nth_gpad padf_splice [OF assms(1)])
  next
    case False
    then have "\<not> (off \<le> i * BLOCK_SIZE + j \<and> i * BLOCK_SIZE + j < off + length buf)"
      unfolding ls using j lh by auto
    then have "padf (splice off buf s) (i * BLOCK_SIZE + j) = padf s (i * BLOCK_SIZE + j)"
      unfolding padf_splice [OF assms(1)] by (rule if_not_P)
    moreover have "put_at ?a ?src (gpad s i) ! j = gpad s i ! j"
    proof -
      have "?a + length ?src \<le> length (gpad s i)" "j < length (gpad s i)" using fit j by simp_all
      from nth_put_at [OF this] show ?thesis using False by (simp only: if_False)
    qed
    ultimately show ?thesis using j by (simp add: nth_gpad)
  qed
qed

lemma whole_block:
  assumes "off \<le> length s" and "off \<le> i * BLOCK_SIZE" and "i * BLOCK_SIZE + BLOCK_SIZE \<le> off + length buf"
  shows "slice (i * BLOCK_SIZE - off) BLOCK_SIZE buf = gpad (splice off buf s) i"
proof (rule nth_equalityI)
  have l: "i * BLOCK_SIZE - off + BLOCK_SIZE \<le> length buf" using assms(2,3) by linarith
  then show "length (slice (i * BLOCK_SIZE - off) BLOCK_SIZE buf) = length (gpad (splice off buf s) i)" by simp
  fix j assume "j < length (slice (i * BLOCK_SIZE - off) BLOCK_SIZE buf)"
  then have j: "j < BLOCK_SIZE" using l by simp
  have "slice (i * BLOCK_SIZE - off) BLOCK_SIZE buf ! j = buf ! (i * BLOCK_SIZE - off + j)"
    using j l by (rule nth_slice)
  also have "i * BLOCK_SIZE - off + j = i * BLOCK_SIZE + j - off" using assms(2) by linarith
  finally show "slice (i * BLOCK_SIZE - off) BLOCK_SIZE buf ! j = gpad (splice off buf s) i ! j"
    using j assms by (simp add: nth_gpad padf_splice)
qed

text \<open>The plaintext of block \<open>i\<close> of a write, when the blocks not yet written are those of \<open>s\<close>.\<close>

lemma write_plain_repr:
  assumes E: "sah_ok E c" and h: "i < nblk (length s) \<Longrightarrow> holds E c d n g \<and> i < n \<and> g i = gpad s i"
    and off: "off \<le> length s" and i: "i * BLOCK_SIZE < off + length buf" "off < (i + 1) * BLOCK_SIZE"
    and lim: "off + length buf \<le> DEV_LIMIT"
  shows "write_plain E d (nblk (length s) * PHYS_BLOCK) buf off (off + length buf) i
    = Inr (gpad (splice off buf s) i)"
proof (cases "off \<le> i * BLOCK_SIZE \<and> i * BLOCK_SIZE + BLOCK_SIZE \<le> off + length buf")
  case True
  then show ?thesis using whole_block [OF off, of i buf] by (simp add: write_plain_def Let_def max_def min_def)
next
  case False
  then have part: "\<not> (max off (i * BLOCK_SIZE) = i * BLOCK_SIZE
      \<and> min (off + length buf) (i * BLOCK_SIZE + BLOCK_SIZE) = i * BLOCK_SIZE + BLOCK_SIZE)"
    by linarith
  have k: "i * BLOCK_SIZE < DEV_LIMIT" using i(1) lim by linarith
  note phys_fits(3) [OF k, simp]
  have "(if usize_add (i * PHYS_BLOCK) PHYS_BLOCK \<le> nblk (length s) * PHYS_BLOCK then
           try_then (phys_read E d PHYS_BLOCK (i * PHYS_BLOCK)) (\<lambda>physbuf.
             if length physbuf < PHYS_BLOCK then Inl ETornRmw
             else map_err (\<lambda>_. EAuthRmw) (open_block E (d_file d) i physbuf))
         else Inr (replicate BLOCK_SIZE 0)) = Inr (gpad s i)"
  proof (cases "i < nblk (length s)")
    case True
    then obtain pb where "phys_read E d PHYS_BLOCK (i * PHYS_BLOCK) = Inr pb" "length pb = PHYS_BLOCK"
      "open_block E (d_file d) i pb = Inr (gpad s i)"
      using h phys_read_holds [OF E _ _ k] by metis
    then show ?thesis using True present_iff [of i] by simp
  next
    case False
    then show ?thesis using present_iff [of i] gpad_past [of s i] less_nblk by simp
  qed
  then show ?thesis
    unfolding write_plain_def Let_def if_not_P [OF part] by (simp only: try_then.simps overlay_block [OF off i])
qed

lemma write_block_holds:
  assumes E: "dev_ok E c d" and h: "holds E c d n g" and a: "alive d" and i: "i \<le> n" "i * BLOCK_SIZE < DEV_LIMIT"
    and p: "write_plain E d phys buf start e i = Inr p" "length p = BLOCK_SIZE"
    and r: "rng_good (Suc m) (d_rng d)"
  shows "\<exists>x q. write_block E phys buf start e i d = (Inr (), (set_handle x d)\<lparr>d_rng := q\<rparr>)
    \<and> holds E c ((set_handle x d)\<lparr>d_rng := q\<rparr>) (max n (Suc i)) (g(i := p)) \<and> rng_good m q"
proof -
  note E = E [unfolded dev_ok_def]
  obtain pb q where s: "seal_block E d i p = (Inr pb, d\<lparr>d_rng := q\<rparr>)" and l: "length pb = PHYS_BLOCK"
      and o: "open_block E (d_file d) i pb = Inr p" and q: "rng_good m q"
    using seal_block_good [OF _ _ p(2) r, of E i] E by blast
  have "holds E c (d\<lparr>d_rng := q\<rparr>) n g" "alive (d\<lparr>d_rng := q\<rparr>)" using h a by (simp_all add: holds_def alive_def)
  then obtain x where "phys_write E pb (i * PHYS_BLOCK) (d\<lparr>d_rng := q\<rparr>) = (Inr (), set_handle x (d\<lparr>d_rng := q\<rparr>))"
    "holds E c (set_handle x (d\<lparr>d_rng := q\<rparr>)) (max n (Suc i)) (g(i := p))"
    using phys_write_holds [of E c "d\<lparr>d_rng := q\<rparr>" n g i pb p] E i l o by auto
  moreover have "set_handle x (d\<lparr>d_rng := q\<rparr>) = (set_handle x d)\<lparr>d_rng := q\<rparr>" by (simp add: set_handle_def)
  ultimately show ?thesis
    using s q phys_fits(2) [OF i(2)] p(1) by (auto simp: write_block_def)
qed

text \<open>What a handle operation of the device leaves alone.\<close>

definition same_file :: "'h dev \<Rightarrow> 'h dev \<Rightarrow> bool" where
  "same_file d d' \<longleftrightarrow> (\<exists>x q. d' = (set_handle x d)\<lparr>d_rng := q\<rparr>)"

lemma same_file_refl: "same_file d d"
  unfolding same_file_def by (rule exI [of _ "handle (d_file d)"], rule exI [of _ "d_rng d"]) (simp add: set_handle_def)

lemma same_file_trans: "same_file d d' \<Longrightarrow> same_file d' d'' \<Longrightarrow> same_file d d''"
proof -
  assume "same_file d d'" and "same_file d' d''"
  then obtain x q y r where "d' = (set_handle x d)\<lparr>d_rng := q\<rparr>" "d'' = (set_handle y d')\<lparr>d_rng := r\<rparr>"
    by (auto simp: same_file_def)
  then have "d'' = (set_handle y d)\<lparr>d_rng := r\<rparr>" by (simp add: set_handle_def)
  then show "same_file d d''" by (auto simp: same_file_def)
qed

lemma same_fileD:
  assumes "same_file d d'"
  shows "dev_ok E c d' \<longleftrightarrow> dev_ok E c d" "alive d' \<longleftrightarrow> alive d"
    "logical_size (d_file d') = logical_size (d_file d)" "is_main_db (d_file d') = is_main_db (d_file d)"
  using assms by (auto simp: same_file_def set_handle_def dev_ok_def alive_def)

lemma write_blocks_holds:
  assumes off: "off \<le> length s" and lim: "off + length buf \<le> DEV_LIMIT" and b: "buf \<noteq> []"
    and l: "lst = (off + length buf - 1) div BLOCK_SIZE"
  shows "dev_ok E c d \<Longrightarrow> alive d \<Longrightarrow> off div BLOCK_SIZE \<le> k \<Longrightarrow> k + m = lst + 1
    \<Longrightarrow> holds E c d (max (nblk (length s)) k) (\<lambda>i. if i < k then gpad (splice off buf s) i else gpad s i)
    \<Longrightarrow> rng_good (m + r) (d_rng d)
    \<Longrightarrow> \<exists>d'. write_blocks E (nblk (length s) * PHYS_BLOCK) buf off (off + length buf) [k..<lst + 1] d = (Inr (), d')
      \<and> same_file d d' \<and> holds E c d' (max (nblk (length s)) (lst + 1))
          (\<lambda>i. if i < lst + 1 then gpad (splice off buf s) i else gpad s i) \<and> rng_good r (d_rng d')"
proof (induction m arbitrary: k d)
  case 0
  then show ?case by (auto simp: same_file_refl)
next
  case (Suc m)
  let ?g = "\<lambda>k i. if i < k then gpad (splice off buf s) i else gpad s i"
  have kl: "k \<le> lst" using Suc.prems(4) by simp
  have i1: "k * BLOCK_SIZE < off + length buf"
  proof -
    have "k * BLOCK_SIZE \<le> off + length buf - 1" using kl block_pos(2) unfolding l by (simp add: less_eq_div_iff_mult_less_eq)
    then show ?thesis using b by (cases buf) auto
  qed
  have i2: "off < (k + 1) * BLOCK_SIZE"
    using Suc.prems(3) block_pos(2) by (metis div_less_iff_less_mult less_Suc_eq_le Suc_eq_plus1)
  have w: "write_plain E d (nblk (length s) * PHYS_BLOCK) buf off (off + length buf) k = Inr (gpad (splice off buf s) k)"
    using Suc.prems(1,5) by (intro write_plain_repr [OF _ _ off i1 i2 lim]) (auto simp: dev_ok_def)
  have kd: "k * BLOCK_SIZE < DEV_LIMIT" using i1 lim by linarith
  obtain x q where wb: "write_block E (nblk (length s) * PHYS_BLOCK) buf off (off + length buf) k d = (Inr (), (set_handle x d)\<lparr>d_rng := q\<rparr>)"
      and h: "holds E c ((set_handle x d)\<lparr>d_rng := q\<rparr>) (max (max (nblk (length s)) k) (Suc k)) ((?g k)(k := gpad (splice off buf s) k))"
      and q: "rng_good (m + r) q"
    using write_block_holds [OF Suc.prems(1,5,2) _ kd w _ Suc.prems(6) [unfolded add_Suc]] by auto
  let ?d = "(set_handle x d)\<lparr>d_rng := q\<rparr>"
  have sf: "same_file d ?d" by (auto simp: same_file_def)
  have g: "(?g k)(k := gpad (splice off buf s) k) = ?g (Suc k)" by (auto simp: fun_eq_iff)
  have mx: "max (max (nblk (length s)) k) (Suc k) = max (nblk (length s)) (Suc k)" by simp
  have "\<exists>d'. write_blocks E (nblk (length s) * PHYS_BLOCK) buf off (off + length buf) [Suc k..<lst + 1] ?d = (Inr (), d')
      \<and> same_file ?d d' \<and> holds E c d' (max (nblk (length s)) (lst + 1)) (?g (lst + 1))
      \<and> rng_good r (d_rng d')"
    using h Suc.prems(3,4) q same_fileD(1,2) [OF sf] Suc.prems(1,2)
    unfolding g mx by (intro Suc.IH) auto
  moreover have "[k..<lst + 1] = k # [Suc k..<lst + 1]" using kl by (simp add: upt_conv_Cons)
  ultimately show ?case using wb same_file_trans [OF sf] by auto
qed

lemma gpad_splice_other:
  "off \<le> length s \<Longrightarrow> (i + 1) * BLOCK_SIZE \<le> off \<or> off + length buf \<le> i * BLOCK_SIZE
    \<Longrightarrow> gpad (splice off buf s) i = gpad s i"
  by (rule nth_equalityI) (auto simp: nth_gpad padf_splice)

text \<open>The number of blocks the byte range touches.\<close>

definition span :: "nat \<Rightarrow> nat \<Rightarrow> nat" where
  "span off len = (off + len - 1) div BLOCK_SIZE + 1 - off div BLOCK_SIZE"

lemma nblk_end: "0 < m \<Longrightarrow> nblk m = (m - 1) div BLOCK_SIZE + 1"
proof -
  assume "0 < m"
  then have e: "m + BLOCK_SIZE - 1 = m - 1 + BLOCK_SIZE" by simp
  have "(m - 1 + BLOCK_SIZE) div BLOCK_SIZE = (m - 1) div BLOCK_SIZE + 1"
    using block_pos(2) by (intro div_add_self2) simp
  then show ?thesis unfolding nblk_def e .
qed

lemma nblk_max: "nblk (max a b) = max (nblk a) (nblk b)"
proof -
  have e: "i < nblk (max a b) \<longleftrightarrow> i < max (nblk a) (nblk b)" for i by (simp add: less_nblk less_max_iff_disj)
  show ?thesis using e [of "nblk (max a b)"] e [of "max (nblk a) (nblk b)"]
    by (auto simp add: not_less max_def)
qed

definition page_ok :: "'h dev \<Rightarrow> nat \<Rightarrow> bytes \<Rightarrow> bool" where
  "page_ok d off buf \<longleftrightarrow> \<not> (is_main_db (d_file d) \<and> off = 0 \<and> length buf \<ge> 18
     \<and> starts_with buf SQLITE_HEADER \<and> header_page_size buf \<noteq> BLOCK_SIZE)"

lemma dev_limit_usize: "m \<le> DEV_LIMIT \<Longrightarrow> m \<le> USIZE_MAX_32"
  by (simp add: DEV_LIMIT_def USIZE_MAX_32_def)

lemma holds_set_logical [simp]:
  "holds E c (set_logical m d) n g = holds E c d n g" "logical_size (d_file (set_logical m d)) = Some m"
  "dev_ok E c (set_logical m d) = dev_ok E c d" "alive (set_logical m d) = alive d"
  "d_rng (set_logical m d) = d_rng d" "is_main_db (d_file (set_logical m d)) = is_main_db (d_file d)"
  by (simp_all add: holds_def set_logical_def open_block_def dev_ok_def alive_def)

lemma dev_write_repr:
  assumes E: "dev_ok E c d" and a: "alive d" and h: "dev_repr E c d s" and off: "off \<le> length s"
    and lim: "off + length buf \<le> DEV_LIMIT" and b: "buf \<noteq> []" and p: "page_ok d off buf"
    and r: "rng_good (span off (length buf) + r) (d_rng d)"
  shows "\<exists>d'. dev_write E buf off d = (Inr (), d') \<and> dev_repr E c d' (splice off buf s)
    \<and> dev_ok E c d' \<and> alive d' \<and> rng_good r (d_rng d') \<and> is_main_db (d_file d') = is_main_db (d_file d)"
proof -
  let ?n = "nblk (length s)" and ?lst = "(off + length buf - 1) div BLOCK_SIZE" and ?first = "off div BLOCK_SIZE"
  let ?d = "\<lambda>d'. set_logical (max (length s) (off + length buf)) d'"
  have pos: "0 < off + length buf" using b by (cases buf) auto
  have fl: "?first + span off (length buf) = ?lst + 1" 
  proof -
    have "?first \<le> ?lst" using b by (intro div_le_mono) (cases buf; simp)
    then show ?thesis unfolding span_def by simp
  qed
  have fn: "?first \<le> ?n"
  proof -
    have "off \<le> length s + BLOCK_SIZE - 1" using off block_pos(2) by linarith
    then show ?thesis unfolding nblk_def by (rule div_le_mono)
  qed
  have other: "gpad (splice off buf s) i = gpad s i" if "i < ?first" for i
  proof -
    have "(i + 1) * BLOCK_SIZE \<le> off"
      using that block_pos(2) by (metis Suc_eq_plus1 Suc_leI less_eq_div_iff_mult_less_eq)
    then show ?thesis by (simp add: gpad_splice_other [OF off])
  qed
  have h0: "holds E c d (max ?n ?first) (\<lambda>i. if i < ?first then gpad (splice off buf s) i else gpad s i)"
    using h fn other by (auto simp: dev_repr_def max_absorb1 intro: holds_cong)
  obtain d' where w: "write_blocks E (?n * PHYS_BLOCK) buf off (off + length buf) [?first..<?lst + 1] d = (Inr (), d')"
      and sf: "same_file d d'"
      and h': "holds E c d' (max ?n (?lst + 1)) (\<lambda>i. if i < ?lst + 1 then gpad (splice off buf s) i else gpad s i)"
      and r': "rng_good r (d_rng d')"
    using write_blocks_holds [OF off lim b refl E a order_refl fl h0 r] by blast
  have nb: "nblk (length (splice off buf s)) = max ?n (?lst + 1)"
    by (simp add: length_splice [OF off] nblk_max nblk_end [OF pos])
  have past: "gpad (splice off buf s) i = gpad s i" if "\<not> i < ?lst + 1" for i
  proof -
    have "nblk (off + length buf) \<le> i" using that by (simp add: nblk_end [OF pos])
    then show ?thesis by (simp add: gpad_splice_other [OF off] nblk_le_iff)
  qed
  have "holds E c d' (max ?n (?lst + 1)) (gpad (splice off buf s))"
    by (rule holds_cong [OF h']) (auto simp del: One_nat_def Suc_eq_plus1 simp: past)
  then have "dev_repr E c (?d d') (splice off buf s)"
    unfolding dev_repr_def nb by (simp add: holds_set_logical length_splice [OF off])
  moreover have "dev_write E buf off d = (Inr (), ?d d')"
    using w sf h p b E phys_size_holds [of E c d ?n "gpad s"] dev_limit_usize [OF lim] same_fileD(3) [OF sf]
    by (simp add: dev_write_def dev_repr_def page_ok_def dev_ok_def Let_def)
  moreover have "dev_ok E c (?d d')" "alive (?d d')" "rng_good r (d_rng (?d d'))"
      "is_main_db (d_file (?d d')) = is_main_db (d_file d)"
    using same_fileD(1) [OF sf, of E c] same_fileD(2-) [OF sf] E a r' by simp_all
  ultimately show ?thesis by blast
qed

section \<open>Reading\<close>

text \<open>The bytes a read of a block's part yields: those of the file, zero past its end.\<close>

definition window :: "bytes \<Rightarrow> nat \<Rightarrow> nat \<Rightarrow> bytes" where
  "window s off len = map (\<lambda>j. padf s (off + j)) [0..<len]"

lemma length_window [simp]: "length (window s off len) = len"
  by (simp add: window_def)

lemma window_inside: "off + len \<le> length s \<Longrightarrow> window s off len = slice off len s"
  by (rule nth_equalityI) (simp_all add: window_def padf_def nth_slice)

text \<open>The buffer of a read whose blocks below \<open>k\<close> are done.\<close>

definition filled :: "bytes \<Rightarrow> bytes \<Rightarrow> nat \<Rightarrow> nat \<Rightarrow> bytes" where
  "filled s buf off k = map (\<lambda>j. if off + j < k * BLOCK_SIZE then padf s (off + j) else buf ! j) [0..<length buf]"

lemma length_filled [simp]: "length (filled s buf off k) = length buf"
  by (simp add: filled_def)

lemma filled_step:
  assumes b: "off < (k + 1) * BLOCK_SIZE" "k * BLOCK_SIZE < off + length buf"
    and src: "src = map (\<lambda>j. padf s (max off (k * BLOCK_SIZE) + j))
      [0..<min (off + length buf) (k * BLOCK_SIZE + BLOCK_SIZE) - max off (k * BLOCK_SIZE)]"
  shows "put_at (max off (k * BLOCK_SIZE) - off) src (filled s buf off k) = filled s buf off (Suc k)"
proof (rule nth_equalityI)
  let ?lo = "max off (k * BLOCK_SIZE)" and ?hi = "min (off + length buf) (k * BLOCK_SIZE + BLOCK_SIZE)"
  have lh: "?lo \<le> ?hi" using b by auto
  have l: "length src = ?hi - ?lo" by (simp add: src)
  have fit: "?lo - off + length src \<le> length (filled s buf off k)" unfolding l using lh by auto
  then show "length (put_at (?lo - off) src (filled s buf off k)) = length (filled s buf off (Suc k))" by simp
  fix j assume "j < length (put_at (?lo - off) src (filled s buf off k))"
  then have j: "j < length buf" using fit by simp
  show "put_at (?lo - off) src (filled s buf off k) ! j = filled s buf off (Suc k) ! j"
  proof (cases "?lo - off \<le> j \<and> j < ?lo - off + length src")
    case True
    then have "off + j < Suc k * BLOCK_SIZE" unfolding l using lh by auto
    moreover have "?lo + (j - (?lo - off)) = off + j" using True by auto
    moreover have "src ! (j - (?lo - off)) = padf s (?lo + (j - (?lo - off)))"
    proof -
      have "j - (?lo - off) < ?hi - ?lo" using True [unfolded l] by linarith
      then show ?thesis unfolding src by simp
    qed
    moreover have "put_at (?lo - off) src (filled s buf off k) ! j = src ! (j - (?lo - off))"
      using nth_put_at [OF fit, of j] j True by (simp only: length_filled if_True simp_thms)
    ultimately show ?thesis using j by (simp add: filled_def)
  next
    case False
    then have "off + j < k * BLOCK_SIZE \<longleftrightarrow> off + j < Suc k * BLOCK_SIZE" unfolding l using lh j by auto
    moreover have "put_at (?lo - off) src (filled s buf off k) ! j = filled s buf off k ! j"
      using nth_put_at [OF fit, of j] j False by (simp only: length_filled if_False)
    ultimately show ?thesis using j by (simp add: filled_def)
  qed
qed

lemma read_block_repr:
  assumes E: "dev_ok E c d" and h: "dev_repr E c d s" and lim: "off + length buf \<le> DEV_LIMIT"
    and b: "off < (k + 1) * BLOCK_SIZE" "k * BLOCK_SIZE < off + length buf"
  shows "read_block E d (nblk (length s) * PHYS_BLOCK) off (off + length buf) k (filled s buf off k, short)
    = Inr (filled s buf off (Suc k), short \<or> nblk (length s) \<le> k)"
proof -
  let ?lo = "max off (k * BLOCK_SIZE)" and ?hi = "min (off + length buf) (k * BLOCK_SIZE + BLOCK_SIZE)"
  have kd: "k * BLOCK_SIZE < DEV_LIMIT" using b lim by linarith
  note phys_fits(2,3) [OF kd, simp]
  show ?thesis
  proof (cases "k < nblk (length s)")
    case True
    have "sah_ok E c" using E by (simp add: dev_ok_def)
    then obtain pb where pb: "phys_read E d PHYS_BLOCK (k * PHYS_BLOCK) = Inr pb" "length pb = PHYS_BLOCK"
      "open_block E (d_file d) k pb = Inr (gpad s k)"
      using h phys_read_holds [OF _ _ True kd] unfolding dev_repr_def by blast
    have "slice (?lo - k * BLOCK_SIZE) (?hi - ?lo) (gpad s k) = map (\<lambda>j. padf s (?lo + j)) [0..<?hi - ?lo]"
    proof (rule nth_equalityI)
      have f: "?lo - k * BLOCK_SIZE + (?hi - ?lo) \<le> length (gpad s k)" using b by auto
      then show "length (slice (?lo - k * BLOCK_SIZE) (?hi - ?lo) (gpad s k)) = length (map (\<lambda>j. padf s (?lo + j)) [0..<?hi - ?lo])"
        by simp
      fix i assume "i < length (slice (?lo - k * BLOCK_SIZE) (?hi - ?lo) (gpad s k))"
      then have i: "i < ?hi - ?lo" using f by simp
      moreover have "k * BLOCK_SIZE + (?lo - k * BLOCK_SIZE + i) = ?lo + i" by auto
      moreover have "?lo - k * BLOCK_SIZE + i < BLOCK_SIZE" using i by auto
      ultimately show "slice (?lo - k * BLOCK_SIZE) (?hi - ?lo) (gpad s k) ! i = map (\<lambda>j. padf s (?lo + j)) [0..<?hi - ?lo] ! i"
        using nth_slice [OF i f] nth_gpad [of "?lo - k * BLOCK_SIZE + i" s k] by simp
    qed
    from filled_step [OF b this] show ?thesis
      using True pb present_iff [of k "nblk (length s)"] by (simp add: read_block_def Let_def not_less)
  next
    case False
    then have "length s \<le> k * BLOCK_SIZE" by (simp add: less_nblk)
    then have "replicate (?hi - ?lo) 0 = map (\<lambda>j. padf s (?lo + j)) [0..<?hi - ?lo]"
      by (intro nth_equalityI) (auto simp: padf_def)
    from filled_step [OF b this] show ?thesis
      using False present_iff [of k "nblk (length s)"] by (simp add: read_block_def Let_def not_less)
  qed
qed

lemma read_blocks_repr:
  assumes E: "dev_ok E c d" and h: "dev_repr E c d s" and lim: "off + length buf \<le> DEV_LIMIT" and b: "buf \<noteq> []"
    and l: "lst = (off + length buf - 1) div BLOCK_SIZE"
  shows "off div BLOCK_SIZE \<le> k \<Longrightarrow> k + m = lst + 1 \<Longrightarrow>
    read_blocks E d (nblk (length s) * PHYS_BLOCK) off (off + length buf) [k..<lst + 1] (filled s buf off k, short)
    = Inr (filled s buf off (lst + 1), short \<or> (m > 0 \<and> nblk (length s) \<le> lst))"
proof (induction m arbitrary: k short)
  case 0
  then show ?case by simp
next
  case (Suc m)
  have kl: "k \<le> lst" using Suc.prems(2) by simp
  have i1: "k * BLOCK_SIZE < off + length buf"
  proof -
    have "k * BLOCK_SIZE \<le> off + length buf - 1" using kl block_pos(2) unfolding l by (simp add: less_eq_div_iff_mult_less_eq)
    then show ?thesis using b by (cases buf) auto
  qed
  have i2: "off < (k + 1) * BLOCK_SIZE"
    using Suc.prems(1) block_pos(2) by (metis div_less_iff_less_mult less_Suc_eq_le Suc_eq_plus1)
  have u: "[k..<lst + 1] = k # [Suc k..<lst + 1]" using kl by (simp add: upt_conv_Cons)
  have n: "off div BLOCK_SIZE \<le> Suc k" "Suc k + m = lst + 1" using Suc.prems by simp_all
  show ?case
    unfolding u read_blocks.simps read_block_repr [OF E h lim i2 i1] try_then.simps Suc.IH [OF n]
    using Suc.prems(2) kl by auto
qed

lemma filled_end: "off + length buf \<le> k * BLOCK_SIZE \<Longrightarrow> filled s buf off k = window s off (length buf)"
  by (rule nth_equalityI) (auto simp: filled_def window_def)

lemma filled_start: "k * BLOCK_SIZE \<le> off \<Longrightarrow> filled s buf off k = buf"
  by (rule nth_equalityI) (auto simp: filled_def)

lemma dev_read_repr:
  assumes E: "dev_ok E c d" and h: "dev_repr E c d s" and lim: "off + length buf \<le> DEV_LIMIT" and b: "buf \<noteq> []"
  shows "dev_read E buf off d = Inr (window s off (length buf), off + length buf \<le> nblk (length s) * BLOCK_SIZE)"
proof -
  let ?n = "nblk (length s)" and ?lst = "(off + length buf - 1) div BLOCK_SIZE" and ?first = "off div BLOCK_SIZE"
  have pos: "0 < off + length buf" using b by (cases buf) auto
  have le: "?first \<le> ?lst" using b by (intro div_le_mono) (cases buf; simp)
  then have fl: "?first + (?lst + 1 - ?first) = ?lst + 1" by simp
  have f: "filled s buf off ?first = buf" by (rule filled_start) simp
  have e: "filled s buf off (?lst + 1) = window s off (length buf)"
    by (rule filled_end) (metis nblk_end [OF pos] nblk_le_iff order_refl)
  have p: "0 < ?lst + 1 - ?first" using le by linarith
  have iff: "?n \<le> ?lst \<longleftrightarrow> \<not> off + length buf \<le> ?n * BLOCK_SIZE"
    unfolding nblk_le_iff [symmetric] nblk_end [OF pos] by auto
  have r: "read_blocks E d (?n * PHYS_BLOCK) off (off + length buf) [?first..<?lst + 1] (buf, False)
      = Inr (window s off (length buf), \<not> off + length buf \<le> ?n * BLOCK_SIZE)"
    using read_blocks_repr [OF E h lim b refl order_refl fl, of False] unfolding f e iff [symmetric] using p by simp
  have "phys_size E d = Inr (?n * PHYS_BLOCK)"
    using E h phys_size_holds unfolding dev_ok_def dev_repr_def by blast
  then show ?thesis
    using b dev_limit_usize [OF lim] r by (simp add: dev_read_def Let_def not_less)
qed

section \<open>Truncating\<close>

lemma usize_blocks:
  assumes "n * BLOCK_SIZE \<le> DEV_LIMIT"
  shows "usize_mul n PHYS_BLOCK = n * PHYS_BLOCK" "usize_add HEADER_OFFSET_DATA (n * PHYS_BLOCK) = HEADER_OFFSET_DATA + n * PHYS_BLOCK"
proof -
  have "n * 4096 \<le> 2147483648" using assms by (simp add: DEV_LIMIT_def BLOCK_SIZE_def)
  then have "HEADER_OFFSET_DATA + n * PHYS_BLOCK < 4294967296" by (simp add: size_defs HEADER_OFFSET_DATA_def)
  then show "usize_mul n PHYS_BLOCK = n * PHYS_BLOCK" "usize_add HEADER_OFFSET_DATA (n * PHYS_BLOCK) = HEADER_OFFSET_DATA + n * PHYS_BLOCK"
    by (simp_all add: usize_add_def usize_mul_def)
qed

lemma phys_truncate_holds:
  assumes E: "sah_ok E c" and h: "holds E c d n g" and a: "alive d" and m: "m \<le> n" "m * BLOCK_SIZE \<le> DEV_LIMIT"
  shows "\<exists>x. phys_truncate E (m * PHYS_BLOCK) d = (Inr (), set_handle x d) \<and> holds E c (set_handle x d) m g"
proof -
  let ?h = "handle (d_file d)" and ?l = "HEADER_OFFSET_DATA + m * PHYS_BLOCK"
  let ?x = "snd (sah_truncate E ?h ?l)"
  have c: "c ?x = take ?l (c ?h)"
    using E h m(1) by (simp add: holds_def resize_shrink)
  have "phys_truncate E (m * PHYS_BLOCK) d = (Inr (), set_handle ?x d)"
    using sah_okD(5) [OF E, of ?h ?l] gate_alive [OF a] usize_blocks(2) [OF m(2)]
    by (auto simp: phys_truncate_def split: prod.split)
  moreover have "slice (HEADER_OFFSET_DATA + k * PHYS_BLOCK) PHYS_BLOCK (c ?x)
      = slice (HEADER_OFFSET_DATA + k * PHYS_BLOCK) PHYS_BLOCK (c ?h)" if "k < m" for k
    using present_iff [of k m] that unfolding c by (simp add: slice_def drop_take min_def)
  moreover have "length (c ?x) = ?l" using E by simp
  ultimately show ?thesis using h m(1) by (auto simp: holds_def set_handle_def open_block_def)
qed

lemma gpad_take:
  "(i + 1) * BLOCK_SIZE \<le> m \<Longrightarrow> m \<le> length s \<Longrightarrow> gpad (take m s) i = gpad s i"
  by (rule nth_equalityI) (auto simp: nth_gpad padf_def)

lemma gpad_take_tail:
  assumes "m = i * BLOCK_SIZE + t" "t < BLOCK_SIZE" "m \<le> length s"
  shows "gpad (take m s) i = take t (gpad s i) @ replicate (BLOCK_SIZE - t) 0"
proof (rule nth_equalityI)
  show "length (gpad (take m s) i) = length (take t (gpad s i) @ replicate (BLOCK_SIZE - t) 0)"
    using assms(2) by simp
  fix j assume "j < length (gpad (take m s) i)"
  then show "gpad (take m s) i ! j = (take t (gpad s i) @ replicate (BLOCK_SIZE - t) 0) ! j"
    using assms by (auto simp: nth_gpad padf_def nth_append)
qed

lemma reseal_tail_holds:
  assumes E: "dev_ok E c d" and h: "dev_repr E c d s" and a: "alive d"
    and m: "m = k * BLOCK_SIZE + t" "0 < t" "t < BLOCK_SIZE" "m \<le> length s" "m \<le> DEV_LIMIT"
    and r: "rng_good (Suc r) (d_rng d)"
  shows "\<exists>d'. reseal_tail E k t d = (Inr (), d') \<and> same_file d d'
    \<and> holds E c d' (nblk (length s)) ((gpad s)(k := gpad (take m s) k)) \<and> rng_good r (d_rng d')"
proof -
  have k: "k < nblk (length s)" using m by (simp add: less_nblk)
  have kd: "k * BLOCK_SIZE < DEV_LIMIT" using m by linarith
  have S: "sah_ok E c" and hh: "holds E c d (nblk (length s)) (gpad s)" using E h by (simp_all add: dev_ok_def dev_repr_def)
  obtain pb where pb: "phys_read E d PHYS_BLOCK (k * PHYS_BLOCK) = Inr pb" "length pb = PHYS_BLOCK"
      "open_block E (d_file d) k pb = Inr (gpad s k)"
    using phys_read_holds [OF S hh k kd] by blast
  have p: "take t (gpad s k) @ replicate (length (gpad s k) - t) 0 = gpad (take m s) k"
    using gpad_take_tail [OF m(1,3,4)] by simp
  obtain pb' q where sb: "seal_block E d k (gpad (take m s) k) = (Inr pb', d\<lparr>d_rng := q\<rparr>)" and l: "length pb' = PHYS_BLOCK"
      and o: "open_block E (d_file d) k pb' = Inr (gpad (take m s) k)" and q: "rng_good r q"
    using seal_block_good [OF _ _ length_gpad r] E unfolding dev_ok_def by blast
  have h': "holds E c (d\<lparr>d_rng := q\<rparr>) (nblk (length s)) (gpad s)" "alive (d\<lparr>d_rng := q\<rparr>)"
    using hh a by (simp_all add: holds_def alive_def)
  obtain x where w: "phys_write E pb' (k * PHYS_BLOCK) (d\<lparr>d_rng := q\<rparr>) = (Inr (), set_handle x (d\<lparr>d_rng := q\<rparr>))"
      "holds E c (set_handle x (d\<lparr>d_rng := q\<rparr>)) (max (nblk (length s)) (Suc k)) ((gpad s)(k := gpad (take m s) k))"
    using phys_write_holds [OF S h' _ kd l, of "gpad (take m s) k"] k o by auto
  have "reseal_tail E k t d = (Inr (), set_handle x (d\<lparr>d_rng := q\<rparr>))"
    using phys_size_holds [OF S hh] pb sb w(1) p k present_iff [of k "nblk (length s)"]
    by (simp add: reseal_tail_def Let_def phys_fits(3,5) [OF kd])
  moreover have "same_file d (set_handle x (d\<lparr>d_rng := q\<rparr>))"
    unfolding same_file_def by (intro exI [of _ x] exI [of _ q]) (simp add: set_handle_def)
  moreover have "max (nblk (length s)) (Suc k) = nblk (length s)" using k by simp
  ultimately show ?thesis using w(2) q by (auto simp: set_handle_def)
qed

lemma same_file_truncate:
  assumes "same_file d d'" "phys_truncate E n d' = (Inr (), set_handle x d')"
  shows "same_file d (set_handle x d')"
proof -
  have "same_file d' (set_handle x d')"
    unfolding same_file_def by (intro exI [of _ x] exI [of _ "d_rng d'"]) (simp add: set_handle_def)
  then show ?thesis using assms same_file_trans by blast
qed

lemma rng_good_Suc: "rng_good (Suc m) r \<Longrightarrow> rng_good m r"
proof (induction m arbitrary: r)
  case (Suc m)
  from Suc.prems obtain n q where "draw_nonzero NONCE_LEN r = (Some n, q)" "rng_good (Suc m) q"
    by (auto simp del: rng_good.simps(2) simp: rng_good.simps(2) [of "Suc m"] split: prod.splits option.splits)
  then show ?case using Suc.IH by simp
qed simp

lemma nblk_split: "nblk m = (if m mod BLOCK_SIZE = 0 then m div BLOCK_SIZE else m div BLOCK_SIZE + 1)"
proof -
  have e: "i < nblk m \<longleftrightarrow> i < (if m mod BLOCK_SIZE = 0 then m div BLOCK_SIZE else m div BLOCK_SIZE + 1)" for i
  proof -
    have m: "m = m div BLOCK_SIZE * BLOCK_SIZE + m mod BLOCK_SIZE" by simp
    have b: "m mod BLOCK_SIZE < BLOCK_SIZE" using block_pos(2) by simp
    have "i * BLOCK_SIZE < m \<longleftrightarrow> i < m div BLOCK_SIZE \<or> i = m div BLOCK_SIZE \<and> 0 < m mod BLOCK_SIZE"
    proof (cases i "m div BLOCK_SIZE" rule: linorder_cases)
      case less
      then have "(i + 1) * BLOCK_SIZE \<le> m" using block_pos(2) by (metis Suc_eq_plus1 Suc_leI less_eq_div_iff_mult_less_eq)
      then show ?thesis using less block_pos(2) by simp
    next
      case equal
      have "m div BLOCK_SIZE * BLOCK_SIZE < m \<longleftrightarrow> 0 < m mod BLOCK_SIZE"
        by (rule iffI; use m in linarith)
      then show ?thesis by (simp add: equal)
    next
      case greater
      then have "m < i * BLOCK_SIZE" using block_pos(2) by (simp add: div_less_iff_less_mult)
      then show ?thesis using greater by simp
    qed
    then show ?thesis by (auto simp: less_nblk)
  qed
  show ?thesis using e [of "nblk m"] e [of "if m mod BLOCK_SIZE = 0 then m div BLOCK_SIZE else m div BLOCK_SIZE + 1"]
    by (auto simp: not_less split: if_splits)
qed

lemma reseal_step:
  assumes E: "dev_ok E c d" and h: "dev_repr E c d s" and a: "alive d"
    and m: "m \<le> length s" "m \<le> DEV_LIMIT" and r: "rng_good (Suc r) (d_rng d)"
  shows "\<exists>d'. (if m mod BLOCK_SIZE \<noteq> 0 then reseal_tail E (nblk m - 1) (m mod BLOCK_SIZE) d else (Inr (), d)) = (Inr (), d')
    \<and> same_file d d' \<and> holds E c d' (nblk (length s)) (\<lambda>i. if i < nblk m then gpad (take m s) i else gpad s i)
    \<and> rng_good r (d_rng d')"
proof (cases "m mod BLOCK_SIZE = 0")
  case True
  have "gpad (take m s) i = gpad s i" if "i < nblk m" for i
  proof (rule gpad_take)
    have "nblk m * BLOCK_SIZE = m" using True div_mult_mod_eq [of m BLOCK_SIZE] unfolding nblk_split by simp
    then show "(i + 1) * BLOCK_SIZE \<le> m" using that block_pos(2) by (metis Suc_eq_plus1 Suc_leI mult_le_mono1)
  qed (fact m(1))
  then have "holds E c d (nblk (length s)) (\<lambda>i. if i < nblk m then gpad (take m s) i else gpad s i)"
    using h by (auto simp: dev_repr_def intro: holds_cong)
  then show ?thesis using True same_file_refl rng_good_Suc [OF r] by auto
next
  case False
  let ?k = "m div BLOCK_SIZE" and ?t = "m mod BLOCK_SIZE"
  have n: "nblk m = ?k + 1" using False unfolding nblk_split by simp
  have mk: "m = ?k * BLOCK_SIZE + ?t" "0 < ?t" "?t < BLOCK_SIZE" using False block_pos(2) by simp_all
  obtain d' where d': "reseal_tail E ?k ?t d = (Inr (), d')" "same_file d d'" "rng_good r (d_rng d')"
    "holds E c d' (nblk (length s)) ((gpad s)(?k := gpad (take m s) ?k))"
    using reseal_tail_holds [OF E h a mk m r] by blast
  have "gpad (take m s) i = gpad s i" if "i < ?k" for i
  proof (rule gpad_take)
    show "(i + 1) * BLOCK_SIZE \<le> m"
      using that block_pos(2) by (metis Suc_eq_plus1 Suc_leI less_eq_div_iff_mult_less_eq)
  qed (fact m(1))
  then have "holds E c d' (nblk (length s)) (\<lambda>i. if i < nblk m then gpad (take m s) i else gpad s i)"
    unfolding n by (intro holds_cong [OF d'(4)]) auto
  then show ?thesis using d' False by (simp add: n)
qed

lemma dev_truncate_repr:
  assumes E: "dev_ok E c d" and h: "dev_repr E c d s" and a: "alive d"
    and m: "m \<le> length s" "m + BLOCK_SIZE \<le> DEV_LIMIT" and r: "rng_good (Suc r) (d_rng d)"
  shows "\<exists>d'. dev_truncate E m d = (Inr (), d') \<and> dev_repr E c d' (take m s)
    \<and> dev_ok E c d' \<and> alive d' \<and> rng_good r (d_rng d') \<and> is_main_db (d_file d') = is_main_db (d_file d)"
proof -
  have ml: "m \<le> DEV_LIMIT" using m(2) by simp
  have kn: "nblk m \<le> nblk (length s)" using m(1) unfolding nblk_def by (intro div_le_mono) simp
  have kl: "nblk m * BLOCK_SIZE \<le> DEV_LIMIT"
  proof -
    have "nblk m * BLOCK_SIZE \<le> m + BLOCK_SIZE - 1" unfolding nblk_def by (rule div_times_less_eq_dividend)
    then show ?thesis using m(2) block_pos(2) by linarith
  qed
  obtain d1 where d1: "(if m mod BLOCK_SIZE \<noteq> 0 then reseal_tail E (nblk m - 1) (m mod BLOCK_SIZE) d else (Inr (), d)) = (Inr (), d1)"
    "same_file d d1" "holds E c d1 (nblk (length s)) (\<lambda>i. if i < nblk m then gpad (take m s) i else gpad s i)"
    "rng_good r (d_rng d1)"
    using reseal_step [OF E h a m(1) ml r] by blast
  have E1: "dev_ok E c d1" "alive d1" using E a same_fileD(1) [OF d1(2), of E c] same_fileD(2) [OF d1(2)] by simp_all
  obtain x where x: "phys_truncate E (nblk m * PHYS_BLOCK) d1 = (Inr (), set_handle x d1)"
      "holds E c (set_handle x d1) (nblk m) (\<lambda>i. if i < nblk m then gpad (take m s) i else gpad s i)"
    using phys_truncate_holds [OF _ d1(3) E1(2) kn kl] E1(1) unfolding dev_ok_def by blast
  have sf: "same_file d (set_handle x d1)" by (rule same_file_truncate [OF d1(2) x(1)])
  have hs: "holds E c (set_handle x d1) (nblk m) (gpad (take m s))" by (rule holds_cong [OF x(2)]) simp
  have t: "dev_truncate E m d = (Inr (), set_logical m (set_handle x d1))"
    unfolding dev_truncate_def Let_def nblk_def [symmetric] d1(1) st_then.simps usize_blocks(1) [OF kl] x(1) ..
  have "d_rng (set_handle x d1) = d_rng d1" by (simp add: set_handle_def)
  then show ?thesis
    using t hs m(1) d1(4) E a same_fileD(1) [OF sf, of E c] same_fileD(2-) [OF sf] by (simp add: dev_repr_def)
qed

section \<open>The contract of the device\<close>

text \<open>
  A file of bytes: \<open>repr m d s\<close> says that \<open>d\<close> holds the bytes \<open>s\<close> and can seal \<open>m\<close> more blocks.
  Offsets stay below \<open>limit\<close>; \<open>cost\<close> is the number of blocks a range touches.
\<close>

locale byte_file =
  fixes repr :: "nat \<Rightarrow> 'd \<Rightarrow> bytes \<Rightarrow> bool"
    and read_at :: "bytes \<Rightarrow> nat \<Rightarrow> 'd \<Rightarrow> 'e + (bytes \<times> bool)"
    and write_at :: "bytes \<Rightarrow> nat \<Rightarrow> 'd \<Rightarrow> ('e + unit) \<times> 'd"
    and cut :: "nat \<Rightarrow> 'd \<Rightarrow> ('e + unit) \<times> 'd"
    and len :: "'d \<Rightarrow> ('e + nat) \<times> 'd"
    and admits :: "'d \<Rightarrow> nat \<Rightarrow> bytes \<Rightarrow> bool"
    and cost :: "nat \<Rightarrow> nat \<Rightarrow> nat"
    and limit :: nat
  assumes reads: "repr m d s \<Longrightarrow> off + length buf \<le> length s \<Longrightarrow> off + length buf \<le> limit \<Longrightarrow> buf \<noteq> []
      \<Longrightarrow> read_at buf off d = Inr (slice off (length buf) s, True)"
    and writes: "repr (cost off (length buf) + m) d s \<Longrightarrow> off \<le> length s \<Longrightarrow> off + length buf \<le> limit \<Longrightarrow> buf \<noteq> []
      \<Longrightarrow> admits d off buf \<Longrightarrow> \<exists>d'. write_at buf off d = (Inr (), d') \<and> repr m d' (splice off buf s)"
    and cuts: "repr (Suc m) d s \<Longrightarrow> n \<le> length s \<Longrightarrow> n \<le> limit
      \<Longrightarrow> \<exists>d'. cut n d = (Inr (), d') \<and> repr m d' (take n s)"
    and lens: "repr m d s \<Longrightarrow> len d = (Inr (length s), d)"
begin

lemma read_after_write:
  assumes "repr (cost off (length buf) + m) d s" and "off \<le> length s" and "off + length buf \<le> limit" and "buf \<noteq> []"
    and "admits d off buf" and "write_at buf off d = (r, d')" and "length zs = length buf"
  shows "r = Inr () \<and> read_at zs off d' = Inr (buf, True) \<and> len d' = (Inr (max (length s) (off + length buf)), d')"
proof -
  have d': "r = Inr ()" "repr m d' (splice off buf s)" using writes [OF assms(1-5)] assms(6) by auto
  have "slice off (length zs) (splice off buf s) = buf"
    using assms(2,7) by (simp add: splice_def slice_def)
  moreover have "zs \<noteq> []" using assms(4,7) by auto
  ultimately show ?thesis
    using reads [OF d'(2), of off zs] lens [OF d'(2)] d'(1) assms(2,3,4,7) by (auto simp: length_splice)
qed

lemma read_elsewhere:
  assumes "repr (cost off (length buf) + m) d s" and "off \<le> length s" and "off + length buf \<le> limit" and "buf \<noteq> []"
    and "admits d off buf" and "write_at buf off d = (r, d')"
    and zs: "at + length zs \<le> off \<or> off + length buf \<le> at" "at + length zs \<le> length s" "at + length zs \<le> limit" "zs \<noteq> []"
  shows "read_at zs at d' = read_at zs at d"
proof -
  have d': "repr m d' (splice off buf s)" using writes [OF assms(1-5)] assms(6) by auto
  have "slice at (length zs) (splice off buf s) = slice at (length zs) s"
  proof (rule nth_equalityI)
    show "length (slice at (length zs) (splice off buf s)) = length (slice at (length zs) s)"
      using zs(2) assms(2) by (simp add: length_splice)
    fix i assume "i < length (slice at (length zs) (splice off buf s))"
    then have i: "i < length zs" using zs(2) assms(2) by (simp add: length_splice)
    show "slice at (length zs) (splice off buf s) ! i = slice at (length zs) s ! i"
      using i zs(1,2) assms(2) padf_splice [OF assms(2), of buf "at + i"]
      by (auto simp: nth_slice length_splice padf_def split: if_splits)
  qed
  then show ?thesis
    using reads [OF d', of at zs] reads [OF assms(1), of at zs] zs assms(2) by (simp add: length_splice)
qed

lemma cut_then_read:
  assumes "repr (Suc m) d s" and "n \<le> length s" and "n \<le> limit" and "cut n d = (r, d')"
    and "at + length zs \<le> n" "zs \<noteq> []"
  shows "r = Inr () \<and> len d' = (Inr n, d') \<and> read_at zs at d' = Inr (slice at (length zs) s, True)"
proof -
  have d': "r = Inr ()" "repr m d' (take n s)" using cuts [OF assms(1-3)] assms(4) by auto
  have "slice at (length zs) (take n s) = slice at (length zs) s"
    using assms(5) by (simp add: slice_def drop_take min_def)
  then show ?thesis using reads [OF d'(2), of at zs] lens [OF d'(2)] d'(1) assms(2,3,5,6) by simp
qed

end

definition dev_holds :: "('h, 'z) env_scheme \<Rightarrow> ('h \<Rightarrow> bytes) \<Rightarrow> nat \<Rightarrow> 'h dev \<Rightarrow> bytes \<Rightarrow> bool" where
  "dev_holds E c m d s \<longleftrightarrow> dev_ok E c d \<and> alive d \<and> dev_repr E c d s \<and> rng_good m (d_rng d)"

lemma nblk_ge: "m \<le> nblk m * BLOCK_SIZE"
  using nblk_le_iff [of m "nblk m"] by simp

interpretation blockdev: byte_file "dev_holds E c" "dev_read E" "dev_write E" "dev_truncate E" "dev_size E"
    page_ok span "DEV_LIMIT - BLOCK_SIZE" for E c
proof
  fix m d s off and buf :: bytes
  assume a: "dev_holds E c m d s" and l: "off + length buf \<le> length s" "off + length buf \<le> DEV_LIMIT - BLOCK_SIZE" "buf \<noteq> []"
  have "off + length buf \<le> DEV_LIMIT" using l(2) by simp
  moreover have "off + length buf \<le> nblk (length s) * BLOCK_SIZE" using l(1) nblk_ge le_trans by blast
  ultimately show "dev_read E buf off d = Inr (slice off (length buf) s, True)"
    using dev_read_repr [of E c d s off buf] a l window_inside [OF l(1)] by (simp add: dev_holds_def)
next
  fix off m d s and buf :: bytes
  assume "dev_holds E c (span off (length buf) + m) d s" and "off \<le> length s" and "off + length buf \<le> DEV_LIMIT - BLOCK_SIZE"
    and "buf \<noteq> []" and "page_ok d off buf"
  then show "\<exists>d'. dev_write E buf off d = (Inr (), d') \<and> dev_holds E c m d' (splice off buf s)"
    using dev_write_repr [of E c d s off buf m] unfolding dev_holds_def by fastforce
next
  fix m d s n
  assume "dev_holds E c (Suc m) d s" and "n \<le> length s" and n: "n \<le> DEV_LIMIT - BLOCK_SIZE"
  moreover have "n + BLOCK_SIZE \<le> DEV_LIMIT" using n by (simp add: DEV_LIMIT_def BLOCK_SIZE_def)
  ultimately show "\<exists>d'. dev_truncate E n d = (Inr (), d') \<and> dev_holds E c m d' (take n s)"
    using dev_truncate_repr [of E c d s n m] unfolding dev_holds_def by blast
next
  fix m d s
  assume "dev_holds E c m d s"
  then show "dev_size E d = (Inr (length s), d)" by (simp add: dev_holds_def dev_repr_def dev_size_def ensure_logical_def)
qed

section \<open>The dead disk\<close>

text \<open>The gate lets \<open>j\<close> more operations through, and none after them.\<close>

definition allows :: "'h dev \<Rightarrow> nat \<Rightarrow> bool" where
  "allows d j \<longleftrightarrow> (if crashed (d_fault d) then j = 0 else countdown (d_fault d) = Some j)"

text \<open>A later state of the same file, whatever the gate.\<close>

definition later :: "'h dev \<Rightarrow> 'h dev \<Rightarrow> bool" where
  "later d d' \<longleftrightarrow> (\<exists>x q f. d' = d\<lparr>d_file := (d_file d)\<lparr>handle := x\<rparr>, d_fault := f, d_rng := q\<rparr>)"

lemma later_trans: "later d d' \<Longrightarrow> later d' d'' \<Longrightarrow> later d d''"
proof -
  assume "later d d'" and "later d' d''"
  then obtain x q f x' q' f' where "d' = d\<lparr>d_file := (d_file d)\<lparr>handle := x\<rparr>, d_fault := f, d_rng := q\<rparr>"
    "d'' = d'\<lparr>d_file := (d_file d')\<lparr>handle := x'\<rparr>, d_fault := f', d_rng := q'\<rparr>"
    by (auto simp: later_def)
  then have "d'' = d\<lparr>d_file := (d_file d)\<lparr>handle := x'\<rparr>, d_fault := f', d_rng := q'\<rparr>" by simp
  then show "later d d''" by (auto simp: later_def)
qed

lemma laterD: "later d d' \<Longrightarrow> dev_ok E c d' \<longleftrightarrow> dev_ok E c d" "later d d' \<Longrightarrow> logical_size (d_file d') = logical_size (d_file d)"
  by (auto simp: later_def dev_ok_def)

lemma phys_write_gated:
  assumes E: "sah_ok E c" and h: "holds E c d n g" and a: "allows d j" and k: "0 < j \<longrightarrow> k \<le> n" "k * BLOCK_SIZE < DEV_LIMIT"
    and pb: "length pb = PHYS_BLOCK" "open_block E (d_file d) k pb = Inr new"
  shows "\<exists>d'. phys_write E pb (k * PHYS_BLOCK) d = (Inr (), d') \<and> later d d' \<and> d_rng d' = d_rng d \<and> allows d' (j - 1)
    \<and> (if j = 0 then holds E c d' n g else holds E c d' (max n (Suc k)) (g(k := new)))"
proof (cases j)
  case 0
  have g: "gate (d_fault d) = (False, (d_fault d)\<lparr>crashed := True\<rparr>)"
    using a 0 by (cases "crashed (d_fault d)") (simp_all add: gate_def allows_def)
  let ?d = "d\<lparr>d_fault := (d_fault d)\<lparr>crashed := True\<rparr>\<rparr>"
  have "later d ?d"
    unfolding later_def by (intro exI [of _ "handle (d_file d)"] exI [of _ "d_rng d"] exI) simp
  moreover have "phys_write E pb (k * PHYS_BLOCK) d = (Inr (), ?d)" by (simp add: phys_write_def g)
  ultimately show ?thesis using h 0 by (auto simp: holds_def allows_def)
next
  case (Suc i)
  let ?d = "d\<lparr>d_fault := (d_fault d)\<lparr>countdown := None\<rparr>\<rparr>"
  have nc: "\<not> crashed (d_fault d)" "countdown (d_fault d) = Some j" using a Suc by (auto simp: allows_def split: if_splits)
  have "holds E c ?d n g" "alive ?d" using h nc(1) by (simp_all add: holds_def alive_def)
  then obtain x where x: "phys_write E pb (k * PHYS_BLOCK) ?d = (Inr (), set_handle x ?d)"
      "holds E c (set_handle x ?d) (max n (Suc k)) (g(k := new))"
    using phys_write_holds [OF E, of ?d n g k pb new] k Suc pb by auto
  let ?e = "(set_handle x d)\<lparr>d_fault := (d_fault d)\<lparr>countdown := Some i\<rparr>\<rparr>"
  have "phys_write E pb (k * PHYS_BLOCK) d = (Inr (), ?e)"
    using x(1) nc Suc
    by (auto simp: phys_write_def gate_def set_handle_def Let_def split: prod.splits option.splits if_splits
        dest!: arg_cong [where f = "\<lambda>d. handle (d_file d)"])
  moreover have "later d ?e"
    unfolding later_def set_handle_def by (intro exI [of _ x] exI [of _ "d_rng d"] exI [of _ "(d_fault d)\<lparr>countdown := Some i\<rparr>"]) simp
  moreover have "holds E c ?e (max n (Suc k)) (g(k := new))" using x(2) by (simp add: holds_def set_handle_def)
  ultimately show ?thesis using Suc nc by (auto simp: allows_def set_handle_def)
qed

text \<open>The blocks \<open>i < F\<close> of a write are new, the others old.\<close>

lemma write_blocks_torn:
  assumes off: "off \<le> length s" and lim: "off + length buf \<le> DEV_LIMIT" and b: "buf \<noteq> []"
    and l: "lst = (off + length buf - 1) div BLOCK_SIZE" and F: "off div BLOCK_SIZE \<le> F"
  shows "dev_ok E c d \<Longrightarrow> allows d (F - k) \<Longrightarrow> off div BLOCK_SIZE \<le> k \<Longrightarrow> k + m = lst + 1
    \<Longrightarrow> holds E c d (max (nblk (length s)) (min k F)) (\<lambda>i. if i < min k F then gpad (splice off buf s) i else gpad s i)
    \<Longrightarrow> rng_good m (d_rng d)
    \<Longrightarrow> \<exists>d'. write_blocks E (nblk (length s) * PHYS_BLOCK) buf off (off + length buf) [k..<lst + 1] d = (Inr (), d')
      \<and> later d d' \<and> holds E c d' (max (nblk (length s)) (min (lst + 1) F))
          (\<lambda>i. if i < min (lst + 1) F then gpad (splice off buf s) i else gpad s i)"
proof (induction m arbitrary: k d)
  case 0
  have "later d d" unfolding later_def by (intro exI [of _ "handle (d_file d)"] exI [of _ "d_rng d"] exI [of _ "d_fault d"]) simp
  then show ?case using 0 by auto
next
  case (Suc m)
  let ?n = "nblk (length s)" and ?new = "gpad (splice off buf s)"
  let ?g = "\<lambda>k i. if i < min k F then ?new i else gpad s i"
  have kl: "k \<le> lst" using Suc.prems(4) by simp
  have i1: "k * BLOCK_SIZE < off + length buf"
  proof -
    have "k * BLOCK_SIZE \<le> off + length buf - 1" using kl block_pos(2) unfolding l by (simp add: less_eq_div_iff_mult_less_eq)
    then show ?thesis using b by (cases buf) auto
  qed
  have i2: "off < (k + 1) * BLOCK_SIZE"
    using Suc.prems(3) block_pos(2) by (metis div_less_iff_less_mult less_Suc_eq_le Suc_eq_plus1)
  have kd: "k * BLOCK_SIZE < DEV_LIMIT" using i1 lim by linarith
  note S = Suc.prems(1) [unfolded dev_ok_def]
  have w: "write_plain E d (?n * PHYS_BLOCK) buf off (off + length buf) k = Inr (?new k)"
    using S Suc.prems(5) by (intro write_plain_repr [OF _ _ off i1 i2 lim]) auto
  obtain pb q where sb: "seal_block E d k (?new k) = (Inr pb, d\<lparr>d_rng := q\<rparr>)" and lp: "length pb = PHYS_BLOCK"
      and o: "open_block E (d_file d) k pb = Inr (?new k)" and q: "rng_good m q"
    using seal_block_good [OF _ _ length_gpad Suc.prems(6)] S by blast
  let ?d = "d\<lparr>d_rng := q\<rparr>"
  have hd: "holds E c ?d (max ?n (min k F)) (?g k)" "allows ?d (F - k)" "open_block E (d_file ?d) k pb = Inr (?new k)"
    using Suc.prems(2,5) o by (simp_all add: holds_def allows_def)
  have kn: "0 < F - k \<longrightarrow> k \<le> max ?n (min k F)" by simp
  obtain d1 where d1: "phys_write E pb (k * PHYS_BLOCK) ?d = (Inr (), d1)" "later ?d d1" "d_rng d1 = q" "allows d1 (F - k - 1)"
      "if F - k = 0 then holds E c d1 (max ?n (min k F)) (?g k)
       else holds E c d1 (max (max ?n (min k F)) (Suc k)) ((?g k)(k := ?new k))"
    using phys_write_gated [OF _ hd(1,2) kn kd lp hd(3)] S by auto
  have h1: "holds E c d1 (max ?n (min (Suc k) F)) (?g (Suc k))"
  proof (cases "k < F")
    case True
    then have "max (max ?n (min k F)) (Suc k) = max ?n (min (Suc k) F)" "(?g k)(k := ?new k) = ?g (Suc k)"
      by (auto simp: fun_eq_iff)
    then show ?thesis using d1(5) True by simp
  next
    case False
    then have "min k F = F" "min (Suc k) F = F" by auto
    then show ?thesis using d1(5) False by simp
  qed
  have wb: "write_block E (?n * PHYS_BLOCK) buf off (off + length buf) k d = (Inr (), d1)"
    using w sb d1(1) phys_fits(2) [OF kd] by (simp add: write_block_def)
  have dd: "later d d1" using d1(2) by (auto simp: later_def)
  have "\<exists>d'. write_blocks E (?n * PHYS_BLOCK) buf off (off + length buf) [Suc k..<lst + 1] d1 = (Inr (), d')
      \<and> later d1 d' \<and> holds E c d' (max ?n (min (lst + 1) F)) (?g (lst + 1))"
    using h1 Suc.prems(3,4) q d1(3,4) laterD(1) [OF dd, of E c] Suc.prems(1) by (intro Suc.IH) auto
  moreover have "[k..<lst + 1] = k # [Suc k..<lst + 1]" using kl by (simp add: upt_conv_Cons)
  ultimately show ?case using wb later_trans [OF dd] by auto
qed

section \<open>Properties\<close>

definition fresh_dev :: "bytes \<Rightarrow> rng \<Rightarrow> bytes dev" where
  "fresh_dev key r = \<lparr>d_file = \<lparr>handle = replicate HEADER_OFFSET_DATA 0, opaque = [], f_crypto = key, f_file_id = [],
     f_key_domain = [], is_main_db = True, logical_size = Some 0\<rparr>, d_fault = fault_new, d_rng = r\<rparr>"

definition nonce :: bytes where "nonce = replicate 24 7"

definition small_dev :: "bytes dev" where
  "small_dev = fresh_dev (replicate 32 1) [Some nonce, Some nonce]"

lemma small_dev_holds:
  "dev_holds mem_env (\<lambda>h. h) (span 0 (length [1, 2, 3 :: byte]) + 1) small_dev []" (is ?h)
  "0 \<le> length ([] :: bytes)" "0 + length [1, 2, 3 :: byte] \<le> DEV_LIMIT - BLOCK_SIZE" "[1, 2, 3 :: byte] \<noteq> []"
  "page_ok small_dev 0 [1, 2, 3]"
proof -
  have z: "nblk 0 = 0" by (simp add: nblk_def size_defs)
  have s: "span 0 (length [1, 2, 3 :: byte]) + 1 = Suc (Suc 0)" by (simp add: span_def size_defs)
  have "rng_good (Suc (Suc 0)) [Some nonce, Some nonce]"
    by (simp add: draw_nonzero_def nonce_def NONCE_LEN_def)
  then show ?h unfolding s
    by (simp add: z dev_holds_def dev_ok_def alive_def dev_repr_def small_dev_def fresh_dev_def fault_new_def holds_def)
qed (simp_all add: page_ok_def DEV_LIMIT_def BLOCK_SIZE_def)

text \<open>
  C18: A write of \<open>buf\<close> at \<open>off\<close> (not past the end of the file, any alignment, any number of
  blocks) to a device that holds the bytes \<open>s\<close> succeeds and leaves a device that holds \<open>s\<close> with
  \<open>buf\<close> spliced in; every later read, at any offset and of any length, returns those bytes, zero
  past the end of the file, and reports a short read exactly when it runs past the last block.
\<close>
lemma dev_write_refines:
  assumes "dev_holds E c (span off (length buf) + m) d s" and "off \<le> length s"
    and "off + length buf \<le> DEV_LIMIT - BLOCK_SIZE" and "buf \<noteq> []" and "page_ok d off buf"
  shows "\<exists>d'. dev_write E buf off d = (Inr (), d') \<and> dev_holds E c m d' (splice off buf s)
    \<and> (\<forall>zs at. zs \<noteq> [] \<and> at + length zs \<le> DEV_LIMIT \<longrightarrow>
         dev_read E zs at d' = Inr (window (splice off buf s) at (length zs),
           at + length zs \<le> nblk (max (length s) (off + length buf)) * BLOCK_SIZE))"
proof -
  obtain d' where d': "dev_write E buf off d = (Inr (), d')" "dev_holds E c m d' (splice off buf s)"
    using blockdev.writes [OF assms] by blast
  moreover have "dev_read E zs at d' = Inr (window (splice off buf s) at (length zs),
      at + length zs \<le> nblk (max (length s) (off + length buf)) * BLOCK_SIZE)"
    if "zs \<noteq> []" "at + length zs \<le> DEV_LIMIT" for zs at
    using d'(2) dev_read_repr [OF _ _ that(2,1), of E c d' "splice off buf s"] length_splice [OF assms(2)]
    by (simp add: dev_holds_def)
  ultimately show ?thesis by blast
qed

lemma dev_write_refines_witness:
  "\<exists>d'. dev_write mem_env [1, 2, 3] 0 small_dev = (Inr (), d')
    \<and> dev_read mem_env [0, 0, 0, 0] 1 d' = Inr ([2, 3, 0, 0], True)"
proof -
  obtain d' where d': "dev_write mem_env [1, 2, 3] 0 small_dev = (Inr (), d')"
    and r: "\<forall>zs at. zs \<noteq> [] \<and> at + length zs \<le> DEV_LIMIT \<longrightarrow>
      dev_read mem_env zs at d' = Inr (window (splice 0 [1, 2, 3] []) at (length zs),
        at + length zs \<le> nblk (max (length ([] :: bytes)) (0 + length [1, 2, 3 :: byte])) * BLOCK_SIZE)"
    using dev_write_refines [OF small_dev_holds] by blast
  have "dev_read mem_env [0, 0, 0, 0] 1 d' = Inr ([2, 3, 0, 0], True)"
    using r [rule_format, of "[0, 0, 0, 0]" 1]
    by (simp add: DEV_LIMIT_def nblk_def BLOCK_SIZE_def window_def splice_def padf_def upt_rec)
  with d' show ?thesis by blast
qed

text \<open>
  C19: Truncating a device that holds \<open>s\<close> to \<open>n\<close> bytes, on or off a block boundary, leaves a
  device that holds \<open>take n s\<close>: the size is \<open>n\<close>, and the bytes cut from the last kept block
  read as zero, never as their old contents.
\<close>
lemma dev_truncate_refines:
  assumes "dev_holds E c (Suc m) d s" and "n \<le> length s" and "n \<le> DEV_LIMIT - BLOCK_SIZE"
  shows "\<exists>d'. dev_truncate E n d = (Inr (), d') \<and> dev_holds E c m d' (take n s) \<and> dev_size E d' = (Inr n, d')
    \<and> (\<forall>zs at. zs \<noteq> [] \<and> at + length zs \<le> DEV_LIMIT \<longrightarrow>
         dev_read E zs at d' = Inr (window (take n s) at (length zs), at + length zs \<le> nblk n * BLOCK_SIZE))"
proof -
  obtain d' where d': "dev_truncate E n d = (Inr (), d')" "dev_holds E c m d' (take n s)"
    using blockdev.cuts [OF assms] by blast
  moreover have "dev_read E zs at d' = Inr (window (take n s) at (length zs), at + length zs \<le> nblk n * BLOCK_SIZE)"
    if "zs \<noteq> []" "at + length zs \<le> DEV_LIMIT" for zs at
    using d'(2) dev_read_repr [OF _ _ that(2,1), of E c d' "take n s"] assms(2) by (simp add: dev_holds_def min_absorb2)
  moreover have "dev_size E d' = (Inr n, d')" using blockdev.lens [OF d'(2)] assms(2) by simp
  ultimately show ?thesis by blast
qed

lemma dev_truncate_refines_witness:
  "\<exists>d d'. dev_size mem_env d = (Inr 3, d) \<and> dev_truncate mem_env 1 d = (Inr (), d') \<and> dev_size mem_env d' = (Inr 1, d')
    \<and> dev_read mem_env [9, 9] 0 d' = Inr ([1, 0], True)"
proof -
  obtain d where d: "dev_holds mem_env (\<lambda>h. h) 1 d [1, 2, 3]"
    using blockdev.writes [OF small_dev_holds] by (auto simp: splice_def)
  from dev_truncate_refines [of mem_env "\<lambda>h. h" 0 d "[1, 2, 3]" 1] d [unfolded One_nat_def] obtain d' where
    d': "dev_truncate mem_env 1 d = (Inr (), d')" "dev_size mem_env d' = (Inr 1, d')"
    and r: "\<forall>zs at. zs \<noteq> [] \<and> at + length zs \<le> DEV_LIMIT \<longrightarrow>
         dev_read mem_env zs at d' = Inr (window [1] at (length zs), at + length zs \<le> nblk 1 * BLOCK_SIZE)"
    by (auto simp: DEV_LIMIT_def BLOCK_SIZE_def)
  moreover have "dev_read mem_env [9, 9] 0 d' = Inr ([1, 0], True)"
    using r [rule_format, of "[9, 9]" 0]
    by (simp add: DEV_LIMIT_def nblk_def BLOCK_SIZE_def window_def padf_def upt_rec)
  moreover have "dev_size mem_env d = (Inr 3, d)" using blockdev.lens [OF d] by simp
  ultimately show ?thesis by blast
qed

text \<open>
  C20: When the disk dies after \<open>j\<close> more physical operations, a write reports success (as the gate
  documents), and each block of the file is then wholly the new block or wholly the old one:
  the first \<open>j\<close> blocks of the range are written, all others keep their contents, and every one
  of them still authenticates.
\<close>
lemma dev_write_torn:
  assumes "dev_ok E c d" and "allows d j" and "dev_repr E c d s" and "off \<le> length s"
    and "off + length buf \<le> DEV_LIMIT" and "buf \<noteq> []" and "page_ok d off buf"
    and "rng_good (span off (length buf)) (d_rng d)"
    and "F = min (off div BLOCK_SIZE + j) ((off + length buf - 1) div BLOCK_SIZE + 1)"
  shows "\<exists>d'. dev_write E buf off d = (Inr (), d')
    \<and> holds E c d' (max (nblk (length s)) F) (\<lambda>i. if i < F then gpad (splice off buf s) i else gpad s i)"
proof -
  let ?n = "nblk (length s)" and ?lst = "(off + length buf - 1) div BLOCK_SIZE" and ?first = "off div BLOCK_SIZE"
  let ?F = "?first + j"
  have le: "?first \<le> ?lst" using assms(6) by (intro div_le_mono) (cases buf; simp)
  have fl: "?first + span off (length buf) = ?lst + 1" using le by (simp add: span_def)
  have fn: "?first \<le> ?n"
  proof -
    have "off \<le> length s + BLOCK_SIZE - 1" using assms(4) block_pos(2) by linarith
    then show ?thesis unfolding nblk_def by (rule div_le_mono)
  qed
  have other: "gpad (splice off buf s) i = gpad s i" if "i < ?first" for i
  proof -
    have "(i + 1) * BLOCK_SIZE \<le> off"
      using that block_pos(2) by (metis Suc_eq_plus1 Suc_leI less_eq_div_iff_mult_less_eq)
    then show ?thesis by (simp add: gpad_splice_other [OF assms(4)])
  qed
  have "holds E c d ?n (gpad s)" using assms(3) by (simp add: dev_repr_def)
  then have h0: "holds E c d (max ?n (min ?first ?F)) (\<lambda>i. if i < min ?first ?F then gpad (splice off buf s) i else gpad s i)"
    using fn other by (auto simp: max_absorb1 intro: holds_cong)
  have al: "allows d (?F - ?first)" using assms(2) by simp
  obtain d' where w: "write_blocks E (?n * PHYS_BLOCK) buf off (off + length buf) [?first..<?lst + 1] d = (Inr (), d')"
      and lt: "later d d'"
      and h': "holds E c d' (max ?n (min (?lst + 1) ?F)) (\<lambda>i. if i < min (?lst + 1) ?F then gpad (splice off buf s) i else gpad s i)"
    using write_blocks_torn [OF assms(4,5,6) refl le_add1 assms(1) al order_refl fl h0 assms(8)] by blast
  have F: "min (?lst + 1) ?F = F" using assms(9) by (simp add: min.commute)
  have ps: "phys_size E d = Inr (?n * PHYS_BLOCK)"
    using assms(1,3) phys_size_holds unfolding dev_ok_def dev_repr_def by blast
  have "dev_write E buf off d = (Inr (), set_logical (max (length s) (off + length buf)) d')"
    using w ps assms(3,6,7) dev_limit_usize [OF assms(5)] laterD(2) [OF lt]
    by (simp add: dev_write_def dev_repr_def page_ok_def Let_def)
  then show ?thesis using h' [unfolded F] by simp
qed

lemma dev_write_torn_witness:
  "\<exists>d'. dev_write mem_env [1, 2, 3] 0 (small_dev\<lparr>d_fault := arm 0 fault_new\<rparr>) = (Inr (), d') \<and> holds mem_env (\<lambda>h. h) d' 0 (gpad [])"
proof -
  let ?d = "small_dev\<lparr>d_fault := arm 0 fault_new\<rparr>"
  have z: "nblk 0 = 0" by (simp add: nblk_def size_defs)
  have f: "0 = min (0 div BLOCK_SIZE + 0) ((0 + length [1, 2, 3 :: byte] - 1) div BLOCK_SIZE + 1)" by simp
  have h: "dev_ok mem_env (\<lambda>h. h) ?d" "dev_repr mem_env (\<lambda>h. h) ?d []"
    "rng_good (span 0 (length [1, 2, 3 :: byte])) (d_rng ?d)" "allows ?d 0" "page_ok ?d 0 [1, 2, 3]"
    using small_dev_holds(1,5) by (auto simp: dev_holds_def dev_ok_def dev_repr_def z holds_def allows_def arm_def page_ok_def
        intro: rng_good_Suc)
  show ?thesis
    using dev_write_torn [OF h(1,4,2) small_dev_holds(2) _ small_dev_holds(4) h(5,3) f]
    by (simp add: DEV_LIMIT_def z)
qed

text \<open>
  C21: A read that returns has authenticated every block it touched that exists: if one of them
  does not open under the file's key, identifier and domain and its own index, the read fails
  and returns no byte, whatever the storage answers for the others.
\<close>
lemma dev_read_authentic:
  assumes "dev_read E buf off d = Inr (out, full)" and "phys_size E d = Inr phys"
    and "buf \<noteq> []" and "off div BLOCK_SIZE \<le> k" and "k \<le> (off + length buf - 1) div BLOCK_SIZE"
    and "usize_add (k * PHYS_BLOCK) PHYS_BLOCK \<le> phys"
    and "phys_read E d PHYS_BLOCK (k * PHYS_BLOCK) = Inr pb" and "PHYS_BLOCK \<le> length pb"
  shows "\<exists>plain. open_block E (d_file d) k pb = Inr plain"
proof -
  have *: "read_blocks E d phys s e ks st = Inr r \<Longrightarrow> k \<in> set ks \<Longrightarrow> is_ok (open_block E (d_file d) k pb)" for s e ks st r
  proof (induction ks arbitrary: st)
    case (Cons i ks)
    from Cons.prems obtain st' where st': "read_block E d phys s e i st = Inr st'" "read_blocks E d phys s e ks st' = Inr r"
      by (auto simp: result_simps)
    show ?case
    proof (cases "i = k")
      case True
      then show ?thesis using st'(1) assms(6,7,8)
        by (auto simp: read_block_def Let_def is_ok_iff result_simps split: if_splits prod.splits)
    next
      case False
      then show ?thesis using Cons.IH [OF st'(2)] Cons.prems(2) by simp
    qed
  qed simp
  obtain r where r: "read_blocks E d phys off (off + length buf) [off div BLOCK_SIZE..<(off + length buf - 1) div BLOCK_SIZE + 1] (buf, False) = Inr r"
    using assms(1,2,3) by (auto simp: dev_read_def Let_def result_simps split: if_splits prod.splits)
  have "k \<in> set [off div BLOCK_SIZE..<(off + length buf - 1) div BLOCK_SIZE + 1]"
    unfolding set_upt atLeastLessThan_iff using assms(4,5) by (intro conjI; linarith)
  from * [OF r this] show ?thesis by (simp add: is_ok_iff)
qed

lemma dev_read_authentic_witness:
  "\<exists>d' pb plain. phys_read mem_env d' PHYS_BLOCK (0 * PHYS_BLOCK) = Inr pb \<and> open_block mem_env (d_file d') 0 pb = Inr plain"
proof -
  obtain d' where h: "dev_holds mem_env (\<lambda>h. h) 1 d' [1, 2, 3]"
    using blockdev.writes [OF small_dev_holds] by (auto simp: splice_def)
  then have E: "dev_ok mem_env (\<lambda>h. h) d'" and r: "dev_repr mem_env (\<lambda>h. h) d' [1, 2, 3]" by (simp_all add: dev_holds_def)
  have n: "nblk (length [1, 2, 3 :: byte]) = 1" by (simp add: nblk_def BLOCK_SIZE_def)
  have S: "sah_ok mem_env (\<lambda>h. h)" and hh: "holds mem_env (\<lambda>h. h) d' 1 (gpad [1, 2, 3])"
    using r unfolding dev_repr_def n by simp_all
  obtain pb where pb: "phys_read mem_env d' PHYS_BLOCK (0 * PHYS_BLOCK) = Inr pb" "length pb = PHYS_BLOCK"
    using phys_read_holds [OF S hh, of 0] by (auto simp: DEV_LIMIT_def)
  have rd: "dev_read mem_env [0] 0 d' = Inr (window [1, 2, 3] 0 (length [0 :: byte]), 0 + length [0 :: byte] \<le> nblk (length [1, 2, 3 :: byte]) * BLOCK_SIZE)"
    by (rule dev_read_repr [OF E r]) (simp_all add: DEV_LIMIT_def)
  have "\<exists>plain. open_block mem_env (d_file d') 0 pb = Inr plain"
    by (rule dev_read_authentic [OF rd phys_size_holds [OF S hh] _ _ _ _ pb(1)])
      (use pb(2) in \<open>simp_all add: usize_add_def size_defs\<close>)
  with pb(1) show ?thesis by blast
qed

text \<open>
  The device refuses, with nothing written: the first page of a main database whose header
  declares another page size than the block (0 bytes encode 65536 as 1), and any read or write
  whose end does not fit in 32 bits; an empty read or write always succeeds.
\<close>
lemma dev_refusals:
  assumes "phys_size E d = Inr phys"
  shows "(is_main_db (d_file d) \<and> 18 \<le> length buf \<and> starts_with buf SQLITE_HEADER \<and> header_page_size buf \<noteq> 4096
      \<longrightarrow> dev_write E buf 0 d = (Inl (EPageSize (header_page_size buf)), d))
    \<and> (buf \<noteq> [] \<and> 2 ^ 32 \<le> off + length buf \<and> 0 < off
      \<longrightarrow> dev_write E buf off d = (Inl EOffsetOverflow, d) \<and> dev_read E buf off d = Inl EOffsetOverflow)
    \<and> dev_write E [] off d = (Inr (), d) \<and> dev_read E [] off d = Inr ([], True)"
  using assms by (auto simp: dev_write_def dev_read_def Let_def BLOCK_SIZE_def USIZE_MAX_32_def)

lemma dev_refusals_witness:
  "dev_write mem_env (SQLITE_HEADER @ [4, 0]) 0 small_dev = (Inl (EPageSize 1024), small_dev)"
proof -
  have "phys_size mem_env small_dev = Inr 0"
    by (simp add: phys_size_def small_dev_def fresh_dev_def mem_env_def prims.extend_def)
  from dev_refusals [OF this, of "SQLITE_HEADER @ [4, 0]"] show ?thesis
    by (simp add: small_dev_def fresh_dev_def header_page_size_def SQLITE_HEADER_def slice_def be_nat_def starts_with_def)
qed

end
