(* ===== verification/Manifest.thy ===== *)
theory Manifest
  imports Crypto_Core Codec
begin

text \<open>
  \<open>crates/freehold/src/manifest.rs\<close>: the payload of the per-database manifest and of the
  freshness anchor, as blocks of \<open>BLOCK_SIZE\<close> bytes, with their decoders.
\<close>

section \<open>The manifest payload\<close>

definition MANIFEST_MAGIC :: bytes where "MANIFEST_MAGIC = ascii ''ENCMFST1''"
definition ANCHOR_MAGIC :: bytes where "ANCHOR_MAGIC = ascii ''ENCANCH2''"
definition MANIFEST_VERSION :: nat where "MANIFEST_VERSION = 2"
definition MANIFEST_HDR_LEN :: nat where "MANIFEST_HDR_LEN = 64"
definition PREV_ROOT_OFFSET :: nat where "PREV_ROOT_OFFSET = BLOCK_SIZE - 32"

definition TABLE_STRIDE :: nat where "TABLE_STRIDE = FILE_ID_LEN + 8"

record manifest_payload =
  db_generation :: u64
  db_uuid :: bytes
  merkle_root :: bytes
  prev_merkle_root :: bytes
  mp_files :: "(bytes \<times> u64) list"

datatype manifest_error =
    WrongSize | WrongVersion nat | WrongCipher byte | WrongBlockSize nat
  | TableTooLarge | TableOverrun

definition file_entry :: "bytes \<times> u64 \<Rightarrow> bytes" where
  "file_entry e = fst e @ u64_le (snd e)"

text \<open>
  The loop that writes the length table. A slice that leaves the block aborts the program,
  which is \<open>None\<close> here.
\<close>

fun write_table :: "nat \<Rightarrow> (bytes \<times> u64) list \<Rightarrow> bytes \<Rightarrow> bytes option" where
  "write_table at [] b = Some b"
| "write_table at (e # es) b =
     (if at + TABLE_STRIDE > length b then None
      else write_table (at + TABLE_STRIDE) es (put_at at (file_entry e) b))"

definition mp_header :: "manifest_payload \<Rightarrow> bytes" where
  "mp_header p =
     (let b0 = replicate BLOCK_SIZE 0;
          b1 = put_at 0 (nat_le 2 MANIFEST_VERSION) b0;
          b2 = put_at 2 [CIPHER_ID] b1;
          b3 = put_at 4 (nat_le 4 BLOCK_SIZE) b2;
          b4 = put_at 8 (u64_le (db_generation p)) b3;
          b5 = put_at 16 (db_uuid p) b4;
          b6 = put_at 32 (merkle_root p) b5;
          b7 = put_at PREV_ROOT_OFFSET (prev_merkle_root p) b6
      in put_at 64 (nat_le 4 (length (mp_files p))) b7)"

definition mp_encode :: "manifest_payload \<Rightarrow> bytes option" where
  "mp_encode p = write_table 68 (mp_files p) (mp_header p)"

definition read_entry :: "bytes \<Rightarrow> bytes \<times> u64" where
  "read_entry s = (take FILE_ID_LEN s, le_u64 (drop FILE_ID_LEN s))"

definition MAX_ENTRIES :: nat where
  "MAX_ENTRIES = (PREV_ROOT_OFFSET - 68) div TABLE_STRIDE"

definition mp_decode :: "bytes \<Rightarrow> manifest_error + manifest_payload" where
  "mp_decode b =
     (if length b \<noteq> BLOCK_SIZE then Inl WrongSize
      else let version = le_nat (slice 0 2 b) in
      if version \<noteq> MANIFEST_VERSION then Inl (WrongVersion version)
      else if b ! 2 \<noteq> CIPHER_ID then Inl (WrongCipher (b ! 2))
      else let bs = le_nat (slice 4 4 b) in
      if bs \<noteq> BLOCK_SIZE then Inl (WrongBlockSize bs)
      else let n = le_nat (slice 64 4 b) in
      if n > MAX_ENTRIES then Inl TableTooLarge
      else if 68 + n * TABLE_STRIDE > PREV_ROOT_OFFSET then Inl TableOverrun
      else Inr \<lparr>db_generation = le_u64 (slice 8 8 b),
                db_uuid = slice 16 16 b,
                merkle_root = slice 32 32 b,
                prev_merkle_root = slice PREV_ROOT_OFFSET 32 b,
                mp_files = read_table 68 TABLE_STRIDE read_entry n b\<rparr>)"

section \<open>The anchor\<close>

record anchor_entry =
  uuid :: bytes
  committed :: u64
  in_flight :: u64
  epoch_floor :: u64

definition ANCHOR_ENTRY_SIZE :: nat where "ANCHOR_ENTRY_SIZE = 40"
definition ANCHOR_CAP :: nat where "ANCHOR_CAP = (BLOCK_SIZE - 20) div ANCHOR_ENTRY_SIZE"

definition anchor_entry_bytes :: "anchor_entry \<Rightarrow> bytes" where
  "anchor_entry_bytes e =
     uuid e @ u64_le (committed e) @ u64_le (in_flight e) @ u64_le (epoch_floor e)"

fun write_entries :: "nat \<Rightarrow> anchor_entry list \<Rightarrow> bytes \<Rightarrow> bytes" where
  "write_entries at [] b = b"
| "write_entries at (e # es) b =
     write_entries (at + ANCHOR_ENTRY_SIZE) es (put_at at (anchor_entry_bytes e) b)"

definition encode_anchor :: "u64 \<Rightarrow> anchor_entry list \<Rightarrow> bytes" where
  "encode_anchor seq entries =
     (let b0 = replicate BLOCK_SIZE 0;
          b1 = put_at 0 ANCHOR_MAGIC b0;
          b2 = put_at 8 (u64_le seq) b1;
          n = min (length entries) ANCHOR_CAP;
          b3 = put_at 16 (nat_le 4 n) b2
      in write_entries 20 (take n entries) b3)"

definition read_anchor_entry :: "bytes \<Rightarrow> anchor_entry" where
  "read_anchor_entry s =
     \<lparr>uuid = slice 0 16 s, committed = le_u64 (slice 16 8 s),
      in_flight = le_u64 (slice 24 8 s), epoch_floor = le_u64 (slice 32 8 s)\<rparr>"

definition decode_anchor :: "bytes \<Rightarrow> (u64 \<times> anchor_entry list) option" where
  "decode_anchor b =
     (if length b \<noteq> BLOCK_SIZE \<or> slice 0 8 b \<noteq> ANCHOR_MAGIC then None
      else let seq = le_u64 (slice 8 8 b);
               n = min (le_nat (slice 16 4 b)) ANCHOR_CAP
           in Some (seq, read_table 20 ANCHOR_ENTRY_SIZE read_anchor_entry n b))"

section \<open>Well-formed values\<close>

definition payload_wf :: "manifest_payload \<Rightarrow> bool" where
  "payload_wf p \<longleftrightarrow> length (db_uuid p) = 16 \<and> length (merkle_root p) = 32
     \<and> length (prev_merkle_root p) = 32 \<and> length (mp_files p) \<le> MAX_ENTRIES
     \<and> list_all (\<lambda>e. length (fst e) = FILE_ID_LEN) (mp_files p)"

definition entry_wf :: "anchor_entry \<Rightarrow> bool" where
  "entry_wf e \<longleftrightarrow> length (uuid e) = 16"

definition anchor_wf :: "u64 \<times> anchor_entry list \<Rightarrow> bool" where
  "anchor_wf a \<longleftrightarrow> length (snd a) \<le> ANCHOR_CAP \<and> list_all entry_wf (snd a)"

lemmas manifest_sizes = BLOCK_SIZE_def FILE_ID_LEN_def PREV_ROOT_OFFSET_def TABLE_STRIDE_def
  MAX_ENTRIES_def ANCHOR_ENTRY_SIZE_def ANCHOR_CAP_def

section \<open>Round trips\<close>

lemma length_file_entry: "length (fst e) = FILE_ID_LEN \<Longrightarrow> length (file_entry e) = TABLE_STRIDE"
  by (simp add: file_entry_def TABLE_STRIDE_def)

lemma read_file_entry: "length (fst e) = FILE_ID_LEN \<Longrightarrow> read_entry (file_entry e) = e"
  by (simp add: file_entry_def read_entry_def)

lemma length_anchor_entry_bytes:
  "entry_wf e \<Longrightarrow> length (anchor_entry_bytes e) = ANCHOR_ENTRY_SIZE"
  by (simp add: entry_wf_def anchor_entry_bytes_def ANCHOR_ENTRY_SIZE_def)

lemma read_anchor_entry_bytes: "entry_wf e \<Longrightarrow> read_anchor_entry (anchor_entry_bytes e) = e"
  by (simp add: entry_wf_def anchor_entry_bytes_def read_anchor_entry_def slice_append_right
      slice_prefix)

lemma write_table_eq:
  "list_all (\<lambda>e. length (fst e) = FILE_ID_LEN) es \<Longrightarrow> at + TABLE_STRIDE * length es \<le> length b \<Longrightarrow>
   write_table at es b = Some (put_at at (concat (map file_entry es)) b)"
proof (induction es arbitrary: at b)
  case Nil
  then show ?case by (simp add: put_at_def)
next
  case (Cons e es)
  have le: "length (file_entry e) = TABLE_STRIDE"
    using Cons.prems(1) by (simp add: length_file_entry)
  have "list_all (\<lambda>e. length (fst e) = FILE_ID_LEN) es" using Cons.prems(1) by simp
  then have lc: "length (concat (map file_entry es)) = TABLE_STRIDE * length es"
    by (intro length_concat_const length_file_entry) (auto simp: list_all_iff)
  have "write_table at (e # es) b
      = write_table (at + TABLE_STRIDE) es (put_at at (file_entry e) b)"
    using Cons.prems(2) by simp
  also have "\<dots> = Some (put_at (at + TABLE_STRIDE) (concat (map file_entry es))
                        (put_at at (file_entry e) b))"
    using Cons.prems le by (intro Cons.IH) (auto simp: add.assoc)
  also have "\<dots> = Some (put_at at (concat (map file_entry (e # es))) b)"
    using put_at_put_at_append [of at "file_entry e" "concat (map file_entry es)" b]
      Cons.prems(2) le lc by (simp add: add.assoc)
  finally show ?case .
qed

lemma write_entries_eq:
  "list_all entry_wf es \<Longrightarrow> at + ANCHOR_ENTRY_SIZE * length es \<le> length b \<Longrightarrow>
   write_entries at es b = put_at at (concat (map anchor_entry_bytes es)) b"
proof (induction es arbitrary: at b)
  case Nil
  then show ?case by (simp add: put_at_def)
next
  case (Cons e es)
  have le: "length (anchor_entry_bytes e) = ANCHOR_ENTRY_SIZE"
    using Cons.prems(1) by (simp add: length_anchor_entry_bytes)
  have "list_all entry_wf es" using Cons.prems(1) by simp
  then have lc: "length (concat (map anchor_entry_bytes es)) = ANCHOR_ENTRY_SIZE * length es"
    by (intro length_concat_const length_anchor_entry_bytes) (auto simp: list_all_iff)
  have "write_entries at (e # es) b = put_at (at + ANCHOR_ENTRY_SIZE)
      (concat (map anchor_entry_bytes es)) (put_at at (anchor_entry_bytes e) b)"
    using Cons.prems le by (simp add: Cons.IH add.assoc)
  also have "\<dots> = put_at at (concat (map anchor_entry_bytes (e # es))) b"
    using put_at_put_at_append [of at "anchor_entry_bytes e" "concat (map anchor_entry_bytes es)" b]
      Cons.prems(2) le lc by (simp add: add.assoc)
  finally show ?case .
qed

text \<open>The fields of the header block, each at its offset, and the bound on the table.\<close>

lemma table_capacity: "n \<le> MAX_ENTRIES \<longleftrightarrow> 68 + n * TABLE_STRIDE \<le> PREV_ROOT_OFFSET"
  by (simp add: manifest_sizes) arith

lemma length_mp_header [len_simps]:
  "payload_wf p \<Longrightarrow> length (mp_header p) = BLOCK_SIZE"
  by (simp add: mp_header_def payload_wf_def Let_def manifest_sizes)

lemma mp_header_fields:
  assumes "payload_wf p"
  shows "slice 0 2 (mp_header p) = nat_le 2 MANIFEST_VERSION"
    and "slice 2 1 (mp_header p) = [CIPHER_ID]"
    and "slice 4 4 (mp_header p) = nat_le 4 BLOCK_SIZE"
    and "slice 8 8 (mp_header p) = u64_le (db_generation p)"
    and "slice 16 16 (mp_header p) = db_uuid p"
    and "slice 32 32 (mp_header p) = merkle_root p"
    and "slice 64 4 (mp_header p) = nat_le 4 (length (mp_files p))"
    and "slice PREV_ROOT_OFFSET 32 (mp_header p) = prev_merkle_root p"
  using assms
  by (simp_all add: mp_header_def payload_wf_def Let_def manifest_sizes slice_put_at_same
      slice_put_at_before slice_put_at_after)

definition mp_bytes :: "manifest_payload \<Rightarrow> bytes" where
  "mp_bytes p = put_at 68 (concat (map file_entry (mp_files p))) (mp_header p)"

lemma mp_encode_eq: "payload_wf p \<Longrightarrow> mp_encode p = Some (mp_bytes p)"
  unfolding mp_encode_def mp_bytes_def
  by (rule write_table_eq)
    (auto simp: payload_wf_def length_mp_header table_capacity manifest_sizes)

lemma table_length:
  "payload_wf p \<Longrightarrow> length (concat (map file_entry (mp_files p))) = TABLE_STRIDE * length (mp_files p)"
  by (rule length_concat_const) (auto simp: payload_wf_def list_all_iff length_file_entry)

lemma mp_bytes_slices:
  assumes wf: "payload_wf p"
  shows "length (mp_bytes p) = BLOCK_SIZE"
    and "at + n \<le> 68 \<Longrightarrow> slice at n (mp_bytes p) = slice at n (mp_header p)"
    and "slice PREV_ROOT_OFFSET 32 (mp_bytes p) = prev_merkle_root p"
proof -
  have n: "68 + length (mp_files p) * TABLE_STRIDE \<le> PREV_ROOT_OFFSET"
    using wf by (simp add: payload_wf_def table_capacity)
  have b: "68 + length (concat (map file_entry (mp_files p))) \<le> PREV_ROOT_OFFSET"
    using n table_length [OF wf] by (simp add: mult.commute)
  then have b': "68 + length (concat (map file_entry (mp_files p))) \<le> length (mp_header p)"
    using wf by (simp add: length_mp_header PREV_ROOT_OFFSET_def BLOCK_SIZE_def)
  show "length (mp_bytes p) = BLOCK_SIZE"
    using b' wf by (simp add: mp_bytes_def length_mp_header)
  show "slice at n (mp_bytes p) = slice at n (mp_header p)" if "at + n \<le> 68"
    using that b' by (simp add: mp_bytes_def slice_put_at_before)
  show "slice PREV_ROOT_OFFSET 32 (mp_bytes p) = prev_merkle_root p"
    using b b' wf mp_header_fields(8) [OF wf]
    by (simp add: mp_bytes_def slice_put_at_after length_mp_header PREV_ROOT_OFFSET_def BLOCK_SIZE_def)
qed

lemma nth_eq_slice: "i < length b \<Longrightarrow> slice i 1 b = [b ! i]"
  by (simp add: slice_def take_Suc_conv_app_nth hd_drop_conv_nth)

lemma mp_bytes_table:
  assumes wf: "payload_wf p"
  shows "read_table 68 TABLE_STRIDE read_entry (length (mp_files p)) (mp_bytes p) = mp_files p"
  unfolding mp_bytes_def
proof (rule read_table_put_at)
  fix e assume "e \<in> set (mp_files p)"
  then have "length (fst e) = FILE_ID_LEN" using wf by (auto simp: payload_wf_def list_all_iff)
  then show "length (file_entry e) = TABLE_STRIDE" and "read_entry (file_entry e) = e"
    by (simp_all add: length_file_entry read_file_entry)
next
  show "68 + TABLE_STRIDE * length (mp_files p) \<le> length (mp_header p)"
    using wf by (simp add: payload_wf_def length_mp_header table_capacity manifest_sizes)
qed

lemma mp_decode_bytes:
  assumes wf: "payload_wf p"
  shows "mp_decode (mp_bytes p) = Inr p"
proof -
  note f = mp_header_fields [OF wf] and m = mp_bytes_slices [OF wf]
  have c: "mp_bytes p ! 2 = CIPHER_ID"
    using m(1) m(2) [of 2 1] f(2) nth_eq_slice [of 2 "mp_bytes p"] by (simp add: BLOCK_SIZE_def)
  have cap: "length (mp_files p) \<le> MAX_ENTRIES" using wf by (simp add: payload_wf_def)
  then have small: "length (mp_files p) < 256 ^ 4"
    by (simp add: manifest_sizes)
  have fit: "68 + length (mp_files p) * TABLE_STRIDE \<le> PREV_ROOT_OFFSET"
    using cap by (simp add: table_capacity)
  show ?thesis
    using m f c cap small fit mp_bytes_table [OF wf]
    by (simp add: mp_decode_def Let_def MANIFEST_VERSION_def BLOCK_SIZE_def)
qed

definition mp_decode_opt :: "bytes \<Rightarrow> manifest_payload option" where
  "mp_decode_opt b = (case mp_decode b of Inl e \<Rightarrow> None | Inr p \<Rightarrow> Some p)"

interpretation manifest: codec mp_bytes mp_decode_opt payload_wf
  by unfold_locales (simp add: mp_decode_opt_def mp_decode_bytes)

lemma mp_decode_wf:
  assumes "mp_decode b = Inr p"
  shows "payload_wf p \<and> length b = BLOCK_SIZE"
proof -
  have l: "length b = BLOCK_SIZE" and n: "le_nat (slice 64 4 b) \<le> MAX_ENTRIES"
    and p: "p = \<lparr>db_generation = le_u64 (slice 8 8 b), db_uuid = slice 16 16 b,
        merkle_root = slice 32 32 b, prev_merkle_root = slice PREV_ROOT_OFFSET 32 b,
        mp_files = read_table 68 TABLE_STRIDE read_entry (le_nat (slice 64 4 b)) b\<rparr>"
    using assms by (auto simp: mp_decode_def Let_def split: if_splits)
  have "length (fst e) = FILE_ID_LEN" if "e \<in> set (mp_files p)" for e
  proof -
    from that p obtain i where i: "i < le_nat (slice 64 4 b)"
      and e: "e = read_entry (slice (68 + i * TABLE_STRIDE) TABLE_STRIDE b)"
      by (auto simp: read_table_def)
    have "68 + i * TABLE_STRIDE + TABLE_STRIDE \<le> length b"
      using i n l by (simp add: manifest_sizes)
    with e show ?thesis by (simp add: read_entry_def TABLE_STRIDE_def FILE_ID_LEN_def)
  qed
  with l n p show ?thesis
    by (simp add: payload_wf_def list_all_iff BLOCK_SIZE_def PREV_ROOT_OFFSET_def)
qed

text \<open>The anchor block.\<close>

definition anchor_header :: "u64 \<Rightarrow> nat \<Rightarrow> bytes" where
  "anchor_header seq n =
     put_at 16 (nat_le 4 n) (put_at 8 (u64_le seq) (put_at 0 ANCHOR_MAGIC (replicate BLOCK_SIZE 0)))"

lemma anchor_header_fields:
  shows "length (anchor_header seq n) = BLOCK_SIZE"
    and "slice 0 8 (anchor_header seq n) = ANCHOR_MAGIC"
    and "slice 8 8 (anchor_header seq n) = u64_le seq"
    and "slice 16 4 (anchor_header seq n) = nat_le 4 n"
  by (simp_all add: anchor_header_def ANCHOR_MAGIC_def BLOCK_SIZE_def slice_put_at_same
      slice_put_at_before slice_put_at_after)

lemma encode_anchor_eq:
  assumes "anchor_wf (seq, es)"
  shows "encode_anchor seq es
    = put_at 20 (concat (map anchor_entry_bytes es)) (anchor_header seq (length es))"
proof -
  have "length es \<le> ANCHOR_CAP" using assms by (simp add: anchor_wf_def)
  then show ?thesis
    using assms write_entries_eq [of es 20 "anchor_header seq (length es)"]
    by (simp add: encode_anchor_def Let_def min_def anchor_wf_def anchor_header_fields(1)
        flip: anchor_header_def) (simp add: manifest_sizes)
qed

lemma decode_encode_anchor:
  assumes wf: "anchor_wf (seq, es)"
  shows "decode_anchor (encode_anchor seq es) = Some (seq, es)"
proof -
  let ?h = "anchor_header seq (length es)" and ?t = "concat (map anchor_entry_bytes es)"
  have cap: "length es \<le> ANCHOR_CAP" and ew: "\<And>e. e \<in> set es \<Longrightarrow> entry_wf e"
    using wf by (auto simp: anchor_wf_def list_all_iff)
  have lt: "length ?t = ANCHOR_ENTRY_SIZE * length es"
    using ew by (intro length_concat_const length_anchor_entry_bytes)
  then have fit: "20 + length ?t \<le> length ?h"
    using cap by (simp add: anchor_header_fields(1) manifest_sizes)
  have "read_table 20 ANCHOR_ENTRY_SIZE read_anchor_entry (length es) (put_at 20 ?t ?h) = es"
    using ew fit lt
    by (intro read_table_put_at) (simp_all add: length_anchor_entry_bytes read_anchor_entry_bytes)
  moreover have "min (le_nat (nat_le 4 (length es))) ANCHOR_CAP = length es"
    using cap by (simp add: manifest_sizes)
  ultimately show ?thesis
    using fit by (simp add: encode_anchor_eq [OF wf] decode_anchor_def Let_def
        slice_put_at_before anchor_header_fields)
qed

interpretation anchor_block:
  codec "\<lambda>a. encode_anchor (fst a) (snd a)" decode_anchor anchor_wf
  by unfold_locales (auto simp: decode_encode_anchor)

lemma decode_anchor_wf:
  assumes "decode_anchor b = Some a"
  shows "anchor_wf a"
proof -
  have l: "length b = BLOCK_SIZE"
    and a: "snd a = read_table 20 ANCHOR_ENTRY_SIZE read_anchor_entry
              (min (le_nat (slice 16 4 b)) ANCHOR_CAP) b"
    using assms by (auto simp: decode_anchor_def Let_def split: if_splits)
  have "entry_wf e" if "e \<in> set (snd a)" for e
  proof -
    from that a obtain i where i: "i < ANCHOR_CAP"
      and e: "e = read_anchor_entry (slice (20 + i * ANCHOR_ENTRY_SIZE) ANCHOR_ENTRY_SIZE b)"
      by (auto simp: read_table_def)
    have "20 + i * ANCHOR_ENTRY_SIZE + ANCHOR_ENTRY_SIZE \<le> length b"
      using i l by (simp add: manifest_sizes)
    with e show ?thesis
      by (simp add: entry_wf_def read_anchor_entry_def ANCHOR_ENTRY_SIZE_def)
  qed
  with a show ?thesis by (simp add: anchor_wf_def list_all_iff)
qed

section \<open>Properties\<close>

text \<open>a well-formed manifest payload (at most 166 files, field widths kept) and a well-formed
  anchor table (at most 101 entries) encode to exactly one block each, without overrunning it,
  and decode back unchanged; what either decoder accepts is well-formed.\<close>

theorem sealed_tables_roundtrip:
  assumes "payload_wf p" and "anchor_wf (seq, es)"
  shows "\<exists>b. mp_encode p = Some b \<and> length b = BLOCK_SIZE \<and> mp_decode b = Inr p
    \<and> length (encode_anchor seq es) = BLOCK_SIZE \<and> decode_anchor (encode_anchor seq es) = Some (seq, es)
    \<and> (\<forall>c q. mp_decode c = Inr q \<longrightarrow> payload_wf q) \<and> (\<forall>c a. decode_anchor c = Some a \<longrightarrow> anchor_wf a)"
proof -
  have "20 + length (concat (map anchor_entry_bytes es)) \<le> BLOCK_SIZE"
  proof -
    have "length (concat (map anchor_entry_bytes es)) = ANCHOR_ENTRY_SIZE * length es"
      using assms(2) by (intro length_concat_const length_anchor_entry_bytes) (auto simp: anchor_wf_def list_all_iff)
    then show ?thesis using assms(2) by (simp add: anchor_wf_def manifest_sizes)
  qed
  then have "length (encode_anchor seq es) = BLOCK_SIZE"
    by (simp add: encode_anchor_eq [OF assms(2)] anchor_header_fields(1))
  then show ?thesis
    using mp_encode_eq [OF assms(1)] mp_bytes_slices(1) [OF assms(1)] mp_decode_bytes [OF assms(1)]
      decode_encode_anchor [OF assms(2)] mp_decode_wf decode_anchor_wf by blast
qed

theorem sealed_tables_roundtrip_witness:
  "\<exists>b. mp_encode \<lparr>db_generation = 3, db_uuid = replicate 16 1, merkle_root = replicate 32 2,
        prev_merkle_root = replicate 32 4, mp_files = [(replicate 16 9, 8192)]\<rparr> = Some b \<and> length b = 4096
    \<and> length (encode_anchor 7 [\<lparr>uuid = replicate 16 1, committed = 3, in_flight = 4, epoch_floor = 2\<rparr>]) = 4096"
proof -
  have "payload_wf \<lparr>db_generation = 3, db_uuid = replicate 16 1, merkle_root = replicate 32 2,
        prev_merkle_root = replicate 32 4, mp_files = [(replicate 16 9, 8192)]\<rparr>" (is "payload_wf ?p")
    by (simp add: payload_wf_def manifest_sizes)
  moreover have "anchor_wf (7, [\<lparr>uuid = replicate 16 1, committed = 3, in_flight = 4, epoch_floor = 2\<rparr>])"
    by (simp add: anchor_wf_def entry_wf_def manifest_sizes)
  note w = calculation this
  show ?thesis using sealed_tables_roundtrip [OF w] by (auto simp: BLOCK_SIZE_def)
qed

end
