(* ===== verification/Pool.thy ===== *)
theory Pool
  imports Block_Device Manifest "HOL-Library.AList" "HOL-Library.Multiset"
begin

text \<open>
  The file pool of \<open>crates/freehold/src/vfs.rs\<close> (\<open>OpfsSAHPool\<close>): a fixed set of storage handles,
  each free or bound to a file name that its own header block records, and the in-memory table
  that maps the names to the handles. The state of an operation is the pool; a call of the
  storage that fails and every refusal is an error, and the effects made before it stay. The
  hash maps of the source are association lists, in an order no definition relies on.
\<close>

section \<open>Names\<close>

definition manifest_name :: "str \<Rightarrow> str" where
  "manifest_name db = db @ ascii ''#manifest''"

definition ROT_SHADOW_SUFFIX :: str where "ROT_SHADOW_SUFFIX = ascii ''~rot''"
definition ROT_INTENT_NAME :: str where "ROT_INTENT_NAME = ascii ''__rotate_intent__''"

definition shadow_name :: "str \<Rightarrow> str" where
  "shadow_name name = name @ ROT_SHADOW_SUFFIX"

definition base_char :: "byte \<Rightarrow> bool" where
  "base_char b \<longleftrightarrow> 97 \<le> b \<and> b \<le> 122 \<or> 48 \<le> b \<and> b \<le> 57 \<or> b = 95 \<or> b = 45"

definition valid_pool_filename :: "str \<Rightarrow> bool" where
  "valid_pool_filename name =
     (let core = (case strip_suffix name (ascii ''#manifest'') of Some c \<Rightarrow> c | None \<Rightarrow> name) in
      case strip_suffix core (ascii ''.db'') of
        None \<Rightarrow> False
      | Some base \<Rightarrow> base \<noteq> [] \<and> length base \<le> 32 \<and> list_all base_char base)"

definition satellite_parent :: "str \<Rightarrow> str option" where
  "satellite_parent name =
     (case strip_suffix name (ascii ''-journal'') of
        Some p \<Rightarrow> Some p
      | None \<Rightarrow> strip_suffix name (ascii ''-wal''))"

text \<open>The bound checked before an offset of SQLite's 64-bit signed type becomes a \<open>usize\<close>.\<close>

definition ffi_offset_ok :: "int \<Rightarrow> bool" where
  "ffi_offset_ok v \<longleftrightarrow> 0 \<le> v \<and> v \<le> 2 ^ 32 - 1"

section \<open>State\<close>

record db_state =
  st_uuid :: bytes
  st_crypto :: crypto
  st_generation :: u64
  st_root :: bytes

record 'h pool =
  header_buffer :: bytes
  available :: "'h saf list"
  files :: "(str \<times> 'h saf) list"
  is_paused :: bool
  open_files :: "str list"
  dek :: bytes
  p_crypto :: crypto
  anchor_crypto :: crypto
  anchor_handle :: "'h option"
  dbs :: "(str \<times> db_state) list"
  p_fault :: fault_state
  device_id :: bytes
  p_rng :: rng

datatype pool_error =
    PRead | PWrite | PTruncate | PFlush | PGetSize | PHandle | PVfs vfs_error | PCrypto crypto_error
  | EmptyName | NameTooLong | FileExists | PoolFull | FileNotFound | ShortExport
  | BadEntryName | FilesInUse | NotInstalled | RegisterFailed | IllegalName
  | BadOffset
  | RngBroken | NoAnchor | AnchorSize | AnchorShort | AnchorFull
  | NoManifestHeader | ManifestBroken | NoManifest | ManifestPanic
  | DataWithoutManifest | Rollback | BelowEpochFloor | LengthMismatch | TornBlock0 | BadBlock0
  | NotSqlite | WrongPageSize nat | PartialRollback | WalRefused | OrphanJournal
  | JournalBlock nat | JournalHeader | JournalPageSize | JournalSector | JournalPanic | RootBlock nat
  | EpochAuth | EpochTruncated | TrustSeed | IntentTooLarge | IntentMagic | IntentTruncated
  | IntentName | IntentAnchors | IntentMissing | ResealHeader | ResealBlock nat | EnvelopeStrip

type_synonym ('h, 'a) pool_result = "(pool_error + 'a) \<times> 'h pool"

text \<open>A file of the pool with the shared gate and random source, and its way back.\<close>

definition dev_of :: "'h pool \<Rightarrow> 'h saf \<Rightarrow> 'h dev" where
  "dev_of p f = \<lparr>d_file = f, d_fault = p_fault p, d_rng = p_rng p\<rparr>"

definition put_file :: "str \<Rightarrow> 'h saf \<Rightarrow> 'h pool \<Rightarrow> 'h pool" where
  "put_file n f p = p\<lparr>files := AList.update n f (files p)\<rparr>"

definition put_dev :: "str \<Rightarrow> 'h dev \<Rightarrow> 'h pool \<Rightarrow> 'h pool" where
  "put_dev n d p = (put_file n (d_file d) p)\<lparr>p_fault := d_fault d, p_rng := d_rng d\<rparr>"

definition lookup_file :: "'h pool \<Rightarrow> str \<Rightarrow> 'h saf option" where
  "lookup_file p n = map_of (files p) n"

definition has_filename :: "'h pool \<Rightarrow> str \<Rightarrow> bool" where
  "has_filename p n \<longleftrightarrow> lookup_file p n \<noteq> None"

definition get_capacity :: "'h pool \<Rightarrow> nat" where
  "get_capacity p = length (files p) + length (available p)"

definition get_filenames :: "'h pool \<Rightarrow> str list" where
  "get_filenames p = map fst (files p)"

definition make_file :: "'h pool \<Rightarrow> 'h \<Rightarrow> str \<Rightarrow> 'h saf" where
  "make_file p h name = \<lparr>handle = h, opaque = name, f_crypto = p_crypto p, f_file_id = replicate FILE_ID_LEN 0,
     f_key_domain = NO_DOMAIN, is_main_db = False, logical_size = None\<rparr>"

section \<open>Headers\<close>

definition HEADER_MAX_FILENAME_SIZE :: nat where "HEADER_MAX_FILENAME_SIZE = 512"
definition HEADER_CORPUS_SIZE :: nat where "HEADER_CORPUS_SIZE = HEADER_MAX_FILENAME_SIZE + 4"
definition HEADER_OFFSET_FLAGS :: nat where "HEADER_OFFSET_FLAGS = HEADER_MAX_FILENAME_SIZE"

definition persistent_types :: "('h, 'z) env_scheme \<Rightarrow> u32" where
  "persistent_types E = SQLITE_OPEN_MAIN_DB E OR SQLITE_OPEN_MAIN_JOURNAL E
     OR SQLITE_OPEN_SUPER_JOURNAL E OR SQLITE_OPEN_WAL E"

definition be_u32 :: "bytes \<Rightarrow> u32" where
  "be_u32 b = word_of_nat (be_nat b)"

text \<open>The index of the first zero byte, zero when there is none.\<close>

definition name_length :: "bytes \<Rightarrow> nat" where
  "name_length b = (if 0 \<in> set b then length (takeWhile (\<lambda>x. x \<noteq> 0) b) else 0)"

text \<open>The header is read into the pool's one buffer; a file shorter than it leaves the rest as it was.\<close>

definition get_associated_filename ::
  "('h, 'z) env_scheme \<Rightarrow> 'h \<Rightarrow> 'h pool \<Rightarrow> (pool_error + str option) \<times> 'h \<times> 'h pool" where
  "get_associated_filename E h p =
     (case sah_read E h 0 (length (header_buffer p)) of
        None \<Rightarrow> (Inl PRead, h, p)
      | Some data \<Rightarrow>
        let buf = put_at 0 data (header_buffer p);
            p = p\<lparr>header_buffer := buf\<rparr>;
            flags = be_u32 (slice HEADER_OFFSET_FLAGS 4 buf)
        in if buf ! 0 \<noteq> 0 \<and> (flags AND SQLITE_OPEN_DELETEONCLOSE E \<noteq> 0 \<or> flags AND persistent_types E = 0)
           then (Inr None, h, p)
           else let n = name_length buf in
             if n = 0
             then (case sah_truncate E h HEADER_OFFSET_DATA of
                 (ok, h) \<Rightarrow> (if ok then Inr None else Inl PTruncate, h, p))
             else (Inr (from_utf8 (take n buf)), h, p))"

definition set_associated_filename ::
  "('h, 'z) env_scheme \<Rightarrow> 'h \<Rightarrow> str option \<Rightarrow> u32 \<Rightarrow> 'h pool \<Rightarrow> (pool_error + unit) \<times> 'h \<times> 'h pool" where
  "set_associated_filename E h filename flags p =
     (case gate (p_fault p) of (go, f) \<Rightarrow>
        let p = p\<lparr>p_fault := f\<rparr> in
        if \<not> go then (Inr (), h, p)
        else
          let buf = put_at HEADER_OFFSET_FLAGS (nat_be 4 (unat flags)) (header_buffer p);
              commit = (\<lambda>h buf. let p = p\<lparr>header_buffer := buf\<rparr> in
                 case sah_write E h 0 buf of (r, h) \<Rightarrow> (case r of None \<Rightarrow> Inl PWrite | Some _ \<Rightarrow> Inr (), h, p))
          in case filename of
               Some name \<Rightarrow>
                 if name = [] then (Inl EmptyName, h, p\<lparr>header_buffer := buf\<rparr>)
                 else if HEADER_MAX_FILENAME_SIZE \<le> length name + 1
                 then (Inl NameTooLong, h, p\<lparr>header_buffer := buf\<rparr>)
                 else commit h (put_at 0 (name @ replicate (HEADER_MAX_FILENAME_SIZE - length name) 0) buf)
             | None \<Rightarrow>
                 let buf = put_at 0 (replicate HEADER_MAX_FILENAME_SIZE 0) buf in
                 case sah_truncate E h HEADER_OFFSET_DATA of (ok, h) \<Rightarrow>
                   if ok then commit h buf else (Inl PTruncate, h, p\<lparr>header_buffer := buf\<rparr>))"

section \<open>Files\<close>

text \<open>A handle whose header is cleared joins the free ones, whether the clearing succeeds or not
  where the source pushes it first.\<close>

definition delete_file :: "('h, 'z) env_scheme \<Rightarrow> str \<Rightarrow> 'h pool \<Rightarrow> ('h, bool) pool_result" where
  "delete_file E n p =
     (case lookup_file p n of
        None \<Rightarrow> (Inr False, p)
      | Some f \<Rightarrow>
        (case set_associated_filename E (handle f) None 0 (p\<lparr>files := AList.delete n (files p)\<rparr>) of
           (r, h, p) \<Rightarrow>
             (case r of Inl e \<Rightarrow> Inl e | Inr _ \<Rightarrow> Inr True,
              p\<lparr>available := available p @ [f\<lparr>handle := h\<rparr>]\<rparr>)))"

text \<open>Binding a free handle; the closure \<open>op\<close> runs on the bound file.\<close>

definition with_new_file ::
  "('h, 'z) env_scheme \<Rightarrow> str \<Rightarrow> u32 \<Rightarrow> ('h dev \<Rightarrow> (pool_error + unit) \<times> 'h dev) \<Rightarrow> 'h pool \<Rightarrow> ('h, unit) pool_result" where
  "with_new_file E n flags op p =
     (if has_filename p n then (Inl FileExists, p)
      else if available p = [] then (Inl PoolFull, p)
      else
        let f = (last (available p))\<lparr>f_file_id := file_id_for E n, logical_size := Some 0\<rparr>;
            p = put_file n f (p\<lparr>available := butlast (available p)\<rparr>)
        in case set_associated_filename E (handle f) (Some n) flags p of (r, h, p) \<Rightarrow>
          let f = f\<lparr>handle := h\<rparr>; p = put_file n f p in
          case r of
            Inl e \<Rightarrow> (Inl e, p)
          | Inr _ \<Rightarrow> (case op (dev_of p f) of (r, d) \<Rightarrow> (r, put_dev n d p)))"

text \<open>The data region as it is stored.\<close>

definition export_handle :: "('h, 'z) env_scheme \<Rightarrow> 'h \<Rightarrow> pool_error + bytes" where
  "export_handle E h =
     try_then (of_option PGetSize (sah_size E h)) (\<lambda>sz.
       let n = sz - HEADER_OFFSET_DATA in
       if n = 0 then Inr []
       else try_then (of_option PRead (sah_read E h HEADER_OFFSET_DATA n)) (\<lambda>data.
         if length data \<noteq> n then Inl ShortExport else Inr data))"

definition export_raw :: "('h, 'z) env_scheme \<Rightarrow> str \<Rightarrow> 'h pool \<Rightarrow> pool_error + bytes" where
  "export_raw E n p = (case lookup_file p n of
     None \<Rightarrow> Inl FileNotFound | Some f \<Rightarrow> export_handle E (handle f))"

definition lift_vfs :: "(vfs_error + 'a) \<times> 's \<Rightarrow> (pool_error + 'a) \<times> 's" where
  "lift_vfs r = (map_err PVfs (fst r), snd r)"

text \<open>A flush of the handle itself, past the gate.\<close>

definition raw_flush :: "('h, 'z) env_scheme \<Rightarrow> 'h dev \<Rightarrow> (pool_error + unit) \<times> 'h dev" where
  "raw_flush E d = (case sah_flush E (handle (d_file d)) of (ok, h) \<Rightarrow>
     (if ok then Inr () else Inl PFlush, set_handle h d))"

definition store_ciphertext :: "('h, 'z) env_scheme \<Rightarrow> bytes \<Rightarrow> 'h dev \<Rightarrow> (pool_error + unit) \<times> 'h dev" where
  "store_ciphertext E ct d =
     st_then (lift_vfs (phys_truncate E (length ct) d)) (\<lambda>_ d.
     st_then (lift_vfs (phys_write E ct 0 d)) (\<lambda>_ d. raw_flush E d))"

definition import_ciphertext_file ::
  "('h, 'z) env_scheme \<Rightarrow> str \<Rightarrow> bytes \<Rightarrow> 'h pool \<Rightarrow> ('h, unit) pool_result" where
  "import_ciphertext_file E n ct p =
     with_new_file E n (SQLITE_OPEN_MAIN_DB E) (store_ciphertext E ct) (snd (delete_file E n p))"

fun import_all :: "('h, 'z) env_scheme \<Rightarrow> (str \<times> bytes) list \<Rightarrow> 'h pool \<Rightarrow> ('h, unit) pool_result" where
  "import_all E [] p = (Inr (), p)"
| "import_all E ((n, b) # fs) p =
     st_then (import_ciphertext_file E n b p) (\<lambda>_ p. import_all E fs p)"

definition import_files :: "('h, 'z) env_scheme \<Rightarrow> (str \<times> bytes) list \<Rightarrow> 'h pool \<Rightarrow> ('h, unit) pool_result" where
  "import_files E fs p =
     (if list_ex (\<lambda>(n, _). \<not> valid_pool_filename n) fs then (Inl IllegalName, p) else import_all E fs p)"

section \<open>Acquiring and releasing the handles\<close>

text \<open>
  The directory is a parameter: the outcome of opening the anchor file, and the entries in the
  order the iterator gives them, each with its name if that is a string, whether it is a file,
  and its handle if one can be opened.
\<close>

type_synonym 'h dir_entry = "str option \<times> bool \<times> 'h option"

definition acquire_anchor :: "('h, 'z) env_scheme \<Rightarrow> 'h option \<Rightarrow> 'h pool \<Rightarrow> ('h, unit) pool_result" where
  "acquire_anchor E opened p =
     (if anchor_handle p \<noteq> None then (Inr (), p)
      else case opened of
        None \<Rightarrow> (Inl PHandle, p)
      | Some h \<Rightarrow>
        if (case sah_size E h of Some s \<Rightarrow> s < 2 * PHYS_BLOCK | None \<Rightarrow> True)
        then (case sah_truncate E h (2 * PHYS_BLOCK) of (ok, h) \<Rightarrow>
          if \<not> ok then (Inl PTruncate, p)
          else (case sah_flush E h of (ok, h) \<Rightarrow>
            if \<not> ok then (Inl PFlush, p) else (Inr (), p\<lparr>anchor_handle := Some h\<rparr>)))
        else (Inr (), p\<lparr>anchor_handle := Some h\<rparr>))"

definition clear_file :: "('h, 'z) env_scheme \<Rightarrow> 'h saf \<Rightarrow> 'h pool \<Rightarrow> ('h, unit) pool_result" where
  "clear_file E f p =
     (case set_associated_filename E (handle f) None 0 p of (r, h, p) \<Rightarrow>
        (case r of
           Inl e \<Rightarrow> (Inl e, p)
         | Inr _ \<Rightarrow> (Inr (), p\<lparr>available := available p @ [f\<lparr>handle := h\<rparr>]\<rparr>)))"

definition acquire_entry ::
  "('h, 'z) env_scheme \<Rightarrow> bool \<Rightarrow> 'h dir_entry \<Rightarrow> 'h pool \<Rightarrow> ('h, unit) pool_result" where
  "acquire_entry E clear e p =
     (case e of (name, is_file, opened) \<Rightarrow>
        (case name of
           None \<Rightarrow> (Inl BadEntryName, p)
         | Some opaque_name \<Rightarrow>
           if \<not> is_file then (Inr (), p)
           else (case opened of
               None \<Rightarrow> (Inl PHandle, p)
             | Some h \<Rightarrow>
               let f = make_file p h opaque_name in
               if clear then clear_file E f p
               else (case get_associated_filename E h p of (r, h, p) \<Rightarrow>
                 let f = f\<lparr>handle := h\<rparr> in
                 (case r of
                    Inl e \<Rightarrow> (Inl e, p)
                  | Inr None \<Rightarrow> clear_file E f p
                  | Inr (Some n) \<Rightarrow>
                      (Inr (), put_file n (f\<lparr>f_file_id := file_id_for E n, logical_size := None\<rparr>) p))))))"

fun acquire_entries ::
  "('h, 'z) env_scheme \<Rightarrow> bool \<Rightarrow> 'h dir_entry list \<Rightarrow> 'h pool \<Rightarrow> ('h, unit) pool_result" where
  "acquire_entries E clear [] p = (Inr (), p)"
| "acquire_entries E clear (e # es) p =
     st_then (acquire_entry E clear e p) (\<lambda>_ p. acquire_entries E clear es p)"

definition acquire_access_handles ::
  "('h, 'z) env_scheme \<Rightarrow> bool \<Rightarrow> 'h option \<Rightarrow> 'h dir_entry list \<Rightarrow> 'h pool \<Rightarrow> ('h, unit) pool_result" where
  "acquire_access_handles E clear anchor es p =
     st_then (acquire_anchor E anchor p) (\<lambda>_ p. acquire_entries E clear es p)"

text \<open>Fresh capacity: one outcome per file the loop asks the directory for.\<close>

fun add_capacity :: "('h, 'z) env_scheme \<Rightarrow> (str \<times> 'h option) list \<Rightarrow> 'h pool \<Rightarrow> ('h, nat) pool_result" where
  "add_capacity E [] p = (Inr (get_capacity p), p)"
| "add_capacity E ((opaque_name, opened) # es) p =
     (case opened of
        None \<Rightarrow> (Inl PHandle, p)
      | Some h \<Rightarrow> st_then (clear_file E (make_file p h opaque_name) p) (\<lambda>_ p. add_capacity E es p))"

definition reserve_minimum_capacity ::
  "('h, 'z) env_scheme \<Rightarrow> nat \<Rightarrow> (str \<times> 'h option) list \<Rightarrow> 'h pool \<Rightarrow> ('h, unit) pool_result" where
  "reserve_minimum_capacity E n outcomes p =
     st_then (add_capacity E (take (n - get_capacity p) outcomes) p) (\<lambda>_ p. (Inr (), p))"

text \<open>Free handles are given back from the end; \<open>removed\<close> is what removing each entry answers.\<close>

definition reduce_capacity :: "nat \<Rightarrow> bool list \<Rightarrow> 'h pool \<Rightarrow> ('h, nat) pool_result" where
  "reduce_capacity n removed p =
     (let k = min (length (available p)) n in
      (if list_all id (take k removed) then Inr k else Inl PHandle,
       p\<lparr>available := take (length (available p) - k) (available p)\<rparr>))"

definition release_access_handles :: "'h pool \<Rightarrow> 'h pool" where
  "release_access_handles p = p\<lparr>available := [], files := [], anchor_handle := None, dbs := []\<rparr>"

definition pause_vfs :: "'h pool \<Rightarrow> ('h, unit) pool_result" where
  "pause_vfs p =
     (if is_paused p then (Inr (), p)
      else if open_files p \<noteq> [] then (Inl FilesInUse, p)
      else (Inr (), (release_access_handles p)\<lparr>is_paused := True\<rparr>))"

text \<open>\<open>installed\<close> says that the VFS pointer is set, \<open>registered\<close> what SQLite answers.\<close>

definition unpause_vfs ::
  "('h, 'z) env_scheme \<Rightarrow> bool \<Rightarrow> bool \<Rightarrow> 'h option \<Rightarrow> 'h dir_entry list \<Rightarrow> 'h pool \<Rightarrow> ('h, unit) pool_result" where
  "unpause_vfs E installed registered anchor es p =
     (if \<not> is_paused p then (Inr (), p)
      else st_then (acquire_access_handles E False anchor es p) (\<lambda>_ p.
        if \<not> installed then (Inl NotInstalled, p)
        else if registered then (Inr (), p\<lparr>is_paused := False\<rparr>)
        else (Inl RegisterFailed, p)))"

definition clear_all :: "('h, 'z) env_scheme \<Rightarrow> 'h option \<Rightarrow> 'h dir_entry list \<Rightarrow> 'h pool \<Rightarrow> ('h, unit) pool_result" where
  "clear_all E anchor es p = acquire_access_handles E True anchor es (release_access_handles p)"

text \<open>A new pool: no handle is touched unless the random source passes its self-test.\<close>

definition empty_pool :: "'z prims_scheme \<Rightarrow> bytes \<Rightarrow> rng \<Rightarrow> 'h pool" where
  "empty_pool E k rng =
     (case random_uuid rng of (u, rng) \<Rightarrow>
        \<lparr>header_buffer = replicate HEADER_CORPUS_SIZE 0, available = [], files = [], is_paused = False,
         open_files = [], dek = k, p_crypto = pool_key E k, anchor_crypto = anchor_key E k, anchor_handle = None,
         dbs = [], p_fault = fault_new,
         device_id = (case u of Inl _ \<Rightarrow> replicate 16 0 | Inr u \<Rightarrow> u), p_rng = rng\<rparr>)"

definition pool_new ::
  "('h, 'z) env_scheme \<Rightarrow> bytes \<Rightarrow> bool \<Rightarrow> nat \<Rightarrow> 'h option \<Rightarrow> 'h dir_entry list \<Rightarrow> (str \<times> 'h option) list \<Rightarrow> rng
     \<Rightarrow> pool_error + 'h pool" where
  "pool_new E k clear capacity anchor es fresh rng =
     (case rng_selftest rng of (ok, rng) \<Rightarrow>
        if \<not> ok then Inl RngBroken
        else (case st_then (acquire_access_handles E clear anchor es (empty_pool E k rng))
                     (\<lambda>_ p. reserve_minimum_capacity E capacity fresh p) of
          (r, p) \<Rightarrow> map_sum id (\<lambda>_. p) r))"

section \<open>Lookup and update\<close>

lemma lookup_put_file [simp]: "lookup_file (put_file n f p) m = (if m = n then Some f else lookup_file p m)"
  by (simp add: lookup_file_def put_file_def update_conv')

lemma lookup_put_dev [simp]: "lookup_file (put_dev n d p) m = (if m = n then Some (d_file d) else lookup_file p m)"
  by (simp add: put_dev_def) (simp add: lookup_file_def put_file_def update_conv')

lemma lookup_delete [simp]:
  "lookup_file (p\<lparr>files := AList.delete n (files p)\<rparr>) m = (if m = n then None else lookup_file p m)"
  by (simp add: lookup_file_def delete_conv')

lemma pool_fault_id [simp]: "p\<lparr>p_fault := p_fault p\<rparr> = p" for p :: "'h pool"
  by (cases p) simp

section \<open>The header of a file\<close>

lemmas header_sizes = HEADER_CORPUS_SIZE_def HEADER_OFFSET_FLAGS_def HEADER_MAX_FILENAME_SIZE_def HEADER_OFFSET_DATA_def

text \<open>What a header buffer says.\<close>

definition hdr_name :: "('h, 'z) env_scheme \<Rightarrow> bytes \<Rightarrow> str option" where
  "hdr_name E buf =
     (let flags = be_u32 (slice HEADER_OFFSET_FLAGS 4 buf) in
      if buf ! 0 \<noteq> 0 \<and> (flags AND SQLITE_OPEN_DELETEONCLOSE E \<noteq> 0 \<or> flags AND persistent_types E = 0) then None
      else let n = name_length buf in if n = 0 then None else from_utf8 (take n buf))"

definition name_ok :: "str \<Rightarrow> bool" where
  "name_ok n \<longleftrightarrow> n \<noteq> [] \<and> length n + 1 < HEADER_MAX_FILENAME_SIZE \<and> 0 \<notin> set n \<and> utf8_valid n"

definition flags_persist :: "('h, 'z) env_scheme \<Rightarrow> u32 \<Rightarrow> bool" where
  "flags_persist E fl \<longleftrightarrow> fl AND SQLITE_OPEN_DELETEONCLOSE E = 0 \<and> fl AND persistent_types E \<noteq> 0"

lemma flags_persist_main: "flags_ok E \<Longrightarrow> flags_persist E (SQLITE_OPEN_MAIN_DB E)"
proof -
  assume f: "flags_ok E"
  have "SQLITE_OPEN_MAIN_DB E AND persistent_types E = SQLITE_OPEN_MAIN_DB E"
    by (rule bit_eqI) (auto simp: persistent_types_def bit_and_iff bit_or_iff)
  then show ?thesis using f by (simp add: flags_persist_def flags_ok_def)
qed

definition header_of :: "str \<Rightarrow> u32 \<Rightarrow> bytes" where
  "header_of n fl = n @ replicate (HEADER_MAX_FILENAME_SIZE - length n) 0 @ nat_be 4 (unat fl)"

lemma length_header_of: "length n \<le> HEADER_MAX_FILENAME_SIZE \<Longrightarrow> length (header_of n fl) = HEADER_CORPUS_SIZE"
  by (simp add: header_of_def header_sizes)

lemma be_u32_nat_be [simp]: "be_u32 (nat_be 4 (unat (fl :: u32))) = fl"
proof -
  have "unat fl < 256 ^ 4" using unsigned_less [of fl] by simp
  then show ?thesis by (simp add: be_u32_def)
qed

lemma header_flags: "length n \<le> HEADER_MAX_FILENAME_SIZE \<Longrightarrow> slice HEADER_OFFSET_FLAGS 4 (header_of n fl) = nat_be 4 (unat fl)"
  by (simp add: header_of_def header_sizes slice_def)

lemma name_length_header: "0 \<notin> set n \<Longrightarrow> length n < HEADER_MAX_FILENAME_SIZE \<Longrightarrow> name_length (header_of n fl) = length n"
proof -
  assume "0 \<notin> set n" and l: "length n < HEADER_MAX_FILENAME_SIZE"
  then have p: "\<And>x. x \<in> set n \<Longrightarrow> x \<noteq> 0" by metis
  obtain k where "HEADER_MAX_FILENAME_SIZE - length n = Suc k" using l by (metis Suc_diff_Suc)
  then have e: "header_of n fl = n @ 0 # replicate k 0 @ nat_be 4 (unat fl)" by (simp add: header_of_def)
  have "takeWhile (\<lambda>x. x \<noteq> 0) (header_of n fl) = n" unfolding e using p by (simp add: takeWhile_append2)
  moreover have "0 \<in> set (header_of n fl)" unfolding e by simp
  ultimately show ?thesis by (simp add: name_length_def)
qed

lemma hdr_name_header:
  assumes "name_ok n" and "flags_persist E fl"
  shows "hdr_name E (header_of n fl) = Some n"
proof -
  have l: "length n < HEADER_MAX_FILENAME_SIZE" and u: "n \<noteq> []" "0 \<notin> set n" "utf8_valid n"
    using assms(1) by (auto simp: name_ok_def)
  have nl: "name_length (header_of n fl) = length n" using u(2) l by (rule name_length_header)
  have fl: "be_u32 (slice HEADER_OFFSET_FLAGS 4 (header_of n fl)) = fl" using l by (simp add: header_flags)
  have t: "take (length n) (header_of n fl) = n" by (simp add: header_of_def)
  show ?thesis
    using assms(2) u unfolding hdr_name_def Let_def nl fl t by (simp add: flags_persist_def from_utf8_def)
qed

lemma hdr_name_free: "hdr_name E (header_of [] fl) = None"
proof -
  have nl: "name_length (header_of [] fl) = 0"
    using name_length_header [of "[]" fl] by (simp add: header_sizes)
  have z: "header_of [] fl ! 0 = 0" by (simp add: header_of_def header_sizes nth_append)
  show ?thesis unfolding hdr_name_def Let_def nl z by simp
qed

lemma header_buffer_written:
  assumes "length hb = HEADER_CORPUS_SIZE" and "length n \<le> HEADER_MAX_FILENAME_SIZE"
  shows "put_at 0 (n @ replicate (HEADER_MAX_FILENAME_SIZE - length n) 0) (put_at HEADER_OFFSET_FLAGS (nat_be 4 (unat fl)) hb)
    = header_of n fl"
  using assms by (simp add: put_at_def header_of_def header_sizes)

section \<open>The pool as a map from names to contents\<close>

definition handle_ok :: "('h, 'z) env_scheme \<Rightarrow> ('h \<Rightarrow> bytes) \<Rightarrow> str option \<Rightarrow> 'h \<Rightarrow> bool" where
  "handle_ok E c n h \<longleftrightarrow> HEADER_OFFSET_DATA \<le> length (c h) \<and> hdr_name E (take HEADER_CORPUS_SIZE (c h)) = n"

definition healthy :: "'h pool \<Rightarrow> bool" where
  "healthy p \<longleftrightarrow> \<not> crashed (p_fault p) \<and> countdown (p_fault p) = None"

definition pool_inv :: "('h, 'z) env_scheme \<Rightarrow> ('h \<Rightarrow> bytes) \<Rightarrow> 'h pool \<Rightarrow> bool" where
  "pool_inv E c p \<longleftrightarrow> sah_ok E c \<and> flags_ok E \<and> healthy p \<and> length (header_buffer p) = HEADER_CORPUS_SIZE
     \<and> distinct (map fst (files p))
     \<and> (\<forall>n f. lookup_file p n = Some f \<longrightarrow> handle_ok E c (Some n) (handle f) \<and> f_file_id f = file_id_for E n)
     \<and> (\<forall>f \<in> set (available p). handle_ok E c None (handle f))"

definition stored :: "('h \<Rightarrow> bytes) \<Rightarrow> 'h pool \<Rightarrow> str \<rightharpoonup> bytes" where
  "stored c p n = map_option (\<lambda>f. drop HEADER_OFFSET_DATA (c (handle f))) (lookup_file p n)"

lemma gate_healthy: "healthy p \<Longrightarrow> gate (p_fault p) = (True, p_fault p)"
  by (simp add: healthy_def gate_def)

lemma header_blit:
  assumes "length buf = HEADER_CORPUS_SIZE" and "HEADER_OFFSET_DATA \<le> length b"
  shows "take HEADER_CORPUS_SIZE (blit 0 buf b) = buf" and "drop HEADER_OFFSET_DATA (blit 0 buf b) = drop HEADER_OFFSET_DATA b"
    and "length (blit 0 buf b) = length b"
  using assms by (simp_all add: blit_def header_sizes)

lemma set_name_bound:
  assumes "sah_ok E c" and "healthy p" and "length (header_buffer p) = HEADER_CORPUS_SIZE" and "name_ok n"
    and "HEADER_OFFSET_DATA \<le> length (c h)" and "flags_persist E fl"
  shows "\<exists>h'. set_associated_filename E h (Some n) fl p = (Inr (), h', p\<lparr>header_buffer := header_of n fl\<rparr>)
    \<and> handle_ok E c (Some n) h' \<and> drop HEADER_OFFSET_DATA (c h') = drop HEADER_OFFSET_DATA (c h)"
proof -
  have l: "length n \<le> HEADER_MAX_FILENAME_SIZE" "n \<noteq> []" "\<not> HEADER_MAX_FILENAME_SIZE \<le> length n + 1"
    using assms(4) by (auto simp: name_ok_def)
  obtain r h' where w: "sah_write E h 0 (header_of n fl) = (r, h')" by fastforce
  have r: "r = Some (length (header_of n fl))" "c h' = blit 0 (header_of n fl) (c h)"
    using sah_okD(3,4) [OF assms(1), of h 0 "header_of n fl"] w by simp_all
  have "set_associated_filename E h (Some n) fl p = (Inr (), h', p\<lparr>header_buffer := header_of n fl\<rparr>)"
    using l w r(1) gate_healthy [OF assms(2)] header_buffer_written [OF assms(3) l(1), of fl]
    by (simp add: set_associated_filename_def Let_def)
  then show ?thesis
    using header_blit [OF length_header_of [OF l(1)] assms(5), of fl] hdr_name_header [OF assms(4,6)] r(2) assms(5)
    by (simp add: handle_ok_def)
qed

lemma set_name_cleared:
  assumes "sah_ok E c" and "healthy p" and "length (header_buffer p) = HEADER_CORPUS_SIZE"
  shows "\<exists>h'. set_associated_filename E h None fl p = (Inr (), h', p\<lparr>header_buffer := header_of [] fl\<rparr>)
    \<and> handle_ok E c None h' \<and> drop HEADER_OFFSET_DATA (c h') = []"
proof -
  obtain ok h1 where t: "sah_truncate E h HEADER_OFFSET_DATA = (ok, h1)" by fastforce
  have ok: "ok" "c h1 = resize HEADER_OFFSET_DATA (c h)"
    using sah_okD(5,6) [OF assms(1), of h HEADER_OFFSET_DATA] t by simp_all
  obtain r h' where w: "sah_write E h1 0 (header_of [] fl) = (r, h')" by fastforce
  have r: "r = Some (length (header_of [] fl))" "c h' = blit 0 (header_of [] fl) (c h1)"
    using sah_okD(3,4) [OF assms(1), of h1 0 "header_of [] fl"] w by simp_all
  have l1: "HEADER_OFFSET_DATA \<le> length (c h1)" using ok(2) by simp
  have lh: "length (header_of [] fl) = HEADER_CORPUS_SIZE" by (rule length_header_of) simp
  have "set_associated_filename E h None fl p = (Inr (), h', p\<lparr>header_buffer := header_of [] fl\<rparr>)"
    using t ok(1) w r(1) gate_healthy [OF assms(2)] header_buffer_written [OF assms(3), of "[]" fl]
    by (simp add: set_associated_filename_def Let_def)
  then show ?thesis
    using header_blit [OF lh l1] hdr_name_free [of E fl] r(2) ok(2)
    by (simp add: handle_ok_def)
qed

lemma lookup_distinct: "distinct (map fst (files p)) \<Longrightarrow> (n, f) \<in> set (files p) \<longleftrightarrow> lookup_file p n = Some f"
  by (simp add: lookup_file_def)

lemma pool_frame [simp]:
  "lookup_file (p\<lparr>header_buffer := b\<rparr>) n = lookup_file p n" "lookup_file (p\<lparr>available := a\<rparr>) n = lookup_file p n"
  "healthy (p\<lparr>header_buffer := b\<rparr>) = healthy p" "healthy (p\<lparr>available := a\<rparr>) = healthy p" "healthy (p\<lparr>files := fs\<rparr>) = healthy p"
  "stored c (p\<lparr>header_buffer := b\<rparr>) = stored c p" "stored c (p\<lparr>available := a\<rparr>) = stored c p"
  by (simp_all add: lookup_file_def healthy_def stored_def fun_eq_iff)

lemma distinct_names [simp]:
  "distinct (map fst (files p)) \<Longrightarrow> distinct (map fst (files (put_file n f p)))"
  by (simp add: put_file_def distinct_update)

lemma put_file_fields [simp]:
  "available (put_file n f p) = available p" "header_buffer (put_file n f p) = header_buffer p"
  "p_fault (put_file n f p) = p_fault p" "healthy (put_file n f p) = healthy p"
  "p_rng (put_file n f p) = p_rng p" "dev_of (put_file n f p) = dev_of p"
  by (simp_all add: put_file_def healthy_def dev_of_def fun_eq_iff)

lemma stored_put_file: "stored c (put_file n f p) = (stored c p)(n \<mapsto> drop HEADER_OFFSET_DATA (c (handle f)))"
  by (simp add: stored_def fun_eq_iff)

text \<open>What the operations on files leave alone.\<close>

definition pool_rest where
  "pool_rest p = (dek p, p_crypto p, anchor_crypto p, anchor_handle p, dbs p, p_fault p, device_id p, p_rng p,
     is_paused p, open_files p)"

lemma pool_rest_frame [simp]:
  "pool_rest (p\<lparr>header_buffer := b\<rparr>) = pool_rest p" "pool_rest (p\<lparr>available := a\<rparr>) = pool_rest p"
  "pool_rest (p\<lparr>files := fs\<rparr>) = pool_rest p" "pool_rest (put_file n f p) = pool_rest p"
  by (simp_all add: pool_rest_def put_file_def)

lemma has_filename_stored: "has_filename p n \<longleftrightarrow> stored c p n \<noteq> None"
  by (simp add: has_filename_def stored_def)

lemma delete_file_effect:
  assumes inv: "pool_inv E c p"
  shows "\<exists>p'. delete_file E n p = (Inr (has_filename p n), p') \<and> pool_inv E c p' \<and> stored c p' = (stored c p)(n := None)
    \<and> length (available p') = length (available p) + (if has_filename p n then 1 else 0) \<and> pool_rest p' = pool_rest p"
proof (cases "lookup_file p n")
  case None
  then have "stored c p = (stored c p)(n := None)" by (simp add: stored_def fun_eq_iff)
  then show ?thesis using None inv by (simp add: delete_file_def has_filename_def)
next
  case (Some f)
  note i = inv [unfolded pool_inv_def]
  let ?q = "p\<lparr>files := AList.delete n (files p)\<rparr>"
  have "HEADER_OFFSET_DATA \<le> length (c (handle f))" using i Some by (auto simp: handle_ok_def)
  then obtain h' where h': "set_associated_filename E (handle f) None 0 ?q = (Inr (), h', ?q\<lparr>header_buffer := header_of [] 0\<rparr>)"
      "handle_ok E c None h'"
    using set_name_cleared [of E c ?q "handle f" 0] i by auto
  let ?p = "?q\<lparr>header_buffer := header_of [] 0, available := available p @ [f\<lparr>handle := h'\<rparr>]\<rparr>"
  have d: "delete_file E n p = (Inr True, ?p)" using Some h' by (simp add: delete_file_def)
  have "pool_inv E c ?p"
    using i h'(2) distinct_delete [of "files p" n] by (auto simp: pool_inv_def length_header_of)
  moreover have "stored c ?p = (stored c p)(n := None)" by (auto simp: stored_def fun_eq_iff)
  ultimately show ?thesis using d Some by (auto simp: has_filename_def)
qed

lemma store_ciphertext_effect:
  assumes E: "sah_ok E c" and g: "gate (d_fault d) = (True, d_fault d)" and l: "HEADER_OFFSET_DATA \<le> length (c (handle (d_file d)))"
    and b: "HEADER_OFFSET_DATA + length ct < 2 ^ 32"
  shows "\<exists>h. store_ciphertext E ct d = (Inr (), set_handle h d)
    \<and> c h = take HEADER_OFFSET_DATA (c (handle (d_file d))) @ ct"
proof -
  let ?h = "handle (d_file d)"
  have u: "usize_add HEADER_OFFSET_DATA (length ct) = HEADER_OFFSET_DATA + length ct" "usize_add HEADER_OFFSET_DATA 0 = HEADER_OFFSET_DATA"
    using b by (simp_all add: usize_add_def)
  obtain o1 h1 where t: "sah_truncate E ?h (HEADER_OFFSET_DATA + length ct) = (o1, h1)" by fastforce
  have o1: "o1" "c h1 = resize (HEADER_OFFSET_DATA + length ct) (c ?h)"
    using sah_okD(5,6) [OF E, of ?h "HEADER_OFFSET_DATA + length ct"] t by simp_all
  obtain r2 h2 where w: "sah_write E h1 HEADER_OFFSET_DATA ct = (r2, h2)" by fastforce
  have r2: "r2 = Some (length ct)" "c h2 = blit HEADER_OFFSET_DATA ct (c h1)"
    using sah_okD(3,4) [OF E, of h1 HEADER_OFFSET_DATA ct] w by simp_all
  obtain o3 h3 where f: "sah_flush E h2 = (o3, h3)" by fastforce
  have o3: "o3" "c h3 = c h2" using sah_okD(7,8) [OF E, of h2] f by simp_all
  have "take HEADER_OFFSET_DATA (c h1) = take HEADER_OFFSET_DATA (c ?h)" "length (c h1) = HEADER_OFFSET_DATA + length ct"
    using o1(2) l by (simp_all add: resize_def)
  then have "c h3 = take HEADER_OFFSET_DATA (c ?h) @ ct" using o3(2) r2(2) by (simp add: blit_def)
  moreover have "store_ciphertext E ct d = (Inr (), set_handle h3 d)"
    using t o1(1) w r2(1) f o3(1) g u
    by (simp add: store_ciphertext_def lift_vfs_def phys_truncate_def phys_write_def raw_flush_def set_handle_def Let_def)
  ultimately show ?thesis by blast
qed

lemma with_new_file_effect:
  assumes inv: "pool_inv E c p" and free: "available p \<noteq> []" and new: "\<not> has_filename p n" and nm: "name_ok n"
    and fl: "flags_persist E fl"
  obtains f q where "with_new_file E n fl op p = (case op (dev_of q f) of (r, d) \<Rightarrow> (r, put_dev n d q))"
    and "pool_inv E c (put_file n f q)" and "handle_ok E c (Some n) (handle f)" and "f_file_id f = file_id_for E n"
    and "\<And>g. stored c (put_file n g q) = (stored c p)(n \<mapsto> drop HEADER_OFFSET_DATA (c (handle g)))"
    and "\<And>g. put_file n g q = put_file n g (put_file n f q)" and "healthy q" and "pool_rest q = pool_rest p"
    and "logical_size f = Some 0"
    and "length (available q) = length (available p) - 1"
    and "drop HEADER_OFFSET_DATA (c (handle f)) = drop HEADER_OFFSET_DATA (c (handle (last (available p))))"
    and "\<And>m. m \<noteq> n \<Longrightarrow> lookup_file q m = lookup_file p m"
proof -
  note i = inv [unfolded pool_inv_def]
  let ?f = "(last (available p))\<lparr>f_file_id := file_id_for E n, logical_size := Some 0\<rparr>"
  let ?p1 = "put_file n ?f (p\<lparr>available := butlast (available p)\<rparr>)"
  have ok: "handle_ok E c None (handle ?f)" using i last_in_set [OF free] by auto
  then have "HEADER_OFFSET_DATA \<le> length (c (handle ?f))" by (simp add: handle_ok_def)
  then obtain h' where h': "set_associated_filename E (handle ?f) (Some n) fl ?p1 = (Inr (), h', ?p1\<lparr>header_buffer := header_of n fl\<rparr>)"
      "handle_ok E c (Some n) h'" "drop HEADER_OFFSET_DATA (c h') = drop HEADER_OFFSET_DATA (c (handle (last (available p))))"
    using set_name_bound [of E c ?p1 n "handle ?f" fl] i nm fl by auto
  let ?g = "?f\<lparr>handle := h'\<rparr>"
  let ?q = "put_file n ?g (?p1\<lparr>header_buffer := header_of n fl\<rparr>)"
  have w: "with_new_file E n fl op p = (case op (dev_of ?q ?g) of (r, d) \<Rightarrow> (r, put_dev n d ?q))"
    using free new h' by (simp add: with_new_file_def has_filename_def Let_def)
  have s: "stored c (put_file n g ?q) = (stored c p)(n \<mapsto> drop HEADER_OFFSET_DATA (c (handle g)))" for g
    using new by (auto simp: stored_def fun_eq_iff has_filename_def)
  have len: "length (header_of n fl) = HEADER_CORPUS_SIZE" using nm by (intro length_header_of) (simp add: name_ok_def)
  have iq: "pool_inv E c (put_file n ?g ?q)"
    using i h'(2) len in_set_butlastD [of _ "available p"] by (auto simp: pool_inv_def)
  have over: "put_file n g ?q = put_file n g (put_file n ?g ?q)" for g
    by (simp add: put_file_def)
  show ?thesis
  proof (rule that [OF w iq _ _ s over])
    show "handle_ok E c (Some n) (handle ?g)" using h'(2) by simp
    show "healthy ?q" using i by simp
    show "drop HEADER_OFFSET_DATA (c (handle ?g)) = drop HEADER_OFFSET_DATA (c (handle (last (available p))))" using h'(3) by simp
  qed simp_all
qed

lemma import_effect:
  assumes inv: "pool_inv E c p" and free: "available p \<noteq> [] \<or> has_filename p n" and nm: "name_ok n"
    and b: "HEADER_OFFSET_DATA + length ct < 2 ^ 32"
  shows "\<exists>p'. import_ciphertext_file E n ct p = (Inr (), p') \<and> pool_inv E c p' \<and> stored c p' = (stored c p)(n \<mapsto> ct)
    \<and> length (available p') = length (available p) - (if has_filename p n then 0 else 1) \<and> pool_rest p' = pool_rest p"
proof -
  obtain p1 where p1: "delete_file E n p = (Inr (has_filename p n), p1)" "pool_inv E c p1"
      "stored c p1 = (stored c p)(n := None)" "available p1 \<noteq> []" "\<not> has_filename p1 n"
      "length (available p1) = length (available p) + (if has_filename p n then 1 else 0)" "pool_rest p1 = pool_rest p"
  proof -
    obtain p1 where d: "delete_file E n p = (Inr (has_filename p n), p1)" "pool_inv E c p1"
      "stored c p1 = (stored c p)(n := None)"
      "length (available p1) = length (available p) + (if has_filename p n then 1 else 0)" "pool_rest p1 = pool_rest p"
      using delete_file_effect [OF inv, of n] by blast
    have "0 < length (available p1)" using d(4) free by (cases "has_filename p n") simp_all
    then have "available p1 \<noteq> []" by simp
    moreover have "\<not> has_filename p1 n" by (simp add: has_filename_stored [of _ _ c] d(3))
    ultimately show ?thesis using d that by blast
  qed
  have fl: "flags_persist E (SQLITE_OPEN_MAIN_DB E)" using inv by (intro flags_persist_main) (simp add: pool_inv_def)
  obtain f q where w: "with_new_file E n (SQLITE_OPEN_MAIN_DB E) (store_ciphertext E ct) p1
        = (case store_ciphertext E ct (dev_of q f) of (r, d) \<Rightarrow> (r, put_dev n d q))"
      and iq: "pool_inv E c (put_file n f q)" and ok: "handle_ok E c (Some n) (handle f)" and id: "f_file_id f = file_id_for E n"
      and st: "\<And>g. stored c (put_file n g q) = (stored c p1)(n \<mapsto> drop HEADER_OFFSET_DATA (c (handle g)))"
      and over: "\<And>g. put_file n g q = put_file n g (put_file n f q)" and hq: "healthy q"
      and rq: "pool_rest q = pool_rest p1" "length (available q) = length (available p1) - 1"
    using with_new_file_effect [OF p1(2,4,5) nm fl] by metis
  have S: "sah_ok E c" and l: "HEADER_OFFSET_DATA \<le> length (c (handle f))"
    using inv ok by (auto simp: pool_inv_def handle_ok_def)
  obtain h where h: "store_ciphertext E ct (dev_of q f) = (Inr (), set_handle h (dev_of q f))"
      "c h = take HEADER_OFFSET_DATA (c (handle f)) @ ct"
    using store_ciphertext_effect [OF S _ _ b, of "dev_of q f"] gate_healthy [OF hq] l by (auto simp: dev_of_def)
  let ?f = "f\<lparr>handle := h\<rparr>"
  have pd: "put_dev n (set_handle h (dev_of q f)) q = put_file n ?f q"
    by (simp add: put_dev_def set_handle_def dev_of_def put_file_def)
  have hok: "handle_ok E c (Some n) h"
    using ok h(2) by (auto simp: handle_ok_def header_sizes min_def)
  have "pool_inv E c (put_file n ?f q)"
    using iq hok id unfolding over [of ?f] by (auto simp: pool_inv_def)
  moreover have "stored c (put_file n ?f q) = (stored c p)(n \<mapsto> ct)"
    using h(2) l p1(3) by (simp add: st)
  ultimately show ?thesis using w h(1) pd rq p1(6,7) by (auto simp add: import_ciphertext_file_def p1(1))
qed

lemma export_effect:
  assumes "pool_inv E c p"
  shows "export_raw E n p = (case stored c p n of None \<Rightarrow> Inl FileNotFound | Some b \<Rightarrow> Inr b)"
proof -
  have "sah_ok E c" using assms by (simp add: pool_inv_def)
  then show ?thesis
    by (auto simp: export_raw_def stored_def export_handle_def Let_def slice_def split: option.splits)
qed

section \<open>The contract of the pool\<close>

text \<open>
  A store of named files: \<open>view\<close> is its contents, \<open>free\<close> the number of files it can still add.
\<close>

locale file_store =
  fixes inv :: "'p \<Rightarrow> bool"
    and view :: "'p \<Rightarrow> str \<rightharpoonup> bytes"
    and free :: "'p \<Rightarrow> nat"
    and put :: "str \<Rightarrow> bytes \<Rightarrow> 'p \<Rightarrow> ('e + unit) \<times> 'p"
    and del :: "str \<Rightarrow> 'p \<Rightarrow> ('e + bool) \<times> 'p"
    and get :: "str \<Rightarrow> 'p \<Rightarrow> 'e + bytes"
    and admits :: "str \<Rightarrow> bytes \<Rightarrow> bool"
    and absent :: 'e
  assumes get_view: "inv p \<Longrightarrow> get n p = (case view p n of None \<Rightarrow> Inl absent | Some b \<Rightarrow> Inr b)"
    and put_view: "inv p \<Longrightarrow> 0 < free p \<or> view p n \<noteq> None \<Longrightarrow> admits n b \<Longrightarrow>
      \<exists>p'. put n b p = (Inr (), p') \<and> inv p' \<and> view p' = (view p)(n \<mapsto> b)
        \<and> free p' = free p - (if view p n = None then 1 else 0)"
    and del_view: "inv p \<Longrightarrow>
      \<exists>p'. del n p = (Inr (view p n \<noteq> None), p') \<and> inv p' \<and> view p' = (view p)(n := None)
        \<and> free p' = free p + (if view p n = None then 0 else 1)"
begin

lemma get_put:
  assumes "inv p" "0 < free p \<or> view p n \<noteq> None" "admits n b" "put n b p = (r, p')"
  shows "r = Inr () \<and> inv p' \<and> get n p' = Inr b \<and> (\<forall>m. m \<noteq> n \<longrightarrow> get m p' = get m p)"
  using put_view [OF assms(1-3)] assms(1,4) by (auto simp: get_view)

lemma get_del:
  assumes "inv p" "del n p = (r, p')"
  shows "r = Inr (view p n \<noteq> None) \<and> inv p' \<and> get n p' = Inl absent \<and> (\<forall>m. m \<noteq> n \<longrightarrow> get m p' = get m p)"
  using del_view [OF assms(1), of n] assms by (auto simp: get_view)

text \<open>A list of files written one after the other: the last one of a name stays.\<close>

fun put_all :: "(str \<times> bytes) list \<Rightarrow> 'p \<Rightarrow> ('e + unit) \<times> 'p" where
  "put_all [] p = (Inr (), p)"
| "put_all ((n, b) # fs) p = st_then (put n b p) (\<lambda>_ p. put_all fs p)"

lemma put_all_view:
  "inv p \<Longrightarrow> card (fst ` set fs - dom (view p)) \<le> free p \<Longrightarrow> (\<And>n b. (n, b) \<in> set fs \<Longrightarrow> admits n b) \<Longrightarrow>
   \<exists>p'. put_all fs p = (Inr (), p') \<and> inv p' \<and> view p' = view p ++ map_of (rev fs)"
proof (induction fs arbitrary: p)
  case Nil
  then show ?case by simp
next
  case (Cons f fs)
  obtain n b where f: "f = (n, b)" by fastforce
  have fin: "finite (fst ` set fs)" by simp
  have room: "0 < free p \<or> view p n \<noteq> None"
  proof (rule ccontr)
    assume a: "\<not> ?thesis"
    then have "n \<in> fst ` set (f # fs) - dom (view p)" by (auto simp: f)
    then have "0 < card (fst ` set (f # fs) - dom (view p))" by (intro card_gt_0_iff [THEN iffD2]) auto
    then show False using a Cons.prems(2) by linarith
  qed
  obtain p1 where p1: "put n b p = (Inr (), p1)" "inv p1" "view p1 = (view p)(n \<mapsto> b)"
      "free p1 = free p - (if view p n = None then 1 else 0)"
    using put_view [OF Cons.prems(1) room Cons.prems(3)] f by auto
  have "card (fst ` set fs - dom (view p1)) \<le> free p1"
  proof (cases "view p n")
    case None
    have "fst ` set (f # fs) - dom (view p) = insert n (fst ` set fs - dom (view p1))"
      using None by (auto simp: f p1(3))
    moreover have "n \<notin> fst ` set fs - dom (view p1)" by (simp add: p1(3))
    ultimately have "card (fst ` set (f # fs) - dom (view p)) = Suc (card (fst ` set fs - dom (view p1)))"
      using fin by simp
    then show ?thesis using Cons.prems(2) None p1(4) by simp
  next
    case (Some x)
    then have "fst ` set fs - dom (view p1) \<subseteq> fst ` set (f # fs) - dom (view p)" by (auto simp: f p1(3))
    then have "card (fst ` set fs - dom (view p1)) \<le> card (fst ` set (f # fs) - dom (view p))"
      by (intro card_mono) simp_all
    then show ?thesis using Cons.prems(2) Some p1(4) by simp
  qed
  then obtain p' where "put_all fs p1 = (Inr (), p')" "inv p'" "view p' = view p1 ++ map_of (rev fs)"
    using Cons.IH [OF p1(2)] Cons.prems(3) by auto
  moreover have "view p1 ++ map_of (rev fs) = view p ++ map_of (rev (f # fs))"
    by (simp add: f p1(3) map_add_upd_left)
  ultimately show ?case using p1(1) f by auto
qed

end

definition file_fits :: "str \<Rightarrow> bytes \<Rightarrow> bool" where
  "file_fits n b \<longleftrightarrow> name_ok n \<and> HEADER_OFFSET_DATA + length b < 2 ^ 32"

interpretation files: file_store "pool_inv E c" "stored c" "\<lambda>p. length (available p)" "import_ciphertext_file E"
    "delete_file E" "export_raw E" file_fits FileNotFound for E c
proof
  fix p n
  assume "pool_inv E c p"
  then show "export_raw E n p = (case stored c p n of None \<Rightarrow> Inl FileNotFound | Some b \<Rightarrow> Inr b)"
    by (rule export_effect)
next
  fix p n b
  assume a: "pool_inv E c p" "0 < length (available p) \<or> stored c p n \<noteq> None" "file_fits n b"
  then show "\<exists>p'. import_ciphertext_file E n b p = (Inr (), p') \<and> pool_inv E c p' \<and> stored c p' = (stored c p)(n \<mapsto> b)
        \<and> length (available p') = length (available p) - (if stored c p n = None then 1 else 0)"
    using import_effect [OF a(1), of n b] by (auto simp: file_fits_def has_filename_stored [of _ _ c] split: if_splits)
next
  fix p n
  assume "pool_inv E c p"
  then show "\<exists>p'. delete_file E n p = (Inr (stored c p n \<noteq> None), p') \<and> pool_inv E c p' \<and> stored c p' = (stored c p)(n := None)
        \<and> length (available p') = length (available p) + (if stored c p n = None then 0 else 1)"
    using delete_file_effect [of E c p n] by (auto simp: has_filename_stored [of _ _ c] split: if_splits)
qed

section \<open>Importing a bundle\<close>

lemma valid_pool_filename_iff:
  "valid_pool_filename n \<longleftrightarrow> (\<exists>base. base \<noteq> [] \<and> length base \<le> 32 \<and> list_all base_char base
     \<and> (n = base @ ascii ''.db'' \<or> n = base @ ascii ''.db#manifest''))" (is "_ = (\<exists>b. ?w b)")
proof
  assume "valid_pool_filename n"
  then show "\<exists>b. ?w b"
    by (auto simp: valid_pool_filename_def result_simps split: option.splits)
next
  assume "\<exists>b. ?w b"
  then obtain b where b: "b \<noteq> []" "length b \<le> 32" "list_all base_char b"
    and n: "n = b @ ascii ''.db'' \<or> n = b @ ascii ''.db#manifest''" by blast
  have s: "strip_suffix (b @ ascii ''.db'') (ascii ''.db'') = Some b" by simp
  from n show "valid_pool_filename n"
  proof
    assume n: "n = b @ ascii ''.db''"
    have "strip_suffix n (ascii ''#manifest'') = None"
      by (simp add: n strip_suffix_def ends_with_def)
    then show ?thesis using b by (simp add: valid_pool_filename_def n s)
  next
    assume n: "n = b @ ascii ''.db#manifest''"
    have "n = (b @ ascii ''.db'') @ ascii ''#manifest''" by (simp add: n)
    then have "strip_suffix n (ascii ''#manifest'') = Some (b @ ascii ''.db'')" by (simp only: strip_suffix_append)
    then show ?thesis using b by (simp add: valid_pool_filename_def s)
  qed
qed

lemma base_char_ascii: "base_char b \<Longrightarrow> b < 0x80 \<and> b \<noteq> 0"
  by (auto simp: base_char_def word_le_nat_alt word_less_nat_alt)

lemma valid_name_ok: "valid_pool_filename n \<Longrightarrow> name_ok n"
proof -
  assume "valid_pool_filename n"
  then obtain b where b: "length b \<le> 32" "list_all base_char b"
    and n: "n = b @ ascii ''.db'' \<or> n = b @ ascii ''.db#manifest''" by (auto simp: valid_pool_filename_iff)
  have "\<forall>x \<in> set b. x < 0x80 \<and> x \<noteq> 0" using b(2) base_char_ascii unfolding list_all_iff by blast
  then have "x < 0x80 \<and> x \<noteq> 0" if "x \<in> set n" for x using n that by auto
  then have "utf8_valid n" "0 \<notin> set n" by (blast intro: utf8_valid_ascii)+
  then show ?thesis using b(1) n by (auto simp: name_ok_def HEADER_MAX_FILENAME_SIZE_def)
qed

lemma import_all_eq: "import_all E fs p = file_store.put_all (import_ciphertext_file E) fs p"
proof (induction fs arbitrary: p)
  case Nil
  then show ?case by (simp add: files.put_all.simps)
next
  case (Cons f fs)
  have "import_all E fs = file_store.put_all (import_ciphertext_file E) fs" using Cons.IH by (rule ext)
  then show ?case by (cases f) (simp add: files.put_all.simps)
qed

section \<open>Loading the pool from its handles\<close>

lemma get_name_effect:
  assumes "sah_ok E c" and "length (header_buffer p) = HEADER_CORPUS_SIZE" and "HEADER_OFFSET_DATA \<le> length (c h)"
  shows "\<exists>h'. get_associated_filename E h p
      = (Inr (hdr_name E (take HEADER_CORPUS_SIZE (c h))), h', p\<lparr>header_buffer := take HEADER_CORPUS_SIZE (c h)\<rparr>)
    \<and> HEADER_OFFSET_DATA \<le> length (c h') \<and> (hdr_name E (take HEADER_CORPUS_SIZE (c h)) \<noteq> None \<longrightarrow> h' = h)"
proof -
  let ?b = "take HEADER_CORPUS_SIZE (c h)"
  have l: "length ?b = HEADER_CORPUS_SIZE" using assms(3) by (simp add: header_sizes)
  have b: "put_at 0 ?b (header_buffer p) = ?b" using assms(2) l by (simp add: put_at_def)
  have r: "sah_read E h 0 (length (header_buffer p)) = Some ?b"
    using assms(1,2) by (simp add: slice_def)
  obtain ok h1 where t: "sah_truncate E h HEADER_OFFSET_DATA = (ok, h1)" by fastforce
  have ok: "ok" "c h1 = take HEADER_OFFSET_DATA (c h)"
    using sah_okD(5,6) [OF assms(1), of h HEADER_OFFSET_DATA] t assms(3) by (simp_all add: resize_shrink)
  show ?thesis
    using assms(3) r b t ok by (auto simp: get_associated_filename_def hdr_name_def Let_def)
qed

definition load :: "('h, 'z) env_scheme \<Rightarrow> ('h \<Rightarrow> bytes) \<Rightarrow> 'h \<Rightarrow> (str \<rightharpoonup> bytes) \<Rightarrow> (str \<rightharpoonup> bytes)" where
  "load E c h m = (case hdr_name E (take HEADER_CORPUS_SIZE (c h)) of
     None \<Rightarrow> m | Some n \<Rightarrow> m(n \<mapsto> drop HEADER_OFFSET_DATA (c h)))"

lemma clear_file_effect:
  assumes inv: "pool_inv E c p"
  shows "\<exists>p'. clear_file E f p = (Inr (), p') \<and> pool_inv E c p' \<and> stored c p' = stored c p
    \<and> length (available p') = length (available p) + 1 \<and> pool_rest p' = pool_rest p"
proof -
  note i = inv [unfolded pool_inv_def]
  obtain h' where h': "set_associated_filename E (handle f) None 0 p = (Inr (), h', p\<lparr>header_buffer := header_of [] 0\<rparr>)"
      "handle_ok E c None h'"
    using set_name_cleared [of E c p "handle f" 0] i by auto
  then show ?thesis using i by (auto simp: clear_file_def pool_inv_def length_header_of)
qed

text \<open>An entry of the directory as the iterator gives it for a healthy file.\<close>

definition entry_of :: "'h saf \<Rightarrow> 'h dir_entry" where
  "entry_of f = (Some (opaque f), True, Some (handle f))"

lemma acquire_entry_effect:
  assumes inv: "pool_inv E c q" and l: "HEADER_OFFSET_DATA \<le> length (c (handle f))"
  shows "\<exists>q'. acquire_entry E False (entry_of f) q = (Inr (), q') \<and> pool_inv E c q'
    \<and> stored c q' = load E c (handle f) (stored c q) \<and> pool_rest q' = pool_rest q"
proof -
  note i = inv [unfolded pool_inv_def]
  let ?n = "hdr_name E (take HEADER_CORPUS_SIZE (c (handle f)))"
  let ?q = "q\<lparr>header_buffer := take HEADER_CORPUS_SIZE (c (handle f))\<rparr>"
  obtain h' where g: "get_associated_filename E (handle f) q = (Inr ?n, h', ?q)"
      "HEADER_OFFSET_DATA \<le> length (c h')" "?n \<noteq> None \<longrightarrow> h' = handle f"
    using get_name_effect [of E c q "handle f"] i l by blast
  have iq: "pool_inv E c ?q" using i l by (simp add: pool_inv_def header_sizes)
  let ?f = "make_file q (handle f) (opaque f)"
  show ?thesis
  proof (cases ?n)
    case None
    obtain q' where q': "clear_file E (?f\<lparr>handle := h'\<rparr>) ?q = (Inr (), q')" "pool_inv E c q'" "stored c q' = stored c ?q"
        "pool_rest q' = pool_rest ?q"
      using clear_file_effect [OF iq, of "?f\<lparr>handle := h'\<rparr>"] by auto
    then show ?thesis using g(1) None by (simp add: acquire_entry_def entry_of_def Let_def load_def)
  next
    case (Some n)
    let ?g = "?f\<lparr>handle := h', f_file_id := file_id_for E n, logical_size := None\<rparr>"
    have h: "h' = handle f" using g(3) Some by simp
    have "acquire_entry E False (entry_of f) q = (Inr (), put_file n ?g ?q)"
      using g(1) Some by (simp add: acquire_entry_def entry_of_def Let_def)
    moreover have "pool_inv E c (put_file n ?g ?q)"
      using iq l Some h by (auto simp: pool_inv_def handle_ok_def)
    moreover have "stored c (put_file n ?g ?q) = load E c (handle f) (stored c q)"
      using Some h by (simp add: stored_put_file load_def)
    ultimately show ?thesis by simp
  qed
qed

lemma acquire_entries_effect:
  "pool_inv E c q \<Longrightarrow> (\<And>f. f \<in> set fs \<Longrightarrow> HEADER_OFFSET_DATA \<le> length (c (handle f))) \<Longrightarrow>
   \<exists>q'. acquire_entries E False (map entry_of fs) q = (Inr (), q') \<and> pool_inv E c q'
    \<and> stored c q' = fold (\<lambda>f. load E c (handle f)) fs (stored c q) \<and> pool_rest q' = pool_rest q"
proof (induction fs arbitrary: q)
  case Nil
  then show ?case by simp
next
  case (Cons f fs)
  obtain q1 where "acquire_entry E False (entry_of f) q = (Inr (), q1)" "pool_inv E c q1"
      "stored c q1 = load E c (handle f) (stored c q)" "pool_rest q1 = pool_rest q"
    using acquire_entry_effect [OF Cons.prems(1), of f] Cons.prems(2) by auto
  then show ?case using Cons.IH [of q1] Cons.prems(2) by auto
qed

lemma load_apply: "load E c h m n = (if hdr_name E (take HEADER_CORPUS_SIZE (c h)) = Some n
    then Some (drop HEADER_OFFSET_DATA (c h)) else m n)"
  by (auto simp: load_def split: option.splits)

lemma fold_load:
  assumes "\<And>f. f \<in> set fs \<Longrightarrow> hdr_name E (take HEADER_CORPUS_SIZE (c (handle f))) = Some n \<Longrightarrow> drop HEADER_OFFSET_DATA (c (handle f)) = b"
  shows "fold (\<lambda>f. load E c (handle f)) fs m n
    = (if \<exists>f \<in> set fs. hdr_name E (take HEADER_CORPUS_SIZE (c (handle f))) = Some n then Some b else m n)"
  using assms
proof (induction fs arbitrary: m)
  case (Cons f fs)
  have "fold (\<lambda>f. load E c (handle f)) fs (load E c (handle f) m) n
    = (if \<exists>f \<in> set fs. hdr_name E (take HEADER_CORPUS_SIZE (c (handle f))) = Some n then Some b
       else load E c (handle f) m n)" using Cons by simp
  then show ?case using Cons.prems [of f] load_apply [of E c "handle f" m n] by auto
qed simp

section \<open>Properties\<close>

text \<open>A new pool on an empty directory: the files the loop creates are all free.\<close>

lemma add_capacity_effect:
  assumes "pool_inv E c p" and "\<forall>e \<in> set es. snd e \<noteq> None"
  shows "\<exists>p'. add_capacity E es p = (Inr (get_capacity p'), p') \<and> pool_inv E c p' \<and> stored c p' = stored c p
    \<and> length (available p') = length (available p) + length es \<and> pool_rest p' = pool_rest p"
  using assms
proof (induction es arbitrary: p)
  case (Cons e es)
  obtain n h where e: "e = (n, Some h)" using Cons.prems(2) by (cases e) auto
  obtain p1 where p1: "clear_file E (make_file p h n) p = (Inr (), p1)" "pool_inv E c p1" "stored c p1 = stored c p"
      "length (available p1) = length (available p) + 1" "pool_rest p1 = pool_rest p"
    using clear_file_effect [OF Cons.prems(1)] by blast
  then show ?case using Cons.IH [OF p1(2)] Cons.prems(2) e by auto
qed simp

lemma pool_new_effect:
  assumes "sah_ok E c" and "flags_ok E" and "rng_selftest rng = (True, rng')"
    and "\<forall>e \<in> set fresh. snd e \<noteq> None" and "capacity \<le> length fresh"
  shows "\<exists>p. pool_new E k clear capacity (Some h) [] fresh rng = Inr p \<and> pool_inv E c p \<and> stored c p = Map.empty
    \<and> length (available p) = capacity \<and> dek p = k \<and> open_files p = [] \<and> \<not> is_paused p \<and> dbs p = [] \<and> anchor_handle p \<noteq> None"
proof -
  let ?p0 = "empty_pool E k rng' :: 'a pool"
  have f0: "open_files ?p0 = []" "\<not> is_paused ?p0" "dbs ?p0 = []" "dek ?p0 = k" "anchor_handle ?p0 = None" "available ?p0 = []" "files ?p0 = []"
      "p_fault ?p0 = fault_new" "length (header_buffer ?p0) = HEADER_CORPUS_SIZE"
    by (simp_all add: empty_pool_def split: prod.splits)
  obtain h' where a: "acquire_anchor E (Some h) ?p0 = (Inr (), ?p0\<lparr>anchor_handle := Some h'\<rparr>)"
  proof (cases "length (c h) < 2 * PHYS_BLOCK")
    case True
    obtain h1 where h1: "sah_truncate E h (2 * PHYS_BLOCK) = (True, h1)" using sah_okD(5) [OF assms(1), of h "2 * PHYS_BLOCK"] by (metis prod.collapse)
    obtain h2 where h2: "sah_flush E h1 = (True, h2)" using sah_okD(7) [OF assms(1), of h1] by (metis prod.collapse)
    show ?thesis using that [of h2] True f0(5) h1 h2 sah_okD(1) [OF assms(1), of h] by (simp add: acquire_anchor_def)
  next
    case False
    then show ?thesis using that [of h] f0(5) sah_okD(1) [OF assms(1), of h] by (simp add: acquire_anchor_def)
  qed
  let ?p1 = "?p0\<lparr>anchor_handle := Some h'\<rparr>"
  have i: "pool_inv E c ?p1" using assms(1,2) f0 by (simp add: pool_inv_def healthy_def fault_new_def lookup_file_def)
  have "capacity - get_capacity ?p1 = capacity" using f0 by (simp add: get_capacity_def)
  then obtain p' where p': "add_capacity E (take (capacity - get_capacity ?p1) fresh) ?p1 = (Inr (get_capacity p'), p')" "pool_inv E c p'"
      "stored c p' = stored c ?p1" "length (available p') = length (available ?p1) + capacity" "pool_rest p' = pool_rest ?p1"
    using add_capacity_effect [OF i, of "take (capacity - get_capacity ?p1) fresh"] assms(4,5) by (auto dest: in_set_takeD)
  have "pool_new E k clear capacity (Some h) [] fresh rng = Inr p'"
    using assms(3) a p'(1) by (simp add: pool_new_def acquire_access_handles_def reserve_minimum_capacity_def)
  moreover have "stored c ?p1 = Map.empty" using f0 by (simp add: stored_def lookup_file_def fun_eq_iff)
  ultimately show ?thesis using p' f0 by (intro exI [of _ p']) (simp add: pool_rest_def)
qed

text \<open>Files with legal names are all written; any pool with room takes them.\<close>

lemma import_files_view:
  assumes "pool_inv E c p" and "card (fst ` set fs - dom (stored c p)) \<le> length (available p)"
    and "\<forall>(n, b) \<in> set fs. valid_pool_filename n \<and> length b < 2 ^ 31"
  shows "\<exists>p'. import_files E fs p = (Inr (), p') \<and> pool_inv E c p' \<and> stored c p' = stored c p ++ map_of (rev fs)"
proof -
  have v: "\<not> list_ex (\<lambda>(n, _). \<not> valid_pool_filename n) fs" using assms(3) by (auto simp: list_ex_iff)
  have "file_fits n b" if "(n, b) \<in> set fs" for n b
    using that assms(3) valid_name_ok by (fastforce simp: file_fits_def HEADER_OFFSET_DATA_def)
  then obtain p' where "import_all E fs p = (Inr (), p')" "pool_inv E c p'" "stored c p' = stored c p ++ map_of (rev fs)"
    using files.put_all_view [OF assms(1,2)] unfolding import_all_eq by blast
  then show ?thesis using v by (auto simp: import_files_def)
qed

text \<open>
  Importing the files of a bundle is all or nothing in its names: one name outside the grammar
  refuses the whole import with nothing touched; otherwise, with room for the new names, every
  file is stored under its name exactly as given (the last of equal names wins), all other files
  keep their contents, and the pool keeps its invariant: distinct names, each recorded in its
  file's own header, and free files marked free.
\<close>

theorem import_files_effect:
  assumes "pool_inv E c p" and "card (fst ` set fs - dom (stored c p)) \<le> length (available p)"
    and "\<forall>(n, b) \<in> set fs. length b < 2 ^ 31"
  shows "(if \<exists>(n, b) \<in> set fs. \<not> valid_pool_filename n then import_files E fs p = (Inl IllegalName, p)
    else \<exists>p'. import_files E fs p = (Inr (), p') \<and> pool_inv E c p' \<and> stored c p' = stored c p ++ map_of (rev fs)
      \<and> (\<forall>n. export_raw E n p' = (case (stored c p ++ map_of (rev fs)) n of None \<Rightarrow> Inl FileNotFound | Some b \<Rightarrow> Inr b)))"
proof (cases "\<exists>(n, b) \<in> set fs. \<not> valid_pool_filename n")
  case True
  then show ?thesis by (auto simp: import_files_def list_ex_iff)
next
  case False
  then have "\<forall>(n, b) \<in> set fs. valid_pool_filename n \<and> length b < 2 ^ 31" using assms(3) by auto
  from import_files_view [OF assms(1,2) this] obtain p' where
    "import_files E fs p = (Inr (), p')" "pool_inv E c p'" "stored c p' = stored c p ++ map_of (rev fs)" by blast
  moreover from this have "export_raw E n p' = (case (stored c p ++ map_of (rev fs)) n of None \<Rightarrow> Inl FileNotFound | Some b \<Rightarrow> Inr b)" for n
    using files.get_view [of E c p' n] by simp
  ultimately show ?thesis using False by auto
qed

abbreviation (input) a_db :: str where "a_db \<equiv> [97, 46, 100, 98]"

lemma name_ok_ascii: "n \<noteq> [] \<Longrightarrow> length n < 500 \<Longrightarrow> (\<And>b. b \<in> set n \<Longrightarrow> 0 < b \<and> b < 0x80) \<Longrightarrow> name_ok n"
  using utf8_valid_ascii [of n] by (auto simp: name_ok_def HEADER_MAX_FILENAME_SIZE_def)

text \<open>A pool of two free files in memory, for the instances.\<close>

definition free_file :: "bytes saf" where
  "free_file = \<lparr>handle = header_of [] 0 @ replicate (HEADER_OFFSET_DATA - HEADER_CORPUS_SIZE) 0, opaque = [], f_crypto = [],
     f_file_id = [], f_key_domain = [], is_main_db = False, logical_size = None\<rparr>"

definition mem_pool :: "bytes pool" where
  "mem_pool = \<lparr>header_buffer = replicate HEADER_CORPUS_SIZE 0, available = [free_file, free_file], files = [],
     is_paused = False, open_files = [], dek = replicate 32 1, p_crypto = replicate 32 2, anchor_crypto = replicate 32 3,
     anchor_handle = None, dbs = [], p_fault = fault_new, device_id = replicate 16 0, p_rng = []\<rparr>"

lemma mem_pool_inv: "pool_inv mem_env (\<lambda>h. h) mem_pool"
proof -
  have l: "length (header_of [] 0) = HEADER_CORPUS_SIZE" by (rule length_header_of) simp
  then have "handle_ok mem_env (\<lambda>h. h) None (handle free_file)"
    using hdr_name_free [of mem_env 0] by (simp add: handle_ok_def free_file_def header_sizes)
  then show ?thesis by (simp add: pool_inv_def mem_pool_def healthy_def fault_new_def lookup_file_def)
qed

lemma mem_pool_stored: "stored c mem_pool = Map.empty"
  by (simp add: stored_def mem_pool_def lookup_file_def fun_eq_iff)

theorem import_files_effect_witness:
  "\<exists>p'. import_files mem_env [(ascii ''a.db'', [1, 2]), (ascii ''a.db#manifest'', [3])] mem_pool = (Inr (), p')
    \<and> export_raw mem_env (ascii ''a.db'') p' = Inr [1, 2]"
proof -
  let ?fs = "[(ascii ''a.db'', [1, 2]), (ascii ''a.db#manifest'', [3])] :: (str \<times> bytes) list"
  have v: "valid_pool_filename (ascii ''a.db'')" "valid_pool_filename (ascii ''a.db#manifest'')" by code_simp+
  have "card (fst ` set ?fs - dom (stored (\<lambda>h. h) mem_pool)) \<le> length (available mem_pool)"
  proof -
    have "length (available mem_pool) = 2" by (simp add: mem_pool_def)
    then show ?thesis by (simp add: mem_pool_stored)
  qed
  from import_files_effect [OF mem_pool_inv this] v show ?thesis
    by (auto simp: mem_pool_stored)
qed

lemma reacquire_entries:
  assumes "pool_inv E c p" and "mset fs = mset (map snd (files p) @ available p)"
    and "pool_inv E c q" and "files q = []"
  shows "\<exists>q'. acquire_entries E False (map entry_of fs) q = (Inr (), q') \<and> pool_inv E c q' \<and> stored c q' = stored c p"
proof -
  note i = assms(1) [unfolded pool_inv_def]
  have fs: "set fs = snd ` set (files p) \<union> set (available p)"
    using arg_cong [OF assms(2), of set_mset] by simp
  have d: "distinct (map fst (files p))" using i by blast
  have ok: "(\<exists>m. lookup_file p m = Some f \<and> handle_ok E c (Some m) (handle f)) \<or> handle_ok E c None (handle f)"
    if f: "f \<in> set fs" for f
  proof (cases "f \<in> set (available p)")
    case False
    then obtain m where "(m, f) \<in> set (files p)" using f fs by auto
    then show ?thesis using lookup_distinct [OF d] i by blast
  qed (use i in blast)
  have l: "f \<in> set fs \<Longrightarrow> HEADER_OFFSET_DATA \<le> length (c (handle f))" for f
    using ok [of f] by (auto simp: handle_ok_def)
  have named: "f \<in> set fs \<and> hdr_name E (take HEADER_CORPUS_SIZE (c (handle f))) = Some n \<longleftrightarrow> lookup_file p n = Some f" for f n
  proof
    assume "f \<in> set fs \<and> hdr_name E (take HEADER_CORPUS_SIZE (c (handle f))) = Some n"
    then show "lookup_file p n = Some f" using ok [of f] by (auto simp: handle_ok_def)
  next
    assume a: "lookup_file p n = Some f"
    then have "(n, f) \<in> set (files p)" using lookup_distinct [OF d] by blast
    then have "f \<in> set fs" unfolding fs by force
    moreover have "handle_ok E c (Some n) (handle f)" using i a by blast
    ultimately show "f \<in> set fs \<and> hdr_name E (take HEADER_CORPUS_SIZE (c (handle f))) = Some n" by (simp add: handle_ok_def)
  qed
  have "fold (\<lambda>f. load E c (handle f)) fs Map.empty n = stored c p n" for n
  proof (cases "lookup_file p n")
    case None
    then have "\<not> (\<exists>f \<in> set fs. hdr_name E (take HEADER_CORPUS_SIZE (c (handle f))) = Some n)" using named [of _ n] by simp
    then show ?thesis using None fold_load [of fs E c n "[]" Map.empty] by (simp add: stored_def)
  next
    case (Some f)
    then have ex: "\<exists>f \<in> set fs. hdr_name E (take HEADER_CORPUS_SIZE (c (handle f))) = Some n"
      using named [of f n] by blast
    have "fold (\<lambda>f. load E c (handle f)) fs Map.empty n
        = (if \<exists>f \<in> set fs. hdr_name E (take HEADER_CORPUS_SIZE (c (handle f))) = Some n
           then Some (drop HEADER_OFFSET_DATA (c (handle f))) else Map.empty n)"
    proof (rule fold_load)
      fix g assume "g \<in> set fs" and "hdr_name E (take HEADER_CORPUS_SIZE (c (handle g))) = Some n"
      then have "lookup_file p n = Some g" using named [of g n] by blast
      then show "drop HEADER_OFFSET_DATA (c (handle g)) = drop HEADER_OFFSET_DATA (c (handle f))" using Some by simp
    qed
    then show ?thesis using Some ex by (simp only: if_True stored_def option.map)
  qed
  then have e: "fold (\<lambda>f. load E c (handle f)) fs Map.empty = stored c p" by (rule ext)
  have "stored c q = Map.empty" using assms(4) by (simp add: stored_def lookup_file_def fun_eq_iff)
  then show ?thesis using acquire_entries_effect [of E c q fs, OF assms(3) l] e by metis
qed

text \<open>
  C31: The table of the pool can be rebuilt from the handles alone: scanning the files of a healthy
  pool, in whatever order the directory lists them, gives back exactly the same names with the
  same contents, as every name is in its file's header and no free file carries one.
\<close>

theorem reacquire_restores_files:
  assumes "pool_inv E c p" and "mset fs = mset (map snd (files p) @ available p)"
    and "pool_inv E c q" and "files q = []"
  shows "\<exists>q'. acquire_entries E False (map entry_of fs) q = (Inr (), q') \<and> pool_inv E c q' \<and> stored c q' = stored c p"
  by (rule reacquire_entries [OF assms])

theorem reacquire_restores_files_witness:
  "\<exists>p' q'. import_files mem_env [(ascii ''a.db'', [1, 2])] mem_pool = (Inr (), p')
    \<and> acquire_entries mem_env False (map entry_of (available p' @ map snd (files p'))) (mem_pool\<lparr>available := []\<rparr>) = (Inr (), q')
    \<and> stored (\<lambda>h. h) q' (ascii ''a.db'') = Some [1, 2]"
proof -
  have "file_fits (ascii ''a.db'') [1, 2]" 
  proof -
    have "valid_pool_filename (ascii ''a.db'')" by code_simp
    then show ?thesis using valid_name_ok by (simp add: file_fits_def HEADER_OFFSET_DATA_def)
  qed
  then obtain p' where p': "import_ciphertext_file mem_env (ascii ''a.db'') [1, 2] mem_pool = (Inr (), p')"
      "pool_inv mem_env (\<lambda>h. h) p'" "stored (\<lambda>h. h) p' = [ascii ''a.db'' \<mapsto> [1, 2]]"
    using files.put_view [OF mem_pool_inv, of "ascii ''a.db''" "[1, 2]"]
    by (auto simp: mem_pool_stored) (auto simp: mem_pool_def)
  have v: "valid_pool_filename (ascii ''a.db'')" by code_simp
  then have i: "import_files mem_env [(ascii ''a.db'', [1, 2])] mem_pool = (Inr (), p')"
    using p'(1) by (simp add: import_files_def)
  have q: "pool_inv mem_env (\<lambda>h. h) (mem_pool\<lparr>available := []\<rparr>)" using mem_pool_inv by (simp add: pool_inv_def)
  from reacquire_restores_files [OF p'(2) _ q, of "available p' @ map snd (files p')"] i p'(3)
  show ?thesis by (auto simp: mem_pool_def)
qed

text \<open>
  The header buffer is shared and its read is not checked for length: a directory entry whose
  file is shorter than a header (for instance one created just before a crash) takes the name of
  the file scanned before it and replaces that file in the table, so its contents are lost from
  view.
\<close>

theorem short_file_takes_previous_name:
  assumes "pool_inv E c q" and "handle_ok E c (Some n) h1" and "c h2 = []"
  shows "\<exists>q'. acquire_entries E False [(Some a, True, Some h1), (Some b, True, Some h2)] q = (Inr (), q')
    \<and> lookup_file q' n = Some ((make_file q h2 b)\<lparr>f_file_id := file_id_for E n\<rparr>) \<and> stored c q' n = Some []"
proof -
  note i = assms(1) [unfolded pool_inv_def]
  let ?hd = "take HEADER_CORPUS_SIZE (c h1)"
  let ?q1 = "put_file n ((make_file q h1 a)\<lparr>f_file_id := file_id_for E n\<rparr>) (q\<lparr>header_buffer := ?hd\<rparr>)"
  have nm: "hdr_name E ?hd = Some n" and l: "HEADER_OFFSET_DATA \<le> length (c h1)" using assms(2) by (simp_all add: handle_ok_def)
  have lh: "length ?hd = HEADER_CORPUS_SIZE" using l by (simp add: header_sizes)
  have g1: "get_associated_filename E h1 q = (Inr (Some n), h1, q\<lparr>header_buffer := ?hd\<rparr>)"
    using get_name_effect [of E c q h1] i l nm by auto
  have e1: "acquire_entry E False (Some a, True, Some h1) q = (Inr (), ?q1)"
    using g1 by (simp add: acquire_entry_def Let_def make_file_def)
  have "put_at 0 [] ?hd = ?hd" by (simp add: put_at_def)
  then have "get_associated_filename E h2 ?q1 = (Inr (Some n), h2, ?q1)"
    using i assms(3) nm lh
    by (auto simp: get_associated_filename_def slice_def hdr_name_def Let_def put_file_def split: if_splits)
  then have "acquire_entry E False (Some b, True, Some h2) ?q1
      = (Inr (), put_file n ((make_file q h2 b)\<lparr>f_file_id := file_id_for E n\<rparr>) ?q1)"
    by (simp add: acquire_entry_def Let_def make_file_def put_file_def)
  then show ?thesis using e1 assms(3) by (simp add: stored_def make_file_def)
qed

theorem short_file_takes_previous_name_witness:
  "\<exists>q'. acquire_entries mem_env False [(Some [], True, Some (header_of [97] 256 @ replicate 4000 5)), (Some [], True, Some [])] mem_pool = (Inr (), q')
    \<and> stored (\<lambda>h. h) q' [97] = Some []"
proof -
  have "flags_persist mem_env (SQLITE_OPEN_MAIN_DB mem_env)" by (intro flags_persist_main) simp
  then have fl: "flags_persist mem_env 256" by (simp add: mem_env_def prims.extend_def)
  have u: "utf8_valid [97]" by (rule utf8_valid_ascii) auto
  then have nm: "name_ok [97]" by (simp add: name_ok_def header_sizes)
  have "length (header_of [97] 256) = HEADER_CORPUS_SIZE" by (rule length_header_of) (simp add: header_sizes)
  then have "handle_ok mem_env (\<lambda>h. h) (Some [97]) (header_of [97] 256 @ replicate 4000 5)"
    using hdr_name_header [OF nm fl] by (simp add: handle_ok_def header_sizes)
  from short_file_takes_previous_name [OF mem_pool_inv this, of "[]" "[]" "[]"] show ?thesis by blast
qed

text \<open>A creation that is refused for its name leaves the name in the table, on a file whose header
  does not carry it.\<close>

lemma refused_name_stays_mapped:
  assumes "available p \<noteq> []" and "\<not> has_filename p n" and "HEADER_MAX_FILENAME_SIZE \<le> length n + 1" and "healthy p"
  shows "\<exists>p'. with_new_file E n fl op p = (Inl NameTooLong, p') \<and> has_filename p' n"
proof -
  have "n \<noteq> []" using assms(3) by (auto simp: header_sizes)
  then show ?thesis
    using assms by (simp add: with_new_file_def set_associated_filename_def gate_healthy Let_def has_filename_def)
qed

end
