(* ===== verification/Double_Buffer.thy ===== *)
theory Double_Buffer
  imports Prelude
begin

text \<open>
  The ping-pong discipline of the freshness anchor and of the manifest: a value of version \<open>v\<close>
  goes to slot \<open>v mod 2\<close>, a load takes the slot with the greater version that authenticates, and
  a write that is torn leaves the other slot intact.
\<close>

text \<open>One turn of the loading loops: a later slot wins only with a strictly greater version.\<close>

fun pick :: "('a \<Rightarrow> u64) \<Rightarrow> 'a option \<Rightarrow> 'a option \<Rightarrow> 'a option" where
  "pick ver best None = best"
| "pick ver None (Some x) = Some x"
| "pick ver (Some b) (Some x) = (if ver b < ver x then Some x else Some b)"

definition newest :: "('a \<Rightarrow> u64) \<Rightarrow> (nat \<Rightarrow> 'a option) \<Rightarrow> 'a option" where
  "newest ver slots = pick ver (pick ver None (slots 0)) (slots 1)"

definition slot_no :: "u64 \<Rightarrow> nat" where
  "slot_no v = unat v mod 2"

lemma slot_no_cases: "slot_no v = 0 \<or> slot_no v = 1"
  by (auto simp: slot_no_def)

lemma slot_no_succ: "slot_no (v + 1) = 1 - slot_no v"
proof (cases "v = - 1")
  case True
  then show ?thesis by (simp add: slot_no_def unsigned_minus_1_eq_mask mask_eq_exp_minus_1)
next
  case False
  then have "unat (v + 1) = unat v + 1" by (rule less_word_succ)
  then show ?thesis by (simp add: slot_no_def) presburger
qed

lemma pick_None [simp]: "pick ver None r = r"
  by (cases r) auto

lemma newest_cases:
  "newest ver s = (case s 1 of None \<Rightarrow> s 0
     | Some y \<Rightarrow> (case s 0 of None \<Rightarrow> Some y | Some x \<Rightarrow> if ver x < ver y then Some y else Some x))"
  by (simp add: newest_def split: option.split)

lemma newest_from: "newest ver s = Some x \<Longrightarrow> s 0 = Some x \<or> s 1 = Some x"
  by (auto simp: newest_cases split: option.splits if_splits)

lemma newest_max: "newest ver s = Some x \<Longrightarrow> k < 2 \<Longrightarrow> s k = Some y \<Longrightarrow> ver y \<le> ver x"
proof -
  assume n: "newest ver s = Some x" and "k < 2" and y: "s k = Some y"
  then have "k = 0 \<or> k = 1" by auto
  then show ?thesis using n y by (elim disjE) (auto simp: newest_cases split: option.splits if_splits)
qed

lemma newest_None: "newest ver s = None \<longleftrightarrow> s 0 = None \<and> s 1 = None"
  by (auto simp: newest_cases split: option.splits)

lemma newest_above:
  assumes "s k = Some x" and "k < 2" and "\<And>j y. j < 2 \<Longrightarrow> j \<noteq> k \<Longrightarrow> s j = Some y \<Longrightarrow> ver y < ver x"
  shows "newest ver s = Some x"
proof -
  from assms(2) have "k = 0 \<or> k = 1" by auto
  then show ?thesis
    using assms(1) assms(3) [of 0] assms(3) [of 1]
    by (elim disjE) (auto simp: newest_cases not_less split: option.splits dest: less_imp_le)
qed

text \<open>Every slot holds versions of its own parity.\<close>

definition parity_ok :: "('a \<Rightarrow> u64) \<Rightarrow> (nat \<Rightarrow> 'a option) \<Rightarrow> bool" where
  "parity_ok ver s \<longleftrightarrow> (\<forall>k < 2. \<forall>x. s k = Some x \<longrightarrow> slot_no (ver x) = k)"

lemma parity_slot: "parity_ok ver s \<Longrightarrow> newest ver s = Some x \<Longrightarrow> s (slot_no (ver x)) = Some x"
proof -
  assume p: "parity_ok ver s" and n: "newest ver s = Some x"
  from newest_from [OF n] show ?thesis
  proof
    assume "s 0 = Some x"
    then have "slot_no (ver x) = 0" using p by (simp add: parity_ok_def)
    then show ?thesis using \<open>s 0 = Some x\<close> by simp
  next
    assume "s 1 = Some x"
    then have "slot_no (ver x) = 1" using p by (simp add: parity_ok_def)
    then show ?thesis using \<open>s 1 = Some x\<close> by simp
  qed
qed

section \<open>The contract\<close>

text \<open>
  \<open>slot s k\<close> is what slot \<open>k\<close> of the storage \<open>s\<close> authenticates to; \<open>wrote x s s'\<close> says that a
  write of \<open>x\<close> went through, \<open>tore k s s'\<close> that slot \<open>k\<close> was overwritten with anything.
\<close>

locale double_buffer =
  fixes ver :: "'a \<Rightarrow> u64"
    and slot :: "'s \<Rightarrow> nat \<Rightarrow> 'a option"
    and wrote :: "'a \<Rightarrow> 's \<Rightarrow> 's \<Rightarrow> bool"
    and tore :: "nat \<Rightarrow> 's \<Rightarrow> 's \<Rightarrow> bool"
  assumes wrote_here: "wrote x s s' \<Longrightarrow> slot s' (slot_no (ver x)) = Some x"
    and wrote_tore: "wrote x s s' \<Longrightarrow> tore (slot_no (ver x)) s s'"
    and tore_other: "tore k s s' \<Longrightarrow> k < 2 \<Longrightarrow> slot s' (1 - k) = slot s (1 - k)"
begin

abbreviation current :: "'s \<Rightarrow> 'a option" where
  "current s \<equiv> newest ver (slot s)"

lemma wrote_other: "wrote x s s' \<Longrightarrow> slot s' (1 - slot_no (ver x)) = slot s (1 - slot_no (ver x))"
  using tore_other [OF wrote_tore, of x s s'] slot_no_cases [of "ver x"] by fastforce

text \<open>A write of a newer version becomes current; the previous current value stays in the other slot.\<close>

lemma current_wrote:
  assumes "wrote x s s'" and "\<And>y. slot s (1 - slot_no (ver x)) = Some y \<Longrightarrow> ver y < ver x"
  shows "current s' = Some x"
proof (rule newest_above [where k = "slot_no (ver x)"])
  show "slot s' (slot_no (ver x)) = Some x" using assms(1) by (rule wrote_here)
  show "slot_no (ver x) < 2" by (simp add: slot_no_def)
  fix j y assume j: "j < 2" "j \<noteq> slot_no (ver x)" and y: "slot s' j = Some y"
  then have e: "j = 1 - slot_no (ver x)" using slot_no_cases [of "ver x"] by linarith
  have "slot s (1 - slot_no (ver x)) = Some y" using y unfolding e wrote_other [OF assms(1)] .
  then show "ver y < ver x" by (rule assms(2))
qed

lemma parity_wrote: "parity_ok ver (slot s) \<Longrightarrow> wrote x s s' \<Longrightarrow> parity_ok ver (slot s')"
proof -
  assume p: "parity_ok ver (slot s)" and w: "wrote x s s'"
  have "slot_no (ver y) = k" if "k < 2" "slot s' k = Some y" for k y
  proof (cases "k = slot_no (ver x)")
    case True
    then show ?thesis using that(2) wrote_here [OF w] by simp
  next
    case False
    then have e: "k = 1 - slot_no (ver x)" using that(1) slot_no_cases [of "ver x"] by auto
    have "slot s k = Some y" using that(2) unfolding e wrote_other [OF w] .
    then show ?thesis using that(1) p unfolding parity_ok_def by blast
  qed
  then show "parity_ok ver (slot s')" by (simp add: parity_ok_def)
qed

text \<open>A torn write of the successor never hides the current value: the load still finds it, unless
  what is now in the torn slot authenticates with a greater version.\<close>

lemma current_tore:
  assumes "parity_ok ver (slot s)" and "current s = Some y" and "tore (1 - slot_no (ver y)) s s'"
  shows "case slot s' (1 - slot_no (ver y)) of
      None \<Rightarrow> current s' = Some y
    | Some z \<Rightarrow> current s' = Some y \<or> current s' = Some z \<and> ver y \<le> ver z"
proof -
  have sy: "slot s (slot_no (ver y)) = Some y" by (rule parity_slot [OF assms(1,2)])
  have "1 - (1 - slot_no (ver y)) = slot_no (ver y)" using slot_no_cases [of "ver y"] by auto
  then have k: "slot s' (slot_no (ver y)) = Some y"
    using tore_other [OF assms(3)] sy by auto
  then show ?thesis
    using slot_no_cases [of "ver y"] by (auto simp: newest_cases split: option.splits)
qed

lemma current_tore_dead:
  assumes "parity_ok ver (slot s)" and "current s = Some y" and "tore (1 - slot_no (ver y)) s s'"
    and "slot s' (1 - slot_no (ver y)) = None"
  shows "current s' = Some y"
  using current_tore [OF assms(1-3)] assms(4) by simp

end

end
