(* ===== verification/Anchor.thy ===== *)
theory Anchor
  imports Pool Double_Buffer
begin

text \<open>
  The freshness anchor of \<open>crates/freehold/src/vfs.rs\<close>: a table of the newest generation seen per
  database, sealed under a key of its own in two slots of one file. \<open>anchor_load\<close>,
  \<open>anchor_save\<close>, \<open>anchor_record\<close> and \<open>anchor_record_full\<close> are the methods of the pool.
\<close>

definition anchor_aad :: "nat \<Rightarrow> bytes" where
  "anchor_aad slot = ascii ''freehold-anchor-aad-v2'' @ [0, 0] @ ANCHOR_MAGIC @ nat_le 8 slot"

type_synonym anchor_state = "u64 \<times> anchor_entry list"

text \<open>One turn of the loading loop: what a slot authenticates to.\<close>

definition read_anchor_slot :: "('h, 'z) env_scheme \<Rightarrow> crypto \<Rightarrow> 'h \<Rightarrow> nat \<Rightarrow> nat \<Rightarrow> anchor_state option" where
  "read_anchor_slot E key h sz slot =
     (let at = slot * PHYS_BLOCK in
      if at + PHYS_BLOCK > sz then None
      else case sah_read E h at PHYS_BLOCK of
        None \<Rightarrow> None
      | Some buf \<Rightarrow>
        if length buf < PHYS_BLOCK then None
        else (case open_bytes E key (anchor_aad slot) buf of
          Inl _ \<Rightarrow> None | Inr plain \<Rightarrow> decode_anchor plain))"

definition anchor_load :: "('h, 'z) env_scheme \<Rightarrow> 'h pool \<Rightarrow> anchor_state" where
  "anchor_load E p =
     (case anchor_handle p of
        None \<Rightarrow> (0, [])
      | Some h \<Rightarrow>
        let sz = (case sah_size E h of Some s \<Rightarrow> s | None \<Rightarrow> 0) in
        (case newest fst (read_anchor_slot E (anchor_crypto p) h sz) of None \<Rightarrow> (0, []) | Some a \<Rightarrow> a))"

definition anchor_save :: "('h, 'z) env_scheme \<Rightarrow> u64 \<Rightarrow> anchor_entry list \<Rightarrow> 'h pool \<Rightarrow> ('h, unit) pool_result" where
  "anchor_save E seq entries p =
     (case gate (p_fault p) of (go, f) \<Rightarrow>
        let p = p\<lparr>p_fault := f\<rparr> in
        if \<not> go then (Inr (), p)
        else case anchor_handle p of
          None \<Rightarrow> (Inl NoAnchor, p)
        | Some h \<Rightarrow>
          let slot = slot_no seq in
          (case seal_bytes E (anchor_crypto p) (anchor_aad slot) (encode_anchor seq entries) (p_rng p) of (r, rng) \<Rightarrow>
             let p = p\<lparr>p_rng := rng\<rparr> in
             (case r of
                Inl e \<Rightarrow> (Inl (PCrypto e), p)
              | Inr sealed \<Rightarrow>
                if length sealed \<noteq> PHYS_BLOCK then (Inl AnchorSize, p)
                else (case sah_write E h (slot * PHYS_BLOCK) sealed of (w, h) \<Rightarrow>
                  let p = p\<lparr>anchor_handle := Some h\<rparr> in
                  (case w of
                     None \<Rightarrow> (Inl PWrite, p)
                   | Some n \<Rightarrow>
                     if n \<noteq> length sealed then (Inl AnchorShort, p)
                     else (case sah_flush E h of (ok, h) \<Rightarrow>
                       (if ok then Inr () else Inl PFlush, p\<lparr>anchor_handle := Some h\<rparr>)))))))"

text \<open>Values only move forward.\<close>

definition raise_to :: "u64 option \<Rightarrow> u64 \<Rightarrow> u64" where
  "raise_to v old = (case v of None \<Rightarrow> old | Some n \<Rightarrow> max old n)"

definition raise_entry :: "u64 option \<Rightarrow> u64 option \<Rightarrow> u64 option \<Rightarrow> anchor_entry \<Rightarrow> anchor_entry" where
  "raise_entry co infl ef e =
     e\<lparr>committed := raise_to co (committed e), in_flight := raise_to infl (in_flight e),
       epoch_floor := raise_to ef (epoch_floor e)\<rparr>"

fun raise_first :: "bytes \<Rightarrow> (anchor_entry \<Rightarrow> anchor_entry) \<Rightarrow> anchor_entry list \<Rightarrow> anchor_entry list option" where
  "raise_first u f [] = None"
| "raise_first u f (e # es) =
     (if uuid e = u then Some (f e # es) else map_option (\<lambda>es. e # es) (raise_first u f es))"

definition or_zero :: "u64 option \<Rightarrow> u64" where
  "or_zero v = (case v of None \<Rightarrow> 0 | Some n \<Rightarrow> n)"

definition upsert_entry ::
  "bytes \<Rightarrow> u64 option \<Rightarrow> u64 option \<Rightarrow> u64 option \<Rightarrow> anchor_entry list \<Rightarrow> anchor_entry list option" where
  "upsert_entry u co infl ef entries =
     (case raise_first u (raise_entry co infl ef) entries of
        Some es \<Rightarrow> Some es
      | None \<Rightarrow>
        if length entries \<ge> ANCHOR_CAP then None
        else Some (entries @ [\<lparr>uuid = u, committed = or_zero co, in_flight = or_zero infl, epoch_floor = or_zero ef\<rparr>]))"

definition anchor_record_full ::
  "('h, 'z) env_scheme \<Rightarrow> bytes \<Rightarrow> u64 option \<Rightarrow> u64 option \<Rightarrow> u64 option \<Rightarrow> 'h pool \<Rightarrow> ('h, unit) pool_result" where
  "anchor_record_full E u co infl ef p =
     (case anchor_load E p of (seq, entries) \<Rightarrow>
        (case upsert_entry u co infl ef entries of
           None \<Rightarrow> (Inl AnchorFull, p)
         | Some es \<Rightarrow>
           if ef \<noteq> None
           then st_then (anchor_save E (seq + 1) es p) (\<lambda>_ p. anchor_save E (seq + 2) es p)
           else anchor_save E (seq + 1) es p))"

definition anchor_record ::
  "('h, 'z) env_scheme \<Rightarrow> bytes \<Rightarrow> u64 option \<Rightarrow> u64 option \<Rightarrow> 'h pool \<Rightarrow> ('h, unit) pool_result" where
  "anchor_record E u co infl p = anchor_record_full E u co infl None p"

section \<open>The anchor file as a double buffer\<close>

text \<open>The slots, read off the bytes of the file.\<close>

definition anchor_slot :: "'z prims_scheme \<Rightarrow> crypto \<Rightarrow> bytes \<Rightarrow> nat \<Rightarrow> anchor_state option" where
  "anchor_slot E key b slot =
     (if slot * PHYS_BLOCK + PHYS_BLOCK > length b then None
      else case open_bytes E key (anchor_aad slot) (slice (slot * PHYS_BLOCK) PHYS_BLOCK b) of
        Inl _ \<Rightarrow> None | Inr plain \<Rightarrow> decode_anchor plain)"

definition anchor_tore :: "nat \<Rightarrow> bytes \<Rightarrow> bytes \<Rightarrow> bool" where
  "anchor_tore k b b' \<longleftrightarrow> 2 * PHYS_BLOCK \<le> length b
     \<and> (\<exists>x. length x \<le> PHYS_BLOCK \<and> b' = blit (k * PHYS_BLOCK) x b)"

definition anchor_wrote :: "'z prims_scheme \<Rightarrow> crypto \<Rightarrow> anchor_state \<Rightarrow> bytes \<Rightarrow> bytes \<Rightarrow> bool" where
  "anchor_wrote E key a b b' \<longleftrightarrow> key_ok (E, key) \<and> anchor_wf a \<and> 2 * PHYS_BLOCK \<le> length b
     \<and> (\<exists>r sealed r'. seal_bytes E key (anchor_aad (slot_no (fst a))) (encode_anchor (fst a) (snd a)) r = (Inr sealed, r')
          \<and> b' = blit (slot_no (fst a) * PHYS_BLOCK) sealed b)"

lemma length_encode_anchor: "anchor_wf (seq, es) \<Longrightarrow> length (encode_anchor seq es) = BLOCK_SIZE"
proof -
  assume wf: "anchor_wf (seq, es)"
  have "length (concat (map anchor_entry_bytes es)) = ANCHOR_ENTRY_SIZE * length es"
    using wf by (intro length_concat_const length_anchor_entry_bytes) (auto simp: anchor_wf_def list_all_iff)
  then have "20 + length (concat (map anchor_entry_bytes es)) \<le> BLOCK_SIZE"
    using wf by (simp add: anchor_wf_def manifest_sizes)
  then show ?thesis by (simp add: encode_anchor_eq [OF wf] anchor_header_fields(1))
qed

lemma anchor_sealed:
  assumes "key_ok (E, key)" and "anchor_wf a"
    and "seal_bytes E key aad (encode_anchor (fst a) (snd a)) r = (Inr sealed, r')"
  shows "length sealed = PHYS_BLOCK" and "open_bytes E key aad sealed = Inr (encode_anchor (fst a) (snd a))"
proof -
  have l: "length (encode_anchor (fst a) (snd a)) = BLOCK_SIZE"
    using assms(2) by (intro length_encode_anchor) simp
  show "length sealed = PHYS_BLOCK" and "open_bytes E key aad sealed = Inr (encode_anchor (fst a) (snd a))"
    using bytes_box.seal_Inr(1,2) [of "(E, key)" "encode_anchor (fst a) (snd a)" aad r sealed r'] assms l
    by (simp_all add: PHYS_BLOCK_def BLOCK_SIZE_def)
qed

interpretation anchor_buffer: double_buffer fst "anchor_slot E key" "anchor_wrote E key" anchor_tore for E key
proof
  fix a b b'
  assume w: "anchor_wrote E key a b b'"
  then obtain r sealed r' where s: "seal_bytes E key (anchor_aad (slot_no (fst a))) (encode_anchor (fst a) (snd a)) r = (Inr sealed, r')"
    and b': "b' = blit (slot_no (fst a) * PHYS_BLOCK) sealed b" and k: "key_ok (E, key)" "anchor_wf a" and l: "2 * PHYS_BLOCK \<le> length b"
    by (auto simp: anchor_wrote_def)
  note c = anchor_sealed [OF k s]
  have lb: "slot_no (fst a) * PHYS_BLOCK + PHYS_BLOCK \<le> length b'"
    using l c(1) slot_no_cases [of "fst a"] by (auto simp: b')
  have "slice (slot_no (fst a) * PHYS_BLOCK) PHYS_BLOCK b' = sealed"
    using slice_blit_same [of "slot_no (fst a) * PHYS_BLOCK" sealed b] c(1) by (simp add: b')
  then show "anchor_slot E key b' (slot_no (fst a)) = Some a"
    using lb c(2) decode_encode_anchor [of "fst a" "snd a"] k(2) by (simp add: anchor_slot_def)
  show "anchor_tore (slot_no (fst a)) b b'"
    unfolding anchor_tore_def using l c(1) b' by (intro conjI exI [of _ sealed]) simp_all
next
  fix k b b'
  assume "anchor_tore k b b'" and k: "k < 2"
  then obtain x where x: "length x \<le> PHYS_BLOCK" and b': "b' = blit (k * PHYS_BLOCK) x b" and l: "2 * PHYS_BLOCK \<le> length b"
    by (auto simp: anchor_tore_def)
  from k have "k = 0 \<or> k = 1" by auto
  then have f: "(1 - k) * PHYS_BLOCK + PHYS_BLOCK \<le> k * PHYS_BLOCK \<or> k * PHYS_BLOCK + length x \<le> (1 - k) * PHYS_BLOCK"
      "(1 - k) * PHYS_BLOCK + PHYS_BLOCK \<le> length b"
    using x l by auto
  have lb: "length b' = length b" unfolding b' length_blit using l x \<open>k = 0 \<or> k = 1\<close> by auto
  show "anchor_slot E key b' (1 - k) = anchor_slot E key b (1 - k)"
    unfolding anchor_slot_def lb using slice_blit_other [OF f] by (simp add: b')
qed

section \<open>Recording\<close>

definition anchor_bytes :: "('h \<Rightarrow> bytes) \<Rightarrow> 'h pool \<Rightarrow> bytes" where
  "anchor_bytes c p = (case anchor_handle p of None \<Rightarrow> [] | Some h \<Rightarrow> c h)"

definition anchor_inv :: "('h, 'z) env_scheme \<Rightarrow> ('h \<Rightarrow> bytes) \<Rightarrow> 'h pool \<Rightarrow> bool" where
  "anchor_inv E c p \<longleftrightarrow> sah_ok E c \<and> key_ok (E, anchor_crypto p) \<and> healthy p \<and> anchor_handle p \<noteq> None
     \<and> 2 * PHYS_BLOCK \<le> length (anchor_bytes c p) \<and> parity_ok fst (anchor_slot E (anchor_crypto p) (anchor_bytes c p))"

definition anchor_of :: "('h, 'z) env_scheme \<Rightarrow> ('h \<Rightarrow> bytes) \<Rightarrow> 'h pool \<Rightarrow> nat \<Rightarrow> anchor_state option" where
  "anchor_of E c p = anchor_slot E (anchor_crypto p) (anchor_bytes c p)"

lemma anchor_load_bytes:
  assumes S: "sah_ok E c" and h: "anchor_handle p = Some h"
  shows "anchor_load E p = (case newest fst (anchor_slot E (anchor_crypto p) (c h)) of None \<Rightarrow> (0, []) | Some a \<Rightarrow> a)"
proof -
  have "read_anchor_slot E (anchor_crypto p) h (length (c h)) = anchor_slot E (anchor_crypto p) (c h)"
    using S by (auto simp: fun_eq_iff read_anchor_slot_def anchor_slot_def Let_def)
  then show ?thesis using S h by (simp add: anchor_load_def)
qed

lemma anchor_load_eq:
  assumes "anchor_inv E c p"
  shows "anchor_load E p = (case newest fst (anchor_of E c p) of None \<Rightarrow> (0, []) | Some a \<Rightarrow> a)"
  using anchor_load_bytes [of E c p] assms by (auto simp: anchor_inv_def anchor_of_def anchor_bytes_def)

lemma anchor_bound: "anchor_inv E c p \<Longrightarrow> k < 2 \<Longrightarrow> anchor_of E c p k = Some y \<Longrightarrow> fst y \<le> fst (anchor_load E p)"
proof -
  assume i: "anchor_inv E c p" and k: "k < 2" and y: "anchor_of E c p k = Some y"
  from k have k': "k = 0 \<or> k = 1" by auto
  show ?thesis
  proof (cases "newest fst (anchor_of E c p)")
    case None
    then have "anchor_of E c p 0 = None" "anchor_of E c p 1 = None" by (simp_all add: newest_None)
    then show ?thesis using k' y by auto
  next
    case (Some a)
    then show ?thesis using newest_max [OF Some k y] anchor_load_eq [OF i] by simp
  qed
qed

lemma anchor_slot_wf: "anchor_slot E key b k = Some a \<Longrightarrow> anchor_wf a"
  using decode_anchor_wf by (auto simp: anchor_slot_def split: if_splits sum.splits)

lemma anchor_load_wf: "anchor_inv E c p \<Longrightarrow> anchor_wf (anchor_load E p)"
proof (cases "newest fst (anchor_of E c p)")
  case (Some a)
  assume "anchor_inv E c p"
  moreover have "anchor_wf a"
    using newest_from [OF Some] unfolding anchor_of_def by (blast intro: anchor_slot_wf)
  ultimately show ?thesis using Some by (simp add: anchor_load_eq)
qed (simp add: anchor_load_eq anchor_wf_def)

lemma anchor_table_wf: "anchor_wf (anchor_load E p)"
proof (cases "anchor_handle p")
  case None
  then show ?thesis by (simp add: anchor_load_def anchor_wf_def)
next
  case (Some h)
  have r: "anchor_wf a" if "read_anchor_slot E (anchor_crypto p) h sz k = Some a" for a sz k
    using that decode_anchor_wf [of _ a] by (auto simp: read_anchor_slot_def Let_def split: if_splits option.splits sum.splits)
  show ?thesis
  proof (cases "newest fst (read_anchor_slot E (anchor_crypto p) h (case sah_size E h of Some s \<Rightarrow> s | None \<Rightarrow> 0))")
    case None
    then show ?thesis using Some by (simp add: anchor_load_def anchor_wf_def)
  next
    case (Some a)
    then have "anchor_wf a" using newest_from [OF Some] r by blast
    then show ?thesis using Some \<open>anchor_handle p = Some h\<close> by (simp add: anchor_load_def)
  qed
qed

lemma anchor_save_effect:
  assumes inv: "anchor_inv E c p" and wf: "anchor_wf (seq, es)" and r: "rng_good (Suc m) (p_rng p)"
    and new: "fst (anchor_load E p) < seq"
  shows "\<exists>h q. anchor_save E seq es p = (Inr (), p\<lparr>p_rng := q, anchor_handle := Some h\<rparr>) \<and> rng_good m q
    \<and> anchor_wrote E (anchor_crypto p) (seq, es) (anchor_bytes c p) (c h)
    \<and> anchor_inv E c (p\<lparr>p_rng := q, anchor_handle := Some h\<rparr>)
    \<and> anchor_load E (p\<lparr>p_rng := q, anchor_handle := Some h\<rparr>) = (seq, es)"
proof -
  note i = inv [unfolded anchor_inv_def]
  obtain h where h: "anchor_handle p = Some h" using i by auto
  let ?aad = "anchor_aad (slot_no seq)" and ?pl = "encode_anchor seq es" and ?at = "slot_no seq * PHYS_BLOCK"
  obtain n q where d: "draw_nonzero NONCE_LEN (p_rng p) = (Some n, q)" and q: "rng_good m q"
    using r by (auto split: prod.splits option.splits)
  have k: "key_ok (E, anchor_crypto p)" using i by blast
  obtain sealed where s: "seal_bytes E (anchor_crypto p) ?aad ?pl (p_rng p) = (Inr sealed, q)"
    using bytes_box.seal_draw [OF k _ d, of ?pl ?aad] length_encode_anchor [OF wf] by (auto simp: BLOCK_SIZE_def)
  have ls: "length sealed = PHYS_BLOCK" using anchor_sealed(1) [OF k wf, of ?aad "p_rng p" sealed q] s by simp
  have S: "sah_ok E c" using i by blast
  obtain w h1 where w: "sah_write E h ?at sealed = (w, h1)" by fastforce
  have w': "w = Some (length sealed)" "c h1 = blit ?at sealed (c h)"
    using sah_okD(3,4) [OF S, of h ?at sealed] w by simp_all
  obtain ok h2 where f: "sah_flush E h1 = (ok, h2)" by fastforce
  have f': "ok" "c h2 = c h1" using sah_okD(7,8) [OF S, of h1] f by simp_all
  let ?p = "p\<lparr>p_rng := q, anchor_handle := Some h2\<rparr>"
  have gt: "gate (p_fault p) = (True, p_fault p)" using i gate_healthy by blast
  have save: "anchor_save E seq es p = (Inr (), ?p)"
    using gt h s ls w w'(1) f f'(1) by (simp add: anchor_save_def Let_def)
  have wr: "anchor_wrote E (anchor_crypto p) (seq, es) (anchor_bytes c p) (c h2)"
    unfolding anchor_wrote_def using k wf i s h f'(2) w'(2)
    by (intro conjI exI [of _ "p_rng p"] exI [of _ sealed] exI [of _ q]) (simp_all add: anchor_bytes_def)
  have b: "anchor_bytes c ?p = c h2" by (simp add: anchor_bytes_def)
  have "2 * PHYS_BLOCK \<le> length (c h2)"
    unfolding f'(2) w'(2) using i h by (simp add: anchor_bytes_def length_blit max.coboundedI1)
  moreover have "parity_ok fst (anchor_slot E (anchor_crypto p) (c h2))"
    using anchor_buffer.parity_wrote [OF _ wr] i by blast
  ultimately have inv': "anchor_inv E c ?p" using i b by (simp add: anchor_inv_def healthy_def)
  have "newest fst (anchor_slot E (anchor_crypto p) (c h2)) = Some (seq, es)"
  proof (rule anchor_buffer.current_wrote [OF wr])
    fix y assume y: "anchor_slot E (anchor_crypto p) (anchor_bytes c p) (1 - slot_no (fst (seq, es))) = Some y"
    have "fst y \<le> fst (anchor_load E p)"
      by (rule anchor_bound [OF inv _ y [folded anchor_of_def]]) simp
    then show "fst y < fst (seq, es)" using new by simp
  qed
  then have "anchor_load E ?p = (seq, es)" using anchor_load_eq [OF inv'] b by (simp add: anchor_of_def)
  then show ?thesis using save q wr inv' by blast
qed

section \<open>Raising entries\<close>

definition entry_le :: "anchor_entry \<Rightarrow> anchor_entry \<Rightarrow> bool" where
  "entry_le e e' \<longleftrightarrow> uuid e' = uuid e \<and> committed e \<le> committed e' \<and> in_flight e \<le> in_flight e'
     \<and> epoch_floor e \<le> epoch_floor e'"

definition covers :: "u64 option \<Rightarrow> u64 \<Rightarrow> bool" where
  "covers v x \<longleftrightarrow> (case v of None \<Rightarrow> True | Some n \<Rightarrow> n \<le> x)"

lemma entry_le_refl [simp]: "entry_le e e"
  by (simp add: entry_le_def)

lemma raise_to_le: "old \<le> raise_to v old" "covers v (raise_to v old)"
  by (simp_all add: raise_to_def covers_def split: option.split)

lemma covers_or_zero: "covers v (or_zero v)"
  by (simp add: covers_def or_zero_def split: option.split)

lemma entry_le_raise: "entry_le e (raise_entry co infl ef e)"
  by (simp add: entry_le_def raise_entry_def raise_to_le)

lemma raise_first_effect:
  "raise_first u f es = Some es' \<Longrightarrow> (\<And>e. entry_le e (f e)) \<Longrightarrow>
   list_all2 entry_le es es' \<and> (\<exists>e \<in> set es. uuid e = u \<and> f e \<in> set es')"
proof (induction es arbitrary: es')
  case (Cons e es)
  show ?case
  proof (cases "uuid e = u")
    case True
    then show ?thesis using Cons.prems by (auto simp: list_all2_refl)
  next
    case False
    then obtain es2 where "raise_first u f es = Some es2" "es' = e # es2" using Cons.prems by auto
    then show ?thesis using Cons.IH [OF _ Cons.prems(2)] by auto
  qed
qed simp

lemma raise_first_None: "raise_first u f es = None \<longleftrightarrow> u \<notin> uuid ` set es"
  by (induction es) auto

lemma upsert_effect:
  assumes "upsert_entry u co infl ef es = Some es'"
  shows "list_all2 entry_le es (take (length es) es')"
    and "\<exists>e \<in> set es'. uuid e = u \<and> covers co (committed e) \<and> covers infl (in_flight e) \<and> covers ef (epoch_floor e)"
    and "anchor_wf (s, es) \<Longrightarrow> length u = 16 \<Longrightarrow> anchor_wf (s', es')"
proof -
  have "list_all2 entry_le es (take (length es) es')
    \<and> (\<exists>e \<in> set es'. uuid e = u \<and> covers co (committed e) \<and> covers infl (in_flight e) \<and> covers ef (epoch_floor e))
    \<and> (anchor_wf (s, es) \<longrightarrow> length u = 16 \<longrightarrow> anchor_wf (s', es'))"
  proof (cases "raise_first u (raise_entry co infl ef) es")
    case None
    then have es': "length es < ANCHOR_CAP" "es' = es @ [\<lparr>uuid = u, committed = or_zero co, in_flight = or_zero infl, epoch_floor = or_zero ef\<rparr>]"
      using assms by (auto simp: upsert_entry_def split: if_splits)
    then show ?thesis by (simp add: list_all2_refl covers_or_zero anchor_wf_def entry_wf_def)
  next
    case (Some l)
    then have e: "es' = l" using assms by (simp add: upsert_entry_def)
    note r = raise_first_effect [OF Some entry_le_raise]
    then have ll: "length l = length es" using list_all2_lengthD by fastforce
    obtain x where x: "x \<in> set es" "uuid x = u" "raise_entry co infl ef x \<in> set l" using r by blast
    then have "\<exists>e \<in> set es'. uuid e = u \<and> covers co (committed e) \<and> covers infl (in_flight e) \<and> covers ef (epoch_floor e)"
      unfolding e by (intro bexI [OF _ x(3)]) (simp add: raise_entry_def raise_to_le)
    moreover have "entry_wf b" if wf: "list_all entry_wf es" and b: "b \<in> set l" for b
    proof -
      obtain a where "a \<in> set es" "entry_le a b"
        using r b by (metis in_set_conv_nth list_all2_conv_all_nth)
      then show "entry_wf b" using wf by (auto simp: entry_wf_def entry_le_def list_all_iff)
    qed
    ultimately show ?thesis using r ll e by (auto simp: anchor_wf_def list_all_iff)
  qed
  then show "list_all2 entry_le es (take (length es) es')"
    and "\<exists>e \<in> set es'. uuid e = u \<and> covers co (committed e) \<and> covers infl (in_flight e) \<and> covers ef (epoch_floor e)"
    and "anchor_wf (s, es) \<Longrightarrow> length u = 16 \<Longrightarrow> anchor_wf (s', es')" by blast+
qed

lemma entry_le_trans: "entry_le a b \<Longrightarrow> entry_le b d \<Longrightarrow> entry_le a d"
  by (auto simp: entry_le_def)

lemma upsert_length: "upsert_entry u co infl ef es = Some es' \<Longrightarrow> length es \<le> length es' \<and> length es' \<le> length es + 1"
proof -
  assume a: "upsert_entry u co infl ef es = Some es'"
  have l: "raise_first u f es = Some l \<Longrightarrow> length l = length es" for f l
    by (induction es arbitrary: l) (auto split: if_splits)
  show ?thesis using a by (auto simp: upsert_entry_def dest: l split: option.splits if_splits)
qed

lemma anchor_record_full_effect:
  assumes inv: "anchor_inv E c p" and u: "length u = 16" and r: "rng_good (Suc (Suc m)) (p_rng p)"
    and wrap: "fst (anchor_load E p) < fst (anchor_load E p) + 1" "fst (anchor_load E p) + 1 < fst (anchor_load E p) + 2"
    and es: "upsert_entry u co infl ef (snd (anchor_load E p)) = Some es"
  shows "\<exists>h q. anchor_record_full E u co infl ef p = (Inr (), p\<lparr>p_rng := q, anchor_handle := Some h\<rparr>) \<and> rng_good m q
    \<and> anchor_inv E c (p\<lparr>p_rng := q, anchor_handle := Some h\<rparr>)
    \<and> anchor_load E (p\<lparr>p_rng := q, anchor_handle := Some h\<rparr>)
       = (fst (anchor_load E p) + (if ef = None then 1 else 2), es)
    \<and> (ef \<noteq> None \<longrightarrow> (\<forall>k < 2. \<exists>s. anchor_of E c (p\<lparr>p_rng := q, anchor_handle := Some h\<rparr>) k = Some (s, es)))"
proof -
  obtain seq old where ld: "anchor_load E p = (seq, old)" by fastforce
  have wf: "anchor_wf (s, es)" for s
    using upsert_effect(3) [OF es _ u, of seq s] anchor_load_wf [OF inv] ld by simp
  have r': "rng_good (Suc m) (p_rng p)" using r rng_good_Suc by blast
  have w: "seq < seq + 1" "seq + 1 < seq + 2" using wrap ld by simp_all
  obtain h q where s1: "anchor_save E (seq + 1) es p = (Inr (), p\<lparr>p_rng := q, anchor_handle := Some h\<rparr>)" "rng_good (Suc m) q"
      "anchor_wrote E (anchor_crypto p) (seq + 1, es) (anchor_bytes c p) (c h)"
      "anchor_inv E c (p\<lparr>p_rng := q, anchor_handle := Some h\<rparr>)"
      "anchor_load E (p\<lparr>p_rng := q, anchor_handle := Some h\<rparr>) = (seq + 1, es)"
    using anchor_save_effect [OF inv wf r, of "seq + 1"] ld w(1) by auto
  let ?p = "p\<lparr>p_rng := q, anchor_handle := Some h\<rparr>"
  show ?thesis
  proof (cases "ef = None")
    case True
    have "anchor_record_full E u co infl ef p = (Inr (), ?p)"
      using es ld s1(1) True by (simp add: anchor_record_full_def)
    moreover have "rng_good m q" using s1(2) rng_good_Suc by blast
    ultimately show ?thesis using s1 ld True by (intro exI [of _ h] exI [of _ q]) simp
  next
    case False
    obtain h2 q2 where s2: "anchor_save E (seq + 2) es ?p = (Inr (), ?p\<lparr>p_rng := q2, anchor_handle := Some h2\<rparr>)" "rng_good m q2"
      "anchor_wrote E (anchor_crypto ?p) (seq + 2, es) (anchor_bytes c ?p) (c h2)"
      "anchor_inv E c (?p\<lparr>p_rng := q2, anchor_handle := Some h2\<rparr>)"
      "anchor_load E (?p\<lparr>p_rng := q2, anchor_handle := Some h2\<rparr>) = (seq + 2, es)"
      using anchor_save_effect [OF s1(4) wf, of m "seq + 2"] s1(2,5) w(2) by auto
    let ?p2 = "p\<lparr>p_rng := q2, anchor_handle := Some h2\<rparr>"
    have full: "anchor_record_full E u co infl ef p = (Inr (), ?p2)"
      using es ld s1(1) s2(1) False by (simp add: anchor_record_full_def)
    have a1: "anchor_slot E (anchor_crypto p) (c h) (slot_no (seq + 1)) = Some (seq + 1, es)"
      using anchor_buffer.wrote_here [OF s1(3)] by simp
    have w2: "anchor_wrote E (anchor_crypto p) (seq + 2, es) (c h) (c h2)"
      using s2(3) by (simp add: anchor_bytes_def)
    have n: "slot_no (seq + 2) = 1 - slot_no (seq + 1)" using slot_no_succ [of "seq + 1"] by (simp add: add.assoc)
    have a2: "anchor_slot E (anchor_crypto p) (c h2) (slot_no (seq + 2)) = Some (seq + 2, es)"
      using anchor_buffer.wrote_here [OF w2] by simp
    have a3: "anchor_slot E (anchor_crypto p) (c h2) (1 - slot_no (seq + 2)) = anchor_slot E (anchor_crypto p) (c h) (1 - slot_no (seq + 2))"
      using anchor_buffer.wrote_other [OF w2] by simp
    have n1: "1 - slot_no (seq + 2) = slot_no (seq + 1)" unfolding n using slot_no_cases [of "seq + 1"] by auto
    have both: "\<exists>s. anchor_slot E (anchor_crypto p) (c h2) k = Some (s, es)" if k: "k < 2" for k
    proof -
      have "k = slot_no (seq + 2) \<or> k = slot_no (seq + 1)" using k n slot_no_cases [of "seq + 1"] by auto
      then show ?thesis using a1 a2 a3 n1 by auto
    qed
    show ?thesis
      using full s2 ld False both by (intro exI [of _ h2] exI [of _ q2]) (simp add: anchor_of_def anchor_bytes_def)
  qed
qed

lemma upsert_room:
  "u \<in> uuid ` set es \<or> length es < ANCHOR_CAP \<Longrightarrow> \<exists>es'. upsert_entry u co infl ef es = Some es'"
  using raise_first_None [of u "raise_entry co infl ef" es]
  by (cases "raise_first u (raise_entry co infl ef) es") (auto simp: upsert_entry_def)

lemma seq_room: "unat s + 2 < 2 ^ 64 \<Longrightarrow> s < s + 1" "unat s + 2 < 2 ^ 64 \<Longrightarrow> s + 1 < s + 2" for s :: u64
proof -
  assume a: "unat s + 2 < 2 ^ 64"
  have "unat (s + 1) = unat s + 1" "unat (s + 2) = unat s + 2" using a by (simp_all add: unat_word_ariths)
  then show "s < s + 1" "s + 1 < s + 2" by (simp_all add: word_less_nat_alt)
qed

section \<open>Properties\<close>

text \<open>
  C28: Recording in the freshness anchor only raises: with room for the database, both writes go
  through, the anchor loaded afterwards keeps every entry with no value lowered, in order, and
  holds an entry of the database that covers each value recorded.
\<close>

theorem anchor_record_raises:
  assumes "anchor_inv E c p" and "length u = 16" and "rng_good 2 (p_rng p)"
    and "unat (fst (anchor_load E p)) + 2 < 2 ^ 64"
    and "u \<in> uuid ` set (snd (anchor_load E p)) \<or> length (snd (anchor_load E p)) < ANCHOR_CAP"
  shows "\<exists>p'. anchor_record_full E u co infl ef p = (Inr (), p') \<and> anchor_inv E c p'
    \<and> list_all2 entry_le (snd (anchor_load E p)) (take (length (snd (anchor_load E p))) (snd (anchor_load E p')))
    \<and> (\<exists>e \<in> set (snd (anchor_load E p')). uuid e = u \<and> covers co (committed e) \<and> covers infl (in_flight e) \<and> covers ef (epoch_floor e))"
proof -
  obtain es where es: "upsert_entry u co infl ef (snd (anchor_load E p)) = Some es"
    using upsert_room [OF assms(5)] by blast
  have "rng_good (Suc (Suc 0)) (p_rng p)" using assms(3) by (simp add: numeral_2_eq_2)
  then obtain h q where "anchor_record_full E u co infl ef p = (Inr (), p\<lparr>p_rng := q, anchor_handle := Some h\<rparr>)"
      "anchor_inv E c (p\<lparr>p_rng := q, anchor_handle := Some h\<rparr>)"
      "snd (anchor_load E (p\<lparr>p_rng := q, anchor_handle := Some h\<rparr>)) = es"
    using anchor_record_full_effect [OF assms(1,2) _ seq_room(1) [OF assms(4)] seq_room(2) [OF assms(4)] es, of 0] by auto
  then show ?thesis using upsert_effect(1,2) [OF es] by metis
qed

definition anchor_pool :: "bytes pool" where
  "anchor_pool = mem_pool\<lparr>anchor_handle := Some (replicate (2 * PHYS_BLOCK) 0),
     p_rng := [Some (replicate 24 9), Some (replicate 24 8)]\<rparr>"

lemma blank_open: "open_bytes mem_env (replicate 32 3) a (replicate PHYS_BLOCK 0) = Inl Open"
proof -
  have t: "replicate 16 0 \<noteq> toy_tag (replicate 32 3) n a x" for n a x
  proof
    assume "replicate 16 0 = toy_tag (replicate 32 3) n a x"
    from arg_cong [OF this, of hd] show False by (simp add: toy_tag_def sum_list_replicate)
  qed
  then show ?thesis by (simp add: open_bytes_def mem_env_def prims.extend_def Let_def size_defs min_def)
qed

lemma blank_slot: "anchor_slot mem_env (replicate 32 3) (replicate (2 * PHYS_BLOCK) 0) k = None"
proof (cases "k * PHYS_BLOCK + PHYS_BLOCK > 2 * PHYS_BLOCK")
  case False
  then have "slice (k * PHYS_BLOCK) PHYS_BLOCK (replicate (2 * PHYS_BLOCK) 0) = (replicate PHYS_BLOCK 0 :: bytes)"
    unfolding slice_def by (simp only: drop_replicate take_replicate) (simp add: min_def PHYS_BLOCK_def BLOCK_SIZE_def)
  then show ?thesis by (simp add: anchor_slot_def blank_open)
qed (simp add: anchor_slot_def)

lemma anchor_pool_inv: "anchor_inv mem_env (\<lambda>h. h) anchor_pool" and anchor_pool_load: "anchor_load mem_env anchor_pool = (0, [])"
proof -
  have k: "key_ok (mem_env, anchor_crypto anchor_pool)" "healthy anchor_pool"
    using mem_pool_inv by (simp_all add: anchor_pool_def mem_pool_def key_ok_def pool_inv_def healthy_def)
  have b: "anchor_slot mem_env (anchor_crypto anchor_pool) (anchor_bytes (\<lambda>h. h) anchor_pool) = (\<lambda>k. None)"
    by (rule ext) (simp add: anchor_pool_def anchor_bytes_def mem_pool_def blank_slot)
  show i: "anchor_inv mem_env (\<lambda>h. h) anchor_pool"
    using k b mem_pool_inv unfolding anchor_inv_def pool_inv_def
    by (simp add: parity_ok_def anchor_pool_def anchor_bytes_def)
  show "anchor_load mem_env anchor_pool = (0, [])"
    using anchor_load_eq [OF i] b by (simp add: anchor_of_def newest_cases)
qed

lemma anchor_pool_rng: "rng_good 2 (p_rng anchor_pool)"
proof -
  have "rng_good (Suc (Suc 0)) (p_rng anchor_pool)" by (simp add: anchor_pool_def NONCE_LEN_def)
  then show ?thesis by (simp add: numeral_2_eq_2)
qed

theorem anchor_record_raises_witness:
  "\<exists>p' e. anchor_record_full mem_env (replicate 16 1) (Some 5) None (Some 7) anchor_pool = (Inr (), p')
    \<and> e \<in> set (snd (anchor_load mem_env p')) \<and> 5 \<le> committed e \<and> 7 \<le> epoch_floor e"
proof -
  have "(0::nat) < ANCHOR_CAP" by (simp add: manifest_sizes)
  then show ?thesis
    using anchor_record_raises [OF anchor_pool_inv _ anchor_pool_rng, of "replicate 16 1" "Some 5" None "Some 7"]
    by (simp add: anchor_pool_load covers_def) blast
qed

text \<open>
  C29: An epoch floor survives the loss of either slot. Once a floor has been recorded, overwrite
  one slot of the anchor file with anything that does not authenticate, or tear the next write to
  it: the anchor still loads, and still holds the floor.
\<close>

theorem epoch_floor_survives_slot_loss:
  assumes "anchor_inv E c p" and "length u = 16" and "rng_good 2 (p_rng p)"
    and "unat (fst (anchor_load E p)) + 2 < 2 ^ 64"
    and "anchor_record_full E u co infl (Some floor_gen) p = (Inr (), p')"
    and "k < 2" and "anchor_tore k (anchor_bytes c p') (c h)" and "anchor_slot E (anchor_crypto p) (c h) k = None"
  shows "\<exists>e \<in> set (snd (anchor_load E (p'\<lparr>anchor_handle := Some h\<rparr>))). uuid e = u \<and> floor_gen \<le> epoch_floor e"
proof -
  obtain es where es: "upsert_entry u co infl (Some floor_gen) (snd (anchor_load E p)) = Some es"
    using assms(5) by (auto simp: anchor_record_full_def split: prod.splits option.splits)
  have "rng_good (Suc (Suc 0)) (p_rng p)" using assms(3) by (simp add: numeral_2_eq_2)
  from anchor_record_full_effect [OF assms(1,2) this seq_room(1) [OF assms(4)] seq_room(2) [OF assms(4)] es] assms(5)
  have i: "anchor_inv E c p'" and key: "anchor_crypto p' = anchor_crypto p"
    and both: "\<And>j. j < 2 \<Longrightarrow> \<exists>s. anchor_of E c p' j = Some (s, es)" by auto
  let ?p = "p'\<lparr>anchor_handle := Some h\<rparr>"
  have o: "anchor_slot E (anchor_crypto p) (c h) (1 - k) = anchor_of E c p' (1 - k)"
    using anchor_buffer.tore_other [OF assms(7,6)] by (simp add: anchor_of_def key)
  obtain s where s: "anchor_of E c p' (1 - k) = Some (s, es)" using both [of "1 - k"] by fastforce
  have "k = 0 \<or> k = 1" using assms(6) by auto
  then have n: "newest fst (anchor_slot E (anchor_crypto p) (c h)) = Some (s, es)"
    using o s assms(8) by (elim disjE) (simp_all add: newest_cases)
  have "anchor_load E ?p = (s, es)"
    using anchor_load_bytes [of E c ?p h] i n key by (simp add: anchor_inv_def)
  then show ?thesis using upsert_effect(2) [OF es] by (auto simp: covers_def)
qed

theorem epoch_floor_survives_slot_loss_witness:
  "\<exists>p' e. anchor_record_full mem_env (replicate 16 1) None None (Some 7) anchor_pool = (Inr (), p')
    \<and> e \<in> set (snd (anchor_load mem_env
         (p'\<lparr>anchor_handle := Some (blit PHYS_BLOCK (replicate PHYS_BLOCK 0) (anchor_bytes (\<lambda>h. h) p'))\<rparr>)))
    \<and> 7 \<le> epoch_floor e"
proof -
  note r = anchor_record_full_effect [OF anchor_pool_inv, of "replicate 16 1" 0 None None "Some 7"]
  have "rng_good (Suc (Suc 0)) (p_rng anchor_pool)" using anchor_pool_rng by (simp add: numeral_2_eq_2)
  moreover have "upsert_entry (replicate 16 1) None None (Some 7) (snd (anchor_load mem_env anchor_pool))
      = Some [\<lparr>uuid = replicate 16 1, committed = 0, in_flight = 0, epoch_floor = 7\<rparr>]"
    by (simp add: anchor_pool_load upsert_entry_def or_zero_def manifest_sizes)
  ultimately obtain p' where p': "anchor_record_full mem_env (replicate 16 1) None None (Some 7) anchor_pool = (Inr (), p')"
      "anchor_inv mem_env (\<lambda>h. h) p'"
    using r by (simp add: anchor_pool_load) blast
  let ?h = "blit PHYS_BLOCK (replicate PHYS_BLOCK 0) (anchor_bytes (\<lambda>h. h) p')"
  have l: "2 * PHYS_BLOCK \<le> length (anchor_bytes (\<lambda>h. h) p')" using p'(2) by (simp add: anchor_inv_def)
  have t: "anchor_tore 1 (anchor_bytes (\<lambda>h. h) p') ?h"
    using l unfolding anchor_tore_def by (intro conjI exI [of _ "replicate PHYS_BLOCK 0"]) simp_all
  have "slice PHYS_BLOCK PHYS_BLOCK ?h = replicate PHYS_BLOCK 0"
    using slice_blit_same [of PHYS_BLOCK "replicate PHYS_BLOCK 0" "anchor_bytes (\<lambda>h. h) p'"] by simp
  then have d: "anchor_slot mem_env (anchor_crypto anchor_pool) ?h 1 = None"
    by (simp add: anchor_slot_def blank_open anchor_pool_def mem_pool_def)
  have "unat (fst (anchor_load mem_env anchor_pool)) + 2 < 2 ^ 64" by (simp add: anchor_pool_load)
  from epoch_floor_survives_slot_loss [OF anchor_pool_inv _ anchor_pool_rng this p'(1) _ t d] p'(1)
  show ?thesis by auto
qed

end
