(* ===== verification/Manifest_Store.thy ===== *)
theory Manifest_Store
  imports Anchor
begin

text \<open>
  The manifest file of a database in \<open>crates/freehold/src/vfs.rs\<close>: a plaintext header with the
  database's identifier and two sealed slots, written alternately by generation.
  \<open>write_manifest_slot\<close>, \<open>read_manifest\<close> and \<open>create_manifest\<close> are the methods of the pool.
\<close>

definition write_manifest_slot ::
  "('h, 'z) env_scheme \<Rightarrow> crypto \<Rightarrow> str \<Rightarrow> manifest_payload \<Rightarrow> 'h dev \<Rightarrow> (pool_error + unit) \<times> 'h dev" where
  "write_manifest_slot E crypto_db mname payload d =
     (let slot = slot_no (db_generation payload) in
      case mp_encode payload of
        None \<Rightarrow> (Inl ManifestPanic, d)
      | Some plain \<Rightarrow>
        (case seal_into E crypto_db (file_id_for E mname) (db_uuid payload) (word_of_nat slot) plain (d_rng d) of
           (r, rng) \<Rightarrow>
             let d = d\<lparr>d_rng := rng\<rparr> in
             (case r of
                Inl e \<Rightarrow> (Inl (PCrypto e), d)
              | Inr sealed \<Rightarrow>
                  st_then (lift_vfs (phys_write E sealed (MANIFEST_HDR_LEN + slot * PHYS_BLOCK) d))
                    (\<lambda>_ d. raw_flush E d))))"

text \<open>One turn of the reading loop.\<close>

definition read_manifest_slot ::
  "('h, 'z) env_scheme \<Rightarrow> crypto \<Rightarrow> bytes \<Rightarrow> bytes \<Rightarrow> 'h dev \<Rightarrow> nat \<Rightarrow> nat \<Rightarrow> manifest_payload option" where
  "read_manifest_slot E kdb fid u d phys slot =
     (let at = MANIFEST_HDR_LEN + slot * PHYS_BLOCK in
      if at + PHYS_BLOCK > phys then None
      else case phys_read E d PHYS_BLOCK at of
        Inl _ \<Rightarrow> None
      | Inr sealed \<Rightarrow>
        if length sealed < PHYS_BLOCK then None
        else (case open_into E kdb fid u (word_of_nat slot) sealed of
          Inl _ \<Rightarrow> None
        | Inr plain \<Rightarrow> (case mp_decode plain of
            Inl _ \<Rightarrow> None
          | Inr p \<Rightarrow> if db_uuid p \<noteq> u then None else Some p)))"

definition read_manifest ::
  "('h, 'z) env_scheme \<Rightarrow> bytes \<Rightarrow> str \<Rightarrow> 'h dev \<Rightarrow> pool_error + (bytes \<times> crypto \<times> manifest_payload)" where
  "read_manifest E dk mname d =
     try_then (map_err PVfs (phys_read E d MANIFEST_HDR_LEN 0)) (\<lambda>hdr.
       if length hdr < MANIFEST_HDR_LEN \<or> slice 0 8 hdr \<noteq> MANIFEST_MAGIC then Inl NoManifestHeader
       else let u = slice 8 16 hdr; kdb = db_key E dk u; fid = file_id_for E mname in
         try_then (map_err PVfs (phys_size E d)) (\<lambda>phys.
           case newest db_generation (read_manifest_slot E kdb fid u d phys) of
             None \<Rightarrow> Inl ManifestBroken
           | Some payload \<Rightarrow> Inr (u, kdb, payload)))"

definition manifest_header :: "bytes \<Rightarrow> bytes" where
  "manifest_header u = put_at 8 u (put_at 0 MANIFEST_MAGIC (replicate MANIFEST_HDR_LEN 0))"

definition first_payload :: "('h, 'z) env_scheme \<Rightarrow> str \<Rightarrow> bytes \<Rightarrow> manifest_payload" where
  "first_payload E name u = \<lparr>db_generation = 1, db_uuid = u, merkle_root = ZERO_ROOT,
     prev_merkle_root = ZERO_ROOT, mp_files = [(file_id_for E name, 0)]\<rparr>"

definition write_new_manifest ::
  "('h, 'z) env_scheme \<Rightarrow> crypto \<Rightarrow> str \<Rightarrow> manifest_payload \<Rightarrow> 'h dev \<Rightarrow> (pool_error + unit) \<times> 'h dev" where
  "write_new_manifest E kdb mname payload d =
     st_then (lift_vfs (phys_write E (manifest_header (db_uuid payload)) 0 d)) (\<lambda>_ d.
       write_manifest_slot E kdb mname payload d)"

definition create_manifest :: "('h, 'z) env_scheme \<Rightarrow> str \<Rightarrow> str \<Rightarrow> 'h pool \<Rightarrow> ('h, db_state) pool_result" where
  "create_manifest E name mname p =
     (case random_uuid (p_rng p) of (r, rng) \<Rightarrow>
        let p = p\<lparr>p_rng := rng\<rparr> in
        (case r of
           Inl e \<Rightarrow> (Inl (PCrypto e), p)
         | Inr u \<Rightarrow>
           let kdb = db_key E (dek p) u in
           st_then (with_new_file E mname (SQLITE_OPEN_MAIN_DB E) (write_new_manifest E kdb mname (first_payload E name u)) p) (\<lambda>_ p.
           st_then (anchor_record E u (Some 1) (Some 1) p) (\<lambda>_ p.
             let st = \<lparr>st_uuid = u, st_crypto = kdb, st_generation = 1, st_root = ZERO_ROOT\<rparr> in
             (Inr st, p\<lparr>dbs := AList.update name st (dbs p)\<rparr>)))))"

section \<open>The manifest file as a double buffer\<close>

text \<open>The slots, read off the bytes of the file.\<close>

definition manifest_at :: "nat \<Rightarrow> nat" where
  "manifest_at slot = HEADER_OFFSET_DATA + MANIFEST_HDR_LEN + slot * PHYS_BLOCK"

definition manifest_slot :: "'z prims_scheme \<Rightarrow> crypto \<Rightarrow> bytes \<Rightarrow> bytes \<Rightarrow> bytes \<Rightarrow> nat \<Rightarrow> manifest_payload option" where
  "manifest_slot E kdb fid u b slot =
     (if manifest_at slot + PHYS_BLOCK > length b then None
      else case open_into E kdb fid u (word_of_nat slot) (slice (manifest_at slot) PHYS_BLOCK b) of
        Inl _ \<Rightarrow> None
      | Inr plain \<Rightarrow> (case mp_decode plain of Inl _ \<Rightarrow> None | Inr p \<Rightarrow> if db_uuid p \<noteq> u then None else Some p))"

definition manifest_tore :: "nat \<Rightarrow> bytes \<Rightarrow> bytes \<Rightarrow> bool" where
  "manifest_tore k b b' \<longleftrightarrow> manifest_at 2 \<le> length b
     \<and> (\<exists>x. length x \<le> PHYS_BLOCK \<and> b' = blit (manifest_at k) x b)"

definition manifest_wrote ::
  "'z prims_scheme \<Rightarrow> crypto \<Rightarrow> bytes \<Rightarrow> bytes \<Rightarrow> manifest_payload \<Rightarrow> bytes \<Rightarrow> bytes \<Rightarrow> bool" where
  "manifest_wrote E kdb fid u m b b' \<longleftrightarrow> key_ok (E, kdb) \<and> payload_wf m \<and> db_uuid m = u \<and> manifest_at 2 \<le> length b
     \<and> (\<exists>r sealed r'. seal_into E kdb fid u (word_of_nat (slot_no (db_generation m))) (mp_bytes m) r = (Inr sealed, r')
          \<and> b' = blit (manifest_at (slot_no (db_generation m))) sealed b)"

lemma manifest_at_simps: "manifest_at 0 = 4160" "manifest_at 1 = 8296" "manifest_at (Suc 0) = 8296" "manifest_at 2 = 12432" "PHYS_BLOCK = 4136"
  by (simp_all add: manifest_at_def HEADER_OFFSET_DATA_def MANIFEST_HDR_LEN_def size_defs)

lemma manifest_sealed:
  assumes "key_ok (E, kdb)" and "payload_wf m" and "seal_into E kdb fid u i (mp_bytes m) r = (Inr sealed, r')"
  shows "length sealed = PHYS_BLOCK" and "open_into E kdb fid u i sealed = Inr (mp_bytes m)"
    and "r' = snd (draw_nonzero NONCE_LEN r)"
  using block_box.seal_Inr [of "(E, kdb)" "mp_bytes m" "(fid, u, i)" r sealed r'] assms mp_bytes_slices(1) [OF assms(2)]
  by (simp_all add: size_defs)

interpretation manifest_buffer: double_buffer db_generation "manifest_slot E kdb fid u" "manifest_wrote E kdb fid u" manifest_tore
  for E kdb fid u
proof
  fix m b b'
  assume "manifest_wrote E kdb fid u m b b'"
  then obtain r sealed r' where k: "key_ok (E, kdb)" "payload_wf m" "db_uuid m = u" "manifest_at 2 \<le> length b"
    and s: "seal_into E kdb fid u (word_of_nat (slot_no (db_generation m))) (mp_bytes m) r = (Inr sealed, r')"
    and b': "b' = blit (manifest_at (slot_no (db_generation m))) sealed b"
    by (auto simp: manifest_wrote_def)
  note c = manifest_sealed [OF k(1,2) s]
  have lb: "manifest_at (slot_no (db_generation m)) + PHYS_BLOCK \<le> length b'"
    using c(1) by (simp add: b')
  have "slice (manifest_at (slot_no (db_generation m))) PHYS_BLOCK b' = sealed"
    using slice_blit_same [of "manifest_at (slot_no (db_generation m))" sealed b] c(1) by (simp add: b')
  then show "manifest_slot E kdb fid u b' (slot_no (db_generation m)) = Some m"
    using lb c(2) k(3) mp_decode_bytes [OF k(2)] by (simp add: manifest_slot_def)
  show "manifest_tore (slot_no (db_generation m)) b b'"
    unfolding manifest_tore_def using k(4) c(1) b' by (intro conjI exI [of _ sealed]) simp_all
next
  fix k b b'
  assume "manifest_tore k b b'" and k: "k < 2"
  then obtain x where x: "length x \<le> PHYS_BLOCK" and b': "b' = blit (manifest_at k) x b" and l: "manifest_at 2 \<le> length b"
    by (auto simp: manifest_tore_def)
  from k have kc: "k = 0 \<or> k = 1" by auto
  then have f: "manifest_at (1 - k) + PHYS_BLOCK \<le> manifest_at k \<or> manifest_at k + length x \<le> manifest_at (1 - k)"
      "manifest_at (1 - k) + PHYS_BLOCK \<le> length b" and lb: "length b' = length b"
    using x l by (auto simp: manifest_at_simps b')
  show "manifest_slot E kdb fid u b' (1 - k) = manifest_slot E kdb fid u b (1 - k)"
    unfolding manifest_slot_def lb using slice_blit_other [OF f] by (simp add: b')
qed

section \<open>Reading and writing\<close>

lemma read_slot_eq:
  assumes "sah_ok E c" and "k < 2" and "length (c (handle (d_file d))) - HEADER_OFFSET_DATA = phys"
  shows "read_manifest_slot E kdb fid u d phys k = manifest_slot E kdb fid u (c (handle (d_file d))) k"
proof -
  from assms(2) have "k = 0 \<or> k = 1" by auto
  then have a: "usize_add HEADER_OFFSET_DATA (MANIFEST_HDR_LEN + k * PHYS_BLOCK) = manifest_at k"
    and b: "(MANIFEST_HDR_LEN + k * PHYS_BLOCK + PHYS_BLOCK > phys) = (manifest_at k + PHYS_BLOCK > length (c (handle (d_file d))))"
    using assms(3) by (auto simp: usize_add_def manifest_at_def HEADER_OFFSET_DATA_def MANIFEST_HDR_LEN_def size_defs)
  have "length (slice (manifest_at k) PHYS_BLOCK (c (handle (d_file d)))) = PHYS_BLOCK"
    if "\<not> manifest_at k + PHYS_BLOCK > length (c (handle (d_file d)))" using that by simp
  then show ?thesis
    using assms(1) by (simp add: read_manifest_slot_def manifest_slot_def Let_def b phys_read_def a)
qed

lemma newest_cong: "s 0 = t 0 \<Longrightarrow> s 1 = t 1 \<Longrightarrow> newest ver s = newest ver t"
  by (simp add: newest_def)

text \<open>The identifier in the plaintext header of the file's bytes.\<close>

definition manifest_uuid :: "bytes \<Rightarrow> bytes option" where
  "manifest_uuid b =
     (let hdr = slice HEADER_OFFSET_DATA MANIFEST_HDR_LEN b in
      if length hdr < MANIFEST_HDR_LEN \<or> slice 0 8 hdr \<noteq> MANIFEST_MAGIC then None else Some (slice 8 16 hdr))"

definition manifest_now :: "'z prims_scheme \<Rightarrow> bytes \<Rightarrow> str \<Rightarrow> bytes \<Rightarrow> bytes \<Rightarrow> manifest_payload option" where
  "manifest_now E dk mname u b = newest db_generation (manifest_slot E (db_key E dk u) (file_id_for E mname) u b)"

lemma read_manifest_eq:
  assumes "sah_ok E c"
  shows "read_manifest E dk mname d = (case manifest_uuid (c (handle (d_file d))) of
      None \<Rightarrow> Inl NoManifestHeader
    | Some u \<Rightarrow> (case manifest_now E dk mname u (c (handle (d_file d))) of
        None \<Rightarrow> Inl ManifestBroken | Some m \<Rightarrow> Inr (u, db_key E dk u, m)))"
proof -
  have "newest db_generation (read_manifest_slot E k f u d (length (c (handle (d_file d))) - HEADER_OFFSET_DATA))
      = newest db_generation (manifest_slot E k f u (c (handle (d_file d))))" for k f u
    using read_slot_eq [OF assms] by (intro newest_cong) simp_all
  then show ?thesis
    using assms by (simp add: read_manifest_def manifest_uuid_def manifest_now_def phys_read_def phys_size_def
        usize_add_def HEADER_OFFSET_DATA_def Let_def)
qed

lemma slot_write_at: "usize_add HEADER_OFFSET_DATA (MANIFEST_HDR_LEN + slot_no v * PHYS_BLOCK) = manifest_at (slot_no v)"
  using slot_no_cases [of v] by (auto simp: usize_add_def manifest_at_def HEADER_OFFSET_DATA_def MANIFEST_HDR_LEN_def size_defs)

lemma write_slot_effect:
  assumes "sah_ok E c" and k: "key_ok (E, kdb)" and wf: "payload_wf m" and g: "alive d" and r: "rng_good (Suc n) (d_rng d)"
  shows "\<exists>sealed h q. write_manifest_slot E kdb mname m d = (Inr (), set_handle h (d\<lparr>d_rng := q\<rparr>)) \<and> rng_good n q
    \<and> seal_into E kdb (file_id_for E mname) (db_uuid m) (word_of_nat (slot_no (db_generation m))) (mp_bytes m) (d_rng d) = (Inr sealed, q)
    \<and> c h = blit (manifest_at (slot_no (db_generation m))) sealed (c (handle (d_file d)))"
proof -
  obtain x q where d: "draw_nonzero NONCE_LEN (d_rng d) = (Some x, q)" and q: "rng_good n q"
    using r by (auto split: prod.splits option.splits)
  let ?s = "slot_no (db_generation m)"
  obtain sealed where s: "seal_into E kdb (file_id_for E mname) (db_uuid m) (word_of_nat ?s) (mp_bytes m) (d_rng d) = (Inr sealed, q)"
    using block_box.seal_draw [OF k _ d, of "mp_bytes m" "(file_id_for E mname, db_uuid m, word_of_nat ?s)"]
      mp_bytes_slices(1) [OF wf] by auto
  obtain w h1 where w: "sah_write E (handle (d_file d)) (manifest_at ?s) sealed = (w, h1)" by fastforce
  have w': "w = Some (length sealed)" "c h1 = blit (manifest_at ?s) sealed (c (handle (d_file d)))"
    using sah_okD(3,4) [OF assms(1), of "handle (d_file d)" "manifest_at ?s" sealed] w by simp_all
  obtain ok h2 where f: "sah_flush E h1 = (ok, h2)" by fastforce
  have f': "ok" "c h2 = c h1" using sah_okD(7,8) [OF assms(1), of h1] f by simp_all
  have gt: "gate (d_fault d) = (True, d_fault d)" using g by (rule gate_alive)
  have "write_manifest_slot E kdb mname m d = (Inr (), set_handle h2 (d\<lparr>d_rng := q\<rparr>))"
    using gt s w w'(1) f f'(1)
    by (simp add: write_manifest_slot_def Let_def mp_encode_eq [OF wf] phys_write_def slot_write_at lift_vfs_def raw_flush_def
        set_handle_def)
  then show ?thesis using q s w'(2) f'(2) by auto
qed

end
