(* ===== verification/Journal.thy ===== *)
theory Journal
  imports Manifest_Store
begin

text \<open>
  Rollback journals in \<open>crates/freehold/src/vfs.rs\<close>: \<open>journal_is_hot\<close>, \<open>decrypt_whole_file\<close> and
  \<open>replay_journal_root\<close>, which replays SQLite's journal of pre-images on a shadow copy of the main
  file and hashes the image. The replay is split into the parsing of the decrypted bytes
  (\<open>replay\<close>, which also says where the program would abort) and its callers.
\<close>

definition JOURNAL_MAGIC :: bytes where
  "JOURNAL_MAGIC = [0xd9, 0xd5, 0x05, 0xf9, 0x20, 0xa1, 0x63, 0xd7]"

definition journal_name :: "str \<Rightarrow> str" where
  "journal_name db = db @ ascii ''-journal''"

definition journal_is_hot :: "('h, 'z) env_scheme \<Rightarrow> 'h dev \<Rightarrow> crypto \<Rightarrow> bytes \<Rightarrow> str \<Rightarrow> bool" where
  "journal_is_hot E d kdb u jname =
     (case phys_size E d of
        Inl _ \<Rightarrow> False
      | Inr phys \<Rightarrow>
        if phys < PHYS_BLOCK then False
        else (case phys_read E d PHYS_BLOCK 0 of
          Inl _ \<Rightarrow> False
        | Inr sealed \<Rightarrow>
          if length sealed < PHYS_BLOCK then False
          else (case open_into E kdb (file_id_for E jname) u 0 sealed of
            Inl _ \<Rightarrow> False
          | Inr plain \<Rightarrow> starts_with plain JOURNAL_MAGIC)))"

section \<open>Decryption of a whole file\<close>

text \<open>A short read ends the stream, a block that does not authenticate is an error.\<close>

fun decrypt_blocks :: "('h, 'z) env_scheme \<Rightarrow> 'h dev \<Rightarrow> crypto \<Rightarrow> bytes \<Rightarrow> bytes \<Rightarrow> nat list \<Rightarrow> pool_error + bytes" where
  "decrypt_blocks E d key domain fid [] = Inr []"
| "decrypt_blocks E d key domain fid (k # ks) =
     try_then (map_err PVfs (phys_read E d PHYS_BLOCK (k * PHYS_BLOCK))) (\<lambda>sealed.
       if length sealed < PHYS_BLOCK then Inr []
       else try_then (map_err (\<lambda>_. JournalBlock k) (open_into E key fid domain (word_of_nat k) sealed)) (\<lambda>plain.
         try_then (decrypt_blocks E d key domain fid ks) (\<lambda>out. Inr (plain @ out))))"

definition decrypt_whole_file :: "('h, 'z) env_scheme \<Rightarrow> 'h dev \<Rightarrow> crypto \<Rightarrow> bytes \<Rightarrow> bytes \<Rightarrow> pool_error + bytes" where
  "decrypt_whole_file E d key domain fid =
     try_then (map_err PVfs (phys_size E d)) (\<lambda>phys.
       decrypt_blocks E d key domain fid [0..<phys div PHYS_BLOCK])"

fun chunks_exact :: "nat \<Rightarrow> bytes \<Rightarrow> bytes list" where
  "chunks_exact n b = (if n = 0 \<or> length b < n then [] else take n b # chunks_exact n (drop n b))"

declare chunks_exact.simps [simp del]

section \<open>Replay\<close>

definition be32 :: "bytes \<Rightarrow> nat \<Rightarrow> u32" where
  "be32 b o' = be_u32 (slice o' 4 b)"

text \<open>SQLite's page checksum: every 200th byte down from the end.\<close>

function pager_cksum :: "bytes \<Rightarrow> nat \<Rightarrow> u32 \<Rightarrow> u32" where
  "pager_cksum data i cksum =
     (if i = 0 then cksum else pager_cksum data (i - 200) (cksum + ucast (data ! i)))"
  by pat_completeness auto
termination by (relation "measure (\<lambda>(_, i, _). i)") auto

declare pager_cksum.simps [simp del]

text \<open>\<open>shadow.resize\<close> and the copy of one page.\<close>

definition put_page :: "nat \<Rightarrow> bytes \<Rightarrow> bytes list \<Rightarrow> bytes list" where
  "put_page idx data shadow =
     (let s = (if idx \<ge> length shadow then shadow @ replicate (idx + 1 - length shadow) (replicate BLOCK_SIZE 0) else shadow)
      in s[idx := data])"

text \<open>How a loop of the replay is left: at its end, by the break out of both loops, or by a panic.\<close>

datatype loop_end = Finished | Stopped | Panicked

text \<open>
  The records of one segment: \<open>off + rec_sz\<close> is an unguarded \<open>usize\<close> sum, so past its range the
  comparison passes and the index after it aborts the program.
\<close>

function replay_records ::
  "bytes \<Rightarrow> nat \<Rightarrow> u32 \<Rightarrow> nat option \<Rightarrow> nat \<Rightarrow> nat \<Rightarrow> nat \<Rightarrow> bytes list \<Rightarrow> loop_end \<times> nat \<times> bytes list" where
  "replay_records jbytes page_size nonce0 cap max_pages applied off shadow =
     (let rec_sz = page_size + 8 in
      if (case cap of None \<Rightarrow> True | Some n \<Rightarrow> applied < n) \<and> usize_add off rec_sz \<le> length jbytes then
        (if off + rec_sz > length jbytes then (Panicked, off, shadow)
         else
           let pgno = unat (be32 jbytes off);
               data = slice (off + 4) page_size jbytes;
               stored_cksum = be32 jbytes (off + 4 + page_size);
               cksum = pager_cksum data (page_size - 200) nonce0
           in if cksum \<noteq> stored_cksum then (Stopped, off, shadow)
              else if pgno = 0 \<or> pgno > max_pages then (Stopped, off, shadow)
              else replay_records jbytes page_size nonce0 cap max_pages (applied + 1) (off + rec_sz)
                     (put_page (pgno - 1) data shadow))
      else (Finished, off, shadow))"
  by pat_completeness auto
termination by (relation "measure (\<lambda>(jbytes, _, _, _, _, _, off, _). length jbytes - off)") auto

declare replay_records.simps [simp del]

definition record_cap :: "u32 \<Rightarrow> nat option" where
  "record_cap nrec = (if nrec = 0 \<or> nrec = 0xffffffff then None else Some (unat nrec))"

definition next_segment :: "nat \<Rightarrow> nat \<Rightarrow> nat" where
  "next_segment sector off = usize_mul ((off + sector - 1) div sector) sector"

function replay_segments ::
  "bytes \<Rightarrow> nat \<Rightarrow> nat \<Rightarrow> nat \<Rightarrow> nat \<Rightarrow> bytes list \<Rightarrow> pool_error + bytes list" where
  "replay_segments jbytes page_size sector max_pages seg_off shadow =
     (if seg_off + 28 > length jbytes \<or> slice seg_off 8 jbytes \<noteq> JOURNAL_MAGIC then Inr shadow
      else if unat (be32 jbytes (seg_off + 24)) \<noteq> page_size \<or> unat (be32 jbytes (seg_off + 20)) \<noteq> sector then Inr shadow
      else case replay_records jbytes page_size (be32 jbytes (seg_off + 12)) (record_cap (be32 jbytes (seg_off + 8)))
                  max_pages 0 (usize_add seg_off sector) shadow of
        (e, off, shadow) \<Rightarrow>
          (case e of
             Panicked \<Rightarrow> Inl JournalPanic
           | Stopped \<Rightarrow> Inr shadow
           | Finished \<Rightarrow>
               let next = next_segment sector off in
               if next \<le> seg_off then Inr shadow
               else replay_segments jbytes page_size sector max_pages next shadow))"
  by pat_completeness auto
termination
  by (relation "measure (\<lambda>(_, _, _, _, seg_off, _). 2 ^ 32 - seg_off)")
    (auto simp: next_segment_def usize_mul_def intro!: diff_less_mono2)

declare replay_segments.simps [simp del]

definition replay :: "bytes \<Rightarrow> bytes list \<Rightarrow> pool_error + bytes list" where
  "replay jbytes shadow =
     (if length jbytes < 28 \<or> slice 0 8 jbytes \<noteq> JOURNAL_MAGIC then Inl JournalHeader
      else
        let page_size = unat (be32 jbytes 24); sector = unat (be32 jbytes 20); init_pages = unat (be32 jbytes 16) in
        if page_size \<noteq> BLOCK_SIZE then Inl JournalPageSize
        else if sector = 0 \<or> sector mod BLOCK_SIZE \<noteq> 0 then Inl JournalSector
        else
          let max_pages = min (max init_pages (max (length shadow) (length jbytes div (page_size + 8))) + 8) USIZE_MAX_32 in
          try_then (replay_segments jbytes page_size sector max_pages 0 shadow) (\<lambda>shadow.
            Inr (if init_pages > 0 \<and> init_pages < length shadow then take init_pages shadow else shadow)))"

definition replay_journal_root ::
  "('h, 'z) env_scheme \<Rightarrow> str \<Rightarrow> str \<Rightarrow> crypto \<Rightarrow> bytes \<Rightarrow> 'h pool \<Rightarrow> pool_error + bytes" where
  "replay_journal_root E name jname kdb u p =
     (case lookup_file p jname of
        None \<Rightarrow> Inl FileNotFound
      | Some jf \<Rightarrow> (case lookup_file p name of
          None \<Rightarrow> Inl FileNotFound
        | Some mf \<Rightarrow>
          try_then (decrypt_whole_file E (dev_of p jf) kdb u (file_id_for E jname)) (\<lambda>jbytes.
          try_then (decrypt_whole_file E (dev_of p mf) kdb u (file_id_for E name)) (\<lambda>main_plain.
          try_then (replay jbytes (chunks_exact BLOCK_SIZE main_plain)) (\<lambda>shadow.
            Inr (root_of_blocks E shadow))))))"

section \<open>What a journal of SQLite holds\<close>

text \<open>
  The bytes SQLite writes: per segment a header padded to the sector, one record per page with its
  number and checksum, and padding up to the next sector.
\<close>

type_synonym jrecord = "nat \<times> bytes"
type_synonym jsegment = "u32 \<times> jrecord list"

definition record_bytes :: "u32 \<Rightarrow> jrecord \<Rightarrow> bytes" where
  "record_bytes nc r = nat_be 4 (fst r) @ snd r @ nat_be 4 (unat (pager_cksum (snd r) (BLOCK_SIZE - 200) nc))"

definition records_bytes :: "u32 \<Rightarrow> jrecord list \<Rightarrow> bytes" where
  "records_bytes nc rs = concat (map (record_bytes nc) rs)"

definition seg_header :: "nat \<Rightarrow> nat \<Rightarrow> u32 \<Rightarrow> nat \<Rightarrow> bytes" where
  "seg_header sector init nc n = JOURNAL_MAGIC @ nat_be 4 n @ nat_be 4 (unat nc) @ nat_be 4 init @ nat_be 4 sector @ nat_be 4 BLOCK_SIZE"

definition pad_to :: "nat \<Rightarrow> nat \<Rightarrow> nat" where
  "pad_to sector n = (n + sector - 1) div sector * sector - n"

definition segment_bytes :: "nat \<Rightarrow> nat \<Rightarrow> jsegment \<Rightarrow> bytes" where
  "segment_bytes sector init g = seg_header sector init (fst g) (length (snd g)) @ replicate (sector - 28) 0
     @ records_bytes (fst g) (snd g) @ replicate (pad_to sector (length (records_bytes (fst g) (snd g)))) 0"

definition journal_bytes :: "nat \<Rightarrow> nat \<Rightarrow> jsegment list \<Rightarrow> bytes" where
  "journal_bytes sector init gs = concat (map (segment_bytes sector init) gs)"

definition apply_records :: "jrecord list \<Rightarrow> bytes list \<Rightarrow> bytes list" where
  "apply_records rs s = fold (\<lambda>r s. put_page (fst r - 1) (snd r) s) rs s"

definition record_ok :: "nat \<Rightarrow> jrecord \<Rightarrow> bool" where
  "record_ok mp r \<longleftrightarrow> 0 < fst r \<and> fst r \<le> mp \<and> fst r < 2 ^ 32 \<and> length (snd r) = BLOCK_SIZE"

definition sector_ok :: "nat \<Rightarrow> bool" where
  "sector_ok s \<longleftrightarrow> 0 < s \<and> s mod BLOCK_SIZE = 0 \<and> s < 2 ^ 31"

lemma length_record_bytes: "length (snd r) = BLOCK_SIZE \<Longrightarrow> length (record_bytes nc r) = BLOCK_SIZE + 8"
  by (simp add: record_bytes_def)

lemma be_u32_at: "length pre = at \<Longrightarrow> n < 2 ^ 32 \<Longrightarrow> unat (be32 (pre @ nat_be 4 n @ post) at) = n"
proof -
  assume l: "length pre = at" and n: "n < 2 ^ 32"
  have "slice at 4 (pre @ nat_be 4 n @ post) = nat_be 4 n" using l by (simp add: slice_def)
  then show ?thesis using n by (simp add: be32_def be_u32_def unsigned_of_nat take_bit_nat_eq_self)
qed

lemma be32_word_at: "length pre = at \<Longrightarrow> be32 (pre @ nat_be 4 (unat (w :: u32)) @ post) at = w"
proof -
  assume l: "length pre = at"
  have "slice at 4 (pre @ nat_be 4 (unat w) @ post) = nat_be 4 (unat w)" using l by (simp add: slice_def)
  then show ?thesis by (simp add: be32_def)
qed

lemma replay_records_all:
  assumes "length (pre @ records_bytes nc rs @ post) < 2 ^ 31" and "length pre = off" and "list_all (record_ok mp) rs"
    and "applied + length rs \<le> n"
  shows "replay_records (pre @ records_bytes nc rs @ post) BLOCK_SIZE nc (Some n) mp applied off s
    = replay_records (pre @ records_bytes nc rs @ post) BLOCK_SIZE nc (Some n) mp (applied + length rs)
        (off + length (records_bytes nc rs)) (apply_records rs s)"
  using assms
proof (induction rs arbitrary: pre off applied s)
  case Nil
  then show ?case by (simp add: records_bytes_def apply_records_def)
next
  case (Cons r rs)
  let ?b = "pre @ records_bytes nc (r # rs) @ post"
  have rok: "record_ok mp r" and rs: "list_all (record_ok mp) rs" using Cons.prems(3) by simp_all
  then have r: "0 < fst r" "fst r \<le> mp" "fst r < 2 ^ 32" and lp: "length (snd r) = BLOCK_SIZE"
    by (simp_all add: record_ok_def)
  have lr: "length (record_bytes nc r) = BLOCK_SIZE + 8" using lp by (rule length_record_bytes)
  have b: "?b = (pre @ record_bytes nc r) @ records_bytes nc rs @ post" by (simp add: records_bytes_def)
  have lb: "off + (BLOCK_SIZE + 8) \<le> length ?b" using Cons.prems(2) lr by (simp add: b)
  then have u: "usize_add off (BLOCK_SIZE + 8) = off + (BLOCK_SIZE + 8)" using Cons.prems(1) by (simp add: usize_add_def)
  let ?t = "records_bytes nc rs @ post"
  have b2: "?b = pre @ nat_be 4 (fst r) @ (snd r @ nat_be 4 (unat (pager_cksum (snd r) (BLOCK_SIZE - 200) nc)) @ ?t)"
    by (simp add: records_bytes_def record_bytes_def)
  have p: "unat (be32 ?b off) = fst r" unfolding b2 using Cons.prems(2) r(3) by (rule be_u32_at)
  have b3: "?b = (pre @ nat_be 4 (fst r) @ snd r) @ nat_be 4 (unat (pager_cksum (snd r) (BLOCK_SIZE - 200) nc)) @ ?t"
    by (simp add: records_bytes_def record_bytes_def)
  have k: "be32 ?b (off + 4 + BLOCK_SIZE) = pager_cksum (snd r) (BLOCK_SIZE - 200) nc"
    unfolding b3 using Cons.prems(2) lp by (intro be32_word_at) simp
  have d: "slice (off + 4) BLOCK_SIZE ?b = snd r"
    unfolding b2 using Cons.prems(2) lp by (simp add: slice_def)
  have a: "applied < n" using Cons.prems(4) by simp
  have "replay_records ?b BLOCK_SIZE nc (Some n) mp applied off s
      = replay_records ?b BLOCK_SIZE nc (Some n) mp (applied + 1) (off + (BLOCK_SIZE + 8)) (put_page (fst r - 1) (snd r) s)"
    using lb r(1,2) a by (subst replay_records.simps) (simp add: Let_def u p k d del: be32_def)
  also have "\<dots> = replay_records ?b BLOCK_SIZE nc (Some n) mp (applied + 1 + length rs)
      (off + (BLOCK_SIZE + 8) + length (records_bytes nc rs)) (apply_records rs (put_page (fst r - 1) (snd r) s))"
    using Cons.IH [of "pre @ record_bytes nc r" "off + (BLOCK_SIZE + 8)" "applied + 1"] Cons.prems lr rs by (simp add: b)
  finally show ?case using lr by (simp add: records_bytes_def apply_records_def add.assoc)
qed

lemma ceil_mult: "0 < s \<Longrightarrow> (q * s + x + s - 1) div s * s = q * s + (x + s - 1) div s * (s::nat)"
proof -
  assume s: "0 < s"
  have "q * s + x + s - 1 = (x + s - 1) + q * s" using s by simp
  then have "(q * s + x + s - 1) div s = q + (x + s - 1) div s" using s by (simp only: div_mult_self1)
  then show ?thesis by (simp only: add_mult_distrib)
qed

lemma ceil_ge: "0 < s \<Longrightarrow> x \<le> (x + s - 1) div s * (s::nat)"
proof -
  assume s: "0 < s"
  have "(x + s - 1) div s * s = x + s - 1 - (x + s - 1) mod s" by (rule minus_mod_eq_div_mult [symmetric])
  moreover have "(x + s - 1) mod s < s" using s by simp
  ultimately show ?thesis by linarith
qed

lemma sector_ge: "sector_ok s \<Longrightarrow> BLOCK_SIZE \<le> s"
  by (auto simp: sector_ok_def mod_eq_0_iff_dvd intro: dvd_imp_le)

lemma length_seg_header [simp]: "length (seg_header sector init nc n) = 28"
  by (simp add: seg_header_def JOURNAL_MAGIC_def)

lemma length_segment: "sector_ok sector \<Longrightarrow>
    length (segment_bytes sector init g) = sector + (length (records_bytes (fst g) (snd g)) + sector - 1) div sector * sector"
  using ceil_ge [of sector "length (records_bytes (fst g) (snd g))"] sector_ge [of sector]
  by (simp add: segment_bytes_def pad_to_def sector_ok_def BLOCK_SIZE_def)

lemma seg_header_fields:
  assumes "length pre = off" and "sector < 2 ^ 32" and "init < 2 ^ 32" and "n < 2 ^ 32"
  shows "slice off 8 (pre @ seg_header sector init nc n @ post) = JOURNAL_MAGIC"
    and "unat (be32 (pre @ seg_header sector init nc n @ post) (off + 8)) = n"
    and "be32 (pre @ seg_header sector init nc n @ post) (off + 12) = nc"
    and "unat (be32 (pre @ seg_header sector init nc n @ post) (off + 16)) = init"
    and "unat (be32 (pre @ seg_header sector init nc n @ post) (off + 20)) = sector"
    and "unat (be32 (pre @ seg_header sector init nc n @ post) (off + 24)) = BLOCK_SIZE"
proof -
  have lm: "length JOURNAL_MAGIC = 8" by (simp add: JOURNAL_MAGIC_def)
  show "slice off 8 (pre @ seg_header sector init nc n @ post) = JOURNAL_MAGIC"
    using assms(1) lm by (simp add: seg_header_def slice_def)
  show "unat (be32 (pre @ seg_header sector init nc n @ post) (off + 8)) = n"
    using be_u32_at [of "pre @ JOURNAL_MAGIC" "off + 8" n] assms lm by (simp add: seg_header_def)
  show "be32 (pre @ seg_header sector init nc n @ post) (off + 12) = nc"
    using be32_word_at [of "pre @ JOURNAL_MAGIC @ nat_be 4 n" "off + 12" nc] assms lm by (simp add: seg_header_def)
  show "unat (be32 (pre @ seg_header sector init nc n @ post) (off + 16)) = init"
    using be_u32_at [of "pre @ JOURNAL_MAGIC @ nat_be 4 n @ nat_be 4 (unat nc)" "off + 16" init] assms lm by (simp add: seg_header_def)
  show "unat (be32 (pre @ seg_header sector init nc n @ post) (off + 20)) = sector"
    using be_u32_at [of "pre @ JOURNAL_MAGIC @ nat_be 4 n @ nat_be 4 (unat nc) @ nat_be 4 init" "off + 20" sector] assms lm
    by (simp add: seg_header_def)
  show "unat (be32 (pre @ seg_header sector init nc n @ post) (off + 24)) = BLOCK_SIZE"
    using be_u32_at [of "pre @ JOURNAL_MAGIC @ nat_be 4 n @ nat_be 4 (unat nc) @ nat_be 4 init @ nat_be 4 sector" "off + 24" BLOCK_SIZE]
      assms lm by (simp add: seg_header_def BLOCK_SIZE_def)
qed

definition segment_ok :: "nat \<Rightarrow> jsegment \<Rightarrow> bool" where
  "segment_ok mp g \<longleftrightarrow> snd g \<noteq> [] \<and> list_all (record_ok mp) (snd g)"

lemma journal_Cons: "journal_bytes sector init (g # gs) = segment_bytes sector init g @ journal_bytes sector init gs"
  by (simp add: journal_bytes_def)

lemma replay_segments_all:
  assumes "length (pre @ journal_bytes sector init gs) < 2 ^ 31" and "length pre = q * sector" and "sector_ok sector"
    and "init < 2 ^ 32" and "list_all (segment_ok mp) gs"
  shows "replay_segments (pre @ journal_bytes sector init gs) BLOCK_SIZE sector mp (q * sector) s
    = Inr (apply_records (concat (map snd gs)) s)"
  using assms
proof (induction gs arbitrary: pre q s)
  case Nil
  then show ?case by (subst replay_segments.simps) (simp add: journal_bytes_def apply_records_def)
next
  case (Cons g gs)
  let ?b = "pre @ journal_bytes sector init (g # gs)" and ?o = "q * sector" and ?rs = "snd g" and ?nc = "fst g"
  let ?R = "records_bytes ?nc ?rs"
  let ?m = "(length ?R + sector - 1) div sector"
  have sec: "0 < sector" "28 \<le> sector" "sector < 2 ^ 31" using Cons.prems(3) sector_ge [of sector]
    by (simp_all add: sector_ok_def BLOCK_SIZE_def)
  have rs: "?rs \<noteq> []" "list_all (record_ok mp) ?rs" using Cons.prems(5) by (auto simp: segment_ok_def)
  have lg: "length (segment_bytes sector init g) = sector + ?m * sector" using length_segment [OF Cons.prems(3)] .
  have lR: "length ?R = (BLOCK_SIZE + 8) * length ?rs"
    unfolding records_bytes_def using rs(2)
    by (intro length_concat_const length_record_bytes) (auto simp: record_ok_def list_all_iff)
  have lb: "?o + sector + length ?R \<le> length ?b" "?o + sector + ?m * sector \<le> length ?b"
    using Cons.prems(2) lg ceil_ge [OF sec(1), of "length ?R"] by (simp_all add: journal_Cons)
  have n: "length ?rs < 2 ^ 31" using lR lb(1) Cons.prems(1) by (simp add: BLOCK_SIZE_def)
  let ?post = "replicate (pad_to sector (length ?R)) 0 @ journal_bytes sector init gs"
  let ?post1 = "replicate (sector - 28) 0 @ ?R @ ?post"
  have b1: "?b = pre @ seg_header sector init ?nc (length ?rs) @ ?post1"
    by (simp add: journal_Cons segment_bytes_def)
  have b2: "?b = (pre @ seg_header sector init ?nc (length ?rs) @ replicate (sector - 28) 0) @ ?R @ ?post"
    by (simp add: journal_Cons segment_bytes_def)
  have n32: "length ?rs < 2 ^ 32" "sector < 2 ^ 32" using n sec(3) by simp_all
  note f = seg_header_fields [OF Cons.prems(2) n32(2) Cons.prems(4) n32(1), of ?nc ?post1, folded b1]
  have cap: "record_cap (be32 ?b (?o + 8)) = Some (length ?rs)"
  proof -
    have "be32 ?b (?o + 8) \<noteq> 0" using f(2) rs(1) by (metis length_0_conv unsigned_0)
    moreover have "be32 ?b (?o + 8) \<noteq> 0xffffffff" using f(2) n by auto
    ultimately show ?thesis using f(2) by (simp add: record_cap_def)
  qed
  have u: "usize_add ?o sector = ?o + sector" using lb Cons.prems(1) by (simp add: usize_add_def)
  have "replay_records ?b BLOCK_SIZE ?nc (Some (length ?rs)) mp 0 (?o + sector) s
      = replay_records ?b BLOCK_SIZE ?nc (Some (length ?rs)) mp (0 + length ?rs) (?o + sector + length ?R) (apply_records ?rs s)"
    unfolding b2 using Cons.prems(1,2) rs(2) sec(2) by (intro replay_records_all) (simp_all add: b2)
  also have "\<dots> = (Finished, ?o + sector + length ?R, apply_records ?rs s)"
    by (subst replay_records.simps) simp
  finally have rr: "replay_records ?b BLOCK_SIZE ?nc (Some (length ?rs)) mp 0 (?o + sector) s
      = (Finished, ?o + sector + length ?R, apply_records ?rs s)" .
  have o1: "?o + sector + length ?R = (q + 1) * sector + length ?R" by simp
  have "(?o + sector + length ?R + sector - 1) div sector * sector = (q + 1) * sector + ?m * sector"
    unfolding o1 by (rule ceil_mult [OF sec(1)])
  moreover have "(q + 1) * sector + ?m * sector < 2 ^ 32" using lb(2) Cons.prems(1) by simp
  ultimately have nx: "next_segment sector (?o + sector + length ?R) = (q + 1 + ?m) * sector"
    by (simp add: next_segment_def usize_mul_def add_mult_distrib)
  have gt: "\<not> (q + 1 + ?m) * sector \<le> ?o" using sec(1) by (simp add: add_mult_distrib)
  have IH: "replay_segments ((pre @ segment_bytes sector init g) @ journal_bytes sector init gs) BLOCK_SIZE sector mp
      ((q + 1 + ?m) * sector) (apply_records ?rs s) = Inr (apply_records (concat (map snd gs)) (apply_records ?rs s))"
    using Cons.prems lg by (intro Cons.IH) (simp_all add: journal_Cons add_mult_distrib)
  have "\<not> (?o + 28 > length ?b)" using lb sec by linarith
  then show ?case
    using IH gt nx u rr cap f(1,3,5,6) by (subst replay_segments.simps) (simp add: journal_Cons apply_records_def Let_def)
qed

section \<open>The image a replay serves\<close>

lemma length_put_page: "length (put_page i x s) = max (length s) (i + 1)"
  by (auto simp: put_page_def Let_def max_def)

lemma nth_put_page: "j < max (length s) (i + 1) \<Longrightarrow> put_page i x s ! j =
    (if j = i then x else if j < length s then s ! j else replicate BLOCK_SIZE 0)"
  by (auto simp: put_page_def Let_def nth_list_update nth_append)

lemma apply_records_restores:
  assumes "\<And>r. r \<in> set rs \<Longrightarrow> 0 < fst r \<and> fst r \<le> length img \<and> snd r = img ! (fst r - 1)"
    and "\<And>i. i < length img \<Longrightarrow> Suc i \<in> fst ` set rs \<or> i < length s \<and> s ! i = img ! i"
    and "i < length img"
  shows "i < length (apply_records rs s) \<and> apply_records rs s ! i = img ! i"
  using assms(1,2)
proof (induction rs arbitrary: s)
  case Nil
  then show ?case using assms(3) by (simp add: apply_records_def)
next
  case (Cons r rs)
  let ?s = "put_page (fst r - 1) (snd r) s"
  have r: "0 < fst r" "snd r = img ! (fst r - 1)" using Cons.prems(1) by auto
  have "Suc j \<in> fst ` set rs \<or> j < length ?s \<and> ?s ! j = img ! j" if j: "j < length img" for j
  proof (cases "Suc j = fst r")
    case True
    then have "j = fst r - 1" by simp
    then show ?thesis using r(2) by (simp add: length_put_page nth_put_page less_max_iff_disj)
  next
    case False
    then have "j \<noteq> fst r - 1" using r(1) by linarith
    then show ?thesis using Cons.prems(2) [OF j] False by (auto simp: length_put_page nth_put_page)
  qed
  then have "i < length (apply_records rs ?s) \<and> apply_records rs ?s ! i = img ! i"
    using Cons.prems(1) by (intro Cons.IH) auto
  then show ?case by (simp add: apply_records_def)
qed

lemma replay_journal_bytes:
  assumes "length (journal_bytes sector init gs) < 2 ^ 31" and "sector_ok sector" and "init < 2 ^ 32" and "gs \<noteq> []"
    and "list_all (segment_ok (max init (length s))) gs"
  shows "replay (journal_bytes sector init gs) s = Inr (let s = apply_records (concat (map snd gs)) s
     in if init > 0 \<and> init < length s then take init s else s)"
proof -
  obtain g gs' where gs: "gs = g # gs'" using assms(4) by (cases gs) auto
  let ?b = "journal_bytes sector init gs"
  have sec: "28 \<le> sector" "sector < 2 ^ 32" using assms(2) sector_ge [of sector] by (simp_all add: sector_ok_def BLOCK_SIZE_def)
  have ls: "length (segment_bytes sector init g) \<ge> sector" using length_segment [OF assms(2), of init g] by simp
  have rs: "list_all (record_ok (max init (length s))) (snd g)" using assms(5) gs by (simp add: segment_ok_def)
  have lR: "length (records_bytes (fst g) (snd g)) = (BLOCK_SIZE + 8) * length (snd g)"
    unfolding records_bytes_def using rs
    by (intro length_concat_const length_record_bytes) (auto simp: record_ok_def list_all_iff)
  have "length (snd g) \<le> length (records_bytes (fst g) (snd g))" unfolding lR by simp
  also have "\<dots> \<le> length ?b" by (simp add: gs journal_Cons segment_bytes_def)
  finally have n: "length (snd g) < 2 ^ 32" using assms(1) by simp
  obtain post where b: "?b = [] @ seg_header sector init (fst g) (length (snd g)) @ post"
    by (simp add: gs journal_Cons segment_bytes_def)
  have f: "slice 0 8 ?b = JOURNAL_MAGIC" "unat (be32 ?b 16) = init" "unat (be32 ?b 20) = sector" "unat (be32 ?b 24) = BLOCK_SIZE"
    unfolding b using seg_header_fields [of "[]" 0 sector init "length (snd g)" "fst g" post] assms(3) sec(2) n by simp_all
  have lb: "\<not> length ?b < 28" using ls sec(1) by (simp add: gs journal_Cons)
  let ?mp = "min (max init (max (length s) (length ?b div (BLOCK_SIZE + 8))) + 8) USIZE_MAX_32"
  have "record_ok ?mp r" if "record_ok (max init (length s)) r" for r
    using that by (auto simp: record_ok_def USIZE_MAX_32_def)
  then have ok: "list_all (segment_ok ?mp) gs"
    using assms(5) unfolding segment_ok_def list_all_iff by blast
  have "replay_segments ?b BLOCK_SIZE sector ?mp 0 s = Inr (apply_records (concat (map snd gs)) s)"
    using replay_segments_all [of "[]" sector init gs 0 ?mp s] assms(1-3) ok by simp
  then show ?thesis
    using lb f assms(2) unfolding replay_def by (simp add: Let_def sector_ok_def)
qed

lemma replay_preimage:
  assumes "sector_ok sector" and "gs \<noteq> []" and "img \<noteq> []" and "length img < 2 ^ 32"
    and "length (journal_bytes sector (length img) gs) < 2 ^ 31"
    and "\<forall>g \<in> set gs. snd g \<noteq> []"
    and "\<forall>g \<in> set gs. \<forall>r \<in> set (snd g). 0 < fst r \<and> fst r \<le> length img \<and> snd r = img ! (fst r - 1)"
    and "\<forall>page \<in> set img. length page = BLOCK_SIZE"
    and "\<forall>i < length img. Suc i \<in> fst ` set (concat (map snd gs)) \<or> i < length cur \<and> cur ! i = img ! i"
  shows "replay (journal_bytes sector (length img) gs) cur = Inr img"
proof -
  let ?rs = "concat (map snd gs)" and ?init = "length img"
  have rok: "0 < fst r \<and> fst r \<le> length img \<and> snd r = img ! (fst r - 1)" if "r \<in> set ?rs" for r
    using that assms(7) by auto
  have "record_ok (max ?init (length cur)) r" if r: "r \<in> set ?rs" for r
  proof -
    have "img ! (fst r - 1) \<in> set img" using rok [OF r] by (intro nth_mem) auto
    then show ?thesis using rok [OF r] assms(4,8) by (auto simp: record_ok_def)
  qed
  then have ok: "list_all (segment_ok (max ?init (length cur))) gs"
    using assms(6) by (auto simp: segment_ok_def list_all_iff)
  let ?s = "apply_records ?rs cur"
  have n: "i < length ?s \<and> ?s ! i = img ! i" if "i < length img" for i
    using apply_records_restores [of ?rs img cur i] rok assms(9) that by blast
  from n [of "length ?s"] have l: "length img \<le> length ?s" by (simp add: not_less [symmetric]) blast
  then have "take ?init ?s = img" using n by (intro nth_equalityI) simp_all
  moreover have "replay (journal_bytes sector ?init gs) cur
      = Inr (if ?init > 0 \<and> ?init < length ?s then take ?init ?s else ?s)"
    using replay_journal_bytes [OF assms(5,1,4,2) ok] by (simp add: Let_def)
  ultimately show ?thesis using l assms(3) by (cases "?init < length ?s") auto
qed

text \<open>
  C25: The replay of a rollback journal serves the image the transaction started from. Let
  \<open>img\<close> be the pages before the transaction and \<open>cur\<close> the pages found on disk, grown or
  overwritten anyhow, as long as every page of \<open>img\<close> that differs is in the journal; for a journal
  of any number of segments and records that hold the original pages, the replay gives exactly \<open>img\<close>.
\<close>

theorem replay_restores_preimage:
  assumes "sector_ok sector" and "gs \<noteq> []" and "img \<noteq> []" and "length img < 2 ^ 32"
    and "length (journal_bytes sector (length img) gs) < 2 ^ 31"
    and "\<forall>g \<in> set gs. snd g \<noteq> []"
    and "\<forall>g \<in> set gs. \<forall>r \<in> set (snd g). 0 < fst r \<and> fst r \<le> length img \<and> snd r = img ! (fst r - 1)"
    and "\<forall>page \<in> set img. length page = BLOCK_SIZE"
    and "\<forall>i < length img. Suc i \<in> fst ` set (concat (map snd gs)) \<or> i < length cur \<and> cur ! i = img ! i"
  shows "replay (journal_bytes sector (length img) gs) cur = Inr img"
  by (rule replay_preimage [OF assms])

theorem replay_restores_preimage_witness:
  "replay (journal_bytes 4096 1 [(5, [(1, replicate BLOCK_SIZE 7)])]) [replicate BLOCK_SIZE 2, replicate BLOCK_SIZE 3]
    = Inr [replicate BLOCK_SIZE 7]"
proof -
  have s: "sector_ok 4096" by (simp add: sector_ok_def BLOCK_SIZE_def)
  have "length (records_bytes 5 [(1, replicate BLOCK_SIZE 7)]) = 4104"
    by (simp add: records_bytes_def record_bytes_def BLOCK_SIZE_def)
  then have "length (journal_bytes 4096 1 [(5, [(1, replicate BLOCK_SIZE 7)])]) < 2 ^ 31"
    using length_segment [OF s, of 1 "(5, [(1, replicate BLOCK_SIZE 7)])"] by (simp add: journal_bytes_def)
  then show ?thesis
    using replay_restores_preimage [of 4096 "[(5, [(1, replicate BLOCK_SIZE 7)])]" "[replicate BLOCK_SIZE 7]"
        "[replicate BLOCK_SIZE 2, replicate BLOCK_SIZE 3]"] s by simp
qed

section \<open>Bounds\<close>

lemma replay_records_bound:
  "replay_records b ps nc cap mp a off s = (e, off', s') \<Longrightarrow> length s' \<le> max (length s) mp"
proof (induction b ps nc cap mp a off s rule: replay_records.induct)
  case (1 b ps nc cap mp a off s)
  note IH = "1.IH" [OF refl _ _ refl refl refl refl] and r = "1.prems"
  let ?p = "unat (be32 b off)"
  show ?case
  proof (cases "(case cap of None \<Rightarrow> True | Some n \<Rightarrow> a < n) \<and> usize_add off (ps + 8) \<le> length b
      \<and> \<not> off + (ps + 8) > length b
      \<and> pager_cksum (slice (off + 4) ps b) (ps - 200) nc = be32 b (off + 4 + ps) \<and> 0 < ?p \<and> ?p \<le> mp")
    case True
    then have "length s' \<le> max (length (put_page (?p - 1) (slice (off + 4) ps b) s)) mp"
      using r by (intro IH) (auto simp: replay_records.simps [of b ps nc cap mp a off s] Let_def)
    then show ?thesis using True by (auto simp: length_put_page)
  next
    case False
    then have "s' = s" using r by (auto simp: replay_records.simps [of b ps nc cap mp a off s] Let_def split: if_splits)
    then show ?thesis by simp
  qed
qed

lemma replay_segments_bound:
  "replay_segments b ps sec mp off s = Inr s' \<Longrightarrow> length s' \<le> max (length s) mp"
proof (induction b ps sec mp off s rule: replay_segments.induct)
  case (1 b ps sec mp off s)
  show ?case
  proof (cases "replay_records b ps (be32 b (off + 12)) (record_cap (be32 b (off + 8))) mp 0 (usize_add off sec) s")
    case (fields e o2 s2)
    note l = replay_records_bound [OF fields]
    show ?thesis
      using "1.prems" "1.IH" [OF _ _ fields [symmetric] refl] l fields
      by (subst (asm) replay_segments.simps) (fastforce simp: Let_def split: if_splits loop_end.splits)
  qed
qed

lemma replay_bound:
  assumes "replay b cur = Inr out"
  shows "length out \<le> max (length cur) (max (unat (be32 b 16)) (length b div (BLOCK_SIZE + 8))) + 8"
proof -
  define mp where "mp = min (max (unat (be32 b 16)) (max (length cur) (length b div (BLOCK_SIZE + 8))) + 8) USIZE_MAX_32"
  obtain s' where s': "replay_segments b BLOCK_SIZE (unat (be32 b 20)) mp 0 cur = Inr s'" and l: "length out \<le> length s'"
    using assms by (auto simp: replay_def Let_def mp_def result_simps split: if_splits)
  have "length s' \<le> max (length cur) mp" by (rule replay_segments_bound [OF s'])
  then show ?thesis using l by (auto simp: mp_def)
qed

text \<open>
  The offset of the records is an unguarded 32-bit sum: a journal whose header carries the
  largest sector size that passes the checks aborts the program during its replay, whatever
  follows the header.
\<close>

theorem huge_sector_aborts:
  assumes "n < 2 ^ 32" and "init < 2 ^ 32" and "length post < 2 ^ 30"
  shows "replay (seg_header 0xFFFFF000 init nc n @ post) cur = Inl JournalPanic"
proof -
  let ?b = "seg_header 0xFFFFF000 init nc n @ post"
  have f: "slice 0 8 ?b = JOURNAL_MAGIC" "unat (be32 ?b 20) = 0xFFFFF000" "unat (be32 ?b 24) = BLOCK_SIZE"
    using seg_header_fields [of "[]" 0 "0xFFFFF000" init n nc post] assms(1,2) by simp_all
  have l: "28 \<le> length ?b" "length ?b < 2 ^ 31" using assms(3) by simp_all
  have u: "usize_add 0 0xFFFFF000 = 0xFFFFF000" "usize_add 0xFFFFF000 (BLOCK_SIZE + 8) = 8"
    by (simp_all add: usize_add_def BLOCK_SIZE_def)
  have c: "case record_cap w of None \<Rightarrow> True | Some m \<Rightarrow> 0 < m" for w
    by (simp add: record_cap_def unat_gt_0)
  have p: "replay_records ?b BLOCK_SIZE nc' (record_cap w) mp 0 0xFFFFF000 cur = (Panicked, 0xFFFFF000, cur)" for nc' w mp
    using l c [of w] by (subst replay_records.simps) (simp add: u Let_def)
  have "replay_segments ?b BLOCK_SIZE 0xFFFFF000 mp 0 cur = Inl JournalPanic" for mp
    using l f by (subst replay_segments.simps) (simp add: u p)
  then show ?thesis
    using l f unfolding replay_def by (simp add: Let_def BLOCK_SIZE_def)
qed

theorem huge_sector_aborts_witness:
  "replay (seg_header 0xFFFFF000 1 5 0) [] = Inl JournalPanic"
  using huge_sector_aborts [of 0 1 "[]" 5 "[]"] by simp

end
