(* ===== verification/Commit.thy ===== *)
theory Commit
  imports Journal
begin

text \<open>
  The commit barrier of \<open>crates/freehold/src/vfs.rs\<close>: the full-state root of a database, the sealing
  of the next manifest around the finalization of a rollback journal, and SQLite's callbacks that
  finalize one (\<open>xWrite\<close> over the header, \<open>xTruncate\<close> to zero, deletion).
\<close>

section \<open>The full-state root\<close>

fun root_blocks :: "('h, 'z) env_scheme \<Rightarrow> 'h dev \<Rightarrow> nat list \<Rightarrow> FullStateRoot \<Rightarrow> pool_error + FullStateRoot" where
  "root_blocks E d [] s = Inr s"
| "root_blocks E d (k # ks) s =
     try_then (map_err PVfs (phys_read E d PHYS_BLOCK (usize_mul k PHYS_BLOCK))) (\<lambda>physbuf.
       if length physbuf < PHYS_BLOCK then Inl (RootBlock k)
       else try_then (map_err (\<lambda>_. RootBlock k) (open_block E (d_file d) k physbuf)) (\<lambda>plain.
         root_blocks E d ks (update_block E (word_of_nat k) plain s)))"

definition full_state_root :: "('h, 'z) env_scheme \<Rightarrow> str \<Rightarrow> 'h pool \<Rightarrow> ('h, bytes) pool_result" where
  "full_state_root E name p =
     (case lookup_file p name of
        None \<Rightarrow> (Inl FileNotFound, p)
      | Some f \<Rightarrow> (case ensure_logical E (dev_of p f) of (r, d) \<Rightarrow>
          let p = put_dev name d p in
          (try_then (map_err PVfs r) (\<lambda>logical.
             try_then (root_blocks E d [0..<logical div BLOCK_SIZE] fsr_new) (\<lambda>s. Inr (fsr_finish E s))), p)))"

section \<open>The length table\<close>

definition tracked :: "str \<Rightarrow> str \<Rightarrow> bool" where
  "tracked name n \<longleftrightarrow> n = name \<or> satellite_parent n = Some name"

fun length_table :: "('h, 'z) env_scheme \<Rightarrow> str list \<Rightarrow> 'h pool \<Rightarrow> ('h, (bytes \<times> u64) list) pool_result" where
  "length_table E [] p = (Inr [], p)"
| "length_table E (n # ns) p =
     (case lookup_file p n of
        None \<Rightarrow> length_table E ns p
      | Some f \<Rightarrow> (case ensure_logical E (dev_of p f) of (r, d) \<Rightarrow>
          let p = put_dev n d p in
          (case r of
             Inl e \<Rightarrow> (Inl (PVfs e), p)
           | Inr l \<Rightarrow> st_then (length_table E ns p) (\<lambda>t p. (Inr ((file_id_for E n, word_of_nat l) # t), p)))))"

definition tracked_files :: "str \<Rightarrow> 'h pool \<Rightarrow> str list" where
  "tracked_files name p = filter (tracked name) (get_filenames p)"

section \<open>The commit barrier\<close>

text \<open>The tail that the commit and the migration of a root share: look the manifest up, write the slot.\<close>

definition seal_slot :: "('h, 'z) env_scheme \<Rightarrow> str \<Rightarrow> db_state \<Rightarrow> manifest_payload \<Rightarrow> 'h pool \<Rightarrow> ('h, unit) pool_result" where
  "seal_slot E name st payload p =
     (case lookup_file p (manifest_name name) of
        None \<Rightarrow> (Inl NoManifest, p)
      | Some mf \<Rightarrow> (case write_manifest_slot E (st_crypto st) (manifest_name name) payload (dev_of p mf) of (r, d) \<Rightarrow>
          (r, put_dev (manifest_name name) d p)))"

definition on_main_synced :: "('h, 'z) env_scheme \<Rightarrow> str \<Rightarrow> 'h pool \<Rightarrow> ('h, unit) pool_result" where
  "on_main_synced E name p =
     (case map_of (dbs p) name of
        None \<Rightarrow> (Inr (), p)
      | Some st \<Rightarrow>
        let new_gen = st_generation st + 1 in
        st_then (anchor_record E (st_uuid st) None (Some new_gen) p) (\<lambda>_ p.
        st_then (full_state_root E name p) (\<lambda>root p.
        st_then (length_table E (tracked_files name p) p) (\<lambda>table p.
        st_then (seal_slot E name st \<lparr>db_generation = new_gen, db_uuid = st_uuid st, merkle_root = root,
                   prev_merkle_root = st_root st, mp_files = table\<rparr> p) (\<lambda>_ p.
        st_then (anchor_record E (st_uuid st) (Some new_gen) (Some new_gen) p) (\<lambda>_ p.
          (Inr (), p\<lparr>dbs := AList.update name (st\<lparr>st_generation := new_gen, st_root := root\<rparr>) (dbs p)\<rparr>)))))))"

definition seal_root_migration :: "('h, 'z) env_scheme \<Rightarrow> str \<Rightarrow> 'h pool \<Rightarrow> ('h, unit) pool_result" where
  "seal_root_migration E name p =
     (case map_of (dbs p) name of
        None \<Rightarrow> (Inr (), p)
      | Some st \<Rightarrow>
        st_then (full_state_root E name p) (\<lambda>root p.
          if root = ZERO_ROOT then (Inr (), p)
          else
            st_then (length_table E (tracked_files name p) p) (\<lambda>table p.
            st_then (seal_slot E name st \<lparr>db_generation = st_generation st, db_uuid = st_uuid st, merkle_root = root,
                       prev_merkle_root = ZERO_ROOT, mp_files = table\<rparr> p) (\<lambda>_ p.
              (Inr (), p\<lparr>dbs := AList.update name (st\<lparr>st_root := root\<rparr>) (dbs p)\<rparr>)))))"

definition journal_finalize_barrier :: "('h, 'z) env_scheme \<Rightarrow> str \<Rightarrow> str \<Rightarrow> 'h pool \<Rightarrow> ('h, unit) pool_result" where
  "journal_finalize_barrier E jname parent p =
     (case (lookup_file p jname, map_of (dbs p) parent) of
        (Some j, Some st) \<Rightarrow>
          if journal_is_hot E (dev_of p j) (st_crypto st) (st_uuid st) jname then on_main_synced E parent p else (Inr (), p)
      | (Some j, None) \<Rightarrow>
          if (case phys_size E (dev_of p j) of Inr s \<Rightarrow> s \<ge> PHYS_BLOCK | Inl _ \<Rightarrow> False)
          then (Inl OrphanJournal, p) else (Inr (), p)
      | (None, _) \<Rightarrow> (Inr (), p))"

section \<open>SQLite's callbacks\<close>

text \<open>The barrier applies to a name with the journal suffix.\<close>

definition finalize_if_journal :: "('h, 'z) env_scheme \<Rightarrow> str \<Rightarrow> 'h pool \<Rightarrow> ('h, unit) pool_result" where
  "finalize_if_journal E name p =
     (if ends_with name (ascii ''-journal'')
      then (case satellite_parent name of Some parent \<Rightarrow> journal_finalize_barrier E name parent p | None \<Rightarrow> (Inr (), p))
      else (Inr (), p))"

text \<open>An operation on an open file by its name.\<close>

definition with_file :: "str \<Rightarrow> ('h dev \<Rightarrow> ('h, 'a) dev_result) \<Rightarrow> 'h pool \<Rightarrow> ('h, 'a) pool_result" where
  "with_file name op p =
     (case lookup_file p name of
        None \<Rightarrow> (Inl FileNotFound, p)
      | Some f \<Rightarrow> (case op (dev_of p f) of (r, d) \<Rightarrow> (map_err PVfs r, put_dev name d p)))"

definition store_add_file :: "('h, 'z) env_scheme \<Rightarrow> str \<Rightarrow> u32 \<Rightarrow> 'h pool \<Rightarrow> ('h, unit) pool_result" where
  "store_add_file E name flags p = with_new_file E name flags (\<lambda>d. (Inr (), d)) p"

definition store_delete_file :: "('h, 'z) env_scheme \<Rightarrow> str \<Rightarrow> 'h pool \<Rightarrow> ('h, unit) pool_result" where
  "store_delete_file E name p =
     st_then (finalize_if_journal E name p) (\<lambda>_ p. st_then (delete_file E name p) (\<lambda>_ p. (Inr (), p)))"

definition x_write :: "('h, 'z) env_scheme \<Rightarrow> str \<Rightarrow> bytes \<Rightarrow> int \<Rightarrow> 'h pool \<Rightarrow> ('h, unit) pool_result" where
  "x_write E name buf offset p =
     (if \<not> ffi_offset_ok offset then (Inl BadOffset, p)
      else st_then
        (if offset = 0 \<and> length buf \<ge> 8 \<and> \<not> starts_with buf JOURNAL_MAGIC
         then finalize_if_journal E name p else (Inr (), p))
        (\<lambda>_ p. with_file name (dev_write E buf (nat offset)) p))"

definition x_truncate :: "('h, 'z) env_scheme \<Rightarrow> str \<Rightarrow> int \<Rightarrow> 'h pool \<Rightarrow> ('h, unit) pool_result" where
  "x_truncate E name sz p =
     (if \<not> ffi_offset_ok sz then (Inl BadOffset, p)
      else st_then (if sz = 0 then finalize_if_journal E name p else (Inr (), p))
        (\<lambda>_ p. with_file name (dev_truncate E (nat sz)) p))"

definition x_sync :: "('h, 'z) env_scheme \<Rightarrow> str \<Rightarrow> 'h pool \<Rightarrow> ('h, unit) pool_result" where
  "x_sync E name p = with_file name (dev_flush E) p"

definition x_close :: "str \<Rightarrow> bool \<Rightarrow> 'h pool \<Rightarrow> 'h pool" where
  "x_close name closed p = (if closed then p\<lparr>open_files := removeAll name (open_files p)\<rparr> else p)"

lemma pool_inv_rng [simp]: "pool_inv E c (p\<lparr>p_rng := r\<rparr>) = pool_inv E c p" "stored c (p\<lparr>p_rng := r\<rparr>) = stored c p"
  by (simp_all add: pool_inv_def healthy_def lookup_file_def stored_def fun_eq_iff)

lemma pool_anchor_frame:
  "pool_inv E c (p\<lparr>p_rng := r, anchor_handle := h\<rparr>) = pool_inv E c p"
  "stored c (p\<lparr>p_rng := r, anchor_handle := h\<rparr>) = stored c p"
  "available (p\<lparr>p_rng := r, anchor_handle := h\<rparr>) = available p"
  by (simp_all add: pool_inv_def healthy_def lookup_file_def stored_def fun_eq_iff)

section \<open>The root of the blocks on disk\<close>

lemma root_blocks_holds:
  assumes "sah_ok E c" and "holds E c d n g"
  shows "j \<le> n \<Longrightarrow> n * BLOCK_SIZE \<le> DEV_LIMIT \<Longrightarrow>
    root_blocks E d [j..<n] s = Inr (fsr_blocks E j (map g [j..<n]) s)"
proof (induction "n - j" arbitrary: j s)
  case 0
  then show ?case by simp
next
  case (Suc m)
  then have j: "j < n" by simp
  then have "j * BLOCK_SIZE < n * BLOCK_SIZE" by (simp add: size_defs)
  then have lim: "j * BLOCK_SIZE < DEV_LIMIT" using Suc.prems(2) by linarith
  obtain pb where pb: "phys_read E d PHYS_BLOCK (j * PHYS_BLOCK) = Inr pb" "length pb = PHYS_BLOCK" "open_block E (d_file d) j pb = Inr (g j)"
    using phys_read_holds [OF assms j lim] by blast
  have u: "usize_mul j PHYS_BLOCK = j * PHYS_BLOCK" using phys_fits(2) [OF lim] by (simp add: usize_mul_def USIZE_MAX_32_def)
  have "root_blocks E d (j # [Suc j..<n]) s = root_blocks E d [Suc j..<n] (update_block E (word_of_nat j) (g j) s)"
    using pb by (simp add: u)
  also have "\<dots> = Inr (fsr_blocks E (Suc j) (map g [Suc j..<n]) (update_block E (word_of_nat j) (g j) s))"
    using Suc.hyps(2) j Suc.prems(2) by (intro Suc.hyps(1)) simp_all
  finally show ?case using j by (simp add: upt_conv_Cons)
qed

text \<open>A main file of the pool: its blocks, under the key and domain of its database, and its length.\<close>

definition main_holds :: "('h, 'z) env_scheme \<Rightarrow> ('h \<Rightarrow> bytes) \<Rightarrow> 'h pool \<Rightarrow> str \<Rightarrow> db_state \<Rightarrow> bytes list \<Rightarrow> bool" where
  "main_holds E c p name st bs \<longleftrightarrow> (\<exists>f. lookup_file p name = Some f \<and> f_crypto f = st_crypto st \<and> f_key_domain f = st_uuid st
     \<and> f_file_id f = file_id_for E name
     \<and> holds E c (dev_of p f) (length bs) (\<lambda>k. bs ! k) \<and> logical_size f = Some (length bs * BLOCK_SIZE)
     \<and> length bs * BLOCK_SIZE \<le> DEV_LIMIT)"

lemma put_file_frame [simp]: "dek (put_file n f p) = dek p" "dbs (put_file n f p) = dbs p" "p_rng (put_file n f p) = p_rng p"
  "anchor_handle (put_file n f p) = anchor_handle p" "available (put_file n f p) = available p" "p_fault (put_file n f p) = p_fault p"
  by (simp_all add: put_file_def)

lemma put_same: "lookup_file p n = Some f \<Longrightarrow> put_file n f p = p"
  by (simp add: put_file_def lookup_file_def update_triv)

lemma put_dev_same: "lookup_file p n = Some f \<Longrightarrow> put_dev n (dev_of p f) p = p"
  by (simp add: put_dev_def dev_of_def put_same)

lemma full_state_root_holds:
  assumes "sah_ok E c" and "main_holds E c p name st bs"
  shows "full_state_root E name p = (Inr (root_of_blocks E bs), p)"
proof -
  obtain f where f: "lookup_file p name = Some f" "holds E c (dev_of p f) (length bs) (\<lambda>k. bs ! k)"
      "logical_size f = Some (length bs * BLOCK_SIZE)" "length bs * BLOCK_SIZE \<le> DEV_LIMIT"
    using assms(2) by (auto simp: main_holds_def)
  have "root_blocks E (dev_of p f) [0..<length bs] fsr_new = Inr (fsr_blocks E 0 bs fsr_new)"
    using root_blocks_holds [OF assms(1) f(2), of 0 fsr_new] f(4) by (simp add: map_nth)
  then show ?thesis
    using f by (simp add: full_state_root_def ensure_logical_def dev_of_def [of p f] put_dev_same [unfolded dev_of_def]
        root_of_blocks_def BLOCK_SIZE_def)
qed

section \<open>The table of lengths\<close>

definition lengths_known :: "str \<Rightarrow> 'h pool \<Rightarrow> bool" where
  "lengths_known name p \<longleftrightarrow> (\<forall>n f. tracked name n \<longrightarrow> lookup_file p n = Some f \<longrightarrow> logical_size f \<noteq> None)"

definition length_entry :: "'z prims_scheme \<Rightarrow> 'h pool \<Rightarrow> str \<Rightarrow> bytes \<times> u64" where
  "length_entry E p n = (file_id_for E n, word_of_nat (the (logical_size (the (lookup_file p n)))))"

lemma length_table_known:
  "(\<And>n f. n \<in> set ns \<Longrightarrow> lookup_file p n = Some f \<Longrightarrow> logical_size f \<noteq> None) \<Longrightarrow>
   length_table E ns p = (Inr (map (length_entry E p) (filter (has_filename p) ns)), p)"
proof (induction ns)
  case Nil
  then show ?case by simp
next
  case (Cons n ns)
  have IH: "length_table E ns p = (Inr (map (length_entry E p) (filter (has_filename p) ns)), p)"
    using Cons.prems by (intro Cons.IH) auto
  show ?case
  proof (cases "lookup_file p n")
    case None
    then show ?thesis using IH by (simp add: has_filename_def [of p n])
  next
    case (Some f)
    then obtain l where l: "logical_size f = Some l" using Cons.prems [of n f] by auto
    have "ensure_logical E (dev_of p f) = (Inr l, dev_of p f)" using l by (simp add: ensure_logical_def dev_of_def)
    then show ?thesis using IH Some l by (simp add: has_filename_def [of p n] put_dev_same length_entry_def)
  qed
qed

lemma tracked_names: "tracked name n \<Longrightarrow> n = name \<or> n = journal_name name \<or> n = name @ ascii ''-wal''"
  by (auto simp: tracked_def satellite_parent_def journal_name_def strip_suffix_Some_iff split: option.splits)

lemma has_filename_iff: "has_filename p n \<longleftrightarrow> n \<in> fst ` set (files p)"
  by (simp add: has_filename_def lookup_file_def map_of_eq_None_iff)

lemma tracked_files_table:
  assumes "distinct (map fst (files p))"
  shows "length (tracked_files name p) \<le> 3" and "distinct (tracked_files name p)"
    and "n \<in> set (tracked_files name p) \<longleftrightarrow> tracked name n \<and> has_filename p n"
proof -
  show d: "distinct (tracked_files name p)" using assms by (simp add: tracked_files_def get_filenames_def)
  have "set (tracked_files name p) \<subseteq> {name, journal_name name, name @ ascii ''-wal''}"
    using tracked_names by (auto simp: tracked_files_def)
  then have "card (set (tracked_files name p)) \<le> card {name, journal_name name, name @ ascii ''-wal''}" by (rule card_mono [rotated]) simp
  also have "\<dots> \<le> 3" by (simp add: card_insert_if)
  finally show "length (tracked_files name p) \<le> 3" using distinct_card [OF d] by simp
  show "n \<in> set (tracked_files name p) \<longleftrightarrow> tracked name n \<and> has_filename p n"
    by (auto simp: tracked_files_def get_filenames_def has_filename_iff)
qed

definition table_of :: "'z prims_scheme \<Rightarrow> str \<Rightarrow> 'h pool \<Rightarrow> (bytes \<times> u64) list" where
  "table_of E name p = map (length_entry E p) (tracked_files name p)"

lemma length_table_tracked:
  assumes "distinct (map fst (files p))" and "lengths_known name p"
  shows "length_table E (tracked_files name p) p = (Inr (table_of E name p), p)"
proof -
  have "filter (has_filename p) (tracked_files name p) = tracked_files name p"
    using tracked_files_table(3) [OF assms(1)] by (auto simp: filter_id_conv)
  moreover have "length_table E (tracked_files name p) p
      = (Inr (map (length_entry E p) (filter (has_filename p) (tracked_files name p))), p)"
    using assms(2) tracked_files_table(3) [OF assms(1)] by (intro length_table_known) (auto simp: lengths_known_def)
  ultimately show ?thesis by (simp add: table_of_def)
qed

lemma payload_wf_commit:
  assumes "hash_ok E" and "distinct (map fst (files p))" and "length u = 16" and "length r = 32" and "length r' = 32"
  shows "payload_wf \<lparr>db_generation = g, db_uuid = u, merkle_root = r, prev_merkle_root = r', mp_files = table_of E name p\<rparr>"
proof -
  have "length (table_of E name p) \<le> 3" using tracked_files_table(1) [OF assms(2)] by (simp add: table_of_def)
  then have "length (table_of E name p) \<le> MAX_ENTRIES" by (simp add: manifest_sizes)
  moreover have "list_all (\<lambda>e. length (fst e) = FILE_ID_LEN) (table_of E name p)"
    using assms(1) by (simp add: table_of_def length_entry_def list_all_iff file_id_for_def hash_ok_lengths FILE_ID_LEN_def)
  ultimately show ?thesis using assms(3-5) by (simp add: payload_wf_def)
qed

section \<open>Sealing a slot\<close>

text \<open>The manifest of a database on disk: both slots are there, and \<open>m\<close> is the one that counts.\<close>

definition manifest_ok :: "('h, 'z) env_scheme \<Rightarrow> ('h \<Rightarrow> bytes) \<Rightarrow> 'h pool \<Rightarrow> str \<Rightarrow> bytes \<Rightarrow> manifest_payload \<Rightarrow> bool" where
  "manifest_ok E c p name u m \<longleftrightarrow> (\<exists>mf. lookup_file p (manifest_name name) = Some mf \<and> manifest_uuid (c (handle mf)) = Some u
     \<and> manifest_at 2 \<le> length (c (handle mf))
     \<and> parity_ok db_generation (manifest_slot E (db_key E (dek p) u) (file_id_for E (manifest_name name)) u (c (handle mf)))
     \<and> manifest_now E (dek p) (manifest_name name) u (c (handle mf)) = Some m)"

lemma manifest_ne: "manifest_name name \<noteq> name" "name \<noteq> manifest_name name" "manifest_name name \<noteq> journal_name name"
  "journal_name name \<noteq> manifest_name name" "journal_name name \<noteq> name"
  by (simp_all add: manifest_name_def journal_name_def ascii_def)

lemma manifest_untracked: "\<not> tracked name (manifest_name name)"
  using tracked_names [of name "manifest_name name"] manifest_ne [of name] by (auto simp: manifest_name_def)

lemma manifest_header_kept:
  assumes "manifest_at 2 \<le> length b"
  shows "manifest_uuid (blit (manifest_at k) x b) = manifest_uuid b"
    and "take HEADER_CORPUS_SIZE (blit (manifest_at k) x b) = take HEADER_CORPUS_SIZE b"
    and "length b \<le> length (blit (manifest_at k) x b)"
proof -
  have at: "HEADER_OFFSET_DATA + MANIFEST_HDR_LEN \<le> manifest_at k" by (simp add: manifest_at_def)
  have l: "HEADER_OFFSET_DATA + MANIFEST_HDR_LEN \<le> length b" using assms
    by (simp add: manifest_at_def)
  have "slice HEADER_OFFSET_DATA MANIFEST_HDR_LEN (blit (manifest_at k) x b) = slice HEADER_OFFSET_DATA MANIFEST_HDR_LEN b"
    using at l by (intro slice_blit_other) auto
  then show "manifest_uuid (blit (manifest_at k) x b) = manifest_uuid b" by (simp add: manifest_uuid_def)
  show "take HEADER_CORPUS_SIZE (blit (manifest_at k) x b) = take HEADER_CORPUS_SIZE b"
    using at l by (simp add: blit_def header_sizes)
qed simp

lemma seal_slot_effect:
  assumes inv: "pool_inv E c p" and a: "aead_ok E" "hash_ok E" and mo: "manifest_ok E c p name u m"
    and k: "st_crypto st = db_key E (dek p) u" and wf: "payload_wf m'" and u: "db_uuid m' = u"
    and new: "db_generation m < db_generation m'" and r: "rng_good (Suc n) (p_rng p)"
  shows "\<exists>f q. seal_slot E name st m' p = (Inr (), (put_file (manifest_name name) f p)\<lparr>p_rng := q\<rparr>) \<and> rng_good n q
    \<and> pool_inv E c ((put_file (manifest_name name) f p)\<lparr>p_rng := q\<rparr>)
    \<and> manifest_ok E c ((put_file (manifest_name name) f p)\<lparr>p_rng := q\<rparr>) name u m'"
proof -
  let ?mn = "manifest_name name" and ?key = "db_key E (dek p) u" and ?fid = "file_id_for E (manifest_name name)"
  note i = inv [unfolded pool_inv_def]
  obtain mf where mf: "lookup_file p ?mn = Some mf" "manifest_uuid (c (handle mf)) = Some u" "manifest_at 2 \<le> length (c (handle mf))"
      "parity_ok db_generation (manifest_slot E ?key ?fid u (c (handle mf)))" "manifest_now E (dek p) ?mn u (c (handle mf)) = Some m"
    using mo by (auto simp: manifest_ok_def)
  have key: "key_ok (E, ?key)" using a by (simp add: key_ok_def len_simps)
  have al: "alive (dev_of p mf)" using i by (simp add: alive_def dev_of_def healthy_def)
  obtain sealed h q where w: "write_manifest_slot E ?key ?mn m' (dev_of p mf) = (Inr (), set_handle h ((dev_of p mf)\<lparr>d_rng := q\<rparr>))" "rng_good n q"
      "seal_into E ?key ?fid (db_uuid m') (word_of_nat (slot_no (db_generation m'))) (mp_bytes m') (d_rng (dev_of p mf)) = (Inr sealed, q)"
      "c h = blit (manifest_at (slot_no (db_generation m'))) sealed (c (handle (d_file (dev_of p mf))))"
    using write_slot_effect [OF _ key wf al, of c n ?mn] i r by (auto simp: dev_of_def)
  let ?f = "mf\<lparr>handle := h\<rparr>"
  let ?p = "(put_file ?mn ?f p)\<lparr>p_rng := q\<rparr>"
  have pd: "put_dev ?mn (set_handle h ((dev_of p mf)\<lparr>d_rng := q\<rparr>)) p = ?p"
    by (simp add: put_dev_def set_handle_def dev_of_def put_file_def)
  have ch: "c h = blit (manifest_at (slot_no (db_generation m'))) sealed (c (handle mf))" using w(4) by (simp add: dev_of_def)
  have s: "seal_slot E name st m' p = (Inr (), ?p)" using mf(1) w(1) k pd by (simp add: seal_slot_def)
  have wr: "manifest_wrote E ?key ?fid u m' (c (handle mf)) (c h)"
    unfolding manifest_wrote_def using key wf u mf(3) w(3) ch
    by (intro conjI exI [of _ "p_rng p"] exI [of _ sealed] exI [of _ q]) (simp_all add: dev_of_def)
  note hk = manifest_header_kept [OF mf(3), of "slot_no (db_generation m')" sealed, folded ch]
  have hok: "handle_ok E c (Some ?mn) (handle mf)" "f_file_id mf = ?fid" using i mf(1) by blast+
  have "handle_ok E c (Some ?mn) h" using hok(1) hk(2,3) by (simp add: handle_ok_def)
  then have "pool_inv E c (put_file ?mn ?f p)" using i hok(2) by (auto simp: pool_inv_def)
  then have pi: "pool_inv E c ?p" by simp
  have par: "parity_ok db_generation (manifest_slot E ?key ?fid u (c h))"
    by (rule manifest_buffer.parity_wrote [OF mf(4) wr])
  have "newest db_generation (manifest_slot E ?key ?fid u (c h)) = Some m'"
  proof (rule manifest_buffer.current_wrote [OF wr])
    fix y assume y: "manifest_slot E ?key ?fid u (c (handle mf)) (1 - slot_no (db_generation m')) = Some y"
    have "db_generation y \<le> db_generation m"
      by (rule newest_max [OF mf(5) [unfolded manifest_now_def] _ y]) simp
    then show "db_generation y < db_generation m'" using new by simp
  qed
  then have "manifest_ok E c ?p name u m'"
    using mf(2,3) hk par by (auto simp: manifest_ok_def manifest_now_def put_file_def [of ?mn ?f p] lookup_file_def update_conv')
  then show ?thesis using s w(2) pi by blast
qed

section \<open>An open database\<close>

text \<open>The anchor holds no commit of the database past \<open>a\<close> and no floor past \<open>b\<close>.\<close>

definition anchor_below :: "bytes \<Rightarrow> u64 \<Rightarrow> u64 \<Rightarrow> anchor_entry list \<Rightarrow> bool" where
  "anchor_below u a b es \<longleftrightarrow> (\<forall>e \<in> set es. uuid e = u \<longrightarrow> committed e \<le> a \<and> epoch_floor e \<le> b)"

abbreviation anchor_allows :: "bytes \<Rightarrow> u64 \<Rightarrow> anchor_entry list \<Rightarrow> bool" where
  "anchor_allows u g \<equiv> anchor_below u g g"

lemma raise_first_below:
  "raise_first u (raise_entry co infl None) es = Some es' \<Longrightarrow> anchor_below u a b es \<Longrightarrow> co \<in> {None, Some a} \<Longrightarrow> anchor_below u a b es'"
proof (induction es arbitrary: es')
  case (Cons e es)
  have e: "uuid e = u \<Longrightarrow> committed e \<le> a \<and> epoch_floor e \<le> b" and t: "anchor_below u a b es"
    using Cons.prems(2) by (simp_all add: anchor_below_def)
  show ?case
  proof (cases "uuid e = u")
    case True
    then have "es' = raise_entry co infl None e # es" using Cons.prems(1) by simp
    then show ?thesis
      using e [OF True] t Cons.prems(3) by (auto simp: anchor_below_def raise_entry_def raise_to_def)
  next
    case False
    then obtain l where l: "raise_first u (raise_entry co infl None) es = Some l" "es' = e # l" using Cons.prems(1) by auto
    have "anchor_below u a b l" by (rule Cons.IH [OF l(1) t Cons.prems(3)])
    then show ?thesis using False by (simp add: l(2) anchor_below_def)
  qed
qed simp

lemma upsert_below:
  assumes "upsert_entry u co infl None es = Some es'" and "anchor_below u a b es" and "co \<in> {None, Some a}"
  shows "anchor_below u a b es'"
proof (cases "raise_first u (raise_entry co infl None) es")
  case None
  then have "es' = es @ [\<lparr>uuid = u, committed = or_zero co, in_flight = or_zero infl, epoch_floor = or_zero None\<rparr>]"
    using assms(1) by (simp add: upsert_entry_def split: if_splits)
  then show ?thesis using assms(2,3) by (simp add: anchor_below_def ball_Un or_zero_def) auto
next
  case (Some x)
  then show ?thesis using assms raise_first_below [OF Some] by (auto simp: upsert_entry_def)
qed

text \<open>The entry a check consults is the one a record raises.\<close>

lemma raise_first_find:
  "raise_first u f es = Some es' \<Longrightarrow> (\<And>e. uuid (f e) = uuid e) \<Longrightarrow> \<exists>e. find (\<lambda>e. uuid e = u) es' = Some (f e)"
proof (induction es arbitrary: es')
  case (Cons e es)
  show ?case
  proof (cases "uuid e = u")
    case True
    then have "es' = f e # es" using Cons.prems(1) by simp
    then show ?thesis using True Cons.prems(2) by auto
  next
    case False
    then obtain l where "raise_first u f es = Some l" "es' = e # l" using Cons.prems(1) by auto
    then show ?thesis using Cons.IH [OF _ Cons.prems(2)] False by simp
  qed
qed simp

lemma upsert_find:
  assumes "upsert_entry u co infl ef es = Some es'"
  shows "\<exists>e. find (\<lambda>e. uuid e = u) es' = Some e \<and> covers co (committed e) \<and> covers ef (epoch_floor e)"
proof (cases "raise_first u (raise_entry co infl ef) es")
  case None
  then have "es' = es @ [\<lparr>uuid = u, committed = or_zero co, in_flight = or_zero infl, epoch_floor = or_zero ef\<rparr>]"
    using assms by (simp add: upsert_entry_def split: if_splits)
  moreover have "find (\<lambda>e. uuid e = u) es = None" using None raise_first_None [of u "raise_entry co infl ef" es]
    by (auto simp: find_None_iff)
  moreover have "find P (xs @ ys) = (case find P xs of None \<Rightarrow> find P ys | Some x \<Rightarrow> Some x)" for P :: "anchor_entry \<Rightarrow> bool" and xs ys
    by (induction xs) simp_all
  ultimately show ?thesis by (simp add: covers_or_zero)
next
  case (Some l)
  then have "es' = l" using assms by (simp add: upsert_entry_def)
  moreover obtain e where "find (\<lambda>e. uuid e = u) l = Some (raise_entry co infl ef e)"
    using raise_first_find [OF Some] by (auto simp: raise_entry_def)
  ultimately show ?thesis using raise_to_le by (auto simp: raise_entry_def)
qed

lemma anchor_below_mono: "anchor_below u a b es \<Longrightarrow> a \<le> a' \<Longrightarrow> b \<le> b' \<Longrightarrow> anchor_below u a' b' es"
  by (auto simp: anchor_below_def)

definition db_inv :: "('h, 'z) env_scheme \<Rightarrow> ('h \<Rightarrow> bytes) \<Rightarrow> str \<Rightarrow> db_state \<Rightarrow> bytes list \<Rightarrow> manifest_payload \<Rightarrow> 'h pool \<Rightarrow> bool" where
  "db_inv E c name st bs m p \<longleftrightarrow> pool_inv E c p \<and> anchor_inv E c p \<and> aead_ok E \<and> hash_ok E
     \<and> map_of (dbs p) name = Some st \<and> st_crypto st = db_key E (dek p) (st_uuid st) \<and> length (st_uuid st) = 16 \<and> length (st_root st) = 32
     \<and> main_holds E c p name st bs \<and> lengths_known name p
     \<and> manifest_ok E c p name (st_uuid st) m \<and> db_generation m = st_generation st \<and> merkle_root m = st_root st
     \<and> st_uuid st \<in> uuid ` set (snd (anchor_load E p)) \<and> anchor_allows (st_uuid st) (st_generation st) (snd (anchor_load E p))"

text \<open>The payload a commit seals.\<close>

definition commit_payload :: "'z prims_scheme \<Rightarrow> str \<Rightarrow> db_state \<Rightarrow> bytes list \<Rightarrow> 'h pool \<Rightarrow> manifest_payload" where
  "commit_payload E name st bs p = \<lparr>db_generation = st_generation st + 1, db_uuid = st_uuid st, merkle_root = root_of_blocks E bs,
     prev_merkle_root = st_root st, mp_files = table_of E name p\<rparr>"

lemma lookup_anchor_frame [simp]: "lookup_file (p\<lparr>p_rng := q, anchor_handle := h\<rparr>) = lookup_file p"
  "lookup_file (p\<lparr>p_rng := q\<rparr>) = lookup_file p" "lookup_file (p\<lparr>dbs := d\<rparr>) = lookup_file p"
  by (simp_all add: lookup_file_def fun_eq_iff)

lemma main_holds_frame:
  assumes "lookup_file p' name = lookup_file p name"
  shows "main_holds E c p' name st bs = main_holds E c p name st bs"
proof -
  have "holds E c (dev_of p' f) n g = holds E c (dev_of p f) n g" for f n g by (simp add: holds_def dev_of_def)
  then show ?thesis using assms by (simp add: main_holds_def)
qed

lemma manifest_ok_frame:
  assumes "lookup_file p' (manifest_name name) = lookup_file p (manifest_name name)" and "dek p' = dek p"
  shows "manifest_ok E c p' name u m = manifest_ok E c p name u m"
  using assms by (simp add: manifest_ok_def)

lemma lengths_known_frame:
  "(\<And>n. n \<noteq> manifest_name name \<Longrightarrow> lookup_file p' n = lookup_file p n) \<Longrightarrow> lengths_known name p \<Longrightarrow> lengths_known name p'"
  using manifest_untracked unfolding lengths_known_def by metis

lemma get_filenames_put: "has_filename p n \<Longrightarrow> get_filenames (put_file n f p) = get_filenames p"
  by (simp add: get_filenames_def put_file_def update_keys has_filename_iff)

lemma uuid_kept: "list_all2 entry_le es (take (length es) es') \<Longrightarrow> u \<in> uuid ` set es \<Longrightarrow> u \<in> uuid ` set es'"
proof -
  assume a: "list_all2 entry_le es (take (length es) es')" and "u \<in> uuid ` set es"
  then obtain e where e: "e \<in> set es" "u = uuid e" by blast
  obtain e' where "e' \<in> set (take (length es) es')" "entry_le e e'"
    using a e(1) by (metis in_set_conv_nth list_all2_conv_all_nth)
  then have "e' \<in> set es'" "u = uuid e'" using e(2) by (auto simp: entry_le_def dest: in_set_takeD)
  then show ?thesis by blast
qed

lemma record_step:
  assumes inv: "anchor_inv E c p" and u: "length u = 16"
    and room: "u \<in> uuid ` set (snd (anchor_load E p)) \<or> length (snd (anchor_load E p)) < ANCHOR_CAP" and r: "rng_good (m + 2) (p_rng p)"
    and s: "unat (fst (anchor_load E p)) + 2 < 2 ^ 64"
  obtains h q where "anchor_record E u co infl p = (Inr (), p\<lparr>p_rng := q, anchor_handle := Some h\<rparr>)" and "rng_good m q"
    and "anchor_inv E c (p\<lparr>p_rng := q, anchor_handle := Some h\<rparr>)"
    and "unat (fst (anchor_load E (p\<lparr>p_rng := q, anchor_handle := Some h\<rparr>))) = unat (fst (anchor_load E p)) + 1"
    and "upsert_entry u co infl None (snd (anchor_load E p)) = Some (snd (anchor_load E (p\<lparr>p_rng := q, anchor_handle := Some h\<rparr>)))"
proof -
  obtain es where es: "upsert_entry u co infl None (snd (anchor_load E p)) = Some es" using upsert_room [OF room] by blast
  have r': "rng_good (Suc (Suc m)) (p_rng p)" using r by simp
  obtain h q where x: "anchor_record_full E u co infl None p = (Inr (), p\<lparr>p_rng := q, anchor_handle := Some h\<rparr>)" "rng_good m q"
      "anchor_inv E c (p\<lparr>p_rng := q, anchor_handle := Some h\<rparr>)"
      "anchor_load E (p\<lparr>p_rng := q, anchor_handle := Some h\<rparr>) = (fst (anchor_load E p) + 1, es)"
    using anchor_record_full_effect [OF inv u r' seq_room(1) [OF s] seq_room(2) [OF s] es] by auto
  have "unat (fst (anchor_load E p) + 1) = unat (fst (anchor_load E p)) + 1" using s by (simp add: unat_word_ariths)
  then show ?thesis using that [of h q] x es by (simp add: anchor_record_def)
qed

text \<open>What a commit reads of a pool that has the files of the open database: the root, and the lengths.\<close>

lemma commit_reads:
  assumes inv: "db_inv E c name st bs m p" and same: "files q = files p"
  shows "full_state_root E name q = (Inr (root_of_blocks E bs), q)"
    and "length_table E (tracked_files name q) q = (Inr (table_of E name p), q)"
    and "payload_wf (commit_payload E name st bs p)"
proof -
  note i = inv [unfolded db_inv_def]
  have S: "sah_ok E c" and d: "distinct (map fst (files p))" using i by (simp_all add: pool_inv_def)
  have l: "lookup_file q n = lookup_file p n" for n by (simp add: lookup_file_def same)
  have "main_holds E c q name st bs" using i main_holds_frame [OF l] by blast
  then show "full_state_root E name q = (Inr (root_of_blocks E bs), q)" by (rule full_state_root_holds [OF S])
  have lk: "lengths_known name q" using i by (simp add: lengths_known_def l)
  have "table_of E name q = table_of E name p"
    by (simp add: tracked_files_def get_filenames_def table_of_def length_entry_def same l)
  then show "length_table E (tracked_files name q) q = (Inr (table_of E name p), q)"
    using length_table_tracked [of q name E] d lk same by simp
  have "length (root_of_blocks E bs) = 32" using i by (simp add: root_of_blocks_eq hash_ok_lengths)
  then show "payload_wf (commit_payload E name st bs p)" unfolding commit_payload_def using i by (intro payload_wf_commit [OF _ d]) auto
qed

text \<open>Two raises of the anchor's table, one after the other.\<close>

lemma upserts_le:
  assumes "upsert_entry u co infl ef es = Some es1" and "upsert_entry u' co' infl' ef' es1 = Some es2"
  shows "list_all2 entry_le es (take (length es) es2)"
proof -
  have "list_all2 entry_le (take (length es) es1) (take (length es) (take (length es1) es2))"
    by (rule list_all2_takeI [OF upsert_effect(1) [OF assms(2)]])
  then have "list_all2 entry_le (take (length es) es1) (take (length es) es2)"
    using upsert_length [OF assms(1)] by (simp add: min_absorb1)
  then show ?thesis using upsert_effect(1) [OF assms(1)] by (blast intro: entry_le_trans list_all2_trans)
qed

text \<open>The invariant after a commit, from what the commit leaves.\<close>

lemma committed_db_inv:
  assumes inv: "db_inv E c name st bs m p" and q: "pool_inv E c q" "anchor_inv E c q" "dek q = dek p"
    and st: "map_of (dbs q) name = Some (st\<lparr>st_generation := st_generation st + 1, st_root := root_of_blocks E bs\<rparr>)"
    and lf: "\<And>n. n \<noteq> manifest_name name \<Longrightarrow> lookup_file q n = lookup_file p n"
    and mo: "manifest_ok E c q name (st_uuid st) (commit_payload E name st bs p)"
    and up: "upsert_entry (st_uuid st) co (Some (st_generation st + 1)) None (snd (anchor_load E p)) = Some es1"
      "upsert_entry (st_uuid st) co' (Some (st_generation st + 1)) None es1 = Some (snd (anchor_load E q))"
      "co \<in> {None, Some (st_generation st + 1)}" "co' \<in> {None, Some (st_generation st + 1)}"
    and g: "st_generation st < st_generation st + 1"
  shows "db_inv E c name (st\<lparr>st_generation := st_generation st + 1, st_root := root_of_blocks E bs\<rparr>) bs (commit_payload E name st bs p) q"
proof -
  note i = inv [unfolded db_inv_def]
  let ?g = "st_generation st + 1" and ?st = "st\<lparr>st_generation := st_generation st + 1, st_root := root_of_blocks E bs\<rparr>"
  have "main_holds E c p name ?st bs = main_holds E c p name st bs" by (simp add: main_holds_def)
  then have "main_holds E c q name ?st bs"
    using i main_holds_frame [OF lf [OF manifest_ne(2)], of E c ?st bs] by blast
  moreover have "lengths_known name q" using i by (intro lengths_known_frame [OF lf]) auto
  moreover have "anchor_allows (st_uuid st) ?g (snd (anchor_load E p))" using i g by (blast intro: anchor_below_mono less_imp_le)
  then have "anchor_allows (st_uuid st) ?g es1" by (rule upsert_below [OF up(1)]) (use up(3) in auto)
  then have "anchor_allows (st_uuid st) ?g (snd (anchor_load E q))" by (rule upsert_below [OF up(2)]) (use up(4) in auto)
  moreover have "st_uuid st \<in> uuid ` set (snd (anchor_load E q))"
    using uuid_kept [OF upserts_le [OF up(1,2)]] i by blast
  moreover have "length (root_of_blocks E bs) = 32" using i by (simp add: root_of_blocks_eq hash_ok_lengths)
  ultimately show ?thesis using i q st mo by (simp add: db_inv_def commit_payload_def)
qed

lemma commit_effect:
  assumes inv: "db_inv E c name st bs m p" and r: "rng_good (k + 5) (p_rng p)" and s: "unat (fst (anchor_load E p)) + 3 < 2 ^ 64"
    and g: "st_generation st < st_generation st + 1"
  shows "\<exists>p' st'. on_main_synced E name p = (Inr (), p') \<and> st' = st\<lparr>st_generation := st_generation st + 1, st_root := root_of_blocks E bs\<rparr>
    \<and> db_inv E c name st' bs (commit_payload E name st bs p) p'
    \<and> (\<forall>n. n \<noteq> manifest_name name \<longrightarrow> lookup_file p' n = lookup_file p n) \<and> get_filenames p' = get_filenames p \<and> dek p' = dek p
    \<and> rng_good k (p_rng p') \<and> unat (fst (anchor_load E p')) = unat (fst (anchor_load E p)) + 2
    \<and> list_all2 entry_le (snd (anchor_load E p)) (take (length (snd (anchor_load E p))) (snd (anchor_load E p')))
    \<and> (\<exists>e. find (\<lambda>e. uuid e = st_uuid st) (snd (anchor_load E p')) = Some e \<and> st_generation st + 1 \<le> committed e)"
proof -
  note i = inv [unfolded db_inv_def]
  let ?u = "st_uuid st" and ?g = "st_generation st + 1" and ?mn = "manifest_name name" and ?m = "commit_payload E name st bs p"
  have pi: "pool_inv E c p" and ai: "anchor_inv E c p" using i by simp_all
  have u: "length ?u = 16" "?u \<in> uuid ` set (snd (anchor_load E p))" using i by blast+
  obtain h1 q1 where a1: "anchor_record E ?u None (Some ?g) p = (Inr (), p\<lparr>p_rng := q1, anchor_handle := Some h1\<rparr>)" "rng_good (k + 3) q1"
      "anchor_inv E c (p\<lparr>p_rng := q1, anchor_handle := Some h1\<rparr>)"
      "unat (fst (anchor_load E (p\<lparr>p_rng := q1, anchor_handle := Some h1\<rparr>))) = unat (fst (anchor_load E p)) + 1"
      "upsert_entry ?u None (Some ?g) None (snd (anchor_load E p)) = Some (snd (anchor_load E (p\<lparr>p_rng := q1, anchor_handle := Some h1\<rparr>)))"
  proof -
    have "(k + 3) + 2 = k + 5" by simp
    then have "rng_good ((k + 3) + 2) (p_rng p)" using r by (simp only:)
    moreover have "unat (fst (anchor_load E p)) + 2 < 2 ^ 64" using s by simp
    ultimately show ?thesis using record_step [OF ai u(1) disjI1 [OF u(2)], of "k + 3" None "Some ?g"] that by metis
  qed
  let ?p1 = "p\<lparr>p_rng := q1, anchor_handle := Some h1\<rparr>"
  note rd = commit_reads [OF inv, of ?p1, simplified]
  have mo: "manifest_ok E c ?p1 name ?u m" using i by (simp add: manifest_ok_frame [of ?p1 name p])
  have pi1: "pool_inv E c ?p1" using pi by (simp add: pool_anchor_frame)
  obtain f q2 where s2: "seal_slot E name st ?m ?p1 = (Inr (), (put_file ?mn f ?p1)\<lparr>p_rng := q2\<rparr>)" "rng_good (k + 2) q2"
      "pool_inv E c ((put_file ?mn f ?p1)\<lparr>p_rng := q2\<rparr>)" "manifest_ok E c ((put_file ?mn f ?p1)\<lparr>p_rng := q2\<rparr>) name ?u ?m"
    using seal_slot_effect [OF pi1 _ _ mo _ rd(3), of st "k + 2"] i a1(2) g by (auto simp: commit_payload_def numeral_3_eq_3 numeral_2_eq_2)
  let ?p2 = "(put_file ?mn f ?p1)\<lparr>p_rng := q2\<rparr>"
  have ab: "anchor_load E ?p2 = anchor_load E ?p1" "anchor_inv E c ?p2 = anchor_inv E c ?p1"
    by (simp_all add: anchor_load_def anchor_inv_def healthy_def anchor_bytes_def put_file_def cong: option.case_cong)
  have ai2: "anchor_inv E c ?p2" using ab(2) a1(3) by blast
  have u2: "?u \<in> uuid ` set (snd (anchor_load E ?p2))"
    unfolding ab(1) by (rule uuid_kept [OF upsert_effect(1) [OF a1(5)] u(2)])
  have s2': "unat (fst (anchor_load E ?p2)) + 2 < 2 ^ 64" unfolding ab(1) a1(4) using s by simp
  have "p_rng ?p2 = q2" by simp
  then have r2: "rng_good (k + 2) (p_rng ?p2)" using s2(2) by simp
  obtain h3 q3 where a3: "anchor_record E ?u (Some ?g) (Some ?g) ?p2 = (Inr (), ?p2\<lparr>p_rng := q3, anchor_handle := Some h3\<rparr>)"
      "anchor_inv E c (?p2\<lparr>p_rng := q3, anchor_handle := Some h3\<rparr>)"
      "upsert_entry ?u (Some ?g) (Some ?g) None (snd (anchor_load E ?p2)) = Some (snd (anchor_load E (?p2\<lparr>p_rng := q3, anchor_handle := Some h3\<rparr>)))"
      "rng_good k q3" "unat (fst (anchor_load E (?p2\<lparr>p_rng := q3, anchor_handle := Some h3\<rparr>))) = unat (fst (anchor_load E ?p2)) + 1"
    using record_step [OF ai2 u(1) disjI1 [OF u2] r2 s2', of "Some ?g" "Some ?g"] by metis
  let ?p3 = "?p2\<lparr>p_rng := q3, anchor_handle := Some h3\<rparr>"
  let ?st = "st\<lparr>st_generation := ?g, st_root := root_of_blocks E bs\<rparr>"
  let ?p4 = "?p3\<lparr>dbs := AList.update name ?st (dbs ?p3)\<rparr>"
  have run: "on_main_synced E name p = (Inr (), ?p4)"
    using i a1(1) rd(1,2) s2(1) a3(1) by (simp add: on_main_synced_def commit_payload_def Let_def)
  have lf: "n \<noteq> ?mn \<Longrightarrow> lookup_file ?p4 n = lookup_file p n" for n by simp
  have al4: "anchor_load E ?p4 = anchor_load E ?p3" "anchor_inv E c ?p4 = anchor_inv E c ?p3"
    by (simp_all add: anchor_load_def anchor_inv_def healthy_def anchor_bytes_def cong: option.case_cong)
  note up3 = a3(3) [unfolded ab(1)]
  have pc: "pool_inv E c ?p4" using s2(3) by (simp add: pool_inv_def healthy_def lookup_file_def)
  have ai4: "anchor_inv E c ?p4" using al4(2) a3(2) by blast
  have mo4: "manifest_ok E c ?p4 name ?u ?m" using s2(4) by (simp add: manifest_ok_def lookup_file_def)
  have "db_inv E c name ?st bs ?m ?p4"
    by (rule committed_db_inv [OF inv pc ai4 _ _ lf mo4 a1(5) _ _ _ g, where co' = "Some ?g"]) (use up3 al4(1) in \<open>simp_all add: update_conv'\<close>)
  moreover have "get_filenames ?p4 = get_filenames p"
  proof -
    have "has_filename ?p1 ?mn" using mo by (auto simp: manifest_ok_def has_filename_def)
    then show ?thesis using get_filenames_put [of ?p1 ?mn f] by (simp add: get_filenames_def)
  qed
  moreover have "\<exists>e. find (\<lambda>e. uuid e = ?u) (snd (anchor_load E ?p4)) = Some e \<and> ?g \<le> committed e"
    unfolding al4(1) using upsert_find [OF a3(3)] by (auto simp: covers_def)
  moreover have "rng_good k (p_rng ?p4)" "unat (fst (anchor_load E ?p4)) = unat (fst (anchor_load E p)) + 2"
    using a3(4,5) al4(1) ab(1) a1(4) by simp_all
  ultimately show ?thesis
    using run lf upserts_le [OF a1(5) up3] al4(1) by (intro exI [of _ ?p4] exI [of _ ?st]) simp
qed

end
