(* ===== verification/Open_Db.thy ===== *)
theory Open_Db
  imports Commit
begin

text \<open>
  The opening of a database in \<open>crates/freehold/src/vfs.rs\<close> (\<open>open_main_db\<close>, \<open>bind_satellite\<close>,
  \<open>xOpen\<close>): the manifest is authenticated, its generation held against the freshness anchor, the
  physical length and the first block checked, and the image that would be served hashed and
  compared with the sealed roots, all before SQLite reads a byte.
\<close>

text \<open>The state every freshly created database starts from.\<close>

definition adopt_new :: "('h, 'z) env_scheme \<Rightarrow> str \<Rightarrow> 'h pool \<Rightarrow> ('h, unit) pool_result" where
  "adopt_new E name p =
     st_then (create_manifest E name (manifest_name name) p) (\<lambda>st p.
       case lookup_file p name of
         None \<Rightarrow> (Inl FileNotFound, p)
       | Some f \<Rightarrow> (Inr (), put_file name
           (f\<lparr>f_crypto := st_crypto st, f_key_domain := st_uuid st, is_main_db := True, logical_size := Some 0\<rparr>) p))"

definition check_generation :: "bytes \<Rightarrow> u64 \<Rightarrow> anchor_entry list \<Rightarrow> pool_error + unit" where
  "check_generation u gen entries =
     (case find (\<lambda>e. uuid e = u) entries of
        None \<Rightarrow> Inr ()
      | Some e \<Rightarrow>
        if gen + 1 < committed e then Inl Rollback
        else if epoch_floor e > 0 \<and> gen < epoch_floor e then Inl BelowEpochFloor
        else Inr ())"

definition usize_of :: "u64 \<Rightarrow> nat" where
  "usize_of l = unat l mod 2 ^ 32"

text \<open>The first block must decrypt to an SQLite header with the page size of the cipher.\<close>

definition check_block0 :: "('h, 'z) env_scheme \<Rightarrow> str \<Rightarrow> bytes \<Rightarrow> crypto \<Rightarrow> 'h dev \<Rightarrow> pool_error + unit" where
  "check_block0 E name u kdb d =
     try_then (map_err PVfs (phys_read E d PHYS_BLOCK 0)) (\<lambda>sealed.
       if length sealed < PHYS_BLOCK then Inl TornBlock0
       else try_then (map_err (\<lambda>_. BadBlock0) (open_into E kdb (file_id_for E name) u 0 sealed)) (\<lambda>plain.
         if \<not> starts_with plain SQLITE_HEADER then Inl NotSqlite
         else if header_page_size plain \<noteq> BLOCK_SIZE then Inl (WrongPageSize (header_page_size plain))
         else Inr ()))"

definition set_file_logical :: "str \<Rightarrow> nat \<Rightarrow> 'h pool \<Rightarrow> 'h pool" where
  "set_file_logical name l p =
     (case lookup_file p name of None \<Rightarrow> p | Some f \<Rightarrow> put_file name (f\<lparr>logical_size := Some l\<rparr>) p)"

definition check_main ::
  "('h, 'z) env_scheme \<Rightarrow> str \<Rightarrow> bytes \<Rightarrow> crypto \<Rightarrow> manifest_payload \<Rightarrow> nat \<Rightarrow> bool \<Rightarrow> 'h pool \<Rightarrow> ('h, unit) pool_result" where
  "check_main E name u kdb payload main_phys hot p =
     (let phys_len = (main_phys div PHYS_BLOCK) * BLOCK_SIZE in
      if main_phys > 0 \<and> hot then (Inr (), set_file_logical name phys_len p)
      else if main_phys > 0 then
        (if (case map_of (mp_files payload) (file_id_for E name) of None \<Rightarrow> False | Some l \<Rightarrow> usize_of l \<noteq> phys_len)
         then (Inl LengthMismatch, p)
         else let p = set_file_logical name phys_len p in
           (case lookup_file p name of
              None \<Rightarrow> (Inl FileNotFound, p)
            | Some f \<Rightarrow> (check_block0 E name u kdb (dev_of p f), p)))
      else (Inr (), set_file_logical name 0 p))"

text \<open>The satellites already in the pool take the database's key, and the sealed length if it fits.\<close>

fun bind_satellites ::
  "('h, 'z) env_scheme \<Rightarrow> bytes \<Rightarrow> crypto \<Rightarrow> manifest_payload \<Rightarrow> str list \<Rightarrow> 'h pool \<Rightarrow> ('h, unit) pool_result" where
  "bind_satellites E u kdb payload [] p = (Inr (), p)"
| "bind_satellites E u kdb payload (n # ns) p =
     (case lookup_file p n of
        None \<Rightarrow> bind_satellites E u kdb payload ns p
      | Some f \<Rightarrow>
        let f = f\<lparr>f_crypto := kdb, f_key_domain := u\<rparr>; p = put_file n f p in
        (case map_of (mp_files payload) (file_id_for E n) of
           None \<Rightarrow> bind_satellites E u kdb payload ns p
         | Some l \<Rightarrow> (case phys_size E (dev_of p f) of
             Inl e \<Rightarrow> (Inl (PVfs e), p)
           | Inr fp \<Rightarrow> bind_satellites E u kdb payload ns
               (if (usize_of l + BLOCK_SIZE - 1) div BLOCK_SIZE = fp div PHYS_BLOCK
                then put_file n (f\<lparr>logical_size := Some (usize_of l)\<rparr>) p else p))))"

definition accepted :: "manifest_payload \<Rightarrow> bytes \<Rightarrow> bool" where
  "accepted m r \<longleftrightarrow> r = merkle_root m \<or> prev_merkle_root m \<noteq> ZERO_ROOT \<and> r = prev_merkle_root m"

definition check_root ::
  "('h, 'z) env_scheme \<Rightarrow> str \<Rightarrow> bytes \<Rightarrow> crypto \<Rightarrow> manifest_payload \<Rightarrow> nat \<Rightarrow> bool \<Rightarrow> 'h pool \<Rightarrow> ('h, unit) pool_result" where
  "check_root E name u kdb payload main_phys hot p =
     (if main_phys > 0 \<and> merkle_root payload \<noteq> ZERO_ROOT then
        (if hot then
           (try_then (replay_journal_root E name (journal_name name) kdb u p) (\<lambda>served.
              if accepted payload served then Inr () else Inl PartialRollback), p)
         else st_then (full_state_root E name p) (\<lambda>actual p.
           (if accepted payload actual then Inr () else Inl PartialRollback, p)))
      else (Inr (), p))"

definition hot_journal :: "('h, 'z) env_scheme \<Rightarrow> str \<Rightarrow> bytes \<Rightarrow> crypto \<Rightarrow> 'h pool \<Rightarrow> bool" where
  "hot_journal E name u kdb p =
     (case lookup_file p (journal_name name) of
        None \<Rightarrow> False
      | Some j \<Rightarrow> journal_is_hot E (dev_of p j) kdb u (journal_name name))"

definition open_verified ::
  "('h, 'z) env_scheme \<Rightarrow> str \<Rightarrow> bytes \<Rightarrow> crypto \<Rightarrow> manifest_payload \<Rightarrow> nat \<Rightarrow> 'h pool \<Rightarrow> ('h, unit) pool_result" where
  "open_verified E name u kdb payload main_phys p =
     (let gen = db_generation payload in
      case check_generation u gen (snd (anchor_load E p)) of
        Inl e \<Rightarrow> (Inl e, p)
      | Inr _ \<Rightarrow>
        st_then (anchor_record E u (Some gen) (Some gen) p) (\<lambda>_ p.
          case lookup_file p name of
            None \<Rightarrow> (Inl FileNotFound, p)
          | Some f \<Rightarrow>
            let p = put_file name (f\<lparr>f_crypto := kdb, f_key_domain := u, is_main_db := True\<rparr>) p;
                hot = hot_journal E name u kdb p in
            st_then (check_main E name u kdb payload main_phys hot p) (\<lambda>_ p.
            st_then (bind_satellites E u kdb payload (filter (\<lambda>n. satellite_parent n = Some name) (get_filenames p)) p) (\<lambda>_ p.
            st_then (check_root E name u kdb payload main_phys hot p) (\<lambda>_ p.
              let p = p\<lparr>dbs := AList.update name
                    \<lparr>st_uuid = u, st_crypto = kdb, st_generation = gen, st_root = merkle_root payload\<rparr> (dbs p)\<rparr> in
              if main_phys > 0 \<and> \<not> hot \<and> merkle_root payload = ZERO_ROOT
              then seal_root_migration E name p else (Inr (), p))))))"

definition open_main_db :: "('h, 'z) env_scheme \<Rightarrow> str \<Rightarrow> 'h pool \<Rightarrow> ('h, unit) pool_result" where
  "open_main_db E name p =
     (case lookup_file p name of
        None \<Rightarrow> (Inl FileNotFound, p)
      | Some f \<Rightarrow> (case phys_size E (dev_of p f) of
          Inl e \<Rightarrow> (Inl (PVfs e), p)
        | Inr main_phys \<Rightarrow> (case lookup_file p (manifest_name name) of
            None \<Rightarrow> if main_phys \<noteq> 0 then (Inl DataWithoutManifest, p) else adopt_new E name p
          | Some mf \<Rightarrow> (case read_manifest E (dek p) (manifest_name name) (dev_of p mf) of
              Inl e \<Rightarrow> if main_phys \<noteq> 0 then (Inl e, p)
                else st_then (delete_file E (manifest_name name) p) (\<lambda>_ p. adopt_new E name p)
            | Inr (u, kdb, payload) \<Rightarrow> open_verified E name u kdb payload main_phys p))))"

definition bind_satellite :: "str \<Rightarrow> 'h pool \<Rightarrow> ('h, unit) pool_result" where
  "bind_satellite name p =
     (case satellite_parent name of
        None \<Rightarrow> (Inr (), p)
      | Some parent \<Rightarrow> (case map_of (dbs p) parent of
          None \<Rightarrow> (Inr (), p)
        | Some st \<Rightarrow>
          if ends_with name (ascii ''-wal'') then (Inl WalRefused, p)
          else (case lookup_file p name of
            None \<Rightarrow> (Inr (), p)
          | Some f \<Rightarrow> (Inr (), put_file name (f\<lparr>f_crypto := st_crypto st, f_key_domain := st_uuid st\<rparr>) p))))"

text \<open>\<open>opened\<close> is what the VFS library's own open answers, \<open>p\<close> the pool it leaves.\<close>

definition x_open :: "('h, 'z) env_scheme \<Rightarrow> bool \<Rightarrow> str \<Rightarrow> u32 \<Rightarrow> 'h pool \<Rightarrow> ('h, bool) pool_result" where
  "x_open E opened name flags p =
     (if \<not> opened then (Inr False, p)
      else case (if flags AND SQLITE_OPEN_MAIN_DB E \<noteq> 0 then open_main_db E name p
             else if flags AND (SQLITE_OPEN_MAIN_JOURNAL E OR SQLITE_OPEN_SUPER_JOURNAL E OR SQLITE_OPEN_WAL E) \<noteq> 0
             then bind_satellite name p else (Inr (), p)) of
        (r, p) \<Rightarrow> (map_sum id (\<lambda>_. True) r, p\<lparr>open_files := List.insert name (open_files p)\<rparr>))"

end
