(* ===== verification/Lifecycle.thy ===== *)
theory Lifecycle
  imports Open_Db
begin

text \<open>
  The life of a database: creation at the first open, commit, reopening, and what an open refuses.
  The invariant \<open>db_inv\<close> of an open database is established by the first open, kept by every commit
  and found again by the next open; \<open>open_accepts_exactly\<close> says when an open succeeds.
\<close>

lemma phys_size_of: "sah_ok E c \<Longrightarrow> phys_size E (dev_of p f) = Inr (length (c (handle f)) - HEADER_OFFSET_DATA)"
  by (simp add: phys_size_def dev_of_def)

lemma pool_inv_dbs [simp]: "pool_inv E c (p\<lparr>dbs := d\<rparr>) = pool_inv E c p"
  by (simp add: pool_inv_def healthy_def)

section \<open>A new database\<close>

text \<open>A block of zeros does not authenticate under the key: what an unwritten slot reads as.\<close>

definition blank_rejected :: "'z prims_scheme \<Rightarrow> crypto \<Rightarrow> bytes \<Rightarrow> bytes \<Rightarrow> bool" where
  "blank_rejected E k fid u \<longleftrightarrow> (\<forall>i. \<not> is_ok (open_into E k fid u i (replicate PHYS_BLOCK 0)))"

lemma length_manifest_header: "length u = 16 \<Longrightarrow> length (manifest_header u) = MANIFEST_HDR_LEN"
  by (simp add: manifest_header_def MANIFEST_MAGIC_def MANIFEST_HDR_LEN_def)

lemma manifest_header_fields:
  assumes "length u = 16"
  shows "slice 0 8 (manifest_header u) = MANIFEST_MAGIC" and "slice 8 16 (manifest_header u) = u"
  using assms by (simp_all add: manifest_header_def MANIFEST_MAGIC_def MANIFEST_HDR_LEN_def put_at_def slice_def)

lemma new_manifest_bytes:
  assumes "length b = HEADER_OFFSET_DATA" and "length u = 16" and "length s = PHYS_BLOCK"
  shows "blit (manifest_at 1) s (blit HEADER_OFFSET_DATA (manifest_header u) b) = b @ manifest_header u @ replicate PHYS_BLOCK 0 @ s"
  using assms length_manifest_header [OF assms(2)]
  by (simp add: blit_def manifest_at_def)

lemma write_new_manifest_effect:
  assumes S: "sah_ok E c" and k: "key_ok (E, kdb)" and wf: "payload_wf m" and one: "db_generation m = 1" and u: "length (db_uuid m) = 16"
    and g: "alive d" and r: "rng_good (Suc n) (d_rng d)" and l: "length (c (handle (d_file d))) = HEADER_OFFSET_DATA"
  shows "\<exists>sealed h q r. write_new_manifest E kdb mname m d = (Inr (), set_handle h (d\<lparr>d_rng := q\<rparr>)) \<and> rng_good n q
    \<and> seal_into E kdb (file_id_for E mname) (db_uuid m) 1 (mp_bytes m) r = (Inr sealed, q)
    \<and> c h = c (handle (d_file d)) @ manifest_header (db_uuid m) @ replicate PHYS_BLOCK 0 @ sealed"
proof -
  have sl: "slot_no (db_generation m) = 1" by (simp add: one slot_no_def)
  obtain w h1 where w: "sah_write E (handle (d_file d)) HEADER_OFFSET_DATA (manifest_header (db_uuid m)) = (w, h1)" by fastforce
  have w': "w = Some (length (manifest_header (db_uuid m)))" "c h1 = blit HEADER_OFFSET_DATA (manifest_header (db_uuid m)) (c (handle (d_file d)))"
    using sah_okD(3,4) [OF S, of "handle (d_file d)" HEADER_OFFSET_DATA "manifest_header (db_uuid m)"] w by simp_all
  let ?d = "set_handle h1 d"
  have u0: "usize_add HEADER_OFFSET_DATA 0 = HEADER_OFFSET_DATA" by (simp add: usize_add_def HEADER_OFFSET_DATA_def)
  have p1: "phys_write E (manifest_header (db_uuid m)) 0 d = (Inr (), ?d)"
    using gate_alive [OF g] w w'(1) u0 by (simp add: phys_write_def)
  have al: "alive ?d" "rng_good (Suc n) (d_rng ?d)" using g r by (simp_all add: set_handle_def alive_def)
  obtain sealed h q where s: "write_manifest_slot E kdb mname m ?d = (Inr (), set_handle h (?d\<lparr>d_rng := q\<rparr>))" "rng_good n q"
      "seal_into E kdb (file_id_for E mname) (db_uuid m) (word_of_nat (slot_no (db_generation m))) (mp_bytes m) (d_rng ?d) = (Inr sealed, q)"
      "c h = blit (manifest_at (slot_no (db_generation m))) sealed (c (handle (d_file ?d)))"
    using write_slot_effect [OF S k wf al, of mname] by blast
  have ls: "length sealed = PHYS_BLOCK" by (rule manifest_sealed(1) [OF k wf s(3)])
  have "c h = c (handle (d_file d)) @ manifest_header (db_uuid m) @ replicate PHYS_BLOCK 0 @ sealed"
    using s(4) w'(2) new_manifest_bytes [OF l u ls] by (simp add: sl set_handle_def)
  moreover have "write_new_manifest E kdb mname m d = (Inr (), set_handle h (d\<lparr>d_rng := q\<rparr>))"
    using p1 s(1) by (simp add: write_new_manifest_def lift_vfs_def set_handle_def)
  moreover have "seal_into E kdb (file_id_for E mname) (db_uuid m) 1 (mp_bytes m) (d_rng ?d) = (Inr sealed, q)" using s(3) by (simp add: sl)
  ultimately show ?thesis using s(2) by blast
qed

lemma new_manifest_ok:
  assumes k: "key_ok (E, kdb)" and wf: "payload_wf m" and one: "db_generation m = 1" and u: "length (db_uuid m) = 16"
    and s: "seal_into E kdb fid (db_uuid m) 1 (mp_bytes m) r = (Inr sealed, q)" and l: "length b = HEADER_OFFSET_DATA"
    and z: "blank_rejected E kdb fid (db_uuid m)"
  defines "x \<equiv> b @ manifest_header (db_uuid m) @ replicate PHYS_BLOCK 0 @ sealed"
  shows "manifest_uuid x = Some (db_uuid m)" and "manifest_at 2 \<le> length x"
    and "newest db_generation (manifest_slot E kdb fid (db_uuid m) x) = Some m"
    and "parity_ok db_generation (manifest_slot E kdb fid (db_uuid m) x)"
proof -
  note ml = length_manifest_header [OF u]
  note ms = manifest_sealed [OF k wf, of fid "db_uuid m" 1 r sealed q, OF s]
  have lx: "length x = HEADER_OFFSET_DATA + MANIFEST_HDR_LEN + 2 * PHYS_BLOCK" using l ml ms(1) by (simp add: x_def)
  then show le: "manifest_at 2 \<le> length x" by (simp add: manifest_at_def)
  have "slice HEADER_OFFSET_DATA MANIFEST_HDR_LEN x = manifest_header (db_uuid m)" using l ml by (simp add: x_def slice_def)
  then show "manifest_uuid x = Some (db_uuid m)"
    using manifest_header_fields [OF u] ml by (simp add: manifest_uuid_def)
  have a0: "slice (manifest_at 0) PHYS_BLOCK x = replicate PHYS_BLOCK 0" using l ml ms(1) by (simp add: x_def slice_def manifest_at_def)
  have a1: "slice (manifest_at 1) PHYS_BLOCK x = sealed" using l ml ms(1) by (simp add: x_def slice_def manifest_at_def)
  have s0: "manifest_slot E kdb fid (db_uuid m) x 0 = None"
    using z by (auto simp: manifest_slot_def a0 blank_rejected_def is_ok_iff split: sum.splits)
  have s1: "manifest_slot E kdb fid (db_uuid m) x 1 = Some m"
    using lx a1 ms(2) mp_decode_bytes [OF wf] by (simp add: manifest_slot_def manifest_at_def)
  show "newest db_generation (manifest_slot E kdb fid (db_uuid m) x) = Some m" using s0 s1 by (simp add: newest_cases)
  have "slot_no (db_generation m) = 1" by (simp add: one slot_no_def)
  then show "parity_ok db_generation (manifest_slot E kdb fid (db_uuid m) x)"
    using s0 s1 by (auto simp: parity_ok_def less_2_cases_iff)
qed

text \<open>A pool that can take one more database: a clean free file, a place in the anchor, draws ready.\<close>

definition room_for :: "('h, 'z) env_scheme \<Rightarrow> ('h \<Rightarrow> bytes) \<Rightarrow> str \<Rightarrow> bytes \<Rightarrow> nat \<Rightarrow> 'h pool \<Rightarrow> bool" where
  "room_for E c name u n p \<longleftrightarrow> available p \<noteq> [] \<and> length (c (handle (last (available p)))) = HEADER_OFFSET_DATA
     \<and> name_ok (manifest_name name) \<and> \<not> has_filename p (manifest_name name)
     \<and> (\<exists>q. random_uuid (p_rng p) = (Inr u, q) \<and> rng_good (n + 3) q) \<and> length u = 16
     \<and> u \<notin> uuid ` set (snd (anchor_load E p)) \<and> length (snd (anchor_load E p)) < ANCHOR_CAP
     \<and> unat (fst (anchor_load E p)) + 2 < 2 ^ 64
     \<and> blank_rejected E (db_key E (dek p) u) (file_id_for E (manifest_name name)) u"

lemma put_file_anchor [simp]: "anchor_crypto (put_file n f p) = anchor_crypto p"
  by (simp add: put_file_def)

lemma satellite_tracked: "tracked name n \<Longrightarrow> n \<noteq> name \<Longrightarrow> satellite_parent n = Some name"
  by (simp add: tracked_def)

lemma anchor_rest_frame:
  assumes "anchor_handle q = anchor_handle p" and "anchor_crypto q = anchor_crypto p" and "p_fault q = p_fault p"
  shows "anchor_load E q = anchor_load E p" and "anchor_inv E c q = anchor_inv E c p"
  using assms by (simp_all add: anchor_load_def anchor_inv_def healthy_def anchor_bytes_def cong: option.case_cong)

lemma first_payload_wf: "hash_ok E \<Longrightarrow> length u = 16 \<Longrightarrow> payload_wf (first_payload E name u)"
  by (simp add: payload_wf_def first_payload_def ZERO_ROOT_def file_id_for_def hash_ok_lengths FILE_ID_LEN_def manifest_sizes)

text \<open>The anchor is the same in a pool that has its handle and its key.\<close>

lemma anchor_same:
  assumes "anchor_inv E c p" and "pool_inv E c q" and "anchor_handle q = anchor_handle p" and "anchor_crypto q = anchor_crypto p"
  shows "anchor_inv E c q" and "anchor_load E q = anchor_load E p"
proof -
  have "anchor_bytes c q = anchor_bytes c p" using assms(3) by (simp add: anchor_bytes_def)
  then show "anchor_inv E c q" using assms by (simp add: anchor_inv_def pool_inv_def)
  show "anchor_load E q = anchor_load E p" using assms(3,4) by (simp add: anchor_load_def cong: option.case_cong)
qed

text \<open>The file of a new manifest, written through \<open>with_new_file\<close>.\<close>

lemma new_manifest_file:
  assumes inv: "pool_inv E c p" and E: "aead_ok E" "hash_ok E" and room: "room_for E c name u k p"
    and q: "random_uuid (p_rng p) = (Inr u, q)" "rng_good (k + 3) q"
  obtains g q2 where "with_new_file E (manifest_name name) (SQLITE_OPEN_MAIN_DB E)
        (write_new_manifest E (db_key E (dek p) u) (manifest_name name) (first_payload E name u)) (p\<lparr>p_rng := q\<rparr>) = (Inr (), g)"
    and "pool_inv E c g" and "manifest_ok E c g name u (first_payload E name u)" and "rng_good (k + 2) q2" and "p_rng g = q2"
    and "dek g = dek p" and "dbs g = dbs p" and "anchor_handle g = anchor_handle p" and "anchor_crypto g = anchor_crypto p"
    and "p_fault g = p_fault p" and "\<And>n. n \<noteq> manifest_name name \<Longrightarrow> lookup_file g n = lookup_file p n"
proof -
  let ?mn = "manifest_name name" and ?k = "db_key E (dek p) u" and ?m = "first_payload E name u" and ?p0 = "p\<lparr>p_rng := q\<rparr>"
  note rm = room [unfolded room_for_def]
  have S: "sah_ok E c" using inv by (simp add: pool_inv_def)
  have u: "length u = 16" using rm by blast
  have key: "key_ok (E, ?k)" using E by (simp add: key_ok_def len_simps)
  have wf: "payload_wf ?m" by (rule first_payload_wf [OF E(2) u])
  have m1: "db_generation ?m = 1" "db_uuid ?m = u" by (simp_all add: first_payload_def)
  have fl: "flags_persist E (SQLITE_OPEN_MAIN_DB E)" using inv by (intro flags_persist_main) (simp add: pool_inv_def)
  have i0: "pool_inv E c ?p0" "available ?p0 \<noteq> []" "\<not> has_filename ?p0 ?mn" "name_ok ?mn"
    using inv rm by (simp_all add: has_filename_def)
  obtain g r where w: "with_new_file E ?mn (SQLITE_OPEN_MAIN_DB E) (write_new_manifest E ?k ?mn ?m) ?p0
        = (case write_new_manifest E ?k ?mn ?m (dev_of r g) of (x, d) \<Rightarrow> (x, put_dev ?mn d r))"
      and ir: "pool_inv E c (put_file ?mn g r)" and ok: "handle_ok E c (Some ?mn) (handle g)" and id: "f_file_id g = file_id_for E ?mn"
      and over: "\<And>x. put_file ?mn x r = put_file ?mn x (put_file ?mn g r)" and hr: "healthy r" and rr: "pool_rest r = pool_rest ?p0"
      and dr: "drop HEADER_OFFSET_DATA (c (handle g)) = drop HEADER_OFFSET_DATA (c (handle (last (available ?p0))))"
      and lk: "\<And>m. m \<noteq> ?mn \<Longrightarrow> lookup_file r m = lookup_file ?p0 m"
    by (rule with_new_file_effect [OF i0 fl, where op = "write_new_manifest E ?k ?mn ?m"]) blast
  have lg: "length (c (handle g)) = HEADER_OFFSET_DATA"
    using arg_cong [OF dr, of length] rm ok by (simp add: handle_ok_def)
  have rest: "p_rng r = q" "dek r = dek p" "dbs r = dbs p" "anchor_handle r = anchor_handle p" "anchor_crypto r = anchor_crypto p"
      "p_fault r = p_fault p"
    using rr by (simp_all add: pool_rest_def)
  have al: "alive (dev_of r g)" using hr by (simp add: alive_def dev_of_def healthy_def)
  have r3: "rng_good (Suc (k + 2)) (d_rng (dev_of r g))" using q(2) rest(1) by (simp add: dev_of_def numeral_3_eq_3 numeral_2_eq_2)
  obtain sealed h q2 r0 where wn: "write_new_manifest E ?k ?mn ?m (dev_of r g) = (Inr (), set_handle h ((dev_of r g)\<lparr>d_rng := q2\<rparr>))" "rng_good (k + 2) q2"
      "seal_into E ?k (file_id_for E ?mn) (db_uuid ?m) 1 (mp_bytes ?m) r0 = (Inr sealed, q2)"
      "c h = c (handle (d_file (dev_of r g))) @ manifest_header (db_uuid ?m) @ replicate PHYS_BLOCK 0 @ sealed"
    using write_new_manifest_effect [OF S key wf m1(1) _ al r3, of ?mn] u m1(2) lg by (auto simp: dev_of_def)
  have ch: "c h = c (handle g) @ manifest_header u @ replicate PHYS_BLOCK 0 @ sealed" using wn(4) m1(2) by (simp add: dev_of_def)
  let ?g = "g\<lparr>handle := h\<rparr>"
  let ?p1 = "(put_file ?mn ?g r)\<lparr>p_rng := q2\<rparr>"
  have w1: "with_new_file E ?mn (SQLITE_OPEN_MAIN_DB E) (write_new_manifest E ?k ?mn ?m) ?p0 = (Inr (), ?p1)"
    using w wn(1) by (simp add: put_dev_def set_handle_def dev_of_def put_file_def)
  have z: "blank_rejected E ?k (file_id_for E ?mn) (db_uuid ?m)" using rm m1(2) by simp
  note mo = new_manifest_ok [OF key wf m1(1) _ wn(3) lg z, unfolded m1(2), OF u, folded ch]
  have ih: "handle_ok E c (Some ?mn) h" using ok ch lg by (simp add: handle_ok_def header_sizes)
  have "pool_inv E c (put_file ?mn ?g r)" using ir ih id unfolding over [of ?g] by (auto simp: pool_inv_def)
  then have i1: "pool_inv E c ?p1" by simp
  have mok: "manifest_ok E c ?p1 name u ?m"
    using mo rest by (auto simp: manifest_ok_def manifest_now_def lookup_file_def update_conv' put_file_def)
  show ?thesis by (rule that [OF w1 i1 mok wn(2)]) (use rest lk in simp_all)
qed

text \<open>The manifest with its record in the anchor and in the table of open databases.\<close>

lemma create_manifest_effect:
  assumes inv: "pool_inv E c p" and ai: "anchor_inv E c p" and E: "aead_ok E" "hash_ok E" and room: "room_for E c name u k p"
  defines "st \<equiv> \<lparr>st_uuid = u, st_crypto = db_key E (dek p) u, st_generation = 1, st_root = ZERO_ROOT\<rparr>"
  shows "\<exists>p'. create_manifest E name (manifest_name name) p = (Inr st, p') \<and> pool_inv E c p' \<and> anchor_inv E c p'
    \<and> manifest_ok E c p' name u (first_payload E name u) \<and> map_of (dbs p') name = Some st \<and> dek p' = dek p \<and> rng_good k (p_rng p')
    \<and> unat (fst (anchor_load E p')) = unat (fst (anchor_load E p)) + 1 \<and> u \<in> uuid ` set (snd (anchor_load E p'))
    \<and> anchor_allows u 1 (snd (anchor_load E p')) \<and> (\<forall>n. n \<noteq> manifest_name name \<longrightarrow> lookup_file p' n = lookup_file p n)"
proof -
  let ?mn = "manifest_name name" and ?k = "db_key E (dek p) u" and ?m = "first_payload E name u"
  note rm = room [unfolded room_for_def]
  have u: "length u = 16" using rm by blast
  obtain q where q: "random_uuid (p_rng p) = (Inr u, q)" "rng_good (k + 3) q" using rm by blast
  obtain p1 q2 where w: "with_new_file E ?mn (SQLITE_OPEN_MAIN_DB E) (write_new_manifest E ?k ?mn ?m) (p\<lparr>p_rng := q\<rparr>) = (Inr (), p1)"
      "pool_inv E c p1" "manifest_ok E c p1 name u ?m" "rng_good (k + 2) q2" "p_rng p1 = q2"
      and rest: "dek p1 = dek p" "dbs p1 = dbs p" "anchor_handle p1 = anchor_handle p" "anchor_crypto p1 = anchor_crypto p" "p_fault p1 = p_fault p"
      and lk: "\<And>n. n \<noteq> ?mn \<Longrightarrow> lookup_file p1 n = lookup_file p n"
    by (rule new_manifest_file [OF inv E room q]) blast
  note a1 = anchor_same [OF ai w(2) rest(3,4)]
  have room1: "u \<in> uuid ` set (snd (anchor_load E p1)) \<or> length (snd (anchor_load E p1)) < ANCHOR_CAP" using rm a1(2) by simp
  have r2: "rng_good (k + 2) (p_rng p1)" using w(4,5) by simp
  have sr: "unat (fst (anchor_load E p1)) + 2 < 2 ^ 64" using rm a1(2) by simp
  obtain hh q3 where ar: "anchor_record E u (Some 1) (Some 1) p1 = (Inr (), p1\<lparr>p_rng := q3, anchor_handle := Some hh\<rparr>)"
      "anchor_inv E c (p1\<lparr>p_rng := q3, anchor_handle := Some hh\<rparr>)"
      "upsert_entry u (Some 1) (Some 1) None (snd (anchor_load E p1)) = Some (snd (anchor_load E (p1\<lparr>p_rng := q3, anchor_handle := Some hh\<rparr>)))"
      "rng_good k q3" "unat (fst (anchor_load E (p1\<lparr>p_rng := q3, anchor_handle := Some hh\<rparr>))) = unat (fst (anchor_load E p1)) + 1"
    using record_step [OF a1(1) u room1 r2 sr, of "Some 1" "Some 1"] by metis
  let ?p2 = "p1\<lparr>p_rng := q3, anchor_handle := Some hh, dbs := AList.update name st (dbs p1)\<rparr>"
  have run: "create_manifest E name ?mn p = (Inr st, ?p2)"
    using q(1) w(1) ar(1) by (simp add: create_manifest_def Let_def st_def)
  have i2: "pool_inv E c ?p2" using w(2) by (simp add: pool_inv_def healthy_def lookup_file_def)
  have a2: "anchor_load E ?p2 = anchor_load E (p1\<lparr>p_rng := q3, anchor_handle := Some hh\<rparr>)" by (rule anchor_rest_frame(1); simp)
  have "anchor_inv E c ?p2 = anchor_inv E c (p1\<lparr>p_rng := q3, anchor_handle := Some hh\<rparr>)" by (rule anchor_rest_frame(2); simp)
  then have ai2: "anchor_inv E c ?p2" using ar(2) by blast
  have "anchor_allows u 1 (snd (anchor_load E p1))" using rm a1(2) by (auto simp: anchor_below_def)
  then have aw: "anchor_allows u 1 (snd (anchor_load E ?p2))" unfolding a2 by (rule upsert_below [OF ar(3)]) simp
  have mok: "manifest_ok E c ?p2 name u ?m" using w(3) by (simp add: manifest_ok_def lookup_file_def)
  have um: "u \<in> uuid ` set (snd (anchor_load E ?p2))" unfolding a2 using upsert_effect(2) [OF ar(3)] by force
  have sq: "unat (fst (anchor_load E ?p2)) = unat (fst (anchor_load E p)) + 1" using ar(5) a1(2) a2 by simp
  have lf: "lookup_file ?p2 n = lookup_file p n" if "n \<noteq> ?mn" for n using lk [OF that] by simp
  have dr: "map_of (dbs ?p2) name = Some st" "dek ?p2 = dek p" "rng_good k (p_rng ?p2)" using rest(1) ar(4) by (simp_all add: update_conv')
  show ?thesis
    by (intro exI [of _ ?p2] conjI allI impI run i2 ai2 mok dr sq um aw lf)
qed

text \<open>And the empty main file bound to it.\<close>

lemma adopt_effect:
  assumes inv: "pool_inv E c p" and ai: "anchor_inv E c p" and E: "aead_ok E" "hash_ok E"
    and f: "lookup_file p name = Some f" "length (c (handle f)) = HEADER_OFFSET_DATA"
    and room: "room_for E c name u k p" and sat: "\<forall>n. satellite_parent n = Some name \<longrightarrow> \<not> has_filename p n"
  defines "st \<equiv> \<lparr>st_uuid = u, st_crypto = db_key E (dek p) u, st_generation = 1, st_root = ZERO_ROOT\<rparr>"
  shows "\<exists>p'. adopt_new E name p = (Inr (), p') \<and> db_inv E c name st [] (first_payload E name u) p' \<and> rng_good k (p_rng p') \<and> dek p' = dek p
    \<and> unat (fst (anchor_load E p')) = unat (fst (anchor_load E p)) + 1
    \<and> (\<forall>n. n \<noteq> name \<and> n \<noteq> manifest_name name \<longrightarrow> lookup_file p' n = lookup_file p n)"
proof -
  let ?mn = "manifest_name name" and ?m = "first_payload E name u"
  have u: "length u = 16" using room by (simp add: room_for_def)
  obtain p2 where cm: "create_manifest E name ?mn p = (Inr st, p2)" "pool_inv E c p2" "anchor_inv E c p2" "manifest_ok E c p2 name u ?m"
      "map_of (dbs p2) name = Some st" "dek p2 = dek p" "rng_good k (p_rng p2)" "unat (fst (anchor_load E p2)) = unat (fst (anchor_load E p)) + 1"
      "u \<in> uuid ` set (snd (anchor_load E p2))" "anchor_allows u 1 (snd (anchor_load E p2))"
      and lk: "\<And>n. n \<noteq> ?mn \<Longrightarrow> lookup_file p2 n = lookup_file p n"
    using create_manifest_effect [OF inv ai E room] unfolding st_def by blast
  let ?f = "f\<lparr>f_crypto := st_crypto st, f_key_domain := st_uuid st, is_main_db := True, logical_size := Some 0\<rparr>"
  let ?p3 = "put_file name ?f p2"
  have nm: "name \<noteq> ?mn" by (rule manifest_ne(2))
  have lf: "lookup_file p2 name = Some f" using lk [OF nm] f(1) by simp
  have run: "adopt_new E name p = (Inr (), ?p3)" using cm(1) lf by (simp add: adopt_new_def)
  have fi: "handle_ok E c (Some name) (handle f)" "f_file_id f = file_id_for E name" using inv f(1) by (auto simp: pool_inv_def)
  have i3: "pool_inv E c ?p3" using cm(2) fi by (auto simp: pool_inv_def)
  have a3: "anchor_inv E c ?p3" "anchor_load E ?p3 = anchor_load E p2" by (rule anchor_same [OF cm(3) i3]; simp)+
  have lo: "lookup_file ?p3 n = lookup_file p n" if "n \<noteq> name" "n \<noteq> ?mn" for n using that lk [OF that(2)] by simp
  have "db_inv E c name st [] ?m ?p3"
    unfolding db_inv_def
  proof (intro conjI)
    show "main_holds E c ?p3 name st []" using f(2) fi by (simp add: main_holds_def holds_def dev_of_def)
    have "logical_size x \<noteq> None" if "tracked name n" "lookup_file ?p3 n = Some x" for n x
    proof (cases "n = name")
      case False
      have "n \<noteq> ?mn" using that(1) manifest_untracked by blast
      then show ?thesis using sat satellite_tracked [OF that(1) False] lo [OF False] that(2) by (auto simp: has_filename_def)
    qed (use that in auto)
    then show "lengths_known name ?p3" by (simp add: lengths_known_def)
    have "manifest_ok E c ?p3 name u ?m = manifest_ok E c p2 name u ?m" using nm by (intro manifest_ok_frame) simp_all
    then show "manifest_ok E c ?p3 name (st_uuid st) ?m" using cm(4) by (simp add: st_def)
  qed (use i3 a3 cm(5,6,9,10) E u in \<open>simp_all add: st_def first_payload_def ZERO_ROOT_def\<close>)
  then show ?thesis using run lo cm(6-8) a3(2) by (intro exI [of _ ?p3]) simp
qed

text \<open>
  C30: The first open of an empty file creates its database. With a clean free file, a place in the
  anchor and no manifest yet, \<open>open_main_db\<close> seals a manifest of generation one under a fresh
  identifier, records it in the anchor, and leaves a database that satisfies the invariant of open
  databases; every other file of the pool is untouched.
\<close>

theorem first_open_creates:
  assumes "pool_inv E c p" and "anchor_inv E c p" and "aead_ok E" and "hash_ok E"
    and "lookup_file p name = Some f" and "length (c (handle f)) = HEADER_OFFSET_DATA"
    and "room_for E c name u k p" and "\<forall>n. satellite_parent n = Some name \<longrightarrow> \<not> has_filename p n"
  shows "\<exists>p'. open_main_db E name p = (Inr (), p')
    \<and> db_inv E c name \<lparr>st_uuid = u, st_crypto = db_key E (dek p) u, st_generation = 1, st_root = ZERO_ROOT\<rparr> [] (first_payload E name u) p'
    \<and> (\<forall>n. n \<noteq> name \<and> n \<noteq> manifest_name name \<longrightarrow> lookup_file p' n = lookup_file p n)"
proof -
  have "sah_ok E c" using assms(1) by (simp add: pool_inv_def)
  moreover have "lookup_file p (manifest_name name) = None" using assms(7) by (simp add: room_for_def has_filename_def)
  ultimately have "open_main_db E name p = adopt_new E name p"
    using phys_size_of [of E c p f] assms(5,6) by (simp add: open_main_db_def)
  then show ?thesis using adopt_effect [OF assms] by auto
qed

section \<open>Instances\<close>

definition blank_file :: "bytes saf" where
  "blank_file = free_file\<lparr>handle := header_of a_db 0x100 @ replicate (HEADER_OFFSET_DATA - HEADER_CORPUS_SIZE) 0,
     f_file_id := file_id_for mem_env a_db\<rparr>"

definition new_pool :: "bytes pool" where
  "new_pool = anchor_pool\<lparr>files := [(a_db, blank_file)], p_rng := Some (replicate 16 4) # replicate 20 (Some (replicate 24 9))\<rparr>"

lemma rng_good_replicate: "length d = NONCE_LEN \<Longrightarrow> \<not> list_all (\<lambda>b. b = 0) d \<Longrightarrow> m \<le> n \<Longrightarrow> rng_good m (replicate n (Some d))"
proof (induction n arbitrary: m)
  case (Suc n)
  then show ?case by (cases m) simp_all
qed simp

lemma mem_blank_rejected: "length fid = FILE_ID_LEN \<Longrightarrow> length u = 16 \<Longrightarrow> blank_rejected mem_env k fid u"
proof -
  assume l: "length fid = FILE_ID_LEN" "length u = 16"
  have "replicate 16 0 \<noteq> toy_tag k n (block_aad fid u i) x" for n i x
  proof
    assume "replicate 16 0 = toy_tag k n (block_aad fid u i) x"
    from arg_cong [OF this, of "\<lambda>l. l ! 1"] l show False
      by (simp add: toy_tag_def toy_hash_def block_aad_def FILE_ID_LEN_def)
  qed
  then show ?thesis by (simp add: blank_rejected_def open_into_def mem_env_def prims.extend_def size_defs is_ok_iff)
qed

lemma new_pool_ok:
  "pool_inv mem_env (\<lambda>h. h) new_pool" "anchor_inv mem_env (\<lambda>h. h) new_pool" "anchor_load mem_env new_pool = (0, [])"
  "lookup_file new_pool a_db = Some blank_file" "length (handle blank_file) = HEADER_OFFSET_DATA"
  "k \<le> 17 \<Longrightarrow> room_for mem_env (\<lambda>h. h) a_db (replicate 16 4) k new_pool"
  "\<forall>n. satellite_parent n = Some a_db \<longrightarrow> \<not> has_filename new_pool n"
proof -
  have na: "name_ok a_db" "name_ok (manifest_name a_db)" by (rule name_ok_ascii; auto simp: manifest_name_def)+
  have fp: "flags_persist mem_env 0x100"
    using flags_persist_main [OF mem_env_flags] by (simp add: mem_env_def prims.extend_def)
  have lh: "length (header_of a_db 0x100) = HEADER_CORPUS_SIZE" by (rule length_header_of) (simp add: HEADER_MAX_FILENAME_SIZE_def)
  show lb: "length (handle blank_file) = HEADER_OFFSET_DATA" using lh by (simp add: blank_file_def header_sizes)
  show lk: "lookup_file new_pool a_db = Some blank_file" by (simp add: new_pool_def lookup_file_def)
  have hb: "handle_ok mem_env (\<lambda>h. h) (Some a_db) (handle blank_file)"
    using hdr_name_header [OF na(1) fp] lh lb by (simp add: handle_ok_def blank_file_def)
  show "pool_inv mem_env (\<lambda>h. h) new_pool"
    using mem_pool_inv hb
    by (simp add: pool_inv_def new_pool_def anchor_pool_def mem_pool_def healthy_def lookup_file_def blank_file_def)
  have f: "anchor_handle new_pool = anchor_handle anchor_pool" "anchor_crypto new_pool = anchor_crypto anchor_pool"
      "p_fault new_pool = p_fault anchor_pool" by (simp_all add: new_pool_def)
  show "anchor_inv mem_env (\<lambda>h. h) new_pool" using anchor_rest_frame(2) [where E = mem_env, OF f] anchor_pool_inv by blast
  show al: "anchor_load mem_env new_pool = (0, [])" using anchor_rest_frame(1) [where E = mem_env, OF f] anchor_pool_load by simp
  have d: "available new_pool = [free_file, free_file]" "files new_pool = [(a_db, blank_file)]"
    by (simp_all add: new_pool_def anchor_pool_def mem_pool_def)
  have lf: "length (handle free_file) = HEADER_OFFSET_DATA"
    using length_header_of [of "[]" 0] by (simp add: free_file_def header_sizes)
  have nm: "manifest_name a_db \<noteq> a_db" by code_simp
  have r: "random_uuid (p_rng new_pool) = (Inr (replicate 16 4), replicate 20 (Some (replicate 24 9)))"
    by (simp add: random_uuid_def new_pool_def)
  have g: "k \<le> 17 \<Longrightarrow> rng_good (k + 3) (replicate 20 (Some (replicate 24 (9 :: byte))))"
    by (rule rng_good_replicate) (simp_all add: NONCE_LEN_def)
  have z: "blank_rejected mem_env (db_key mem_env (dek new_pool) (replicate 16 4)) (file_id_for mem_env (manifest_name a_db)) (replicate 16 4)"
    by (rule mem_blank_rejected) (simp_all add: file_id_for_def FILE_ID_LEN_def)
  show "k \<le> 17 \<Longrightarrow> room_for mem_env (\<lambda>h. h) a_db (replicate 16 4) k new_pool"
    unfolding room_for_def al using d lf nm r g z na(2)
    by (simp add: has_filename_def lookup_file_def manifest_sizes)
  have "satellite_parent a_db = None" by code_simp
  then show "\<forall>n. satellite_parent n = Some a_db \<longrightarrow> \<not> has_filename new_pool n"
    by (auto simp: has_filename_iff d)
qed

theorem first_open_creates_witness:
  "\<exists>p'. open_main_db mem_env a_db new_pool = (Inr (), p') \<and> map_option st_generation (map_of (dbs p') a_db) = Some 1"
  using first_open_creates [OF new_pool_ok(1,2) _ _ new_pool_ok(4,5) new_pool_ok(6) [of 0] new_pool_ok(7)] by (auto simp: db_inv_def)

lemma new_db:
  obtains p where "open_main_db mem_env a_db new_pool = (Inr (), p)"
    and "db_inv mem_env (\<lambda>h. h) a_db \<lparr>st_uuid = replicate 16 4, st_crypto = db_key mem_env (dek new_pool) (replicate 16 4),
        st_generation = 1, st_root = ZERO_ROOT\<rparr> [] (first_payload mem_env a_db (replicate 16 4)) p"
    and "rng_good 17 (p_rng p)" and "unat (fst (anchor_load mem_env p)) = 1"
proof -
  have "\<not> has_filename new_pool (manifest_name a_db)" using new_pool_ok(6) [of 0] by (simp add: room_for_def)
  then have "open_main_db mem_env a_db new_pool = adopt_new mem_env a_db new_pool"
    using phys_size_of [OF mem_env_ok, of new_pool blank_file] by (simp add: open_main_db_def new_pool_ok(4,5) has_filename_def)
  then show ?thesis
    using that adopt_effect [OF new_pool_ok(1,2) _ _ new_pool_ok(4,5) new_pool_ok(6) [of 17] new_pool_ok(7)] new_pool_ok(3) by auto
qed

section \<open>Commit\<close>

text \<open>
  C2: A commit of an open database goes through and advances it by one generation. The sealed
  manifest carries the root of the blocks on disk, the root before it and the lengths of the files;
  the anchor moves to the new generation; no file but the manifest changes; and the database still
  satisfies the invariant, so it can commit again.
\<close>

theorem commit_advances:
  assumes "db_inv E c name st bs m p" and "rng_good 5 (p_rng p)" and "unat (fst (anchor_load E p)) + 3 < 2 ^ 64"
    and "st_generation st < st_generation st + 1"
  shows "\<exists>p'. on_main_synced E name p = (Inr (), p')
    \<and> db_inv E c name (st\<lparr>st_generation := st_generation st + 1, st_root := root_of_blocks E bs\<rparr>) bs (commit_payload E name st bs p) p'
    \<and> (\<forall>n. n \<noteq> manifest_name name \<longrightarrow> lookup_file p' n = lookup_file p n) \<and> get_filenames p' = get_filenames p
    \<and> (\<exists>e. find (\<lambda>e. uuid e = st_uuid st) (snd (anchor_load E p')) = Some e \<and> st_generation st + 1 \<le> committed e)"
proof -
  have "rng_good (0 + 5) (p_rng p)" unfolding add_0 by (rule assms(2))
  from commit_effect [OF assms(1) this assms(3,4)] show ?thesis by blast
qed

lemma rng_good_less: "m \<le> n \<Longrightarrow> rng_good n r \<Longrightarrow> rng_good m r"
proof (induction n arbitrary: m r)
  case (Suc n)
  then show ?case by (cases m) (auto split: prod.splits option.splits)
qed simp

section \<open>Reopening\<close>

lemma phys_frame:
  assumes "handle (d_file d') = handle (d_file d)"
  shows "phys_size E d' = phys_size E d" and "phys_read E d' = phys_read E d"
  using assms by (simp_all add: phys_size_def phys_read_def fun_eq_iff)

lemma journal_is_hot_frame: "handle (d_file d') = handle (d_file d) \<Longrightarrow> journal_is_hot E d' k u n = journal_is_hot E d k u n"
  unfolding journal_is_hot_def by (simp only: phys_frame [of d' d])

lemma decrypt_whole_frame:
  assumes "handle (d_file d') = handle (d_file d)"
  shows "decrypt_whole_file E d' k u n = decrypt_whole_file E d k u n"
proof -
  have "decrypt_blocks E d' k u n ks = decrypt_blocks E d k u n ks" for ks
    by (induction ks) (simp_all only: decrypt_blocks.simps phys_frame [OF assms])
  then show ?thesis unfolding decrypt_whole_file_def by (simp only: phys_frame [OF assms])
qed

text \<open>The handles behind the names: all that the journal's checks look at.\<close>

definition handles :: "'h pool \<Rightarrow> str \<rightharpoonup> 'h" where
  "handles p n = map_option handle (lookup_file p n)"

lemma handles_cases:
  assumes "handles p' n = handles p n"
  obtains "lookup_file p n = None" and "lookup_file p' n = None"
  | f f' where "lookup_file p n = Some f" and "lookup_file p' n = Some f'" and "handle (d_file (dev_of p' f')) = handle (d_file (dev_of p f))"
  using assms by (cases "lookup_file p n"; cases "lookup_file p' n") (simp_all add: handles_def dev_of_def)

lemma hot_journal_frame:
  assumes "handles p' (journal_name name) = handles p (journal_name name)"
  shows "hot_journal E name u k p' = hot_journal E name u k p"
proof (rule handles_cases [OF assms])
  fix f f'
  assume j: "lookup_file p (journal_name name) = Some f" "lookup_file p' (journal_name name) = Some f'"
    and h: "handle (d_file (dev_of p' f')) = handle (d_file (dev_of p f))"
  show ?thesis unfolding hot_journal_def j option.case by (rule journal_is_hot_frame [OF h])
qed (simp add: hot_journal_def)

lemma replay_root_frame:
  assumes "handles p' j = handles p j" and "handles p' name = handles p name"
  shows "replay_journal_root E name j k u p' = replay_journal_root E name j k u p"
proof (rule handles_cases [OF assms(1)])
  fix f f'
  assume j: "lookup_file p j = Some f" "lookup_file p' j = Some f'" and h: "handle (d_file (dev_of p' f')) = handle (d_file (dev_of p f))"
  show ?thesis
  proof (rule handles_cases [OF assms(2)])
    fix g g'
    assume n: "lookup_file p name = Some g" "lookup_file p' name = Some g'" and l: "handle (d_file (dev_of p' g')) = handle (d_file (dev_of p g))"
    show ?thesis unfolding replay_journal_root_def j n option.case decrypt_whole_frame [OF h] decrypt_whole_frame [OF l] ..
  qed (simp add: replay_journal_root_def j)
qed (simp add: replay_journal_root_def)

lemma bind_satellites_effect:
  assumes "sah_ok E c"
  shows "\<exists>p'. bind_satellites E u k m ns p = (Inr (), p') \<and> (\<forall>n. n \<notin> set ns \<longrightarrow> lookup_file p' n = lookup_file p n)
    \<and> handles p' = handles p \<and> pool_rest p' = pool_rest p \<and> (pool_inv E c p \<longrightarrow> pool_inv E c p')"
proof (induction ns arbitrary: p)
  case (Cons n ns)
  show ?case
  proof (cases "lookup_file p n")
    case None
    then show ?thesis using Cons.IH [of p] by auto
  next
    case (Some f)
    obtain l where l: "bind_satellites E u k m (n # ns) p
        = bind_satellites E u k m ns (put_file n (f\<lparr>f_crypto := k, f_key_domain := u, logical_size := l\<rparr>) p)"
    proof (cases "map_of (mp_files m) (file_id_for E n)")
      case None
      then show ?thesis using Some that [of "logical_size f"] by (simp add: Let_def)
    next
      case y: (Some y)
      have pp: "put_file n a (put_file n b p) = put_file n a p" for a b by (simp add: put_file_def)
      have ps: "phys_size E (dev_of p x) = Inr (length (c (handle x)) - HEADER_OFFSET_DATA)" for x
        using assms by (rule phys_size_of)
      let ?s = "(usize_of y + BLOCK_SIZE - 1) div BLOCK_SIZE = (length (c (handle f)) - HEADER_OFFSET_DATA) div PHYS_BLOCK"
      show ?thesis
        by (rule that [of "if ?s then Some (usize_of y) else logical_size f"]) (simp add: Some y Let_def ps pp)
    qed
    let ?q = "put_file n (f\<lparr>f_crypto := k, f_key_domain := u, logical_size := l\<rparr>) p"
    have h: "handles ?q = handles p" using Some by (auto simp: handles_def fun_eq_iff)
    have i: "pool_inv E c p \<Longrightarrow> pool_inv E c ?q" using Some by (auto simp: pool_inv_def)
    obtain p' where "bind_satellites E u k m ns ?q = (Inr (), p')" "\<forall>x. x \<notin> set ns \<longrightarrow> lookup_file p' x = lookup_file ?q x"
        "handles p' = handles ?q" "pool_rest p' = pool_rest ?q" "pool_inv E c ?q \<longrightarrow> pool_inv E c p'"
      using Cons.IH [of ?q] by blast
    then show ?thesis using l h i by (intro exI [of _ p']) auto
  qed
qed simp

lemma satellite_ne: "satellite_parent n = Some name \<Longrightarrow> n \<noteq> name \<and> n \<noteq> manifest_name name"
  using tracked_names [of name n] manifest_ne [of name] by (auto simp: tracked_def satellite_parent_def manifest_name_def strip_suffix_Some_iff split: option.splits)

text \<open>The blocks of a main file on disk, under the key and domain its manifest names.\<close>

definition on_disk :: "('h, 'z) env_scheme \<Rightarrow> ('h \<Rightarrow> bytes) \<Rightarrow> 'h pool \<Rightarrow> str \<Rightarrow> bytes \<Rightarrow> bytes list \<Rightarrow> bool" where
  "on_disk E c p name u bs \<longleftrightarrow> (\<exists>f. lookup_file p name = Some f
     \<and> holds E c (dev_of p (f\<lparr>f_crypto := db_key E (dek p) u, f_key_domain := u\<rparr>)) (length bs) (\<lambda>k. bs ! k)
     \<and> length bs * BLOCK_SIZE \<le> DEV_LIMIT)"

text \<open>What the checks on a file that is not empty ask of its first block and its sealed length.\<close>

definition block0_ok :: "bytes list \<Rightarrow> bool" where
  "block0_ok bs \<longleftrightarrow> starts_with (bs ! 0) SQLITE_HEADER \<and> header_page_size (bs ! 0) = BLOCK_SIZE"

definition length_ok :: "'z prims_scheme \<Rightarrow> str \<Rightarrow> manifest_payload \<Rightarrow> bytes list \<Rightarrow> bool" where
  "length_ok E name m bs \<longleftrightarrow> (case map_of (mp_files m) (file_id_for E name) of
     None \<Rightarrow> True | Some l \<Rightarrow> usize_of l = length bs * BLOCK_SIZE)"

lemma check_block0_eq:
  assumes S: "sah_ok E c" and h: "holds E c (dev_of p f) (length bs) (\<lambda>k. bs ! k)" and ne: "bs \<noteq> []"
    and k: "f_crypto f = k" "f_key_domain f = u" "f_file_id f = file_id_for E name"
  shows "(check_block0 E name u k (dev_of p f) = Inr ()) = block0_ok bs"
proof -
  have "0 < length bs" using ne by simp
  then obtain pb where pb: "phys_read E (dev_of p f) PHYS_BLOCK (0 * PHYS_BLOCK) = Inr pb" "length pb = PHYS_BLOCK" "open_block E f 0 pb = Inr (bs ! 0)"
    using phys_read_holds [OF S h, of 0] by (auto simp: DEV_LIMIT_def dev_of_def)
  then have "open_into E k (file_id_for E name) u 0 pb = Inr (bs ! 0)" using k by (simp add: open_block_def)
  then show ?thesis using pb(1,2) by (simp add: check_block0_def block0_ok_def)
qed

lemma holds_size: "holds E c d n g \<Longrightarrow> length (c (handle (d_file d))) = HEADER_OFFSET_DATA + n * PHYS_BLOCK"
  by (simp add: holds_def)

lemma manifest_reads:
  assumes "sah_ok E c" and "manifest_ok E c p name u m"
  obtains mf where "lookup_file p (manifest_name name) = Some mf"
    and "read_manifest E (dek p) (manifest_name name) (dev_of p mf) = Inr (u, db_key E (dek p) u, m)"
proof -
  obtain mf where mf: "lookup_file p (manifest_name name) = Some mf" "manifest_uuid (c (handle mf)) = Some u"
      "manifest_now E (dek p) (manifest_name name) u (c (handle mf)) = Some m"
    using assms(2) by (auto simp: manifest_ok_def)
  have "read_manifest E (dek p) (manifest_name name) (dev_of p mf) = Inr (u, db_key E (dek p) u, m)"
    unfolding read_manifest_eq [OF assms(1)] using mf(2,3) by (simp add: dev_of_def)
  with mf(1) show ?thesis using that by blast
qed

lemma open_main_verified:
  assumes "sah_ok E c" and "manifest_ok E c p name u m" and "lookup_file p name = Some f"
  shows "open_main_db E name p = open_verified E name u (db_key E (dek p) u) m (length (c (handle f)) - HEADER_OFFSET_DATA) p"
proof -
  obtain mf where mf: "lookup_file p (manifest_name name) = Some mf"
      "read_manifest E (dek p) (manifest_name name) (dev_of p mf) = Inr (u, db_key E (dek p) u, m)"
    using manifest_reads [OF assms(1,2)] by metis
  show ?thesis unfolding open_main_db_def assms(3) option.case phys_size_of [OF assms(1)] sum.case mf prod.case ..
qed

lemma dev_of_file [simp]: "d_file (dev_of p f) = f"
  by (simp add: dev_of_def)

lemma holds_dev: "holds E c (dev_of p' f) n g = holds E c (dev_of p f) n g"
  by (simp add: holds_def)

lemma holds_keys: "f_crypto f' = f_crypto f \<Longrightarrow> f_key_domain f' = f_key_domain f \<Longrightarrow> f_file_id f' = f_file_id f \<Longrightarrow> handle f' = handle f
  \<Longrightarrow> holds E c (dev_of p' f') n g = holds E c (dev_of p f) n g"
  by (simp add: holds_def open_block_def)

text \<open>The image an open of a database accepts, by the journal's replay or as it lies on disk.\<close>

definition image_ok :: "('h, 'z) env_scheme \<Rightarrow> str \<Rightarrow> bytes \<Rightarrow> manifest_payload \<Rightarrow> bytes list \<Rightarrow> 'h pool \<Rightarrow> bool" where
  "image_ok E name u m bs p \<longleftrightarrow> (bs \<noteq> [] \<longrightarrow> merkle_root m \<noteq> ZERO_ROOT
     \<and> (if hot_journal E name u (db_key E (dek p) u) p
        then (case replay_journal_root E name (journal_name name) (db_key E (dek p) u) u p of Inl _ \<Rightarrow> False | Inr r \<Rightarrow> accepted m r)
        else length_ok E name m bs \<and> block0_ok bs \<and> accepted m (root_of_blocks E bs)))"

definition opened_file :: "bytes \<Rightarrow> crypto \<Rightarrow> nat \<Rightarrow> 'h saf \<Rightarrow> 'h saf" where
  "opened_file u k n f = f\<lparr>f_crypto := k, f_key_domain := u, is_main_db := True, logical_size := Some (n * BLOCK_SIZE)\<rparr>"

lemma opened_file_simps [simp]:
  "handle (opened_file u k n f) = handle f" "f_file_id (opened_file u k n f) = f_file_id f" "f_crypto (opened_file u k n f) = k"
  "f_key_domain (opened_file u k n f) = u" "logical_size (opened_file u k n f) = Some (n * BLOCK_SIZE)"
  by (simp_all add: opened_file_def)

text \<open>The checks on the main file, once the anchor has been consulted.\<close>

lemma check_main_effect:
  assumes S: "sah_ok E c" and f: "lookup_file p name = Some f" and ne: "hot \<or> bs = [] \<or> length_ok E name m bs \<and> block0_ok bs"
    and k: "f_crypto f = k" "f_key_domain f = u" "f_file_id f = file_id_for E name" "is_main_db f"
    and h: "holds E c (dev_of p f) (length bs) (\<lambda>k. bs ! k)"
  shows "check_main E name u k m (length bs * PHYS_BLOCK) hot p = (Inr (), put_file name (opened_file u k (length bs) f) p)"
proof -
  let ?p = "put_file name (opened_file u k (length bs) f) p"
  have P: "0 < PHYS_BLOCK" by (simp add: size_defs)
  then have d: "length bs * PHYS_BLOCK div PHYS_BLOCK = length bs" by simp
  have "f\<lparr>logical_size := Some (length bs * BLOCK_SIZE)\<rparr> = opened_file u k (length bs) f"
    using k by (cases f) (simp add: opened_file_def)
  then have sl: "set_file_logical name (length bs * BLOCK_SIZE) p = ?p" using f by (simp add: set_file_logical_def)
  show ?thesis
  proof (cases "bs = []")
    case True
    then show ?thesis using sl by (simp add: check_main_def)
  next
    case False
    then have pos: "0 < length bs * PHYS_BLOCK" using P by simp
    show ?thesis
    proof (cases hot)
      case True
      then show ?thesis using pos by (simp add: check_main_def d sl)
    next
      case nh: False
      then have lo: "length_ok E name m bs" and b0: "block0_ok bs" using ne False by auto
      have h': "holds E c (dev_of ?p (opened_file u k (length bs) f)) (length bs) (\<lambda>k. bs ! k)"
        using h k by (simp add: holds_keys [of "opened_file u k (length bs) f" f, where p = p])
      have "check_block0 E name u k (dev_of ?p (opened_file u k (length bs) f)) = Inr ()"
        using check_block0_eq [OF S h' False] b0 k by simp
      moreover have "\<not> (case map_of (mp_files m) (file_id_for E name) of None \<Rightarrow> False | Some l \<Rightarrow> usize_of l \<noteq> length bs * BLOCK_SIZE)"
        using lo by (auto simp: length_ok_def split: option.splits)
      ultimately show ?thesis using pos nh unfolding check_main_def Let_def d sl by simp
    qed
  qed
qed

lemma check_main_inv:
  assumes S: "sah_ok E c" and f: "lookup_file p name = Some f" and ne: "bs \<noteq> []" and hot: "\<not> hot"
    and k: "f_crypto f = k" "f_key_domain f = u" "f_file_id f = file_id_for E name"
    and h: "holds E c (dev_of p f) (length bs) (\<lambda>k. bs ! k)"
    and ok: "check_main E name u k m (length bs * PHYS_BLOCK) hot p = (Inr (), p')"
  shows "length_ok E name m bs \<and> block0_ok bs"
proof -
  have P: "0 < PHYS_BLOCK" by (simp add: size_defs)
  then have d: "length bs * PHYS_BLOCK div PHYS_BLOCK = length bs" and pos: "0 < length bs * PHYS_BLOCK" using ne by simp_all
  let ?g = "f\<lparr>logical_size := Some (length bs * BLOCK_SIZE)\<rparr>" and ?q = "set_file_logical name (length bs * BLOCK_SIZE) p"
  have q: "lookup_file ?q name = Some ?g" using f by (simp add: set_file_logical_def)
  have hq: "holds E c (dev_of ?q ?g) (length bs) (\<lambda>k. bs ! k)" using h by (simp add: holds_keys [of ?g f, where p = p])
  have lo: "\<not> (case map_of (mp_files m) (file_id_for E name) of None \<Rightarrow> False | Some l \<Rightarrow> usize_of l \<noteq> length bs * BLOCK_SIZE)"
    using ok pos hot unfolding check_main_def Let_def d by (auto split: if_splits)
  then have "check_block0 E name u k (dev_of ?q ?g) = Inr ()"
    using ok pos hot q unfolding check_main_def Let_def d by (auto split: if_splits)
  then have "block0_ok bs" using check_block0_eq [OF S hq ne, of k u name] k by simp
  moreover have "length_ok E name m bs" using lo by (auto simp: length_ok_def split: option.splits)
  ultimately show ?thesis by blast
qed

text \<open>The root of the image that would be served, where the checks have left the pool \<open>p'\<close>.\<close>

lemma check_root_iff:
  assumes S: "sah_ok E c" and h: "handles p' = handles p" and f: "lookup_file p' name = Some (opened_file u k (length bs) f)"
    and fid: "f_file_id f = file_id_for E name" and hold: "holds E c (dev_of p (f\<lparr>f_crypto := k, f_key_domain := u\<rparr>)) (length bs) (\<lambda>k. bs ! k)"
    and lim: "length bs * BLOCK_SIZE \<le> DEV_LIMIT" and nz: "bs \<noteq> [] \<Longrightarrow> merkle_root m \<noteq> ZERO_ROOT"
  shows "\<exists>x. check_root E name u k m (length bs * PHYS_BLOCK) hot p' = (x, p')
    \<and> (x = Inr () \<longleftrightarrow> bs = [] \<or> (if hot then (case replay_journal_root E name (journal_name name) k u p of Inl _ \<Rightarrow> False | Inr r \<Rightarrow> accepted m r)
          else accepted m (root_of_blocks E bs)))"
proof (cases "bs = []")
  case True
  then show ?thesis by (simp add: check_root_def)
next
  case False
  then have pos: "0 < length bs * PHYS_BLOCK" by (simp add: size_defs)
  show ?thesis
  proof (cases hot)
    case True
    have "replay_journal_root E name (journal_name name) k u p' = replay_journal_root E name (journal_name name) k u p"
      by (rule replay_root_frame) (simp_all only: h)
    then show ?thesis using True False pos nz [OF False] by (auto simp: check_root_def try_then_Inr_iff split: sum.splits)
  next
    case nh: False
    let ?st = "\<lparr>st_uuid = u, st_crypto = k, st_generation = 0, st_root = ZERO_ROOT\<rparr>" and ?f = "opened_file u k (length bs) f"
    have "main_holds E c p' name ?st bs"
      using f fid hold lim by (simp add: main_holds_def holds_keys [of ?f "f\<lparr>f_crypto := k, f_key_domain := u\<rparr>", where p = p])
    then have "full_state_root E name p' = (Inr (root_of_blocks E bs), p')" by (rule full_state_root_holds [OF S])
    then show ?thesis using nh False pos nz [OF False] by (simp add: check_root_def)
  qed
qed

lemma open_effect:
  assumes inv: "pool_inv E c p" and ai: "anchor_inv E c p" and on: "on_disk E c p name u bs" and mo: "manifest_ok E c p name u m"
    and u: "length u = 16" and fresh: "check_generation u (db_generation m) (snd (anchor_load E p)) = Inr ()"
    and room: "u \<in> uuid ` set (snd (anchor_load E p)) \<or> length (snd (anchor_load E p)) < ANCHOR_CAP"
    and r: "rng_good (k + 2) (p_rng p)" and s: "unat (fst (anchor_load E p)) + 2 < 2 ^ 64" and img: "image_ok E name u m bs p"
  shows "\<exists>p' f. open_main_db E name p = (Inr (), p') \<and> lookup_file p name = Some f
    \<and> lookup_file p' name = Some (opened_file u (db_key E (dek p) u) (length bs) f)
    \<and> map_of (dbs p') name = Some \<lparr>st_uuid = u, st_crypto = db_key E (dek p) u, st_generation = db_generation m, st_root = merkle_root m\<rparr>
    \<and> pool_inv E c p' \<and> anchor_inv E c p' \<and> dek p' = dek p \<and> rng_good k (p_rng p')
    \<and> upsert_entry u (Some (db_generation m)) (Some (db_generation m)) None (snd (anchor_load E p)) = Some (snd (anchor_load E p'))
    \<and> (\<forall>n. n \<noteq> name \<and> satellite_parent n \<noteq> Some name \<longrightarrow> lookup_file p' n = lookup_file p n) \<and> handles p' = handles p"
proof -
  let ?k = "db_key E (dek p) u" and ?g = "db_generation m"
  have S: "sah_ok E c" using inv by (simp add: pool_inv_def)
  obtain f where f: "lookup_file p name = Some f" "holds E c (dev_of p (f\<lparr>f_crypto := ?k, f_key_domain := u\<rparr>)) (length bs) (\<lambda>k. bs ! k)"
      "length bs * BLOCK_SIZE \<le> DEV_LIMIT"
    using on by (auto simp: on_disk_def)
  have sz: "length (c (handle f)) - HEADER_OFFSET_DATA = length bs * PHYS_BLOCK" using holds_size [OF f(2)] by simp
  have fid: "f_file_id f = file_id_for E name" "handle_ok E c (Some name) (handle f)" using inv f(1) by (auto simp: pool_inv_def)
  obtain hh q where ar: "anchor_record E u (Some ?g) (Some ?g) p = (Inr (), p\<lparr>p_rng := q, anchor_handle := Some hh\<rparr>)" "rng_good k q"
      "anchor_inv E c (p\<lparr>p_rng := q, anchor_handle := Some hh\<rparr>)"
      "upsert_entry u (Some ?g) (Some ?g) None (snd (anchor_load E p)) = Some (snd (anchor_load E (p\<lparr>p_rng := q, anchor_handle := Some hh\<rparr>)))"
    using record_step [OF ai u room r s, of "Some ?g" "Some ?g"] by metis
  let ?p0 = "p\<lparr>p_rng := q, anchor_handle := Some hh\<rparr>"
  let ?f1 = "f\<lparr>f_crypto := ?k, f_key_domain := u, is_main_db := True\<rparr>"
  let ?p1 = "put_file name ?f1 ?p0"
  define hot where "hot = hot_journal E name u ?k p"
  have h1: "handles ?p1 = handles p" using f(1) by (auto simp: handles_def fun_eq_iff)
  have hot1: "hot_journal E name u ?k ?p1 = hot" unfolding hot_def by (rule hot_journal_frame) (simp only: h1)
  have hold1: "holds E c (dev_of ?p1 ?f1) (length bs) (\<lambda>k. bs ! k)" using f(2) by (simp add: holds_keys [of ?f1 "f\<lparr>f_crypto := ?k, f_key_domain := u\<rparr>", where p = p])
  have of1: "opened_file u ?k (length bs) ?f1 = opened_file u ?k (length bs) f" by (simp add: opened_file_def)
  let ?f2 = "opened_file u ?k (length bs) f"
  let ?p2 = "put_file name ?f2 ?p1"
  have cm: "check_main E name u ?k m (length bs * PHYS_BLOCK) hot ?p1 = (Inr (), ?p2)"
    using img fid hold1 check_main_effect [OF S, of ?p1 name ?f1 hot bs m ?k u]
    by (auto simp: image_ok_def hot_def of1 split: if_splits)
  let ?sat = "filter (\<lambda>n. satellite_parent n = Some name) (get_filenames ?p2)"
  obtain p3 where p3: "bind_satellites E u ?k m ?sat ?p2 = (Inr (), p3)" "\<forall>n. n \<notin> set ?sat \<longrightarrow> lookup_file p3 n = lookup_file ?p2 n"
      "handles p3 = handles ?p2" "pool_rest p3 = pool_rest ?p2" "pool_inv E c ?p2 \<longrightarrow> pool_inv E c p3"
    using bind_satellites_effect [OF S, of u ?k m ?sat ?p2] by blast
  have i0: "pool_inv E c ?p0" using inv by (simp add: pool_anchor_frame)
  then have i2: "pool_inv E c ?p2" using fid by (auto simp: pool_inv_def)
  have "satellite_parent name \<noteq> Some name" using satellite_ne [of name name] by blast
  then have "name \<notin> set ?sat" by simp
  then have l3: "lookup_file p3 name = Some ?f2" using p3(2) by simp
  have h3: "handles p3 = handles p" using p3(3) f(1) by (auto simp: handles_def fun_eq_iff)
  have rest: "dek p3 = dek p" "dbs p3 = dbs p" "anchor_handle p3 = anchor_handle ?p0" "anchor_crypto p3 = anchor_crypto ?p0"
      "p_fault p3 = p_fault ?p0" "p_rng p3 = q"
    using p3(4) by (simp_all add: pool_rest_def)
  have nz: "bs \<noteq> [] \<Longrightarrow> merkle_root m \<noteq> ZERO_ROOT" using img by (simp add: image_ok_def)
  obtain x where x: "check_root E name u ?k m (length bs * PHYS_BLOCK) hot p3 = (x, p3)"
      "x = Inr () \<longleftrightarrow> bs = [] \<or> (if hot then (case replay_journal_root E name (journal_name name) ?k u p of Inl _ \<Rightarrow> False | Inr r \<Rightarrow> accepted m r)
          else accepted m (root_of_blocks E bs))"
    using check_root_iff [OF S h3 l3 fid(1) f(2,3) nz, of hot] by blast
  have cr: "check_root E name u ?k m (length bs * PHYS_BLOCK) hot p3 = (Inr (), p3)"
    using x img unfolding image_ok_def hot_def by (auto split: if_splits)
  let ?st = "\<lparr>st_uuid = u, st_crypto = ?k, st_generation = ?g, st_root = merkle_root m\<rparr>"
  let ?p4 = "p3\<lparr>dbs := AList.update name ?st (dbs p3)\<rparr>"
  have mig: "\<not> (0 < length bs * PHYS_BLOCK \<and> \<not> hot \<and> merkle_root m = ZERO_ROOT)" using img by (auto simp: image_ok_def)
  have l0: "lookup_file ?p0 name = Some f" using f(1) by simp
  have "open_main_db E name p = open_verified E name u ?k m (length bs * PHYS_BLOCK) p"
    using open_main_verified [OF S mo f(1)] unfolding sz .
  also have "\<dots> = (Inr (), ?p4)"
    unfolding open_verified_def Let_def fresh sum.case ar(1) st_then.simps l0 option.case hot1 cm p3(1) cr using mig by auto
  finally have run: "open_main_db E name p = (Inr (), ?p4)" .
  have al: "anchor_load E ?p4 = anchor_load E ?p0" by (rule anchor_rest_frame(1)) (simp_all add: rest)
  have "anchor_inv E c ?p4 = anchor_inv E c ?p0" by (rule anchor_rest_frame(2)) (simp_all add: rest)
  then have ai4: "anchor_inv E c ?p4" using ar(3) by blast
  have "pool_inv E c p3" using p3(5) i2 by blast
  then have i4: "pool_inv E c ?p4" by simp
  have lo: "lookup_file ?p4 n = lookup_file p n" if "n \<noteq> name" "satellite_parent n \<noteq> Some name" for n
    using that p3(2) by simp
  have h4: "handles ?p4 = handles p" using h3 by (simp add: handles_def fun_eq_iff)
  have l4: "lookup_file ?p4 name = Some ?f2" using l3 by simp
  have m4: "map_of (dbs ?p4) name = Some ?st" by (simp add: update_conv')
  have r4: "dek ?p4 = dek p" "rng_good k (p_rng ?p4)" using rest ar(2) by simp_all
  show ?thesis
  proof (intro exI conjI)
    show "open_main_db E name p = (Inr (), ?p4)" by (rule run)
    show "lookup_file p name = Some f" by (rule f(1))
    show "upsert_entry u (Some ?g) (Some ?g) None (snd (anchor_load E p)) = Some (snd (anchor_load E ?p4))" unfolding al by (rule ar(4))
    show "\<forall>n. n \<noteq> name \<and> satellite_parent n \<noteq> Some name \<longrightarrow> lookup_file ?p4 n = lookup_file p n" using lo by blast
  qed (rule l4 m4 i4 ai4 r4 h4)+
qed

text \<open>An open succeeds when the manifest is fresh and the image is one it accepts, and only then.\<close>

lemma open_accepts_image:
  assumes inv: "pool_inv E c p" and ai: "anchor_inv E c p" and on: "on_disk E c p name u bs" and mo: "manifest_ok E c p name u m"
    and u: "length u = 16" and room: "u \<in> uuid ` set (snd (anchor_load E p)) \<or> length (snd (anchor_load E p)) < ANCHOR_CAP"
    and r: "rng_good 2 (p_rng p)" and s: "unat (fst (anchor_load E p)) + 2 < 2 ^ 64" and nz: "bs \<noteq> [] \<longrightarrow> merkle_root m \<noteq> ZERO_ROOT"
  shows "fst (open_main_db E name p) = Inr () \<longleftrightarrow>
    check_generation u (db_generation m) (snd (anchor_load E p)) = Inr () \<and> image_ok E name u m bs p"
proof
  have r0: "rng_good (0 + 2) (p_rng p)" unfolding add_0 by (rule r)
  assume "check_generation u (db_generation m) (snd (anchor_load E p)) = Inr () \<and> image_ok E name u m bs p"
  then show "fst (open_main_db E name p) = Inr ()"
    using open_effect [OF inv ai on mo u _ room r0 s] by auto
next
  let ?k = "db_key E (dek p) u" and ?g = "db_generation m"
  have S: "sah_ok E c" using inv by (simp add: pool_inv_def)
  obtain f where f: "lookup_file p name = Some f" "holds E c (dev_of p (f\<lparr>f_crypto := ?k, f_key_domain := u\<rparr>)) (length bs) (\<lambda>k. bs ! k)"
      "length bs * BLOCK_SIZE \<le> DEV_LIMIT"
    using on by (auto simp: on_disk_def)
  have sz: "length (c (handle f)) - HEADER_OFFSET_DATA = length bs * PHYS_BLOCK" using holds_size [OF f(2)] by simp
  have fid: "f_file_id f = file_id_for E name" using inv f(1) by (auto simp: pool_inv_def)
  have r0: "rng_good (0 + 2) (p_rng p)" unfolding add_0 by (rule r)
  obtain hh q where ar: "anchor_record E u (Some ?g) (Some ?g) p = (Inr (), p\<lparr>p_rng := q, anchor_handle := Some hh\<rparr>)"
    using record_step [OF ai u room r0 s, of "Some ?g" "Some ?g"] by metis
  let ?p0 = "p\<lparr>p_rng := q, anchor_handle := Some hh\<rparr>" and ?f1 = "f\<lparr>f_crypto := ?k, f_key_domain := u, is_main_db := True\<rparr>"
  let ?p1 = "put_file name ?f1 ?p0" and ?f2 = "opened_file u ?k (length bs) f"
  define hot where "hot = hot_journal E name u ?k p"
  have h1: "handles ?p1 = handles p" using f(1) by (auto simp: handles_def fun_eq_iff)
  have hot1: "hot_journal E name u ?k ?p1 = hot" unfolding hot_def by (rule hot_journal_frame) (simp only: h1)
  have hold1: "holds E c (dev_of ?p1 ?f1) (length bs) (\<lambda>k. bs ! k)" using f(2) by (simp add: holds_keys [of ?f1 "f\<lparr>f_crypto := ?k, f_key_domain := u\<rparr>", where p = p])
  have of1: "opened_file u ?k (length bs) ?f1 = ?f2" by (simp add: opened_file_def)
  have l0: "lookup_file ?p0 name = Some f" and l1: "lookup_file ?p1 name = Some ?f1" using f(1) by simp_all
  have run: "open_main_db E name p = open_verified E name u ?k m (length bs * PHYS_BLOCK) p"
    using open_main_verified [OF S mo f(1)] unfolding sz .
  assume "fst (open_main_db E name p) = Inr ()"
  then have ok: "fst (open_verified E name u ?k m (length bs * PHYS_BLOCK) p) = Inr ()" unfolding run .
  then have fresh: "check_generation u ?g (snd (anchor_load E p)) = Inr ()"
    by (cases "check_generation u ?g (snd (anchor_load E p))") (simp_all add: open_verified_def Let_def)
  obtain p2 p3 where c2: "check_main E name u ?k m (length bs * PHYS_BLOCK) hot ?p1 = (Inr (), p2)"
    and c3: "bind_satellites E u ?k m (filter (\<lambda>n. satellite_parent n = Some name) (get_filenames p2)) p2 = (Inr (), p3)"
    and c4: "fst (check_root E name u ?k m (length bs * PHYS_BLOCK) hot p3) = Inr ()"
  proof -
    obtain y z where "open_verified E name u ?k m (length bs * PHYS_BLOCK) p = (y, z)" by fastforce
    with ok have "open_verified E name u ?k m (length bs * PHYS_BLOCK) p = (Inr (), z)" by simp
    then show ?thesis using that
      unfolding open_verified_def Let_def fresh sum.case ar st_then.simps l0 option.case hot1 st_then_Inr_iff by auto
  qed
  have lb: "bs \<noteq> [] \<and> \<not> hot \<Longrightarrow> length_ok E name m bs \<and> block0_ok bs"
    using check_main_inv [OF S l1 _ _ _ _ _ hold1 c2] fid by simp
  then have "check_main E name u ?k m (length bs * PHYS_BLOCK) hot ?p1 = (Inr (), put_file name ?f2 ?p1)"
    using fid hold1 check_main_effect [OF S l1, of hot bs m ?k u] by (auto simp: of1)
  then have p2: "p2 = put_file name ?f2 ?p1" using c2 by simp
  let ?sat = "filter (\<lambda>n. satellite_parent n = Some name) (get_filenames p2)"
  obtain "handles p3 = handles p2" and "\<forall>n. n \<notin> set ?sat \<longrightarrow> lookup_file p3 n = lookup_file p2 n"
    using bind_satellites_effect [OF S, of u ?k m ?sat p2] c3 by auto
  moreover have "name \<notin> set ?sat" using satellite_ne [of name name] by auto
  ultimately have l3: "lookup_file p3 name = Some ?f2" and h3: "handles p3 = handles p"
    using f(1) by (auto simp: p2 handles_def fun_eq_iff)
  have "bs = [] \<or> (if hot then (case replay_journal_root E name (journal_name name) ?k u p of Inl _ \<Rightarrow> False | Inr r \<Rightarrow> accepted m r)
          else accepted m (root_of_blocks E bs))"
    using check_root_iff [OF S h3 l3 fid f(2,3), of m hot] nz c4 by auto
  then show "check_generation u ?g (snd (anchor_load E p)) = Inr () \<and> image_ok E name u m bs p"
    using fresh lb nz unfolding image_ok_def hot_def [symmetric] by (auto split: if_splits)
qed

text \<open>
  C1: When an open succeeds. For a database whose manifest authenticates and whose blocks
  decrypt to \<open>bs\<close>, with a root in the manifest if there are blocks, \<open>open_main_db\<close> answers success if and
  only if the sealed generation is not behind the freshness anchor, and the main file either has no
  block at all (then neither its length nor a root is looked at) or the image to be served is a sealed
  one: with a hot journal, its replay over the blocks hashes to the sealed root or the one before it;
  without one, the length the table gives for the file is that of the file, the first block is an
  SQLite header of the right page size, and the blocks hash to the sealed root or the one before it.
\<close>

theorem open_accepts_exactly:
  assumes inv: "pool_inv E c p" and ai: "anchor_inv E c p" and on: "on_disk E c p name u bs" and mo: "manifest_ok E c p name u m"
    and u: "length u = 16" and room: "u \<in> uuid ` set (snd (anchor_load E p)) \<or> length (snd (anchor_load E p)) < ANCHOR_CAP"
    and r: "rng_good 2 (p_rng p)" and s: "unat (fst (anchor_load E p)) + 2 < 2 ^ 64" and nz: "bs \<noteq> [] \<longrightarrow> merkle_root m \<noteq> ZERO_ROOT"
  shows "fst (open_main_db E name p) = Inr () \<longleftrightarrow>
    check_generation u (db_generation m) (snd (anchor_load E p)) = Inr ()
    \<and> (bs = []
       \<or> (let k = db_key E (dek p) u in
          if hot_journal E name u k p
          then \<exists>r. replay_journal_root E name (journal_name name) k u p = Inr r \<and> accepted m r
          else length_ok E name m bs \<and> block0_ok bs \<and> accepted m (root_of_blocks E bs)))"
  using open_accepts_image [OF assms] nz
  by (cases "replay_journal_root E name (journal_name name) (db_key E (dek p) u) u p") (auto simp: image_ok_def Let_def)

text \<open>What the invariant of an open database says of the disk, in any pool that holds the same files.\<close>

lemma main_on_disk:
  assumes "main_holds E c p name st bs" and "st_crypto st = db_key E (dek p) (st_uuid st)" and "handles q name = handles p name"
    and "dek q = dek p" and "pool_inv E c q"
  shows "on_disk E c q name (st_uuid st) bs"
proof -
  obtain f where f: "lookup_file p name = Some f" "f_file_id f = file_id_for E name" "holds E c (dev_of p f) (length bs) (\<lambda>k. bs ! k)"
      "length bs * BLOCK_SIZE \<le> DEV_LIMIT" "f_crypto f = st_crypto st" "f_key_domain f = st_uuid st"
    using assms(1) by (auto simp: main_holds_def)
  obtain g where g: "lookup_file q name = Some g" "handle g = handle f"
    using assms(3) f(1) by (auto simp: handles_def)
  have "f_file_id g = file_id_for E name" using assms(5) g(1) by (auto simp: pool_inv_def)
  then have "holds E c (dev_of q (g\<lparr>f_crypto := db_key E (dek q) (st_uuid st), f_key_domain := st_uuid st\<rparr>)) (length bs) (\<lambda>k. bs ! k)"
    using f g(2) assms(2,4) by (simp add: holds_keys [of "g\<lparr>f_crypto := db_key E (dek p) (st_uuid st), f_key_domain := st_uuid st\<rparr>" f, where p = p])
  then show ?thesis using g(1) f(4) by (simp add: on_disk_def)
qed

lemma manifest_ok_handles:
  assumes "manifest_ok E c p name u m" and "handles q (manifest_name name) = handles p (manifest_name name)" and "dek q = dek p"
  shows "manifest_ok E c q name u m"
  using assms unfolding manifest_ok_def handles_def by (cases "lookup_file q (manifest_name name)") auto

lemma db_inv_on_disk:
  assumes "db_inv E c name st bs m p" and "handles q = handles p" and "dek q = dek p" and "pool_inv E c q"
  shows "on_disk E c q name (st_uuid st) bs" and "manifest_ok E c q name (st_uuid st) m"
proof -
  note i = assms(1) [unfolded db_inv_def]
  have h: "handles q n = handles p n" for n by (simp only: assms(2))
  show "on_disk E c q name (st_uuid st) bs" using i by (intro main_on_disk [OF _ _ h assms(3,4)]) simp_all
  show "manifest_ok E c q name (st_uuid st) m" using i by (intro manifest_ok_handles [OF _ h assms(3)]) simp
qed

lemma allowed_generation:
  assumes "anchor_allows u g es" and "g \<le> gen" and "gen < gen + 1"
  shows "check_generation u gen es = Inr ()"
proof (cases "find (\<lambda>e. uuid e = u) es")
  case (Some e)
  then have "e \<in> set es" "uuid e = u" by (auto simp: find_Some_iff)
  then have "committed e \<le> g" "epoch_floor e \<le> g" using assms(1) by (auto simp: anchor_below_def)
  then have "\<not> gen + 1 < committed e" "\<not> gen < epoch_floor e" using assms(2,3) by auto
  then show ?thesis using Some by (simp add: check_generation_def)
qed (simp add: check_generation_def)

lemma succ_mono:
  fixes g h :: u64
  assumes "g < h" and "h < h + 1"
  shows "g + 1 < h + 1"
proof -
  have "h \<noteq> - 1" using assms(2) by auto
  moreover have "g \<noteq> - 1" using assms(1) word_order.extremum_strict by auto
  ultimately show ?thesis using less_word_succ(2) [of g] less_word_succ(2) [of h] assms(1) by (simp add: word_less_nat_alt)
qed

lemma stale_generation:
  assumes "find (\<lambda>e. uuid e = u) es = Some e" and "g \<le> committed e" and "gen + 1 < g"
  shows "check_generation u gen es = Inl Rollback"
proof -
  have "gen + 1 < committed e" using assms(2,3) by (rule less_le_trans [rotated])
  then show ?thesis using assms(1) by (simp add: check_generation_def)
qed

text \<open>
  C4: A database put back as it was before its last commit but one is refused. Whatever has been done
  to the files after the commit of a generation, if the anchor is the one the commit left and the
  manifest now on disk is an authentic one of an older generation by more than the one commit the
  design tolerates, \<open>open_main_db\<close> answers that it is a rollback and changes nothing.
\<close>

theorem stale_database_refused:
  assumes "db_inv E c name st bs m p" and "rng_good 5 (p_rng p)" and "unat (fst (anchor_load E p)) + 3 < 2 ^ 64"
    and "st_generation st < st_generation st + 1" and "on_main_synced E name p = (Inr (), p')"
    and "anchor_handle q = anchor_handle p'" and "anchor_crypto q = anchor_crypto p'"
    and "lookup_file q name = Some f" and "manifest_ok E c q name (st_uuid st) old" and "db_generation old < st_generation st"
  shows "open_main_db E name q = (Inl Rollback, q)"
proof -
  have S: "sah_ok E c" using assms(1) by (simp add: db_inv_def pool_inv_def)
  obtain e where e: "find (\<lambda>e. uuid e = st_uuid st) (snd (anchor_load E p')) = Some e" "st_generation st + 1 \<le> committed e"
    using commit_effect [of E c name st bs m p 0, OF assms(1) _ assms(3,4)] assms(2,5) by (auto simp del: rng_good.simps)
  have al: "anchor_load E q = anchor_load E p'" using assms(6,7) by (simp add: anchor_load_def cong: option.case_cong)
  have "db_generation old + 1 < st_generation st + 1" using assms(10,4) by (rule succ_mono)
  then have "check_generation (st_uuid st) (db_generation old) (snd (anchor_load E q)) = Inl Rollback"
    unfolding al by (rule stale_generation [OF e])
  then show ?thesis using open_main_verified [OF S assms(9,8)] by (simp add: open_verified_def)
qed

section \<open>Committing and reopening\<close>

text \<open>The main file may be written in any way that keeps it a file of sealed blocks.\<close>

lemma db_inv_main:
  assumes inv: "db_inv E c name st bs m p" and f: "lookup_file p name = Some f" and h: "handle_ok E c (Some name) h"
    and hold: "holds E c (dev_of p (f\<lparr>handle := h\<rparr>)) (length bs') (\<lambda>k. bs' ! k)" and lim: "length bs' * BLOCK_SIZE \<le> DEV_LIMIT"
  shows "db_inv E c name st bs' m (put_file name (f\<lparr>handle := h, logical_size := Some (length bs' * BLOCK_SIZE)\<rparr>) p)"
proof -
  note i = inv [unfolded db_inv_def]
  let ?f = "f\<lparr>handle := h, logical_size := Some (length bs' * BLOCK_SIZE)\<rparr>"
  let ?p = "put_file name ?f p"
  have fi: "f_crypto f = st_crypto st" "f_key_domain f = st_uuid st" "f_file_id f = file_id_for E name"
    using i f by (auto simp: main_holds_def)
  have a: "anchor_load E ?p = anchor_load E p" "anchor_inv E c ?p = anchor_inv E c p"
    by (rule anchor_rest_frame; simp)+
  have ai: "anchor_inv E c ?p" using a(2) i by blast
  have "pool_inv E c ?p" using i h fi(3) by (auto simp: pool_inv_def)
  moreover have "main_holds E c ?p name st bs'"
    using fi hold lim by (simp add: main_holds_def holds_keys [of ?f "f\<lparr>handle := h\<rparr>", where p = p])
  moreover have "lengths_known name ?p" using i by (auto simp: lengths_known_def)
  moreover have "manifest_ok E c ?p name (st_uuid st) m = manifest_ok E c p name (st_uuid st) m"
    using manifest_ne(1) [of name] by (intro manifest_ok_frame) simp_all
  ultimately show ?thesis using i a(1) ai by (simp add: db_inv_def)
qed

lemma no_satellites_table:
  assumes d: "distinct (map fst (files p))" and main: "has_filename p name" and sat: "\<forall>n. satellite_parent n = Some name \<longrightarrow> \<not> has_filename p n"
  shows "tracked_files name p = [name]"
proof -
  have "set (tracked_files name p) = {name}"
    using tracked_files_table(3) [OF d, of _ name] main sat by (auto simp: tracked_def)
  moreover have "distinct (tracked_files name p)" using d by (rule tracked_files_table(2))
  ultimately have "length (tracked_files name p) = 1" using distinct_card by fastforce
  then obtain x where "tracked_files name p = [x]" by (cases "tracked_files name p") auto
  then show ?thesis using \<open>set (tracked_files name p) = {name}\<close> by simp
qed

lemma usize_of_small: "x < 2 ^ 32 \<Longrightarrow> usize_of (word_of_nat x) = x"
  by (simp add: usize_of_def unsigned_of_nat take_bit_nat_eq_self)

text \<open>The table a commit seals without a journal has the length of the main file.\<close>

lemma committed_length:
  assumes inv: "db_inv E c name st bs m p" and sat: "\<forall>n. satellite_parent n = Some name \<longrightarrow> \<not> has_filename p n"
  shows "length_ok E name (commit_payload E name st bs p) bs"
proof -
  have main: "has_filename p name" "length bs * BLOCK_SIZE \<le> DEV_LIMIT"
      and size: "logical_size (the (lookup_file p name)) = Some (length bs * BLOCK_SIZE)"
    using inv by (auto simp: db_inv_def main_holds_def has_filename_def)
  have "distinct (map fst (files p))" using inv by (simp add: db_inv_def pool_inv_def)
  then have "tracked_files name p = [name]" using main(1) sat by (rule no_satellites_table)
  then show ?thesis
    using main(2) usize_of_small [of "length bs * BLOCK_SIZE"]
    by (simp add: length_ok_def commit_payload_def table_of_def length_entry_def size DEV_LIMIT_def)
qed

text \<open>
  A pool that holds the files and the anchor of an open database, and none of its satellites, opens it
  to the same state.
\<close>

lemma opened_db_inv:
  assumes i: "db_inv E c name st bs m p" and q: "pool_inv E c q" "handles q = handles p" "dek q = dek p" "snd (anchor_load E q) = snd (anchor_load E p)"
    and nj: "\<And>n. satellite_parent n = Some name \<Longrightarrow> \<not> has_filename q n"
    and f: "lookup_file q name = Some f" "lookup_file q' name = Some (opened_file (st_uuid st) (st_crypto st) (length bs) f)"
    and o: "map_of (dbs q') name = Some st" "pool_inv E c q'" "anchor_inv E c q'" "dek q' = dek q" "handles q' = handles q"
    and up: "upsert_entry (st_uuid st) (Some (st_generation st)) (Some (st_generation st)) None (snd (anchor_load E q)) = Some (snd (anchor_load E q'))"
  shows "db_inv E c name st bs m q'"
proof -
  note j = i [unfolded db_inv_def]
  have d0: "on_disk E c q' name (st_uuid st) bs" and mo: "manifest_ok E c q' name (st_uuid st) m"
    using db_inv_on_disk [OF i _ _ o(2)] o(4,5) q(2,3) by simp_all
  have "main_holds E c q' name st bs"
  proof -
    let ?k = "db_key E (dek q) (st_uuid st)"
    let ?f = "opened_file (st_uuid st) ?k (length bs) f"
    have k: "st_crypto st = ?k" using j q(3) by simp
    have "f_file_id f = file_id_for E name" using q(1) f(1) by (auto simp: pool_inv_def)
    moreover have f2: "lookup_file q' name = Some ?f" using f(2) by (simp add: k)
    moreover have "length bs * BLOCK_SIZE \<le> DEV_LIMIT" using d0 by (auto simp: on_disk_def)
    moreover have "holds E c (dev_of q' ?f) (length bs) (\<lambda>k. bs ! k)"
      using d0 f2 o(4) by (auto simp: on_disk_def holds_keys [of ?f "?f\<lparr>f_crypto := ?k, f_key_domain := st_uuid st\<rparr>", where p = q'])
    ultimately show ?thesis using k by (simp add: main_holds_def)
  qed
  moreover have "logical_size x \<noteq> None" if "tracked name n" "lookup_file q' n = Some x" for n x
  proof (cases "n = name")
    case False
    have "handles q' n = handles q n" by (simp only: o(5))
    then have "has_filename q n" using that(2) by (cases "lookup_file q n") (auto simp: handles_def has_filename_def)
    then show ?thesis using nj satellite_tracked [OF that(1) False] by blast
  qed (use that f(2) in auto)
  then have "lengths_known name q'" by (simp add: lengths_known_def)
  moreover have "st_uuid st \<in> uuid ` set (snd (anchor_load E q'))" using upsert_effect(2) [OF up] by force
  moreover have "anchor_allows (st_uuid st) (st_generation st) (snd (anchor_load E q'))"
    using upsert_below [OF up, of "st_generation st"] j q(4) by simp
  ultimately show ?thesis using o mo j q(3) by (simp add: db_inv_def)
qed

lemma satellite_journal: "satellite_parent (journal_name name) = Some name"
  by (simp add: satellite_parent_def journal_name_def strip_suffix_append)

lemma reopen_same_files:
  assumes i: "db_inv E c name st bs m p" and gw: "st_generation st < st_generation st + 1"
    and q: "pool_inv E c q" "handles q = handles p" "dek q = dek p" "anchor_handle q = anchor_handle p" "anchor_crypto q = anchor_crypto p"
    and nj: "\<And>n. satellite_parent n = Some name \<Longrightarrow> \<not> has_filename q n"
    and b: "bs \<noteq> [] \<Longrightarrow> block0_ok bs \<and> length_ok E name m bs \<and> st_root st \<noteq> ZERO_ROOT \<and> accepted m (root_of_blocks E bs)"
    and rq: "rng_good 2 (p_rng q)" and sq: "unat (fst (anchor_load E q)) + 2 < 2 ^ 64"
  shows "\<exists>q'. open_main_db E name q = (Inr (), q') \<and> db_inv E c name st bs m q' \<and> (\<forall>n. n \<noteq> name \<longrightarrow> lookup_file q' n = lookup_file q n)"
proof -
  note j = i [unfolded db_inv_def]
  have ai: "anchor_inv E c q" and al: "anchor_load E q = anchor_load E p" using anchor_same [OF _ q(1,4,5)] j by blast+
  note dq = db_inv_on_disk [OF i q(2,3,1)]
  have u: "length (st_uuid st) = 16" and gm: "db_generation m = st_generation st" "merkle_root m = st_root st"
    and aw: "anchor_allows (st_uuid st) (st_generation st) (snd (anchor_load E q))"
    and room: "st_uuid st \<in> uuid ` set (snd (anchor_load E q)) \<or> length (snd (anchor_load E q)) < ANCHOR_CAP"
    using j al by simp_all
  have fresh: "check_generation (st_uuid st) (db_generation m) (snd (anchor_load E q)) = Inr ()"
    unfolding gm by (rule allowed_generation [OF aw order_refl gw])
  have "\<not> hot_journal E name v k q" for v k
    using nj [OF satellite_journal] by (simp add: hot_journal_def has_filename_def)
  then have im: "image_ok E name (st_uuid st) m bs q" using b gm(2) by (simp add: image_ok_def)
  have r0: "rng_good (0 + 2) (p_rng q)" unfolding add_0 by (rule rq)
  have k: "db_key E (dek q) (st_uuid st) = st_crypto st" using j q(3) by simp
  have st: "\<lparr>st_uuid = st_uuid st, st_crypto = st_crypto st, st_generation = st_generation st, st_root = st_root st\<rparr> = st" by simp
  obtain q' f where o: "open_main_db E name q = (Inr (), q')" "lookup_file q name = Some f"
      "lookup_file q' name = Some (opened_file (st_uuid st) (st_crypto st) (length bs) f)"
      "map_of (dbs q') name = Some st" "pool_inv E c q'" "anchor_inv E c q'" "dek q' = dek q"
      "upsert_entry (st_uuid st) (Some (st_generation st)) (Some (st_generation st)) None (snd (anchor_load E q)) = Some (snd (anchor_load E q'))"
      "\<forall>n. n \<noteq> name \<and> satellite_parent n \<noteq> Some name \<longrightarrow> lookup_file q' n = lookup_file q n" "handles q' = handles q"
    using open_effect [OF q(1) ai dq u fresh room r0 sq im] unfolding k gm st by blast
  have "lookup_file q' n = lookup_file q n" if n: "n \<noteq> name" for n
  proof (cases "satellite_parent n = Some name")
    case True
    have "handles q' n = handles q n" by (simp only: o(10))
    then show ?thesis using nj [OF True] by (simp add: handles_def has_filename_def)
  qed (use o(9) n in blast)
  moreover have "db_inv E c name st bs m q'"
    using al by (intro opened_db_inv [OF i q(1-3) _ nj o(2-7,10,8)]) simp_all
  ultimately show ?thesis using o(1) by blast
qed

text \<open>
  C3: What a commit seals, the next open finds. After a commit with no journal left, a pool that
  holds the same files and the same anchor opens the database again, without the migration of a root
  or any other write but to the anchor, and arrives at the state the commit left: the same
  generation, root, blocks and manifest.
\<close>

theorem reopen_after_commit:
  assumes inv: "db_inv E c name st bs m p" and r: "rng_good 5 (p_rng p)" and s: "unat (fst (anchor_load E p)) + 3 < 2 ^ 64"
    and g: "unat (st_generation st) + 2 < 2 ^ 64" and sat: "\<forall>n. satellite_parent n = Some name \<longrightarrow> \<not> has_filename p n"
    and b: "bs \<noteq> [] \<longrightarrow> block0_ok bs \<and> root_of_blocks E bs \<noteq> ZERO_ROOT" and com: "on_main_synced E name p = (Inr (), p')"
    and q: "pool_inv E c q" "handles q = handles p'" "dek q = dek p'" "anchor_handle q = anchor_handle p'" "anchor_crypto q = anchor_crypto p'"
    and rq: "rng_good 2 (p_rng q)" and sq: "unat (fst (anchor_load E q)) + 2 < 2 ^ 64"
  shows "\<exists>q'. open_main_db E name q = (Inr (), q')
    \<and> db_inv E c name (st\<lparr>st_generation := st_generation st + 1, st_root := root_of_blocks E bs\<rparr>) bs (commit_payload E name st bs p) q'
    \<and> (\<forall>n. n \<noteq> name \<longrightarrow> lookup_file q' n = lookup_file q n)"
proof -
  let ?st = "st\<lparr>st_generation := st_generation st + 1, st_root := root_of_blocks E bs\<rparr>" and ?m = "commit_payload E name st bs p"
  have gw: "st_generation st < st_generation st + 1" "st_generation st + 1 < st_generation st + 2" using g by (rule seq_room)+
  obtain i: "db_inv E c name ?st bs ?m p'" and files': "\<And>n. n \<noteq> manifest_name name \<Longrightarrow> lookup_file p' n = lookup_file p n"
    using commit_effect [of E c name st bs m p 0, OF inv _ s gw(1)] r com by (auto simp del: rng_good.simps)
  have nj: "\<not> has_filename q n" if "satellite_parent n = Some name" for n
  proof -
    have "n \<noteq> manifest_name name" using satellite_ne [OF that] by blast
    then have "lookup_file p' n = None" using sat that files' by (simp add: has_filename_def)
    then have "handles q n = None" unfolding q(2) by (simp add: handles_def)
    then show ?thesis by (simp add: handles_def has_filename_def)
  qed
  have lo: "length_ok E name ?m bs" by (rule committed_length [OF inv sat])
  show ?thesis
  proof (rule reopen_same_files [OF i _ q nj _ rq sq])
    show "st_generation ?st < st_generation ?st + 1" using gw(2) by (simp add: add.assoc)
  qed (use b lo in \<open>simp_all add: commit_payload_def accepted_def\<close>)
qed

text \<open>
  C37: A main file cut to nothing is taken for an empty database. Under a manifest that authenticates and
  is not behind the anchor, whatever length and root it has sealed, no check is made on a main file
  whose data region is empty: the open succeeds, the state of the database takes the sealed generation
  and the sealed root, and SQLite is given a file of length zero.
\<close>

theorem emptied_file_opens:
  assumes "pool_inv E c p" and "anchor_inv E c p" and "lookup_file p name = Some f" and "length (c (handle f)) = HEADER_OFFSET_DATA"
    and "manifest_ok E c p name u m" and "length u = 16" and "check_generation u (db_generation m) (snd (anchor_load E p)) = Inr ()"
    and "u \<in> uuid ` set (snd (anchor_load E p))" and "rng_good 2 (p_rng p)" and "unat (fst (anchor_load E p)) + 2 < 2 ^ 64"
  shows "\<exists>p' g. open_main_db E name p = (Inr (), p') \<and> lookup_file p' name = Some g \<and> logical_size g = Some 0
    \<and> map_option st_generation (map_of (dbs p') name) = Some (db_generation m)
    \<and> map_option st_root (map_of (dbs p') name) = Some (merkle_root m)"
proof -
  have on: "on_disk E c p name u []" using assms(3,4) by (simp add: on_disk_def holds_def)
  have r0: "rng_good (0 + 2) (p_rng p)" unfolding add_0 by (rule assms(9))
  have im: "image_ok E name u m [] p" by (simp add: image_ok_def)
  show ?thesis using open_effect [OF assms(1,2) on assms(5-7) disjI1 [OF assms(8)] r0 assms(10) im] by auto
qed

section \<open>Instances with data\<close>

text \<open>Blocks can be sealed into a region, one after the other.\<close>

lemma sealed_region:
  assumes k: "key_ok (mem_env, key)" and "\<forall>b \<in> set bs. length b = BLOCK_SIZE"
  shows "\<exists>x. length x = length bs * PHYS_BLOCK
    \<and> (\<forall>i < length bs. open_into mem_env key fid u (word_of_nat i) (slice (i * PHYS_BLOCK) PHYS_BLOCK x) = Inr (bs ! i))"
  using assms(2)
proof (induction bs rule: rev_induct)
  case (snoc b bs)
  then obtain x where x: "length x = length bs * PHYS_BLOCK"
      "\<forall>i < length bs. open_into mem_env key fid u (word_of_nat i) (slice (i * PHYS_BLOCK) PHYS_BLOCK x) = Inr (bs ! i)"
    by auto
  have lb: "length b = BLOCK_SIZE" using snoc.prems by simp
  obtain s where s: "open_into mem_env key fid u (word_of_nat (length bs)) s = Inr b" "length s = PHYS_BLOCK"
    using block_box.seal_draw [OF k, of b "[Some (replicate 24 1)]" "replicate 24 1" "[]" "(fid, u, word_of_nat (length bs))"] lb
    by (auto simp: NONCE_LEN_def TAG_LEN_def PHYS_BLOCK_def)
  have "open_into mem_env key fid u (word_of_nat i) (slice (i * PHYS_BLOCK) PHYS_BLOCK (x @ s)) = Inr ((bs @ [b]) ! i)"
    if i: "i < length (bs @ [b])" for i
  proof (cases "i < length bs")
    case True
    then have "i * PHYS_BLOCK + PHYS_BLOCK \<le> length x" using x(1) mult_le_mono1 [of "Suc i" "length bs" PHYS_BLOCK] by simp
    then show ?thesis using x(2) True by (simp add: slice_append_left nth_append)
  next
    case False
    then have "i = length bs" using i by simp
    then show ?thesis using x(1) s by (simp add: slice_def nth_append)
  qed
  then show ?case using x(1) s(2) by (intro exI [of _ "x @ s"]) simp
qed simp

abbreviation (input) new_uuid :: bytes where "new_uuid \<equiv> replicate 16 4"
abbreviation (input) new_key :: bytes where "new_key \<equiv> db_key mem_env (dek new_pool) new_uuid"

definition new_state :: db_state where
  "new_state = \<lparr>st_uuid = replicate 16 4, st_crypto = db_key mem_env (dek new_pool) (replicate 16 4), st_generation = 1, st_root = ZERO_ROOT\<rparr>"

text \<open>The new database after some writes.\<close>

lemma new_db_blocks:
  assumes "\<forall>b \<in> set bs. length b = BLOCK_SIZE" and "length bs * BLOCK_SIZE \<le> DEV_LIMIT"
  obtains p where "db_inv mem_env (\<lambda>h. h) a_db new_state bs (first_payload mem_env a_db (replicate 16 4)) p"
    and "rng_good 17 (p_rng p)" and "unat (fst (anchor_load mem_env p)) = 1" and "dek p = dek new_pool"
    and "\<forall>n. satellite_parent n = Some a_db \<longrightarrow> \<not> has_filename p n" and "\<forall>n. has_filename p n \<longrightarrow> n = a_db \<or> n = manifest_name a_db"
proof -
  let ?m = "first_payload mem_env a_db (replicate 16 4)"
  obtain p where p: "db_inv mem_env (\<lambda>h. h) a_db new_state [] ?m p" "rng_good 17 (p_rng p)" "unat (fst (anchor_load mem_env p)) = 1" "dek p = dek new_pool"
    and fr: "\<forall>n. n \<noteq> a_db \<and> n \<noteq> manifest_name a_db \<longrightarrow> lookup_file p n = lookup_file new_pool n"
    using adopt_effect [OF new_pool_ok(1,2) _ _ new_pool_ok(4,5) new_pool_ok(6) [of 17] new_pool_ok(7)] new_pool_ok(3)
    by (auto simp: new_state_def)
  have pi: "pool_inv mem_env (\<lambda>h. h) p" using p(1) by (simp add: db_inv_def)
  obtain f where f: "lookup_file p a_db = Some f" "f_crypto f = new_key" "f_key_domain f = new_uuid"
      "f_file_id f = file_id_for mem_env a_db" "length (handle f) = HEADER_OFFSET_DATA"
    using p(1) by (auto simp: db_inv_def main_holds_def new_state_def holds_def)
  have k: "key_ok (mem_env, new_key)" by (simp add: key_ok_def len_simps)
  obtain x where x: "length x = length bs * PHYS_BLOCK"
      "\<forall>i < length bs. open_into mem_env new_key (file_id_for mem_env a_db) new_uuid (word_of_nat i) (slice (i * PHYS_BLOCK) PHYS_BLOCK x) = Inr (bs ! i)"
    using sealed_region [OF k assms(1), of "file_id_for mem_env a_db" new_uuid] by blast
  let ?h = "handle f @ x"
  have "handle_ok mem_env (\<lambda>h. h) (Some a_db) (handle f)" using pi f(1) by (auto simp: pool_inv_def)
  then have h: "handle_ok mem_env (\<lambda>h. h) (Some a_db) ?h" by (simp add: handle_ok_def header_sizes)
  have hold: "holds mem_env (\<lambda>h. h) (dev_of p (f\<lparr>handle := ?h\<rparr>)) (length bs) (\<lambda>k. bs ! k)"
    using x f(2-5) by (simp add: holds_def open_block_def slice_append_right)
  let ?p = "put_file a_db (f\<lparr>handle := ?h, logical_size := Some (length bs * BLOCK_SIZE)\<rparr>) p"
  have i: "db_inv mem_env (\<lambda>h. h) a_db new_state bs ?m ?p" by (rule db_inv_main [OF p(1) f(1) h hold assms(2)])
  have "anchor_load mem_env ?p = anchor_load mem_env p" by (rule anchor_rest_frame(1); simp)
  then have a: "unat (fst (anchor_load mem_env ?p)) = 1" using p(3) by simp
  have "\<not> has_filename ?p n" if n: "satellite_parent n = Some a_db" for n
    using new_pool_ok(7) fr satellite_ne [OF n] n by (simp add: has_filename_def)
  moreover have "\<not> has_filename ?p n" if n: "n \<noteq> a_db" "n \<noteq> manifest_name a_db" for n
  proof -
    have "lookup_file ?p n = lookup_file new_pool n" using fr n by simp
    moreover have "lookup_file new_pool n = None" using n(1) by (simp add: new_pool_def lookup_file_def)
    ultimately show ?thesis by (simp add: has_filename_def)
  qed
  then have "\<forall>n. has_filename ?p n \<longrightarrow> n = a_db \<or> n = manifest_name a_db" by blast
  ultimately show ?thesis using that [OF i _ a] p(2,4) by simp
qed

text \<open>A first block as SQLite writes it.\<close>

definition first_block :: bytes where
  "first_block = SQLITE_HEADER @ [0x10, 0] @ replicate (BLOCK_SIZE - 18) 0"

lemma first_block_ok: "block0_ok [first_block]" "length first_block = BLOCK_SIZE"
  by (simp_all add: block0_ok_def first_block_def SQLITE_HEADER_def header_page_size_def slice_def starts_with_def BLOCK_SIZE_def be_nat_def)

lemma toy_root: "root_of_blocks mem_env [b] \<noteq> ZERO_ROOT"
proof
  assume "root_of_blocks mem_env [b] = ZERO_ROOT"
  then have "hd (root_of_blocks mem_env [b]) = 0" by (simp add: ZERO_ROOT_def)
  moreover have "length (root_msg mem_env [b]) = length MERKLE_ROOT_LABEL + 40" by (simp add: root_msg_def)
  ultimately show False by (simp add: root_of_blocks_eq toy_hash_def MERKLE_ROOT_LABEL_def)
qed

lemma one_block_db:
  obtains p where "db_inv mem_env (\<lambda>h. h) a_db new_state [first_block] (first_payload mem_env a_db (replicate 16 4)) p"
    and "rng_good 17 (p_rng p)" and "unat (fst (anchor_load mem_env p)) = 1" and "dek p = dek new_pool"
    and "\<forall>n. satellite_parent n = Some a_db \<longrightarrow> \<not> has_filename p n"
proof -
  have "\<forall>b \<in> set [first_block]. length b = BLOCK_SIZE" "length [first_block] * BLOCK_SIZE \<le> DEV_LIMIT"
    using first_block_ok(2) by (simp_all add: DEV_LIMIT_def BLOCK_SIZE_def)
  from new_db_blocks [OF this] that show thesis by metis
qed

theorem commit_advances_witness:
  "\<exists>p p'. map_of (dbs p) a_db = Some new_state \<and> on_main_synced mem_env a_db p = (Inr (), p')
    \<and> map_option st_generation (map_of (dbs p') a_db) = Some 2
    \<and> map_option st_root (map_of (dbs p') a_db) = Some (root_of_blocks mem_env [first_block])"
proof -
  obtain p where p: "db_inv mem_env (\<lambda>h. h) a_db new_state [first_block] (first_payload mem_env a_db (replicate 16 4)) p"
      "rng_good 17 (p_rng p)" "unat (fst (anchor_load mem_env p)) = 1"
    using one_block_db by metis
  have "rng_good 5 (p_rng p)" using p(2) by (rule rng_good_less [rotated]) simp
  from commit_advances [OF p(1) this] p(3) obtain p' where "on_main_synced mem_env a_db p = (Inr (), p')"
      "map_of (dbs p') a_db = Some (new_state\<lparr>st_generation := st_generation new_state + 1, st_root := root_of_blocks mem_env [first_block]\<rparr>)"
    by (auto simp: new_state_def db_inv_def)
  then show ?thesis using p(1) by (intro exI [of _ p] exI [of _ p']) (simp add: db_inv_def new_state_def)
qed

theorem open_accepts_exactly_witness:
  "\<exists>p u. on_disk mem_env (\<lambda>h. h) p a_db u [first_block] \<and> fst (open_main_db mem_env a_db p) = Inr ()"
proof -
  obtain p where p: "db_inv mem_env (\<lambda>h. h) a_db new_state [first_block] (first_payload mem_env a_db (replicate 16 4)) p"
      "rng_good 17 (p_rng p)" "unat (fst (anchor_load mem_env p)) = 1" "\<forall>n. satellite_parent n = Some a_db \<longrightarrow> \<not> has_filename p n"
    using one_block_db by metis
  let ?s = "new_state\<lparr>st_generation := st_generation new_state + 1, st_root := root_of_blocks mem_env [first_block]\<rparr>"
  let ?m = "commit_payload mem_env a_db new_state [first_block] p"
  have r: "rng_good (12 + 5) (p_rng p)" using p(2) by simp
  obtain q where c: "db_inv mem_env (\<lambda>h. h) a_db ?s [first_block] ?m q" "\<forall>n. n \<noteq> manifest_name a_db \<longrightarrow> lookup_file q n = lookup_file p n"
      "rng_good 12 (p_rng q)" "unat (fst (anchor_load mem_env q)) = 3"
    using commit_effect [OF p(1) r] p(3) by (auto simp: new_state_def)
  note i = c(1) [unfolded db_inv_def]
  have "lookup_file q (journal_name a_db) = None" using p(4) satellite_journal [of a_db] c(2) manifest_ne(4) by (auto simp: has_filename_def)
  then have nh: "\<not> hot_journal mem_env a_db v k q" for v k by (simp add: hot_journal_def)
  have "rng_good 2 (p_rng q)" using c(3) by (rule rng_good_less [rotated]) simp
  moreover have "length_ok mem_env a_db ?m [first_block]" by (rule committed_length [OF p(1,4)])
  moreover have "check_generation (st_uuid ?s) (db_generation ?m) (snd (anchor_load mem_env q)) = Inr ()"
    using i by (intro allowed_generation [of _ "st_generation ?s"]) (auto simp: new_state_def)
  moreover have "merkle_root ?m = root_of_blocks mem_env [first_block]" by (simp add: commit_payload_def)
  ultimately have "fst (open_main_db mem_env a_db q) = Inr ()"
    using open_accepts_exactly [OF _ _ db_inv_on_disk [OF c(1) refl refl]] i c(4) nh first_block_ok(1) toy_root
    by (auto simp: accepted_def Let_def)
  then show ?thesis using db_inv_on_disk(1) [OF c(1) refl refl] i by blast
qed

theorem reopen_after_commit_witness:
  "\<exists>p p' q. on_main_synced mem_env a_db p = (Inr (), p') \<and> open_main_db mem_env a_db (p'\<lparr>dbs := []\<rparr>) = (Inr (), q)
    \<and> map_of (dbs q) a_db = map_of (dbs p') a_db \<and> map_of (dbs p') a_db \<noteq> None"
proof -
  obtain p where p: "db_inv mem_env (\<lambda>h. h) a_db new_state [first_block] (first_payload mem_env a_db (replicate 16 4)) p"
      "rng_good 17 (p_rng p)" "unat (fst (anchor_load mem_env p)) = 1" "\<forall>n. satellite_parent n = Some a_db \<longrightarrow> \<not> has_filename p n"
    using one_block_db by metis
  have r5: "rng_good 5 (p_rng p)" "rng_good (12 + 5) (p_rng p)" using p(2) by (auto elim: rng_good_less [rotated])
  obtain p' where c: "on_main_synced mem_env a_db p = (Inr (), p')" "db_inv mem_env (\<lambda>h. h) a_db
        (new_state\<lparr>st_generation := st_generation new_state + 1, st_root := root_of_blocks mem_env [first_block]\<rparr>) [first_block]
        (commit_payload mem_env a_db new_state [first_block] p) p'" "rng_good 12 (p_rng p')" "unat (fst (anchor_load mem_env p')) = 3"
    using commit_effect [OF p(1) r5(2)] p(3) by (auto simp: new_state_def)
  let ?q = "p'\<lparr>dbs := []\<rparr>"
  have al: "anchor_load mem_env ?q = anchor_load mem_env p'" by (rule anchor_rest_frame(1); simp)
  have "rng_good 2 (p_rng ?q)" using c(3) by (auto elim: rng_good_less [rotated])
  moreover have "pool_inv mem_env (\<lambda>h. h) ?q" using c(2) by (simp add: db_inv_def)
  moreover have "handles ?q = handles p'" by (simp add: handles_def fun_eq_iff)
  ultimately obtain q' where "open_main_db mem_env a_db ?q = (Inr (), q')" "db_inv mem_env (\<lambda>h. h) a_db
        (new_state\<lparr>st_generation := st_generation new_state + 1, st_root := root_of_blocks mem_env [first_block]\<rparr>) [first_block]
        (commit_payload mem_env a_db new_state [first_block] p) q'"
    using reopen_after_commit [where q = ?q, OF p(1) r5(1) _ _ p(4) _ c(1)] p(3) c(4) al first_block_ok(1) toy_root
    by (auto simp: new_state_def)
  then show ?thesis using c(1,2) by (intro exI [of _ p] exI [of _ p'] exI [of _ q']) (simp add: db_inv_def)
qed

theorem stale_database_refused_witness:
  "\<exists>p p1 p2 old. map_of (dbs p) a_db = Some new_state \<and> on_main_synced mem_env a_db p = (Inr (), p1) \<and> on_main_synced mem_env a_db p1 = (Inr (), p2)
    \<and> lookup_file p (manifest_name a_db) = Some old
    \<and> open_main_db mem_env a_db (put_file (manifest_name a_db) old p2) = (Inl Rollback, put_file (manifest_name a_db) old p2)"
proof -
  obtain p where p: "db_inv mem_env (\<lambda>h. h) a_db new_state [first_block] (first_payload mem_env a_db (replicate 16 4)) p"
      "rng_good 17 (p_rng p)" "unat (fst (anchor_load mem_env p)) = 1"
    using one_block_db by metis
  let ?s = "new_state\<lparr>st_generation := st_generation new_state + 1, st_root := root_of_blocks mem_env [first_block]\<rparr>"
  have r: "rng_good (12 + 5) (p_rng p)" using p(2) by simp
  obtain p1 where c: "on_main_synced mem_env a_db p = (Inr (), p1)" "db_inv mem_env (\<lambda>h. h) a_db ?s [first_block]
        (commit_payload mem_env a_db new_state [first_block] p) p1" "rng_good 12 (p_rng p1)" "unat (fst (anchor_load mem_env p1)) = 3" "dek p1 = dek p"
    using commit_effect [OF p(1) r] p(3) by (auto simp: new_state_def)
  have g: "st_generation ?s = 2" by (simp add: new_state_def)
  have r1: "rng_good (7 + 5) (p_rng p1)" "rng_good 5 (p_rng p1)" using c(3) by (auto elim: rng_good_less [rotated])
  obtain p2 where d: "on_main_synced mem_env a_db p1 = (Inr (), p2)" "dek p2 = dek p1" "lookup_file p2 a_db = lookup_file p1 a_db"
    using commit_effect [OF c(2) r1(1)] c(4) manifest_ne(2) [of a_db] by (auto simp: new_state_def)
  obtain old where o: "lookup_file p (manifest_name a_db) = Some old" using p(1) by (auto simp: db_inv_def manifest_ok_def)
  obtain f where f: "lookup_file p1 a_db = Some f" using c(2) by (auto simp: db_inv_def main_holds_def)
  let ?q = "put_file (manifest_name a_db) old p2"
  have l: "lookup_file ?q a_db = Some f" using f d(3) manifest_ne(2) [of a_db] by simp
  have m: "manifest_ok mem_env (\<lambda>h. h) ?q a_db (st_uuid ?s) (first_payload mem_env a_db (replicate 16 4))"
    using p(1) o c(5) d(2) by (auto simp: db_inv_def manifest_ok_def new_state_def)
  have n: "db_generation (first_payload mem_env a_db (replicate 16 4)) < st_generation ?s" unfolding g by (simp add: first_payload_def)
  have "open_main_db mem_env a_db ?q = (Inl Rollback, ?q)"
    using stale_database_refused [OF c(2) r1(2) _ _ d(1) _ _ l m n] c(4) g by simp
  then show ?thesis using p(1) c(1) d(1) o by (auto simp: db_inv_def)
qed

theorem emptied_file_opens_witness:
  "\<exists>p p' g. open_main_db mem_env a_db p = (Inr (), p') \<and> map_option st_generation (map_of (dbs p') a_db) = Some 2
    \<and> map_option st_root (map_of (dbs p') a_db) = Some (root_of_blocks mem_env [first_block])
    \<and> lookup_file p' a_db = Some g \<and> logical_size g = Some 0"
proof -
  obtain p where p: "db_inv mem_env (\<lambda>h. h) a_db new_state [first_block] (first_payload mem_env a_db (replicate 16 4)) p"
      "rng_good 17 (p_rng p)" "unat (fst (anchor_load mem_env p)) = 1"
    using one_block_db by metis
  let ?s = "new_state\<lparr>st_generation := st_generation new_state + 1, st_root := root_of_blocks mem_env [first_block]\<rparr>"
  let ?m = "commit_payload mem_env a_db new_state [first_block] p"
  have r: "rng_good (12 + 5) (p_rng p)" using p(2) by simp
  obtain p1 where c: "db_inv mem_env (\<lambda>h. h) a_db ?s [first_block] ?m p1" "rng_good 12 (p_rng p1)" "unat (fst (anchor_load mem_env p1)) = 3"
    using commit_effect [OF p(1) r] p(3) by (auto simp: new_state_def)
  obtain f where f: "lookup_file p1 a_db = Some f" using c(1) by (auto simp: db_inv_def main_holds_def)
  let ?f = "f\<lparr>handle := take HEADER_OFFSET_DATA (handle f), logical_size := Some (length ([] :: bytes list) * BLOCK_SIZE)\<rparr>"
  have h: "handle_ok mem_env (\<lambda>h. h) (Some a_db) (handle f)" using c(1) f by (auto simp: db_inv_def pool_inv_def)
  then have ht: "handle_ok mem_env (\<lambda>h. h) (Some a_db) (take HEADER_OFFSET_DATA (handle f))" by (simp add: handle_ok_def header_sizes min_def)
  have "holds mem_env (\<lambda>h. h) (dev_of p1 (f\<lparr>handle := take HEADER_OFFSET_DATA (handle f)\<rparr>)) (length ([] :: bytes list)) (\<lambda>k. [] ! k)"
    using h by (simp add: holds_def handle_ok_def)
  from db_inv_main [OF c(1) f ht this] have i: "db_inv mem_env (\<lambda>h. h) a_db ?s [] ?m (put_file a_db ?f p1)" (is "db_inv _ _ _ _ _ _ ?p") by simp
  note j = i [unfolded db_inv_def]
  have al: "anchor_load mem_env ?p = anchor_load mem_env p1" by (rule anchor_rest_frame(1); simp)
  have "lookup_file ?p a_db = Some ?f" "length (handle ?f) = HEADER_OFFSET_DATA" "rng_good 2 (p_rng ?p)"
    using ht c(2) by (auto simp: handle_ok_def elim: rng_good_less [rotated])
  moreover have "check_generation (st_uuid ?s) (db_generation ?m) (snd (anchor_load mem_env ?p)) = Inr ()"
    using j by (intro allowed_generation [of _ "st_generation ?s"]) (auto simp: new_state_def)
  ultimately show ?thesis
    using emptied_file_opens [of mem_env "\<lambda>h. h" ?p a_db ?f "st_uuid ?s" ?m] j c(3) al
    by (auto simp: commit_payload_def new_state_def)
qed

end
