(* ===== verification/Epoch.thy ===== *)
theory Epoch
  imports Envelope Attest Relay_Auth Device Json Lifecycle
begin

text \<open>
  The services of the pool in \<open>crates/freehold/src/vfs.rs\<close> that answer with key material derived
  from the data key: epoch tokens (\<open>export_epoch\<close>, \<open>apply_epoch\<close>), the stripped envelope, the
  vault's signatures, the sealed trust seed and device certificates, sync identifiers and the text
  bundle. The data key itself never leaves the pool.
\<close>

definition EPOCH_AAD :: bytes where "EPOCH_AAD = ascii ''freehold-epoch''"
definition TRUST_SEED_AAD :: bytes where "TRUST_SEED_AAD = ascii ''freehold-vault-trust-seed''"

definition seal_pool :: "'z prims_scheme \<Rightarrow> crypto \<Rightarrow> bytes \<Rightarrow> bytes \<Rightarrow> 'h pool \<Rightarrow> ('h, bytes) pool_result" where
  "seal_pool E key aad plain p =
     (case seal_bytes E key aad plain (p_rng p) of (r, rng) \<Rightarrow> (map_err PCrypto r, p\<lparr>p_rng := rng\<rparr>))"

definition export_epoch :: "('h, 'z) env_scheme \<Rightarrow> str \<Rightarrow> u64 \<Rightarrow> 'h pool \<Rightarrow> ('h, bytes) pool_result" where
  "export_epoch E name env_gen p =
     (case lookup_file p (manifest_name name) of
        None \<Rightarrow> (Inl NoManifest, p)
      | Some mf \<Rightarrow> (case read_manifest E (dek p) (manifest_name name) (dev_of p mf) of
          Inl e \<Rightarrow> (Inl e, p)
        | Inr (u, _, m) \<Rightarrow>
            seal_pool E (epoch_key E (dek p)) EPOCH_AAD (u @ u64_le (db_generation m) @ u64_le env_gen @ device_id p) p))"

definition apply_epoch :: "('h, 'z) env_scheme \<Rightarrow> bytes \<Rightarrow> 'h pool \<Rightarrow> ('h, u64 \<times> u64) pool_result" where
  "apply_epoch E token p =
     (case open_bytes E (epoch_key E (dek p)) EPOCH_AAD token of
        Inl _ \<Rightarrow> (Inl EpochAuth, p)
      | Inr plain \<Rightarrow>
        if length plain < 24 then (Inl EpochTruncated, p)
        else
          let u = take 16 plain; gen = le_u64 (slice 16 8 plain);
              env_gen = (if length plain \<ge> 32 then le_u64 (slice 24 8 plain) else 0) in
          st_then (anchor_record_full E u (Some gen) (Some gen) (Some gen) p) (\<lambda>_ p. (Inr (gen, env_gen), p)))"

definition strip_export_envelope :: "'z prims_scheme \<Rightarrow> bytes \<Rightarrow> 'h pool \<Rightarrow> env_error + bytes" where
  "strip_export_envelope E blob p = strip_kind E blob (dek p) KIND_DEVICE"

definition pool_vault_public_key :: "'z prims_scheme \<Rightarrow> 'h pool \<Rightarrow> bytes" where
  "pool_vault_public_key E p = vault_public_key E (dek p)"

definition pool_attest :: "'z prims_scheme \<Rightarrow> str \<Rightarrow> bytes \<Rightarrow> u64 \<Rightarrow> u64 \<Rightarrow> 'h pool \<Rightarrow> bytes option" where
  "pool_attest E claim audience issued expiry p = attest E (dek p) claim audience issued expiry"

text \<open>The seed and the blob to keep: a fresh seed sealed at first use, the given one unsealed after.\<close>

definition trust_seed :: "'z prims_scheme \<Rightarrow> bytes \<Rightarrow> 'h pool \<Rightarrow> ('h, bytes \<times> bytes) pool_result" where
  "trust_seed E sealed p =
     (let sealer = trust_seal_key E (dek p) in
      if sealed = [] then
        (case random_trust_seed (p_rng p) of
           (None, rng) \<Rightarrow> (Inl TrustSeed, p\<lparr>p_rng := rng\<rparr>)
         | (Some seed, rng) \<Rightarrow>
             st_then (seal_pool E sealer TRUST_SEED_AAD seed (p\<lparr>p_rng := rng\<rparr>)) (\<lambda>blob p. (Inr (seed, blob), p)))
      else
        (try_then (map_err PCrypto (open_bytes E sealer TRUST_SEED_AAD sealed)) (\<lambda>plain.
           if length plain \<noteq> 32 then Inl TrustSeed else Inr (plain, sealed)), p))"

text \<open>The certificate of a device: claim, signature, trust key and blob; \<open>None\<close> where a field aborts.\<close>

definition pool_issue_device_cert ::
  "'z prims_scheme \<Rightarrow> bytes \<Rightarrow> bytes \<Rightarrow> str list \<Rightarrow> u64 \<Rightarrow> u64 \<Rightarrow> 'h pool \<Rightarrow> ('h, ((str \<times> bytes) \<times> bytes \<times> bytes) option) pool_result" where
  "pool_issue_device_cert E sealed device_pubkey caps issued expiry p =
     st_then (trust_seed E sealed p) (\<lambda>(seed, blob) p.
       (Inr (map_option (\<lambda>cs. (cs, vault_trust_public_key E seed, blob))
          (issue_device_cert E seed device_pubkey caps issued expiry)), p))"

definition pool_sync_id :: "'z prims_scheme \<Rightarrow> bytes \<Rightarrow> 'h pool \<Rightarrow> bytes" where
  "pool_sync_id E u p = sync_id E (dek p) u"

definition sync_crypto :: "'z prims_scheme \<Rightarrow> 'h pool \<Rightarrow> crypto" where
  "sync_crypto E p = sync_key E (dek p)"

definition pool_relay_sign :: "'z prims_scheme \<Rightarrow> bytes \<Rightarrow> byte \<Rightarrow> bytes \<Rightarrow> 'h pool \<Rightarrow> bytes" where
  "pool_relay_sign E u method arg p = (case relay_sign E (dek p) u method arg of (pk, sig) \<Rightarrow> pk @ sig)"

section \<open>The text bundle\<close>

definition bundle_line :: "str \<Rightarrow> bytes \<Rightarrow> str" where
  "bundle_line n bytes = n @ [124] @ concat (map hex_byte bytes) @ [10]"

fun export_lines :: "('h, 'z) env_scheme \<Rightarrow> 'h pool \<Rightarrow> str list \<Rightarrow> pool_error + str" where
  "export_lines E p [] = Inr []"
| "export_lines E p (n # ns) =
     (if has_filename p n
      then try_then (export_raw E n p) (\<lambda>b. try_then (export_lines E p ns) (\<lambda>out. Inr (bundle_line n b @ out)))
      else export_lines E p ns)"

definition export_bundle :: "('h, 'z) env_scheme \<Rightarrow> str \<Rightarrow> 'h pool \<Rightarrow> pool_error + str" where
  "export_bundle E db p = export_lines E p [db, manifest_name db]"

section \<open>Epoch tokens\<close>

lemma exported_token:
  assumes "sah_ok E c" and "manifest_ok E c p name u m" and "export_epoch E name env_gen p = (Inr token, p')"
  obtains r r' where "seal_bytes E (epoch_key E (dek p)) EPOCH_AAD (u @ u64_le (db_generation m) @ u64_le env_gen @ device_id p) r = (Inr token, r')"
proof -
  obtain mf where "lookup_file p (manifest_name name) = Some mf"
      "read_manifest E (dek p) (manifest_name name) (dev_of p mf) = Inr (u, db_key E (dek p) u, m)"
    using manifest_reads [OF assms(1,2)] by metis
  then show ?thesis using assms(3) that
    by (auto simp: export_epoch_def seal_pool_def split: prod.splits)
qed

text \<open>On a device with the same key and room in its anchor, the token is taken and raises all three counters.\<close>

lemma token_applies:
  assumes "sah_ok E c" and "manifest_ok E c p name u m" and "length u = 16" and "aead_ok E" and "hash_ok E" and "length (device_id p) = 16"
    and "export_epoch E name env_gen p = (Inr token, p')"
    and "anchor_inv E c q" and "dek q = dek p" and "rng_good 2 (p_rng q)" and "unat (fst (anchor_load E q)) + 2 < 2 ^ 64"
    and "u \<in> uuid ` set (snd (anchor_load E q)) \<or> length (snd (anchor_load E q)) < ANCHOR_CAP"
  obtains h x e where "apply_epoch E token q = (Inr (db_generation m, env_gen), q\<lparr>p_rng := x, anchor_handle := Some h\<rparr>)"
    and "find (\<lambda>e. uuid e = u) (snd (anchor_load E (q\<lparr>p_rng := x, anchor_handle := Some h\<rparr>))) = Some e"
    and "db_generation m \<le> committed e" and "db_generation m \<le> epoch_floor e"
proof -
  let ?g = "db_generation m" and ?plain = "u @ u64_le (db_generation m) @ u64_le env_gen @ device_id p"
  obtain r r' where s: "seal_bytes E (epoch_key E (dek p)) EPOCH_AAD ?plain r = (Inr token, r')"
    using exported_token [OF assms(1,2,7)] by metis
  have k: "key_ok (E, epoch_key E (dek p))" using assms(4,5) by (simp add: key_ok_def len_simps)
  have o: "open_bytes E (epoch_key E (dek q)) EPOCH_AAD token = Inr ?plain"
    using bytes_box.seal_Inr(1) [of "(E, epoch_key E (dek p))" ?plain EPOCH_AAD r token r'] k s assms(3,6,9) by simp
  obtain es where es: "upsert_entry u (Some ?g) (Some ?g) (Some ?g) (snd (anchor_load E q)) = Some es"
    using upsert_room [OF assms(12)] by blast
  have "rng_good (Suc (Suc 0)) (p_rng q)" using assms(10) by (simp add: numeral_2_eq_2)
  then obtain h x where a: "anchor_record_full E u (Some ?g) (Some ?g) (Some ?g) q = (Inr (), q\<lparr>p_rng := x, anchor_handle := Some h\<rparr>)"
      "snd (anchor_load E (q\<lparr>p_rng := x, anchor_handle := Some h\<rparr>)) = es"
    using anchor_record_full_effect [OF assms(8,3) _ seq_room(1) [OF assms(11)] seq_room(2) [OF assms(11)] es, of 0] by auto
  have fields: "take 16 ?plain = u" "slice 16 8 ?plain = u64_le ?g" "slice 24 8 ?plain = u64_le env_gen" "32 \<le> length ?plain"
    using assms(3) by (simp_all add: slice_def)
  have ap: "apply_epoch E token q = (Inr (?g, env_gen), q\<lparr>p_rng := x, anchor_handle := Some h\<rparr>)"
    using o fields a(1) by (simp add: apply_epoch_def Let_def)
  obtain e where e: "find (\<lambda>e. uuid e = u) es = Some e" "?g \<le> committed e" "?g \<le> epoch_floor e"
    using upsert_find [OF es] by (auto simp: covers_def)
  show ?thesis by (rule that [OF ap]) (use a(2) e in simp_all)
qed

text \<open>
  C6: An epoch token carries freshness from one device to another. A token exported for a database on
  one device is accepted on any other that holds the same data key; from then on, whatever files the
  second device is given, an authentic manifest of an older generation than the token's is refused
  and nothing is changed, even by the one commit that the anchor alone would tolerate.
\<close>

theorem epoch_token_enforced:
  assumes "sah_ok E c" and "manifest_ok E c p name u m" and "length u = 16" and "aead_ok E" and "hash_ok E" and "length (device_id p) = 16"
    and "export_epoch E name env_gen p = (Inr token, p')"
    and "anchor_inv E c q" and "dek q = dek p" and "rng_good 2 (p_rng q)" and "unat (fst (anchor_load E q)) + 2 < 2 ^ 64"
    and "u \<in> uuid ` set (snd (anchor_load E q)) \<or> length (snd (anchor_load E q)) < ANCHOR_CAP"
  shows "\<exists>q'. apply_epoch E token q = (Inr (db_generation m, env_gen), q')
    \<and> (\<forall>w n f old. anchor_handle w = anchor_handle q' \<longrightarrow> anchor_crypto w = anchor_crypto q' \<longrightarrow> lookup_file w n = Some f \<longrightarrow>
         manifest_ok E c w n u old \<longrightarrow> db_generation old < db_generation m \<longrightarrow>
         open_main_db E n w \<in> {(Inl Rollback, w), (Inl BelowEpochFloor, w)})"
proof -
  let ?g = "db_generation m"
  obtain h x e where ap: "apply_epoch E token q = (Inr (?g, env_gen), q\<lparr>p_rng := x, anchor_handle := Some h\<rparr>)"
      and e: "find (\<lambda>e. uuid e = u) (snd (anchor_load E (q\<lparr>p_rng := x, anchor_handle := Some h\<rparr>))) = Some e" "?g \<le> epoch_floor e"
    using token_applies [OF assms] by metis
  let ?q = "q\<lparr>p_rng := x, anchor_handle := Some h\<rparr>"
  have "open_main_db E n w \<in> {(Inl Rollback, w), (Inl BelowEpochFloor, w)}"
    if w: "anchor_handle w = anchor_handle ?q" "anchor_crypto w = anchor_crypto ?q" "lookup_file w n = Some f" "manifest_ok E c w n u old"
      and old: "db_generation old < ?g" for w n f old
  proof -
    have al: "anchor_load E w = anchor_load E ?q" using w(1,2) by (simp add: anchor_load_def cong: option.case_cong)
    have "db_generation old < epoch_floor e" using old e(2) by (rule less_le_trans)
    moreover from this have "0 < epoch_floor e" using word_gt_0 by fastforce
    ultimately have "check_generation u (db_generation old) (snd (anchor_load E w)) \<in> {Inl Rollback, Inl BelowEpochFloor}"
      unfolding al using e(1) by (simp add: check_generation_def)
    then show ?thesis using open_main_verified [OF assms(1) w(4,3)] by (auto simp: open_verified_def)
  qed
  then show ?thesis using ap by blast
qed

theorem epoch_token_enforced_witness:
  "\<exists>p p' token q' w. export_epoch mem_env a_db 9 p = (Inr token, p') \<and> apply_epoch mem_env token (new_pool\<lparr>p_rng := replicate 2 (Some (replicate 24 9))\<rparr>) = (Inr (2, 9), q')
    \<and> map_option st_generation (map_of (dbs w) a_db) = Some 1
    \<and> fst (open_main_db mem_env a_db w) \<in> {Inl Rollback, Inl BelowEpochFloor}"
proof -
  let ?u = "replicate 16 4 :: bytes"
  obtain p0 where p0: "db_inv mem_env (\<lambda>h. h) a_db new_state [first_block] (first_payload mem_env a_db ?u) p0"
      "rng_good 17 (p_rng p0)" "unat (fst (anchor_load mem_env p0)) = 1" "dek p0 = dek new_pool"
    using one_block_db by metis
  have r: "rng_good (12 + 5) (p_rng p0)" using p0(2) by simp
  let ?m = "commit_payload mem_env a_db new_state [first_block] p0"
  obtain p1 where p1: "manifest_ok mem_env (\<lambda>h. h) p1 a_db ?u ?m" "dek p1 = dek new_pool"
    using commit_effect [OF p0(1) r] p0(3,4) by (auto simp: new_state_def db_inv_def)
  let ?p = "p1\<lparr>device_id := replicate 16 0, p_rng := [Some (replicate 24 1)]\<rparr>"
  have mp: "manifest_ok mem_env (\<lambda>h. h) ?p a_db ?u ?m" using p1(1) by (simp add: manifest_ok_def lookup_file_def)
  have g: "db_generation ?m = 2" by (simp add: commit_payload_def new_state_def)
  obtain mf where mf: "lookup_file ?p (manifest_name a_db) = Some mf"
      "read_manifest mem_env (dek ?p) (manifest_name a_db) (dev_of ?p mf) = Inr (?u, db_key mem_env (dek ?p) ?u, ?m)"
    using manifest_reads [OF mem_env_ok mp] by metis
  have k: "key_ok (mem_env, epoch_key mem_env (dek ?p))" by (simp add: key_ok_def len_simps)
  obtain token where t: "seal_bytes mem_env (epoch_key mem_env (dek ?p)) EPOCH_AAD (?u @ u64_le (db_generation ?m) @ u64_le 9 @ device_id ?p) (p_rng ?p) = (Inr token, [])"
    using bytes_box.seal_draw [OF k, of "?u @ u64_le (db_generation ?m) @ u64_le 9 @ device_id ?p" "p_rng ?p" "replicate 24 1" "[]" EPOCH_AAD]
    by (auto simp: NONCE_LEN_def)
  have ex: "export_epoch mem_env a_db 9 ?p = (Inr token, ?p\<lparr>p_rng := []\<rparr>)"
    unfolding export_epoch_def mf option.case sum.case prod.case seal_pool_def t by simp
  let ?q = "new_pool\<lparr>p_rng := replicate 2 (Some (replicate 24 9))\<rparr>"
  have "rng_good 2 (p_rng ?q)" using rng_good_replicate [of "replicate 24 9" 2 2] by (simp add: NONCE_LEN_def)
  moreover have "anchor_inv mem_env (\<lambda>h. h) ?q = anchor_inv mem_env (\<lambda>h. h) new_pool" by (rule anchor_rest_frame(2); simp)
  then have "anchor_inv mem_env (\<lambda>h. h) ?q" using new_pool_ok(2) by blast
  moreover have "anchor_load mem_env ?q = anchor_load mem_env new_pool" by (rule anchor_rest_frame(1); simp)
  then have "anchor_load mem_env ?q = (0, [])" unfolding new_pool_ok(3) .
  ultimately obtain q' where q': "apply_epoch mem_env token ?q = (Inr (2, 9), q')"
    and refuse: "\<And>w n f old. anchor_handle w = anchor_handle q' \<Longrightarrow> anchor_crypto w = anchor_crypto q' \<Longrightarrow> lookup_file w n = Some f \<Longrightarrow>
         manifest_ok mem_env (\<lambda>h. h) w n ?u old \<Longrightarrow> db_generation old < 2 \<Longrightarrow>
         open_main_db mem_env n w \<in> {(Inl Rollback, w), (Inl BelowEpochFloor, w)}"
    using epoch_token_enforced [OF mem_env_ok mp _ _ _ _ ex, of ?q] p1(2) by (auto simp: g manifest_sizes)
  let ?w = "p0\<lparr>anchor_handle := anchor_handle q', anchor_crypto := anchor_crypto q'\<rparr>"
  obtain f where f: "lookup_file ?w a_db = Some f" using p0(1) by (auto simp: db_inv_def main_holds_def lookup_file_def)
  have mw: "manifest_ok mem_env (\<lambda>h. h) ?w a_db ?u (first_payload mem_env a_db ?u)"
    using p0(1) by (simp add: db_inv_def manifest_ok_def lookup_file_def new_state_def)
  have "open_main_db mem_env a_db ?w \<in> {(Inl Rollback, ?w), (Inl BelowEpochFloor, ?w)}"
    using refuse [OF _ _ f mw] by (simp add: first_payload_def)
  moreover have "map_option st_generation (map_of (dbs ?w) a_db) = Some 1" using p0(1) by (simp add: db_inv_def new_state_def)
  ultimately show ?thesis using ex q' by (intro exI [of _ ?p] exI [of _ "?p\<lparr>p_rng := []\<rparr>"] exI [of _ token] exI [of _ q'] exI [of _ ?w]) auto
qed

end
