(* ===== verification/Interchange.thy ===== *)
theory Interchange
  imports Bundle Epoch
begin

text \<open>
  The text interchange between the pool and the session layer of \<open>crates/freehold/src/lib.rs\<close>: the
  pool writes each file as a line \<open>name|hex\<close> (\<open>export_bundle\<close>), the session reads the lines back
  (\<open>hex_to_bytes\<close> and the loops of \<open>session_export_inner\<close> and \<open>session_image\<close>).
\<close>

section \<open>Reading the lines\<close>

text \<open>\<open>HexPanic\<close> is a slice that is not at a character boundary, which aborts the program.\<close>

datatype hex_error = OddHex | BadHex | HexPanic

text \<open>\<open>u8::from_str_radix\<close> on two characters: a leading plus is allowed.\<close>

definition hex_pair :: "byte \<Rightarrow> byte \<Rightarrow> byte option" where
  "hex_pair a b =
     (if a = 0x2B then map_option word_of_nat (hex_val b)
      else case hex_val a of None \<Rightarrow> None | Some x \<Rightarrow> map_option (\<lambda>y. word_of_nat (16 * x + y)) (hex_val b))"

fun hex_pairs :: "str \<Rightarrow> hex_error + bytes" where
  "hex_pairs (a # b # r) =
     (if r \<noteq> [] \<and> utf8_cont (hd r) then Inl HexPanic
      else case hex_pair a b of None \<Rightarrow> Inl BadHex | Some x \<Rightarrow> try_then (hex_pairs r) (\<lambda>bs. Inr (x # bs)))"
| "hex_pairs _ = Inr []"

definition hex_to_bytes :: "str \<Rightarrow> hex_error + bytes" where
  "hex_to_bytes s = (if length s mod 2 \<noteq> 0 then Inl OddHex else hex_pairs s)"

text \<open>\<open>str::lines\<close>: a carriage return is stripped only with its line feed.\<close>

definition strip_cr :: "str \<Rightarrow> str" where
  "strip_cr l = (if l \<noteq> [] \<and> last l = 13 then butlast l else l)"

definition lines_of :: "str \<Rightarrow> str list" where
  "lines_of s = (let ps = split_on 10 s in
     map strip_cr (butlast ps) @ (if last ps = [] then [] else [last ps]))"

definition split_once :: "byte \<Rightarrow> str \<Rightarrow> (str \<times> str) option" where
  "split_once c l = (if c \<in> set l then Some (takeWhile (\<lambda>x. x \<noteq> c) l, drop 1 (dropWhile (\<lambda>x. x \<noteq> c) l)) else None)"

fun read_lines :: "str list \<Rightarrow> hex_error + (str \<times> bytes) list" where
  "read_lines [] = Inr []"
| "read_lines (l # ls) = (case split_once 0x7C l of
       None \<Rightarrow> read_lines ls
     | Some (n, hex) \<Rightarrow> try_then (hex_to_bytes hex) (\<lambda>b. try_then (read_lines ls) (\<lambda>fs. Inr ((n, b) # fs))))"

datatype collect_error = CExport pool_error | CHex hex_error

text \<open>The files of the databases \<open>names\<close>, as the session collects them.\<close>

fun collect_files :: "('h, 'z) env_scheme \<Rightarrow> 'h pool \<Rightarrow> str list \<Rightarrow> collect_error + (str \<times> bytes) list" where
  "collect_files E p [] = Inr []"
| "collect_files E p (n # ns) =
     try_then (map_err CExport (export_bundle E n p)) (\<lambda>t.
     try_then (map_err CHex (read_lines (lines_of t))) (\<lambda>fs.
     try_then (collect_files E p ns) (\<lambda>out. Inr (fs @ out))))"

section \<open>The detour through text is lossless\<close>

lemma hex_pair_byte: "hex_pair (hex_digit (unat b div 16)) (hex_digit (unat b mod 16)) = Some b"
  using hex_digit_at(1,3) [OF hex_halves(1), of b] hex_digit_at(1) [OF hex_halves(2), of b] hex_halves(3) [of b]
  by (simp add: hex_pair_def del: of_nat_add of_nat_mult)

lemma hex_chars: "x \<in> set (concat (map hex_byte bs)) \<Longrightarrow> x < 0x80 \<and> x \<notin> {10, 13, 0x7C}"
  using hex_digit_at(2,3) [OF hex_halves(1)] hex_digit_at(2,3) [OF hex_halves(2)] by (fastforce simp: hex_byte_def)

lemma hex_pairs_bytes: "hex_pairs (concat (map hex_byte bs)) = Inr bs"
proof (induction bs)
  case (Cons b bs)
  have "\<not> (concat (map hex_byte bs) \<noteq> [] \<and> utf8_cont (hd (concat (map hex_byte bs))))"
    using hex_chars [OF hd_in_set, of bs] by (fastforce simp: utf8_cont_def linorder_not_less [symmetric] simp del: concat_eq_Nil_conv linorder_not_less)
  then show ?case using Cons hex_pair_byte [of b] by (simp add: hex_byte_def [of b])
qed simp

lemma hex_round_trip: "hex_to_bytes (concat (map hex_byte bs)) = Inr bs"
proof -
  have "length (concat (map hex_byte bs)) = 2 * length bs" by (induction bs) (simp_all add: hex_byte_def)
  then show ?thesis by (simp add: hex_to_bytes_def hex_pairs_bytes)
qed

text \<open>A name that can stand before the bar of a line.\<close>

definition line_name :: "str \<Rightarrow> bool" where
  "line_name n \<longleftrightarrow> 10 \<notin> set n \<and> 0x7C \<notin> set n"

lemma lines_of_line:
  assumes "10 \<notin> set l" and "l \<noteq> []" and "last l \<noteq> 13"
  shows "lines_of (l @ 10 # r) = l # lines_of r"
  using assms by (simp add: lines_of_def split_on_append strip_cr_def Let_def)

lemma lines_of_Nil [simp]: "lines_of [] = []"
  by (simp add: lines_of_def)

lemma bundle_line_read:
  assumes "line_name n"
  shows "lines_of (bundle_line n b @ r) = (n @ 0x7C # concat (map hex_byte b)) # lines_of r"
    and "split_once 0x7C (n @ 0x7C # concat (map hex_byte b)) = Some (n, concat (map hex_byte b))"
proof -
  let ?l = "n @ 0x7C # concat (map hex_byte b)"
  have "last ?l \<noteq> 13"
  proof (cases "concat (map hex_byte b) = []")
    case False
    then show ?thesis using hex_chars [OF last_in_set [OF False]] by (simp add: last_append del: concat_eq_Nil_conv)
  qed (simp add: last_append del: concat_eq_Nil_conv)
  then show "lines_of (bundle_line n b @ r) = ?l # lines_of r"
    using assms hex_chars [of 10 b] lines_of_line [of ?l r] by (auto simp: bundle_line_def line_name_def)
  have "\<forall>x \<in> set n. x \<noteq> 0x7C" using assms by (auto simp: line_name_def)
  then show "split_once 0x7C ?l = Some (n, concat (map hex_byte b))"
    by (simp add: split_once_def takeWhile_append dropWhile_append)
qed

definition stored_entry :: "('h \<Rightarrow> bytes) \<Rightarrow> 'h pool \<Rightarrow> str \<Rightarrow> (str \<times> bytes) list" where
  "stored_entry c p n = (case stored c p n of None \<Rightarrow> [] | Some b \<Rightarrow> [(n, b)])"

lemma export_lines_text:
  assumes "pool_inv E c p" and "\<forall>n \<in> set ns. line_name n"
  shows "\<exists>t. export_lines E p ns = Inr t \<and> read_lines (lines_of t) = Inr (concat (map (stored_entry c p) ns))"
  using assms(2)
proof (induction ns)
  case (Cons n ns)
  then obtain t where t: "export_lines E p ns = Inr t" "read_lines (lines_of t) = Inr (concat (map (stored_entry c p) ns))" by auto
  have n: "line_name n" using Cons.prems by simp
  show ?case
  proof (cases "stored c p n")
    case None
    then show ?thesis using t has_filename_stored [of p n c] by (auto simp: stored_entry_def [of _ _ n])
  next
    case (Some b)
    then show ?thesis using t bundle_line_read [OF n, of b] export_effect [OF assms(1), of n]
      by (simp add: has_filename_stored [of p n c] stored_entry_def [of _ _ n] hex_round_trip)
  qed
qed simp

lemma collect_files_stored:
  assumes "pool_inv E c p" and "\<forall>n \<in> set names. line_name n"
  shows "collect_files E p names = Inr (concat (map (\<lambda>n. stored_entry c p n @ stored_entry c p (manifest_name n)) names))"
  using assms(2)
proof (induction names)
  case (Cons n ns)
  then have "line_name n" "line_name (manifest_name n)"
    by (auto simp: line_name_def manifest_name_def)
  then obtain t where "export_bundle E n p = Inr t" "read_lines (lines_of t) = Inr (stored_entry c p n @ stored_entry c p (manifest_name n))"
    using export_lines_text [OF assms(1), of "[n, manifest_name n]"] by (auto simp: export_bundle_def)
  then show ?case using Cons by simp
qed simp

end
