(* ===== verification/Offline.thy ===== *)
theory Offline
  imports Bundle Envelope
begin

text \<open>
  \<open>crates/freehold-decrypt/src/lib.rs\<close>: the standalone decryptor. It re-implements the reading side
  of the bundle, of the envelope and of the block grid without sharing code with the main crate, so
  its definitions stand here on their own, with the crate's own constants, and are compared with the
  main crate's in the second half. The tool runs on the host, with a 64-bit \<open>usize\<close>.
\<close>

section \<open>Constants and errors\<close>

definition OFF_BUNDLE_MAGIC :: bytes where "OFF_BUNDLE_MAGIC = ascii ''FREEHOLD''"
definition OFF_BUNDLE_VERSION :: byte where "OFF_BUNDLE_VERSION = 1"
definition OFF_TAG_ENVELOPE :: byte where "OFF_TAG_ENVELOPE = 1"
definition OFF_TAG_CRED_ID :: byte where "OFF_TAG_CRED_ID = 2"
definition OFF_TAG_FILE :: byte where "OFF_TAG_FILE = 3"
definition OFF_TAG_EPOCH :: byte where "OFF_TAG_EPOCH = 4"
definition OFF_ENV_MAGIC :: bytes where "OFF_ENV_MAGIC = ascii ''FREEHENV''"
definition OFF_ENV_VERSION :: byte where "OFF_ENV_VERSION = 3"
definition OFF_ENV_HEADER_LEN :: nat where "OFF_ENV_HEADER_LEN = 36"
definition OFF_ENV_SLOT_LEN :: nat where "OFF_ENV_SLOT_LEN = 74"
definition OFF_ENV_MAC_LEN :: nat where "OFF_ENV_MAC_LEN = 32"
definition OFF_ENV_SALT_OFF :: nat where "OFF_ENV_SALT_OFF = 12"
definition OFF_ENV_SALT_LEN :: nat where "OFF_ENV_SALT_LEN = 16"
definition OFF_DEK_LEN :: nat where "OFF_DEK_LEN = 32"
definition OFF_NONCE_LEN :: nat where "OFF_NONCE_LEN = 24"
definition OFF_TAG_LEN :: nat where "OFF_TAG_LEN = 16"
definition OFF_KIND_RECOVERY :: byte where "OFF_KIND_RECOVERY = 1"
definition OFF_WRAP_AAD_PREFIX :: bytes where "OFF_WRAP_AAD_PREFIX = ascii ''freehold-envelope-v3''"
definition OFF_MAC_INFO :: bytes where "OFF_MAC_INFO = ascii ''freehold-envelope-mac-v1''"
definition OFF_BLOCK_SIZE :: nat where "OFF_BLOCK_SIZE = 4096"
definition OFF_PHYS_BLOCK :: nat where "OFF_PHYS_BLOCK = OFF_BLOCK_SIZE + OFF_NONCE_LEN + OFF_TAG_LEN"
definition OFF_CIPHER_ID :: byte where "OFF_CIPHER_ID = 1"
definition OFF_FILE_ID_LEN :: nat where "OFF_FILE_ID_LEN = 16"
definition OFF_DB_KEY_LABEL :: bytes where "OFF_DB_KEY_LABEL = ascii ''freehold/vfs-db-v1'' @ [0]"
definition OFF_MANIFEST_SUFFIX :: str where "OFF_MANIFEST_SUFFIX = ascii ''#manifest''"
definition OFF_MANIFEST_MAGIC_LEN :: nat where "OFF_MANIFEST_MAGIC_LEN = 8"

lemmas off_tags = OFF_TAG_ENVELOPE_def OFF_TAG_CRED_ID_def OFF_TAG_FILE_def OFF_TAG_EPOCH_def
lemmas off_sizes = OFF_ENV_HEADER_LEN_def OFF_ENV_SLOT_LEN_def OFF_ENV_MAC_LEN_def OFF_ENV_SALT_OFF_def
  OFF_ENV_SALT_LEN_def OFF_DEK_LEN_def OFF_NONCE_LEN_def OFF_TAG_LEN_def OFF_BLOCK_SIZE_def
  OFF_PHYS_BLOCK_def OFF_FILE_ID_LEN_def OFF_MANIFEST_MAGIC_LEN_def

datatype bundle_fault = OffMagic | OffVersion | OffOverflow | OffTruncated | OffNotUtf8 | OffUnknownTag
  | OffNoEnvelope | OffNoDatabase
datatype envelope_fault = OffEnvMagic | OffEnvLength | OffNoManifest | OffShortManifest
datatype block_fault = OffNotWhole | OffBlockAt nat

datatype offline_error =
    OffBundle bundle_fault | OffEnvelope envelope_fault | OffUnlock | OffTamper
  | OffBlock str block_fault | OffKdf

section \<open>The bundle\<close>

definition off_take :: "bytes \<Rightarrow> nat \<Rightarrow> nat \<Rightarrow> offline_error + (bytes \<times> nat)" where
  "off_take = cur_take USIZE_MAX_64 (OffBundle OffOverflow) (OffBundle OffTruncated)"

definition off_le_u16 :: "bytes \<Rightarrow> nat" where "off_le_u16 b = le_nat [b ! 0, b ! 1]"
definition off_le_u32 :: "bytes \<Rightarrow> nat" where "off_le_u32 b = le_nat [b ! 0, b ! 1, b ! 2, b ! 3]"

text \<open>The two shapes of a section: a counted blob, and a counted name with counted data.\<close>

definition off_blob :: "bytes \<Rightarrow> nat \<Rightarrow> offline_error + (bytes \<times> nat)" where
  "off_blob b at = try_then (off_take b at 4) (\<lambda>(s, at). off_take b at (off_le_u32 s))"

definition off_file :: "bytes \<Rightarrow> nat \<Rightarrow> offline_error + ((str \<times> bytes) \<times> nat)" where
  "off_file b at =
     try_then (off_take b at 2) (\<lambda>(s, at).
     try_then (off_take b at (off_le_u16 s)) (\<lambda>(raw, at).
     try_then (of_option (OffBundle OffNotUtf8) (from_utf8 raw)) (\<lambda>name.
     try_then (off_take b at 4) (\<lambda>(s, at).
     try_then (off_take b at (off_le_u32 s)) (\<lambda>(data, at). Inr ((name, data), at))))))"

definition off_section ::
  "bytes \<Rightarrow> bytes \<times> (str \<times> bytes) list \<Rightarrow> nat \<Rightarrow> offline_error + ((bytes \<times> (str \<times> bytes) list) \<times> nat)" where
  "off_section b st at =
     (case st of (envelope, files) \<Rightarrow>
      let tag = b ! at; at = at + 1 in
      if tag = OFF_TAG_ENVELOPE then try_then (off_blob b at) (\<lambda>(s, at). Inr ((s, files), at))
      else if tag = OFF_TAG_CRED_ID then try_then (off_blob b at) (\<lambda>(_, at). Inr ((envelope, files), at))
      else if tag = OFF_TAG_FILE then try_then (off_file b at) (\<lambda>(f, at). Inr ((envelope, files @ [f]), at))
      else if tag = OFF_TAG_EPOCH then try_then (off_blob b at) (\<lambda>(_, at). Inr ((envelope, files), at))
      else Inl (OffBundle OffUnknownTag))"

lemma off_section_progress: "off_section b st at = Inr (st', at') \<Longrightarrow> at < at' \<and> at' \<le> length b"
  by (auto simp: off_section_def off_blob_def off_file_def off_take_def Let_def result_simps split: prod.splits if_splits)

function off_loop ::
  "bytes \<Rightarrow> bytes \<times> (str \<times> bytes) list \<Rightarrow> nat \<Rightarrow> offline_error + (bytes \<times> (str \<times> bytes) list)" where
  "off_loop b st at =
     (if at < length b then
        (case off_section b st at of Inl e \<Rightarrow> Inl e | Inr (st', at') \<Rightarrow> off_loop b st' at')
      else Inr st)"
  by pat_completeness auto
termination
  by (relation "measure (\<lambda>(b, st, at). length b - at)") (auto dest: off_section_progress)

declare off_loop.simps [simp del]

definition parse_bundle :: "bytes \<Rightarrow> offline_error + (bytes \<times> (str \<times> bytes) list)" where
  "parse_bundle b =
     (if length b < 9 \<or> take 8 b \<noteq> OFF_BUNDLE_MAGIC then Inl (OffBundle OffMagic)
      else if b ! 8 \<noteq> OFF_BUNDLE_VERSION then Inl (OffBundle OffVersion)
      else try_then (off_loop b ([], []) 9) (\<lambda>(envelope, files).
        if envelope = [] then Inl (OffBundle OffNoEnvelope) else Inr (envelope, files)))"

section \<open>The envelope\<close>

text \<open>The loop over the slots: only recovery slots are tried, and the first that opens decides.\<close>

fun off_slots :: "'z prims_scheme \<Rightarrow> bytes \<Rightarrow> nat \<Rightarrow> bytes \<Rightarrow> nat list \<Rightarrow> offline_error + bytes" where
  "off_slots P env body kek [] = Inl OffUnlock"
| "off_slots P env body kek (i # is) =
     (let at = OFF_ENV_HEADER_LEN + i * OFF_ENV_SLOT_LEN; kek_id = env ! at; kind = env ! (at + 1) in
      if kind \<noteq> OFF_KIND_RECOVERY then off_slots P env body kek is
      else case aead_dec P kek (slice (at + 2) OFF_NONCE_LEN env) (OFF_WRAP_AAD_PREFIX @ [kek_id, kind])
            (slice (at + 2 + OFF_NONCE_LEN) OFF_DEK_LEN env)
            (slice (at + 2 + OFF_NONCE_LEN + OFF_DEK_LEN) (OFF_ENV_SLOT_LEN - (2 + OFF_NONCE_LEN + OFF_DEK_LEN)) env) of
          None \<Rightarrow> off_slots P env body kek is
        | Some dek \<Rightarrow>
            if hmac P (hkdf P dek OFF_MAC_INFO) (take body env) \<noteq> slice body OFF_ENV_MAC_LEN env then Inl OffTamper
            else Inr dek)"

definition off_open_envelope :: "'z prims_scheme \<Rightarrow> bytes \<Rightarrow> str \<Rightarrow> offline_error + bytes" where
  "off_open_envelope P env recovery_code =
     (if length env < OFF_ENV_HEADER_LEN + OFF_ENV_MAC_LEN \<or> take 8 env \<noteq> OFF_ENV_MAGIC \<or> env ! 8 \<noteq> OFF_ENV_VERSION
      then Inl (OffEnvelope OffEnvMagic)
      else
        let slot_count = unat (env ! 9); body = OFF_ENV_HEADER_LEN + slot_count * OFF_ENV_SLOT_LEN in
        if length env \<noteq> body + OFF_ENV_MAC_LEN then Inl (OffEnvelope OffEnvLength)
        else
          let salt = slice OFF_ENV_SALT_OFF OFF_ENV_SALT_LEN env; norm = to_upper P (remove_ws recovery_code) in
          try_then (of_option OffKdf (argon2id P 19456 2 1 norm salt)) (\<lambda>kek.
            off_slots P env body kek [0..<slot_count]))"

section \<open>The block grid\<close>

definition off_file_id_for :: "'z prims_scheme \<Rightarrow> str \<Rightarrow> bytes" where
  "off_file_id_for P name = take OFF_FILE_ID_LEN (sha256 P name)"

definition db_cipher :: "'z prims_scheme \<Rightarrow> bytes \<Rightarrow> bytes \<Rightarrow> bytes" where
  "db_cipher P dek db_uuid = hkdf P dek (OFF_DB_KEY_LABEL @ db_uuid)"

definition off_block_aad :: "bytes \<Rightarrow> bytes \<Rightarrow> u64 \<Rightarrow> bytes" where
  "off_block_aad file_id db_uuid block_index =
     file_id @ db_uuid @ u64_le block_index @ nat_le 4 OFF_BLOCK_SIZE @ [OFF_CIPHER_ID]"

fun off_blocks ::
  "'z prims_scheme \<Rightarrow> str \<Rightarrow> bytes \<Rightarrow> bytes \<Rightarrow> bytes \<Rightarrow> bytes \<Rightarrow> nat list \<Rightarrow> offline_error + bytes" where
  "off_blocks P name ct cipher file_id db_uuid [] = Inr []"
| "off_blocks P name ct cipher file_id db_uuid (k # ks) =
     (let phys = slice (k * OFF_PHYS_BLOCK) OFF_PHYS_BLOCK ct in
      try_then (of_option (OffBlock name (OffBlockAt k))
        (aead_dec P cipher (slice OFF_BLOCK_SIZE OFF_NONCE_LEN phys) (off_block_aad file_id db_uuid (word_of_nat k))
          (take OFF_BLOCK_SIZE phys) (drop (OFF_BLOCK_SIZE + OFF_NONCE_LEN) phys))) (\<lambda>dst.
      try_then (off_blocks P name ct cipher file_id db_uuid ks) (\<lambda>out. Inr (dst @ out))))"

definition decrypt_db_file :: "'z prims_scheme \<Rightarrow> str \<Rightarrow> bytes \<Rightarrow> bytes \<Rightarrow> bytes \<Rightarrow> offline_error + bytes" where
  "decrypt_db_file P name ct dek db_uuid =
     (if length ct mod OFF_PHYS_BLOCK \<noteq> 0 then Inl (OffBlock name OffNotWhole)
      else off_blocks P name ct (db_cipher P dek db_uuid) (off_file_id_for P name) db_uuid
             [0..<length ct div OFF_PHYS_BLOCK])"

section \<open>Recovery\<close>

text \<open>The loop over the files; \<open>all\<close> is the list in which each manifest is looked up.\<close>

fun recover_files ::
  "'z prims_scheme \<Rightarrow> bytes \<Rightarrow> (str \<times> bytes) list \<Rightarrow> (str \<times> bytes) list \<Rightarrow> offline_error + (str \<times> bytes) list" where
  "recover_files P dek all [] = Inr []"
| "recover_files P dek all ((name, data) # fs) =
     (if \<not> ends_with name (ascii ''.db'') then recover_files P dek all fs
      else case find (\<lambda>(n, _). n = name @ OFF_MANIFEST_SUFFIX) all of
          None \<Rightarrow> Inl (OffEnvelope OffNoManifest)
        | Some (_, manifest) \<Rightarrow>
            if length manifest < OFF_MANIFEST_MAGIC_LEN + 16 then Inl (OffEnvelope OffShortManifest)
            else try_then (decrypt_db_file P name data dek (slice OFF_MANIFEST_MAGIC_LEN 16 manifest)) (\<lambda>sqlite.
                 try_then (recover_files P dek all fs) (\<lambda>out. Inr ((name, sqlite) # out))))"

definition recover :: "'z prims_scheme \<Rightarrow> bytes \<Rightarrow> str \<Rightarrow> offline_error + (str \<times> bytes) list" where
  "recover P b recovery_code =
     try_then (parse_bundle b) (\<lambda>(envelope, files).
     try_then (off_open_envelope P envelope recovery_code) (\<lambda>dek.
     try_then (recover_files P dek files files) (\<lambda>out.
       if out = [] then Inl (OffBundle OffNoDatabase) else Inr out)))"

section \<open>Names and codes\<close>

definition separator :: "byte \<Rightarrow> bool" where "separator c \<longleftrightarrow> c = 0x2F \<or> c = 0x5C"

definition stem_char :: "byte \<Rightarrow> bool" where
  "stem_char c \<longleftrightarrow> 48 \<le> c \<and> c \<le> 57 \<or> 65 \<le> c \<and> c \<le> 90 \<or> 97 \<le> c \<and> c \<le> 122 \<or> c = 0x5F \<or> c = 0x2D"

definition safe_output_stem :: "str \<Rightarrow> str" where
  "safe_output_stem db_name =
     (let raw = (case strip_suffix db_name (ascii ''.db'') of None \<Rightarrow> db_name | Some s \<Rightarrow> s);
          last = rev (takeWhile (\<lambda>c. \<not> separator c) (rev raw));
          stem = filter stem_char last
      in if stem = [] then ascii ''recovered'' else stem)"

definition OFF_RECOVERY_ALPHABET :: bytes where
  "OFF_RECOVERY_ALPHABET = ascii ''0123456789ABCDEFGHJKMNPQRSTVWXYZ''"
definition OFF_RECOVERY_PAYLOAD_LEN :: nat where "OFF_RECOVERY_PAYLOAD_LEN = 26"
definition OFF_RECOVERY_CHECK_LEN :: nat where "OFF_RECOVERY_CHECK_LEN = 4"

unbundle bit_operations_syntax

function off_emit :: "u32 \<Rightarrow> nat \<Rightarrow> str \<Rightarrow> nat \<times> str" where
  "off_emit acc bits out =
     (if bits \<ge> 5 \<and> length out < OFF_RECOVERY_CHECK_LEN
      then off_emit acc (bits - 5) (out @ [OFF_RECOVERY_ALPHABET ! unat (drop_bit (bits - 5) acc AND 0x1f)])
      else (bits, out))"
  by pat_completeness auto
termination by (relation "measure (\<lambda>(acc, bits, out). bits)") auto

declare off_emit.simps [simp del]

fun off_checksum_loop :: "bytes \<Rightarrow> u32 \<Rightarrow> nat \<Rightarrow> str \<Rightarrow> str" where
  "off_checksum_loop [] acc bits out = out"
| "off_checksum_loop (b # h) acc bits out =
     (let acc = push_bit 8 acc OR ucast b; (bits, out) = off_emit acc (bits + 8) out
      in if length out = OFF_RECOVERY_CHECK_LEN then out else off_checksum_loop h acc bits out)"

definition off_recovery_checksum :: "'z prims_scheme \<Rightarrow> str \<Rightarrow> str" where
  "off_recovery_checksum P payload = off_checksum_loop (sha256 P payload) 0 0 []"

definition off_verify_recovery_checksum :: "'z prims_scheme \<Rightarrow> str \<Rightarrow> bool" where
  "off_verify_recovery_checksum P code =
     (let canon = to_upper P (filter (\<lambda>c. c \<noteq> 0x2D) (remove_ws code)) in
      if length canon \<noteq> OFF_RECOVERY_PAYLOAD_LEN + OFF_RECOVERY_CHECK_LEN
         \<or> \<not> list_all (\<lambda>b. b \<in> set OFF_RECOVERY_ALPHABET) canon then False
      else off_recovery_checksum P (take OFF_RECOVERY_PAYLOAD_LEN canon) = drop OFF_RECOVERY_PAYLOAD_LEN canon)"

section \<open>Agreement with the main crate\<close>

text \<open>The two sets of constants have the same values.\<close>

lemmas off_unfold = OFF_BUNDLE_MAGIC_def OFF_BUNDLE_VERSION_def OFF_ENV_MAGIC_def OFF_ENV_VERSION_def
  OFF_KIND_RECOVERY_def OFF_WRAP_AAD_PREFIX_def OFF_MAC_INFO_def OFF_CIPHER_ID_def OFF_DB_KEY_LABEL_def
  OFF_RECOVERY_ALPHABET_def OFF_RECOVERY_PAYLOAD_LEN_def OFF_RECOVERY_CHECK_LEN_def off_tags off_sizes

lemma off_constants:
  "OFF_BUNDLE_MAGIC = BUNDLE_MAGIC" "OFF_BUNDLE_VERSION = BUNDLE_VERSION" "OFF_TAG_ENVELOPE = TAG_ENVELOPE"
  "OFF_TAG_CRED_ID = TAG_CRED_ID" "OFF_TAG_FILE = TAG_FILE" "OFF_TAG_EPOCH = TAG_EPOCH" "OFF_ENV_MAGIC = ENV_MAGIC"
  "OFF_ENV_VERSION = ENV_VERSION" "OFF_ENV_HEADER_LEN = HEADER_LEN" "OFF_ENV_SLOT_LEN = SLOT_LEN" "OFF_ENV_MAC_LEN = MAC_LEN"
  "OFF_ENV_SALT_OFF = SALT_OFF" "OFF_ENV_SALT_LEN = SALT_LEN" "OFF_DEK_LEN = DEK_LEN" "OFF_NONCE_LEN = NONCE_LEN"
  "OFF_TAG_LEN = TAG_LEN" "OFF_KIND_RECOVERY = KIND_RECOVERY" "OFF_WRAP_AAD_PREFIX = WRAP_AAD_PREFIX" "OFF_MAC_INFO = MAC_INFO"
  "OFF_BLOCK_SIZE = BLOCK_SIZE" "OFF_PHYS_BLOCK = PHYS_BLOCK" "OFF_CIPHER_ID = CIPHER_ID" "OFF_FILE_ID_LEN = FILE_ID_LEN"
  "OFF_RECOVERY_ALPHABET = RECOVERY_ALPHABET" "OFF_RECOVERY_PAYLOAD_LEN = RECOVERY_PAYLOAD_LEN"
  "OFF_RECOVERY_CHECK_LEN = RECOVERY_CHECK_LEN"
  by (simp_all add: off_unfold BUNDLE_MAGIC_def BUNDLE_VERSION_def tag_defs ENV_MAGIC_def ENV_VERSION_def env_sizes
      kind_defs WRAP_AAD_PREFIX_def MAC_INFO_def size_defs CIPHER_ID_def RECOVERY_ALPHABET_def
      RECOVERY_PAYLOAD_LEN_def RECOVERY_CHECK_LEN_def)

lemma off_le_u16_slice: "at + 2 \<le> length b \<Longrightarrow> off_le_u16 (slice at 2 b) = le_nat (slice at 2 b)"
  unfolding off_le_u16_def by (rule arg_cong [where f = le_nat]) (rule nth_equalityI; auto simp: less_Suc_eq nth_Cons' numeral_eq_Suc)

lemma off_le_u32_slice: "at + 4 \<le> length b \<Longrightarrow> off_le_u32 (slice at 4 b) = le_nat (slice at 4 b)"
  unfolding off_le_u32_def by (rule arg_cong [where f = le_nat]) (rule nth_equalityI; auto simp: less_Suc_eq nth_Cons' numeral_eq_Suc)

text \<open>On a buffer that a 32-bit cursor can walk, the sections are read the same way.\<close>

lemma off_take_iff: "length b \<le> USIZE_MAX_32 \<Longrightarrow> off_take b at n = Inr x \<longleftrightarrow> bundle_take b at n = Inr x"
  by (cases x) (auto simp: off_take_def result_simps USIZE_MAX_32_def USIZE_MAX_64_def)

lemma bundle_take_counts:
  "bundle_take b at 4 = Inr (s, at') \<Longrightarrow> off_le_u32 s = le_nat s"
  "bundle_take b at 2 = Inr (s, at') \<Longrightarrow> off_le_u16 s = le_nat s"
  by (auto simp: bundle_take_Inr_iff off_le_u32_slice off_le_u16_slice)

lemma off_blob_iff: "length b \<le> USIZE_MAX_32 \<Longrightarrow> off_blob b at = Inr x \<longleftrightarrow> take_blob b at = Inr x"
  by (auto simp: off_blob_def take_blob_def bundle_take_u32_def try_then_Inr_iff off_take_iff bundle_take_counts)

lemma off_file_iff: "length b \<le> USIZE_MAX_32 \<Longrightarrow> off_file b at = Inr x \<longleftrightarrow> take_file b at = Inr x"
  by (auto simp: off_file_def take_file_def bundle_take_u16_def bundle_take_u32_def try_then_Inr_iff off_take_iff
      bundle_take_counts; fastforce simp: bundle_take_counts)

definition kept_of :: "bundle_t \<times> bool \<Rightarrow> bytes \<times> (str \<times> bytes) list" where
  "kept_of st = (b_envelope (fst st), b_files (fst st))"

lemma off_section_agrees:
  assumes "length b \<le> USIZE_MAX_32"
  shows "off_section b (kept_of st) at = Inr (s, at') \<longleftrightarrow> (\<exists>st'. bundle_section b st at = Inr (st', at') \<and> s = kept_of st')"
  by (cases s; cases st)
    (auto simp: off_section_def bundle_section_def kept_of_def Let_def off_constants try_then_Inr_iff off_blob_iff [OF assms]
      off_file_iff [OF assms])

lemma off_loop_agrees:
  assumes "length b \<le> USIZE_MAX_32"
  shows "off_loop b (kept_of st) at = Inr s \<longleftrightarrow> (\<exists>st'. bundle_loop b st at = Inr st' \<and> s = kept_of st')"
  using assms
proof (induction b st at rule: bundle_loop.induct)
  case (1 b st at)
  show ?case
  proof (cases "at < length b")
    case False
    then show ?thesis by (simp add: off_loop.simps [of b _ at] bundle_loop.simps [of b _ at] eq_commute)
  next
    case True
    note a = off_section_agrees [OF 1(2), of st at]
    show ?thesis
    proof (cases "bundle_section b st at")
      case (Inl e)
      then have "\<exists>e. off_section b (kept_of st) at = Inl e" using a by (cases "off_section b (kept_of st) at") auto
      then show ?thesis using True Inl by (auto simp: off_loop.simps [of b _ at] bundle_loop.simps [of b _ at])
    next
      case (Inr r)
      then obtain st' at' where r: "bundle_section b st at = Inr (st', at')" by (cases r) auto
      have "off_section b (kept_of st) at = Inr (kept_of st', at')" using off_section_agrees [OF 1(2), of st at "kept_of st'" at'] r by blast
      then show ?thesis using True r 1(1) [OF True r refl] 1(2)
        by (simp add: off_loop.simps [of b _ at] bundle_loop.simps [of b _ at])
    qed
  qed
qed

text \<open>Without an envelope section the envelope stays empty.\<close>

lemma bundle_loop_envelope:
  "bundle_loop b st at = Inr st' \<Longrightarrow> \<not> snd st \<longrightarrow> b_envelope (fst st) = [] \<Longrightarrow> \<not> snd st' \<longrightarrow> b_envelope (fst st') = []"
proof (induction b st at rule: bundle_loop.induct)
  case (1 b st at)
  show ?case
  proof (cases "at < length b")
    case False
    then show ?thesis using 1(2,3) by (simp add: bundle_loop.simps [of b _ at])
  next
    case True
    then obtain s1 at1 where s: "bundle_section b st at = Inr (s1, at1)" "bundle_loop b s1 at1 = Inr st'"
      using 1(2) by (auto simp: bundle_loop.simps [of b _ at] split: sum.splits)
    have "\<not> snd s1 \<longrightarrow> b_envelope (fst s1) = []"
      using s(1) 1(3) by (auto simp: bundle_section_def Let_def try_then_Inr_iff split: if_splits)
    then show ?thesis using 1(1) [OF True s(1) refl s(2)] by blast
  qed
qed

lemma offline_parser_iff:
  assumes "length b < 2 ^ 32"
  shows "parse_bundle b = Inr (envelope, fs) \<longleftrightarrow>
    envelope \<noteq> [] \<and> (\<exists>t. bundle_decode b = Inr t \<and> b_envelope t = envelope \<and> b_files t = fs)"
proof -
  have l: "length b \<le> USIZE_MAX_32" using assms by (simp add: USIZE_MAX_32_def)
  have k: "kept_of (empty_bundle, False) = ([], [])" by (simp add: kept_of_def empty_bundle_def)
  have e: "\<And>t h. bundle_loop b (empty_bundle, False) 9 = Inr (t, h) \<Longrightarrow> \<not> h \<Longrightarrow> b_envelope t = []"
    using bundle_loop_envelope [of b "(empty_bundle, False)" 9] by (fastforce simp: empty_bundle_def)
  have "off_loop b ([], []) 9 = Inr s \<longleftrightarrow> (\<exists>t h. bundle_loop b (empty_bundle, False) 9 = Inr (t, h) \<and> s = (b_envelope t, b_files t))" for s
    using off_loop_agrees [OF l, of "(empty_bundle, False)" 9 s] unfolding k by (auto simp: kept_of_def)
  from this [of "(envelope, fs)"] have "off_loop b ([], []) 9 = Inr (envelope, fs) \<and> envelope \<noteq> [] \<longleftrightarrow>
      envelope \<noteq> [] \<and> (\<exists>t h. bundle_loop b (empty_bundle, False) 9 = Inr (t, h) \<and> h \<and> envelope = b_envelope t \<and> fs = b_files t)"
    using e by (metis prod.inject)
  moreover have "bundle_decode b = Inr t \<longleftrightarrow> \<not> (length b < 9 \<or> take 8 b \<noteq> BUNDLE_MAGIC) \<and> b ! 8 = BUNDLE_VERSION
      \<and> (\<exists>h. bundle_loop b (empty_bundle, False) 9 = Inr (t, h) \<and> h)" for t
    by (cases "bundle_loop b (empty_bundle, False) 9") (auto simp: bundle_decode_def split: if_splits prod.splits)
  moreover have "parse_bundle b = Inr (envelope, fs) \<longleftrightarrow> \<not> (length b < 9 \<or> take 8 b \<noteq> BUNDLE_MAGIC) \<and> b ! 8 = BUNDLE_VERSION
      \<and> off_loop b ([], []) 9 = Inr (envelope, fs) \<and> envelope \<noteq> []"
    by (auto simp: parse_bundle_def off_constants try_then_Inr_iff split: if_splits)
  ultimately show ?thesis by blast
qed

text \<open>
  C39: The decryptor reads the same bundles as the main crate. Any bundle of less than 4 GiB is accepted
  with the same envelope and the same files in the same order, whatever the order and the number of
  its sections, with one difference: the decryptor refuses a bundle whose envelope is empty.
\<close>

theorem offline_parser_agrees:
  assumes "length b < 2 ^ 32"
  shows "parse_bundle b = Inr (envelope, fs) \<longleftrightarrow>
    envelope \<noteq> [] \<and> (\<exists>t. bundle_decode b = Inr t \<and> b_envelope t = envelope \<and> b_files t = fs)"
  using assms by (rule offline_parser_iff)

theorem offline_parser_agrees_witness:
  "parse_bundle (bundle_encode [1, 2] [8] [(ascii ''a.db'', [5]), (ascii ''b.db'', [])] [9]) = Inr ([1, 2], [(ascii ''a.db'', [5]), (ascii ''b.db'', [])])"
proof -
  let ?t = "\<lparr>b_envelope = [1, 2], b_cred_id = [8], b_files = [(ascii ''a.db'', [5]), (ascii ''b.db'', [])], b_epoch = [9]\<rparr>"
  have u: "utf8_valid (ascii ''a.db'')" "utf8_valid (ascii ''b.db'')" by (rule utf8_valid_ascii; auto)+
  have w: "bundle_wf ?t" using u by (simp add: bundle_wf_def)
  have l: "length (bundle_bytes ?t) < 2 ^ 32"
    by (simp add: bundle_bytes_def bundle_encode_def blob_section_def file_section_def BUNDLE_MAGIC_def)
  then have "bundle_decode (bundle_bytes ?t) = Inr ?t" using bundle_decode_encode [OF w] by (simp add: USIZE_MAX_32_def)
  with offline_parser_agrees [OF l, of "[1, 2]" "b_files ?t"] show ?thesis by (simp add: bundle_bytes_def)
qed

section \<open>The same key from the same code\<close>

lemma off_slots_agree:
  assumes "\<forall>i \<in> set js. HEADER_LEN + i * SLOT_LEN + SLOT_LEN \<le> length env"
    and "\<forall>i \<in> set js. env ! (HEADER_LEN + i * SLOT_LEN + 1) \<noteq> KIND_RECOVERY \<longrightarrow> open_slot P kek (slice (HEADER_LEN + i * SLOT_LEN) SLOT_LEN env) = None"
  shows "off_slots P env (body_len n) kek js = Inr dek \<longleftrightarrow>
    try_slots P env n kek (map (\<lambda>i. slice (HEADER_LEN + i * SLOT_LEN) SLOT_LEN env) js) = Inr dek"
  using assms
proof (induction js)
  case (Cons i js)
  let ?at = "HEADER_LEN + i * SLOT_LEN" let ?s = "slice ?at SLOT_LEN env"
  have l: "?at + SLOT_LEN \<le> length env" using Cons.prems(1) by simp
  have n: "?s ! 0 = env ! ?at" "?s ! 1 = env ! (?at + 1)" using l by (simp_all add: nth_slice env_sizes)
  have o: "open_slot P kek ?s = aead_dec P kek (slice (?at + 2) NONCE_LEN env) (WRAP_AAD_PREFIX @ [env ! ?at, env ! (?at + 1)])
      (slice (?at + 2 + NONCE_LEN) DEK_LEN env) (slice (?at + 2 + NONCE_LEN + DEK_LEN) TAG_LEN env)"
    using n unfolding open_slot_def slot_aad_def by (simp add: slice_slice env_sizes add.assoc)
  have t: "SLOT_LEN - (2 + NONCE_LEN + DEK_LEN) = TAG_LEN" by (simp add: env_sizes)
  have step: "off_slots P env (body_len n) kek (i # js) = (if env ! (?at + 1) \<noteq> KIND_RECOVERY then off_slots P env (body_len n) kek js
      else case open_slot P kek ?s of None \<Rightarrow> off_slots P env (body_len n) kek js
        | Some d \<Rightarrow> if \<not> mac_ok P env n d then Inl OffTamper else Inr d)"
    unfolding off_slots.simps Let_def off_constants t o mac_ok_def mac_key_def by (rule refl)
  show ?case using Cons unfolding step by (auto split: option.splits)
qed simp

definition recovery_slots_only :: "'z prims_scheme \<Rightarrow> bytes \<Rightarrow> str \<Rightarrow> bool" where
  "recovery_slots_only P env code \<longleftrightarrow> (\<forall>n kek. env_parse env = Inr n \<longrightarrow>
     kek_from_recovery P code (slice SALT_OFF SALT_LEN env) = Inr kek \<longrightarrow>
     (\<forall>s \<in> set (blob_slots env n). slot_kind s \<noteq> KIND_RECOVERY \<longrightarrow> open_slot P kek s = None))"

text \<open>
  A recovery code gives the decryptor the data key exactly when it gives it to the main crate, and
  the same key, on every envelope none of whose other slots opens under the code's own key.
\<close>

lemma offline_open_agrees:
  assumes "recovery_slots_only P env code"
  shows "off_open_envelope P env code = Inr dek \<longleftrightarrow> open_with_recovery P env code = Inr dek"
proof (cases "env_parse env")
  case (Inl e)
  then have "\<nexists>d. off_open_envelope P env code = Inr d"
    by (auto simp: off_open_envelope_def env_parse_def off_constants body_len_def Let_def split: if_splits)
  then show ?thesis using Inl by (simp add: open_with_recovery_def)
next
  case (Inr n)
  then have p: "\<not> (length env < HEADER_LEN + MAC_LEN \<or> take 8 env \<noteq> ENV_MAGIC \<or> env ! 8 \<noteq> ENV_VERSION)" "unat (env ! 9) = n"
      "length env = body_len n + MAC_LEN"
    by (auto simp: env_parse_def Let_def split: if_splits)
  have room: "HEADER_LEN + i * SLOT_LEN + SLOT_LEN \<le> length env" if "i < n" for i
  proof -
    have "Suc i * SLOT_LEN \<le> n * SLOT_LEN" using that by (intro mult_right_mono) auto
    then show ?thesis using p(3) by (simp add: body_len_def)
  qed
  have kr: "kek_from_recovery P code (slice SALT_OFF SALT_LEN env)
      = of_option EKdf (argon2id P 19456 2 1 (to_upper P (remove_ws code)) (slice SALT_OFF SALT_LEN env))"
    by (simp add: kek_from_recovery_def recovery_argon2_def ARGON2_M_COST_def ARGON2_T_COST_def ARGON2_P_COST_def)
  have off: "off_open_envelope P env code = try_then (of_option OffKdf (argon2id P 19456 2 1 (to_upper P (remove_ws code))
      (slice SALT_OFF SALT_LEN env))) (\<lambda>kek. off_slots P env (body_len n) kek [0..<n])"
    using p by (simp add: off_open_envelope_def off_constants body_len_def Let_def)
  show ?thesis
  proof (cases "argon2id P 19456 2 1 (to_upper P (remove_ws code)) (slice SALT_OFF SALT_LEN env)")
    case None
    then show ?thesis by (simp add: off open_with_recovery_def Inr kr)
  next
    case (Some kek)
    have "\<forall>i \<in> set [0..<n]. env ! (HEADER_LEN + i * SLOT_LEN + 1) \<noteq> KIND_RECOVERY \<longrightarrow>
        open_slot P kek (slice (HEADER_LEN + i * SLOT_LEN) SLOT_LEN env) = None"
      using assms Inr Some kr room
      by (auto simp: recovery_slots_only_def blob_slots_def slot_kind_def nth_slice env_sizes)
    then show ?thesis using off_slots_agree [of "[0..<n]" env P kek n dek] room
      by (simp add: off Some open_with_recovery_def open_with_kek_def Inr kr blob_slots_def del: One_nat_def)
  qed
qed

text \<open>The envelope that travels, without the slots of devices, still opens under the code.\<close>

lemma strip_keeps_recovery:
  assumes "hash_ok P" and "open_with_recovery P blob code = Inr dek" and "recovery_slots_only P blob code"
    and "strip_kind P blob dek KIND_DEVICE = Inr blob'"
  shows "off_open_envelope P blob' code = Inr dek" and "blob' \<noteq> []"
proof -
  obtain n kek where n: "env_parse blob = Inr n" and k: "kek_from_recovery P code (slice SALT_OFF SALT_LEN blob) = Inr kek"
      and o: "open_with_kek P blob kek = Inr dek"
    using assms(2) by (auto simp: open_with_recovery_def try_then_Inr_iff)
  have ne: "KIND_RECOVERY \<noteq> KIND_DEVICE" by (simp add: kind_defs)
  have only: "\<forall>s \<in> set (blob_slots blob n). open_slot P kek s \<noteq> None \<longrightarrow> slot_kind s = KIND_RECOVERY"
    using assms(3) n k by (auto simp: recovery_slots_only_def)
  have o': "open_with_kek P blob' kek = Inr dek"
    using strip_kind_effect [OF assms(1) n, where dek = dek and k = KIND_DEVICE] assms(4) o only ne by auto
  obtain e m where e: "env_ok e" "length (e_slots e) = n" "n < 256" "length m = MAC_LEN" "blob = env_body e @ m"
    using n by (rule env_parse_Inr) blast
  let ?ks = "filter (\<lambda>s. slot_kind s \<noteq> KIND_DEVICE) (e_slots e)"
  consider "blob' = blob" | "blob' = env_blob P (e\<lparr>e_slots := ?ks\<rparr>) dek"
    using strip_kind_body [OF e(1) _ e(4), of P dek KIND_DEVICE] e assms(4) by (auto simp: Let_def split: if_splits)
  then have "slice SALT_OFF SALT_LEN blob' = slice SALT_OFF SALT_LEN blob
      \<and> (\<forall>n'. env_parse blob' = Inr n' \<longrightarrow> set (blob_slots blob' n') \<subseteq> set (blob_slots blob n))"
  proof cases
    case 1
    then show ?thesis using n by simp
  next
    case 2
    have ok: "env_ok (e\<lparr>e_slots := ?ks\<rparr>)" using env_ok_slots [OF e(1), of ?ks "e_gen e"] by simp
    have l: "length ?ks < 256" using e(2,3) length_filter_le [of _ "e_slots e"] le_less_trans by blast
    have p: "env_parse blob' = Inr (length ?ks)" using env_blob_parse [OF ok _ assms(1), of dek] l 2 by simp
    have s: "slice SALT_OFF SALT_LEN blob' = e_salt e" using salt_of_body [OF ok] 2 by (simp add: env_blob_body)
    have "blob_slots blob' (length ?ks) = ?ks" using blob_slots_body [OF ok] 2 by (simp add: env_blob_body)
    then show ?thesis using s p e by auto
  qed
  moreover from this have "open_with_recovery P blob' code = Inr dek"
    using o' k by (auto simp: open_with_recovery_def open_with_kek_def try_then_Inr_iff)
  moreover from calculation have "recovery_slots_only P blob' code"
    using k only unfolding recovery_slots_only_def by (metis (full_types) Inr_inject option.exhaust subsetD)
  ultimately show "off_open_envelope P blob' code = Inr dek" by (simp add: offline_open_agrees)
  show "blob' \<noteq> []" using o' by (auto simp: open_with_kek_def env_parse_def env_sizes ENV_MAGIC_def)
qed

section \<open>The same blocks\<close>

lemma off_keys: "db_cipher P dek u = db_key P dek u" "off_block_aad f u i = block_aad f u i" "off_file_id_for P name = file_id_for P name"
  by (simp_all add: db_cipher_def db_key_def from_info_def OFF_DB_KEY_LABEL_def off_block_aad_def block_aad_def off_constants
      off_file_id_for_def file_id_for_def)

lemma off_blocks_open:
  assumes "\<forall>k \<in> set ks. k * PHYS_BLOCK + PHYS_BLOCK \<le> length ct
    \<and> open_into P (db_key P dek u) (file_id_for P name) u (word_of_nat k) (slice (k * PHYS_BLOCK) PHYS_BLOCK ct) = Inr (g k)"
  shows "off_blocks P name ct (db_cipher P dek u) (off_file_id_for P name) u ks = Inr (concat (map g ks))"
  using assms by (induction ks) (auto simp: open_into_def off_constants off_keys Let_def of_option_Inr_iff split: if_splits)

lemma decrypt_db_file_open:
  assumes "length ct = n * PHYS_BLOCK"
    and "\<forall>k < n. open_into P (db_key P dek u) (file_id_for P name) u (word_of_nat k) (slice (k * PHYS_BLOCK) PHYS_BLOCK ct) = Inr (g k)"
  shows "decrypt_db_file P name ct dek u = Inr (concat (map g [0..<n]))"
proof -
  have "k * PHYS_BLOCK + PHYS_BLOCK \<le> length ct" if "k < n" for k
    using mult_le_mono1 [of "Suc k" n PHYS_BLOCK] that assms(1) by simp
  then have "off_blocks P name ct (db_cipher P dek u) (off_file_id_for P name) u [0..<n] = Inr (concat (map g [0..<n]))"
    using assms(2) by (intro off_blocks_open) auto
  moreover have "length ct mod OFF_PHYS_BLOCK = 0" "length ct div OFF_PHYS_BLOCK = n"
    using assms(1) by (simp_all add: off_sizes size_defs)
  ultimately show ?thesis by (simp add: decrypt_db_file_def)
qed

text \<open>The loop over the files returns one image per database, in order.\<close>

lemma recover_files_open:
  assumes "\<And>name ct. (name, ct) \<in> set fs \<Longrightarrow> ends_with name (ascii ''.db'') \<Longrightarrow>
      \<exists>man. find (\<lambda>(n, _). n = name @ OFF_MANIFEST_SUFFIX) all = Some (name @ OFF_MANIFEST_SUFFIX, man)
        \<and> 24 \<le> length man \<and> decrypt_db_file P name ct dek (slice 8 16 man) = Inr (img name)"
  shows "recover_files P dek all fs = Inr (map (\<lambda>n. (n, img n)) (filter (\<lambda>n. ends_with n (ascii ''.db'')) (map fst fs)))"
  using assms
proof (induction fs)
  case (Cons f fs)
  obtain name ct where f: "f = (name, ct)" by fastforce
  have ih: "recover_files P dek all fs = Inr (map (\<lambda>n. (n, img n)) (filter (\<lambda>n. ends_with n (ascii ''.db'')) (map fst fs)))"
    using Cons by auto
  show ?case
  proof (cases "ends_with name (ascii ''.db'')")
    case True
    then obtain man where "find (\<lambda>(n, _). n = name @ OFF_MANIFEST_SUFFIX) all = Some (name @ OFF_MANIFEST_SUFFIX, man)"
        "24 \<le> length man" "decrypt_db_file P name ct dek (slice 8 16 man) = Inr (img name)"
      using Cons.prems [of name ct] f by auto
    then show ?thesis using True ih f by (simp add: OFF_MANIFEST_MAGIC_LEN_def)
  qed (use ih f in simp)
qed simp

section \<open>Names and checksums\<close>

lemma off_emit_eq: "off_emit acc bits out = emit_symbols (Some RECOVERY_CHECK_LEN) acc bits out"
proof (induction acc bits out rule: off_emit.induct)
  case (1 acc bits out)
  then show ?case
    by (simp add: off_emit.simps [of acc bits out] emit_symbols.simps [of _ acc bits out] off_constants symbol_at_def)
qed

lemma off_checksum_loop_eq: "off_checksum_loop h acc bits out = checksum_loop h acc bits out"
  by (induction h arbitrary: acc bits out) (simp_all add: off_emit_eq off_constants push_byte_def Let_def split: prod.splits)

text \<open>The checksum that the decryptor warns with is the main crate's, on every code.\<close>

lemma offline_checksum_agrees: "off_verify_recovery_checksum P code = verify_recovery_checksum P code"
  by (simp add: off_verify_recovery_checksum_def verify_recovery_checksum_def recovery_canon_def off_recovery_checksum_def
      recovery_checksum_def off_checksum_loop_eq off_constants)

text \<open>
  The name of an output file cannot leave the output directory. Whatever name a bundle gives its
  database, the stem is not empty and is made of letters, digits, dash and underscore only, so no
  separator and no dot; and a name the pool itself allows keeps its stem.
\<close>

theorem safe_stem:
  "safe_output_stem name \<noteq> [] \<and> list_all stem_char (safe_output_stem name)
   \<and> set (safe_output_stem name) \<inter> {0x2F, 0x5C, 0x2E, 0} = {}
   \<and> (\<forall>s. s \<noteq> [] \<and> list_all stem_char s \<longrightarrow> safe_output_stem (s @ ascii ''.db'') = s)"
proof -
  have all: "list_all stem_char (safe_output_stem name)"
    by (auto simp: safe_output_stem_def Let_def list_all_iff stem_char_def)
  moreover have "\<not> stem_char 0x2F \<and> \<not> stem_char 0x5C \<and> \<not> stem_char 0x2E \<and> \<not> stem_char 0" by (simp add: stem_char_def)
  then have "set (safe_output_stem name) \<inter> {0x2F, 0x5C, 0x2E, 0} = {}" using all by (auto simp: list_all_iff)
  moreover have "safe_output_stem (s @ ascii ''.db'') = s" if "s \<noteq> []" "list_all stem_char s" for s
  proof -
    have "takeWhile (\<lambda>c. \<not> separator c) (rev s) = rev s"
      using that(2) by (auto simp: takeWhile_eq_all_conv list_all_iff stem_char_def separator_def dest!: bspec)
    then have "rev (takeWhile (\<lambda>c. \<not> separator c) (rev s)) = s" by (metis rev_rev_ident)
    moreover have "filter stem_char s = s" using that(2) by (simp add: list_all_iff)
    ultimately show ?thesis using that(1) unfolding safe_output_stem_def strip_suffix_append option.case Let_def by simp
  qed
  ultimately show ?thesis by (auto simp: safe_output_stem_def Let_def)
qed

theorem safe_stem_witness:
  "safe_output_stem (ascii ''app-2.db'') = ascii ''app-2'' \<and> safe_output_stem (ascii ''../../etc/passwd.db'') \<noteq> []"
proof -
  have "list_all stem_char (ascii ''app-2'')" "ascii ''app-2'' \<noteq> []" "ascii ''app-2.db'' = ascii ''app-2'' @ ascii ''.db''"
    by (simp_all add: ascii_def stem_char_def)
  then show ?thesis using safe_stem [of "ascii ''../../etc/passwd.db''"] by metis
qed

end
