(* ===== verification/Rotation.thy ===== *)
theory Rotation
  imports Open_Db
begin

text \<open>
  Rotation of the data key in \<open>crates/freehold/src/vfs.rs\<close>: every database is re-sealed block by
  block into shadow files, an intent record under the new key arms the recovery, and the next open
  either rolls forward onto the shadows or discards them. \<open>encode_rotation_intent\<close> and
  \<open>parse_rotation_intent\<close> are the record's format.
\<close>

definition ROT_INTENT_AAD :: bytes where "ROT_INTENT_AAD = ascii ''freehold-rotate-intent''"
definition ROT_INTENT_MAGIC :: bytes where "ROT_INTENT_MAGIC = ascii ''FRI2''"

section \<open>The intent record\<close>

fun encode_names :: "str list \<Rightarrow> pool_error + bytes" where
  "encode_names [] = Inr []"
| "encode_names (db # ds) =
     (if length db > 255 then Inl IntentName
      else try_then (encode_names ds) (\<lambda>b. Inr (word_of_nat (length db) # db @ b)))"

definition encode_rotation_intent :: "u64 \<Rightarrow> u64 \<Rightarrow> str list \<Rightarrow> anchor_entry list \<Rightarrow> pool_error + bytes" where
  "encode_rotation_intent old_gen new_gen db_names anchors =
     (if length db_names > 65535 \<or> length anchors > ANCHOR_CAP then Inl IntentTooLarge
      else try_then (encode_names db_names) (\<lambda>names.
        Inr (ROT_INTENT_MAGIC @ u64_le old_gen @ u64_le new_gen @ nat_le 2 (length db_names) @ names
          @ nat_le 2 (length anchors) @ concat (map anchor_entry_bytes anchors))))"

definition intent_u16 :: "bytes \<Rightarrow> nat \<Rightarrow> pool_error + (nat \<times> nat)" where
  "intent_u16 b at = (if at + 2 > length b then Inl IntentTruncated else Inr (le_nat (slice at 2 b), at + 2))"

fun parse_names :: "bytes \<Rightarrow> nat \<Rightarrow> nat \<Rightarrow> pool_error + (str list \<times> nat)" where
  "parse_names b 0 at = Inr ([], at)"
| "parse_names b (Suc n) at =
     (if at \<ge> length b then Inl IntentTruncated
      else let len = unat (b ! at); at = at + 1 in
        if at + len > length b then Inl IntentName
        else (case from_utf8 (slice at len b) of
          None \<Rightarrow> Inl IntentName
        | Some name \<Rightarrow> try_then (parse_names b n (at + len)) (\<lambda>(names, at). Inr (name # names, at))))"

fun parse_anchors :: "bytes \<Rightarrow> nat \<Rightarrow> nat \<Rightarrow> pool_error + anchor_entry list" where
  "parse_anchors b 0 at = Inr []"
| "parse_anchors b (Suc n) at =
     (if at + 40 > length b then Inl IntentTruncated
      else try_then (parse_anchors b n (at + 40)) (\<lambda>es. Inr (read_anchor_entry (slice at 40 b) # es)))"

definition parse_rotation_intent :: "bytes \<Rightarrow> pool_error + (str list \<times> anchor_entry list)" where
  "parse_rotation_intent plain =
     (if length plain < 4 \<or> slice 0 4 plain \<noteq> ROT_INTENT_MAGIC then Inl IntentMagic
      else if 4 + 16 > length plain then Inl IntentTruncated
      else
        try_then (intent_u16 plain 20) (\<lambda>(n_names, at).
        try_then (parse_names plain n_names at) (\<lambda>(names, at).
        try_then (intent_u16 plain at) (\<lambda>(n_anchors, at).
          if n_anchors > ANCHOR_CAP then Inl IntentAnchors
          else try_then (parse_anchors plain n_anchors at) (\<lambda>anchors. Inr (names, anchors))))))"

section \<open>Re-sealing\<close>

fun reseal_blocks ::
  "'z prims_scheme \<Rightarrow> crypto \<Rightarrow> crypto \<Rightarrow> bytes \<Rightarrow> bytes \<Rightarrow> bytes \<Rightarrow> nat list \<Rightarrow> rng \<Rightarrow> (pool_error + bytes) \<times> rng" where
  "reseal_blocks E old_k new_k fid u raw [] r = (Inr [], r)"
| "reseal_blocks E old_k new_k fid u raw (k # ks) r =
     (case open_into E old_k fid u (word_of_nat k) (slice (k * PHYS_BLOCK) PHYS_BLOCK raw) of
        Inl _ \<Rightarrow> (Inl (ResealBlock k), r)
      | Inr plain \<Rightarrow>
        (case seal_into E new_k fid u (word_of_nat k) plain r of
           (Inl _, r) \<Rightarrow> (Inl (ResealBlock k), r)
         | (Inr block, r) \<Rightarrow>
             st_then (reseal_blocks E old_k new_k fid u raw ks r) (\<lambda>out r. (Inr (block @ out), r))))"

text \<open>The slots of a manifest: one that does not authenticate is copied as it is.\<close>

function reseal_slots ::
  "'z prims_scheme \<Rightarrow> crypto \<Rightarrow> crypto \<Rightarrow> bytes \<Rightarrow> bytes \<Rightarrow> bytes \<Rightarrow> nat \<Rightarrow> rng \<Rightarrow> (pool_error + bytes) \<times> rng" where
  "reseal_slots E old_k new_k fid u raw slot r =
     (let at = MANIFEST_HDR_LEN + slot * PHYS_BLOCK in
      if at + PHYS_BLOCK > length raw then (Inr [], r)
      else
        let sealed = slice at PHYS_BLOCK raw in
        (case open_into E old_k fid u (word_of_nat slot) sealed of
           Inl _ \<Rightarrow> st_then (reseal_slots E old_k new_k fid u raw (slot + 1) r) (\<lambda>out r. (Inr (sealed @ out), r))
         | Inr plain \<Rightarrow>
             (case seal_into E new_k fid u (word_of_nat slot) plain r of
                (Inl _, r) \<Rightarrow> (Inl (ResealBlock slot), r)
              | (Inr block, r) \<Rightarrow>
                  st_then (reseal_slots E old_k new_k fid u raw (slot + 1) r) (\<lambda>out r. (Inr (block @ out), r)))))"
  by pat_completeness auto
termination
  by (relation "measure (\<lambda>(_, _, _, _, _, raw, slot, _). length raw - slot * PHYS_BLOCK)")
    (auto simp: PHYS_BLOCK_def BLOCK_SIZE_def NONCE_LEN_def TAG_LEN_def)

declare reseal_slots.simps [simp del]

definition reseal_db_ciphertext ::
  "('h, 'z) env_scheme \<Rightarrow> str \<Rightarrow> bytes \<Rightarrow> 'h pool \<Rightarrow> ('h, (str \<times> bytes) list) pool_result" where
  "reseal_db_ciphertext E db new_dek p =
     (case export_raw E (manifest_name db) p of
        Inl e \<Rightarrow> (Inl e, p)
      | Inr m_raw \<Rightarrow>
        if length m_raw < 24 \<or> slice 0 8 m_raw \<noteq> MANIFEST_MAGIC then (Inl ResealHeader, p)
        else
          let u = slice 8 16 m_raw; old_k = db_key E (dek p) u; new_k = db_key E new_dek u in
          st_then
            (if has_filename p db then
               (case export_raw E db p of
                  Inl e \<Rightarrow> (Inl e, p)
                | Inr raw \<Rightarrow>
                  (case reseal_blocks E old_k new_k (file_id_for E db) u raw [0..<length raw div PHYS_BLOCK] (p_rng p) of
                     (r, rng) \<Rightarrow> (map_sum id (\<lambda>b. [(db, b)]) r, p\<lparr>p_rng := rng\<rparr>)))
             else (Inr [], p))
            (\<lambda>out p.
               if length m_raw < MANIFEST_HDR_LEN then (Inl ManifestPanic, p)
               else (case reseal_slots E old_k new_k (file_id_for E (manifest_name db)) u m_raw 0 (p_rng p) of
                 (r, rng) \<Rightarrow> (map_sum id (\<lambda>b. out @ [(manifest_name db, take MANIFEST_HDR_LEN m_raw @ b)]) r,
                   p\<lparr>p_rng := rng\<rparr>))))"

section \<open>Staging and recovery\<close>

fun import_shadows :: "('h, 'z) env_scheme \<Rightarrow> (str \<times> bytes) list \<Rightarrow> 'h pool \<Rightarrow> ('h, unit) pool_result" where
  "import_shadows E [] p = (Inr (), p)"
| "import_shadows E ((n, b) # fs) p =
     st_then (import_ciphertext_file E (shadow_name n) b p) (\<lambda>_ p. import_shadows E fs p)"

fun stage_dbs :: "('h, 'z) env_scheme \<Rightarrow> bytes \<Rightarrow> str list \<Rightarrow> 'h pool \<Rightarrow> ('h, unit) pool_result" where
  "stage_dbs E new_dek [] p = (Inr (), p)"
| "stage_dbs E new_dek (db # ds) p =
     st_then (reseal_db_ciphertext E db new_dek p) (\<lambda>fs p.
     st_then (import_shadows E fs p) (\<lambda>_ p. stage_dbs E new_dek ds p))"

definition stage_rotation ::
  "('h, 'z) env_scheme \<Rightarrow> bytes \<Rightarrow> str list \<Rightarrow> u64 \<Rightarrow> u64 \<Rightarrow> 'h pool \<Rightarrow> ('h, unit) pool_result" where
  "stage_rotation E new_dek db_names old_gen new_gen p =
     st_then (stage_dbs E new_dek db_names p) (\<lambda>_ p.
       case encode_rotation_intent old_gen new_gen db_names (snd (anchor_load E p)) of
         Inl e \<Rightarrow> (Inl e, p)
       | Inr plain \<Rightarrow>
         (case seal_bytes E (rotate_intent_key E new_dek) ROT_INTENT_AAD plain (p_rng p) of
            (Inl e, rng) \<Rightarrow> (Inl (PCrypto e), p\<lparr>p_rng := rng\<rparr>)
          | (Inr sealed, rng) \<Rightarrow> import_ciphertext_file E ROT_INTENT_NAME sealed (p\<lparr>p_rng := rng\<rparr>)))"

text \<open>One file of the roll-forward: the live file becomes the shadow, which is then dropped.\<close>

definition roll_file :: "('h, 'z) env_scheme \<Rightarrow> str \<Rightarrow> 'h pool \<Rightarrow> ('h, unit) pool_result" where
  "roll_file E n p =
     (if has_filename p (shadow_name n) then
        (case export_raw E (shadow_name n) p of
           Inl e \<Rightarrow> (Inl e, p)
         | Inr b \<Rightarrow> st_then (import_ciphertext_file E n b p) (\<lambda>_ p. (Inr (), snd (delete_file E (shadow_name n) p))))
      else (Inr (), p))"

fun roll_files :: "('h, 'z) env_scheme \<Rightarrow> str list \<Rightarrow> 'h pool \<Rightarrow> ('h, unit) pool_result" where
  "roll_files E [] p = (Inr (), p)"
| "roll_files E (n # ns) p = st_then (roll_file E n p) (\<lambda>_ p. roll_files E ns p)"

fun carry_anchors :: "('h, 'z) env_scheme \<Rightarrow> anchor_entry list \<Rightarrow> 'h pool \<Rightarrow> ('h, unit) pool_result" where
  "carry_anchors E [] p = (Inr (), p)"
| "carry_anchors E (e # es) p =
     st_then (anchor_record_full E (uuid e) (Some (committed e)) (Some (in_flight e))
         (if epoch_floor e > 0 then Some (epoch_floor e) else None) p)
       (\<lambda>_ p. carry_anchors E es p)"

fun delete_files :: "('h, 'z) env_scheme \<Rightarrow> str list \<Rightarrow> 'h pool \<Rightarrow> 'h pool" where
  "delete_files E [] p = p"
| "delete_files E (n # ns) p = delete_files E ns (snd (delete_file E n p))"

definition discard_rotation_staging :: "('h, 'z) env_scheme \<Rightarrow> 'h pool \<Rightarrow> 'h pool" where
  "discard_rotation_staging E p =
     delete_files E (filter (\<lambda>n. ends_with n ROT_SHADOW_SUFFIX \<or> n = ROT_INTENT_NAME) (get_filenames p)) p"

datatype recovery = NothingStaged | RolledForward nat nat | RolledBack

definition recover_rotation :: "('h, 'z) env_scheme \<Rightarrow> 'h pool \<Rightarrow> ('h, recovery) pool_result" where
  "recover_rotation E p =
     (if \<not> has_filename p ROT_INTENT_NAME then (Inr NothingStaged, p)
      else case export_raw E ROT_INTENT_NAME p of
        Inl e \<Rightarrow> (Inl e, p)
      | Inr sealed \<Rightarrow>
        (case open_bytes E (rotate_intent_key E (dek p)) ROT_INTENT_AAD sealed of
           Inl _ \<Rightarrow> (Inr RolledBack, discard_rotation_staging E p)
         | Inr plain \<Rightarrow>
           (case parse_rotation_intent plain of
              Inl e \<Rightarrow> (Inl e, p)
            | Inr (db_names, anchors) \<Rightarrow>
              st_then (roll_files E (concat (map (\<lambda>db. [db, manifest_name db]) db_names)) p) (\<lambda>_ p.
              st_then (carry_anchors E anchors p) (\<lambda>_ p.
                (Inr (RolledForward (length db_names) (length anchors)), snd (delete_file E ROT_INTENT_NAME p)))))))"

section \<open>The format of the intent record\<close>

definition intent_ok :: "str list \<times> anchor_entry list \<Rightarrow> bool" where
  "intent_ok x \<longleftrightarrow> length (fst x) \<le> 65535 \<and> list_all (\<lambda>n. length n \<le> 255 \<and> utf8_valid n) (fst x) \<and> anchor_wf (0, snd x)"

lemma parse_names_encode:
  "encode_names ns = Inr nb \<Longrightarrow> list_all utf8_valid ns \<Longrightarrow>
   parse_names (pre @ nb @ post) (length ns) (length pre) = Inr (ns, length pre + length nb)"
proof (induction ns arbitrary: nb pre)
  case Nil
  then show ?case by simp
next
  case (Cons n ns)
  obtain b where b: "encode_names ns = Inr b" "nb = word_of_nat (length n) # n @ b" "length n \<le> 255"
    using Cons.prems(1) by (auto simp: result_simps split: if_splits)
  let ?x = "word_of_nat (length n) :: byte"
  have x: "unat ?x = length n" using b(3) by (simp add: unsigned_of_nat take_bit_nat_eq_self)
  have u: "utf8_valid n" using Cons.prems(2) by simp
  have nth: "(pre @ nb @ post) ! length pre = ?x" by (simp add: b(2))
  have sl: "slice (length pre + 1) (length n) (pre @ nb @ post) = n" by (simp add: b(2) slice_def)
  have "parse_names ((pre @ ?x # n) @ b @ post) (length ns) (length (pre @ ?x # n)) = Inr (ns, length (pre @ ?x # n) + length b)"
    using Cons.IH [OF b(1), of "pre @ ?x # n"] Cons.prems(2) by simp
  then have "parse_names (pre @ nb @ post) (length ns) (length pre + 1 + length n) = Inr (ns, length pre + length nb)"
    by (simp add: b(2))
  then show ?case using u nth sl x by (simp add: Let_def from_utf8_def) (simp add: b(2))
qed

lemma encode_names_ok: "list_all (\<lambda>n. length n \<le> 255) ns \<Longrightarrow> \<exists>b. encode_names ns = Inr b"
  by (induction ns) auto

lemma parse_anchors_encode:
  "list_all entry_wf es \<Longrightarrow> parse_anchors (pre @ concat (map anchor_entry_bytes es)) (length es) (length pre) = Inr es"
proof (induction es arbitrary: pre)
  case Nil
  then show ?case by simp
next
  case (Cons e es)
  have le: "length (anchor_entry_bytes e) = 40"
    using Cons.prems length_anchor_entry_bytes [of e] by (simp add: ANCHOR_ENTRY_SIZE_def)
  let ?b = "pre @ concat (map anchor_entry_bytes (e # es))"
  have sl: "slice (length pre) 40 ?b = anchor_entry_bytes e" using le by (simp add: slice_def)
  have "parse_anchors ((pre @ anchor_entry_bytes e) @ concat (map anchor_entry_bytes es)) (length es)
      (length (pre @ anchor_entry_bytes e)) = Inr es"
    using Cons.prems by (intro Cons.IH) simp
  then have "parse_anchors ?b (length es) (length pre + 40) = Inr es" using le by simp
  moreover have "read_anchor_entry (anchor_entry_bytes e) = e" using Cons.prems by (simp add: read_anchor_entry_bytes)
  ultimately show ?case using sl le by simp
qed

definition intent_bytes :: "u64 \<Rightarrow> u64 \<Rightarrow> str list \<times> anchor_entry list \<Rightarrow> bytes" where
  "intent_bytes og ng x = (case encode_rotation_intent og ng (fst x) (snd x) of Inr b \<Rightarrow> b | Inl _ \<Rightarrow> [])"

definition parse_intent_opt :: "bytes \<Rightarrow> (str list \<times> anchor_entry list) option" where
  "parse_intent_opt b = (case parse_rotation_intent b of Inr x \<Rightarrow> Some x | Inl _ \<Rightarrow> None)"

lemma intent_roundtrip_eq:
  assumes "intent_ok (names, anchors)"
  shows "\<exists>b. encode_rotation_intent og ng names anchors = Inr b \<and> parse_rotation_intent b = Inr (names, anchors)"
proof -
  have n: "length names \<le> 65535" "list_all (\<lambda>n. length n \<le> 255) names" "list_all utf8_valid names"
    and a: "length anchors \<le> ANCHOR_CAP" "list_all entry_wf anchors"
    using assms by (auto simp: intent_ok_def anchor_wf_def list_all_iff)
  obtain nb where nb: "encode_names names = Inr nb" using encode_names_ok [OF n(2)] by blast
  let ?h = "ROT_INTENT_MAGIC @ u64_le og @ u64_le ng"
  let ?t = "nat_le 2 (length anchors) @ concat (map anchor_entry_bytes anchors)"
  let ?b = "?h @ nat_le 2 (length names) @ nb @ ?t"
  have e: "encode_rotation_intent og ng names anchors = Inr ?b"
    using n(1) a(1) nb by (simp add: encode_rotation_intent_def)
  have lm: "length ROT_INTENT_MAGIC = 4" by (simp add: ROT_INTENT_MAGIC_def)
  then have lh: "length ?h = 20" by simp
  have m: "slice 0 4 ?b = ROT_INTENT_MAGIC" using lm by (simp add: slice_def)
  have c1: "intent_u16 ?b 20 = Inr (length names, 22)"
  proof -
    have "slice 20 2 ?b = nat_le 2 (length names)" using lh by (simp add: slice_def)
    then show ?thesis using lm n(1) by (simp add: intent_u16_def)
  qed
  have c2: "parse_names ?b (length names) 22 = Inr (names, 22 + length nb)"
    using parse_names_encode [OF nb n(3), of "?h @ nat_le 2 (length names)" ?t] lm by simp
  have cap: "ANCHOR_CAP < 65536" by (simp add: manifest_sizes)
  have c3: "intent_u16 ?b (22 + length nb) = Inr (length anchors, 24 + length nb)"
  proof -
    have "slice (22 + length nb) 2 ?b = nat_le 2 (length anchors)" using lm by (simp add: slice_def)
    then show ?thesis using lm a(1) cap by (simp add: intent_u16_def)
  qed
  have c4: "parse_anchors ?b (length anchors) (24 + length nb) = Inr anchors"
    using parse_anchors_encode [OF a(2), of "?h @ nat_le 2 (length names) @ nb @ nat_le 2 (length anchors)"] lm by simp
  have "parse_rotation_intent ?b = Inr (names, anchors)"
    unfolding parse_rotation_intent_def m c1 try_then.simps prod.case c2 c3 c4 using lm a(1) by simp
  then show ?thesis using e by blast
qed

interpretation intent: codec "intent_bytes og ng" parse_intent_opt intent_ok for og ng
proof
  fix x assume "intent_ok x"
  then show "parse_intent_opt (intent_bytes og ng x) = Some x"
    using intent_roundtrip_eq [of "fst x" "snd x" og ng] by (auto simp: intent_bytes_def parse_intent_opt_def)
qed

text \<open>
  The rotation intent survives its encoding: for every list of up to 65535 names of at most
  255 bytes and every anchor table of a loaded anchor, the record is accepted by the encoder, and
  the parser reads back the same names and the same entries; two intents with equal records are equal.
\<close>

theorem intent_roundtrip:
  assumes "intent_ok (names, anchors)"
  shows "\<exists>b. encode_rotation_intent og ng names anchors = Inr b \<and> parse_rotation_intent b = Inr (names, anchors)
    \<and> (\<forall>names' anchors' og' ng'. intent_ok (names', anchors') \<and> encode_rotation_intent og' ng' names' anchors' = Inr b
        \<longrightarrow> names' = names \<and> anchors' = anchors)"
proof -
  obtain b where b: "encode_rotation_intent og ng names anchors = Inr b" "parse_rotation_intent b = Inr (names, anchors)"
    using intent_roundtrip_eq [OF assms] by blast
  have "names' = names \<and> anchors' = anchors"
    if "intent_ok (names', anchors')" "encode_rotation_intent og' ng' names' anchors' = Inr b" for names' anchors' og' ng'
    using intent_roundtrip_eq [OF that(1), of og' ng'] that(2) b by simp
  then show ?thesis using b by blast
qed

theorem intent_roundtrip_witness:
  "\<exists>b. encode_rotation_intent 3 4 [[97, 98]] [\<lparr>uuid = replicate 16 1, committed = 5, in_flight = 5, epoch_floor = 2\<rparr>] = Inr b
    \<and> parse_rotation_intent b = Inr ([[97, 98]], [\<lparr>uuid = replicate 16 1, committed = 5, in_flight = 5, epoch_floor = 2\<rparr>])"
proof -
  have "utf8_valid [97, 98]" by (rule utf8_valid_ascii) auto
  then have "intent_ok ([[97, 98]], [\<lparr>uuid = replicate 16 1, committed = 5, in_flight = 5, epoch_floor = 2\<rparr>])"
    by (simp add: intent_ok_def anchor_wf_def entry_wf_def manifest_sizes)
  from intent_roundtrip [OF this] show ?thesis by blast
qed

end
