(* ===== verification/Rotation_Recovery.thy ===== *)
theory Rotation_Recovery
  imports Rotation
begin

text \<open>
  What a rotation of the data key guarantees: re-sealing keeps every plaintext, staging leaves the
  live files alone, and the recovery at the next open either completes the swap or undoes it.
\<close>

section \<open>Re-sealing keeps every plaintext\<close>

text \<open>Two blocks hold the same plaintext, each under its own key.\<close>

definition rekeyed :: "'z prims_scheme \<Rightarrow> crypto \<Rightarrow> crypto \<Rightarrow> bytes \<Rightarrow> bytes \<Rightarrow> nat \<Rightarrow> bytes \<Rightarrow> bytes \<Rightarrow> bool" where
  "rekeyed E old_k new_k fid u k b b' \<longleftrightarrow>
     (\<exists>plain. open_into E old_k fid u (word_of_nat k) b = Inr plain \<and> open_into E new_k fid u (word_of_nat k) b' = Inr plain)"

lemma seal_rekeyed:
  assumes "key_ok (E, old_k)" and "key_ok (E, new_k)" and "open_into E old_k fid u (word_of_nat k) b = Inr plain"
    and "seal_into E new_k fid u (word_of_nat k) plain r = (Inr block, r')"
  shows "rekeyed E old_k new_k fid u k b block" and "length block = PHYS_BLOCK"
proof -
  have l: "length plain = BLOCK_SIZE" using open_into_length [OF assms(1,3)] by simp
  show "rekeyed E old_k new_k fid u k b block" and "length block = PHYS_BLOCK"
    using block_box.seal_Inr(1,2) [of "(E, new_k)" plain "(fid, u, word_of_nat k)" r block r'] assms l
    by (simp_all add: rekeyed_def PHYS_BLOCK_def)
qed

lemma slice_block: "length b = n \<Longrightarrow> slice 0 n (b @ out) = b" "length b = n \<Longrightarrow> slice (Suc i * n) n (b @ out) = slice (i * n) n out"
  by (simp_all add: slice_def)

lemma reseal_blocks_spec:
  assumes "key_ok (E, old_k)" and "key_ok (E, new_k)"
  shows "reseal_blocks E old_k new_k fid u raw ks r = (Inr out, r') \<Longrightarrow>
    length out = length ks * PHYS_BLOCK
    \<and> (\<forall>i < length ks. rekeyed E old_k new_k fid u (ks ! i) (slice (ks ! i * PHYS_BLOCK) PHYS_BLOCK raw) (slice (i * PHYS_BLOCK) PHYS_BLOCK out))"
proof (induction ks arbitrary: r out r')
  case Nil
  then show ?case by simp
next
  case (Cons k ks)
  obtain plain block r1 o1 where o: "open_into E old_k fid u (word_of_nat k) (slice (k * PHYS_BLOCK) PHYS_BLOCK raw) = Inr plain"
    and s: "seal_into E new_k fid u (word_of_nat k) plain r = (Inr block, r1)"
    and rest: "reseal_blocks E old_k new_k fid u raw ks r1 = (Inr o1, r')" and out: "out = block @ o1"
    using Cons.prems by (fastforce simp: st_then_Inr_iff split: sum.splits prod.splits)
  note b = seal_rekeyed [OF assms o s]
  have IH: "length o1 = length ks * PHYS_BLOCK"
    "i < length ks \<Longrightarrow> rekeyed E old_k new_k fid u (ks ! i) (slice (ks ! i * PHYS_BLOCK) PHYS_BLOCK raw) (slice (i * PHYS_BLOCK) PHYS_BLOCK o1)" for i
    using Cons.IH [OF rest] by auto
  have "rekeyed E old_k new_k fid u ((k # ks) ! i) (slice ((k # ks) ! i * PHYS_BLOCK) PHYS_BLOCK raw) (slice (i * PHYS_BLOCK) PHYS_BLOCK out)"
    if i: "i < length (k # ks)" for i
  proof (cases i)
    case 0
    then show ?thesis using b slice_block(1) [OF b(2)] by (simp add: out)
  next
    case (Suc j)
    then show ?thesis using IH(2) [of j] i slice_block(2) [OF b(2), of j o1] by (simp add: out)
  qed
  then show ?case using IH(1) b(2) by (simp add: out)
qed

text \<open>Slot \<open>j\<close> of the output, counted from the first re-sealed one.\<close>

lemma reseal_slots_spec:
  assumes "key_ok (E, old_k)" and "key_ok (E, new_k)"
  shows "reseal_slots E old_k new_k fid u raw slot r = (Inr out, r') \<Longrightarrow>
    (\<exists>n. length out = n * PHYS_BLOCK \<and> (n = 0 \<or> MANIFEST_HDR_LEN + (slot + n) * PHYS_BLOCK \<le> length raw)
      \<and> length raw < MANIFEST_HDR_LEN + (slot + n) * PHYS_BLOCK + PHYS_BLOCK
      \<and> (\<forall>j < n. let b = slice (MANIFEST_HDR_LEN + (slot + j) * PHYS_BLOCK) PHYS_BLOCK raw; b' = slice (j * PHYS_BLOCK) PHYS_BLOCK out
           in rekeyed E old_k new_k fid u (slot + j) b b' \<or> \<not> is_ok (open_into E old_k fid u (word_of_nat (slot + j)) b) \<and> b' = b))"
proof (induction "length raw - slot * PHYS_BLOCK" arbitrary: slot r out r' rule: less_induct)
  case less
  let ?at = "MANIFEST_HDR_LEN + slot * PHYS_BLOCK"
  let ?b = "slice ?at PHYS_BLOCK raw"
  show ?case
  proof (cases "?at + PHYS_BLOCK > length raw")
    case True
    then have "out = []" using less.prems by (subst (asm) reseal_slots.simps) simp
    then show ?thesis using True by (intro exI [of _ 0]) simp
  next
    case False
    have pos: "0 < PHYS_BLOCK" by (simp add: size_defs)
    have lt: "length raw - (slot + 1) * PHYS_BLOCK < length raw - slot * PHYS_BLOCK"
      using False pos by (simp add: diff_less_mono2)
    obtain block o1 r1 where out: "out = block @ o1" and rest: "reseal_slots E old_k new_k fid u raw (slot + 1) r1 = (Inr o1, r')"
      and lb: "length block = PHYS_BLOCK"
      and b: "rekeyed E old_k new_k fid u slot ?b block \<or> \<not> is_ok (open_into E old_k fid u (word_of_nat slot) ?b) \<and> block = ?b"
    proof (cases "open_into E old_k fid u (word_of_nat slot) ?b")
      case (Inl e)
      have lb: "length ?b = PHYS_BLOCK" using False by simp
      from Inl less.prems False obtain o1 where "out = ?b @ o1" "reseal_slots E old_k new_k fid u raw (slot + 1) r = (Inr o1, r')"
        by (subst (asm) reseal_slots.simps) (fastforce simp: Let_def st_then_Inr_iff)
      then show ?thesis using that [of ?b o1 r] lb Inl by simp
    next
      case (Inr plain)
      from Inr less.prems False obtain block r1 o1 where s: "seal_into E new_k fid u (word_of_nat slot) plain r = (Inr block, r1)"
        and o: "out = block @ o1" "reseal_slots E old_k new_k fid u raw (slot + 1) r1 = (Inr o1, r')"
        by (subst (asm) reseal_slots.simps) (fastforce simp: Let_def st_then_Inr_iff split: sum.splits prod.splits)
      then show ?thesis using that [of block o1 r1] seal_rekeyed [OF assms Inr s] by simp
    qed
    obtain n where n: "length o1 = n * PHYS_BLOCK" "n = 0 \<or> MANIFEST_HDR_LEN + (slot + 1 + n) * PHYS_BLOCK \<le> length raw"
      "length raw < MANIFEST_HDR_LEN + (slot + 1 + n) * PHYS_BLOCK + PHYS_BLOCK"
      and J: "\<And>j. j < n \<Longrightarrow> let b = slice (MANIFEST_HDR_LEN + (slot + 1 + j) * PHYS_BLOCK) PHYS_BLOCK raw; b' = slice (j * PHYS_BLOCK) PHYS_BLOCK o1
           in rekeyed E old_k new_k fid u (slot + 1 + j) b b' \<or> \<not> is_ok (open_into E old_k fid u (word_of_nat (slot + 1 + j)) b) \<and> b' = b"
      using less.hyps [OF lt rest] by blast
    have all: "let b = slice (MANIFEST_HDR_LEN + (slot + j) * PHYS_BLOCK) PHYS_BLOCK raw; b' = slice (j * PHYS_BLOCK) PHYS_BLOCK out
           in rekeyed E old_k new_k fid u (slot + j) b b' \<or> \<not> is_ok (open_into E old_k fid u (word_of_nat (slot + j)) b) \<and> b' = b"
      if j: "j < Suc n" for j
    proof (cases j)
      case 0
      then show ?thesis using b slice_block(1) [OF lb, of o1] by (simp add: out)
    next
      case (Suc i)
      then show ?thesis using J [of i] j slice_block(2) [OF lb, of i o1] by (simp add: out)
    qed
    show ?thesis
      using n False lb all by (intro exI [of _ "Suc n"]) (auto simp: out)
  qed
qed

text \<open>
  Re-sealing a closed database for a new data key changes the keys and nothing else: every
  block of the main file, at its index, and every slot of the manifest opens under the new key to
  the plaintext it had under the old one, a slot that did not authenticate is copied byte for byte,
  the plaintext header is kept, and no file of the pool is touched.
\<close>

theorem reseal_rekeys:
  assumes "pool_inv E c p" and "aead_ok E" and "hash_ok E"
    and "stored c p db = Some raw" and "stored c p (manifest_name db) = Some m" and "u = slice 8 16 m"
    and "reseal_db_ciphertext E db nk p = (Inr fs, p')"
  shows "\<exists>out mo. fs = [(db, out), (manifest_name db, mo)] \<and> stored c p' = stored c p
    \<and> length out = length raw div PHYS_BLOCK * PHYS_BLOCK
    \<and> (\<forall>k < length raw div PHYS_BLOCK. rekeyed E (db_key E (dek p) u) (db_key E nk u) (file_id_for E db) u k
          (slice (k * PHYS_BLOCK) PHYS_BLOCK raw) (slice (k * PHYS_BLOCK) PHYS_BLOCK out))
    \<and> take MANIFEST_HDR_LEN mo = take MANIFEST_HDR_LEN m
    \<and> (\<forall>k. MANIFEST_HDR_LEN + k * PHYS_BLOCK + PHYS_BLOCK \<le> length m \<longrightarrow>
          (let b = slice (MANIFEST_HDR_LEN + k * PHYS_BLOCK) PHYS_BLOCK m; b' = slice (MANIFEST_HDR_LEN + k * PHYS_BLOCK) PHYS_BLOCK mo
           in rekeyed E (db_key E (dek p) u) (db_key E nk u) (file_id_for E (manifest_name db)) u k b b'
             \<or> \<not> is_ok (open_into E (db_key E (dek p) u) (file_id_for E (manifest_name db)) u (word_of_nat k) b) \<and> b' = b))"
proof -
  let ?ok = "db_key E (dek p) u" and ?nk = "db_key E nk u" and ?P = PHYS_BLOCK and ?H = MANIFEST_HDR_LEN
  have k: "key_ok (E, ?ok)" "key_ok (E, ?nk)" using assms(2,3) by (simp_all add: key_ok_def len_simps)
  have x: "export_raw E (manifest_name db) p = Inr m" "export_raw E db p = Inr raw" "has_filename p db"
    using export_effect [OF assms(1)] assms(4,5) by (simp_all add: has_filename_stored [of _ _ c])
  obtain rb r1 where rb: "reseal_blocks E ?ok ?nk (file_id_for E db) u raw [0..<length raw div ?P] (p_rng p) = (rb, r1)"
    by fastforce
  have e: "st_then (map_sum id (\<lambda>b. [(db, b)]) rb, p\<lparr>p_rng := r1\<rparr>)
            (\<lambda>out p. if length m < ?H then (Inl ManifestPanic, p)
               else (case reseal_slots E ?ok ?nk (file_id_for E (manifest_name db)) u m 0 (p_rng p) of
                 (r, rng) \<Rightarrow> (map_sum id (\<lambda>b. out @ [(manifest_name db, take ?H m @ b)]) r, p\<lparr>p_rng := rng\<rparr>))) = (Inr fs, p')"
    using x rb assms(7) by (simp add: reseal_db_ciphertext_def Let_def flip: assms(6) split: if_splits)
  then obtain out where o': "rb = Inr out" by (cases rb) simp_all
  then have o: "reseal_blocks E ?ok ?nk (file_id_for E db) u raw [0..<length raw div ?P] (p_rng p) = (Inr out, r1)" using rb by simp
  obtain rs r2 where rs: "reseal_slots E ?ok ?nk (file_id_for E (manifest_name db)) u m 0 r1 = (rs, r2)" by fastforce
  have lm: "?H \<le> length m" and e2: "(map_sum id (\<lambda>b. [(db, out), (manifest_name db, take ?H m @ b)]) rs, p\<lparr>p_rng := r2\<rparr>) = (Inr fs, p')"
    using e o' rs by (auto split: if_splits)
  from e2 obtain mo where mo': "rs = Inr mo" by (cases rs) simp_all
  with rs e2 have mo: "reseal_slots E ?ok ?nk (file_id_for E (manifest_name db)) u m 0 r1 = (Inr mo, r2)"
    and fs: "fs = [(db, out), (manifest_name db, take ?H m @ mo)]" and p': "p' = p\<lparr>p_rng := r2\<rparr>" by simp_all
  note b = reseal_blocks_spec [OF k o]
  obtain n where n: "length m < ?H + n * ?P + ?P"
    and J: "\<And>j. j < n \<Longrightarrow> let b = slice (?H + j * ?P) ?P m; b' = slice (j * ?P) ?P mo
       in rekeyed E ?ok ?nk (file_id_for E (manifest_name db)) u j b b'
        \<or> \<not> is_ok (open_into E ?ok (file_id_for E (manifest_name db)) u (word_of_nat j) b) \<and> b' = b"
    using reseal_slots_spec [OF k mo] by auto
  have sl: "slice (?H + j * ?P) ?P (take ?H m @ mo) = slice (j * ?P) ?P mo" for j
    using lm by (simp add: slice_def)
  have lt: "j < n" if "?H + j * ?P + ?P \<le> length m" for j
  proof -
    have "\<not> n * ?P \<le> j * ?P" using n that by linarith
    then show ?thesis using mult_le_mono1 [of n j ?P] by linarith
  qed
  show ?thesis
    using b J lt fs p' lm by (intro exI [of _ out] exI [of _ "take ?H m @ mo"]) (simp add: sl)
qed

section \<open>Rolling forward\<close>

lemma anchor_rest:
  assumes "pool_rest p' = pool_rest p"
  shows "anchor_inv E c p' = anchor_inv E c p" and "anchor_load E p' = anchor_load E p" and "p_rng p' = p_rng p" and "dek p' = dek p"
  using assms by (simp_all add: pool_rest_def anchor_inv_def healthy_def anchor_bytes_def anchor_load_def cong: option.case_cong)

definition roll_one :: "str \<Rightarrow> (str \<rightharpoonup> bytes) \<Rightarrow> (str \<rightharpoonup> bytes)" where
  "roll_one n m = (case m (shadow_name n) of None \<Rightarrow> m | Some b \<Rightarrow> (m(n \<mapsto> b))(shadow_name n := None))"

definition sizes_ok :: "(str \<rightharpoonup> bytes) \<Rightarrow> bool" where
  "sizes_ok m \<longleftrightarrow> (\<forall>n b. m n = Some b \<longrightarrow> HEADER_OFFSET_DATA + length b < 2 ^ 32)"

lemma shadow_ne [simp]: "shadow_name n \<noteq> n" "n \<noteq> shadow_name n"
  by (simp_all add: shadow_name_def ROT_SHADOW_SUFFIX_def ascii_def)

lemma roll_file_effect:
  assumes "pool_inv E c p" and "available p \<noteq> [] \<or> stored c p n \<noteq> None" and "name_ok n" and "sizes_ok (stored c p)"
  shows "\<exists>p'. roll_file E n p = (Inr (), p') \<and> pool_inv E c p' \<and> stored c p' = roll_one n (stored c p)
    \<and> (available p' \<noteq> [] \<or> p' = p) \<and> pool_rest p' = pool_rest p"
proof (cases "stored c p (shadow_name n)")
  case None
  then show ?thesis using assms by (simp add: roll_file_def has_filename_stored [of _ _ c] roll_one_def)
next
  case (Some b)
  have x: "has_filename p (shadow_name n)" "export_raw E (shadow_name n) p = Inr b"
    using Some export_effect [OF assms(1)] by (simp_all add: has_filename_stored [of _ _ c])
  have l: "HEADER_OFFSET_DATA + length b < 2 ^ 32" using assms(4) Some unfolding sizes_ok_def by blast
  obtain p1 where p1: "import_ciphertext_file E n b p = (Inr (), p1)" "pool_inv E c p1" "stored c p1 = (stored c p)(n \<mapsto> b)"
      "length (available p1) = length (available p) - (if has_filename p n then 0 else 1)" "pool_rest p1 = pool_rest p"
    using import_effect [OF assms(1) _ assms(3) l] assms(2) by (auto simp: has_filename_stored [of _ _ c])
  obtain p2 where p2: "delete_file E (shadow_name n) p1 = (Inr (has_filename p1 (shadow_name n)), p2)" "pool_inv E c p2"
      "stored c p2 = (stored c p1)(shadow_name n := None)"
      "length (available p2) = length (available p1) + (if has_filename p1 (shadow_name n) then 1 else 0)" "pool_rest p2 = pool_rest p1"
    using delete_file_effect [OF p1(2), of "shadow_name n"] by blast
  have "has_filename p1 (shadow_name n)" using Some by (simp add: has_filename_stored [of _ _ c] p1(3))
  then have "available p2 \<noteq> []" using p2(4) by auto
  then show ?thesis using x p1 p2 Some by (simp add: roll_file_def roll_one_def)
qed

lemma sizes_roll: "sizes_ok m \<Longrightarrow> sizes_ok (roll_one n m)"
  unfolding sizes_ok_def roll_one_def by (auto split: option.splits if_splits)

text \<open>A live file that is there makes room for its own replacement, so a full pool rolls forward too.\<close>

definition roll_room :: "('h \<Rightarrow> bytes) \<Rightarrow> str list \<Rightarrow> 'h pool \<Rightarrow> bool" where
  "roll_room c ns p \<longleftrightarrow> available p \<noteq> [] \<or> (\<forall>n \<in> set ns. stored c p n \<noteq> None)"

lemma roll_files_effect:
  "pool_inv E c p \<Longrightarrow> roll_room c ns p \<Longrightarrow> list_all name_ok ns \<Longrightarrow> sizes_ok (stored c p) \<Longrightarrow>
   \<exists>p'. roll_files E ns p = (Inr (), p') \<and> pool_inv E c p' \<and> stored c p' = fold roll_one ns (stored c p)
    \<and> pool_rest p' = pool_rest p"
proof (induction ns arbitrary: p)
  case Nil
  then show ?case by simp
next
  case (Cons n ns)
  obtain p1 where p1: "roll_file E n p = (Inr (), p1)" "pool_inv E c p1" "stored c p1 = roll_one n (stored c p)"
      "available p1 \<noteq> [] \<or> p1 = p" "pool_rest p1 = pool_rest p"
    using roll_file_effect [of E c p n] Cons.prems by (auto simp: roll_room_def)
  have "roll_room c ns p1" using p1(4) Cons.prems(2) by (auto simp: roll_room_def)
  then show ?case using Cons.IH [of p1] Cons.prems sizes_roll [of "stored c p" n] p1 by auto
qed

text \<open>The table after the swap, when the names are distinct and none of them is a shadow.\<close>

definition rolled :: "str list \<Rightarrow> (str \<rightharpoonup> bytes) \<Rightarrow> (str \<rightharpoonup> bytes)" where
  "rolled ns m = (\<lambda>n. if n \<in> set ns \<and> m (shadow_name n) \<noteq> None then m (shadow_name n)
     else if n \<in> shadow_name ` set ns then None else m n)"

lemma shadow_inj [simp]: "shadow_name a = shadow_name b \<longleftrightarrow> a = b"
  by (simp add: shadow_name_def)

lemma fold_roll:
  assumes "distinct ns" and "\<forall>n \<in> set ns. n \<notin> shadow_name ` set ns"
  shows "fold roll_one ns m = rolled ns m"
  using assms
proof (induction ns arbitrary: m)
  case Nil
  then show ?case by (simp add: rolled_def)
next
  case (Cons n ns)
  have d: "\<forall>x \<in> set ns. x \<notin> shadow_name ` set ns" "n \<notin> set ns" "n \<notin> shadow_name ` set ns" "shadow_name n \<notin> set ns"
    using Cons.prems by auto
  have "fold roll_one (n # ns) m = rolled ns (roll_one n m)" using Cons.IH [of "roll_one n m"] Cons.prems d(1) by simp
  also have "\<dots> = rolled (n # ns) m"
  proof
    fix x
    show "rolled ns (roll_one n m) x = rolled (n # ns) m x"
      using d Cons.prems by (cases "m (shadow_name n)") (auto simp: rolled_def roll_one_def)
  qed
  finally show ?case .
qed

section \<open>Carrying the anchor\<close>

lemma anchor_crypto_frame: "anchor_crypto (p\<lparr>p_rng := r, anchor_handle := h\<rparr>) = anchor_crypto p" for p :: "'h pool"
  by simp

definition covered :: "anchor_entry list \<Rightarrow> anchor_entry \<Rightarrow> bool" where
  "covered es e \<longleftrightarrow> (\<exists>e' \<in> set es. uuid e' = uuid e \<and> committed e \<le> committed e' \<and> in_flight e \<le> in_flight e'
     \<and> epoch_floor e \<le> epoch_floor e')"

lemma covered_mono:
  assumes "covered es e" and "list_all2 entry_le es (take (length es) es')"
  shows "covered es' e"
proof -
  obtain a where a: "a \<in> set es" "uuid a = uuid e" "committed e \<le> committed a" "in_flight e \<le> in_flight a" "epoch_floor e \<le> epoch_floor a"
    using assms(1) by (auto simp: covered_def)
  obtain a' where a': "a' \<in> set (take (length es) es')" "entry_le a a'"
    using assms(2) a(1) by (metis in_set_conv_nth list_all2_conv_all_nth)
  have "a' \<in> set es'" using a'(1) by (rule in_set_takeD)
  then show ?thesis using a a'(2) by (auto simp: covered_def entry_le_def)
qed

lemma carry_anchors_effect:
  "anchor_inv E c p \<Longrightarrow> list_all entry_wf es \<Longrightarrow> rng_good (2 * length es + m) (p_rng p) \<Longrightarrow>
   unat (fst (anchor_load E p)) + 2 * length es < 2 ^ 64 \<Longrightarrow> length (snd (anchor_load E p)) + length es \<le> ANCHOR_CAP \<Longrightarrow>
   \<exists>q h. carry_anchors E es p = (Inr (), p\<lparr>p_rng := q, anchor_handle := h\<rparr>) \<and> anchor_inv E c (p\<lparr>p_rng := q, anchor_handle := h\<rparr>)
    \<and> list_all2 entry_le (snd (anchor_load E p))
        (take (length (snd (anchor_load E p))) (snd (anchor_load E (p\<lparr>p_rng := q, anchor_handle := h\<rparr>))))
    \<and> (\<forall>e \<in> set es. covered (snd (anchor_load E (p\<lparr>p_rng := q, anchor_handle := h\<rparr>))) e)"
proof (induction es arbitrary: p)
  case Nil
  then show ?case by (intro exI [of _ "p_rng p"] exI [of _ "anchor_handle p"]) (simp add: list_all2_refl)
next
  case (Cons e es)
  let ?l = "anchor_load E p" and ?ef = "if epoch_floor e > 0 then Some (epoch_floor e) else None"
  have u: "length (uuid e) = 16" using Cons.prems(2) by (simp add: entry_wf_def)
  have r: "rng_good (Suc (Suc (2 * length es + m))) (p_rng p)" using Cons.prems(3) by simp
  have w: "unat (fst ?l) + 2 < 2 ^ 64" using Cons.prems(4) by simp
  obtain es1 where up: "upsert_entry (uuid e) (Some (committed e)) (Some (in_flight e)) ?ef (snd ?l) = Some es1"
    using upsert_room [of "uuid e" "snd ?l"] Cons.prems(5) by fastforce
  obtain h1 q1 where s1: "anchor_record_full E (uuid e) (Some (committed e)) (Some (in_flight e)) ?ef p = (Inr (), p\<lparr>p_rng := q1, anchor_handle := Some h1\<rparr>)"
      "rng_good (2 * length es + m) q1" "anchor_inv E c (p\<lparr>p_rng := q1, anchor_handle := Some h1\<rparr>)"
      "anchor_load E (p\<lparr>p_rng := q1, anchor_handle := Some h1\<rparr>) = (fst ?l + (if ?ef = None then 1 else 2), es1)"
    using anchor_record_full_effect [OF Cons.prems(1) u r seq_room(1) [OF w] seq_room(2) [OF w] up] by auto
  let ?p1 = "p\<lparr>p_rng := q1, anchor_handle := Some h1\<rparr>"
  have f: "unat (fst (anchor_load E ?p1)) \<le> unat (fst ?l) + 2" unfolding s1(4) using w by (simp add: unat_word_ariths)
  have l: "length (snd ?l) \<le> length es1" "length es1 \<le> length (snd ?l) + 1" using upsert_length [OF up] by simp_all
  obtain q h where IH: "carry_anchors E es ?p1 = (Inr (), ?p1\<lparr>p_rng := q, anchor_handle := h\<rparr>)" "anchor_inv E c (?p1\<lparr>p_rng := q, anchor_handle := h\<rparr>)"
      "list_all2 entry_le (snd (anchor_load E ?p1)) (take (length (snd (anchor_load E ?p1))) (snd (anchor_load E (?p1\<lparr>p_rng := q, anchor_handle := h\<rparr>))))"
      "\<forall>e \<in> set es. covered (snd (anchor_load E (?p1\<lparr>p_rng := q, anchor_handle := h\<rparr>))) e"
    using Cons.IH [OF s1(3)] Cons.prems(2,4,5) s1(2,4) f l by auto
  let ?e = "snd (anchor_load E (p\<lparr>p_rng := q, anchor_handle := h\<rparr>))"
  have IH': "list_all2 entry_le es1 (take (length es1) ?e)" using IH(3) s1(4) by simp
  have "covered es1 e" using upsert_effect(2) [OF up] by (auto simp: covered_def covers_def word_gt_0 split: if_splits)
  then have ce: "covered ?e e" using IH' by (rule covered_mono)
  have "list_all2 entry_le (take (length (snd ?l)) es1) (take (length (snd ?l)) (take (length es1) ?e))"
    by (rule list_all2_takeI [OF IH'])
  then have "list_all2 entry_le (take (length (snd ?l)) es1) (take (length (snd ?l)) ?e)" using l(1) by (simp add: min_absorb1)
  then have "list_all2 entry_le (snd ?l) (take (length (snd ?l)) ?e)"
    using upsert_effect(1) [OF up] by (blast intro: entry_le_trans list_all2_trans)
  then show ?case
    using s1(1) IH ce by (intro exI [of _ q] exI [of _ h]) simp
qed

section \<open>Recovery\<close>

definition live_names :: "str list \<Rightarrow> str list" where
  "live_names ds = concat (map (\<lambda>db. [db, manifest_name db]) ds)"

lemma rolls_forward:
  assumes "pool_inv E c p" and "anchor_inv E c p" and "roll_room c (live_names names) p" and "sizes_ok (stored c p)"
    and "stored c p ROT_INTENT_NAME = Some sealed" and "open_bytes E (rotate_intent_key E (dek p)) ROT_INTENT_AAD sealed = Inr plain"
    and "parse_rotation_intent plain = Inr (names, anchors)"
    and "distinct (live_names names)" and "\<forall>n \<in> set (live_names names). name_ok n \<and> n \<notin> shadow_name ` set (live_names names)"
    and "list_all entry_wf anchors" and "rng_good (2 * length anchors) (p_rng p)"
    and "unat (fst (anchor_load E p)) + 2 * length anchors < 2 ^ 64" and "length (snd (anchor_load E p)) + length anchors \<le> ANCHOR_CAP"
  shows "\<exists>p'. recover_rotation E p = (Inr (RolledForward (length names) (length anchors)), p') \<and> pool_inv E c p'
    \<and> stored c p' = (rolled (live_names names) (stored c p))(ROT_INTENT_NAME := None)
    \<and> anchor_inv E c p' \<and> (\<forall>e \<in> set anchors. covered (snd (anchor_load E p')) e)"
proof -
  let ?ns = "live_names names"
  have x: "has_filename p ROT_INTENT_NAME" "export_raw E ROT_INTENT_NAME p = Inr sealed"
    using export_effect [OF assms(1)] assms(5) by (simp_all add: has_filename_stored [of _ _ c])
  have n: "list_all name_ok ?ns" using assms(9) by (simp add: list_all_iff)
  obtain p1 where p1: "roll_files E ?ns p = (Inr (), p1)" "pool_inv E c p1" "stored c p1 = fold roll_one ?ns (stored c p)"
      "pool_rest p1 = pool_rest p"
    using roll_files_effect [OF assms(1,3) n assms(4)] by blast
  have st: "stored c p1 = rolled ?ns (stored c p)" using p1(3) fold_roll [OF assms(8)] assms(9) by simp
  note ar = anchor_rest [OF p1(4)]
  have a: "anchor_inv E c p1" "rng_good (2 * length anchors + 0) (p_rng p1)"
      "unat (fst (anchor_load E p1)) + 2 * length anchors < 2 ^ 64" "length (snd (anchor_load E p1)) + length anchors \<le> ANCHOR_CAP"
    using assms(2,11-13) by (simp_all only: ar add_0_right)
  obtain q h where c1: "carry_anchors E anchors p1 = (Inr (), p1\<lparr>p_rng := q, anchor_handle := h\<rparr>)"
      "anchor_inv E c (p1\<lparr>p_rng := q, anchor_handle := h\<rparr>)"
      "\<forall>e \<in> set anchors. covered (snd (anchor_load E (p1\<lparr>p_rng := q, anchor_handle := h\<rparr>))) e"
    using carry_anchors_effect [OF a(1) assms(10) a(2-4)] by blast
  let ?p2 = "p1\<lparr>p_rng := q, anchor_handle := h\<rparr>"
  obtain p3 where p3: "delete_file E ROT_INTENT_NAME ?p2 = (Inr (has_filename ?p2 ROT_INTENT_NAME), p3)" "pool_inv E c p3"
      "stored c p3 = (stored c ?p2)(ROT_INTENT_NAME := None)" "pool_rest p3 = pool_rest ?p2"
    using delete_file_effect [of E c ?p2 ROT_INTENT_NAME] p1(2) by (auto simp: pool_anchor_frame)
  have "recover_rotation E p = (Inr (RolledForward (length names) (length anchors)), p3)"
    using x assms(6,7) p1(1) c1(1) p3(1) by (simp add: recover_rotation_def live_names_def [symmetric])
  moreover have "stored c p3 = (rolled ?ns (stored c p))(ROT_INTENT_NAME := None)"
    using p3(3) st by (simp add: pool_anchor_frame)
  moreover have "anchor_inv E c p3" "\<forall>e \<in> set anchors. covered (snd (anchor_load E p3)) e"
    unfolding anchor_rest(1,2) [OF p3(4)] using c1(2,3) by simp_all
  ultimately show ?thesis using p3(2) by blast
qed

text \<open>
  C22: After the new envelope is in place, the next open completes the rotation. With the intent
  opening under the pool's key, every staged file of a database the intent names replaces the live one,
  the shadows of those databases and the intent are gone, every other file keeps its contents, and the
  anchor under the new key holds, for each database carried in the intent, values no lower than
  before, its epoch floor included.
\<close>

theorem recovery_rolls_forward:
  assumes "pool_inv E c p" and "anchor_inv E c p" and "roll_room c (live_names names) p" and "sizes_ok (stored c p)"
    and "stored c p ROT_INTENT_NAME = Some sealed" and "open_bytes E (rotate_intent_key E (dek p)) ROT_INTENT_AAD sealed = Inr plain"
    and "parse_rotation_intent plain = Inr (names, anchors)"
    and "distinct (live_names names)" and "\<forall>n \<in> set (live_names names). name_ok n \<and> n \<notin> shadow_name ` set (live_names names)"
    and "list_all entry_wf anchors" and "rng_good (2 * length anchors) (p_rng p)"
    and "unat (fst (anchor_load E p)) + 2 * length anchors < 2 ^ 64" and "length (snd (anchor_load E p)) + length anchors \<le> ANCHOR_CAP"
  shows "\<exists>p'. recover_rotation E p = (Inr (RolledForward (length names) (length anchors)), p') \<and> pool_inv E c p'
    \<and> stored c p' = (rolled (live_names names) (stored c p))(ROT_INTENT_NAME := None)
    \<and> anchor_inv E c p' \<and> (\<forall>e \<in> set anchors. covered (snd (anchor_load E p')) e)"
  by (rule rolls_forward [OF assms])

section \<open>Rolling back\<close>

lemma delete_files_effect:
  "pool_inv E c p \<Longrightarrow> pool_inv E c (delete_files E ns p) \<and> stored c (delete_files E ns p) = (stored c p) |` (- set ns)
    \<and> pool_rest (delete_files E ns p) = pool_rest p"
proof (induction ns arbitrary: p)
  case Nil
  then show ?case by simp
next
  case (Cons n ns)
  obtain p1 where p1: "delete_file E n p = (Inr (has_filename p n), p1)" "pool_inv E c p1" "stored c p1 = (stored c p)(n := None)"
      "pool_rest p1 = pool_rest p"
    using delete_file_effect [OF Cons.prems, of n] by blast
  have "(stored c p1) |` (- set ns) = (stored c p) |` (- set (n # ns))"
    unfolding p1(3) by (auto simp: restrict_map_def fun_eq_iff)
  then show ?case using Cons.IH [OF p1(2)] p1(1,4) by simp
qed

definition staging_name :: "str \<Rightarrow> bool" where
  "staging_name n \<longleftrightarrow> ends_with n ROT_SHADOW_SUFFIX \<or> n = ROT_INTENT_NAME"

lemma rolls_back:
  assumes "pool_inv E c p"
    and "case stored c p ROT_INTENT_NAME of None \<Rightarrow> True
      | Some sealed \<Rightarrow> \<not> is_ok (open_bytes E (rotate_intent_key E (dek p)) ROT_INTENT_AAD sealed)"
  shows "\<exists>p'. recover_rotation E p = (Inr (if stored c p ROT_INTENT_NAME = None then NothingStaged else RolledBack), p')
    \<and> pool_inv E c p' \<and> pool_rest p' = pool_rest p
    \<and> stored c p' = (if stored c p ROT_INTENT_NAME = None then stored c p else (stored c p) |` {n. \<not> staging_name n})"
proof (cases "stored c p ROT_INTENT_NAME")
  case None
  then show ?thesis using assms(1) by (simp add: recover_rotation_def has_filename_stored [of _ _ c])
next
  case (Some sealed)
  let ?ns = "filter staging_name (get_filenames p)"
  have x: "has_filename p ROT_INTENT_NAME" "export_raw E ROT_INTENT_NAME p = Inr sealed"
    using export_effect [OF assms(1)] Some by (simp_all add: has_filename_stored [of _ _ c])
  have "\<exists>e. open_bytes E (rotate_intent_key E (dek p)) ROT_INTENT_AAD sealed = Inl e"
    using assms(2) Some by (cases "open_bytes E (rotate_intent_key E (dek p)) ROT_INTENT_AAD sealed") auto
  then have r: "recover_rotation E p = (Inr RolledBack, delete_files E ?ns p)"
    using x unfolding recover_rotation_def discard_rotation_staging_def staging_name_def [abs_def] by auto
  have "stored c p n = None" if "n \<notin> set (get_filenames p)" for n
    using that by (simp add: stored_def lookup_file_def get_filenames_def map_of_eq_None_iff)
  then have "(stored c p) |` (- set ?ns) = (stored c p) |` {n. \<not> staging_name n}"
    by (auto simp: restrict_map_def fun_eq_iff)
  then show ?thesis using delete_files_effect [OF assms(1), of ?ns] r Some by auto
qed

text \<open>
  C23: Before the new envelope is in place, the next open undoes the rotation. An intent that does
  not open under the pool's key (it was sealed under the new one) leads to the removal of every
  shadow and of the intent, whoever staged them, and to nothing else: each other file and the
  anchor are as before. Without an intent nothing is done at all.
\<close>

theorem recovery_rolls_back:
  assumes "pool_inv E c p"
    and "case stored c p ROT_INTENT_NAME of None \<Rightarrow> True
      | Some sealed \<Rightarrow> \<not> is_ok (open_bytes E (rotate_intent_key E (dek p)) ROT_INTENT_AAD sealed)"
  shows "\<exists>p'. recover_rotation E p = (Inr (if stored c p ROT_INTENT_NAME = None then NothingStaged else RolledBack), p')
    \<and> pool_inv E c p' \<and> pool_rest p' = pool_rest p
    \<and> stored c p' = (if stored c p ROT_INTENT_NAME = None then stored c p else (stored c p) |` {n. \<not> staging_name n})"
  by (rule rolls_back [OF assms])

section \<open>Staging\<close>

lemma import_outcomes:
  assumes "pool_inv E c p" and "name_ok n" and "HEADER_OFFSET_DATA + length b < 2 ^ 32"
  shows "\<exists>p'. pool_inv E c p' \<and> pool_rest p' = pool_rest p
    \<and> (import_ciphertext_file E n b p = (Inr (), p') \<and> stored c p' = (stored c p)(n \<mapsto> b)
      \<or> import_ciphertext_file E n b p = (Inl PoolFull, p') \<and> stored c p' = stored c p \<and> stored c p n = None)"
proof (cases "available p \<noteq> [] \<or> has_filename p n")
  case True
  then show ?thesis using import_effect [OF assms(1) _ assms(2,3)] by blast
next
  case False
  then have n: "\<not> has_filename p n" "available p = []" by simp_all
  then have "delete_file E n p = (Inr False, p)" by (simp add: delete_file_def has_filename_def)
  then have "import_ciphertext_file E n b p = (Inl PoolFull, p)"
    using n by (simp add: import_ciphertext_file_def with_new_file_def)
  then show ?thesis using assms(1) n by (auto simp: has_filename_stored [of _ _ c])
qed

text \<open>What a staging step may change: shadows, within the size bound.\<close>

definition staged_from :: "('h, 'z) env_scheme \<Rightarrow> ('h \<Rightarrow> bytes) \<Rightarrow> 'h pool \<Rightarrow> 'h pool \<Rightarrow> bool" where
  "staged_from E c p p' \<longleftrightarrow> pool_inv E c p' \<and> sizes_ok (stored c p') \<and> dek p' = dek p
     \<and> (\<forall>n. \<not> ends_with n ROT_SHADOW_SUFFIX \<longrightarrow> stored c p' n = stored c p n)"

lemma staged_trans: "staged_from E c p q \<Longrightarrow> staged_from E c q r \<Longrightarrow> staged_from E c p r"
  by (auto simp: staged_from_def)

lemma shadow_suffix [simp]: "ends_with (shadow_name n) ROT_SHADOW_SUFFIX"
  by (simp add: ends_with_def shadow_name_def)

lemma intent_no_suffix: "\<not> ends_with ROT_INTENT_NAME ROT_SHADOW_SUFFIX"
  by code_simp

lemma import_shadows_staged:
  "pool_inv E c p \<Longrightarrow> sizes_ok (stored c p) \<Longrightarrow>
   (\<And>n b. (n, b) \<in> set fs \<Longrightarrow> name_ok (shadow_name n) \<and> HEADER_OFFSET_DATA + length b < 2 ^ 32) \<Longrightarrow>
   staged_from E c p (snd (import_shadows E fs p))"
proof (induction fs arbitrary: p)
  case Nil
  then show ?case by (simp add: staged_from_def)
next
  case (Cons f fs)
  obtain n b where f: "f = (n, b)" by fastforce
  have nb: "name_ok (shadow_name n)" "HEADER_OFFSET_DATA + length b < 2 ^ 32" using Cons.prems(3) [of n b] f by simp_all
  obtain r p1 where p1: "import_ciphertext_file E (shadow_name n) b p = (r, p1)" "pool_inv E c p1" "pool_rest p1 = pool_rest p"
      "stored c p1 = (stored c p)(shadow_name n \<mapsto> b) \<or> stored c p1 = stored c p"
    using import_outcomes [OF Cons.prems(1) nb] by blast
  have sz: "sizes_ok (stored c p1)" using p1(4) Cons.prems(2) nb(2) by (auto simp: sizes_ok_def split: if_splits)
  have s1: "staged_from E c p p1"
    using p1(2-4) sz by (auto simp: staged_from_def pool_rest_def)
  show ?case
  proof (cases r)
    case (Inl e)
    then show ?thesis using p1(1) s1 by (simp add: f)
  next
    case (Inr x)
    have "staged_from E c p1 (snd (import_shadows E fs p1))" using Cons.prems(3) by (intro Cons.IH [OF p1(2) sz]) auto
    then show ?thesis using p1(1) Inr staged_trans [OF s1] by (simp add: f)
  qed
qed

lemma reseal_db_outcomes:
  assumes "pool_inv E c p" and "aead_ok E" and "hash_ok E" and "sizes_ok (stored c p)"
    and "reseal_db_ciphertext E db nk p = (r, p')"
  shows "\<exists>q. p' = p\<lparr>p_rng := q\<rparr>"
    and "r = Inr fs \<Longrightarrow> (n, b) \<in> set fs \<Longrightarrow> (n = db \<or> n = manifest_name db) \<and> HEADER_OFFSET_DATA + length b < 2 ^ 32"
proof -
  have small: "length b \<le> length x \<Longrightarrow> stored c p m = Some x \<Longrightarrow> HEADER_OFFSET_DATA + length b < 2 ^ 32" for b x m
    using assms(4) unfolding sizes_ok_def by (meson add_left_mono le_less_trans)
  have all: "(\<exists>q. p' = p\<lparr>p_rng := q\<rparr>) \<and> (\<forall>fs. r = Inr fs \<longrightarrow> (\<forall>(n, b) \<in> set fs. (n = db \<or> n = manifest_name db) \<and> HEADER_OFFSET_DATA + length b < 2 ^ 32))"
  proof (cases "stored c p (manifest_name db)")
    case None
    then show ?thesis using assms(5) export_effect [OF assms(1)]
      by (auto simp: reseal_db_ciphertext_def intro: exI [of _ "p_rng p"])
  next
    case (Some m)
    have x: "export_raw E (manifest_name db) p = Inr m" using Some export_effect [OF assms(1)] by simp
    define u where "u = slice 8 16 m"
    let ?ok = "db_key E (dek p) u" and ?nk = "db_key E nk u" and ?P = PHYS_BLOCK and ?H = MANIFEST_HDR_LEN
    have k: "key_ok (E, ?ok)" "key_ok (E, ?nk)" using assms(2,3) by (simp_all add: key_ok_def len_simps)
    have lm: "length (take ?H m @ mo) \<le> length m" if "reseal_slots E ?ok ?nk (file_id_for E (manifest_name db)) u m 0 rr = (Inr mo, q2)" "?H \<le> length m" for mo rr q2
      using reseal_slots_spec [OF k that(1)] that(2) by auto
    have rest: "(\<exists>q. p' = p\<lparr>p_rng := q\<rparr>) \<and> (\<forall>fs. r = Inr fs \<longrightarrow> (\<forall>(n, b) \<in> set fs. (n = db \<or> n = manifest_name db) \<and> HEADER_OFFSET_DATA + length b < 2 ^ 32))"
      if out: "\<And>n b. (n, b) \<in> set out \<Longrightarrow> n = db \<and> HEADER_OFFSET_DATA + length b < 2 ^ 32"
        and e: "(r, p') = (if length m < ?H then (Inl ManifestPanic, p\<lparr>p_rng := q1\<rparr>)
               else (case reseal_slots E ?ok ?nk (file_id_for E (manifest_name db)) u m 0 q1 of
                 (r, rng) \<Rightarrow> (map_sum id (\<lambda>b. out @ [(manifest_name db, take ?H m @ b)]) r, p\<lparr>p_rng := rng\<rparr>)))" for out q1
    proof (cases "length m < ?H")
      case True
      then show ?thesis using e by auto
    next
      case False
      obtain rs q2 where rs: "reseal_slots E ?ok ?nk (file_id_for E (manifest_name db)) u m 0 q1 = (rs, q2)" by fastforce
      show ?thesis
      proof (cases rs)
        case (Inl x)
        then show ?thesis using e False rs by auto
      next
        case (Inr mo)
        then have "reseal_slots E ?ok ?nk (file_id_for E (manifest_name db)) u m 0 q1 = (Inr mo, q2)" using rs by simp
        from lm [OF this] False have "HEADER_OFFSET_DATA + length (take ?H m @ mo) < 2 ^ 32"
          by (intro small [OF _ Some]) simp
        then show ?thesis using e False rs Inr out by auto
      qed
    qed
    show ?thesis
    proof (cases "length m < 24 \<or> slice 0 8 m \<noteq> MANIFEST_MAGIC")
      case True
      then show ?thesis using assms(5) x by (auto simp: reseal_db_ciphertext_def intro: exI [of _ "p_rng p"])
    next
      case False
      show ?thesis
      proof (cases "stored c p db")
        case None
        then have "\<not> has_filename p db" by (simp add: has_filename_stored [of _ _ c])
        then show ?thesis using assms(5) x False by (intro rest [of "[]" "p_rng p"])
          (auto simp: reseal_db_ciphertext_def Let_def u_def split: if_splits)
      next
        case (Some raw)
        have y: "has_filename p db" "export_raw E db p = Inr raw"
          using Some export_effect [OF assms(1)] by (simp_all add: has_filename_stored [of _ _ c])
        obtain rb q1 where rb: "reseal_blocks E ?ok ?nk (file_id_for E db) u raw [0..<length raw div ?P] (p_rng p) = (rb, q1)" by fastforce
        show ?thesis
        proof (cases rb)
          case (Inl e)
          then show ?thesis using assms(5) x False y rb by (auto simp: reseal_db_ciphertext_def Let_def u_def)
        next
          case (Inr out)
          then have o: "reseal_blocks E ?ok ?nk (file_id_for E db) u raw [0..<length raw div ?P] (p_rng p) = (Inr out, q1)" using rb by simp
          have "length out \<le> length raw" using reseal_blocks_spec [OF k o] by simp
          then have "HEADER_OFFSET_DATA + length out < 2 ^ 32" by (rule small [OF _ Some])
          then show ?thesis using assms(5) x False y o by (intro rest [of "[(db, out)]" q1])
            (auto simp: reseal_db_ciphertext_def Let_def u_def split: if_splits)
        qed
      qed
    qed
  qed
  show "\<exists>q. p' = p\<lparr>p_rng := q\<rparr>" using all by blast
  show "r = Inr fs \<Longrightarrow> (n, b) \<in> set fs \<Longrightarrow> (n = db \<or> n = manifest_name db) \<and> HEADER_OFFSET_DATA + length b < 2 ^ 32"
    using all by fastforce
qed

lemma intent_name_ok: "name_ok ROT_INTENT_NAME"
proof -
  have "utf8_valid ROT_INTENT_NAME" by (rule utf8_valid_ascii) (auto simp: ROT_INTENT_NAME_def)
  then show ?thesis by (simp add: name_ok_def ROT_INTENT_NAME_def HEADER_MAX_FILENAME_SIZE_def ascii_def)
qed

lemma stage_dbs_staged:
  "pool_inv E c p \<Longrightarrow> sizes_ok (stored c p) \<Longrightarrow> aead_ok E \<Longrightarrow> hash_ok E \<Longrightarrow>
   (\<And>n. n \<in> set (live_names ds) \<Longrightarrow> name_ok (shadow_name n)) \<Longrightarrow> staged_from E c p (snd (stage_dbs E nk ds p))"
proof (induction ds arbitrary: p)
  case Nil
  then show ?case by (simp add: staged_from_def)
next
  case (Cons db ds)
  obtain r p1 where r: "reseal_db_ciphertext E db nk p = (r, p1)" by fastforce
  note o = reseal_db_outcomes [OF Cons.prems(1,3,4,2) r]
  have s1: "staged_from E c p p1" using o(1) Cons.prems(1,2) by (auto simp: staged_from_def)
  show ?case
  proof (cases r)
    case (Inl e)
    then show ?thesis using r s1 by simp
  next
    case (Inr fs)
    have i1: "pool_inv E c p1" "sizes_ok (stored c p1)" using s1 by (simp_all add: staged_from_def)
    obtain r2 p2 where r2: "import_shadows E fs p1 = (r2, p2)" by fastforce
    have s2: "staged_from E c p1 p2"
      using import_shadows_staged [OF i1, of fs] o(2) [OF Inr] Cons.prems(5) r2 by (auto simp: live_names_def)
    have i2: "pool_inv E c p2" "sizes_ok (stored c p2)" using s2 by (simp_all add: staged_from_def)
    have s3: "staged_from E c p2 (snd (stage_dbs E nk ds p2))"
      using Cons.prems(3-5) by (intro Cons.IH [OF i2]) (auto simp: live_names_def)
    show ?thesis
      using r r2 Inr staged_trans [OF s1 s2] staged_trans [OF staged_trans [OF s1 s2] s3] by (cases r2) simp_all
  qed
qed

lemma encode_names_length: "encode_names ns = Inr b \<Longrightarrow> length b \<le> 256 * length ns"
proof (induction ns arbitrary: b)
  case (Cons n ns)
  then obtain b1 where "encode_names ns = Inr b1" "b = word_of_nat (length n) # n @ b1" "length n \<le> 255"
    by (auto simp: result_simps split: if_splits)
  then show ?case using Cons.IH [of b1] by simp
qed simp

lemma encode_intent_length:
  assumes "encode_rotation_intent og ng ns es = Inr b" and "list_all entry_wf es"
  shows "length b < 2 ^ 30"
proof -
  obtain nb where nb: "encode_names ns = Inr nb" "length ns \<le> 65535" "length es \<le> ANCHOR_CAP"
    and b: "length b = 24 + length nb + length (concat (map anchor_entry_bytes es))"
    using assms(1) by (auto simp: encode_rotation_intent_def result_simps ROT_INTENT_MAGIC_def split: if_splits)
  have "length (concat (map anchor_entry_bytes es)) = ANCHOR_ENTRY_SIZE * length es"
    using assms(2) by (intro length_concat_const length_anchor_entry_bytes) (auto simp: list_all_iff)
  moreover have "ANCHOR_ENTRY_SIZE * length es \<le> 2 ^ 20" using nb(3) by (simp add: manifest_sizes)
  moreover have "length nb \<le> 2 ^ 25" using encode_names_length [OF nb(1)] nb(2) by simp
  ultimately show ?thesis using b by simp
qed

text \<open>
  C24: Staging a rotation never touches a live file. Whatever the outcome, an error half-way
  included, every file but the shadows and the intent keeps its contents and the pool its
  invariant; and the intent, whose presence arms the recovery, is only there when every step went
  through: after an error there is none that was not there before.
\<close>

theorem staging_leaves_live_files:
  assumes "pool_inv E c p" and "sizes_ok (stored c p)" and "aead_ok E" and "hash_ok E"
    and "\<forall>n \<in> set (live_names names). name_ok (shadow_name n)"
    and "stage_rotation E nk names og ng p = (r, p')"
  shows "pool_inv E c p' \<and> (\<forall>n. \<not> staging_name n \<longrightarrow> stored c p' n = stored c p n)
    \<and> (r \<noteq> Inr () \<longrightarrow> stored c p' ROT_INTENT_NAME = stored c p ROT_INTENT_NAME)"
proof -
  obtain r1 p1 where s: "stage_dbs E nk names p = (r1, p1)" by fastforce
  have s1: "staged_from E c p p1" using stage_dbs_staged [OF assms(1-4), of names nk] assms(5) s by auto
  then have i1: "pool_inv E c p1" and same: "\<And>n. \<not> ends_with n ROT_SHADOW_SUFFIX \<Longrightarrow> stored c p1 n = stored c p n"
    by (simp_all add: staged_from_def)
  have base: ?thesis if "p' = p1 \<or> (\<exists>q. p' = p1\<lparr>p_rng := q\<rparr>)"
    using that i1 same intent_no_suffix by (auto simp: staging_name_def)
  show ?thesis
  proof (cases r1)
    case (Inl e)
    then show ?thesis using assms(6) s by (intro base) (simp add: stage_rotation_def)
  next
    case (Inr x)
    note st = assms(6) [unfolded stage_rotation_def s Inr st_then.simps]
    show ?thesis
    proof (cases "encode_rotation_intent og ng names (snd (anchor_load E p1))")
      case (Inl e)
      then show ?thesis using st by (intro base) simp
    next
      case e: (Inr plain)
      obtain rs q where q: "seal_bytes E (rotate_intent_key E nk) ROT_INTENT_AAD plain (p_rng p1) = (rs, q)" by fastforce
      show ?thesis
      proof (cases rs)
        case (Inl x)
        then show ?thesis using st e q by (intro base) auto
      next
        case (Inr sealed)
        have wf: "list_all entry_wf (snd (anchor_load E p1))" using anchor_table_wf [of E p1] by (simp add: anchor_wf_def)
        have k: "key_ok (E, rotate_intent_key E nk)" using assms(3,4) by (simp add: key_ok_def len_simps)
        have lp: "length plain < 2 ^ 30" by (rule encode_intent_length [OF e wf])
        then have "length sealed = length plain + 40"
          using bytes_box.seal_Inr(2) [of "(E, rotate_intent_key E nk)" plain ROT_INTENT_AAD "p_rng p1" sealed q] k q Inr
          by (simp add: NONCE_LEN_def TAG_LEN_def)
        then have ls: "HEADER_OFFSET_DATA + length sealed < 2 ^ 32" using lp by (simp add: HEADER_OFFSET_DATA_def)
        have ni: "name_ok ROT_INTENT_NAME" by (rule intent_name_ok)
        have "import_ciphertext_file E ROT_INTENT_NAME sealed (p1\<lparr>p_rng := q\<rparr>) = (r, p')" using st e q Inr by simp
        moreover have "pool_inv E c (p1\<lparr>p_rng := q\<rparr>)" using i1 by simp
        ultimately have "pool_inv E c p'" and "r = Inr () \<and> stored c p' = (stored c p1)(ROT_INTENT_NAME \<mapsto> sealed)
            \<or> r = Inl PoolFull \<and> stored c p' = stored c p1"
          using import_outcomes [of E c "p1\<lparr>p_rng := q\<rparr>" ROT_INTENT_NAME sealed] ni ls by auto
        then show ?thesis using same intent_no_suffix by (auto simp: staging_name_def)
      qed
    qed
  qed
qed

section \<open>Instances\<close>

text \<open>A pool of three free files with a blank anchor and two draws ready.\<close>

definition rot_pool :: "bytes pool" where
  "rot_pool = anchor_pool\<lparr>available := [free_file, free_file, free_file]\<rparr>"

lemma rot_pool_inv: "pool_inv mem_env (\<lambda>h. h) rot_pool" "anchor_inv mem_env (\<lambda>h. h) rot_pool"
    "anchor_load mem_env rot_pool = (0, [])" "rng_good 2 (p_rng rot_pool)" "stored (\<lambda>h. h) rot_pool = Map.empty"
    "length (available rot_pool) = 3"
proof -
  have r: "pool_rest rot_pool = pool_rest anchor_pool" by (simp add: rot_pool_def)
  show "anchor_inv mem_env (\<lambda>h. h) rot_pool" "anchor_load mem_env rot_pool = (0, [])" "rng_good 2 (p_rng rot_pool)"
    unfolding anchor_rest [OF r] by (rule anchor_pool_inv anchor_pool_load anchor_pool_rng)+
  show "pool_inv mem_env (\<lambda>h. h) rot_pool"
    using mem_pool_inv by (simp add: rot_pool_def anchor_pool_def mem_pool_def pool_inv_def healthy_def lookup_file_def)
  show "stored (\<lambda>h. h) rot_pool = Map.empty"
    using mem_pool_stored [of "\<lambda>h. h"] by (simp add: rot_pool_def anchor_pool_def stored_def lookup_file_def fun_eq_iff)
qed (simp add: rot_pool_def)

lemma put_file_ex:
  assumes "pool_inv mem_env (\<lambda>h. h) p" and "0 < length (available p)" and "name_ok n" and "length b < 2 ^ 31"
    and "stored (\<lambda>h. h) p n = None"
  shows "\<exists>p'. pool_inv mem_env (\<lambda>h. h) p' \<and> stored (\<lambda>h. h) p' = (stored (\<lambda>h. h) p)(n \<mapsto> b)
    \<and> length (available p') = length (available p) - 1 \<and> pool_rest p' = pool_rest p"
  using import_effect [OF assms(1) _ assms(3), of b] assms(2,4,5)
  by (auto simp: HEADER_OFFSET_DATA_def has_filename_stored [of _ _ "\<lambda>h. h"])

theorem recovery_rolls_back_witness:
  "\<exists>p p'. stored (\<lambda>h. h) p ROT_INTENT_NAME = Some [1] \<and> stored (\<lambda>h. h) p a_db = Some [7]
    \<and> recover_rotation mem_env p = (Inr RolledBack, p') \<and> stored (\<lambda>h. h) p' = [a_db \<mapsto> [7]]"
proof -
  have na: "name_ok a_db" by (rule name_ok_ascii) auto
  obtain p1 where p1: "pool_inv mem_env (\<lambda>h. h) p1" "stored (\<lambda>h. h) p1 = [a_db \<mapsto> [7]]" "length (available p1) = 2"
    using put_file_ex [OF rot_pool_inv(1) _ na, of "[7]"] by (auto simp: rot_pool_inv(5,6))
  have ne: "a_db \<noteq> ROT_INTENT_NAME" by (simp add: ROT_INTENT_NAME_def ascii_def)
  obtain p2 where p2: "pool_inv mem_env (\<lambda>h. h) p2" "stored (\<lambda>h. h) p2 = [a_db \<mapsto> [7], ROT_INTENT_NAME \<mapsto> [1]]"
    using put_file_ex [OF p1(1) _ intent_name_ok, of "[1]"] ne by (auto simp: p1(2,3))
  have "\<not> is_ok (open_bytes mem_env k a [1])" for k a by (simp add: open_bytes_def size_defs)
  then have "\<exists>p'. recover_rotation mem_env p2 = (Inr RolledBack, p') \<and> stored (\<lambda>h. h) p' = [a_db \<mapsto> [7], ROT_INTENT_NAME \<mapsto> [1]] |` {n. \<not> staging_name n}"
    using recovery_rolls_back [OF p2(1)] by (auto simp: p2(2))
  moreover have "[a_db \<mapsto> [7], ROT_INTENT_NAME \<mapsto> [1]] |` {n. \<not> staging_name n} = [a_db \<mapsto> [7 :: byte]]"
  proof -
    have "staging_name ROT_INTENT_NAME" "\<not> staging_name a_db" by code_simp+
    then show ?thesis by (auto simp: restrict_map_def fun_eq_iff)
  qed
  ultimately obtain p' where "recover_rotation mem_env p2 = (Inr RolledBack, p')" "stored (\<lambda>h. h) p' = [a_db \<mapsto> [7]]" by auto
  then show ?thesis using p2(2) ne by (intro exI [of _ p2] exI [of _ p']) simp
qed

theorem recovery_rolls_forward_witness:
  "\<exists>p p'. stored (\<lambda>h. h) p a_db = None \<and> recover_rotation mem_env p = (Inr (RolledForward 1 1), p')
    \<and> stored (\<lambda>h. h) p' = [a_db \<mapsto> [7]]
    \<and> covered (snd (anchor_load mem_env p')) \<lparr>uuid = replicate 16 1, committed = 5, in_flight = 5, epoch_floor = 2\<rparr>"
proof -
  let ?e = "\<lparr>uuid = replicate 16 1, committed = 5, in_flight = 5, epoch_floor = 2\<rparr> :: anchor_entry" and ?k = "rotate_intent_key mem_env (dek rot_pool)"
  have e: "list_all entry_wf [?e]" by (simp add: entry_wf_def)
  have u: "utf8_valid a_db" by (rule utf8_valid_ascii) auto
  obtain plain where pl: "encode_rotation_intent 1 2 [a_db] [?e] = Inr plain" "parse_rotation_intent plain = Inr ([a_db], [?e])"
    using intent_roundtrip_eq [of "[a_db]" "[?e]" 1 2] u by (auto simp: intent_ok_def anchor_wf_def entry_wf_def manifest_sizes)
  have k: "key_ok (mem_env, ?k)" by (simp add: key_ok_def len_simps)
  have lp: "length plain < 2 ^ 30" by (rule encode_intent_length [OF pl(1) e])
  obtain sealed where se: "open_bytes mem_env ?k ROT_INTENT_AAD sealed = Inr plain" "length sealed = length plain + 40"
    using bytes_box.seal_draw [OF k, of plain "[Some (replicate 24 1)]" "replicate 24 1" "[]" ROT_INTENT_AAD] lp
    by (auto simp: NONCE_LEN_def TAG_LEN_def)
  have ns: "name_ok (shadow_name a_db)" "name_ok a_db" "name_ok (manifest_name a_db)"
    by (rule name_ok_ascii; auto simp: shadow_name_def manifest_name_def ROT_SHADOW_SUFFIX_def)+
  obtain p1 where p1: "pool_inv mem_env (\<lambda>h. h) p1" "stored (\<lambda>h. h) p1 = [shadow_name a_db \<mapsto> [7]]" "length (available p1) = 2"
      "pool_rest p1 = pool_rest rot_pool"
    using put_file_ex [OF rot_pool_inv(1) _ ns(1), of "[7]"] by (auto simp: rot_pool_inv(5,6))
  have ne: "shadow_name a_db \<noteq> ROT_INTENT_NAME" "a_db \<noteq> ROT_INTENT_NAME" "manifest_name a_db \<noteq> ROT_INTENT_NAME"
      "shadow_name (manifest_name a_db) \<noteq> ROT_INTENT_NAME" "a_db \<noteq> shadow_name (manifest_name a_db)" "manifest_name a_db \<noteq> shadow_name a_db"
      "a_db \<noteq> manifest_name a_db"
    by code_simp+
  obtain p2 where p2: "pool_inv mem_env (\<lambda>h. h) p2" "stored (\<lambda>h. h) p2 = [shadow_name a_db \<mapsto> [7], ROT_INTENT_NAME \<mapsto> sealed]"
      "length (available p2) = 1" "pool_rest p2 = pool_rest rot_pool"
    using put_file_ex [OF p1(1) _ intent_name_ok, of sealed] ne(1) p1(2-4) lp se(2) by auto
  note ar = anchor_rest [OF p2(4)]
  let ?ns = "live_names [a_db]"
  have nl: "?ns = [a_db, manifest_name a_db]" by (simp add: live_names_def)
  have "\<exists>p'. recover_rotation mem_env p2 = (Inr (RolledForward (length [a_db]) (length [?e])), p') \<and> pool_inv mem_env (\<lambda>h. h) p'
    \<and> stored (\<lambda>h. h) p' = (rolled ?ns (stored (\<lambda>h. h) p2))(ROT_INTENT_NAME := None)
    \<and> anchor_inv mem_env (\<lambda>h. h) p' \<and> (\<forall>e \<in> set [?e]. covered (snd (anchor_load mem_env p')) e)"
  proof (rule recovery_rolls_forward [OF p2(1) _ _ _ _ _ pl(2) _ _ e])
    show "anchor_inv mem_env (\<lambda>h. h) p2" "rng_good (2 * length [?e]) (p_rng p2)"
      unfolding ar using rot_pool_inv(2,4) by simp_all
    show "unat (fst (anchor_load mem_env p2)) + 2 * length [?e] < 2 ^ 64" "length (snd (anchor_load mem_env p2)) + length [?e] \<le> ANCHOR_CAP"
      unfolding ar by (simp_all add: rot_pool_inv(3) manifest_sizes)
    show "roll_room (\<lambda>h. h) ?ns p2" using p2(3) by (auto simp: roll_room_def)
    show "sizes_ok (stored (\<lambda>h. h) p2)" using lp se(2) by (auto simp: sizes_ok_def p2(2) HEADER_OFFSET_DATA_def split: if_splits)
    show "stored (\<lambda>h. h) p2 ROT_INTENT_NAME = Some sealed" by (simp add: p2(2))
    show "open_bytes mem_env (rotate_intent_key mem_env (dek p2)) ROT_INTENT_AAD sealed = Inr plain" unfolding ar by (rule se(1))
    show "distinct ?ns" using ne(7) by (simp add: nl)
    show "\<forall>n \<in> set ?ns. name_ok n \<and> n \<notin> shadow_name ` set ?ns" using ns ne by (auto simp: nl)
  qed
  then obtain p' where p': "recover_rotation mem_env p2 = (Inr (RolledForward 1 1), p')"
      "stored (\<lambda>h. h) p' = (rolled ?ns (stored (\<lambda>h. h) p2))(ROT_INTENT_NAME := None)" "covered (snd (anchor_load mem_env p')) ?e" by auto
  have "(rolled ?ns (stored (\<lambda>h. h) p2))(ROT_INTENT_NAME := None) = [a_db \<mapsto> [7]]"
    using ne by (auto simp: rolled_def nl p2(2) fun_eq_iff)
  then show ?thesis using p' p2(2) ne by (intro exI [of _ p2] exI [of _ p']) auto
qed

theorem staging_leaves_live_files_witness:
  "\<exists>p r p'. stored (\<lambda>h. h) p = [a_db \<mapsto> [7]] \<and> stage_rotation mem_env (replicate 32 9) [a_db] 1 2 p = (r, p')
    \<and> stored (\<lambda>h. h) p' a_db = Some [7]"
proof -
  have na: "name_ok a_db" by (rule name_ok_ascii) auto
  obtain p1 where p1: "pool_inv mem_env (\<lambda>h. h) p1" "stored (\<lambda>h. h) p1 = [a_db \<mapsto> [7]]"
    using put_file_ex [OF rot_pool_inv(1) _ na, of "[7]"] by (auto simp: rot_pool_inv(5,6))
  have ns: "\<forall>n \<in> set (live_names [a_db]). name_ok (shadow_name n)"
    by (auto simp: live_names_def intro!: name_ok_ascii) (auto simp: shadow_name_def manifest_name_def ROT_SHADOW_SUFFIX_def)
  obtain r p' where s: "stage_rotation mem_env (replicate 32 9) [a_db] 1 2 p1 = (r, p')" by fastforce
  have "sizes_ok (stored (\<lambda>h. h) p1)" by (auto simp: sizes_ok_def p1(2) HEADER_OFFSET_DATA_def split: if_splits)
  from staging_leaves_live_files [OF p1(1) this _ _ ns s] have "\<forall>n. \<not> staging_name n \<longrightarrow> stored (\<lambda>h. h) p' n = stored (\<lambda>h. h) p1 n"
    by simp
  moreover have "\<not> staging_name a_db" by code_simp
  ultimately show ?thesis using p1(2) s by fastforce
qed

theorem reseal_rekeys_witness:
  "\<exists>p raw out mo p'. stored (\<lambda>h. h) p a_db = Some raw \<and> length raw = PHYS_BLOCK
    \<and> reseal_db_ciphertext mem_env a_db (replicate 32 9) p = (Inr [(a_db, out), (manifest_name a_db, mo)], p')
    \<and> rekeyed mem_env (db_key mem_env (dek p) (replicate 16 4)) (db_key mem_env (replicate 32 9) (replicate 16 4)) (file_id_for mem_env a_db)
        (replicate 16 4) 0 raw (slice 0 PHYS_BLOCK out)"
proof -
  let ?u = "replicate 16 4 :: bytes" and ?nk = "replicate 32 9 :: bytes"
  let ?old = "db_key mem_env (dek rot_pool) ?u" and ?new = "db_key mem_env ?nk ?u" and ?fid = "file_id_for mem_env a_db"
  have k: "key_ok (mem_env, ?old)" "key_ok (mem_env, ?new)" by (simp_all add: key_ok_def len_simps)
  let ?pl = "replicate BLOCK_SIZE 6 :: bytes"
  obtain raw where raw: "open_into mem_env ?old ?fid ?u 0 raw = Inr ?pl" "length raw = PHYS_BLOCK"
    using block_box.seal_draw [OF k(1), of ?pl "[Some (replicate 24 1)]" "replicate 24 1" "[]" "(?fid, ?u, 0)"]
    by (auto simp: NONCE_LEN_def TAG_LEN_def PHYS_BLOCK_def)
  obtain blk where blk: "seal_into mem_env ?new ?fid ?u 0 ?pl [Some (replicate 24 9), Some (replicate 24 8)] = (Inr blk, [Some (replicate 24 8)])"
    using block_box.seal_draw [OF k(2), of ?pl "[Some (replicate 24 9), Some (replicate 24 8)]" "replicate 24 9" "[Some (replicate 24 8)]" "(?fid, ?u, 0)"]
    by (auto simp: NONCE_LEN_def)
  define m where "m = MANIFEST_MAGIC @ ?u @ replicate 40 (0 :: byte)"
  have m: "length m = MANIFEST_HDR_LEN" "slice 0 8 m = MANIFEST_MAGIC" "slice 8 16 m = ?u"
    by (simp_all add: m_def MANIFEST_MAGIC_def MANIFEST_HDR_LEN_def slice_def)
  have ns: "name_ok a_db" "name_ok (manifest_name a_db)" by (rule name_ok_ascii; auto simp: manifest_name_def)+
  have ne: "manifest_name a_db \<noteq> a_db" by code_simp
  obtain p1 where p1: "pool_inv mem_env (\<lambda>h. h) p1" "stored (\<lambda>h. h) p1 = [a_db \<mapsto> raw]" "length (available p1) = 2" "pool_rest p1 = pool_rest rot_pool"
    using put_file_ex [OF rot_pool_inv(1) _ ns(1), of raw] raw(2) by (auto simp: rot_pool_inv(5,6) size_defs)
  obtain p where p: "pool_inv mem_env (\<lambda>h. h) p" "stored (\<lambda>h. h) p = [a_db \<mapsto> raw, manifest_name a_db \<mapsto> m]" "pool_rest p = pool_rest rot_pool"
    using put_file_ex [OF p1(1) _ ns(2), of m] ne m(1) p1(2-4) by (auto simp: MANIFEST_HDR_LEN_def)
  have d: "dek p = dek rot_pool" "p_rng p = [Some (replicate 24 9), Some (replicate 24 8)]"
    using anchor_rest(3,4) [OF p(3)] by (simp_all add: rot_pool_def anchor_pool_def)
  have st: "stored (\<lambda>h. h) p a_db = Some raw" "stored (\<lambda>h. h) p (manifest_name a_db) = Some m" using ne by (simp_all add: p(2))
  have x: "export_raw mem_env (manifest_name a_db) p = Inr m" "export_raw mem_env a_db p = Inr raw" "has_filename p a_db"
    using export_effect [OF p(1)] st by (simp_all add: has_filename_stored [of _ _ "\<lambda>h. h"])
  have n: "length raw div PHYS_BLOCK = 1" unfolding raw(2) by (simp add: size_defs)
  then have one: "[0..<length raw div PHYS_BLOCK] = [0]" by simp
  have sl: "slice (0 * PHYS_BLOCK) PHYS_BLOCK raw = raw" by (simp add: slice_def raw(2))
  have rb: "reseal_blocks mem_env ?old ?new ?fid ?u raw [0] (p_rng p) = (Inr blk, [Some (replicate 24 8)])"
    using raw(1) blk sl by (simp add: d(2))
  have rs: "reseal_slots mem_env ?old ?new f ?u m 0 r = (Inr [], r)" for f r
    by (subst reseal_slots.simps) (simp add: m(1) size_defs Let_def)
  obtain p' where e: "reseal_db_ciphertext mem_env a_db ?nk p = (Inr [(a_db, blk), (manifest_name a_db, take MANIFEST_HDR_LEN m)], p')"
    using x m one rb rs by (simp add: reseal_db_ciphertext_def Let_def d(1) MANIFEST_HDR_LEN_def)
  from reseal_rekeys [OF p(1) _ _ st m(3) [symmetric] e]
  have "rekeyed mem_env (db_key mem_env (dek p) ?u) ?new ?fid ?u 0 (slice (0 * PHYS_BLOCK) PHYS_BLOCK raw) (slice (0 * PHYS_BLOCK) PHYS_BLOCK blk)"
    by (auto simp: n)
  then show ?thesis using e st(1) raw(2) sl by (intro exI [of _ p]) auto
qed

end
