(* ===== verification/BTree.thy ===== *)
theory BTree
  imports Prelude
begin

text \<open>
  The standard library's \<open>BTreeMap\<close>: a finite map whose iteration order is the key order.
  It is the list of its entries with strictly ascending keys; the interface locale states
  what its clients rely on, and the list operations interpret it.
\<close>

section \<open>Interface\<close>

locale ordered_map =
  fixes entries :: "'m \<Rightarrow> ('k :: linorder \<times> 'v) list"
    and get :: "'m \<Rightarrow> 'k \<Rightarrow> 'v option"
    and insert_key :: "'k \<Rightarrow> 'v \<Rightarrow> 'm \<Rightarrow> 'm"
    and invar :: "'m \<Rightarrow> bool"
  assumes get_entries: "invar m \<Longrightarrow> get m k = map_of (entries m) k"
    and ascending: "invar m \<Longrightarrow> sorted_wrt (<) (map fst (entries m))"
    and insert_invar: "invar m \<Longrightarrow> invar (insert_key k v m)"
    and get_insert: "invar m \<Longrightarrow> get (insert_key k v m) k' = (if k' = k then Some v else get m k')"
begin

lemma distinct_keys: "invar m \<Longrightarrow> distinct (map fst (entries m))"
  using ascending strict_sorted_iff by blast

lemma get_Some_iff: "invar m \<Longrightarrow> get m k = Some v \<longleftrightarrow> (k, v) \<in> set (entries m)"
  by (simp add: get_entries distinct_keys map_of_eq_Some_iff)

lemma get_None_iff: "invar m \<Longrightarrow> get m k = None \<longleftrightarrow> k \<notin> fst ` set (entries m)"
  by (simp add: get_entries map_of_eq_None_iff)

text \<open>Iteration order is a function of the contents: equal maps have equal entry lists.\<close>

lemma extensional:
  assumes "invar m" and "invar n" and "\<And>k. get m k = get n k"
  shows "entries m = entries n"
proof -
  have s: "sorted (map fst (entries m))" "sorted (map fst (entries n))"
    "distinct (map fst (entries m))" "distinct (map fst (entries n))"
    using assms(1,2) ascending strict_sorted_iff by blast+
  have "set (entries m) = set (entries n)"
    using assms(3) get_Some_iff [OF assms(1)] get_Some_iff [OF assms(2)] by auto
  then show ?thesis
    using s by (intro map_sorted_distinct_set_unique [of fst]) (simp_all add: distinct_map)
qed

end

section \<open>The sorted list of entries\<close>

fun bt_insert :: "'k :: linorder \<Rightarrow> 'v \<Rightarrow> ('k \<times> 'v) list \<Rightarrow> ('k \<times> 'v) list" where
  "bt_insert k v [] = [(k, v)]"
| "bt_insert k v (e # m) =
     (if k < fst e then (k, v) # e # m
      else if k = fst e then (k, v) # m
      else e # bt_insert k v m)"

definition bt_get :: "('k \<times> 'v) list \<Rightarrow> 'k \<Rightarrow> 'v option" where
  "bt_get m k = map_of m k"

definition bt_inv :: "('k :: linorder \<times> 'v) list \<Rightarrow> bool" where
  "bt_inv m \<longleftrightarrow> sorted_wrt (<) (map fst m)"

lemma set_keys_bt_insert: "fst ` set (bt_insert k v m) = insert k (fst ` set m)"
  by (induction m) auto

lemma bt_insert_mem: "e \<in> set (bt_insert k v m) \<Longrightarrow> e = (k, v) \<or> e \<in> set m"
  by (induction m) (auto split: if_splits)

lemma bt_inv_insert: "bt_inv m \<Longrightarrow> bt_inv (bt_insert k v m)"
proof (induction m)
  case Nil
  then show ?case by (simp add: bt_inv_def)
next
  case (Cons e m)
  then have i: "bt_inv (bt_insert k v m)" by (simp add: bt_inv_def)
  have "x \<in> fst ` set (bt_insert k v m) \<Longrightarrow> \<not> k < fst e \<Longrightarrow> k \<noteq> fst e \<Longrightarrow> fst e < x" for x
    using Cons.prems by (auto simp: set_keys_bt_insert bt_inv_def)
  then show ?case using Cons.prems i by (auto simp: bt_inv_def image_iff)
qed

lemma map_of_bt_insert:
  "bt_inv m \<Longrightarrow> map_of (bt_insert k v m) k' = (if k' = k then Some v else map_of m k')"
proof (induction m)
  case (Cons e m)
  have "map_of m k = None" if "k < fst e"
    using Cons.prems that by (force simp: bt_inv_def map_of_eq_None_iff)
  with Cons show ?case by (cases e) (auto simp: bt_inv_def)
qed simp

lemma bt_insert_snoc:
  "(\<And>e. e \<in> set m \<Longrightarrow> fst e < k) \<Longrightarrow> bt_insert k v m = m @ [(k, v)]"
  by (induction m) fastforce+

interpretation bt: ordered_map "\<lambda>m. m" bt_get bt_insert bt_inv
  by unfold_locales (simp_all add: bt_get_def bt_inv_insert map_of_bt_insert, simp add: bt_inv_def)

end
