(* ===== verification/Sync.thy ===== *)
theory Sync
  imports Crypto_Core Codec BTree
begin

text \<open>
  \<open>crates/freehold/src/sync.rs\<close>: version vectors, the sealed sync blob, the classification of
  an incoming vector with its deterministic fork winner, and the in-memory relay.
\<close>

section \<open>Version vectors\<close>

type_synonym version_vector = "(bytes \<times> u64) list"

datatype relation = EqualVV | Dominates | DominatedBy | Concurrent

datatype sync_error =
    SLengthOverflow | STruncated | VVLengthOverflow | VVTruncated | VVNotAscending
  | VVZero | BlobOpenFailed | TrailingBytes

definition sat_add :: "u64 \<Rightarrow> u64 \<Rightarrow> u64" where
  "sat_add a b = (if unat a + unat b < 2 ^ 64 then a + b else - 1)"

definition vv_new :: version_vector where "vv_new = []"

definition vv_get :: "version_vector \<Rightarrow> bytes \<Rightarrow> u64" where
  "vv_get v device_id = (case bt_get v device_id of None \<Rightarrow> 0 | Some c \<Rightarrow> c)"

definition vv_increment :: "bytes \<Rightarrow> version_vector \<Rightarrow> version_vector" where
  "vv_increment device_id v = bt_insert device_id (sat_add (vv_get v device_id) 1) v"

text \<open>\<open>entry(id).or_insert(0)\<close> followed by the conditional overwrite.\<close>

definition vv_raise :: "bytes \<times> u64 \<Rightarrow> version_vector \<Rightarrow> version_vector" where
  "vv_raise e v = (let old = vv_get v (fst e) in bt_insert (fst e) (if snd e > old then snd e else old) v)"

definition vv_merge_max :: "version_vector \<Rightarrow> version_vector \<Rightarrow> version_vector" where
  "vv_merge_max v other = fold vv_raise other v"

definition vv_total_count :: "version_vector \<Rightarrow> u64" where
  "vv_total_count v = fold (\<lambda>e a. sat_add a (snd e)) v 0"

definition vv_device_id_set :: "version_vector \<Rightarrow> bytes list" where
  "vv_device_id_set v = map fst (filter (\<lambda>e. snd e > 0) v)"

definition vv_relation :: "version_vector \<Rightarrow> version_vector \<Rightarrow> relation" where
  "vv_relation v other =
     (let ids = map fst v @ map fst other;
          self_greater = list_ex (\<lambda>i. vv_get v i > vv_get other i) ids;
          other_greater = list_ex (\<lambda>i. vv_get other i > vv_get v i) ids
      in case (self_greater, other_greater) of
           (False, False) \<Rightarrow> EqualVV
         | (True, False) \<Rightarrow> Dominates
         | (False, True) \<Rightarrow> DominatedBy
         | (True, True) \<Rightarrow> Concurrent)"

definition vv_nonzero :: "version_vector \<Rightarrow> version_vector" where
  "vv_nonzero v = filter (\<lambda>e. snd e > 0) v"

definition vv_entry :: "bytes \<times> u64 \<Rightarrow> bytes" where
  "vv_entry e = fst e @ u64_le (snd e)"

definition vv_encode :: "version_vector \<Rightarrow> bytes" where
  "vv_encode v =
     (let entries = vv_nonzero v in nat_le 4 (length entries) @ concat (map vv_entry entries))"

section \<open>The cursor and the decoder\<close>

definition sync_take :: "bytes \<Rightarrow> nat \<Rightarrow> nat \<Rightarrow> sync_error + (bytes \<times> nat)" where
  "sync_take = cur_take USIZE_MAX_32 SLengthOverflow STruncated"

definition sync_take_u32 :: "bytes \<Rightarrow> nat \<Rightarrow> sync_error + (nat \<times> nat)" where
  "sync_take_u32 b at = try_then (sync_take b at 4) (\<lambda>(s, at'). Inr (le_nat s, at'))"

fun vv_decode_entries ::
  "bytes \<Rightarrow> nat \<Rightarrow> bytes option \<Rightarrow> version_vector \<Rightarrow> nat \<Rightarrow> sync_error + (version_vector \<times> nat)" where
  "vv_decode_entries bytes 0 prev counts at = Inr (counts, at)"
| "vv_decode_entries bytes (Suc n) prev counts at =
     try_then (sync_take bytes at 16) (\<lambda>(i, at1).
       if (case prev of None \<Rightarrow> False | Some p \<Rightarrow> i \<le> p) then Inl VVNotAscending
       else try_then (sync_take bytes at1 8) (\<lambda>(c, at2).
         let count = le_u64 c in
         if count = 0 then Inl VVZero
         else vv_decode_entries bytes n (Some i) (bt_insert i count counts) at2))"

definition vv_decode :: "bytes \<Rightarrow> nat \<Rightarrow> sync_error + (version_vector \<times> nat)" where
  "vv_decode bytes at =
     try_then (sync_take_u32 bytes at) (\<lambda>(n, at1).
       if n * 24 > USIZE_MAX_32 then Inl VVLengthOverflow
       else if at1 + n * 24 > USIZE_MAX_32 then Inl VVLengthOverflow
       else if at1 + n * 24 > length bytes then Inl VVTruncated
       else vv_decode_entries bytes n None [] at1)"

section \<open>Sync blobs\<close>

definition BLOB_AAD :: bytes where "BLOB_AAD = ascii ''freehold-sync-blob-v1''"

record sync_blob =
  sb_uuid :: bytes
  sb_vv :: version_vector
  sb_image :: bytes

definition blob_encode_inner :: "sync_blob \<Rightarrow> bytes" where
  "blob_encode_inner b =
     sb_uuid b @ vv_encode (sb_vv b) @ nat_le 4 (length (sb_image b)) @ sb_image b"

definition blob_seal ::
  "'z prims_scheme \<Rightarrow> sync_blob \<Rightarrow> crypto \<Rightarrow> rng \<Rightarrow> (crypto_error + bytes) \<times> rng" where
  "blob_seal P b sync r = seal_bytes P sync BLOB_AAD (blob_encode_inner b) r"

definition blob_decode_inner :: "bytes \<Rightarrow> sync_error + sync_blob" where
  "blob_decode_inner inner =
     try_then (sync_take inner 0 16) (\<lambda>(u, at1).
     try_then (vv_decode inner at1) (\<lambda>(vv, at2).
     try_then (sync_take_u32 inner at2) (\<lambda>(ilen, at3).
     try_then (sync_take inner at3 ilen) (\<lambda>(image, at4).
       if at4 \<noteq> length inner then Inl TrailingBytes
       else Inr \<lparr>sb_uuid = u, sb_vv = vv, sb_image = image\<rparr>))))"

definition blob_open :: "'z prims_scheme \<Rightarrow> bytes \<Rightarrow> crypto \<Rightarrow> sync_error + sync_blob" where
  "blob_open P sealed sync =
     try_then (map_err (\<lambda>_. BlobOpenFailed) (open_bytes P sync BLOB_AAD sealed)) blob_decode_inner"

section \<open>Reconciliation\<close>

datatype merge_outcome = FastForward | Stale | Fork (winner_is_incoming: bool)

definition incoming_wins :: "version_vector \<Rightarrow> version_vector \<Rightarrow> bool" where
  "incoming_wins local_vv incoming_vv =
     (let lt = vv_total_count local_vv; it = vv_total_count incoming_vv in
      if it \<noteq> lt then it > lt
      else let ls = vv_device_id_set local_vv; is = vv_device_id_set incoming_vv in
      if is \<noteq> ls then is < ls
      else vv_encode incoming_vv < vv_encode local_vv)"

definition reconcile :: "version_vector \<Rightarrow> version_vector \<Rightarrow> merge_outcome" where
  "reconcile local_vv incoming_vv =
     (case vv_relation incoming_vv local_vv of
        Dominates \<Rightarrow> FastForward
      | EqualVV \<Rightarrow> Stale
      | DominatedBy \<Rightarrow> Stale
      | Concurrent \<Rightarrow> Fork (incoming_wins local_vv incoming_vv))"

section \<open>The in-memory relay\<close>

text \<open>One append-only log of sealed blobs per bucket.\<close>

type_synonym relay = "(bytes \<times> bytes list) list"

definition relay_log :: "relay \<Rightarrow> bytes \<Rightarrow> bytes list" where
  "relay_log logs sync_id = (case map_of logs sync_id of None \<Rightarrow> [] | Some l \<Rightarrow> l)"

definition relay_put :: "bytes \<Rightarrow> bytes \<Rightarrow> relay \<Rightarrow> nat \<times> relay" where
  "relay_put sync_id sealed logs =
     (let log = relay_log logs sync_id @ [sealed]
      in (length log - 1, (sync_id, log) # filter (\<lambda>e. fst e \<noteq> sync_id) logs))"

definition relay_list :: "relay \<Rightarrow> bytes \<Rightarrow> nat \<Rightarrow> nat" where
  "relay_list logs sync_id since = length (relay_log logs sync_id) - since"

definition relay_get :: "relay \<Rightarrow> bytes \<Rightarrow> nat \<Rightarrow> bytes option" where
  "relay_get logs sync_id seq =
     (let l = relay_log logs sync_id in if seq < length l then Some (l ! seq) else None)"

section \<open>Facts about version vectors\<close>

definition vv_inv :: "version_vector \<Rightarrow> bool" where
  "vv_inv v \<longleftrightarrow> bt_inv v"

text \<open>A vector as the decoder yields it: 16-byte identifiers and no zero component.\<close>

definition vv_wf :: "version_vector \<Rightarrow> bool" where
  "vv_wf v \<longleftrightarrow> bt_inv v \<and> list_all (\<lambda>e. length (fst e) = 16 \<and> snd e > 0) v"

lemma vv_wf_inv: "vv_wf v \<Longrightarrow> bt_inv v"
  by (simp add: vv_wf_def)

lemma vv_nonzero_wf: "vv_wf v \<Longrightarrow> vv_nonzero v = v"
  by (simp add: vv_wf_def vv_nonzero_def list_all_iff)

lemma vv_get_notin: "i \<notin> fst ` set v \<Longrightarrow> vv_get v i = 0"
  unfolding vv_get_def bt_get_def by (metis map_of_eq_None_iff option.case(1))

lemma vv_get_less_mem: "vv_get w i < vv_get v i \<Longrightarrow> i \<in> fst ` set v"
  using vv_get_notin [of i v] by fastforce

lemma vv_get_insert:
  "bt_inv v \<Longrightarrow> vv_get (bt_insert i c v) j = (if j = i then c else vv_get v j)"
  by (simp add: vv_get_def bt.get_insert)

lemma vv_relation_iff:
  "vv_relation v w =
     (if \<exists>i. vv_get w i < vv_get v i
      then (if \<exists>i. vv_get v i < vv_get w i then Concurrent else Dominates)
      else (if \<exists>i. vv_get v i < vv_get w i then DominatedBy else EqualVV))"
proof -
  have "list_ex (\<lambda>i. vv_get w i < vv_get v i) (map fst v @ map fst w)
      \<longleftrightarrow> (\<exists>i. vv_get w i < vv_get v i)" for v w
    unfolding list_ex_iff set_append set_map using vv_get_less_mem [of w _ v] by blast
  moreover have "list_ex (\<lambda>i. vv_get v i < vv_get w i) (map fst v @ map fst w)
      \<longleftrightarrow> (\<exists>i. vv_get v i < vv_get w i)" for v w
    unfolding list_ex_iff set_append set_map using vv_get_less_mem [of v _ w] by blast
  ultimately show ?thesis by (simp add: vv_relation_def Let_def)
qed

text \<open>The classification is the pointwise order of the components.\<close>

lemma vv_relation_order:
  "vv_relation v w = EqualVV \<longleftrightarrow> (\<forall>i. vv_get v i = vv_get w i)"
  "vv_relation v w = Dominates \<longleftrightarrow> (\<forall>i. vv_get w i \<le> vv_get v i) \<and> (\<exists>i. vv_get w i < vv_get v i)"
  "vv_relation v w = DominatedBy \<longleftrightarrow> (\<forall>i. vv_get v i \<le> vv_get w i) \<and> (\<exists>i. vv_get v i < vv_get w i)"
  "vv_relation v w = Concurrent \<longleftrightarrow> (\<exists>i. vv_get w i < vv_get v i) \<and> (\<exists>i. vv_get v i < vv_get w i)"
proof -
  have le: "(\<forall>i. vv_get x i \<le> vv_get y i) \<longleftrightarrow> \<not> (\<exists>i. vv_get y i < vv_get x i)" for x y
    by (simp add: not_less)
  have eq: "(\<forall>i. vv_get v i = vv_get w i)
      \<longleftrightarrow> (\<forall>i. vv_get v i \<le> vv_get w i) \<and> (\<forall>i. vv_get w i \<le> vv_get v i)"
    by (auto intro: order_antisym)
  show "vv_relation v w = EqualVV \<longleftrightarrow> (\<forall>i. vv_get v i = vv_get w i)"
    "vv_relation v w = Dominates \<longleftrightarrow> (\<forall>i. vv_get w i \<le> vv_get v i) \<and> (\<exists>i. vv_get w i < vv_get v i)"
    "vv_relation v w = DominatedBy \<longleftrightarrow> (\<forall>i. vv_get v i \<le> vv_get w i) \<and> (\<exists>i. vv_get v i < vv_get w i)"
    "vv_relation v w = Concurrent \<longleftrightarrow> (\<exists>i. vv_get w i < vv_get v i) \<and> (\<exists>i. vv_get v i < vv_get w i)"
    unfolding eq unfolding le vv_relation_iff by simp_all
qed

lemma vv_raise_inv: "bt_inv v \<Longrightarrow> bt_inv (vv_raise e v)"
  by (simp add: vv_raise_def Let_def bt_inv_insert)

lemma vv_get_raise:
  "bt_inv v \<Longrightarrow> vv_get (vv_raise e v) i = (if i = fst e then max (vv_get v i) (snd e) else vv_get v i)"
  by (auto simp: vv_raise_def Let_def vv_get_insert max_def)

lemma vv_merge_max_inv: "bt_inv v \<Longrightarrow> bt_inv (vv_merge_max v w)"
  by (induction w arbitrary: v) (auto simp: vv_merge_max_def vv_raise_inv)

lemma vv_get_Cons: "vv_get (e # w) i = (if i = fst e then snd e else vv_get w i)"
  by (cases e) (auto simp: vv_get_def bt_get_def)

lemma vv_get_merge:
  "bt_inv v \<Longrightarrow> bt_inv w \<Longrightarrow> vv_get (vv_merge_max v w) i = max (vv_get v i) (vv_get w i)"
proof (induction w arbitrary: v)
  case Nil
  then show ?case by (simp add: vv_merge_max_def vv_get_def [of "[]"] bt_get_def)
next
  case (Cons e w)
  have w: "bt_inv w" and e: "fst e \<notin> fst ` set w"
    using Cons.prems(2) by (auto simp: bt_inv_def)
  have "vv_get (vv_merge_max v (e # w)) i = max (vv_get (vv_raise e v) i) (vv_get w i)"
    using Cons.IH [of "vv_raise e v"] Cons.prems(1) w vv_raise_inv by (simp add: vv_merge_max_def)
  also have "\<dots> = max (vv_get v i) (vv_get (e # w) i)"
    using Cons.prems(1) e vv_get_notin [of i w] by (auto simp: vv_get_raise vv_get_Cons)
  finally show ?case .
qed

section \<open>The wire form of a vector\<close>

text \<open>The identifiers are \<open>[u8; 16]\<close> in the code.\<close>

definition vv_typed :: "version_vector \<Rightarrow> bool" where
  "vv_typed v \<longleftrightarrow> bt_inv v \<and> list_all (\<lambda>e. length (fst e) = 16) v"

lemma vv_wf_typed: "vv_wf v \<Longrightarrow> vv_typed v"
  by (auto simp: vv_wf_def vv_typed_def list_all_iff)

lemma bt_inv_filter: "bt_inv v \<Longrightarrow> bt_inv (filter p v)"
  by (auto simp: bt_inv_def sorted_wrt_map sorted_wrt_filter)

lemma vv_nonzero_typed: "vv_typed v \<Longrightarrow> vv_wf (vv_nonzero v)"
  by (auto simp: vv_typed_def vv_wf_def vv_nonzero_def bt_inv_filter list_all_iff)

lemma vv_get_nonzero: "bt_inv v \<Longrightarrow> vv_get (vv_nonzero v) i = vv_get v i"
proof (induction v)
  case Nil
  then show ?case by (simp add: vv_nonzero_def)
next
  case (Cons e v)
  have IH: "vv_get (vv_nonzero v) i = vv_get v i" using Cons by (simp add: bt_inv_def)
  have "fst e \<notin> fst ` set v" using Cons.prems by (auto simp: bt_inv_def)
  then have "snd e = 0 \<Longrightarrow> i = fst e \<Longrightarrow> vv_get v i = 0" using vv_get_notin by blast
  moreover have "vv_nonzero (e # v) = (if snd e = 0 then vv_nonzero v else e # vv_nonzero v)"
    by (simp add: vv_nonzero_def word_neq_0_conv)
  ultimately show ?case using IH by (auto simp: vv_get_Cons)
qed

lemma length_vv_entry [len_simps]: "length (fst e) = 16 \<Longrightarrow> length (vv_entry e) = 24"
  by (simp add: vv_entry_def)

lemma vv_entry_inj: "length (fst e) = length (fst f) \<Longrightarrow> vv_entry e = vv_entry f \<longleftrightarrow> e = f"
  by (auto simp: vv_entry_def prod_eq_iff)

lemma vv_entry_nonempty [simp]: "vv_entry e \<noteq> []"
proof
  assume "vv_entry e = []"
  then have "length (vv_entry e) = 0" by simp
  then show False by (simp add: vv_entry_def)
qed

lemma vv_entries_inj:
  "list_all (\<lambda>e. length (fst e) = 16) a \<Longrightarrow> list_all (\<lambda>e. length (fst e) = 16) b \<Longrightarrow>
   concat (map vv_entry a) = concat (map vv_entry b) \<Longrightarrow> a = b"
proof (induction a arbitrary: b)
  case Nil
  then show ?case by (cases b) simp_all
next
  case (Cons e a)
  then obtain f b' where b: "b = f # b'" by (cases b) simp_all
  have "vv_entry e = vv_entry f \<and> concat (map vv_entry a) = concat (map vv_entry b')"
    using Cons.prems b by (simp add: length_vv_entry)
  moreover have "length (fst e) = length (fst f)" using Cons.prems b by simp
  ultimately have "e = f" using vv_entry_inj by blast
  with Cons b show ?case by simp
qed

text \<open>Equal encodings are equal vectors, zero components aside.\<close>

lemma vv_encode_inj:
  assumes "vv_typed v" and "vv_typed w" and "vv_encode v = vv_encode w"
  shows "vv_get v i = vv_get w i"
proof -
  from assms(3) have "concat (map vv_entry (vv_nonzero v)) = concat (map vv_entry (vv_nonzero w))"
    by (simp add: vv_encode_def Let_def)
  then have "vv_nonzero v = vv_nonzero w"
    by (rule vv_entries_inj [rotated 2])
      (use assms(1,2) in \<open>auto simp: vv_typed_def vv_nonzero_def list_all_iff\<close>)
  then show ?thesis
    using vv_get_nonzero [of v i] vv_get_nonzero [of w i] assms(1,2) by (simp add: vv_typed_def)
qed

lemma view_sync_take:
  "view USIZE_MAX_32 buf at (x @ rest) \<Longrightarrow> n = length x \<Longrightarrow> sync_take buf at n = Inr (x, at + n)"
  unfolding sync_take_def by (rule view_take)

lemma bt_inv_snoc_less:
  "bt_inv (m @ e # es) \<Longrightarrow> x \<in> set m \<Longrightarrow> fst x < fst e"
  by (auto simp: bt_inv_def sorted_wrt_append)

lemma view_decode_entries:
  "view USIZE_MAX_32 buf at (concat (map vv_entry es) @ rest) \<Longrightarrow> bt_inv (counts @ es) \<Longrightarrow>
   list_all (\<lambda>e. length (fst e) = 16 \<and> snd e > 0) es \<Longrightarrow>
   (\<And>p. prev = Some p \<Longrightarrow> p \<in> fst ` set counts) \<Longrightarrow>
   vv_decode_entries buf (length es) prev counts at = Inr (counts @ es, at + 24 * length es)"
proof (induction es arbitrary: counts at prev)
  case Nil
  then show ?case by simp
next
  case (Cons e es)
  obtain i c where e: "e = (i, c)" by fastforce
  have v: "view USIZE_MAX_32 buf at (i @ u64_le c @ concat (map vv_entry es) @ rest)"
    using Cons.prems(1) by (simp add: e vv_entry_def [of "(i, c)"])
  have li: "length i = 16" and c: "c \<noteq> 0" using Cons.prems(3) e by auto
  have v1: "view USIZE_MAX_32 buf (at + 16) (u64_le c @ concat (map vv_entry es) @ rest)"
    using v by (rule view_next) (simp add: li)
  have v2: "view USIZE_MAX_32 buf (at + 24) (concat (map vv_entry es) @ rest)"
    using v1 by (rule view_next) simp
  have asc: "x \<in> set counts \<Longrightarrow> fst x < i" for x
    using bt_inv_snoc_less [OF Cons.prems(2)] e by simp
  then have ins: "bt_insert i c counts = counts @ [(i, c)]" by (rule bt_insert_snoc)
  have prev: "\<not> (case prev of None \<Rightarrow> False | Some p \<Rightarrow> i \<le> p)"
    using Cons.prems(4) asc by (cases prev) (force simp: not_le)+
  have "vv_decode_entries buf (length es) (Some i) (counts @ [(i, c)]) (at + 24)
      = Inr ((counts @ [(i, c)]) @ es, at + 24 + 24 * length es)"
    using v2 Cons.prems(2,3) e by (intro Cons.IH) auto
  then show ?case
    using view_sync_take [OF v] view_sync_take [OF v1] li c prev ins e
    by (simp add: add.commute)
qed

lemma length_vv_entries: "vv_typed v \<Longrightarrow> length (concat (map vv_entry v)) = 24 * length v"
  by (rule length_concat_const) (auto simp: vv_typed_def list_all_iff length_vv_entry)

lemma length_vv_encode: "vv_wf v \<Longrightarrow> length (vv_encode v) = 4 + 24 * length v"
  by (simp add: vv_encode_def vv_nonzero_wf length_vv_entries vv_wf_typed)

lemma view_vv_decode:
  assumes wf: "vv_wf v" and b: "view USIZE_MAX_32 buf at (vv_encode v @ rest)"
  shows "vv_decode buf at = Inr (v, at + length (vv_encode v))"
    and "view USIZE_MAX_32 buf (at + length (vv_encode v)) rest"
proof -
  have v0: "view USIZE_MAX_32 buf at (nat_le 4 (length v) @ concat (map vv_entry v) @ rest)"
    using b wf by (simp add: vv_encode_def vv_nonzero_wf)
  have v1: "view USIZE_MAX_32 buf (at + 4) (concat (map vv_entry v) @ rest)"
    using v0 by (rule view_next) simp
  have fit: "at + 4 + 24 * length v \<le> length buf" and mx: "length buf \<le> USIZE_MAX_32"
    using v1 length_vv_entries [OF vv_wf_typed [OF wf]] by (auto simp: view_def)
  then have n: "length v < 256 ^ 4" by (simp add: USIZE_MAX_32_def)
  have t: "sync_take buf at 4 = Inr (nat_le 4 (length v), at + 4)"
    using view_sync_take [OF v0] by simp
  have d: "vv_decode_entries buf (length v) None [] (at + 4) = Inr ([] @ v, at + 4 + 24 * length v)"
    using wf by (intro view_decode_entries [OF v1]) (auto simp: vv_wf_def)
  show "vv_decode buf at = Inr (v, at + length (vv_encode v))"
    using t d fit mx n by (simp add: vv_decode_def sync_take_u32_def length_vv_encode [OF wf] mult.commute)
  show "view USIZE_MAX_32 buf (at + length (vv_encode v)) rest" using b by (rule view_next) simp
qed

interpretation vv_codec: prefix_codec vv_encode vv_decode vv_wf "\<lambda>n. n \<le> USIZE_MAX_32"
proof
  fix v and pre post :: bytes
  assume "vv_wf v" and "length (pre @ vv_encode v @ post) \<le> USIZE_MAX_32"
  then show "vv_decode (pre @ vv_encode v @ post) (length pre) = Inr (v, length pre + length (vv_encode v))"
    by (intro view_vv_decode(1) [where rest = post]) (auto intro: view_prefix)
qed

text \<open>Only canonical encodings decode: what the decoder accepts is what the encoder writes.\<close>

lemma sync_take_Inr_iff [result_simps]:
  "sync_take b at n = Inr (s, at') \<longleftrightarrow>
     at' = at + n \<and> s = slice at n b \<and> at + n \<le> USIZE_MAX_32 \<and> at + n \<le> length b"
  by (simp add: sync_take_def cur_take_Inr_iff)

lemma bt_inv_snoc_extend:
  "bt_inv counts \<Longrightarrow> (\<And>p. prev = Some p \<Longrightarrow> counts \<noteq> [] \<and> p = fst (last counts)) \<Longrightarrow>
   (prev = None \<Longrightarrow> counts = []) \<Longrightarrow> \<not> (case prev of None \<Rightarrow> False | Some p \<Rightarrow> i \<le> p) \<Longrightarrow>
   x \<in> set counts \<Longrightarrow> fst x < i"
proof -
  assume b: "bt_inv counts" and p: "\<And>p. prev = Some p \<Longrightarrow> counts \<noteq> [] \<and> p = fst (last counts)"
    and n: "prev = None \<Longrightarrow> counts = []" and c: "\<not> (case prev of None \<Rightarrow> False | Some p \<Rightarrow> i \<le> p)"
    and x: "x \<in> set counts"
  obtain q where q: "prev = Some q" using n x by (cases prev) auto
  obtain cs l where cs: "counts = cs @ [l]" using x by (metis append_butlast_last_id empty_iff empty_set)
  have "fst x \<le> fst l" using b x cs by (force simp: bt_inv_def sorted_wrt_append)
  also have "fst l < i" using p [OF q] q c cs by (simp add: not_le)
  finally show "fst x < i" .
qed

lemma decode_entries_canonical:
  assumes "vv_decode_entries buf n prev counts at = Inr (v, at')" and "bt_inv counts"
    and "\<And>p. prev = Some p \<Longrightarrow> counts \<noteq> [] \<and> p = fst (last counts)"
    and "prev = None \<Longrightarrow> counts = []"
  shows "\<exists>es. v = counts @ es \<and> length es = n \<and> bt_inv v
      \<and> list_all (\<lambda>e. length (fst e) = 16 \<and> snd e > 0) es
      \<and> at' = at + 24 * n \<and> slice at (24 * n) buf = concat (map vv_entry es)"
  using assms
proof (induction n arbitrary: prev counts at)
  case 0
  then show ?case by (simp add: slice_def)
next
  case (Suc n)
  let ?i = "slice at 16 buf" and ?c = "le_u64 (slice (at + 16) 8 buf)"
  from Suc.prems(1) have asc: "\<not> (case prev of None \<Rightarrow> False | Some p \<Rightarrow> ?i \<le> p)"
    and c: "?c \<noteq> 0" and l: "at + 24 \<le> length buf"
    and rec: "vv_decode_entries buf n (Some ?i) (bt_insert ?i ?c counts) (at + 24) = Inr (v, at')"
    by (auto simp: result_simps Let_def add.commute split: if_splits)
  have ins: "bt_insert ?i ?c counts = counts @ [(?i, ?c)]"
    using bt_inv_snoc_extend [OF Suc.prems(2-4) asc] by (rule bt_insert_snoc)
  have inv: "bt_inv (counts @ [(?i, ?c)])" using bt_inv_insert [OF Suc.prems(2), of ?i ?c] ins by simp
  obtain es where es: "v = (counts @ [(?i, ?c)]) @ es" "length es = n" "bt_inv v"
      "list_all (\<lambda>e. length (fst e) = 16 \<and> snd e > 0) es" "at' = at + 24 + 24 * n"
      "slice (at + 24) (24 * n) buf = concat (map vv_entry es)"
    using Suc.IH [OF rec [unfolded ins] inv] by auto
  have li: "length ?i = 16" using l by simp
  have "u64_le ?c = slice (at + 16) 8 buf" using l by simp
  then have "vv_entry (?i, ?c) = slice at 24 buf" using slice_add [of at 16 8 buf] by (simp add: vv_entry_def)
  then have "slice at (24 * Suc n) buf = concat (map vv_entry ((?i, ?c) # es))"
    using es(6) slice_add [of at 24 "24 * n" buf] by simp
  with es li c show ?case by (intro exI [of _ "(?i, ?c) # es"]) (simp add: word_neq_0_conv)
qed

lemma vv_decode_canonical:
  assumes "vv_decode buf at = Inr (v, at')"
  shows "vv_wf v \<and> at' = at + length (vv_encode v) \<and> at' \<le> length buf \<and> at' \<le> USIZE_MAX_32
    \<and> slice at (length (vv_encode v)) buf = vv_encode v"
proof -
  let ?n = "le_nat (slice at 4 buf)"
  from assms have l: "at + 4 + ?n * 24 \<le> length buf" "at + 4 + ?n * 24 \<le> USIZE_MAX_32"
    and rec: "vv_decode_entries buf ?n None [] (at + 4) = Inr (v, at')"
    by (auto simp: vv_decode_def sync_take_u32_def result_simps split: if_splits)
  obtain es where es: "v = [] @ es" "length es = ?n" "bt_inv v"
      "list_all (\<lambda>e. length (fst e) = 16 \<and> snd e > 0) es" "at' = at + 4 + 24 * ?n"
      "slice (at + 4) (24 * ?n) buf = concat (map vv_entry es)"
    using decode_entries_canonical [OF rec] by (auto simp: bt_inv_def)
  have wf: "vv_wf v" using es by (simp add: vv_wf_def)
  have len: "length (vv_encode v) = 4 + 24 * ?n" using length_vv_encode [OF wf] es by simp
  have "nat_le 4 (length v) = slice at 4 buf" using es l by (simp add: nat_le_le_nat')
  then have "slice at (4 + 24 * ?n) buf = vv_encode v"
    using es(1,6) slice_add [of at 4 "24 * ?n" buf] wf by (simp add: vv_encode_def vv_nonzero_wf)
  then show ?thesis using wf len es(5) l by simp
qed

section \<open>The sealed blob\<close>

definition blob_wf :: "sync_blob \<Rightarrow> bool" where
  "blob_wf b \<longleftrightarrow> length (sb_uuid b) = 16 \<and> vv_wf (sb_vv b)
     \<and> length (blob_encode_inner b) \<le> USIZE_MAX_32"

definition blob_decode_opt :: "bytes \<Rightarrow> sync_blob option" where
  "blob_decode_opt inner = (case blob_decode_inner inner of Inl e \<Rightarrow> None | Inr b \<Rightarrow> Some b)"

lemma blob_decode_encode:
  assumes "blob_wf b"
  shows "blob_decode_inner (blob_encode_inner b) = Inr b"
proof -
  let ?buf = "blob_encode_inner b" and ?vv = "vv_encode (sb_vv b)" and ?im = "sb_image b"
  have wf: "vv_wf (sb_vv b)" and u: "length (sb_uuid b) = 16" and l: "length ?buf \<le> USIZE_MAX_32"
    using assms by (auto simp: blob_wf_def)
  have v0: "view USIZE_MAX_32 ?buf 0 (sb_uuid b @ ?vv @ nat_le 4 (length ?im) @ ?im @ [])"
    using view_start [OF l] by (simp add: blob_encode_inner_def)
  have v1: "view USIZE_MAX_32 ?buf 16 (?vv @ nat_le 4 (length ?im) @ ?im @ [])"
    using v0 by (rule view_next) (simp add: u)
  note d = view_vv_decode [OF wf v1]
  have v3: "view USIZE_MAX_32 ?buf (16 + length ?vv + 4) (?im @ [])"
    using d(2) by (rule view_next) simp
  have il: "length ?im < 256 ^ 4" using v3 by (auto simp: view_def USIZE_MAX_32_def)
  have e: "16 + length ?vv + 4 + length ?im = length ?buf"
    using u by (simp add: blob_encode_inner_def)
  show ?thesis
    using view_sync_take [OF v0] d(1) view_sync_take [OF d(2)] view_sync_take [OF v3] il u e
    by (simp add: blob_decode_inner_def sync_take_u32_def)
qed

lemma blob_decode_canonical:
  assumes "blob_decode_inner inner = Inr b"
  shows "blob_wf b" and "blob_encode_inner b = inner"
proof -
  obtain at2 where vd: "vv_decode inner 16 = Inr (sb_vv b, at2)"
    and l: "16 \<le> length inner" and u: "sb_uuid b = slice 0 16 inner"
    and i: "sb_image b = slice (at2 + 4) (le_nat (slice at2 4 inner)) inner"
    and e: "at2 + 4 + le_nat (slice at2 4 inner) = length inner" and m: "length inner \<le> USIZE_MAX_32"
    using assms by (auto simp: blob_decode_inner_def sync_take_u32_def result_simps split: if_splits)
  note c = vv_decode_canonical [OF vd]
  have im: "length (sb_image b) = le_nat (slice at2 4 inner)" using i e by simp
  then have "nat_le 4 (length (sb_image b)) = slice at2 4 inner" using e by (simp add: nat_le_le_nat')
  then have "blob_encode_inner b = slice 0 16 inner @ slice 16 (length (vv_encode (sb_vv b))) inner
      @ slice at2 4 inner @ slice (at2 + 4) (le_nat (slice at2 4 inner)) inner"
    using c u i by (simp add: blob_encode_inner_def)
  also have "\<dots> = slice 0 (16 + length (vv_encode (sb_vv b)) + 4 + le_nat (slice at2 4 inner)) inner"
    using c by (simp only: slice_add add_0 append.assoc)
  also have "\<dots> = inner" using c e by (simp add: add.assoc)
  finally show r: "blob_encode_inner b = inner" .
  show "blob_wf b" using c r u l m by (simp add: blob_wf_def)
qed

interpretation blob: strict_codec blob_encode_inner blob_decode_opt blob_wf
  by unfold_locales
    (auto simp: blob_decode_opt_def blob_decode_encode dest: blob_decode_canonical split: sum.splits)

section \<open>Reconciliation decides the same on both sides\<close>

lemma incoming_wins_swap:
  assumes "vv_encode v \<noteq> vv_encode w"
  shows "incoming_wins w v \<longleftrightarrow> \<not> incoming_wins v w"
  using assms by (auto simp: incoming_wins_def Let_def)

lemma reconcile_order:
  "reconcile v w = FastForward \<longleftrightarrow> (\<forall>i. vv_get v i \<le> vv_get w i) \<and> (\<exists>i. vv_get v i < vv_get w i)"
  "reconcile v w = Stale \<longleftrightarrow> (\<forall>i. vv_get w i \<le> vv_get v i)"
  "reconcile v w = Fork b \<longleftrightarrow> (\<exists>i. vv_get v i < vv_get w i) \<and> (\<exists>i. vv_get w i < vv_get v i)
     \<and> b = incoming_wins v w"
  unfolding reconcile_def vv_relation_iff by (auto simp: not_less dest: leD)

text \<open>Vectors with the canonical wire form, as a type: a join semilattice under \<open>merge_max\<close>.\<close>

typedef vvec = "{v. vv_wf v}"
  by (rule exI [of _ "[]"]) (simp add: vv_wf_def bt_inv_def)

setup_lifting type_definition_vvec

lemma vv_raise_wf:
  "vv_wf v \<Longrightarrow> length (fst e) = 16 \<Longrightarrow> snd e > 0 \<Longrightarrow> vv_wf (vv_raise e v)"
  by (auto simp: vv_wf_def vv_raise_def Let_def bt_inv_insert list_all_iff dest: bt_insert_mem)

lemma vv_merge_wf: "vv_wf v \<Longrightarrow> vv_wf w \<Longrightarrow> vv_wf (vv_merge_max v w)"
proof (induction w arbitrary: v)
  case Nil
  then show ?case by (simp add: vv_merge_max_def)
next
  case (Cons e w)
  have "vv_wf w" and "vv_wf (vv_raise e v)"
    using Cons.prems vv_raise_wf [of v e] by (auto simp: vv_wf_def bt_inv_def)
  then show ?case using Cons.IH by (simp add: vv_merge_max_def)
qed

lemma vv_wf_get: "vv_wf v \<Longrightarrow> bt_get v i = (if vv_get v i = 0 then None else Some (vv_get v i))"
  by (force simp: vv_wf_def vv_get_def bt_get_def list_all_iff split: option.split dest: map_of_SomeD)

lemma vv_ext: "vv_wf v \<Longrightarrow> vv_wf w \<Longrightarrow> (\<And>i. vv_get v i = vv_get w i) \<Longrightarrow> v = w"
  by (rule bt.extensional) (simp_all add: vv_wf_get vv_wf_inv)

instantiation vvec :: "{order_bot, semilattice_sup}"
begin

lift_definition less_eq_vvec :: "vvec \<Rightarrow> vvec \<Rightarrow> bool" is "\<lambda>v w. \<forall>i. vv_get v i \<le> vv_get w i" .

definition less_vvec :: "vvec \<Rightarrow> vvec \<Rightarrow> bool" where
  "less_vvec v w \<longleftrightarrow> v \<le> w \<and> \<not> w \<le> v"

lift_definition sup_vvec :: "vvec \<Rightarrow> vvec \<Rightarrow> vvec" is vv_merge_max
  by (rule vv_merge_wf)

lift_definition bot_vvec :: vvec is "[]"
  by (simp add: vv_wf_def bt_inv_def)

instance
proof
  fix x y z :: vvec
  show "x < y \<longleftrightarrow> x \<le> y \<and> \<not> y \<le> x" by (rule less_vvec_def)
  show "x \<le> x" by transfer simp
  show "x \<le> y \<Longrightarrow> y \<le> z \<Longrightarrow> x \<le> z" by transfer (blast intro: order_trans)
  show "x \<le> y \<Longrightarrow> y \<le> x \<Longrightarrow> x = y" by transfer (blast intro: vv_ext order_antisym)
  show "x \<le> sup x y" by transfer (simp add: vv_get_merge vv_wf_inv)
  show "y \<le> sup x y" by transfer (simp add: vv_get_merge vv_wf_inv)
  show "y \<le> x \<Longrightarrow> z \<le> x \<Longrightarrow> sup y z \<le> x" by transfer (simp add: vv_get_merge vv_wf_inv)
  show "bot \<le> x" by transfer (simp add: vv_get_def [of "[]"] bt_get_def)
qed

end

text \<open>The laws of the semilattice on the lists: order and repetition of merges do not matter.\<close>

lemma vv_merge_laws:
  assumes "vv_wf u" and "vv_wf v" and "vv_wf w"
  shows "vv_merge_max v w = vv_merge_max w v"
    and "vv_merge_max (vv_merge_max u v) w = vv_merge_max u (vv_merge_max v w)"
    and "vv_merge_max v v = v"
proof -
  obtain a b c where u: "u = Rep_vvec a" and v: "v = Rep_vvec b" and w: "w = Rep_vvec c"
    using assms by (metis Abs_vvec_inverse mem_Collect_eq)
  show "vv_merge_max v w = vv_merge_max w v"
    unfolding v w sup_vvec.rep_eq [symmetric] by (simp add: sup.commute)
  show "vv_merge_max (vv_merge_max u v) w = vv_merge_max u (vv_merge_max v w)"
    unfolding u v w sup_vvec.rep_eq [symmetric] by (simp add: sup.assoc)
  show "vv_merge_max v v = v"
    unfolding v sup_vvec.rep_eq [symmetric] by simp
qed

lemma length_incr: "c \<noteq> -1 \<Longrightarrow> sat_add c 1 = c + 1 \<and> c < sat_add c 1" for c :: u64
proof -
  assume c: "c \<noteq> -1"
  note l = less_word_succ [OF c]
  have "unat (c + 1) < 2 ^ 64" using unsigned_less [of "c + 1"] by simp
  then show "sat_add c 1 = c + 1 \<and> c < sat_add c 1" using l by (simp add: sat_add_def)
qed

lemma sat_add_max: "sat_add (-1) 1 = -1"
  by (simp add: sat_add_def unsigned_minus_1_eq_mask mask_eq_exp_minus_1)

section \<open>Properties\<close>

text \<open>the classification of two vectors is their pointwise order, and the outcome of
  \<open>reconcile\<close> follows it: an incoming vector is applied only when it is at least the local one
  everywhere and above it somewhere, ignored when it is nowhere above, and a fork otherwise.\<close>

theorem reconcile_is_pointwise_order:
  "reconcile v w =
     (if \<forall>i. vv_get w i \<le> vv_get v i then Stale
      else if \<forall>i. vv_get v i \<le> vv_get w i then FastForward
      else Fork (incoming_wins v w))"
proof (cases "\<forall>i. vv_get w i \<le> vv_get v i")
  case True
  then have "reconcile v w = Stale" using reconcile_order(2) [of v w] by blast
  with True show ?thesis by presburger
next
  case n: False
  then have lt: "\<exists>i. vv_get v i < vv_get w i" by (simp add: not_le)
  show ?thesis
  proof (cases "\<forall>i. vv_get v i \<le> vv_get w i")
    case True
    with lt have "reconcile v w = FastForward" using reconcile_order(1) [of v w] by blast
    with n True show ?thesis by presburger
  next
    case False
    then have "\<exists>i. vv_get w i < vv_get v i" by (simp add: not_le)
    with lt have "reconcile v w = Fork (incoming_wins v w)" using reconcile_order(3) [of v w] by blast
    with n False show ?thesis by presburger
  qed
qed

text \<open>two devices that see each other's vectors agree on the fork and on its winner: the side
  that is told the incoming image wins is the other one's incoming image loses, so exactly one
  image wins.\<close>

theorem reconcile_same_winner:
  assumes "vv_typed v" and "vv_typed w" and "reconcile v w = Fork b"
  shows "reconcile w v = Fork (\<not> b)"
proof -
  from assms(3) have c: "\<exists>i. vv_get v i < vv_get w i" "\<exists>i. vv_get w i < vv_get v i"
    and b: "b = incoming_wins v w" using reconcile_order(3) [of v w b] by blast+
  then have "vv_encode v \<noteq> vv_encode w"
    using vv_encode_inj [OF assms(1,2)] by force
  then have "incoming_wins w v \<longleftrightarrow> \<not> b" using b incoming_wins_swap by blast
  then show ?thesis using c reconcile_order(3) [of w v "\<not> b"] by blast
qed

definition vv_a2 :: version_vector where "vv_a2 = [(replicate 16 1, 2)]"
definition vv_a1b1 :: version_vector where "vv_a1b1 = [(replicate 16 1, 1), (replicate 16 2, 1)]"

lemma vv_samples_typed: "vv_typed vv_a2" "vv_typed vv_a1b1"
  by (auto simp: vv_typed_def bt_inv_def vv_a2_def vv_a1b1_def numeral_eq_Suc)

lemma vv_samples_fork: "reconcile vv_a2 vv_a1b1 = Fork (incoming_wins vv_a2 vv_a1b1)"
proof -
  have "vv_get vv_a1b1 (replicate 16 1) < vv_get vv_a2 (replicate 16 1)"
    and "vv_get vv_a2 (replicate 16 2) < vv_get vv_a1b1 (replicate 16 2)"
    by (simp_all add: vv_get_def bt_get_def vv_a2_def vv_a1b1_def)
  then show ?thesis using reconcile_order(3) by blast
qed

theorem reconcile_same_winner_witness:
  "reconcile vv_a1b1 vv_a2 = Fork (\<not> incoming_wins vv_a2 vv_a1b1)"
  using reconcile_same_winner [OF vv_samples_typed vv_samples_fork] .

text \<open>C35: after a fork both devices store the merge of the two vectors; whichever side computes
  it the bytes are the same, it is above both, and neither vector can fork or be applied again.\<close>

theorem merge_converges:
  assumes "vv_wf v" and "vv_wf w"
  shows "vv_encode (vv_merge_max v w) = vv_encode (vv_merge_max w v)
    \<and> vv_wf (vv_merge_max v w)
    \<and> (\<forall>i. vv_get (vv_merge_max v w) i = max (vv_get v i) (vv_get w i))
    \<and> reconcile (vv_merge_max v w) v = Stale \<and> reconcile (vv_merge_max v w) w = Stale"
  using assms
  by (simp add: vv_merge_laws(1) [OF assms(1) assms] vv_merge_wf vv_get_merge vv_wf_inv
      reconcile_order max.commute)

lemma vv_samples_wf: "vv_wf vv_a2" "vv_wf vv_a1b1"
  using vv_samples_typed by (auto simp: vv_typed_def vv_wf_def vv_a2_def vv_a1b1_def)

theorem merge_converges_witness:
  "reconcile (vv_merge_max vv_a2 vv_a1b1) vv_a1b1 = Stale"
  using merge_converges [OF vv_samples_wf] by simp

text \<open>a local commit makes the vector strictly newer, so the other side fast-forwards; only a
  counter at its largest value saturates, and then the commit is not seen.\<close>

theorem increment_fast_forwards:
  assumes "bt_inv v"
  shows "reconcile v (vv_increment d v) = (if vv_get v d = -1 then Stale else FastForward)"
proof (cases "vv_get v d = -1")
  case True
  then show ?thesis using assms
    by (simp add: reconcile_order vv_increment_def vv_get_insert sat_add_max)
next
  case False
  note l = length_incr [OF False]
  have g: "vv_get (vv_increment d v) i = (if i = d then sat_add (vv_get v d) 1 else vv_get v i)" for i
    using assms by (simp add: vv_increment_def vv_get_insert)
  have "\<forall>i. vv_get v i \<le> vv_get (vv_increment d v) i" 
    using less_imp_le [OF conjunct2 [OF l]] unfolding g by simp
  moreover have "vv_get v d < vv_get (vv_increment d v) d"
    using conjunct2 [OF l] unfolding g by simp
  ultimately show ?thesis using False by (auto simp: reconcile_order)
qed

theorem increment_fast_forwards_witness:
  "reconcile vv_a2 (vv_increment (replicate 16 2) vv_a2) = FastForward"
  using increment_fast_forwards [of vv_a2 "replicate 16 2"]
  by (simp add: vv_a2_def vv_get_def bt_get_def bt_inv_def)

text \<open>the decoder of a vector inside a larger buffer accepts exactly the canonical encodings:
  it inverts the encoder, and whatever it accepts are the bytes the encoder writes for it.\<close>

theorem vv_decode_iff_canonical:
  assumes "length buf \<le> USIZE_MAX_32" and "at \<le> length buf"
  shows "vv_decode buf at = Inr (v, at') \<longleftrightarrow>
     vv_wf v \<and> at' = at + length (vv_encode v) \<and> at' \<le> length buf
     \<and> slice at (length (vv_encode v)) buf = vv_encode v"
proof
  assume "vv_decode buf at = Inr (v, at')"
  from vv_decode_canonical [OF this]
  show "vv_wf v \<and> at' = at + length (vv_encode v) \<and> at' \<le> length buf
     \<and> slice at (length (vv_encode v)) buf = vv_encode v" by simp
next
  assume a: "vv_wf v \<and> at' = at + length (vv_encode v) \<and> at' \<le> length buf
     \<and> slice at (length (vv_encode v)) buf = vv_encode v"
  then have "drop at buf = vv_encode v @ drop (length (vv_encode v)) (drop at buf)"
    by (metis append_take_drop_id slice_def)
  then have "buf = take at buf @ vv_encode v @ drop (length (vv_encode v)) (drop at buf)"
    by (metis append_take_drop_id)
  then have "view USIZE_MAX_32 buf at (vv_encode v @ drop (length (vv_encode v)) (drop at buf))"
    unfolding view_def using assms by (intro conjI exI [of _ "take at buf"]) simp_all
  then show "vv_decode buf at = Inr (v, at')" using view_vv_decode(1) a by blast
qed

theorem vv_decode_iff_canonical_witness:
  "vv_decode (nat_le 4 0 @ [9]) 0 = Inr ([], 4)"
  using vv_decode_iff_canonical [of "nat_le 4 0 @ [9]" 0 "[]" 4]
  by (simp add: USIZE_MAX_32_def vv_encode_def vv_nonzero_def vv_wf_def bt_inv_def slice_def)

lemma blob_seal_opens:
  assumes "aead_ok P" and "length key = 32" and "blob_wf b" and "blob_seal P b key r = (Inr sealed, r')"
  shows "blob_open P sealed key = Inr b"
proof -
  have k: "key_ok (P, key)" using assms by (simp add: key_ok_def)
  have l: "length (blob_encode_inner b) < 2 ^ 32" using assms(3) by (auto simp: blob_wf_def USIZE_MAX_32_def)
  show ?thesis
    using bytes_box.seal_Inr(1) [of "(P, key)" "blob_encode_inner b" BLOB_AAD r sealed r'] k l assms(3,4)
    by (simp add: blob_seal_def blob_open_def blob_decode_encode)
qed

text \<open>a sealed sync blob opens under its key to the identifier, vector and image that were
  sealed; and whatever opens is the canonical encoding of the blob returned.\<close>

theorem sync_blob_roundtrip:
  assumes "aead_ok P" and "length key = 32" and "blob_wf b"
    and "blob_seal P b key r = (Inr sealed, r')"
  shows "blob_open P sealed key = Inr b \<and>
    (\<forall>other b'. blob_open P other key = Inr b' \<longrightarrow>
       blob_wf b' \<and> open_bytes P key BLOB_AAD other = Inr (blob_encode_inner b'))"
proof -
  have "blob_open P sealed key = Inr b" using assms by (rule blob_seal_opens)
  moreover have "blob_open P other key = Inr b' \<longrightarrow>
           blob_wf b' \<and> open_bytes P key BLOB_AAD other = Inr (blob_encode_inner b')" for other b'
    using blob_decode_canonical by (auto simp: blob_open_def try_then_Inr_iff)
  ultimately show ?thesis by blast
qed

definition sample_blob :: sync_blob where
  "sample_blob = \<lparr>sb_uuid = replicate 16 3, sb_vv = vv_a2, sb_image = [1, 2]\<rparr>"

theorem sync_blob_roundtrip_witness:
  "\<exists>sealed. blob_seal toy sample_blob (replicate 32 7) [Some (replicate 24 9)] = (Inr sealed, [])
     \<and> blob_open toy sealed (replicate 32 7) = Inr sample_blob"
proof -
  have wf: "blob_wf sample_blob"
    using length_vv_encode [OF vv_samples_wf(1)] vv_samples_wf
    by (simp add: blob_wf_def sample_blob_def blob_encode_inner_def USIZE_MAX_32_def vv_a2_def)
  obtain sealed where "blob_seal toy sample_blob (replicate 32 7) [Some (replicate 24 9)] = (Inr sealed, [])"
    by (simp add: blob_seal_def seal_bytes_def NONCE_LEN_def)
  with sync_blob_roundtrip [OF toy_aead_ok _ wf this] show ?thesis by auto
qed

text \<open>the relay is append-only: a pushed blob is served at the index returned, every blob
  stored before keeps its index, other buckets are untouched, and a client whose cursor is the
  old length sees exactly one new blob.\<close>

theorem relay_append_only:
  "case relay_put sid blob logs of (seq, logs') \<Rightarrow>
     seq = length (relay_log logs sid)
     \<and> relay_get logs' sid seq = Some blob
     \<and> (\<forall>n < seq. relay_get logs' sid n = relay_get logs sid n)
     \<and> (\<forall>other. other \<noteq> sid \<longrightarrow> relay_log logs' other = relay_log logs other)
     \<and> relay_list logs' sid seq = 1"
proof -
  have "map_of (filter (\<lambda>e. fst e \<noteq> sid) l) other = map_of l other" if "other \<noteq> sid" for other and l :: relay
    using that by (induction l) auto
  then show ?thesis
    by (simp add: relay_put_def Let_def relay_get_def relay_list_def relay_log_def nth_append)
qed

theorem relay_append_only_witness:
  "case relay_put [1] [7] [([1], [[5]])] of (seq, logs') \<Rightarrow> seq = 1 \<and> relay_get logs' [1] 1 = Some [7]"
  using relay_append_only [where sid = "[1]" and blob = "[7]" and logs = "[([1], [[5]])]"] by (simp add: relay_log_def split: prod.splits)

end
