(* ===== verification/Session.thy ===== *)
theory Session
  imports Interchange Offline Rotation_Recovery Sync "HOL-Library.List_Lexorder"
begin

text \<open>
  The session layer of \<open>crates/freehold/src/lib.rs\<close>: enrolment, the management of unlock methods,
  opening and locking a session, export and import of bundles, the rotation of the data key and the
  sync calls. Parameters of the model are the directory a pool is installed on, the SQLite library
  (closing a connection) and the random source.
\<close>

section \<open>Installing a pool\<close>

text \<open>
  What an installation finds: the outcome of opening the anchor file, the entries of the directory, the
  outcomes of creating fresh files, the random source, and whether SQLite registers the VFS.
\<close>

record 'h directory =
  dir_anchor :: "'h option"
  dir_entries :: "'h dir_entry list"
  dir_fresh :: "(str \<times> 'h option) list"
  dir_rng :: rng
  dir_registers :: bool

datatype session_error =
    ShortPrf | Envelope env_error | Pool pool_error | EnvelopeRollback u64 u64 | NoSession | NothingToExport
  | Collect collect_error | BadBundle bundle_error | Blob sync_error | BlobSeal crypto_error | VvTrailing | NotSixteen nat
  | WrongPasskey | BadDbName | EngineError str | BadDeviceKey | CapsNotUtf8 | DeviceRng | BadParamsJson | ParamsNotArray | Query query_error

definition INITIAL_CAPACITY :: nat where "INITIAL_CAPACITY = 6"

text \<open>A VFS that is still registered under the name is taken as it is, whatever the key.\<close>

definition install :: "('h, 'z) env_scheme \<Rightarrow> bool \<Rightarrow> bytes \<Rightarrow> 'h directory \<Rightarrow> 'h pool option \<Rightarrow> session_error + 'h pool" where
  "install E clear dk dir registered = (case registered of
       Some p \<Rightarrow> Inr p
     | None \<Rightarrow> try_then (map_err Pool (pool_new E dk clear INITIAL_CAPACITY (dir_anchor dir) (dir_entries dir) (dir_fresh dir) (dir_rng dir)))
         (\<lambda>p. if dir_registers dir then Inr p else Inl (Pool RegisterFailed)))"

section \<open>Enrolment\<close>

text \<open>
  The envelope and the pool as the last step leaves it, before its handles are given back to the
  directory.
\<close>

definition enroll_kind ::
  "('h, 'z) env_scheme \<Rightarrow> byte \<Rightarrow> bytes \<Rightarrow> 'h directory \<Rightarrow> rng \<Rightarrow> session_error + bytes \<times> 'h pool" where
  "enroll_kind E k secret dir r =
     (if length secret < 16 then Inl ShortPrf
      else case random_dek r of
        (Inl e, _) \<Rightarrow> Inl (Envelope e)
      | (Inr dk, r) \<Rightarrow> (case create_envelope_kind E dk secret k r of
          (Inl e, _) \<Rightarrow> Inl (Envelope e)
        | (Inr blob, _) \<Rightarrow>
          try_then (install E True dk dir None) (\<lambda>p.
          try_then (map_err Pool (fst (pause_vfs p))) (\<lambda>_. Inr (blob, p)))))"

definition enroll_inner :: "('h, 'z) env_scheme \<Rightarrow> bytes \<Rightarrow> 'h directory \<Rightarrow> rng \<Rightarrow> session_error + bytes \<times> 'h pool" where
  "enroll_inner E prf dir r = enroll_kind E KIND_PASSKEY prf dir r"

definition enroll_device_inner :: "('h, 'z) env_scheme \<Rightarrow> bytes \<Rightarrow> 'h directory \<Rightarrow> rng \<Rightarrow> session_error + bytes \<times> 'h pool" where
  "enroll_device_inner E secret dir r = enroll_kind E KIND_DEVICE secret dir r"

section \<open>Unlock methods\<close>

definition unlock_with :: "'z prims_scheme \<Rightarrow> bytes \<Rightarrow> bytes \<Rightarrow> session_error + bytes" where
  "unlock_with P blob prf = map_err (\<lambda>_. WrongPasskey) (open_with_prf P blob prf)"

definition add_recovery :: "'z prims_scheme \<Rightarrow> bytes \<Rightarrow> str \<Rightarrow> bytes \<Rightarrow> rng \<Rightarrow> (session_error + bytes) \<times> rng" where
  "add_recovery P existing_prf code blob r =
     st_then (unlock_with P blob existing_prf, r) (\<lambda>dk r.
       case add_recovery_slot P blob dk code r of (b, r) \<Rightarrow> (map_err Envelope b, r))"

definition add_passkey :: "'z prims_scheme \<Rightarrow> bytes \<Rightarrow> bytes \<Rightarrow> bytes \<Rightarrow> rng \<Rightarrow> (session_error + bytes) \<times> rng" where
  "add_passkey P existing_prf new_prf blob r =
     st_then (unlock_with P blob existing_prf, r) (\<lambda>dk r.
       case add_passkey_slot P blob dk new_prf r of (b, r) \<Rightarrow> (map_err Envelope b, r))"

definition remove_method :: "'z prims_scheme \<Rightarrow> bytes \<Rightarrow> byte \<Rightarrow> bytes \<Rightarrow> session_error + bytes" where
  "remove_method P existing_prf i blob =
     try_then (unlock_with P blob existing_prf) (\<lambda>dk. map_err Envelope (remove_slot P blob dk i))"

definition kind_name :: "byte \<Rightarrow> str" where
  "kind_name k = (if k = KIND_RECOVERY then ascii ''recovery'' else if k = KIND_DEVICE then ascii ''device'' else ascii ''passkey'')"

text \<open>The decimal digits of a byte, as \<open>{}\<close> formats it.\<close>

definition decimal :: "nat \<Rightarrow> str" where
  "decimal n = (if n \<ge> 100 then [word_of_nat (48 + n div 100), word_of_nat (48 + n div 10 mod 10), word_of_nat (48 + n mod 10)]
     else if n \<ge> 10 then [word_of_nat (48 + n div 10), word_of_nat (48 + n mod 10)] else [word_of_nat (48 + n)])"

definition list_methods :: "bytes \<Rightarrow> str" where
  "list_methods blob = join_with 0x2C (map (\<lambda>i. decimal (unat (kek_id i)) @ 0x3A # kind_name (kind i)) (slot_infos blob))"

section \<open>The session\<close>

text \<open>
  \<open>session\<close> is the thread-local cell: the pool with the names of its open connections. \<open>registered\<close> is
  a pool that SQLite still holds under the session's VFS name while no session does.
\<close>

record 'h sessions =
  session :: "('h pool \<times> str list) option"
  registered :: "'h pool option"

type_synonym 'h engine_close = "str \<Rightarrow> 'h pool \<Rightarrow> 'h pool"

definition valid_db_name :: "str \<Rightarrow> bool" where
  "valid_db_name n \<longleftrightarrow> n \<noteq> [] \<and> length n \<le> 32
     \<and> list_all (\<lambda>b. 97 \<le> b \<and> b \<le> 122 \<or> 48 \<le> b \<and> b \<le> 57 \<or> b = 0x5F \<or> b = 0x2D) n"

definition session_lock_inner :: "'h engine_close \<Rightarrow> 'h sessions \<Rightarrow> (session_error + unit) \<times> 'h sessions" where
  "session_lock_inner close s = (case session s of
       None \<Rightarrow> (Inr (), s)
     | Some (p, hs) \<Rightarrow> (case pause_vfs (fold close hs p) of
         (Inl e, p) \<Rightarrow> (Inl (Pool e), s\<lparr>session := None, registered := Some p\<rparr>)
       | (Inr _, p) \<Rightarrow> (Inr (), s\<lparr>session := None, registered := None\<rparr>)))"

text \<open>A pool that is installed but not handed to a session stays registered unless it is paused.\<close>

definition leave :: "'h pool \<Rightarrow> 'h sessions \<Rightarrow> 'h sessions" where
  "leave p s = s\<lparr>registered := Some p\<rparr>"

definition apply_peer_epoch :: "('h, 'z) env_scheme \<Rightarrow> bytes \<Rightarrow> bytes \<Rightarrow> 'h pool \<Rightarrow> ('h, unit) pool_result \<times> (u64 \<times> u64) option" where
  "apply_peer_epoch E envelope epoch p =
     (if epoch = [] then ((Inr (), p), None)
      else case apply_epoch E epoch p of
        (Inl e, p) \<Rightarrow> ((Inl e, p), None)
      | (Inr (_, attested_env_gen), p) \<Rightarrow>
          let have = envelope_generation envelope in
          ((Inr (), p), if have < attested_env_gen then Some (have, attested_env_gen) else None))"

definition session_begin ::
  "('h, 'z) env_scheme \<Rightarrow> 'h engine_close \<Rightarrow> bytes \<Rightarrow> bytes \<Rightarrow> bytes \<Rightarrow> 'h directory \<Rightarrow> 'h sessions
     \<Rightarrow> (session_error + unit) \<times> 'h sessions" where
  "session_begin E close dk envelope epoch dir s =
     st_then (session_lock_inner close s) (\<lambda>_ s.
       case install E False dk dir (registered s) of
         Inl e \<Rightarrow> (Inl e, s)
       | Inr p \<Rightarrow> (case recover_rotation E p of
           (Inl e, p) \<Rightarrow> (Inl (Pool e), leave p s)
         | (Inr _, p) \<Rightarrow> (case apply_peer_epoch E envelope epoch p of
             ((Inl e, p), _) \<Rightarrow> (Inl (Pool e), leave p s)
           | ((Inr _, p), Some (have, attested)) \<Rightarrow>
               (Inl (EnvelopeRollback have attested),
                case pause_vfs p of (Inl _, p) \<Rightarrow> leave p s | (Inr _, _) \<Rightarrow> s\<lparr>registered := None\<rparr>)
           | ((Inr _, p), None) \<Rightarrow> (Inr (), s\<lparr>session := Some (p, []), registered := None\<rparr>))))"

definition session_open ::
  "('h, 'z) env_scheme \<Rightarrow> 'h engine_close \<Rightarrow> bytes \<Rightarrow> bytes \<Rightarrow> bytes \<Rightarrow> 'h directory \<Rightarrow> 'h sessions
     \<Rightarrow> (session_error + unit) \<times> 'h sessions" where
  "session_open E close prf blob epoch dir s = (case open_with_prf E blob prf of
       Inl e \<Rightarrow> (Inl (Envelope e), s) | Inr dk \<Rightarrow> session_begin E close dk blob epoch dir s)"

definition session_open_recovery ::
  "('h, 'z) env_scheme \<Rightarrow> 'h engine_close \<Rightarrow> str \<Rightarrow> bytes \<Rightarrow> bytes \<Rightarrow> 'h directory \<Rightarrow> 'h sessions
     \<Rightarrow> (session_error + unit) \<times> 'h sessions" where
  "session_open_recovery E close code blob epoch dir s = (case open_with_recovery E blob code of
       Inl e \<Rightarrow> (Inl (Envelope e), s) | Inr dk \<Rightarrow> session_begin E close dk blob epoch dir s)"

definition session_active :: "'h sessions \<Rightarrow> bool" where
  "session_active s \<longleftrightarrow> session s \<noteq> None"

text \<open>Running an operation of the live pool.\<close>

definition with_pool :: "('h pool \<Rightarrow> (session_error + 'a) \<times> 'h pool) \<Rightarrow> 'h sessions \<Rightarrow> (session_error + 'a) \<times> 'h sessions" where
  "with_pool op s = (case session s of
       None \<Rightarrow> (Inl NoSession, s)
     | Some (p, hs) \<Rightarrow> (case op p of (r, p) \<Rightarrow> (r, s\<lparr>session := Some (p, hs)\<rparr>)))"

definition with_session :: "('h pool \<Rightarrow> 'a) \<Rightarrow> 'h sessions \<Rightarrow> session_error + 'a" where
  "with_session f s = (case session s of None \<Rightarrow> Inl NoSession | Some (p, _) \<Rightarrow> Inr (f p))"

text \<open>
  The connection to a database: an open one is reused, a new one is opened by SQLite, which answers
  whether the open and the pragmas went through and leaves the pool changed.
\<close>

definition session_connect ::
  "(str \<Rightarrow> 'h pool \<Rightarrow> (str + unit) \<times> 'h pool) \<Rightarrow> str \<Rightarrow> 'h sessions \<Rightarrow> (session_error + unit) \<times> 'h sessions" where
  "session_connect engine_open db s =
     (if \<not> valid_db_name db then (Inl BadDbName, s)
      else case session s of
        None \<Rightarrow> (Inl NoSession, s)
      | Some (p, hs) \<Rightarrow>
        let file = db @ ascii ''.db'' in
        if file \<in> set hs then (Inr (), s)
        else (case engine_open file p of
            (Inl e, p) \<Rightarrow> (Inl (EngineError e), s\<lparr>session := Some (p, hs)\<rparr>)
          | (Inr _, p) \<Rightarrow> (Inr (), s\<lparr>session := Some (p, file # hs)\<rparr>)))"

text \<open>
  SQL in the session. The engine is a parameter: what opening a database, preparing a script and
  preparing one statement answer, each leaving the pool changed. \<open>parse\<close> is the JSON parser of the page:
  nothing if the text is not JSON, no list if it is not an array.
\<close>

record 'h engine =
  engine_open :: "str \<Rightarrow> 'h pool \<Rightarrow> (str + unit) \<times> 'h pool"
  engine_script :: "str \<Rightarrow> str \<Rightarrow> 'h pool \<Rightarrow> (str + sql_step list option) list \<times> 'h pool"
  engine_prepare :: "str \<Rightarrow> str \<Rightarrow> 'h pool \<Rightarrow> (str + (nat \<times> (binding list \<Rightarrow> sql_step list)) option \<times> str) \<times> bool list \<times> 'h pool"

definition sql_params :: "(str \<Rightarrow> js_value list option option) \<Rightarrow> str \<Rightarrow> session_error + js_value list option" where
  "sql_params parse params_json =
     (let s = trim params_json in
      if s = [] \<or> s = ascii ''[]'' then Inr None
      else case parse s of
        None \<Rightarrow> Inl BadParamsJson
      | Some None \<Rightarrow> Inl ParamsNotArray
      | Some (Some vs) \<Rightarrow> Inr (Some vs))"

definition session_sql_inner ::
  "'h engine \<Rightarrow> (str \<Rightarrow> js_value list option option) \<Rightarrow> str \<Rightarrow> str \<Rightarrow> str \<Rightarrow> 'h sessions \<Rightarrow> (session_error + str) \<times> 'h sessions" where
  "session_sql_inner engine parse db sql params_json s =
     (if \<not> valid_db_name db then (Inl BadDbName, s)
      else st_then (sql_params parse params_json, s) (\<lambda>params s.
        st_then (session_connect (engine_open engine) db s) (\<lambda>_ s.
        let file = db @ ascii ''.db'' in
        with_pool (\<lambda>p. case params of
            Some vs \<Rightarrow> (case engine_prepare engine file sql p of (prepared, answers, p) \<Rightarrow>
              (map_err Query (query_json_params sql prepared vs answers), p))
          | None \<Rightarrow> (case engine_script engine file sql p of (script, p) \<Rightarrow> (map_err Query (query_json sql script), p))) s)))"

section \<open>Bundles\<close>

definition db_files :: "'h pool \<Rightarrow> str list" where
  "db_files p = filter (\<lambda>n. ends_with n (ascii ''.db'')) (get_filenames p)"

definition lift_pool :: "('h, 'a) pool_result \<Rightarrow> (session_error + 'a) \<times> 'h pool" where
  "lift_pool r = (map_err Pool (fst r), snd r)"

definition export_pool ::
  "('h, 'z) env_scheme \<Rightarrow> bytes \<Rightarrow> bytes \<Rightarrow> 'h pool \<Rightarrow> (session_error + bytes) \<times> 'h pool" where
  "export_pool E cred_id envelope p =
     (let db_names = sort (db_files p) in
      case collect_files E p db_names of
        Inl e \<Rightarrow> (Inl (Collect e), p)
      | Inr fs \<Rightarrow>
        if fs = [] then (Inl NothingToExport, p)
        else
          let epoch_db = (case find (\<lambda>n. n = ascii ''app.db'') db_names of Some n \<Rightarrow> n | None \<Rightarrow> db_names ! 0) in
          (case strip_export_envelope E envelope p of
             Inl e \<Rightarrow> (Inl (Envelope e), p)
           | Inr export_env \<Rightarrow>
             st_then (lift_pool (export_epoch E epoch_db (envelope_generation export_env) p)) (\<lambda>epoch p.
               (Inr (bundle_encode export_env cred_id fs epoch), p))))"

definition session_export_inner ::
  "('h, 'z) env_scheme \<Rightarrow> bytes \<Rightarrow> bytes \<Rightarrow> 'h sessions \<Rightarrow> (session_error + bytes) \<times> 'h sessions" where
  "session_export_inner E cred_id envelope s = with_pool (export_pool E cred_id envelope) s"

text \<open>The envelope, the credential and the token of the bundle, and the pool with the files written.\<close>

definition DUMMY_DEK :: bytes where "DUMMY_DEK = replicate 32 0"

definition import_bundle ::
  "('h, 'z) env_scheme \<Rightarrow> bytes \<Rightarrow> 'h directory \<Rightarrow> session_error + ((bytes \<times> bytes \<times> bytes) \<times> 'h pool)" where
  "import_bundle E bytes dir =
     try_then (map_err BadBundle (bundle_decode bytes)) (\<lambda>b.
     try_then (install E True DUMMY_DEK dir None) (\<lambda>p.
       case import_files E (b_files b) p of
         (Inl e, _) \<Rightarrow> Inl (Pool e)
       | (Inr _, p) \<Rightarrow> try_then (map_err Pool (fst (pause_vfs p))) (\<lambda>_.
           Inr ((b_envelope b, b_cred_id b, b_epoch b), p))))"

section \<open>Rotation\<close>

definition rotate_dek_inner ::
  "('h, 'z) env_scheme \<Rightarrow> 'h engine_close \<Rightarrow> bytes \<Rightarrow> bytes \<Rightarrow> rng \<Rightarrow> 'h sessions
     \<Rightarrow> (session_error + bytes \<times> str) \<times> 'h sessions" where
  "rotate_dek_inner E close prf envelope r s = (case session s of
       None \<Rightarrow> (Inl NoSession, s)
     | Some (p, hs) \<Rightarrow>
       (case open_with_prf E envelope prf of
          Inl _ \<Rightarrow> (Inl WrongPasskey, s)
        | Inr _ \<Rightarrow> (case st_then (random_dek r) (\<lambda>new_dek r.
              st_then (rotate_envelope E envelope new_dek prf r) (\<lambda>ec r. (Inr (new_dek, ec), r))) of
            (Inl e, _) \<Rightarrow> (Inl (Envelope e), s)
          | (Inr (new_dek, new_env, code), _) \<Rightarrow>
            let p = fold close hs p in
            (case stage_rotation E new_dek (db_files p) (envelope_generation envelope) (envelope_generation new_env) p of
               (Inl e, p) \<Rightarrow> (Inl (Pool e), s\<lparr>session := Some (p, [])\<rparr>)
             | (Inr _, p) \<Rightarrow>
               st_then (session_lock_inner close (s\<lparr>session := Some (p, [])\<rparr>)) (\<lambda>_ s. (Inr (new_env, code), s))))))"

section \<open>Sync\<close>

definition slice16 :: "bytes \<Rightarrow> session_error + bytes" where
  "slice16 b = (if length b \<noteq> 16 then Inl (NotSixteen (length b)) else Inr b)"

definition decode_vv :: "bytes \<Rightarrow> session_error + version_vector" where
  "decode_vv b = try_then (map_err Blob (vv_decode b 0)) (\<lambda>(v, at). if at \<noteq> length b then Inl VvTrailing else Inr v)"

definition session_image :: "('h, 'z) env_scheme \<Rightarrow> 'h pool \<Rightarrow> session_error + bytes" where
  "session_image E p =
     (case collect_files E p (sort (db_files p)) of
        Inl e \<Rightarrow> Inl (Collect e)
      | Inr fs \<Rightarrow> if fs = [] then Inl NothingToExport else Inr (bundle_encode [] [] fs []))"

definition session_sync_id_inner :: "('h, 'z) env_scheme \<Rightarrow> bytes \<Rightarrow> 'h sessions \<Rightarrow> session_error + bytes" where
  "session_sync_id_inner E u s = try_then (slice16 u) (\<lambda>u. case session s of
       None \<Rightarrow> Inl NoSession | Some (p, _) \<Rightarrow> Inr (pool_sync_id E u p))"

definition session_sync_seal_inner ::
  "('h, 'z) env_scheme \<Rightarrow> bytes \<Rightarrow> bytes \<Rightarrow> rng \<Rightarrow> 'h sessions \<Rightarrow> (session_error + bytes) \<times> rng" where
  "session_sync_seal_inner E u vv r s =
     st_then (slice16 u, r) (\<lambda>u r.
     st_then (decode_vv vv, r) (\<lambda>v r. case session s of
         None \<Rightarrow> (Inl NoSession, r)
       | Some (p, _) \<Rightarrow>
         st_then (session_image E p, r) (\<lambda>image r.
           case blob_seal E \<lparr>sb_uuid = u, sb_vv = v, sb_image = image\<rparr> (sync_crypto E p) r of (b, r) \<Rightarrow> (map_err BlobSeal b, r))))"

definition session_sync_open_parts :: "('h, 'z) env_scheme \<Rightarrow> bytes \<Rightarrow> 'h sessions \<Rightarrow> session_error + bytes \<times> bytes \<times> bytes" where
  "session_sync_open_parts E sealed s = (case session s of
       None \<Rightarrow> Inl NoSession
     | Some (p, _) \<Rightarrow> try_then (map_err Blob (blob_open E sealed (sync_crypto E p))) (\<lambda>b.
         Inr (sb_uuid b, vv_encode (sb_vv b), sb_image b)))"

definition session_sync_apply_inner ::
  "('h, 'z) env_scheme \<Rightarrow> 'h engine_close \<Rightarrow> bytes \<Rightarrow> 'h sessions \<Rightarrow> (session_error + unit) \<times> 'h sessions" where
  "session_sync_apply_inner E close img s = (case bundle_decode img of
       Inl e \<Rightarrow> (Inl (BadBundle e), s)
     | Inr b \<Rightarrow> (case session s of
         None \<Rightarrow> (Inl NoSession, s)
       | Some (p, hs) \<Rightarrow> (case import_files E (b_files b) (fold close hs p) of
           (r, p) \<Rightarrow> (map_err Pool r, s\<lparr>session := Some (p, [])\<rparr>))))"

definition sync_reconcile_inner :: "bytes \<Rightarrow> bytes \<Rightarrow> session_error + str \<times> bool" where
  "sync_reconcile_inner local_vv incoming_vv =
     try_then (decode_vv local_vv) (\<lambda>l. try_then (decode_vv incoming_vv) (\<lambda>i.
       Inr (case reconcile l i of
         FastForward \<Rightarrow> (ascii ''fastforward'', False)
       | Stale \<Rightarrow> (ascii ''stale'', False)
       | Fork w \<Rightarrow> (ascii ''fork'', w))))"

definition sync_vv_empty :: bytes where "sync_vv_empty = vv_encode vv_new"

definition sync_vv_increment :: "bytes \<Rightarrow> bytes \<Rightarrow> session_error + bytes" where
  "sync_vv_increment vv device =
     try_then (slice16 device) (\<lambda>dev. try_then (decode_vv vv) (\<lambda>v. Inr (vv_encode (vv_increment dev v))))"

definition sync_vv_merge :: "bytes \<Rightarrow> bytes \<Rightarrow> session_error + bytes" where
  "sync_vv_merge a b =
     try_then (decode_vv a) (\<lambda>va. try_then (decode_vv b) (\<lambda>vb. Inr (vv_encode (vv_merge_max va vb))))"

section \<open>Attestations and certificates\<close>

text \<open>Times cross the boundary as doubles; they are the integers they are cast to. \<open>None\<close> is an abort.\<close>

definition verify_attestation :: "'z prims_scheme \<Rightarrow> bytes \<Rightarrow> str \<Rightarrow> bytes \<Rightarrow> u64 \<Rightarrow> u64 \<Rightarrow> bytes \<Rightarrow> bool option" where
  "verify_attestation P pubkey claim audience issued_at expiry sig =
     (if length pubkey \<noteq> 32 \<or> length sig \<noteq> 64 then Some False
      else attest_verify P pubkey claim audience issued_at expiry sig)"

definition session_vault_pubkey :: "'z prims_scheme \<Rightarrow> 'h sessions \<Rightarrow> session_error + bytes" where
  "session_vault_pubkey P s = with_session (pool_vault_public_key P) s"

definition session_attest ::
  "'z prims_scheme \<Rightarrow> str \<Rightarrow> bytes \<Rightarrow> u64 \<Rightarrow> u64 \<Rightarrow> 'h sessions \<Rightarrow> session_error + bytes option" where
  "session_attest P claim audience issued_at expiry s = with_session (pool_attest P claim audience issued_at expiry) s"

definition session_relay_sign :: "'z prims_scheme \<Rightarrow> bytes \<Rightarrow> byte \<Rightarrow> bytes \<Rightarrow> 'h sessions \<Rightarrow> session_error + bytes" where
  "session_relay_sign P u relay_method arg s = try_then (slice16 u) (\<lambda>u. with_session (pool_relay_sign P u relay_method arg) s)"

definition device_keygen :: "'z prims_scheme \<Rightarrow> rng \<Rightarrow> (session_error + bytes) \<times> rng" where
  "device_keygen P r = (case random_device_seed r of
       (None, r) \<Rightarrow> (Inl DeviceRng, r) | (Some seed, r) \<Rightarrow> (Inr (seed @ device_public_key P seed), r))"

definition session_device_id :: "'z prims_scheme \<Rightarrow> bytes \<Rightarrow> session_error + str" where
  "session_device_id P device_pubkey =
     (if length device_pubkey \<noteq> 32 then Inl BadDeviceKey else Inr (device_id_from_pubkey P device_pubkey))"

text \<open>The scopes arrive as lines; the certificate leaves as one packed blob.\<close>

definition cap_list :: "str \<Rightarrow> str list" where
  "cap_list caps = filter (\<lambda>s. trim s \<noteq> []) (split_on NEWLINE caps)"

definition pack_cert :: "(str \<times> bytes) \<times> bytes \<times> bytes \<Rightarrow> bytes" where
  "pack_cert c = (case c of ((claim, sig), trust_pk, blob) \<Rightarrow> nat_le 4 (length claim) @ claim @ sig @ trust_pk @ blob)"

definition session_issue_device_cert ::
  "('h, 'z) env_scheme \<Rightarrow> bytes \<Rightarrow> bytes \<Rightarrow> bytes \<Rightarrow> u64 \<Rightarrow> u64 \<Rightarrow> 'h sessions \<Rightarrow> (session_error + bytes option) \<times> 'h sessions" where
  "session_issue_device_cert E device_pubkey caps sealed_trust issued_at expiry s =
     (if length device_pubkey \<noteq> 32 then (Inl BadDeviceKey, s)
      else if \<not> utf8_valid caps then (Inl CapsNotUtf8, s)
      else st_then (with_pool (\<lambda>p. lift_pool (pool_issue_device_cert E sealed_trust device_pubkey (cap_list caps) issued_at expiry p)) s)
        (\<lambda>c s. (Inr (map_option pack_cert c), s)))"

definition session_verify_device_cert :: "'z prims_scheme \<Rightarrow> bytes \<Rightarrow> str \<Rightarrow> bytes \<Rightarrow> bytes \<Rightarrow> u64 \<Rightarrow> bool option" where
  "session_verify_device_cert P vault_trust_pubkey cert_claim device_pubkey sig now =
     (if length vault_trust_pubkey \<noteq> 32 \<or> length device_pubkey \<noteq> 32 \<or> length sig \<noteq> 64 then Some False
      else verify_device_cert P vault_trust_pubkey cert_claim device_pubkey sig now)"

end
