(* ===== verification/Pool_Keys.thy ===== *)
theory Pool_Keys
  imports Session
begin

text \<open>
  The keys of a pool (\<open>OpfsSAHPool\<close> of \<open>crates/freehold/src/vfs.rs\<close>): the data key and what is derived from it
  are set by the constructor and by nothing else. Every operation of the pool that a session runs, also
  one that fails half-way, leaves them as they were.
\<close>

definition pool_keys :: "'h pool \<Rightarrow> bytes \<times> crypto \<times> crypto" where
  "pool_keys p = (dek p, p_crypto p, anchor_crypto p)"

definition derived_keys :: "'z prims_scheme \<Rightarrow> bytes \<Rightarrow> bytes \<times> crypto \<times> crypto" where
  "derived_keys P k = (k, pool_key P k, anchor_key P k)"

lemma derived_dek: "pool_keys p = derived_keys P k \<Longrightarrow> dek p = k"
  by (simp add: pool_keys_def derived_keys_def)

lemma pool_keys_frame [simp]:
  "pool_keys (p\<lparr>header_buffer := b\<rparr>) = pool_keys p" "pool_keys (p\<lparr>available := a\<rparr>) = pool_keys p"
  "pool_keys (p\<lparr>files := fs\<rparr>) = pool_keys p" "pool_keys (p\<lparr>p_fault := f\<rparr>) = pool_keys p"
  "pool_keys (p\<lparr>p_rng := r\<rparr>) = pool_keys p" "pool_keys (p\<lparr>anchor_handle := h\<rparr>) = pool_keys p"
  "pool_keys (p\<lparr>is_paused := x\<rparr>) = pool_keys p" "pool_keys (p\<lparr>dbs := ds\<rparr>) = pool_keys p"
  "pool_keys (put_file n sf p) = pool_keys p" "pool_keys (put_dev n d p) = pool_keys p"
  by (simp_all add: pool_keys_def put_file_def put_dev_def)

lemma keys_then [intro!]:
  assumes "pool_keys (snd m) = k" and "\<And>x p. m = (Inr x, p) \<Longrightarrow> pool_keys p = k \<Longrightarrow> pool_keys (snd (f x p)) = k"
  shows "pool_keys (snd (st_then m f)) = k"
proof -
  obtain r p where m: "m = (r, p)" by fastforce
  show ?thesis using assms unfolding m by (cases r) simp_all
qed

section \<open>Files and headers\<close>

lemma keys_get_name [simp]: "pool_keys (snd (snd (get_associated_filename E h p))) = pool_keys p"
  by (simp add: get_associated_filename_def Let_def split: option.split prod.split)

lemma keys_set_name [simp]: "pool_keys (snd (snd (set_associated_filename E h n fl p))) = pool_keys p"
  by (simp add: set_associated_filename_def Let_def split: option.split prod.split)

lemma keys_set_name_case:
  "set_associated_filename E h n fl p = (r, h', p') \<Longrightarrow> pool_keys p' = pool_keys p"
  by (metis keys_set_name snd_conv)

lemma keys_get_name_case:
  "get_associated_filename E h p = (r, h', p') \<Longrightarrow> pool_keys p' = pool_keys p"
  by (metis keys_get_name snd_conv)

lemma keys_delete_file [simp]: "pool_keys (snd (delete_file E n p)) = pool_keys p"
  by (auto simp: delete_file_def dest: keys_set_name_case split: option.split prod.split)

lemma keys_with_new_file [simp]: "pool_keys (snd (with_new_file E n fl op p)) = pool_keys p"
  by (auto simp: with_new_file_def Let_def dest: keys_set_name_case split: sum.split prod.split)

lemma keys_import_ciphertext [simp]: "pool_keys (snd (import_ciphertext_file E n ct p)) = pool_keys p"
  by (simp add: import_ciphertext_file_def)

lemma keys_import_all: "pool_keys p = k \<Longrightarrow> pool_keys (snd (import_all E fs p)) = k"
  by (induction E fs p rule: import_all.induct) auto

lemma keys_import_files [simp]: "pool_keys (snd (import_files E fs p)) = pool_keys p"
  by (simp add: import_files_def keys_import_all)

section \<open>The anchor and the tokens\<close>

lemma keys_anchor_save [simp]: "pool_keys (snd (anchor_save E seq es p)) = pool_keys p"
  by (simp add: anchor_save_def Let_def split: option.split prod.split sum.split)

lemma keys_anchor_record_full [simp]: "pool_keys (snd (anchor_record_full E u co infl ef p)) = pool_keys p"
  by (auto simp: anchor_record_full_def split: option.split prod.split)

lemma keys_seal_pool [simp]: "pool_keys (snd (seal_pool P key aad plain p)) = pool_keys p"
  by (simp add: seal_pool_def split: prod.split)

lemma keys_export_epoch [simp]: "pool_keys (snd (export_epoch E n g p)) = pool_keys p"
  by (auto simp: export_epoch_def split: option.split sum.split)

lemma keys_apply_epoch [simp]: "pool_keys (snd (apply_epoch E token p)) = pool_keys p"
  by (auto simp: apply_epoch_def Let_def split: sum.split)

lemma keys_issue_device_cert [simp]:
  "pool_keys (snd (pool_issue_device_cert P sealed pk caps issued expiry p)) = pool_keys p"
  by (auto simp: pool_issue_device_cert_def trust_seed_def Let_def 
      split: option.split prod.split)

section \<open>Rotation\<close>

lemma keys_reseal_db [simp]: "pool_keys (snd (reseal_db_ciphertext E db k p)) = pool_keys p"
  by (auto simp: reseal_db_ciphertext_def Let_def split: sum.split prod.split)

lemma keys_import_shadows: "pool_keys p = k \<Longrightarrow> pool_keys (snd (import_shadows E fs p)) = k"
  by (induction E fs p rule: import_shadows.induct) auto

lemma keys_stage_dbs: "pool_keys p = k \<Longrightarrow> pool_keys (snd (stage_dbs E nk ds p)) = k"
  by (induction E nk ds p rule: stage_dbs.induct) (auto intro!: keys_import_shadows)

lemma keys_stage_rotation [simp]: "pool_keys (snd (stage_rotation E nk ds g g' p)) = pool_keys p"
  by (auto simp: stage_rotation_def intro!: keys_stage_dbs split: sum.split prod.split)

lemma keys_roll_file [simp]: "pool_keys (snd (roll_file E n p)) = pool_keys p"
  by (auto simp: roll_file_def split: sum.split)

lemma keys_roll_files: "pool_keys p = k \<Longrightarrow> pool_keys (snd (roll_files E ns p)) = k"
  by (induction E ns p rule: roll_files.induct) auto

lemma keys_carry_anchors: "pool_keys p = k \<Longrightarrow> pool_keys (snd (carry_anchors E es p)) = k"
  by (induction E es p rule: carry_anchors.induct) auto

lemma keys_delete_files [simp]: "pool_keys (delete_files E ns p) = pool_keys p"
  by (induction E ns p rule: delete_files.induct) simp_all

lemma keys_recover_rotation [simp]: "pool_keys (snd (recover_rotation E p)) = pool_keys p"
  by (auto simp: recover_rotation_def discard_rotation_staging_def
      intro!: keys_roll_files keys_carry_anchors split: sum.split prod.split)

section \<open>Installing and pausing\<close>

lemma keys_pause [simp]: "pool_keys (snd (pause_vfs p)) = pool_keys p"
  by (simp add: pause_vfs_def release_access_handles_def pool_keys_def)

lemma keys_clear_file [simp]: "pool_keys (snd (clear_file E f p)) = pool_keys p"
  by (auto simp: clear_file_def dest: keys_set_name_case split: sum.split prod.split)

lemma keys_clear_file_case: "clear_file E f p = (r, p') \<Longrightarrow> pool_keys p' = pool_keys p"
  by (metis keys_clear_file snd_conv)

lemma keys_acquire_entry [simp]: "pool_keys (snd (acquire_entry E clear e p)) = pool_keys p"
  by (auto simp: acquire_entry_def Let_def dest: keys_get_name_case keys_clear_file_case
      split: option.split prod.split sum.split)

lemma keys_acquire_entries: "pool_keys p = k \<Longrightarrow> pool_keys (snd (acquire_entries E clear es p)) = k"
  by (induction es arbitrary: p) auto

lemma keys_add_capacity: "pool_keys p = k \<Longrightarrow> pool_keys (snd (add_capacity E es p)) = k"
  by (induction E es p rule: add_capacity.induct) (auto split: option.split)

lemma keys_acquire_anchor [simp]: "pool_keys (snd (acquire_anchor E a p)) = pool_keys p"
  by (auto simp: acquire_anchor_def split: option.split prod.split)

lemma keys_acquire [simp]: "pool_keys (snd (acquire_access_handles E clear a es p)) = pool_keys p"
  by (auto simp: acquire_access_handles_def intro!: keys_acquire_entries)

lemma keys_reserve [simp]: "pool_keys (snd (reserve_minimum_capacity E n es p)) = pool_keys p"
  by (auto simp: reserve_minimum_capacity_def intro!: keys_add_capacity)

lemma keys_empty_pool [simp]: "pool_keys (empty_pool P k r) = derived_keys P k"
  by (simp add: empty_pool_def pool_keys_def derived_keys_def split: prod.split)

text \<open>A new pool has the keys derived from the data key it is given, whatever the directory holds.\<close>

lemma keys_pool_new: "pool_new E k clear cap a es fresh r = Inr p \<Longrightarrow> pool_keys p = derived_keys E k"
proof -
  assume n: "pool_new E k clear cap a es fresh r = Inr p"
  obtain ok r' where r: "rng_selftest r = (ok, r')" by fastforce
  let ?m = "st_then (acquire_access_handles E clear a es (empty_pool E k r')) (\<lambda>_ p. reserve_minimum_capacity E cap fresh p)"
  have "pool_keys (snd ?m) = derived_keys E k" by (rule keys_then) simp_all
  then show ?thesis using n r by (cases ?m; cases "fst ?m") (auto simp: pool_new_def split: if_splits)
qed

lemma keys_install:
  "install E clear k dir reg = Inr p \<Longrightarrow> (case reg of Some q \<Rightarrow> p = q | None \<Rightarrow> pool_keys p = derived_keys E k)"
  by (auto simp: install_def try_then_Inr_iff dest!: keys_pool_new split: option.splits if_splits)

lemma dek_install: "install E clear dk dir None = Inr p \<Longrightarrow> dek p = dk"
  using keys_install [of E clear dk dir None p] by (simp add: derived_dek)

end
