(* ===== verification/Exchange.thy ===== *)
theory Exchange
  imports Pool_Keys
begin

text \<open>
  What devices exchange through the session layer: the bundle a session exports, read by the standalone
  decryptor or imported on another device; the token that carries freshness with it; the image that
  two devices pass through the relay. Each property follows one of them from end to end, on the pool,
  the envelope and the container of the other components. The last sections build a pool with one
  database, an envelope for it and their export, on which the properties are applied.
\<close>

section \<open>A bundle and the recovery code are enough\<close>

text \<open>A pool file as the exported bytes: the blocks of a database, the identifier in its manifest.\<close>

lemma exported_blocks:
  assumes "pool_inv E c p" and "on_disk E c p n u bs"
  shows "\<exists>ct. stored c p n = Some ct \<and> decrypt_db_file E n ct (dek p) u = Inr (concat bs)"
proof -
  obtain f where f: "lookup_file p n = Some f" "holds E c (dev_of p (f\<lparr>f_crypto := db_key E (dek p) u, f_key_domain := u\<rparr>)) (length bs) (\<lambda>k. bs ! k)"
    using assms(2) by (auto simp: on_disk_def)
  have fid: "f_file_id f = file_id_for E n" using assms(1) f(1) by (auto simp: pool_inv_def)
  let ?ct = "drop HEADER_OFFSET_DATA (c (handle f))"
  have "length ?ct = length bs * PHYS_BLOCK" using f(2) by (simp add: holds_def dev_of_def)
  moreover have "open_into E (db_key E (dek p) u) (file_id_for E n) u (word_of_nat k) (slice (k * PHYS_BLOCK) PHYS_BLOCK ?ct) = Inr (bs ! k)"
    if "k < length bs" for k
    using f(2) that fid by (simp add: holds_def dev_of_def open_block_def slice_def add.commute)
  ultimately have "decrypt_db_file E n ?ct (dek p) u = Inr (concat (map ((!) bs) [0..<length bs]))"
    by (intro decrypt_db_file_open) auto
  then show ?thesis using f(1) by (simp add: stored_def map_nth)
qed

lemma exported_manifest:
  assumes "manifest_ok E c p n u m"
  shows "\<exists>ct. stored c p (manifest_name n) = Some ct \<and> 24 \<le> length ct \<and> slice 8 16 ct = u"
proof -
  obtain mf where mf: "lookup_file p (manifest_name n) = Some mf" "manifest_uuid (c (handle mf)) = Some u" "manifest_at 2 \<le> length (c (handle mf))"
    using assms by (auto simp: manifest_ok_def)
  have "slice 8 16 (drop HEADER_OFFSET_DATA (c (handle mf))) = u"
    using mf(2) by (auto simp: manifest_uuid_def Let_def slice_def MANIFEST_HDR_LEN_def drop_take min_def add.commute split: if_splits)
  then show ?thesis using mf(1,3) by (simp add: stored_def manifest_at_simps HEADER_OFFSET_DATA_def)
qed

definition db_bundle :: "('h \<Rightarrow> bytes) \<Rightarrow> 'h pool \<Rightarrow> (str \<times> bytes) list" where
  "db_bundle c p = concat (map (\<lambda>n. stored_entry c p n @ stored_entry c p (manifest_name n)) (sort (db_files p)))"

lemma set_db_bundle: "(k, v) \<in> set (db_bundle c p) \<Longrightarrow> stored c p k = Some v"
  by (auto simp: db_bundle_def stored_entry_def split: option.splits)

lemma db_bundle_mem:
  "n \<in> set (db_files p) \<Longrightarrow> x \<in> set (stored_entry c p n @ stored_entry c p (manifest_name n)) \<Longrightarrow> x \<in> set (db_bundle c p)"
  unfolding db_bundle_def set_concat by (rule UN_I [of "stored_entry c p n @ stored_entry c p (manifest_name n)"]) simp_all

lemma find_in_set:
  assumes "find P xs = Some x"
  shows "x \<in> set xs" and "P x"
  using assms by (induction xs) (auto split: if_splits)

text \<open>What an export packs: the files of the databases, the stripped envelope, a token.\<close>

lemma export_pool_Inr:
  assumes "pool_inv E c p" and "\<forall>n \<in> set (db_files p). line_name n" and "export_pool E cred envelope p = (Inr b, p')"
  obtains env' n epoch p1 where "strip_kind E envelope (dek p) KIND_DEVICE = Inr env'"
    and "n \<in> set (db_files p)" and "export_epoch E n (envelope_generation env') p = (Inr epoch, p1)"
    and "b = bundle_encode env' cred (db_bundle c p) epoch" and "db_bundle c p \<noteq> []"
proof -
  let ?ns = "sort (db_files p)"
  have fs: "collect_files E p ?ns = Inr (db_bundle c p)"
    using collect_files_stored [OF assms(1), of ?ns] assms(2) by (simp add: db_bundle_def)
  let ?n = "case find (\<lambda>n. n = ascii ''app.db'') ?ns of Some n \<Rightarrow> n | None \<Rightarrow> ?ns ! 0"
  obtain env' epoch where e: "db_bundle c p \<noteq> []" "strip_export_envelope E envelope p = Inr env'"
      "fst (export_epoch E ?n (envelope_generation env') p) = Inr epoch" "b = bundle_encode env' cred (db_bundle c p) epoch"
    using assms(3) unfolding export_pool_def Let_def fs
    by (auto simp: lift_pool_def st_then_Inr_iff split: if_splits sum.splits)
  have "?ns \<noteq> []" using e(1) unfolding db_bundle_def by (metis concat.simps(1) list.map(1))
  then have "?ns ! 0 \<in> set ?ns" by (intro nth_mem) (simp flip: length_greater_0_conv)
  then have "?n \<in> set ?ns" by (cases "find (\<lambda>n. n = ascii ''app.db'') ?ns") (auto dest: find_in_set(1))
  moreover have "export_epoch E ?n (envelope_generation env') p = (Inr epoch, snd (export_epoch E ?n (envelope_generation env') p))"
    using e(3) by (metis prod.collapse)
  ultimately show ?thesis using that [of env' ?n epoch] e by (simp add: strip_export_envelope_def)
qed

text \<open>A database of the pool that the session can have opened, complete on disk.\<close>

definition exportable :: "('h, 'z) env_scheme \<Rightarrow> ('h \<Rightarrow> bytes) \<Rightarrow> 'h pool \<Rightarrow> str \<Rightarrow> bytes \<Rightarrow> bytes list \<Rightarrow> manifest_payload \<Rightarrow> bool" where
  "exportable E c p n u bs m \<longleftrightarrow> (\<exists>base. valid_db_name base \<and> n = base @ ascii ''.db'')
     \<and> on_disk E c p n u bs \<and> manifest_ok E c p n u m"

lemma valid_db_name_base: "valid_db_name b \<longleftrightarrow> b \<noteq> [] \<and> length b \<le> 32 \<and> list_all base_char b"
  by (simp add: valid_db_name_def base_char_def list_all_iff)

text \<open>A name the session accepts stays clear of manifests, journals, rotation files and line marks.\<close>

lemma valid_db_name_file:
  assumes "valid_db_name b" and "n = b @ ascii ''.db''"
  shows "valid_pool_filename n" and "valid_pool_filename (manifest_name n)" and "line_name n" and "utf8_valid n"
    and "length n < 2 ^ 16 - 9" and "satellite_parent n = None" and "n \<noteq> ROT_INTENT_NAME" and "\<not> ends_with n ROT_SHADOW_SUFFIX"
proof -
  have b: "b \<noteq> []" "length b \<le> 32" "list_all base_char b" using assms(1) by (simp_all add: valid_db_name_base)
  show "valid_pool_filename n" "valid_pool_filename (manifest_name n)"
    using b by (auto simp: valid_pool_filename_iff assms(2) manifest_name_def)
  then have "name_ok n" by (intro valid_name_ok)
  then show "utf8_valid n" "length n < 2 ^ 16 - 9" by (simp_all add: name_ok_def HEADER_MAX_FILENAME_SIZE_def)
  have "\<forall>x \<in> set b. x \<noteq> 10 \<and> x \<noteq> 0x7C" using b(3) by (auto simp: list_all_iff base_char_def)
  then show "line_name n" by (auto simp: line_name_def assms(2))
  show "satellite_parent n = None" "n \<noteq> ROT_INTENT_NAME" "\<not> ends_with n ROT_SHADOW_SUFFIX"
    by (auto simp: assms(2) satellite_parent_def strip_suffix_def ends_with_def ROT_INTENT_NAME_def ROT_SHADOW_SUFFIX_def
        dest!: arg_cong [where f = rev])
qed

lemma exportable_name:
  assumes "exportable E c p n u bs m"
  shows "line_name n" and "utf8_valid n" and "length n < 2 ^ 16 - 9" and "valid_pool_filename n" and "valid_pool_filename (manifest_name n)"
proof -
  obtain b where b: "valid_db_name b" "n = b @ ascii ''.db''" using assms by (auto simp: exportable_def)
  show "line_name n" and "utf8_valid n" and "length n < 2 ^ 16 - 9" and "valid_pool_filename n" and "valid_pool_filename (manifest_name n)"
    by (rule valid_db_name_file [OF b])+
qed

lemma manifest_suffix: "manifest_name n = n @ OFF_MANIFEST_SUFFIX" "\<not> ends_with (manifest_name n) (ascii ''.db'')"
  by (auto simp: manifest_name_def OFF_MANIFEST_SUFFIX_def ends_with_def)

lemma utf8_manifest: "utf8_valid n \<Longrightarrow> utf8_valid (manifest_name n)"
  unfolding manifest_name_def by (rule utf8_valid_append, assumption, rule utf8_valid_ascii) auto

lemma db_bundle_decodes:
  assumes "\<forall>n \<in> set (db_files p). \<exists>u bs m. exportable E c p n u bs m" and "length (bundle_encode env cred (db_bundle c p) epoch) < 2 ^ 32"
  shows "bundle_decode (bundle_encode env cred (db_bundle c p) epoch)
      = Inr \<lparr>b_envelope = env, b_cred_id = cred, b_files = db_bundle c p, b_epoch = epoch\<rparr>"
proof -
  let ?b = "\<lparr>b_envelope = env, b_cred_id = cred, b_files = db_bundle c p, b_epoch = epoch\<rparr>"
  have "utf8_valid k \<and> length k < 2 ^ 16" if k: "(k, v) \<in> set (db_bundle c p)" for k v
  proof -
    obtain n where "n \<in> set (db_files p)" "k = n \<or> k = manifest_name n"
      using k by (auto simp: db_bundle_def stored_entry_def split: option.splits)
    then show ?thesis using assms(1) utf8_manifest exportable_name(2,3) by (fastforce simp: manifest_name_def)
  qed
  then have "bundle_wf ?b" by (auto simp: bundle_wf_def list_all_iff)
  moreover have "length (bundle_bytes ?b) \<le> USIZE_MAX_32" using assms(2) by (simp add: bundle_bytes_def USIZE_MAX_32_def)
  ultimately show ?thesis using bundle_decode_encode [of ?b] by (simp add: bundle_bytes_def)
qed

lemma db_bundle_names:
  assumes "pool_inv E c p" and "\<forall>n \<in> set (db_files p). \<exists>u bs m. exportable E c p n u bs m"
  shows "filter (\<lambda>n. ends_with n (ascii ''.db'')) (map fst (db_bundle c p)) = sort (db_files p)"
proof -
  have "filter (\<lambda>n. ends_with n (ascii ''.db'')) (map fst (concat (map (\<lambda>n. stored_entry c p n @ stored_entry c p (manifest_name n)) ns))) = ns"
    if "set ns \<subseteq> set (db_files p)" for ns
    using that
  proof (induction ns)
    case (Cons n ns)
    then obtain u bs m where x: "exportable E c p n u bs m" using assms(2) by auto
    then obtain ct man where "stored c p n = Some ct" "stored c p (manifest_name n) = Some man"
      using exported_blocks [OF assms(1)] exported_manifest unfolding exportable_def by metis
    moreover have "ends_with n (ascii ''.db'')" using Cons.prems by (simp add: db_files_def)
    ultimately show ?case using Cons manifest_suffix(2) [of n] by (simp add: stored_entry_def)
  qed simp
  then show ?thesis by (simp add: db_bundle_def)
qed

lemma find_stored:
  assumes "(k, v) \<in> set (db_bundle c p)"
  shows "find (\<lambda>(n, _). n = k) (db_bundle c p) = Some (k, v)"
proof -
  obtain x where x: "find (\<lambda>(n, _). n = k) (db_bundle c p) = Some x"
    using assms by (cases "find (\<lambda>(n, _). n = k) (db_bundle c p)") (auto simp: find_None_iff)
  have "x \<in> set (db_bundle c p)" "fst x = k" using find_in_set [OF x] by auto
  then show ?thesis using x set_db_bundle [of "fst x" "snd x" c p] set_db_bundle [OF assms] by (cases x) auto
qed

text \<open>
  C7: The data belongs to whoever holds the recovery code. A bundle exported from a live session, read
  by the standalone decryptor with the recovery code alone, yields every database of the pool under
  its name as exactly the concatenation of its plaintext blocks, and nothing else.
\<close>

theorem exported_bundle_recovers:
  assumes inv: "pool_inv E c p" and hash: "hash_ok E" and ex: "export_pool E cred envelope p = (Inr b, p')" and len: "length b < 2 ^ 32"
    and dbs: "\<forall>n \<in> set (db_files p). \<exists>m. exportable E c p n (u n) (bs n) m"
    and code: "open_with_recovery E envelope code = Inr (dek p)" and only: "recovery_slots_only E envelope code"
  shows "recover E b code = Inr (map (\<lambda>n. (n, concat (bs n))) (sort (db_files p)))"
proof -
  have dbs': "\<forall>n \<in> set (db_files p). \<exists>u bs m. exportable E c p n u bs m" using dbs by blast
  obtain env' n epoch p1 where e: "strip_kind E envelope (dek p) KIND_DEVICE = Inr env'" "n \<in> set (db_files p)"
      "b = bundle_encode env' cred (db_bundle c p) epoch" "db_bundle c p \<noteq> []"
    using export_pool_Inr [OF inv _ ex] dbs exportable_name(1) by metis
  note o = strip_keeps_recovery [OF hash code only e(1)]
  have parse: "parse_bundle b = Inr (env', db_bundle c p)"
    using offline_parser_iff [of b env' "db_bundle c p"] db_bundle_decodes [OF dbs'] len e(3) o(2) by auto
  have "\<exists>man. find (\<lambda>(k, _). k = n @ OFF_MANIFEST_SUFFIX) (db_bundle c p) = Some (n @ OFF_MANIFEST_SUFFIX, man)
      \<and> 24 \<le> length man \<and> decrypt_db_file E n ct (dek p) (slice 8 16 man) = Inr (concat (bs n))"
    if nct: "(n, ct) \<in> set (db_bundle c p)" and suf: "ends_with n (ascii ''.db'')" for n ct
  proof -
    have st: "stored c p n = Some ct" using nct by (rule set_db_bundle)
    then have "n \<in> set (db_files p)" using suf has_filename_stored [of p n c]
      by (auto simp: db_files_def get_filenames_def has_filename_iff)
    then obtain m where x: "exportable E c p n (u n) (bs n) m" using dbs by blast
    obtain man where man: "stored c p (manifest_name n) = Some man" "24 \<le> length man" "slice 8 16 man = u n"
      using exported_manifest x unfolding exportable_def by blast
    have "(manifest_name n, man) \<in> set (stored_entry c p n @ stored_entry c p (manifest_name n))" using man(1) by (simp add: stored_entry_def)
    then have "(manifest_name n, man) \<in> set (db_bundle c p)"
      using db_bundle_mem [OF \<open>n \<in> set (db_files p)\<close>] by blast
    then have "find (\<lambda>(k, _). k = n @ OFF_MANIFEST_SUFFIX) (db_bundle c p) = Some (n @ OFF_MANIFEST_SUFFIX, man)"
      unfolding manifest_suffix(1) by (rule find_stored)
    moreover have "decrypt_db_file E n ct (dek p) (u n) = Inr (concat (bs n))"
      using exported_blocks [OF inv, of n "u n" "bs n"] x st by (auto simp: exportable_def)
    ultimately show ?thesis using man by (intro exI [of _ man]) simp
  qed
  then have "recover_files E (dek p) (db_bundle c p) (db_bundle c p)
      = Inr (map (\<lambda>n. (n, concat (bs n))) (filter (\<lambda>n. ends_with n (ascii ''.db'')) (map fst (db_bundle c p))))"
    by (rule recover_files_open)
  moreover have "sort (db_files p) \<noteq> []" using e(2) by (metis length_pos_if_in_set length_sort less_numeral_extra(3) list.size(3))
  ultimately show ?thesis using parse o(1) db_bundle_names [OF inv dbs'] by (simp add: recover_def)
qed

section \<open>A bundle moves the databases\<close>

text \<open>What a database is on disk depends on the stored bytes and the data key only.\<close>

lemma slice_region: "slice (HEADER_OFFSET_DATA + k) m x = slice k m (drop HEADER_OFFSET_DATA x)"
  by (simp add: slice_def add.commute)

lemma manifest_slot_region:
  assumes "HEADER_OFFSET_DATA \<le> length b" and "HEADER_OFFSET_DATA \<le> length b'" and "drop HEADER_OFFSET_DATA b = drop HEADER_OFFSET_DATA b'"
  shows "manifest_slot E kdb fid u b slot = manifest_slot E kdb fid u b' slot" and "manifest_uuid b = manifest_uuid b'" and "length b = length b'"
proof -
  have l: "length b = length b'" using arg_cong [OF assms(3), of length] assms(1,2) by simp
  show "length b = length b'" by (rule l)
  show "manifest_slot E kdb fid u b slot = manifest_slot E kdb fid u b' slot"
    unfolding manifest_slot_def manifest_at_def add.assoc [of HEADER_OFFSET_DATA] slice_region assms(3) l by (rule refl)
  show "manifest_uuid b = manifest_uuid b'"
    using slice_region [of 0 MANIFEST_HDR_LEN b] slice_region [of 0 MANIFEST_HDR_LEN b'] assms(3) by (simp add: manifest_uuid_def)
qed

lemma stored_Some:
  assumes "pool_inv E c p" and "stored c p n = Some ct"
  obtains f where "lookup_file p n = Some f" and "drop HEADER_OFFSET_DATA (c (handle f)) = ct" and "HEADER_OFFSET_DATA \<le> length (c (handle f))"
  using assms by (auto simp: stored_def pool_inv_def handle_ok_def)

lemma same_bytes_same_database:
  assumes "pool_inv E c p" and "pool_inv E c q" and "dek q = dek p" and "exportable E c p n u bs m"
    and "stored c q n = stored c p n" and "stored c q (manifest_name n) = stored c p (manifest_name n)"
  shows "exportable E c q n u bs m"
proof -
  obtain f where f: "lookup_file p n = Some f" "holds E c (dev_of p (f\<lparr>f_crypto := db_key E (dek p) u, f_key_domain := u\<rparr>)) (length bs) (\<lambda>k. bs ! k)"
      "length bs * BLOCK_SIZE \<le> DEV_LIMIT"
    using assms(4) by (auto simp: exportable_def on_disk_def)
  obtain mf where mf: "lookup_file p (manifest_name n) = Some mf" "manifest_uuid (c (handle mf)) = Some u" "manifest_at 2 \<le> length (c (handle mf))"
      "parity_ok db_generation (manifest_slot E (db_key E (dek p) u) (file_id_for E (manifest_name n)) u (c (handle mf)))"
      "manifest_now E (dek p) (manifest_name n) u (c (handle mf)) = Some m"
    using assms(4) by (auto simp: exportable_def manifest_ok_def)
  have hp: "HEADER_OFFSET_DATA \<le> length (c (handle f))" "HEADER_OFFSET_DATA \<le> length (c (handle mf))" "f_file_id f = file_id_for E n"
    using assms(1) f(1) mf(1) by (auto simp: pool_inv_def handle_ok_def)
  obtain g where g: "lookup_file q n = Some g" "drop HEADER_OFFSET_DATA (c (handle g)) = drop HEADER_OFFSET_DATA (c (handle f))"
      "HEADER_OFFSET_DATA \<le> length (c (handle g))"
    by (rule stored_Some [OF assms(2), of n "drop HEADER_OFFSET_DATA (c (handle f))"]) (use assms(5) f(1) in \<open>auto simp: stored_def\<close>)
  obtain mg where mg: "lookup_file q (manifest_name n) = Some mg" "drop HEADER_OFFSET_DATA (c (handle mg)) = drop HEADER_OFFSET_DATA (c (handle mf))"
      "HEADER_OFFSET_DATA \<le> length (c (handle mg))"
    by (rule stored_Some [OF assms(2), of "manifest_name n" "drop HEADER_OFFSET_DATA (c (handle mf))"]) (use assms(6) mf(1) in \<open>auto simp: stored_def\<close>)
  have "f_file_id g = f_file_id f" using assms(2) g(1) hp(3) by (auto simp: pool_inv_def)
  moreover have "slice (HEADER_OFFSET_DATA + k) m (c (handle g)) = slice (HEADER_OFFSET_DATA + k) m (c (handle f))" for k m
    by (simp add: slice_region g(2))
  moreover have "length (c (handle g)) = length (c (handle f))" using arg_cong [OF g(2), of length] hp(1) g(3) by simp
  ultimately have "on_disk E c q n u bs"
    using f g(1) assms(3) by (simp add: on_disk_def holds_def dev_of_def open_block_def)
  moreover note r = manifest_slot_region [OF mg(3) hp(2) mg(2)]
  have "manifest_slot E (db_key E (dek p) u) (file_id_for E (manifest_name n)) u (c (handle mg))
      = manifest_slot E (db_key E (dek p) u) (file_id_for E (manifest_name n)) u (c (handle mf))" by (rule ext) (rule r(1))
  then have "manifest_ok E c q n u m"
    unfolding manifest_ok_def using mf mg(1) assms(3) r(2,3) by (simp add: manifest_now_def)
  ultimately show ?thesis using assms(4) by (simp add: exportable_def)
qed

lemma exportable_stored:
  assumes "pool_inv E c p" and "exportable E c p n u bs m" and "k = n \<or> k = manifest_name n"
  obtains v where "stored c p k = Some v"
proof -
  obtain ct man where "stored c p n = Some ct" "stored c p (manifest_name n) = Some man"
    using exported_blocks [OF assms(1)] exported_manifest assms(2) unfolding exportable_def by metis
  then show ?thesis using that assms(3) by blast
qed

lemma db_bundle_lookup:
  assumes "pool_inv E c p" and "\<forall>n \<in> set (db_files p). \<exists>u bs m. exportable E c p n u bs m"
  shows "map_of (rev (db_bundle c p)) k = (if \<exists>n \<in> set (db_files p). k = n \<or> k = manifest_name n then stored c p k else None)"
proof (cases "k \<in> fst ` set (db_bundle c p)")
  case True
  then obtain v where v: "map_of (rev (db_bundle c p)) k = Some v" by (metis map_of_eq_None_iff not_None_eq set_rev)
  then have kv: "(k, v) \<in> set (db_bundle c p)" using map_of_SomeD by fastforce
  then have "\<exists>n \<in> set (db_files p). k = n \<or> k = manifest_name n"
    by (auto simp: db_bundle_def stored_entry_def split: option.splits)
  then show ?thesis using v set_db_bundle [OF kv] by simp
next
  case False
  have "\<not> (\<exists>n \<in> set (db_files p). k = n \<or> k = manifest_name n)"
  proof
    assume "\<exists>n \<in> set (db_files p). k = n \<or> k = manifest_name n"
    then obtain n where n: "n \<in> set (db_files p)" "k = n \<or> k = manifest_name n" by blast
    then obtain u bs m where "exportable E c p n u bs m" using assms(2) by blast
    then obtain v where "stored c p k = Some v" using exportable_stored [OF assms(1) _ n(2)] by blast
    then have "(k, v) \<in> set (stored_entry c p n @ stored_entry c p (manifest_name n))" using n(2) by (auto simp: stored_entry_def)
    from db_bundle_mem [OF n(1) this] show False using False by force
  qed
  moreover have "map_of (rev (db_bundle c p)) k = None" using False by (simp add: map_of_eq_None_iff)
  ultimately show ?thesis by simp
qed

text \<open>Importing what was exported puts the files of the databases over those of the pool.\<close>

lemma import_db_bundle:
  assumes p: "pool_inv E c p" and dbs: "\<forall>n \<in> set (db_files p). \<exists>u bs m. exportable E c p n u bs m" and size: "\<forall>n b. stored c p n = Some b \<longrightarrow> length b < 2 ^ 31"
    and q: "pool_inv E c q" and room: "2 * length (db_files p) \<le> length (available q)"
  shows "\<exists>q'. import_files E (db_bundle c p) q = (Inr (), q') \<and> pool_inv E c q'
    \<and> (\<forall>k. stored c q' k = (if \<exists>n \<in> set (db_files p). k = n \<or> k = manifest_name n then stored c p k else stored c q k))"
proof -
  let ?fs = "db_bundle c p"
  have ok: "\<forall>(n, b) \<in> set ?fs. valid_pool_filename n \<and> length b < 2 ^ 31"
  proof clarify
    fix k b assume kb: "(k, b) \<in> set ?fs"
    then obtain n where "n \<in> set (db_files p)" "k = n \<or> k = manifest_name n"
      by (auto simp: db_bundle_def stored_entry_def split: option.splits)
    then show "valid_pool_filename k \<and> length b < 2 ^ 31" using dbs exportable_name(4,5) size set_db_bundle [OF kb] by metis
  qed
  have "length ?fs \<le> 2 * length ns" if "?fs = concat (map (\<lambda>n. stored_entry c p n @ stored_entry c p (manifest_name n)) ns)" for ns
  proof -
    have "length (concat (map (\<lambda>n. stored_entry c p n @ stored_entry c p (manifest_name n)) ns)) \<le> 2 * length ns"
      by (induction ns) (auto simp: stored_entry_def split: option.splits)
    then show ?thesis unfolding that .
  qed
  from this [of "sort (db_files p)"] have "length ?fs \<le> 2 * length (db_files p)" by (simp add: db_bundle_def)
  moreover have "card (fst ` set ?fs - dom (stored c q)) \<le> length ?fs"
    by (rule le_trans [OF card_mono [OF _ Diff_subset]]) (simp, metis card_length length_map list.set_map)
  ultimately have "card (fst ` set ?fs - dom (stored c q)) \<le> length (available q)" using room by simp
  from import_files_view [OF q this ok] obtain q' where
    "import_files E ?fs q = (Inr (), q')" "pool_inv E c q'" "stored c q' = stored c q ++ map_of (rev ?fs)" by blast
  moreover from this have "stored c q' k = (if \<exists>n \<in> set (db_files p). k = n \<or> k = manifest_name n then stored c p k else stored c q k)" for k
  proof (cases "\<exists>n \<in> set (db_files p). k = n \<or> k = manifest_name n")
    case True
    then obtain v where "stored c p k = Some v" using exportable_stored [OF p] dbs by metis
    then show ?thesis using db_bundle_lookup [OF p dbs, of k] True calculation(3) by (simp add: map_add_def)
  next
    case False
    then show ?thesis using db_bundle_lookup [OF p dbs, of k] calculation(3) by (simp add: map_add_def)
  qed
  ultimately show ?thesis by blast
qed

lemma import_all_rest:
  "pool_inv E c p \<Longrightarrow> \<forall>(n, b) \<in> set fs. valid_pool_filename n \<and> length b < 2 ^ 31 \<Longrightarrow>
   import_all E fs p = (Inr (), p') \<Longrightarrow> pool_rest p' = pool_rest p"
proof (induction fs arbitrary: p)
  case (Cons f fs)
  obtain n b where f: "f = (n, b)" by fastforce
  have nb: "name_ok n" "HEADER_OFFSET_DATA + length b < 2 ^ 32"
    using Cons.prems(2) f valid_name_ok by (auto simp: HEADER_OFFSET_DATA_def)
  obtain p1 where p1: "pool_inv E c p1" "pool_rest p1 = pool_rest p"
      "import_ciphertext_file E n b p = (Inr (), p1) \<or> import_ciphertext_file E n b p = (Inl PoolFull, p1)"
    using import_outcomes [OF Cons.prems(1) nb] by blast
  then show ?case using Cons.IH [OF p1(1)] Cons.prems(2,3) f by auto
qed simp

lemma import_files_rest:
  assumes "pool_inv E c p" and "\<forall>(n, b) \<in> set fs. length b < 2 ^ 31" and "import_files E fs p = (Inr (), p')"
  shows "pool_rest p' = pool_rest p"
  using assms import_all_rest [OF assms(1), of fs p'] by (fastforce simp: import_files_def list_ex_iff split: if_splits)

lemma db_bundle_sizes:
  assumes "\<forall>n b. stored c p n = Some b \<longrightarrow> length b < 2 ^ 31"
  shows "\<forall>(n, b) \<in> set (db_bundle c p). length b < 2 ^ 31"
  using assms set_db_bundle by blast

text \<open>
  C9: A bundle moves the databases to another device. What a session exports, an import accepts; the
  envelope that arrives has the unlock methods of the one exported less the device-bound ones, at the
  same generation; and any pool that opens on the imported files with the data key holds every
  exported database with the same identifier, manifest and blocks.
\<close>

theorem export_import_carries:
  assumes p: "pool_inv E c p" and hash: "hash_ok E" and dbs: "\<forall>n \<in> set (db_files p). \<exists>u bs m. exportable E c p n u bs m"
    and size: "\<forall>n b. stored c p n = Some b \<longrightarrow> length b < 2 ^ 31"
    and ex: "export_pool E cred envelope p = (Inr b, p')" and len: "length b < 2 ^ 32"
    and inst: "install E True DUMMY_DEK dir None = Inr q"
    and q: "pool_inv E c q" "open_files q = []" "2 * length (db_files p) \<le> length (available q)"
  shows "\<exists>env epoch q'. import_bundle E b dir = Inr ((env, cred, epoch), q')
    \<and> slot_infos env = filter (\<lambda>s. kind s \<noteq> KIND_DEVICE) (slot_infos envelope) \<and> envelope_generation env = envelope_generation envelope
    \<and> (\<forall>r n u bs m. n \<in> set (db_files p) \<longrightarrow> exportable E c p n u bs m \<longrightarrow>
          pool_inv E c r \<longrightarrow> dek r = dek p \<longrightarrow> stored c r = stored c q' \<longrightarrow> exportable E c r n u bs m)"
proof -
  obtain env n epoch p1 where e: "strip_kind E envelope (dek p) KIND_DEVICE = Inr env" "b = bundle_encode env cred (db_bundle c p) epoch"
    using export_pool_Inr [OF p _ ex] dbs exportable_name(1) by metis
  have d: "bundle_decode b = Inr \<lparr>b_envelope = env, b_cred_id = cred, b_files = db_bundle c p, b_epoch = epoch\<rparr>"
    using db_bundle_decodes [OF dbs] len e(2) by simp
  obtain k where "env_parse envelope = Inr k" using e(1) by (auto simp: strip_kind_def try_then_Inr_iff)
  from strip_kind_effect [OF hash this, where dek = "dek p" and k = KIND_DEVICE] e(1)
  have env: "slot_infos env = filter (\<lambda>s. kind s \<noteq> KIND_DEVICE) (slot_infos envelope)" "envelope_generation env = envelope_generation envelope"
    by simp_all
  obtain q' where q': "import_files E (db_bundle c p) q = (Inr (), q')" "pool_inv E c q'"
      "\<And>k. stored c q' k = (if \<exists>n \<in> set (db_files p). k = n \<or> k = manifest_name n then stored c p k else stored c q k)"
    using import_db_bundle [OF p dbs size q(1,3)] by blast
  have "open_files q' = []" using import_files_rest [OF q(1) db_bundle_sizes [OF size] q'(1)] q(2) by (simp add: pool_rest_def)
  then have "import_bundle E b dir = Inr ((env, cred, epoch), q')"
    using d inst q'(1) by (simp add: import_bundle_def pause_vfs_def)
  moreover have "exportable E c r n u bs m"
    if "n \<in> set (db_files p)" "exportable E c p n u bs m" "pool_inv E c r" "dek r = dek p" "stored c r = stored c q'" for r n u bs m
  proof (rule same_bytes_same_database [OF p that(3,4,2)])
    show "stored c r n = stored c p n" unfolding that(5) using q'(3) [of n] that(1) by metis
    show "stored c r (manifest_name n) = stored c p (manifest_name n)" unfolding that(5) using q'(3) [of "manifest_name n"] that(1) by metis
  qed
  ultimately show ?thesis using env by blast
qed

section \<open>A stale envelope is refused\<close>

lemma manifest_uuid_length: "manifest_ok E c p n u m \<Longrightarrow> length u = 16"
  using exported_manifest by fastforce

text \<open>
  C8: A revoked unlock method stays revoked on every device. The token in a bundle attests the
  generation of the envelope it was exported with. A device that holds the same data key and unlocks
  with an envelope opens a session exactly if that envelope is not older; with an older one, such as
  one from before a revocation, it answers the rollback and leaves no session.
\<close>

theorem stale_envelope_refused:
  assumes p: "pool_inv E c p" and prims: "aead_ok E" "hash_ok E" and dev: "length (device_id p) = 16"
    and dbs: "\<forall>n \<in> set (db_files p). \<exists>u bs m. exportable E c p n u bs m"
    and ex: "export_pool E cred envelope p = (Inr b, p')" and len: "length b < 2 ^ 32" and dec: "bundle_decode b = Inr bd"
    and idle: "session s = None" and inst: "install E False dk dir (registered s) = Inr q0" and rec: "recover_rotation E q0 = (Inr x, q)"
    and q: "anchor_inv E c q" "dek q = dek p" "rng_good 2 (p_rng q)" "unat (fst (anchor_load E q)) + 2 < 2 ^ 64" "length (snd (anchor_load E q)) < ANCHOR_CAP"
    and op: "open_with_prf E old prf = Inr dk"
  shows "fst (session_open E close prf old (b_epoch bd) dir s) = (if envelope_generation old < envelope_generation envelope
        then Inl (EnvelopeRollback (envelope_generation old) (envelope_generation envelope)) else Inr ())
    \<and> (session_active (snd (session_open E close prf old (b_epoch bd) dir s)) \<longleftrightarrow> envelope_generation envelope \<le> envelope_generation old)"
proof -
  obtain env n epoch p1 where e: "strip_kind E envelope (dek p) KIND_DEVICE = Inr env" "n \<in> set (db_files p)"
      "export_epoch E n (envelope_generation env) p = (Inr epoch, p1)" "b = bundle_encode env cred (db_bundle c p) epoch"
    using export_pool_Inr [OF p _ ex] dbs exportable_name(1) by metis
  obtain u bs m where "exportable E c p n u bs m" using dbs e(2) by blast
  then have m: "manifest_ok E c p n u m" by (simp add: exportable_def)
  obtain k where "env_parse envelope = Inr k" using e(1) by (auto simp: strip_kind_def try_then_Inr_iff)
  from strip_kind_effect [OF prims(2) this, where dek = "dek p" and k = KIND_DEVICE] e(1)
  have gen: "envelope_generation env = envelope_generation envelope" by simp
  have sah: "sah_ok E c" using p by (simp add: pool_inv_def)
  obtain h y where ap: "apply_epoch E epoch q = (Inr (db_generation m, envelope_generation envelope), q\<lparr>p_rng := y, anchor_handle := Some h\<rparr>)"
    using token_applies [OF sah m manifest_uuid_length [OF m] prims dev e(3) q(1-4) disjI2 [OF q(5)]] gen by metis
  have bd: "b_epoch bd = epoch" using db_bundle_decodes [OF dbs] len e(4) dec by auto
  have ne: "epoch \<noteq> []" using ap by (auto simp: apply_epoch_def open_bytes_def NONCE_LEN_def)
  let ?q = "q\<lparr>p_rng := y, anchor_handle := Some h\<rparr>"
  have "session_open E close prf old (b_epoch bd) dir s = (if envelope_generation old < envelope_generation envelope
      then (Inl (EnvelopeRollback (envelope_generation old) (envelope_generation envelope)),
            case pause_vfs ?q of (Inl _, p) \<Rightarrow> leave p s | (Inr _, _) \<Rightarrow> s\<lparr>registered := None\<rparr>)
      else (Inr (), s\<lparr>session := Some (?q, []), registered := None\<rparr>))"
    using op idle inst rec ap ne unfolding bd
    by (simp add: session_open_def session_begin_def session_lock_inner_def apply_peer_epoch_def)
  then show ?thesis using idle by (auto simp: session_active_def leave_def split: prod.splits sum.splits)
qed

section \<open>What a failed unlock leaves behind\<close>

text \<open>
  C38: An unlock that fails on its token leaves the unlocked pool behind. When the token does not
  authenticate, \<open>session_begin\<close> answers the error and no session is live, but the pool it installed is
  not paused; the next session, under whatever key, envelope and directory, is given that pool, with
  the data key of the first unlock, although a session is meant to run under the key it was opened
  with.
\<close>

theorem failed_unlock_keeps_pool:
  assumes "session s = None" and "install E False dk dir (registered s) = Inr q" and "\<not> has_filename q ROT_INTENT_NAME"
    and "epoch \<noteq> []" and "\<not> is_ok (open_bytes E (epoch_key E (dek q)) EPOCH_AAD epoch)"
  shows "\<exists>s1. session_begin E close dk envelope epoch dir s = (Inl (Pool EpochAuth), s1) \<and> \<not> session_active s1
    \<and> (\<forall>dk2 envelope2 dir2 close2. session_begin E close2 dk2 envelope2 [] dir2 s1 = (Inr (), s1\<lparr>session := Some (q, []), registered := None\<rparr>))"
proof -
  have rec: "recover_rotation E q = (Inr NothingStaged, q)" using assms(3) by (simp add: recover_rotation_def)
  have ap: "apply_peer_epoch E envelope epoch q = ((Inl EpochAuth, q), None)"
    using assms(4,5) by (auto simp: apply_peer_epoch_def apply_epoch_def split: sum.splits)
  have "session_begin E close dk envelope epoch dir s = (Inl (Pool EpochAuth), leave q s)"
    using assms(1,2) rec ap by (simp add: session_begin_def session_lock_inner_def)
  moreover have "session_begin E close2 dk2 envelope2 [] dir2 (leave q s)
      = (Inr (), (leave q s)\<lparr>session := Some (q, []), registered := None\<rparr>)" for close2 dk2 envelope2 dir2
    using assms(1) rec by (simp add: session_begin_def session_lock_inner_def install_def leave_def apply_peer_epoch_def)
  ultimately show ?thesis using assms(1) by (auto simp: session_active_def leave_def)
qed

section \<open>Sync\<close>

text \<open>Closing connections may work on the pool, but leaves its files as they are stored.\<close>

definition close_ok :: "('h, 'z) env_scheme \<Rightarrow> ('h \<Rightarrow> bytes) \<Rightarrow> 'h engine_close \<Rightarrow> bool" where
  "close_ok E c close \<longleftrightarrow> (\<forall>n p. pool_inv E c p \<longrightarrow> pool_inv E c (close n p) \<and> stored c (close n p) = stored c p
     \<and> length (available (close n p)) = length (available p))"

lemma close_all:
  "close_ok E c close \<Longrightarrow> pool_inv E c p \<Longrightarrow>
   pool_inv E c (fold close hs p) \<and> stored c (fold close hs p) = stored c p \<and> length (available (fold close hs p)) = length (available p)"
proof (induction hs arbitrary: p)
  case (Cons h hs)
  have "pool_inv E c (close h p) \<and> stored c (close h p) = stored c p \<and> length (available (close h p)) = length (available p)"
    using Cons.prems unfolding close_ok_def by blast
  then show ?case using Cons.IH [OF Cons.prems(1), of "close h p"] by simp
qed simp

lemma decode_vv_wf: "decode_vv b = Inr v \<Longrightarrow> vv_wf v \<and> vv_encode v = b"
  using vv_decode_canonical [of b 0 v] by (fastforce simp: decode_vv_def try_then_Inr_iff slice_def split: if_splits)

text \<open>
  C10: What one device seals for the relay, another with the same data key opens to the same database,
  version vector and image; and applying the image puts every database file of the first device, byte
  for byte, in the pool of the second, whose other files stay as they are.
\<close>

theorem sync_carries_image:
  assumes p: "session sa = Some (p, hs)" "pool_inv E c p" and q: "session sb = Some (q, hs')" "pool_inv E c q" "dek q = dek p"
    and prims: "aead_ok E" "hash_ok E" and dbs: "\<forall>n \<in> set (db_files p). \<exists>u bs m. exportable E c p n u bs m"
    and size: "\<forall>n b. stored c p n = Some b \<longrightarrow> length b < 2 ^ 31" and room: "2 * length (db_files p) \<le> length (available q)"
    and len: "\<forall>img. session_image E p = Inr img \<longrightarrow> length vv + length img + 20 < 2 ^ 32" and close: "close_ok E c close"
    and seal: "session_sync_seal_inner E u vv r sa = (Inr sealed, r')"
  shows "\<exists>img q'. session_sync_open_parts E sealed sb = Inr (u, vv, img)
    \<and> session_sync_apply_inner E close img sb = (Inr (), sb\<lparr>session := Some (q', [])\<rparr>) \<and> pool_inv E c q'
    \<and> (\<forall>k. stored c q' k = (if \<exists>n \<in> set (db_files p). k = n \<or> k = manifest_name n then stored c p k else stored c q k))"
proof -
  obtain v img where v: "length u = 16" "decode_vv vv = Inr v" "session_image E p = Inr img"
      and "(case blob_seal E \<lparr>sb_uuid = u, sb_vv = v, sb_image = img\<rparr> (sync_crypto E p) r of (b, r) \<Rightarrow> (map_err BlobSeal b, r)) = (Inr sealed, r')"
    using seal p(1) by (auto simp: session_sync_seal_inner_def slice16_def st_then_Inr_iff split: if_splits)
  then have bs: "blob_seal E \<lparr>sb_uuid = u, sb_vv = v, sb_image = img\<rparr> (sync_crypto E p) r = (Inr sealed, r')"
    by (auto split: prod.splits)
  have w: "vv_wf v" "vv_encode v = vv" using decode_vv_wf [OF v(2)] by simp_all
  have "blob_wf \<lparr>sb_uuid = u, sb_vv = v, sb_image = img\<rparr>"
    using v(1) w len v(3) by (simp add: blob_wf_def blob_encode_inner_def USIZE_MAX_32_def)
  from blob_seal_opens [OF prims(1) _ this bs] have "blob_open E sealed (sync_crypto E q) = Inr \<lparr>sb_uuid = u, sb_vv = v, sb_image = img\<rparr>"
    using prims(2) q(3) by (simp add: sync_crypto_def len_simps)
  then have op: "session_sync_open_parts E sealed sb = Inr (u, vv, img)" using q(1) w by (simp add: session_sync_open_parts_def)
  have "collect_files E p (sort (db_files p)) = Inr (db_bundle c p)"
    using collect_files_stored [OF p(2), of "sort (db_files p)"] dbs exportable_name(1) unfolding db_bundle_def set_sort by metis
  then have "img = bundle_encode [] [] (db_bundle c p) []" using v(3) by (auto simp: session_image_def split: if_splits)
  then have d: "bundle_decode img = Inr \<lparr>b_envelope = [], b_cred_id = [], b_files = db_bundle c p, b_epoch = []\<rparr>"
    using db_bundle_decodes [OF dbs, of "[]" "[]" "[]"] len v(3) by simp
  note cl = close_all [OF close q(2), of hs']
  obtain q' where "import_files E (db_bundle c p) (fold close hs' q) = (Inr (), q')" "pool_inv E c q'"
      "\<forall>k. stored c q' k = (if \<exists>n \<in> set (db_files p). k = n \<or> k = manifest_name n then stored c p k else stored c (fold close hs' q) k)"
    using import_db_bundle [OF p(2) dbs size, of "fold close hs' q"] cl room by auto
  then show ?thesis using op d q(1) cl by (intro exI [of _ img] exI [of _ q']) (simp add: session_sync_apply_inner_def)
qed

section \<open>A pool with one database\<close>

text \<open>The manifest of a pool, cut to its header and its two slots, is still that manifest.\<close>

lemma manifest_slot_cut: "manifest_at 2 \<le> length b \<Longrightarrow> manifest_slot E k f u (take (manifest_at 2) b) slot = manifest_slot E k f u b slot"
  if "slot < 2"
  using that by (auto simp: less_2_cases_iff manifest_slot_def manifest_at_simps slice_def drop_take min_def)

lemma manifest_uuid_cut: "manifest_at 2 \<le> length b \<Longrightarrow> manifest_uuid (take (manifest_at 2) b) = manifest_uuid b"
  by (simp add: manifest_uuid_def slice_def drop_take min_def MANIFEST_HDR_LEN_def manifest_at_simps HEADER_OFFSET_DATA_def)

lemma manifest_ok_cut:
  assumes "manifest_ok E c p name u m" and "lookup_file p (manifest_name name) = Some f" and "c h = take (manifest_at 2) (c (handle f))"
  shows "manifest_ok E c (put_file (manifest_name name) (f\<lparr>handle := h\<rparr>) p) name u m"
proof -
  have b: "manifest_at 2 \<le> length (c (handle f))" using assms(1,2) by (auto simp: manifest_ok_def)
  have s: "manifest_slot E k i u (c h) s = manifest_slot E k i u (c (handle f)) s" if "s < 2" for k i s
    unfolding assms(3) by (rule manifest_slot_cut [OF that b])
  have "newest db_generation (manifest_slot E k i u (c h)) = newest db_generation (manifest_slot E k i u (c (handle f)))" for k i
    by (intro newest_cong) (simp_all add: s)
  moreover have "parity_ok db_generation (manifest_slot E k i u (c h)) = parity_ok db_generation (manifest_slot E k i u (c (handle f)))" for k i
    using s unfolding parity_ok_def by metis
  moreover have "manifest_uuid (c h) = manifest_uuid (c (handle f))" unfolding assms(3) by (rule manifest_uuid_cut [OF b])
  moreover have "length (c h) = manifest_at 2" unfolding assms(3) using b by simp
  ultimately show ?thesis using assms(1,2) by (simp add: manifest_ok_def manifest_now_def)
qed

lemma two_names: "set xs = {a, b} \<Longrightarrow> distinct xs \<Longrightarrow> a \<noteq> b \<Longrightarrow> xs = [a, b] \<or> xs = [b, a]"
proof -
  assume s: "set xs = {a, b}" and d: "distinct xs" and "a \<noteq> b"
  then have "length xs = 2" using distinct_card [OF d] by simp
  then obtain x y where "xs = [x, y]" by (auto simp: numeral_2_eq_2 length_Suc_conv)
  then show ?thesis using s d by auto
qed

lemma shipped_pool:
  obtains p where "pool_inv mem_env (\<lambda>h. h) p" and "exportable mem_env (\<lambda>h. h) p a_db new_uuid [first_block] (first_payload mem_env a_db new_uuid)"
    and "db_files p = [a_db]" and "\<forall>n b. stored (\<lambda>h. h) p n = Some b \<longrightarrow> length b \<le> 8336" and "dek p = dek new_pool"
    and "length (device_id p) = 16" and "p_rng p = [Some (replicate 24 1)]" and "\<forall>n. has_filename p n \<longrightarrow> n = a_db \<or> n = manifest_name a_db"
proof -
  have b: "\<forall>b \<in> set [first_block]. length b = BLOCK_SIZE" "length [first_block] * BLOCK_SIZE \<le> DEV_LIMIT"
    using first_block_ok(2) by (simp_all add: DEV_LIMIT_def BLOCK_SIZE_def)
  obtain p0 where p0: "db_inv mem_env (\<lambda>h. h) a_db new_state [first_block] (first_payload mem_env a_db new_uuid) p0"
      "dek p0 = dek new_pool" "\<forall>n. has_filename p0 n \<longrightarrow> n = a_db \<or> n = manifest_name a_db"
    using new_db_blocks [OF b] by metis
  let ?mn = "manifest_name a_db" and ?m = "first_payload mem_env a_db new_uuid"
  have pi: "pool_inv mem_env (\<lambda>h. h) p0" using p0(1) by (simp add: db_inv_def)
  have od: "on_disk mem_env (\<lambda>h. h) p0 a_db new_uuid [first_block]" and mo: "manifest_ok mem_env (\<lambda>h. h) p0 a_db new_uuid ?m"
    using db_inv_on_disk [OF p0(1) refl refl pi] by (simp_all add: new_state_def)
  obtain f where f: "lookup_file p0 ?mn = Some f" "manifest_at 2 \<le> length (handle f)" using mo by (auto simp: manifest_ok_def)
  let ?h = "take (manifest_at 2) (handle f)"
  let ?p1 = "put_file ?mn (f\<lparr>handle := ?h\<rparr>) p0"
  let ?p = "?p1\<lparr>device_id := replicate 16 0, p_rng := [Some (replicate 24 1)]\<rparr>"
  have fo: "handle_ok mem_env (\<lambda>h. h) (Some ?mn) (handle f)" "f_file_id f = file_id_for mem_env ?mn"
    using pi f(1) unfolding pool_inv_def by blast+
  have "take HEADER_CORPUS_SIZE ?h = take HEADER_CORPUS_SIZE (handle f)" by (simp add: header_sizes manifest_at_simps)
  then have "handle_ok mem_env (\<lambda>h. h) (Some ?mn) ?h" using fo(1) f(2) by (simp add: handle_ok_def header_sizes manifest_at_simps)
  then have "pool_inv mem_env (\<lambda>h. h) ?p1" using pi fo(2) by (auto simp: pool_inv_def)
  then have "pool_inv mem_env (\<lambda>h. h) ?p" by (simp add: pool_inv_def healthy_def lookup_file_def)
  then obtain p where inv: "pool_inv mem_env (\<lambda>h. h) p" and lk: "\<And>n. lookup_file p n = (if n = ?mn then Some (f\<lparr>handle := ?h\<rparr>) else lookup_file p0 n)"
      and rest: "dek p = dek new_pool" "device_id p = replicate 16 0" "p_rng p = [Some (replicate 24 1)]"
    using p0(2) by (intro that [of ?p]) (simp_all add: lookup_file_def put_file_def update_conv')
  have mo1: "manifest_ok mem_env (\<lambda>h. h) p a_db new_uuid ?m"
    using manifest_ok_cut [OF mo f(1), where h = ?h] p0(2) rest(1) by (simp add: manifest_ok_def lk)
  obtain g where g: "lookup_file p0 a_db = Some g" using od by (auto simp: on_disk_def)
  have "on_disk mem_env (\<lambda>h. h) p a_db new_uuid [first_block]"
    using od p0(2) rest(1) by (simp add: on_disk_def lk manifest_ne holds_def dev_of_def)
  moreover have "manifest_ok mem_env (\<lambda>h. h) p a_db new_uuid ?m" by (rule mo1)
  moreover have "valid_db_name [97]" "a_db = [97] @ ascii ''.db''" by (simp_all add: valid_db_name_def ascii_def)
  ultimately have ex: "exportable mem_env (\<lambda>h. h) p a_db new_uuid [first_block] ?m" unfolding exportable_def by blast
  have hf: "has_filename p n \<longleftrightarrow> n = a_db \<or> n = ?mn" for n
  proof
    assume "has_filename p n"
    then have "n = ?mn \<or> has_filename p0 n" by (auto simp: has_filename_def lk)
    then show "n = a_db \<or> n = ?mn" using p0(3) by blast
  next
    assume "n = a_db \<or> n = ?mn"
    then show "has_filename p n" using g by (auto simp: has_filename_def lk)
  qed
  have "set (map fst (files p)) = {a_db, ?mn}" using hf by (auto simp: has_filename_iff)
  moreover have "distinct (map fst (files p))" using inv unfolding pool_inv_def by blast
  ultimately have "map fst (files p) = [a_db, ?mn] \<or> map fst (files p) = [?mn, a_db]" using manifest_ne(2) by (intro two_names)
  then have df: "db_files p = [a_db]"
    unfolding db_files_def get_filenames_def by (auto simp: manifest_name_def ends_with_def ascii_def)
  have "length (drop HEADER_OFFSET_DATA (handle g)) \<le> 8336" using od g by (auto simp: on_disk_def holds_def dev_of_def size_defs)
  then have "length b \<le> 8336" if "stored (\<lambda>h. h) p n = Some b" for n b
  proof -
    have "has_filename p n" using that by (auto simp: stored_def has_filename_def)
    then consider "n = a_db" | "n = ?mn" using hf by blast
    then show ?thesis
    proof cases
      case 1
      then show ?thesis using that g \<open>length (drop HEADER_OFFSET_DATA (handle g)) \<le> 8336\<close> by (auto simp: stored_def lk manifest_ne)
    next
      case 2
      then show ?thesis using that f(2) by (auto simp: stored_def lk manifest_at_simps HEADER_OFFSET_DATA_def)
    qed
  qed
  then have st: "\<forall>n b. stored (\<lambda>h. h) p n = Some b \<longrightarrow> length b \<le> 8336" by blast
  show ?thesis using that [of p] inv ex df st rest hf by simp
qed
section \<open>An envelope for it\<close>

definition ship_slots :: "bytes list" where
  "ship_slots = [toy_slot 0 KIND_PASSKEY (kek_from_prf toy [8]) (replicate 32 1),
     toy_slot 1 KIND_RECOVERY (toy_hash ([82] @ replicate 16 5)) (replicate 32 1), toy_slot 2 KIND_DEVICE (kek_from_prf toy [3]) (replicate 32 1)]"

definition ship_env :: "u64 \<Rightarrow> Envelope.env" where
  "ship_env g = \<lparr>e_reserved = [0, 0], e_salt = replicate 16 5, e_gen = g, e_slots = ship_slots\<rparr>"

abbreviation (input) shipped_envelope :: "u64 \<Rightarrow> bytes" where
  "shipped_envelope g \<equiv> env_blob mem_env (ship_env g) (replicate 32 1)"

lemma open_slot_ship: "length dk = DEK_LEN \<Longrightarrow> open_slot mem_env k (toy_slot i kd kek dk) = (if sum_list k = sum_list kek then Some dk else None)"
  by (simp add: open_slot_def toy_slot_def env_sizes slice_def toy_tag_def)

lemma ship_keks:
  "sum_list (kek_from_prf toy [8]) \<noteq> sum_list (toy_hash ([82] @ replicate 16 5))"
  "sum_list (kek_from_prf toy [3]) \<noteq> sum_list (toy_hash ([82] @ replicate 16 5))"
  by (simp_all add: kek_from_prf_def toy_hash_def KEK_INFO_def ascii_def sum_list_replicate)

lemma ship_env_ok: "env_ok (ship_env g)" "length (e_slots (ship_env g)) < 256" "length (e_slots (ship_env g)) = 3"
  by (simp_all add: env_ok_def ship_env_def ship_slots_def toy_slot_def env_sizes)

lemma ship_opens: "open_with_prf mem_env (shipped_envelope g) [8] = Inr (replicate 32 1)"
  unfolding open_with_prf_def using ship_env_ok(1,2)
  by (rule open_with_kek_blob [where before = "[]"]) (simp_all add: ship_env_def ship_slots_def open_slot_ship DEK_LEN_def kek_from_prf_def)

lemma ship_code: "kek_from_recovery mem_env [82] (replicate 16 5) = Inr (toy_hash ([82] @ replicate 16 5))"
  using remove_ws_none [of "[82]"] by (simp add: kek_from_recovery_def recovery_argon2_def ws1_def ascii_upper_def)

lemma ship_recovers: "open_with_recovery mem_env (shipped_envelope g) [82] = Inr (replicate 32 1)"
proof -
  have "kek_from_recovery mem_env [82] (e_salt (ship_env g)) = Inr (toy_hash ([82] @ replicate 16 5))" by (simp add: ship_env_def ship_code)
  note o = open_with_recovery_blob [OF ship_env_ok(1,2) _ this, of "replicate 32 1"]
  have "open_with_kek mem_env (shipped_envelope g) (toy_hash ([82] @ replicate 16 5)) = Inr (replicate 32 1)"
    using ship_env_ok(1,2) ship_keks
    by (intro open_with_kek_blob [where before = "[toy_slot 0 KIND_PASSKEY (kek_from_prf toy [8]) (replicate 32 1)]"])
      (simp_all add: ship_env_def ship_slots_def open_slot_ship DEK_LEN_def)
  then show ?thesis using o by simp
qed

lemma ship_recovery_only: "recovery_slots_only mem_env (shipped_envelope g) [82]"
proof -
  have p: "env_parse (shipped_envelope g) = Inr 3" using env_blob_parse [OF ship_env_ok(1,2), where P = mem_env and dek = "replicate 32 1"] ship_env_ok(3) by simp
  have s: "slice SALT_OFF SALT_LEN (shipped_envelope g) = replicate 16 5"
    unfolding env_blob_body using salt_of_body [OF ship_env_ok(1)] by (simp add: ship_env_def)
  have b: "blob_slots (shipped_envelope g) 3 = ship_slots"
    using env_blob_fields(4) [OF ship_env_ok(1,2), where P = mem_env and dek = "replicate 32 1"] ship_env_ok(3) by (simp add: ship_env_def)
  show ?thesis using ship_keks unfolding recovery_slots_only_def p s ship_code
    by (auto simp: b) (auto simp: ship_slots_def open_slot_ship DEK_LEN_def)
qed

lemma ship_generation: "envelope_generation (shipped_envelope g) = g" "env_parse (shipped_envelope g) = Inr 3"
  using env_blob_fields(1) [OF ship_env_ok(1,2), where P = mem_env and dek = "replicate 32 1"] env_blob_parse [OF ship_env_ok(1,2), where P = mem_env and dek = "replicate 32 1"] ship_env_ok(3)
  by (simp_all add: ship_env_def)

lemma ship_strip:
  obtains env' where "strip_kind mem_env (shipped_envelope g) (replicate 32 1) KIND_DEVICE = Inr env'" and "length env' \<le> 1000"
proof -
  let ?e = "ship_env g" and ?e' = "(ship_env g)\<lparr>e_slots := filter (\<lambda>s. slot_kind s \<noteq> KIND_DEVICE) ship_slots\<rparr>"
  have "strip_kind mem_env (shipped_envelope g) (replicate 32 1) KIND_DEVICE = Inr (env_blob mem_env ?e' (replicate 32 1))"
    unfolding env_blob_body [of mem_env ?e] using strip_kind_body [OF ship_env_ok(1) [of g] ship_env_ok(2), where m = "compute_mac mem_env (env_body ?e) (replicate 32 1)" and P = mem_env and dek = "replicate 32 1" and k = KIND_DEVICE]
    by (simp add: length_compute_mac Let_def) (simp add: ship_env_def ship_slots_def KIND_PASSKEY_def KIND_RECOVERY_def KIND_DEVICE_def)
  moreover have "env_ok ?e'" using ship_env_ok(1) [of g] by (auto simp: env_ok_def ship_env_def list_all_iff)
  then have "length (env_blob mem_env ?e' (replicate 32 1)) \<le> 1000"
    using length_filter_le [of "\<lambda>s. slot_kind s \<noteq> KIND_DEVICE" ship_slots]
    by (simp add: env_blob_body length_compute_mac body_len_def env_sizes ship_slots_def del: length_filter_le)
  ultimately show ?thesis using that by blast
qed

section \<open>Its export\<close>

definition shipped :: "bytes pool \<Rightarrow> bool" where
  "shipped p \<longleftrightarrow> pool_inv mem_env (\<lambda>h. h) p \<and> exportable mem_env (\<lambda>h. h) p a_db new_uuid [first_block] (first_payload mem_env a_db new_uuid)
     \<and> db_files p = [a_db] \<and> (\<forall>n b. stored (\<lambda>h. h) p n = Some b \<longrightarrow> length b \<le> 8336) \<and> dek p = replicate 32 1
     \<and> length (device_id p) = 16 \<and> p_rng p = [Some (replicate 24 1)]"

lemma shippedD:
  assumes "shipped p"
  shows "pool_inv mem_env (\<lambda>h. h) p" and "exportable mem_env (\<lambda>h. h) p a_db new_uuid [first_block] (first_payload mem_env a_db new_uuid)"
    and "db_files p = [a_db]" and "\<forall>n b. stored (\<lambda>h. h) p n = Some b \<longrightarrow> length b < 2 ^ 31" and "dek p = replicate 32 1"
    and "length (device_id p) = 16" and "p_rng p = [Some (replicate 24 1)]"
    and "\<forall>n \<in> set (db_files p). \<exists>u bs m. exportable mem_env (\<lambda>h. h) p n u bs m"
  using assms unfolding shipped_def by (simp_all, fastforce, blast)

lemma shipped_files:
  assumes "shipped p"
  obtains ct man where "db_bundle (\<lambda>h. h) p = [(a_db, ct), (manifest_name a_db, man)]" and "length ct \<le> 8336" and "length man \<le> 8336"
    and "collect_files mem_env p [a_db] = Inr (db_bundle (\<lambda>h. h) p)"
proof -
  note p = shippedD [OF assms]
  obtain ct where ct: "stored (\<lambda>h. h) p a_db = Some ct" using exported_blocks [OF p(1)] p(2) unfolding exportable_def by blast
  obtain man where man: "stored (\<lambda>h. h) p (manifest_name a_db) = Some man" using exported_manifest p(2) unfolding exportable_def by blast
  have "db_bundle (\<lambda>h. h) p = [(a_db, ct), (manifest_name a_db, man)]" using ct man p(3) by (simp add: db_bundle_def stored_entry_def)
  moreover have "length ct \<le> 8336" "length man \<le> 8336" using assms ct man unfolding shipped_def by blast+
  moreover have "collect_files mem_env p [a_db] = Inr (db_bundle (\<lambda>h. h) p)"
    using collect_files_stored [OF p(1), of "[a_db]"] exportable_name(1) [OF p(2)] p(3) by (simp add: db_bundle_def)
  ultimately show ?thesis using that by blast
qed

lemma shipped_export:
  obtains p b p' bd where "shipped p" and "export_pool mem_env [7] (shipped_envelope g) p = (Inr b, p')" and "length b < 2 ^ 32"
    and "bundle_decode b = Inr bd"
proof -
  obtain p where sp: "shipped p"
    by (rule shipped_pool) (simp add: shipped_def new_pool_def anchor_pool_def mem_pool_def)
  note p = shippedD [OF sp]
  let ?m = "first_payload mem_env a_db new_uuid"
  obtain env' where e: "strip_kind mem_env (shipped_envelope g) (dek p) KIND_DEVICE = Inr env'" "length env' \<le> 1000"
    using ship_strip [of g] p(5) by metis
  obtain mf where mf: "lookup_file p (manifest_name a_db) = Some mf"
      "read_manifest mem_env (dek p) (manifest_name a_db) (dev_of p mf) = Inr (new_uuid, db_key mem_env (dek p) new_uuid, ?m)"
    using manifest_reads [OF mem_env_ok, of p a_db new_uuid ?m] p(2) unfolding exportable_def by metis
  have k: "key_ok (mem_env, epoch_key mem_env (dek p))" by (simp add: key_ok_def len_simps)
  let ?pl = "new_uuid @ u64_le (db_generation ?m) @ u64_le (envelope_generation env') @ device_id p"
  have "draw_nonzero NONCE_LEN (p_rng p) = (Some (replicate 24 1), [])" using p(7) by (simp add: NONCE_LEN_def)
  moreover have "length ?pl = 48" using p(6) by simp
  ultimately obtain token where t: "seal_bytes mem_env (epoch_key mem_env (dek p)) EPOCH_AAD ?pl (p_rng p) = (Inr token, [])" and lt: "length token \<le> 1000"
    using bytes_box.seal_draw [OF k, of ?pl "p_rng p" "replicate 24 1" "[]" EPOCH_AAD] by (auto simp: NONCE_LEN_def TAG_LEN_def)
  have ex: "export_epoch mem_env a_db (envelope_generation env') p = (Inr token, p\<lparr>p_rng := []\<rparr>)"
    unfolding export_epoch_def mf option.case sum.case prod.case seal_pool_def t by simp
  obtain ct man where fs: "db_bundle (\<lambda>h. h) p = [(a_db, ct), (manifest_name a_db, man)]" "length ct \<le> 8336" "length man \<le> 8336"
      "collect_files mem_env p [a_db] = Inr (db_bundle (\<lambda>h. h) p)"
    using shipped_files [OF sp] by metis
  let ?b = "bundle_encode env' [7] (db_bundle (\<lambda>h. h) p) token"
  have "export_pool mem_env [7] (shipped_envelope g) p = (Inr ?b, p\<lparr>p_rng := []\<rparr>)"
    using fs(1,4) e(1) ex p(3) by (simp add: export_pool_def Let_def strip_export_envelope_def lift_pool_def )
  moreover have l: "length ?b < 2 ^ 32"
    using fs(2,3) e(2) lt by (simp add: fs(1) bundle_encode_def blob_section_def file_section_def manifest_name_def ascii_def BUNDLE_MAGIC_def)
  ultimately show ?thesis using that sp db_bundle_decodes [OF p(8) l] by blast
qed

theorem exported_bundle_recovers_witness:
  "\<exists>p b p'. export_pool mem_env [7] (shipped_envelope 7) p = (Inr b, p') \<and> recover mem_env b [82] = Inr [(a_db, first_block)]"
proof -
  obtain p b p' where p: "shipped p" "export_pool mem_env [7] (shipped_envelope 7) p = (Inr b, p')" "length b < 2 ^ 32"
    by (rule shipped_export)
  note d = shippedD [OF p(1)]
  have "\<forall>n \<in> set (db_files p). \<exists>m. exportable mem_env (\<lambda>h. h) p n new_uuid [first_block] m" using d(2,3) by auto
  from exported_bundle_recovers [OF d(1) _ p(2,3) this] ship_recovers [of 7] ship_recovery_only [of 7]
  have "recover mem_env b [82] = Inr [(a_db, first_block)]" using d(3,5) by simp
  then show ?thesis using p(2) by blast
qed

text \<open>A directory with an anchor file and room for the first handles.\<close>

definition ship_dir :: "bytes directory" where
  "ship_dir = \<lparr>dir_anchor = Some [], dir_entries = [], dir_fresh = map (\<lambda>i. ([i], Some [])) [1, 2, 3, 4, 5, 6],
     dir_rng = [Some (replicate 32 1), Some (replicate 32 2), Some (replicate 32 3), Some (replicate 16 4)], dir_registers = True\<rparr>"

lemma ship_install:
  obtains q where "install mem_env clear dk ship_dir None = Inr q" and "pool_inv mem_env (\<lambda>h. h) q" and "open_files q = []"
    and "length (available q) = 6" and "dek q = dk" and "\<not> has_filename q n"
proof -
  have "rng_selftest (dir_rng ship_dir) = (True, [Some (replicate 16 4)])"
    by (simp add: rng_selftest_def selftest_draw_def ship_dir_def)
  moreover have "\<forall>e \<in> set (dir_fresh ship_dir). snd e \<noteq> None" "INITIAL_CAPACITY \<le> length (dir_fresh ship_dir)"
    by (simp_all add: ship_dir_def INITIAL_CAPACITY_def)
  ultimately obtain q where q: "pool_new mem_env dk clear INITIAL_CAPACITY (Some []) [] (dir_fresh ship_dir) (dir_rng ship_dir) = Inr q"
      "pool_inv mem_env (\<lambda>h. h) q" "stored (\<lambda>h. h) q = Map.empty" "length (available q) = INITIAL_CAPACITY" "dek q = dk" "open_files q = []"
    using pool_new_effect [OF mem_env_ok mem_env_flags] by metis
  have "install mem_env clear dk ship_dir None = Inr q" using q(1) by (simp add: install_def ship_dir_def)
  moreover have "\<not> has_filename q n" using fun_cong [OF q(3), of n] by (simp add: has_filename_def stored_def)
  ultimately show ?thesis using that q by (simp add: INITIAL_CAPACITY_def)
qed

theorem export_import_carries_witness:
  "\<exists>p b p' env epoch q'. export_pool mem_env [7] (shipped_envelope 7) p = (Inr b, p') \<and> import_bundle mem_env b ship_dir = Inr ((env, [7], epoch), q')
     \<and> slot_infos env = [\<lparr>kek_id = 0, kind = KIND_PASSKEY\<rparr>, \<lparr>kek_id = 1, kind = KIND_RECOVERY\<rparr>] \<and> envelope_generation env = 7"
proof -
  obtain p b p' where p: "shipped p" "export_pool mem_env [7] (shipped_envelope 7) p = (Inr b, p')" "length b < 2 ^ 32"
    by (rule shipped_export)
  note d = shippedD [OF p(1)]
  obtain q where q: "install mem_env True DUMMY_DEK ship_dir None = Inr q" "pool_inv mem_env (\<lambda>h. h) q" "open_files q = []" "length (available q) = 6"
    by (rule ship_install)
  obtain env epoch q' where "import_bundle mem_env b ship_dir = Inr ((env, [7], epoch), q')"
      "slot_infos env = filter (\<lambda>s. kind s \<noteq> KIND_DEVICE) (slot_infos (shipped_envelope 7))"
      "envelope_generation env = envelope_generation (shipped_envelope 7)"
    using export_import_carries [OF d(1) _ d(8,4) p(2,3) q(1-3)] d(3) q(4) by auto
  moreover have "slot_infos (shipped_envelope 7) = [\<lparr>kek_id = 0, kind = KIND_PASSKEY\<rparr>, \<lparr>kek_id = 1, kind = KIND_RECOVERY\<rparr>, \<lparr>kek_id = 2, kind = KIND_DEVICE\<rparr>]"
    using env_blob_fields(2) [OF ship_env_ok(1,2), where P = mem_env and dek = "replicate 32 1"] by (simp add: ship_env_def ship_slots_def)
  ultimately show ?thesis using p(2) ship_generation(1) [of 7]
    by (intro exI conjI) (auto simp: KIND_PASSKEY_def KIND_RECOVERY_def KIND_DEVICE_def)
qed

theorem stale_envelope_refused_witness:
  "\<exists>token s. \<not> session_active s
     \<and> fst (session_open mem_env (\<lambda>_ p. p) [8] (shipped_envelope 6) token ship_dir s) = Inl (EnvelopeRollback 6 7)"
proof -
  obtain p b p' bd where p: "shipped p" "export_pool mem_env [7] (shipped_envelope 7) p = (Inr b, p')" "length b < 2 ^ 32" "bundle_decode b = Inr bd"
    by (rule shipped_export)
  note d = shippedD [OF p(1)]
  let ?q = "new_pool\<lparr>p_rng := replicate 2 (Some (replicate 24 9))\<rparr>" and ?s = "\<lparr>session = None, registered = Some (new_pool\<lparr>p_rng := replicate 2 (Some (replicate 24 9))\<rparr>)\<rparr>"
  have i: "session ?s = None" "install mem_env False (replicate 32 1) ship_dir (registered ?s) = Inr ?q" by (simp_all add: install_def)
  have rec: "recover_rotation mem_env ?q = (Inr NothingStaged, ?q)"
    by (simp add: recover_rotation_def has_filename_def lookup_file_def new_pool_def ROT_INTENT_NAME_def ascii_def anchor_pool_def mem_pool_def)
  have r: "rng_good 2 (p_rng ?q)" using rng_good_replicate [of "replicate 24 9" 2 2] by (simp add: NONCE_LEN_def)
  have "anchor_inv mem_env (\<lambda>h. h) ?q = anchor_inv mem_env (\<lambda>h. h) new_pool" by (rule anchor_rest_frame(2); simp)
  then have ai: "anchor_inv mem_env (\<lambda>h. h) ?q" using new_pool_ok(2) by blast
  have "anchor_load mem_env ?q = anchor_load mem_env new_pool" by (rule anchor_rest_frame(1); simp)
  then have al: "anchor_load mem_env ?q = (0, [])" unfolding new_pool_ok(3) .
  have dk: "dek ?q = dek p" using d(5) by (simp add: new_pool_def anchor_pool_def mem_pool_def)
  have "fst (session_open mem_env (\<lambda>_ p. p) [8] (shipped_envelope 6) (b_epoch bd) ship_dir ?s) = Inl (EnvelopeRollback 6 7)"
    using stale_envelope_refused [OF d(1) _ _ d(6,8) p(2-4) i rec ai dk r _ _ ship_opens [of 6], of "\<lambda>_ p. p"]
    by (simp add: ship_generation al ANCHOR_CAP_def ANCHOR_ENTRY_SIZE_def BLOCK_SIZE_def)
  then show ?thesis by (intro exI [of _ "b_epoch bd"] exI [of _ ?s]) (simp add: session_active_def)
qed

theorem failed_unlock_keeps_pool_witness:
  "\<exists>q s1. fst (session_begin mem_env (\<lambda>_ p. p) (replicate 32 5) [] [1] ship_dir \<lparr>session = None, registered = None\<rparr>) = Inl (Pool EpochAuth)
     \<and> session_begin mem_env (\<lambda>_ p. p) (replicate 32 6) [] [] ship_dir s1 = (Inr (), s1\<lparr>session := Some (q, []), registered := None\<rparr>) \<and> dek q = replicate 32 5"
proof -
  let ?s = "\<lparr>session = None, registered = None\<rparr> :: bytes sessions"
  have "open_bytes mem_env k EPOCH_AAD [1] \<noteq> Inr p" for k p by (simp add: open_bytes_def NONCE_LEN_def)
  obtain q where q: "install mem_env False (replicate 32 5) ship_dir None = Inr q" "dek q = replicate 32 5" "\<not> has_filename q ROT_INTENT_NAME"
    by (rule ship_install)
  then show ?thesis using failed_unlock_keeps_pool [of ?s mem_env "replicate 32 5" ship_dir q "[1]" "\<lambda>_ p. p" "[]"] q
    by (simp add: open_bytes_def NONCE_LEN_def) (metis fst_conv)
qed

theorem sync_carries_image_witness:
  "\<exists>sa sb sealed r' img s'. session_sync_seal_inner mem_env (replicate 16 1) sync_vv_empty [Some (replicate 24 1)] sa = (Inr sealed, r')
     \<and> session_sync_open_parts mem_env sealed sb = Inr (replicate 16 1, sync_vv_empty, img)
     \<and> session_sync_apply_inner mem_env (\<lambda>_ p. p) img sb = (Inr (), s')"
proof -
  obtain p b p' where sp: "shipped p" by (rule shipped_export)
  note d = shippedD [OF sp]
  obtain q where q: "install mem_env True (dek p) ship_dir None = Inr q" "pool_inv mem_env (\<lambda>h. h) q" "length (available q) = 6" "dek q = dek p"
    by (rule ship_install)
  obtain ct man where fs: "db_bundle (\<lambda>h. h) p = [(a_db, ct), (manifest_name a_db, man)]" "length ct \<le> 8336" "length man \<le> 8336"
      "collect_files mem_env p [a_db] = Inr (db_bundle (\<lambda>h. h) p)"
    using shipped_files [OF sp] by metis
  let ?img = "bundle_encode [] [] (db_bundle (\<lambda>h. h) p) []"
  have img: "session_image mem_env p = Inr ?img" using fs(1,4) d(3) by (simp add: session_image_def)
  have wf: "vv_wf vv_new" by (simp add: vv_wf_def vv_typed_def vv_new_def bt_inv_def)
  have "vv_decode (vv_encode vv_new) 0 = Inr (vv_new, 0 + length (vv_encode vv_new))"
    by (rule view_vv_decode(1) [OF wf, where rest = "[]"]) (use length_vv_encode [OF wf] in \<open>simp add: view_def USIZE_MAX_32_def vv_new_def\<close>)
  then have vv: "decode_vv sync_vv_empty = Inr vv_new" "length sync_vv_empty = 4"
    by (simp_all add: sync_vv_empty_def decode_vv_def length_vv_encode [OF wf]) (simp add: vv_new_def)
  have l: "length sync_vv_empty + length ?img + 20 < 2 ^ 32"
    using fs(2,3) vv(2) by (simp add: fs(1) bundle_encode_def blob_section_def file_section_def manifest_name_def ascii_def BUNDLE_MAGIC_def)
  let ?sa = "\<lparr>session = Some (p, []), registered = None\<rparr>" and ?sb = "\<lparr>session = Some (q, []), registered = None\<rparr>"
  obtain sealed r' where s: "session_sync_seal_inner mem_env (replicate 16 1) sync_vv_empty [Some (replicate 24 1)] ?sa = (Inr sealed, r')"
    using vv(1) img by (simp add: session_sync_seal_inner_def slice16_def blob_seal_def seal_bytes_def NONCE_LEN_def)
  have len: "\<forall>i. session_image mem_env p = Inr i \<longrightarrow> length sync_vv_empty + length i + 20 < 2 ^ 32" using img l by simp
  have cl: "close_ok mem_env (\<lambda>h. h) (\<lambda>_ p. p)" by (simp add: close_ok_def)
  have ses: "session ?sa = Some (p, [])" "session ?sb = Some (q, [])" and room: "2 * length (db_files p) \<le> length (available q)"
    using d(3) q(3) by simp_all
  from sync_carries_image [OF ses(1) d(1) ses(2) q(2,4) mem_env_laws(1,2) d(8,4) room len cl s] s show ?thesis by blast
qed

section \<open>Device certificates\<close>

text \<open>The seed behind the trust key: the blob kept of it gives it back to any pool with the data key.\<close>

lemma trust_seed_kept:
  assumes "aead_ok E" and "hash_ok E" and "trust_seed E sealed p = (Inr (seed, blob), p')"
  shows "length seed = 32" and "blob \<noteq> []" and "sealed \<noteq> [] \<longrightarrow> blob = sealed"
    and "dek q = dek p \<Longrightarrow> trust_seed E blob q = (Inr (seed, blob), q)"
proof -
  let ?k = "trust_seal_key E (dek p)"
  have k: "key_ok (E, ?k)" using assms(1,2) by (simp add: key_ok_def len_simps)
  have "length seed = 32 \<and> blob \<noteq> [] \<and> (sealed \<noteq> [] \<longrightarrow> blob = sealed) \<and> open_bytes E ?k TRUST_SEED_AAD blob = Inr seed"
  proof (cases "sealed = []")
    case True
    then obtain rng r where d: "random_trust_seed (p_rng p) = (Some seed, rng)" "seal_bytes E ?k TRUST_SEED_AAD seed rng = (Inr blob, r)"
      using assms(3) by (auto simp: trust_seed_def Let_def seal_pool_def st_then_Inr_iff split: option.splits prod.splits)
    have l: "length seed = 32" using d(1) getrandom_length
      by (fastforce simp: random_trust_seed_def draw_nonzero_def split: prod.splits option.splits if_splits)
    note s = bytes_box.seal_Inr [OF k, of seed TRUST_SEED_AAD rng blob r]
    show ?thesis using s(1,2) l d(2) True by (auto simp: NONCE_LEN_def TAG_LEN_def)
  qed (use assms(3) in \<open>auto simp: trust_seed_def Let_def try_then_Inr_iff open_bytes_def split: if_splits\<close>)
  then show "length seed = 32" and "blob \<noteq> []" and "sealed \<noteq> [] \<longrightarrow> blob = sealed"
    and "dek q = dek p \<Longrightarrow> trust_seed E blob q = (Inr (seed, blob), q)"
    by (simp_all add: trust_seed_def)
qed

text \<open>What the page takes out of a packed certificate.\<close>

definition unpack_cert :: "bytes \<Rightarrow> str \<times> bytes \<times> bytes \<times> bytes" where
  "unpack_cert out = (let n = le_nat (take 4 out) in (slice 4 n out, slice (4 + n) 64 out, slice (68 + n) 32 out, drop (100 + n) out))"

lemma unpack_pack: "length claim < 2 ^ 32 \<Longrightarrow> length sig = 64 \<Longrightarrow> length tpk = 32 \<Longrightarrow>
    unpack_cert (pack_cert ((claim, sig), tpk, blob)) = (claim, sig, tpk, blob)"
  by (simp add: unpack_cert_def pack_cert_def slice_def Let_def)

lemma cap_list_utf8: "utf8_valid caps \<Longrightarrow> utf8_valid (canonicalize_caps (cap_list caps))"
proof -
  assume u: "utf8_valid caps"
  have "utf8_valid w" if "w \<in> set (split_on NEWLINE caps)" for w by (rule utf8_split [OF u _ that]) (simp add: NEWLINE_def)
  then show ?thesis unfolding canonicalize_caps_def
    by (intro utf8_join) (auto simp: cap_list_def NEWLINE_def utf8_trim)
qed

text \<open>A certificate that is issued: its seed, and what it is packed from.\<close>

lemma issued_parts:
  assumes "session s = Some (p, hs)" and "session_issue_device_cert E dpk caps sealed iat ex s = (Inr (Some out), s')"
  obtains seed blob p1 claim sig where "trust_seed E sealed p = (Inr (seed, blob), p1)" and "length dpk = 32" and "utf8_valid caps"
    and "issue_device_cert E seed dpk (cap_list caps) iat ex = Some (claim, sig)"
    and "out = pack_cert ((claim, sig), vault_trust_public_key E seed, blob)"
proof -
  obtain r p1 where t: "trust_seed E sealed p = (r, p1)" by fastforce
  show ?thesis
  proof (cases r)
    case (Inl e)
    then show ?thesis using assms t by (simp add: session_issue_device_cert_def with_pool_def lift_pool_def pool_issue_device_cert_def split: if_splits)
  next
    case (Inr sb)
    then show ?thesis using assms t that [of "fst sb" "snd sb" p1]
      by (auto simp: session_issue_device_cert_def with_pool_def lift_pool_def pool_issue_device_cert_def split: if_splits prod.splits)
  qed
qed

lemma issued_unpacks:
  assumes prims: "ed_ok E" "aead_ok E" "hash_ok E" and s: "session s = Some (p, hs)"
    and issue: "session_issue_device_cert E dpk caps sealed iat ex s = (Inr (Some out), s')"
    and out: "unpack_cert out = (claim, sig, tpk, blob)" and ts: "trust_seed E sealed p = (Inr (seed, kept), p1)"
  shows "tpk = vault_trust_public_key E seed" and "blob = kept" and "length tpk = 32" and "length dpk = 32" and "length sig = 64"
    and "issue_device_cert E seed dpk (cap_list caps) iat ex = Some (claim, sig)" and "utf8_valid caps"
proof -
  obtain cl sg where i: "issue_device_cert E seed dpk (cap_list caps) iat ex = Some (cl, sg)" "length dpk = 32" "utf8_valid caps"
      "out = pack_cert ((cl, sg), vault_trust_public_key E seed, kept)"
    using issued_parts [OF s issue] ts by (metis Pair_inject sum.inject(2))
  have l: "length seed = 32" by (rule trust_seed_kept(1) [OF prims(2,3) ts])
  have sg: "length sg = 64" "length cl < 2 ^ 32" using i(1) prims(1) l
    by (auto simp: issue_device_cert_def Let_def attest_with_seed_def attest_message_def fits_u16_def ed_ok_def split: option.splits if_splits)
  have t: "length (vault_trust_public_key E seed) = 32" using prims(1) l by (simp add: vault_trust_public_key_def ed_ok_def)
  have "unpack_cert out = (cl, sg, vault_trust_public_key E seed, kept)" using unpack_pack [OF sg(2,1) t] i(4) by simp
  then show "tpk = vault_trust_public_key E seed" and "blob = kept" and "length tpk = 32" and "length dpk = 32" and "length sig = 64"
    and "issue_device_cert E seed dpk (cap_list caps) iat ex = Some (claim, sig)" and "utf8_valid caps"
    using out i sg t by simp_all
qed

text \<open>
  C14: A certificate issued in a session admits its device, and the trust key lasts. What the page unpacks
  from the blob verifies for the device key it was issued to, from the issue time to the expiry and
  at no other time; and every later session with the same data key that is given the sealed seed of
  the blob issues under the same trust key, whatever the device and its scopes, so that a verifier
  pins one key.
\<close>

theorem issued_cert_admits:
  assumes prims: "ed_ok E" "aead_ok E" "hash_ok E" and s: "session s = Some (p, hs)"
    and issue: "session_issue_device_cert E dpk caps sealed iat ex s = (Inr (Some out), s')"
    and out: "unpack_cert out = (claim, sig, tpk, blob)"
  shows "session_verify_device_cert E tpk claim dpk sig now = Some (iat \<le> now \<and> now \<le> ex)
    \<and> (\<forall>s2 p2 hs2 dpk2 caps2 iat2 ex2 out2 s2' claim2 sig2 tpk2 blob2. session s2 = Some (p2, hs2) \<longrightarrow> dek p2 = dek p \<longrightarrow>
         session_issue_device_cert E dpk2 caps2 blob iat2 ex2 s2 = (Inr (Some out2), s2') \<longrightarrow>
         unpack_cert out2 = (claim2, sig2, tpk2, blob2) \<longrightarrow> tpk2 = tpk \<and> blob2 = blob)"
proof -
  obtain seed kept p1 where ts: "trust_seed E sealed p = (Inr (seed, kept), p1)" using issued_parts [OF s issue] by metis
  note k = trust_seed_kept [OF prims(2,3) ts] and a = issued_unpacks [OF prims s issue out ts]
  have "\<forall>w \<in> set (cap_list caps). NEWLINE \<notin> set w" using split_on_no_sep [of _ NEWLINE caps] by (auto simp: cap_list_def)
  then have "verify_device_cert E tpk claim dpk sig now = Some (iat \<le> now \<and> now \<le> ex)"
    using issue_then_verify [OF prims(1,3) k(1) a(4) _ cap_list_utf8 [OF a(7)] a(6)] a(1) by blast
  then have "session_verify_device_cert E tpk claim dpk sig now = Some (iat \<le> now \<and> now \<le> ex)"
    using a(3-5) by (simp add: session_verify_device_cert_def)
  moreover have "tpk2 = tpk \<and> blob2 = blob" if "session s2 = Some (p2, hs2)" "dek p2 = dek p"
    "session_issue_device_cert E dpk2 caps2 blob iat2 ex2 s2 = (Inr (Some out2), s2')" "unpack_cert out2 = (claim2, sig2, tpk2, blob2)"
    for s2 p2 hs2 dpk2 caps2 iat2 ex2 out2 s2' claim2 sig2 tpk2 blob2
  proof -
    have "trust_seed E blob p2 = (Inr (seed, kept), p2)" using k(4) [OF that(2)] a(2) by simp
    from issued_unpacks(1,2) [OF prims that(1,3,4) this] show ?thesis using a(1,2) by simp
  qed
  ultimately show ?thesis by blast
qed

lemma issue_succeeds:
  assumes "ed_ok P" and "hash_ok P" and "length seed = 32" and "length dpk = 32" and "length (canonicalize_caps caps) \<le> 1000"
  shows "\<exists>claim sig. issue_device_cert P seed dpk caps iat ex = Some (claim, sig)"
  using assms(3-5) device_id_shape(1) [OF assms(2), of dpk] assms(1)
  by (simp add: issue_device_cert_def build_device_cert_claim_def canonical_claim_bytes_eq claim_fields_def fits_u16_def
      vault_trust_public_key_def attest_with_seed_def attest_message_def claim_bytes_def length_base64url field16_def CERT_DOMAIN_def Let_def ed_ok_def)

lemma session_issue_succeeds:
  assumes "ed_ok E" and "hash_ok E" and "session s = Some (p, hs)" and "length dpk = 32" and "utf8_valid caps"
    and "trust_seed E sealed p = (Inr (seed, blob), p1)" and "length seed = 32" and "length (canonicalize_caps (cap_list caps)) \<le> 1000"
  shows "\<exists>out. session_issue_device_cert E dpk caps sealed iat ex s = (Inr (Some out), s\<lparr>session := Some (p1, hs)\<rparr>)"
  using issue_succeeds [OF assms(1,2,7,4,8), of iat ex] assms(3-6)
  by (auto simp: session_issue_device_cert_def with_pool_def lift_pool_def pool_issue_device_cert_def)

theorem issued_cert_admits_witness:
  "\<exists>s out s' claim sig tpk blob out2 s2' claim2 sig2 blob2.
     session_issue_device_cert mem_env (replicate 32 2) (ascii ''sync'') [] 5 9 s = (Inr (Some out), s')
     \<and> unpack_cert out = (claim, sig, tpk, blob) \<and> session_verify_device_cert mem_env tpk claim (replicate 32 2) sig 7 = Some True
     \<and> session_issue_device_cert mem_env (replicate 32 3) (ascii ''read'') blob 8 20 s' = (Inr (Some out2), s2')
     \<and> unpack_cert out2 = (claim2, sig2, tpk, blob2)"
proof -
  let ?p = "new_pool\<lparr>p_rng := [Some (replicate 32 6), Some (replicate 24 9)]\<rparr>"
  let ?s = "\<lparr>session = Some (?p, []), registered = None\<rparr>" and ?s' = "\<lparr>session = Some (?p\<lparr>p_rng := []\<rparr>, []), registered = None\<rparr>"
  have k: "key_ok (mem_env, trust_seal_key mem_env (dek ?p))" by (simp add: key_ok_def len_simps)
  obtain blob0 where sl: "seal_bytes mem_env (trust_seal_key mem_env (dek ?p)) TRUST_SEED_AAD (replicate 32 6) [Some (replicate 24 9)] = (Inr blob0, [])"
    using bytes_box.seal_draw [OF k, of "replicate 32 6" "[Some (replicate 24 9)]" "replicate 24 9" "[]" TRUST_SEED_AAD] by (auto simp: NONCE_LEN_def)
  have ts: "trust_seed mem_env [] ?p = (Inr (replicate 32 6, blob0), ?p\<lparr>p_rng := []\<rparr>)"
    using sl by (simp add: trust_seed_def random_trust_seed_def seal_pool_def)
  have cc: "length (canonicalize_caps (cap_list (ascii ''sync''))) = 4" "length (canonicalize_caps (cap_list (ascii ''read''))) = 4" by code_simp+
  have u: "utf8_valid (ascii ''sync'')" "utf8_valid (ascii ''read'')" by (rule utf8_valid_ascii; auto)+
  obtain out where i: "session_issue_device_cert mem_env (replicate 32 2) (ascii ''sync'') [] 5 9 ?s = (Inr (Some out), ?s')"
    using session_issue_succeeds [OF _ _ _ _ u(1) ts, of ?s "[]" "replicate 32 2" 5 9] cc by auto
  obtain claim sig tpk blob where o: "unpack_cert out = (claim, sig, tpk, blob)" by (cases "unpack_cert out")
  have ses: "session ?s = Some (?p, [])" "session ?s' = Some (?p\<lparr>p_rng := []\<rparr>, [])" by simp_all
  note prims = mem_env_laws(3,1,2)
  note w = issued_cert_admits [OF prims ses(1) i o]
  have b: "blob = blob0" by (rule issued_unpacks(2) [OF prims ses(1) i o ts])
  have ts2: "trust_seed mem_env blob (?p\<lparr>p_rng := []\<rparr>) = (Inr (replicate 32 6, blob0), ?p\<lparr>p_rng := []\<rparr>)"
    unfolding b by (rule trust_seed_kept(4) [OF prims(2,3) ts]) simp
  obtain out2 where i2: "session_issue_device_cert mem_env (replicate 32 3) (ascii ''read'') blob 8 20 ?s' = (Inr (Some out2), ?s'\<lparr>session := Some (?p\<lparr>p_rng := []\<rparr>, [])\<rparr>)"
    using session_issue_succeeds [OF prims(1,3) ses(2) _ u(2) ts2, of "replicate 32 3" 8 20] cc by auto
  obtain claim2 sig2 tpk2 blob2 where o2: "unpack_cert out2 = (claim2, sig2, tpk2, blob2)" by (cases "unpack_cert out2")
  have "tpk2 = tpk" using w ses(2) i2 o2 by fastforce
  moreover have "session_verify_device_cert mem_env tpk claim (replicate 32 2) sig 7 = Some True" using issued_cert_admits [OF prims ses(1) i o, of 7] by simp
  ultimately show ?thesis using i o i2 o2 by blast
qed

section \<open>Enrolment\<close>

lemma random_dek_length: "random_dek r = (Inr dk, r') \<Longrightarrow> length dk = DEK_LEN"
  using getrandom_length
  by (fastforce simp: random_dek_def env_draw_nonzero_def draw_nonzero_def of_option_Inr_iff split: prod.splits option.splits if_splits)

text \<open>
  C13: The secret that enrolled a vault opens it. When enrolment with a passkey's output or a device
  secret succeeds, the envelope it returns lists that one method at generation 1, and the same secret
  opens a session on the vault, whose pool runs under the data key the vault was set up with; a vault
  with only a device secret cannot be exported, since the stripped envelope would be empty.
\<close>

theorem enrolled_vault_opens:
  assumes prims: "aead_ok E" "hash_ok E" and en: "enroll_kind E k secret dir r = Inr (blob, p)"
    and s: "session s = None" "registered s = None" and dir: "install E False (dek p) dir' None = Inr q" "\<not> has_filename q ROT_INTENT_NAME"
  shows "session_open E close secret blob [] dir' s = (Inr (), s\<lparr>session := Some (q, []), registered := None\<rparr>) \<and> dek q = dek p
    \<and> list_methods blob = ascii ''0:'' @ kind_name k \<and> envelope_generation blob = 1
    \<and> (\<forall>cred t. k = KIND_DEVICE \<longrightarrow> \<not> is_ok (fst (session_export_inner E cred blob t)))"
proof -
  obtain dk r1 r2 where e: "random_dek r = (Inr dk, r1)" "create_envelope_kind E dk secret k r1 = (Inr blob, r2)" "install E True dk dir None = Inr p"
    using en by (auto simp: enroll_kind_def try_then_Inr_iff split: if_splits prod.splits sum.splits)
  have dk: "dek p = dk" by (rule dek_install [OF e(3)])
  note o = create_envelope_opens [OF prims random_dek_length [OF e(1)] e(2)]
  have "session_open E close secret blob [] dir' s = (Inr (), s\<lparr>session := Some (q, []), registered := None\<rparr>)"
    using o s dir dk by (simp add: session_open_def session_begin_def session_lock_inner_def apply_peer_epoch_def recover_rotation_def)
  moreover have "dek q = dek p" by (rule dek_install [OF dir(1)])
  moreover have "list_methods blob = ascii ''0:'' @ kind_name k" using o by (simp add: list_methods_def decimal_def ascii_def)
  moreover have "\<not> is_ok (fst (session_export_inner E cred blob t))" if "k = KIND_DEVICE" for cred t
  proof -
    have "\<not> is_ok (strip_kind E blob d KIND_DEVICE)" for d
    proof (cases "env_parse blob")
      case (Inr n)
      show ?thesis using strip_kind_effect [OF prims(2) Inr, where dek = d and k = KIND_DEVICE] o that by (auto simp: is_ok_iff)
    qed (simp add: strip_kind_def is_ok_iff)
    then show ?thesis
      by (auto simp: session_export_inner_def with_pool_def export_pool_def strip_export_envelope_def Let_def is_ok_iff split: option.splits sum.splits prod.splits)
  qed
  ultimately show ?thesis using o by blast
qed

theorem enrolled_vault_opens_witness:
  "\<exists>blob p s'. enroll_inner mem_env (replicate 16 7) ship_dir [Some (replicate 32 4), Some (replicate 16 5), Some (replicate 24 9)] = Inr (blob, p)
     \<and> session_open mem_env (\<lambda>_ p. p) (replicate 16 7) blob [] ship_dir \<lparr>session = None, registered = None\<rparr> = (Inr (), s') \<and> session_active s'
     \<and> list_methods blob = ascii ''0:passkey''"
proof -
  obtain p where p: "install mem_env True (replicate 32 4) ship_dir None = Inr p" "open_files p = []" "dek p = replicate 32 4"
    by (rule ship_install)
  obtain blob r' where c: "create_envelope_kind mem_env (replicate 32 4) (replicate 16 7) KIND_PASSKEY [Some (replicate 16 5), Some (replicate 24 9)] = (Inr blob, r')"
    by (simp add: create_envelope_kind_def env_draw_def wrap_slot_def env_draw_nonzero_def NONCE_LEN_def SALT_LEN_def Let_def)
  have e: "enroll_kind mem_env KIND_PASSKEY (replicate 16 7) ship_dir [Some (replicate 32 4), Some (replicate 16 5), Some (replicate 24 9)] = Inr (blob, p)"
    using p c by (simp add: enroll_kind_def random_dek_def env_draw_nonzero_def DEK_LEN_def pause_vfs_def)
  obtain q where q: "install mem_env False (dek p) ship_dir None = Inr q" "\<not> has_filename q ROT_INTENT_NAME" by (rule ship_install)
  note w = enrolled_vault_opens [OF _ _ e _ _ q, of "\<lparr>session = None, registered = None\<rparr>" "\<lambda>_ p. p"]
  have "ascii ''0:passkey'' = ascii ''0:'' @ kind_name KIND_PASSKEY"
    by (simp add: kind_name_def KIND_PASSKEY_def KIND_RECOVERY_def KIND_DEVICE_def ascii_def)
  then show ?thesis using w e unfolding enroll_inner_def by (auto simp: session_active_def)
qed

end
