(* ===== verification/Session_Machine.thy ===== *)
theory Session_Machine
  imports Exchange
begin

text \<open>
  The session of \<open>crates/freehold/src/lib.rs\<close> as a state machine. The page drives the thread-local cell
  through the exported functions that use it; each of those is a call, and a step runs one call and
  notes the error it answers. Runs are all sequences of calls, with any arguments, any directory and any
  answers of SQLite. The exports that take no session (enrolment, import of a bundle, changes of an
  envelope under a secret of its own, the verifiers, the arithmetic of version vectors) neither read
  nor write the cell and are not calls here. The invariants of the states they reach are what the page can rely on whatever it called.
\<close>

section \<open>Calls, steps and runs\<close>

datatype ('h) session_call =
    CallOpen "'h engine_close" bytes bytes bytes "'h directory"
  | CallOpenRecovery "'h engine_close" str bytes bytes "'h directory"
  | CallLock "'h engine_close"
  | CallSql "'h engine" "str \<Rightarrow> js_value list option option" str str str
  | CallExport bytes bytes
  | CallRotate "'h engine_close" bytes bytes rng
  | CallSyncId bytes
  | CallSyncSeal bytes bytes rng
  | CallSyncOpen bytes
  | CallSyncApply "'h engine_close" bytes
  | CallPubkey
  | CallAttest str bytes u64 u64
  | CallRelaySign bytes byte bytes
  | CallIssueCert bytes bytes bytes u64 u64

definition error_of :: "'e + 'a \<Rightarrow> 'e option" where
  "error_of r = (case r of Inl e \<Rightarrow> Some e | Inr _ \<Rightarrow> None)"

lemma error_of_simps [simp]: "error_of (Inl e) = Some e" "error_of (Inr x) = None"
  by (simp_all add: error_of_def)

inductive session_step ::
  "('h, 'z) env_scheme \<Rightarrow> 'h sessions \<Rightarrow> 'h session_call \<Rightarrow> session_error option \<Rightarrow> 'h sessions \<Rightarrow> bool" for E where
  step_open: "session_open E close secret blob epoch dir s = (r, s') \<Longrightarrow> session_step E s (CallOpen close secret blob epoch dir) (error_of r) s'"
| step_open_recovery: "session_open_recovery E close code blob epoch dir s = (r, s') \<Longrightarrow>
    session_step E s (CallOpenRecovery close code blob epoch dir) (error_of r) s'"
| step_lock: "session_lock_inner close s = (r, s') \<Longrightarrow> session_step E s (CallLock close) (error_of r) s'"
| step_sql: "session_sql_inner engine parse db sql params s = (r, s') \<Longrightarrow>
    session_step E s (CallSql engine parse db sql params) (error_of r) s'"
| step_export: "session_export_inner E cred envelope s = (r, s') \<Longrightarrow> session_step E s (CallExport cred envelope) (error_of r) s'"
| step_rotate: "rotate_dek_inner E close secret envelope rng s = (r, s') \<Longrightarrow>
    session_step E s (CallRotate close secret envelope rng) (error_of r) s'"
| step_sync_id: "session_step E s (CallSyncId u) (error_of (session_sync_id_inner E u s)) s"
| step_sync_seal: "session_step E s (CallSyncSeal u vv rng) (error_of (fst (session_sync_seal_inner E u vv rng s))) s"
| step_sync_open: "session_step E s (CallSyncOpen sealed) (error_of (session_sync_open_parts E sealed s)) s"
| step_sync_apply: "session_sync_apply_inner E close img s = (r, s') \<Longrightarrow> session_step E s (CallSyncApply close img) (error_of r) s'"
| step_pubkey: "session_step E s CallPubkey (error_of (session_vault_pubkey E s)) s"
| step_attest: "session_step E s (CallAttest audience claim issued expiry) (error_of (session_attest E audience claim issued expiry s)) s"
| step_relay_sign: "session_step E s (CallRelaySign u m arg) (error_of (session_relay_sign E u m arg s)) s"
| step_issue_cert: "session_issue_device_cert E pk caps sealed issued expiry s = (r, s') \<Longrightarrow>
    session_step E s (CallIssueCert pk caps sealed issued expiry) (error_of r) s'"

inductive session_run ::
  "('h, 'z) env_scheme \<Rightarrow> 'h sessions \<Rightarrow> ('h session_call \<times> session_error option) list \<Rightarrow> 'h sessions \<Rightarrow> bool" for E where
  run_nil: "session_run E s [] s"
| run_call: "session_step E s call e s1 \<Longrightarrow> session_run E s1 tr s2 \<Longrightarrow> session_run E s ((call, e) # tr) s2"

inductive_cases session_run_callE: "session_run E s ((call, e) # tr) s2"
inductive_cases step_lockE: "session_step E s (CallLock close) e s'"

inductive_simps run_nil_iff [simp]: "session_run E s [] s'"

text \<open>The cell before the first call.\<close>

definition no_session :: "'h sessions" where
  "no_session = \<lparr>session = None, registered = None\<rparr>"

text \<open>What every run keeps if every step does.\<close>

lemma run_invariant:
  assumes "session_run E s tr s'" and "I s" and "\<And>s call e s'. session_step E s call e s' \<Longrightarrow> (call, e) \<in> set tr \<Longrightarrow> I s \<Longrightarrow> I s'"
  shows "I s'"
  using assms by (induction rule: session_run.induct) (metis list.set_intros)+

section \<open>Well-formed sessions\<close>

definition session_wf :: "'h sessions \<Rightarrow> bool" where
  "session_wf s \<longleftrightarrow> (case session s of None \<Rightarrow> True | Some (p, hs) \<Rightarrow>
     registered s = None \<and> distinct hs \<and> (\<forall>f \<in> set hs. \<exists>b. valid_db_name b \<and> f = b @ ascii ''.db''))"

lemma wf_none [simp]: "session s = None \<Longrightarrow> session_wf s"
  by (simp add: session_wf_def)

lemma wf_fresh [simp]: "session_wf (s\<lparr>session := Some (p, []), registered := None\<rparr>)"
  by (simp add: session_wf_def)

lemma wf_no_connections: "session_wf s \<Longrightarrow> session s = Some q \<Longrightarrow> session_wf (s\<lparr>session := Some (p, [])\<rparr>)"
  by (simp add: session_wf_def split: prod.splits)

lemma wf_other_pool: "session_wf s \<Longrightarrow> session s = Some (q, hs) \<Longrightarrow> session_wf (s\<lparr>session := Some (p, hs)\<rparr>)"
  by (simp add: session_wf_def)

lemma lock_ends_session: "session_lock_inner close s = (r, s') \<Longrightarrow> session s' = None"
  by (auto simp: session_lock_inner_def split: option.splits prod.splits sum.splits)

lemma st_then_const: "st_then m (\<lambda>x s. (Inr (g x), s)) = (r, s') \<Longrightarrow> snd m = s'"
  by (cases m; cases "fst m") auto

lemma begin_wf:
  assumes "session_begin E close dk envelope epoch dir s = (r, s')"
  shows "session_wf s'"
proof (cases "session_lock_inner close s")
  case (Pair l s0)
  have n: "session s0 = None" by (rule lock_ends_session [OF Pair])
  then show ?thesis using assms unfolding session_begin_def Pair leave_def
    by (cases l) (auto split: sum.splits prod.splits option.splits)
qed

lemma with_pool_wf: "session_wf s \<Longrightarrow> with_pool op s = (r, s') \<Longrightarrow> session_wf s'"
  by (auto simp: with_pool_def wf_other_pool split: option.splits prod.splits)

lemma connect_wf: "session_wf s \<Longrightarrow> session_connect eo db s = (r, s') \<Longrightarrow> session_wf s'"
  by (auto simp: session_connect_def session_wf_def Let_def split: option.splits if_splits prod.splits sum.splits)

lemma step_wf: "session_step E s call e s' \<Longrightarrow> session_wf s \<Longrightarrow> session_wf s'"
proof (induction rule: session_step.induct)
  case (step_open close secret blob epoch dir s r s')
  then show ?case using begin_wf by (auto simp: session_open_def split: sum.splits)
next
  case (step_open_recovery close code blob epoch dir s r s')
  then show ?case using begin_wf by (auto simp: session_open_recovery_def split: sum.splits)
next
  case (step_lock close s r s')
  then show ?case using lock_ends_session by (metis wf_none)
next
  case (step_sql engine parse db sql params s r s')
  show ?case
  proof (cases "valid_db_name db \<and> (\<exists>v. sql_params parse params = Inr v)")
    case True
    obtain c s1 where c: "session_connect (engine_open engine) db s = (c, s1)" by fastforce
    have "session_wf s1" by (rule connect_wf [OF step_sql.prems c])
    then show ?thesis using True step_sql.hyps c with_pool_wf
      by (cases c) (auto simp: session_sql_inner_def Let_def)
  next
    case False
    then show ?thesis using step_sql
      by (cases "sql_params parse params"; cases "valid_db_name db") (auto simp: session_sql_inner_def)
  qed
next
  case (step_export cred envelope s r s')
  then show ?case using with_pool_wf by (auto simp: session_export_inner_def)
next
  case (step_rotate close secret envelope rng s r s')
  show ?case
  proof (cases "session s' = None")
    case False
    then have "\<not> (\<exists>m y. snd (session_lock_inner close m) = s')" using lock_ends_session by (metis prod.collapse)
    then show ?thesis using step_rotate
      by (auto dest!: st_then_const simp: rotate_dek_inner_def Let_def wf_no_connections split: option.splits prod.splits sum.splits)
  qed simp
next
  case (step_sync_apply close img s r s')
  then show ?case by (auto simp: session_sync_apply_inner_def wf_no_connections split: sum.splits option.splits prod.splits)
next
  case (step_issue_cert pk caps sealed issued expiry s r s')
  then show ?case using with_pool_wf [OF _ prod.collapse [symmetric]]
    by (auto simp: session_issue_device_cert_def dest!: st_then_const split: if_splits)
qed simp_all

text \<open>
  C17: The session cell is well formed in every state the page can reach, whatever it calls and
  whatever SQLite answers: a live session owns its pool alone (no second pool stays registered beside
  it), and its connections are distinct and each named after a legal database name with the suffix,
  so no connection ever reaches a manifest, a satellite or a staged file of a rotation.
\<close>

theorem reachable_session_wf:
  assumes "session_run E no_session tr s"
  shows "session_wf s"
  by (rule run_invariant [OF assms]) (simp_all add: no_session_def step_wf)

section \<open>A locked vault\<close>

fun opens :: "'h session_call \<Rightarrow> bool" where
  "opens (CallOpen _ _ _ _ _) = True"
| "opens (CallOpenRecovery _ _ _ _ _) = True"
| "opens _ = False"

fun locks :: "'h session_call \<Rightarrow> bool" where
  "locks (CallLock _) = True"
| "locks _ = False"

text \<open>Without a session a call that does not open one fails, or locks once more, and changes nothing.\<close>

lemma locked_step:
  assumes "session s = None" and "session_step E s call e s'" and "\<not> opens call"
  shows "s' = s \<and> (e \<noteq> None \<or> locks call)"
  using assms(2,1,3)
proof (induction rule: session_step.induct)
  case (step_sql engine parse db sql params s r s')
  then show ?case
    by (cases "sql_params parse params") (auto simp: session_sql_inner_def session_connect_def split: if_splits)
next
  case (step_sync_id s u)
  then show ?case by (simp add: session_sync_id_inner_def slice16_def)
next
  case (step_sync_seal s u vv rng)
  then show ?case by (cases "slice16 u"; cases "decode_vv vv") (simp_all add: session_sync_seal_inner_def)
next
  case (step_relay_sign s u m arg)
  then show ?case by (simp add: session_relay_sign_def with_session_def slice16_def)
next
  case (step_sync_apply close img s r s')
  then show ?case by (auto simp: session_sync_apply_inner_def split: sum.splits)
qed (auto simp: session_lock_inner_def session_export_inner_def with_pool_def rotate_dek_inner_def session_sync_open_parts_def
    session_vault_pubkey_def session_attest_def with_session_def session_issue_device_cert_def split: if_splits)

lemma locked_run:
  "session_run E s tr s' \<Longrightarrow> session s = None \<Longrightarrow> \<forall>(call, e) \<in> set tr. \<not> opens call
   \<Longrightarrow> s' = s \<and> (\<forall>(call, e) \<in> set tr. e \<noteq> None \<or> locks call)"
proof (induction rule: session_run.induct)
  case (run_call s call e s1 tr s2)
  have "s1 = s \<and> (e \<noteq> None \<or> locks call)"
    by (rule locked_step [OF run_call.prems(1) run_call.hyps(1)]) (use run_call.prems(2) in simp)
  then show ?case using run_call.IH run_call.prems by auto
qed simp

text \<open>
  C16: Locking ends the session whatever SQLite or the release of the handles answers, and a locked vault
  stays locked. Of the calls that use the session, all but those that open one and the lock itself,
  that is SQL, export, rotation, the sync identifier, sealing, opening and applying a sync image, the
  public key, attestations, relay signatures and device certificates, are answered with an error until
  a session is opened again; locking once more changes nothing, and the cell stays exactly as the first
  lock left it, in any order and number of these calls. The exports that take no session, such as
  enrolment or the import of a bundle, are not among them: the lock does not stop those.
\<close>

theorem locked_vault_stays_locked:
  assumes "session_run E s ((CallLock close, e) # tr) s'" and "\<forall>(call, e) \<in> set tr. \<not> opens call"
  shows "\<not> session_active s' \<and> s' = snd (session_lock_inner close s) \<and> (\<forall>(call, e) \<in> set tr. e \<noteq> None \<or> locks call)"
proof -
  from assms(1) obtain s1 r where s1: "session_lock_inner close s = (r, s1)" "session_run E s1 tr s'"
    by (auto elim!: session_run_callE step_lockE)
  have "session s1 = None" by (rule lock_ends_session [OF s1(1)])
  with locked_run [OF s1(2) this assms(2)] s1(1) show ?thesis by (simp add: session_active_def)
qed

section \<open>Where the keys of a session come from\<close>

text \<open>The data key a call unlocks, and the calls whose engine leaves the keys of the pool alone.\<close>

fun unlocks :: "('h, 'z) env_scheme \<Rightarrow> 'h session_call \<Rightarrow> bytes \<Rightarrow> bool" where
  "unlocks E (CallOpen _ secret blob _ _) k = (open_with_prf E blob secret = Inr k)"
| "unlocks E (CallOpenRecovery _ code blob _ _) k = (open_with_recovery E blob code = Inr k)"
| "unlocks E _ k = False"

definition close_keeps_keys :: "'h engine_close \<Rightarrow> bool" where
  "close_keeps_keys close \<longleftrightarrow> (\<forall>n p. pool_keys (close n p) = pool_keys p)"

definition engine_keeps_keys :: "'h engine \<Rightarrow> bool" where
  "engine_keeps_keys engine \<longleftrightarrow> (\<forall>n p. pool_keys (snd (engine_open engine n p)) = pool_keys p)
     \<and> (\<forall>n sql p. pool_keys (snd (engine_script engine n sql p)) = pool_keys p)
     \<and> (\<forall>n sql p. pool_keys (snd (snd (engine_prepare engine n sql p))) = pool_keys p)"

fun keeps_keys :: "'h session_call \<Rightarrow> bool" where
  "keeps_keys (CallOpen close _ _ _ _) = close_keeps_keys close"
| "keeps_keys (CallOpenRecovery close _ _ _ _) = close_keeps_keys close"
| "keeps_keys (CallLock close) = close_keeps_keys close"
| "keeps_keys (CallSql engine _ _ _ _) = engine_keeps_keys engine"
| "keeps_keys (CallRotate close _ _ _) = close_keeps_keys close"
| "keeps_keys (CallSyncApply close _) = close_keeps_keys close"
| "keeps_keys _ = True"

text \<open>The keys of the pools the cell holds: the live one and one left registered.\<close>

definition held_keys :: "'h sessions \<Rightarrow> (bytes \<times> crypto \<times> crypto) set" where
  "held_keys s = pool_keys ` (fst ` set_option (session s) \<union> set_option (registered s))"

lemma keys_fold_close: "close_keeps_keys close \<Longrightarrow> pool_keys (fold close hs p) = pool_keys p"
  by (induction hs arbitrary: p) (simp_all add: close_keeps_keys_def)

lemma keys_pause_case: "pause_vfs p = (r, p') \<Longrightarrow> pool_keys p' = pool_keys p"
  by (metis keys_pause snd_conv)

lemma lock_keys: "close_keeps_keys close \<Longrightarrow> session_lock_inner close s = (r, s') \<Longrightarrow> held_keys s' \<subseteq> held_keys s"
  by (auto simp: session_lock_inner_def held_keys_def keys_fold_close dest: keys_pause_case
      split: option.splits prod.splits sum.splits)

lemma recover_keys_case: "recover_rotation E p = (r, p') \<Longrightarrow> pool_keys p' = pool_keys p"
  by (metis keys_recover_rotation snd_conv)

lemma apply_epoch_keys_case: "apply_epoch E epoch p = (r, p') \<Longrightarrow> pool_keys p' = pool_keys p"
  by (metis keys_apply_epoch snd_conv)

lemma peer_epoch_keys_case: "apply_peer_epoch E envelope epoch p = ((r, p'), v) \<Longrightarrow> pool_keys p' = pool_keys p"
  by (auto simp: apply_peer_epoch_def Let_def dest!: apply_epoch_keys_case split: if_splits prod.splits sum.splits)

lemma begin_keys:
  assumes "close_keeps_keys close" and "session_begin E close k envelope epoch dir s = (r, s')"
  shows "held_keys s' \<subseteq> insert (derived_keys E k) (held_keys s)"
proof (cases "session_lock_inner close s")
  case (Pair l s0)
  have n: "session s0 = None" and h: "held_keys s0 \<subseteq> held_keys s"
    using lock_ends_session [OF Pair] lock_keys [OF assms(1) Pair] by blast+
  show ?thesis
  proof (cases "\<exists>x p. l = Inr x \<and> install E False k dir (registered s0) = Inr p")
    case False
    then have "s' = s0" using assms(2) unfolding session_begin_def Pair by (cases l) (auto split: sum.splits)
    then show ?thesis using h by auto
  next
    case True
    then obtain x p where l: "l = Inr x" and p: "install E False k dir (registered s0) = Inr p" by blast
    have "pool_keys p \<in> insert (derived_keys E k) (held_keys s0)"
      using keys_install [OF p] by (auto simp: held_keys_def split: option.splits)
    moreover have "held_keys s' \<subseteq> insert (pool_keys p) (held_keys s0)"
      using assms(2) n unfolding session_begin_def Pair l leave_def
      by (auto simp: p held_keys_def split: sum.splits prod.splits option.splits
          dest!: recover_keys_case peer_epoch_keys_case keys_pause_case)
    ultimately show ?thesis using h by blast
  qed
qed

lemma with_pool_keys:
  assumes "\<And>p r q. op p = (r, q) \<Longrightarrow> pool_keys q = pool_keys p" and "with_pool op s = (r, s')"
  shows "held_keys s' = held_keys s"
  using assms(2) by (auto simp: with_pool_def held_keys_def split: option.splits prod.splits dest!: assms(1))

lemma connect_keys:
  assumes "\<And>n p r q. eo n p = (r, q) \<Longrightarrow> pool_keys q = pool_keys p" and "session_connect eo db s = (r, s')"
  shows "held_keys s' = held_keys s"
  using assms(2)
  by (auto simp: session_connect_def held_keys_def Let_def split: option.splits if_splits prod.splits sum.splits dest!: assms(1))

lemma export_keys: "export_pool E cred envelope p = (r, q) \<Longrightarrow> pool_keys q = pool_keys p"
proof -
  have "pool_keys (snd (export_pool E cred envelope p)) = pool_keys p"
    by (auto simp: export_pool_def lift_pool_def Let_def split: sum.split)
  then show "export_pool E cred envelope p = (r, q) \<Longrightarrow> pool_keys q = pool_keys p" by (metis snd_conv)
qed

lemma sql_keys:
  assumes e: "engine_keeps_keys engine" and "session_sql_inner engine parse db sql params s = (r, s')"
  shows "held_keys s' = held_keys s"
proof -
  have k: "\<And>n p r q. engine_open engine n p = (r, q) \<Longrightarrow> pool_keys q = pool_keys p"
      "\<And>n t p r q. engine_script engine n t p = (r, q) \<Longrightarrow> pool_keys q = pool_keys p"
      "\<And>n t p r a q. engine_prepare engine n t p = (r, a, q) \<Longrightarrow> pool_keys q = pool_keys p"
    using e unfolding engine_keeps_keys_def by (metis snd_conv)+
  show ?thesis
  proof (cases "valid_db_name db \<and> (\<exists>v. sql_params parse params = Inr v)")
    case True
    then obtain v where v: "valid_db_name db" "sql_params parse params = Inr v" by blast
    obtain c s1 where c: "session_connect (engine_open engine) db s = (c, s1)" by fastforce
    have h: "held_keys s1 = held_keys s" by (rule connect_keys [OF k(1) c])
    show ?thesis
    proof (cases c)
      case (Inr u)
      have "held_keys s' = held_keys s1"
        using assms(2) v
        by (auto simp: session_sql_inner_def c Inr Let_def dest!: with_pool_keys [rotated] k(2,3) split: option.splits prod.splits)
      then show ?thesis using h by simp
    qed (use assms(2) v c h in \<open>simp add: session_sql_inner_def\<close>)
  qed (use assms(2) in \<open>cases "sql_params parse params"; auto simp: session_sql_inner_def split: if_splits\<close>)
qed

lemma apply_keys:
  assumes "close_keeps_keys close" and "session_sync_apply_inner E close img s = (r, s')"
  shows "held_keys s' = held_keys s"
proof -
  have i: "import_files E fs p = (x, q) \<Longrightarrow> pool_keys q = pool_keys p" for fs p x q by (metis keys_import_files snd_conv)
  show ?thesis using assms(2)
    by (auto simp: session_sync_apply_inner_def held_keys_def keys_fold_close [OF assms(1)]
        split: sum.splits option.splits prod.splits dest!: i)
qed

lemma issue_cert_keys:
  assumes "session_issue_device_cert E pk caps sealed issued expiry s = (r, s')"
  shows "held_keys s' = held_keys s"
proof -
  have w: "held_keys (snd (with_pool (\<lambda>p. lift_pool (pool_issue_device_cert E sealed pk cs issued expiry p)) s)) = held_keys s" for cs
  proof (rule with_pool_keys [OF _ prod.collapse [symmetric]])
    show "lift_pool (pool_issue_device_cert E sealed pk cs issued expiry p) = (x, q) \<Longrightarrow> pool_keys q = pool_keys p" for p x q
      by (metis keys_issue_device_cert lift_pool_def snd_conv)
  qed
  show ?thesis using assms w by (auto simp: session_issue_device_cert_def dest!: st_then_const split: if_splits)
qed

lemma rotate_keys:
  assumes "close_keeps_keys close" and "rotate_dek_inner E close secret envelope rng s = (r, s')"
  shows "held_keys s' \<subseteq> held_keys s"
proof (cases "\<exists>p hs. session s = Some (p, hs)")
  case True
  then obtain p hs where p: "session s = Some (p, hs)" by blast
  have g: "stage_rotation E nk ds g g' (fold close hs p) = (x, q) \<Longrightarrow> pool_keys q = pool_keys p" for nk ds g g' x q
    by (metis keys_stage_rotation keys_fold_close [OF assms(1)] snd_conv)
  have l: "held_keys (snd (session_lock_inner close m)) \<subseteq> held_keys m" for m
    using lock_keys [OF assms(1)] by (metis prod.collapse)
  have h: "pool_keys q = pool_keys p \<Longrightarrow> held_keys (s\<lparr>session := Some (q, [])\<rparr>) = held_keys s" for q
    using p by (simp add: held_keys_def)
  show ?thesis using assms(2) p h l
    by (auto simp: rotate_dek_inner_def Let_def dest!: g st_then_const split: sum.splits prod.splits)
qed (use assms(2) in \<open>auto simp: rotate_dek_inner_def split: option.splits\<close>)

text \<open>A step only brings in keys that the call unlocked.\<close>

lemma step_keys:
  "session_step E s call e s' \<Longrightarrow> keeps_keys call \<Longrightarrow> held_keys s' \<subseteq> held_keys s \<union> derived_keys E ` {k. unlocks E call k}"
proof (induction rule: session_step.induct)
  case (step_open close secret blob epoch dir s r s')
  then show ?case using begin_keys by (fastforce simp: session_open_def split: sum.splits)
next
  case (step_open_recovery close code blob epoch dir s r s')
  then show ?case using begin_keys by (fastforce simp: session_open_recovery_def split: sum.splits)
next
  case (step_lock close s r s')
  then show ?case using lock_keys by (metis keeps_keys.simps(3) le_supI1)
next
  case (step_sql engine parse db sql params s r s')
  then show ?case using sql_keys by (metis keeps_keys.simps(4) le_supI1 order_refl)
next
  case (step_export cred envelope s r s')
  have "held_keys s' = held_keys s"
    by (rule with_pool_keys [OF _ step_export.hyps [unfolded session_export_inner_def]]) (rule export_keys)
  then show ?case by simp
next
  case (step_rotate close secret envelope rng s r s')
  then show ?case using rotate_keys by (metis keeps_keys.simps(5) le_supI1)
next
  case (step_sync_apply close img s r s')
  then show ?case using apply_keys by (metis keeps_keys.simps(6) le_supI1 order_refl)
next
  case (step_issue_cert pk caps sealed issued expiry s r s')
  then show ?case using issue_cert_keys by (metis le_supI1 order_refl)
qed auto

lemma run_keys:
  "session_run E s tr s' \<Longrightarrow> \<forall>(call, e) \<in> set tr. keeps_keys call
   \<Longrightarrow> held_keys s' \<subseteq> held_keys s \<union> derived_keys E ` {k. \<exists>(call, e) \<in> set tr. unlocks E call k}"
proof (induction rule: session_run.induct)
  case (run_call s call e s1 tr s2)
  have "held_keys s1 \<subseteq> held_keys s \<union> derived_keys E ` {k. unlocks E call k}"
    by (rule step_keys [OF run_call.hyps(1)]) (use run_call.prems in simp)
  moreover have "held_keys s2 \<subseteq> held_keys s1 \<union> derived_keys E ` {k. \<exists>(call, e) \<in> set tr. unlocks E call k}"
    using run_call.IH run_call.prems by simp
  ultimately show ?case by fastforce
qed simp

text \<open>
  C15: The key of a live session was unlocked: in any run of calls from the start, if SQLite works on the
  pool through the callbacks only, the data key of the live pool, and the keys derived from it for its
  files and its anchor, are those that some call of the run recovered from an envelope with its secret.
  No rotation, sync image or failed open puts another key into a session.
\<close>

theorem session_key_was_unlocked:
  assumes "session_run E no_session tr s" and "\<forall>(call, e) \<in> set tr. keeps_keys call" and "session s = Some (p, hs)"
  shows "\<exists>call e k. (call, e) \<in> set tr \<and> unlocks E call k \<and> dek p = k \<and> p_crypto p = pool_key E k \<and> anchor_crypto p = anchor_key E k"
proof -
  have "pool_keys p \<in> held_keys s" using assms(3) by (simp add: held_keys_def image_iff)
  then have "pool_keys p \<in> derived_keys E ` {k. \<exists>(call, e) \<in> set tr. unlocks E call k}"
    using run_keys [OF assms(1,2)] by (auto simp: held_keys_def no_session_def)
  then show ?thesis by (auto simp: pool_keys_def derived_keys_def)
qed

section \<open>Witnesses\<close>

text \<open>
  A page that opens the vault of the exchange examples, asks for a row, locks, and asks again. Its
  engine opens every database and answers a script with nothing.
\<close>

definition idle_engine :: "bytes engine" where
  "idle_engine = \<lparr>engine_open = \<lambda>_ p. (Inr (), p), engine_script = \<lambda>_ _ p. ([], p), engine_prepare = \<lambda>_ _ p. (Inl [], [], p)\<rparr>"

abbreviation (input) page_open :: "bytes session_call" where
  "page_open \<equiv> CallOpen (\<lambda>_ p. p) [8] (shipped_envelope 2) [] ship_dir"

abbreviation (input) page_sql :: "bytes session_call" where
  "page_sql \<equiv> CallSql idle_engine (\<lambda>_. None) (ascii ''app'') [] []"

lemma page_opens:
  obtains q where "session_step mem_env no_session page_open None \<lparr>session = Some (q, []), registered = None\<rparr>"
    and "open_files q = []" and "dek q = replicate 32 1"
proof -
  obtain q where q: "install mem_env False (replicate 32 1) ship_dir None = Inr q" "open_files q = []" "dek q = replicate 32 1"
      "\<not> has_filename q ROT_INTENT_NAME"
    by (rule ship_install)
  have "session_open mem_env (\<lambda>_ p. p) [8] (shipped_envelope 2) [] ship_dir no_session = (Inr (), \<lparr>session = Some (q, []), registered = None\<rparr>)"
    using q by (simp add: session_open_def ship_opens session_begin_def session_lock_inner_def no_session_def apply_peer_epoch_def recover_rotation_def)
  from step_open [OF this] show ?thesis using that q by simp
qed

lemma no_params: "sql_params (\<lambda>_. None) [] = Inr None"
  by (simp add: sql_params_def trim_def trim_start.simps [of "[]"] trim_start_rev.simps [of "[]"] ws_len_def ws_len_rev_def)

lemma page_asks:
  "session_step mem_env \<lparr>session = Some (q, []), registered = None\<rparr> page_sql None \<lparr>session = Some (q, [ascii ''app.db'']), registered = None\<rparr>"
proof -
  obtain r where "session_sql_inner idle_engine (\<lambda>_. None) (ascii ''app'') [] [] \<lparr>session = Some (q, []), registered = None\<rparr>
      = (Inr r, \<lparr>session = Some (q, [ascii ''app.db'']), registered = None\<rparr>)"
    by (simp add: session_sql_inner_def no_params session_connect_def valid_db_name_def idle_engine_def with_pool_def
        query_json_def ascii_def Let_def)
  from step_sql [OF this] show ?thesis by simp
qed

text \<open>The run of both: an open, a query, a lock, a query.\<close>

lemma page_run:
  obtains q where "session_run mem_env no_session [(page_open, None), (page_sql, None)] \<lparr>session = Some (q, [ascii ''app.db'']), registered = None\<rparr>"
    and "session_run mem_env \<lparr>session = Some (q, [ascii ''app.db'']), registered = None\<rparr>
      [(CallLock (\<lambda>_ p. p), None), (page_sql, Some NoSession)] no_session" and "dek q = replicate 32 1"
proof -
  obtain q where q: "session_step mem_env no_session page_open None \<lparr>session = Some (q, []), registered = None\<rparr>"
      "open_files q = []" "dek q = replicate 32 1"
    by (rule page_opens)
  let ?live = "\<lparr>session = Some (q, [ascii ''app.db'']), registered = None\<rparr>"
  have live: "session_run mem_env no_session [(page_open, None), (page_sql, None)] ?live"
    by (rule run_call [OF q(1) run_call [OF page_asks run_nil]])
  have "session_lock_inner (\<lambda>_ p. p) ?live = (Inr (), no_session)"
    using q(2) by (simp add: session_lock_inner_def pause_vfs_def no_session_def)
  from step_lock [OF this, of mem_env]
  have lock: "session_step mem_env ?live (CallLock (\<lambda>_ p. p)) None no_session" by simp
  have asked: "session_step mem_env no_session page_sql (Some NoSession) no_session"
  proof -
    have "session_sql_inner idle_engine (\<lambda>_. None) (ascii ''app'') [] [] no_session = (Inl NoSession, no_session :: bytes sessions)"
      by (simp add: session_sql_inner_def no_params session_connect_def valid_db_name_def no_session_def ascii_def)
    from step_sql [OF this, of mem_env] show ?thesis by simp
  qed
  show ?thesis by (rule that [OF live run_call [OF lock run_call [OF asked run_nil]] q(3)])
qed

theorem reachable_session_wf_witness:
  "\<exists>q. session_wf \<lparr>session = Some (q :: bytes pool, [ascii ''app.db'']), registered = None\<rparr>"
proof -
  obtain q where "session_run mem_env no_session [(page_open, None), (page_sql, None)] \<lparr>session = Some (q, [ascii ''app.db'']), registered = None\<rparr>"
    by (rule page_run)
  from reachable_session_wf [OF this] show ?thesis by blast
qed

theorem locked_vault_stays_locked_witness:
  "\<exists>s. session_active s \<and> session_run mem_env s [(CallLock (\<lambda>_ p. p), None), (page_sql, Some NoSession)] no_session
     \<and> \<not> session_active (no_session :: bytes sessions)"
proof -
  obtain q where r: "session_run mem_env \<lparr>session = Some (q, [ascii ''app.db'']), registered = None\<rparr>
      [(CallLock (\<lambda>_ p. p), None), (page_sql, Some NoSession)] no_session"
    by (rule page_run)
  from locked_vault_stays_locked [OF r] have "\<not> session_active (no_session :: bytes sessions)" by simp
  with r show ?thesis by (intro exI [of _ "\<lparr>session = Some (q, [ascii ''app.db'']), registered = None\<rparr>"] conjI) (simp_all add: session_active_def)
qed

theorem session_key_was_unlocked_witness:
  "\<exists>q call e. (call, e) \<in> {(page_open, None), (page_sql, None :: session_error option)} \<and> unlocks mem_env call (replicate 32 1)
     \<and> dek (q :: bytes pool) = replicate 32 1 \<and> p_crypto q = pool_key mem_env (replicate 32 1)"
proof -
  obtain q where q: "session_run mem_env no_session [(page_open, None), (page_sql, None)] \<lparr>session = Some (q, [ascii ''app.db'']), registered = None\<rparr>"
      "dek q = replicate 32 1"
    by (rule page_run)
  have k: "\<forall>(call, e) \<in> set [(page_open, None), (page_sql, None :: session_error option)]. keeps_keys call"
    by (simp add: close_keeps_keys_def engine_keeps_keys_def idle_engine_def)
  show ?thesis using session_key_was_unlocked [OF q(1) k, of q "[ascii ''app.db'']"] q(2) by auto
qed

end
