(* ===== verification/Rotation_Session.thy ===== *)
theory Rotation_Session
  imports Session_Machine
begin

text \<open>
  The rotation of the data key from end to end: \<open>session_rotate_dek\<close> stages the re-sealed files and
  locks the vault, the page stores the new envelope or fails to, and the next \<open>session_open\<close> finds the
  handles in the directory. With the new envelope the rotation is completed, with the old one it is
  undone; every database is there either way.
\<close>

section \<open>The files of a staged rotation\<close>

text \<open>The blocks of a database and the slots of its manifest, each under the new key.\<close>

definition resealed :: "('h, 'z) env_scheme \<Rightarrow> bytes \<Rightarrow> bytes \<Rightarrow> str \<Rightarrow> bytes \<Rightarrow> bytes \<Rightarrow> bytes \<Rightarrow> bytes \<Rightarrow> bool" where
  "resealed E dk nk db raw m out mo \<longleftrightarrow> (let u = slice 8 16 m in
     length out = length raw div PHYS_BLOCK * PHYS_BLOCK
     \<and> (\<forall>k < length raw div PHYS_BLOCK. rekeyed E (db_key E dk u) (db_key E nk u) (file_id_for E db) u k
          (slice (k * PHYS_BLOCK) PHYS_BLOCK raw) (slice (k * PHYS_BLOCK) PHYS_BLOCK out))
     \<and> take MANIFEST_HDR_LEN mo = take MANIFEST_HDR_LEN m
     \<and> (\<forall>k. MANIFEST_HDR_LEN + k * PHYS_BLOCK + PHYS_BLOCK \<le> length m \<longrightarrow>
          (let b = slice (MANIFEST_HDR_LEN + k * PHYS_BLOCK) PHYS_BLOCK m; b' = slice (MANIFEST_HDR_LEN + k * PHYS_BLOCK) PHYS_BLOCK mo
           in rekeyed E (db_key E dk u) (db_key E nk u) (file_id_for E (manifest_name db)) u k b b'
             \<or> \<not> is_ok (open_into E (db_key E dk u) (file_id_for E (manifest_name db)) u (word_of_nat k) b) \<and> b' = b)))"

definition staged_db :: "('h, 'z) env_scheme \<Rightarrow> bytes \<Rightarrow> bytes \<Rightarrow> (str \<rightharpoonup> bytes) \<Rightarrow> (str \<rightharpoonup> bytes) \<Rightarrow> str \<Rightarrow> bool" where
  "staged_db E dk nk old staged db \<longleftrightarrow> (\<forall>raw m. old db = Some raw \<longrightarrow> old (manifest_name db) = Some m \<longrightarrow>
     (\<exists>out mo. staged (shadow_name db) = Some out \<and> staged (shadow_name (manifest_name db)) = Some mo
        \<and> resealed E dk nk db raw m out mo))"

text \<open>What staging leaves alone: the anchor and the keys, and every file that is not one of its shadows.\<close>

definition same_anchor :: "'h pool \<Rightarrow> 'h pool \<Rightarrow> bool" where
  "same_anchor p q \<longleftrightarrow> anchor_handle q = anchor_handle p \<and> pool_keys q = pool_keys p"

lemma same_anchor_trans: "same_anchor p q \<Longrightarrow> same_anchor q r \<Longrightarrow> same_anchor p r"
  by (simp add: same_anchor_def)

lemma same_anchor_rest: "pool_rest q = pool_rest p \<Longrightarrow> same_anchor p q"
  by (simp add: same_anchor_def pool_rest_def pool_keys_def)

lemma same_anchor_load: "same_anchor p q \<Longrightarrow> anchor_load E q = anchor_load E p"
  by (simp add: same_anchor_def anchor_load_def pool_keys_def cong: option.case_cong)

lemma import_staged:
  assumes "pool_inv E c p" and "name_ok n" and "HEADER_OFFSET_DATA + length b < 2 ^ 32"
    and "import_ciphertext_file E n b p = (Inr (), p')"
  shows "pool_inv E c p' \<and> stored c p' = (stored c p)(n \<mapsto> b) \<and> same_anchor p p'"
  using import_outcomes [OF assms(1-3)] assms(4) same_anchor_rest by fastforce

lemma reseal_staged:
  assumes "pool_inv E c p" and "aead_ok E" and "hash_ok E" and "sizes_ok (stored c p)"
    and names: "name_ok (shadow_name db)" "name_ok (shadow_name (manifest_name db))"
    and old: "stored c p db = Some raw" "stored c p (manifest_name db) = Some m"
    and rs: "reseal_db_ciphertext E db nk p = (Inr fs, p1)" and im: "import_shadows E fs p1 = (Inr (), p2)"
  shows "\<exists>out mo. stored c p2 = (stored c p)(shadow_name db \<mapsto> out, shadow_name (manifest_name db) \<mapsto> mo)
    \<and> resealed E (dek p) nk db raw m out mo \<and> pool_inv E c p2 \<and> same_anchor p p2 \<and> sizes_ok (stored c p2)"
proof -
  obtain out mo where o: "fs = [(db, out), (manifest_name db, mo)]" "resealed E (dek p) nk db raw m out mo"
    using reseal_rekeys [OF assms(1-3) old refl rs] unfolding resealed_def Let_def by blast
  note ob = reseal_db_outcomes [OF assms(1-4) rs]
  have l: "HEADER_OFFSET_DATA + length out < 2 ^ 32" "HEADER_OFFSET_DATA + length mo < 2 ^ 32"
    using ob(2) [of fs db out] ob(2) [of fs "manifest_name db" mo] by (simp_all add: o(1))
  obtain g where g: "p1 = p\<lparr>p_rng := g\<rparr>" using ob(1) by blast
  have i1: "pool_inv E c p1" "stored c p1 = stored c p" "same_anchor p p1"
    using assms(1) by (simp_all add: g same_anchor_def)
  obtain pm where pm: "import_ciphertext_file E (shadow_name db) out p1 = (Inr (), pm)"
      "import_ciphertext_file E (shadow_name (manifest_name db)) mo pm = (Inr (), p2)"
    using im by (auto simp: o(1) st_then_Inr_iff)
  note s1 = import_staged [OF i1(1) names(1) l(1) pm(1)]
  then have "pool_inv E c pm" by blast
  note s2 = import_staged [OF this names(2) l(2) pm(2)]
  have st: "stored c p2 = (stored c p)(shadow_name db \<mapsto> out, shadow_name (manifest_name db) \<mapsto> mo)"
    using s1 s2 i1(2) by simp
  have "sizes_ok (stored c p2)" using assms(4) l unfolding st sizes_ok_def by (auto split: if_splits)
  moreover have "same_anchor p p2" using same_anchor_trans [OF i1(3)] same_anchor_trans s1 s2 by blast
  ultimately show ?thesis using st o(2) s2 by blast
qed

lemma stage_dbs_effect:
  "pool_inv E c p \<Longrightarrow> sizes_ok (stored c p) \<Longrightarrow> aead_ok E \<Longrightarrow> hash_ok E \<Longrightarrow>
   (\<forall>n \<in> set (live_names ds). name_ok (shadow_name n) \<and> n \<notin> shadow_name ` set (live_names ds) \<and> stored c p n \<noteq> None) \<Longrightarrow>
   distinct (live_names ds) \<Longrightarrow> stage_dbs E nk ds p = (Inr (), p') \<Longrightarrow>
   pool_inv E c p' \<and> sizes_ok (stored c p') \<and> same_anchor p p' \<and> (\<forall>n. n \<notin> shadow_name ` set (live_names ds) \<longrightarrow> stored c p' n = stored c p n)
   \<and> (\<forall>db \<in> set ds. staged_db E (dek p) nk (stored c p) (stored c p') db)"
proof (induction ds arbitrary: p)
  case Nil
  then show ?case by (simp add: same_anchor_def)
next
  case (Cons db ds)
  let ?L = "live_names ds"
  have ln: "live_names (db # ds) = db # manifest_name db # ?L" by (simp add: live_names_def)
  note names = Cons.prems(5) [unfolded ln] and dist = Cons.prems(6) [unfolded ln]
  obtain fs p1 p2 where p2: "reseal_db_ciphertext E db nk p = (Inr fs, p1)" "import_shadows E fs p1 = (Inr (), p2)"
      "stage_dbs E nk ds p2 = (Inr (), p')"
    using Cons.prems(7) by (auto simp: st_then_Inr_iff)
  obtain raw m where old: "stored c p db = Some raw" "stored c p (manifest_name db) = Some m" using names by auto
  obtain out mo where s2: "stored c p2 = (stored c p)(shadow_name db \<mapsto> out, shadow_name (manifest_name db) \<mapsto> mo)"
      "resealed E (dek p) nk db raw m out mo" "pool_inv E c p2" "same_anchor p p2" "sizes_ok (stored c p2)"
    using reseal_staged [OF Cons.prems(1,3,4,2) _ _ old p2(1,2)] names by auto
  have live: "stored c p2 n = stored c p n" if "n \<in> set ?L" for n using names that by (auto simp: s2(1))
  have "\<forall>n \<in> set ?L. name_ok (shadow_name n) \<and> n \<notin> shadow_name ` set ?L \<and> stored c p2 n \<noteq> None"
    using names live by auto
  from Cons.IH [OF s2(3,5) Cons.prems(3,4) this _ p2(3)] dist
  have IH: "pool_inv E c p'" "sizes_ok (stored c p')" "same_anchor p2 p'"
      "\<And>n. n \<notin> shadow_name ` set ?L \<Longrightarrow> stored c p' n = stored c p2 n"
      "\<And>d. d \<in> set ds \<Longrightarrow> staged_db E (dek p2) nk (stored c p2) (stored c p') d" by auto
  have dk: "dek p2 = dek p" using s2(4) by (simp add: same_anchor_def pool_keys_def)
  have "stored c p' (shadow_name db) = Some out" "stored c p' (shadow_name (manifest_name db)) = Some mo"
    using IH(4) [of "shadow_name db"] IH(4) [of "shadow_name (manifest_name db)"] dist by (simp_all add: s2(1) image_iff)
  then have first: "staged_db E (dek p) nk (stored c p) (stored c p') db" using old s2(2) by (simp add: staged_db_def)
  have "staged_db E (dek p) nk (stored c p) (stored c p') d" if d: "d \<in> set ds" for d
  proof -
    have "d \<in> set ?L" "manifest_name d \<in> set ?L" using d by (auto simp: live_names_def)
    then show ?thesis using IH(5) [OF d] live by (simp add: staged_db_def dk)
  qed
  moreover have "stored c p' n = stored c p n" if "n \<notin> shadow_name ` set (live_names (db # ds))" for n
    using that IH(4) [of n] by (auto simp: ln s2(1))
  ultimately show ?case using IH(1,2) same_anchor_trans [OF s2(4) IH(3)] first by auto
qed

text \<open>And the intent, which opens under the new key to the names and the anchor's table.\<close>

lemma stage_rotation_effect:
  assumes "pool_inv E c p" and "sizes_ok (stored c p)" and "aead_ok E" and "hash_ok E"
    and names: "\<forall>n \<in> set (live_names ds). name_ok (shadow_name n) \<and> n \<notin> shadow_name ` set (live_names ds) \<and> stored c p n \<noteq> None"
    and "distinct (live_names ds)" and "list_all utf8_valid ds" and st: "stage_rotation E nk ds og ng p = (Inr (), p')"
  shows "\<exists>sealed plain. stored c p' ROT_INTENT_NAME = Some sealed
    \<and> open_bytes E (rotate_intent_key E nk) ROT_INTENT_AAD sealed = Inr plain
    \<and> parse_rotation_intent plain = Inr (ds, snd (anchor_load E p))
    \<and> pool_inv E c p' \<and> sizes_ok (stored c p') \<and> same_anchor p p'
    \<and> (\<forall>n. n \<noteq> ROT_INTENT_NAME \<and> n \<notin> shadow_name ` set (live_names ds) \<longrightarrow> stored c p' n = stored c p n)
    \<and> (\<forall>db \<in> set ds. staged_db E (dek p) nk (stored c p) (stored c p') db)"
proof -
  obtain p1 where s: "stage_dbs E nk ds p = (Inr (), p1)" using st by (auto simp: stage_rotation_def st_then_Inr_iff)
  note s1 = stage_dbs_effect [OF assms(1-4) names assms(6) s]
  obtain plain where e: "encode_rotation_intent og ng ds (snd (anchor_load E p1)) = Inr plain"
    using st s by (auto simp: stage_rotation_def split: sum.splits)
  obtain rs g where q: "seal_bytes E (rotate_intent_key E nk) ROT_INTENT_AAD plain (p_rng p1) = (rs, g)" by fastforce
  then obtain sealed where rs: "rs = Inr sealed" and im: "import_ciphertext_file E ROT_INTENT_NAME sealed (p1\<lparr>p_rng := g\<rparr>) = (Inr (), p')"
    using st s e by (cases rs) (auto simp: stage_rotation_def)
  have al: "anchor_load E p1 = anchor_load E p" using s1 same_anchor_load by blast
  have wf: "anchor_wf (anchor_load E p)" by (rule anchor_table_wf)
  have io: "intent_ok (ds, snd (anchor_load E p))"
  proof -
    have "list_all (\<lambda>n. length n \<le> 255) ds \<and> length ds \<le> 65535"
    proof -
      obtain nb where "encode_names ds = Inr nb" "length ds \<le> 65535"
        using e by (auto simp: encode_rotation_intent_def result_simps split: if_splits)
      moreover have "encode_names xs = Inr y \<Longrightarrow> list_all (\<lambda>n. length n \<le> 255) xs" for xs y
        by (induction xs arbitrary: y) (auto simp: result_simps split: if_splits)
      ultimately show ?thesis by blast
    qed
    then show ?thesis using assms(7) wf by (auto simp: intent_ok_def list_all_iff anchor_wf_def)
  qed
  have pa: "parse_rotation_intent plain = Inr (ds, snd (anchor_load E p))"
    using intent_roundtrip_eq [OF io, of og ng] e al by auto
  have k: "key_ok (E, rotate_intent_key E nk)" using assms(3,4) by (simp add: key_ok_def len_simps)
  have lp: "length plain < 2 ^ 30" using e wf by (intro encode_intent_length [OF e]) (simp add: al anchor_wf_def)
  note o = bytes_box.seal_Inr(1,2) [of "(E, rotate_intent_key E nk)" plain ROT_INTENT_AAD "p_rng p1" sealed g]
  have op: "open_bytes E (rotate_intent_key E nk) ROT_INTENT_AAD sealed = Inr plain" and ls: "length sealed = length plain + 40"
    using o k q rs lp by (simp_all add: NONCE_LEN_def TAG_LEN_def)
  have l: "HEADER_OFFSET_DATA + length sealed < 2 ^ 32" using lp ls by (simp add: HEADER_OFFSET_DATA_def)
  have i: "pool_inv E c (p1\<lparr>p_rng := g\<rparr>)" "stored c (p1\<lparr>p_rng := g\<rparr>) = stored c p1" "same_anchor p (p1\<lparr>p_rng := g\<rparr>)"
    using s1 by (simp_all add: same_anchor_def)
  note im' = import_staged [OF i(1) intent_name_ok l im]
  have "stored c p' = (stored c p1)(ROT_INTENT_NAME \<mapsto> sealed)" using im' i(2) by simp
  moreover have "sizes_ok (stored c p')" using s1 l unfolding calculation sizes_ok_def by (auto split: if_splits)
  moreover have "shadow_name n \<noteq> ROT_INTENT_NAME" for n using intent_no_suffix shadow_suffix by metis
  moreover have "same_anchor p p'" using same_anchor_trans [OF i(3)] im' by blast
  ultimately show ?thesis using im' s1 op pa by (intro exI [of _ sealed] exI [of _ plain]) (auto simp: staged_db_def)
qed

section \<open>A re-sealed database\<close>

text \<open>
  Nothing in the pool opens under the key that was drawn: no slot of the anchor, no slot of a manifest.
\<close>

definition unused_key :: "('h, 'z) env_scheme \<Rightarrow> ('h \<Rightarrow> bytes) \<Rightarrow> 'h pool \<Rightarrow> bytes \<Rightarrow> bool" where
  "unused_key E c p nk \<longleftrightarrow> (\<forall>k < 2. anchor_slot E (anchor_key E nk) (anchor_bytes c p) k = None)
     \<and> (\<forall>db m k. stored c p (manifest_name db) = Some m \<longrightarrow>
          \<not> is_ok (open_into E (db_key E nk (slice 8 16 m)) (file_id_for E (manifest_name db)) (slice 8 16 m) (word_of_nat k)
              (slice (MANIFEST_HDR_LEN + k * PHYS_BLOCK) PHYS_BLOCK m)))"

lemma rekeyed_open: "rekeyed E ok nk f u k b b' \<Longrightarrow> open_into E nk f u (word_of_nat k) b' = open_into E ok f u (word_of_nat k) b"
  by (auto simp: rekeyed_def)

lemma stored_region: "lookup_file p n = Some f \<Longrightarrow> stored c p n = Some b \<Longrightarrow> b = drop HEADER_OFFSET_DATA (c (handle f))"
  by (simp add: stored_def)

lemma resealed_blocks:
  assumes "aead_ok E" and "hash_ok E" and "pool_inv E c p" and "pool_inv E c q" and "on_disk E c p n u bs"
    and "stored c p n = Some raw" and "stored c q n = Some out" and "resealed E (dek p) (dek q) n raw man out mo" and "u = slice 8 16 man"
  shows "on_disk E c q n u bs"
proof -
  obtain f where f: "lookup_file p n = Some f" "holds E c (dev_of p (f\<lparr>f_crypto := db_key E (dek p) u, f_key_domain := u\<rparr>)) (length bs) (\<lambda>k. bs ! k)"
      "length bs * BLOCK_SIZE \<le> DEV_LIMIT"
    using assms(5) by (auto simp: on_disk_def)
  note raw = stored_region [OF f(1) assms(6)]
  obtain g where g: "lookup_file q n = Some g" "drop HEADER_OFFSET_DATA (c (handle g)) = out" "HEADER_OFFSET_DATA \<le> length (c (handle g))"
    by (rule stored_Some [OF assms(4,7)])
  have fid: "f_file_id f = file_id_for E n" "f_file_id g = file_id_for E n" using assms(3,4) f(1) g(1) by (auto simp: pool_inv_def)
  have h: "length (c (handle f)) = HEADER_OFFSET_DATA + length bs * PHYS_BLOCK"
      "\<And>k. k < length bs \<Longrightarrow> open_into E (db_key E (dek p) u) (file_id_for E n) u (word_of_nat k) (slice (k * PHYS_BLOCK) PHYS_BLOCK raw) = Inr (bs ! k)"
    using f(2) fid(1) by (simp_all add: holds_def dev_of_def open_block_def slice_region raw)
  have n: "length raw div PHYS_BLOCK = length bs" using h(1) by (simp add: raw size_defs)
  have r: "length out = length bs * PHYS_BLOCK"
      "\<And>k. k < length bs \<Longrightarrow> rekeyed E (db_key E (dek p) u) (db_key E (dek q) u) (file_id_for E n) u k
          (slice (k * PHYS_BLOCK) PHYS_BLOCK raw) (slice (k * PHYS_BLOCK) PHYS_BLOCK out)"
    using assms(8) unfolding resealed_def Let_def n assms(9) [symmetric] by auto
  have "length (c (handle g)) = HEADER_OFFSET_DATA + length bs * PHYS_BLOCK" using r(1) g(3) by (simp flip: g(2))
  then have "holds E c (dev_of q (g\<lparr>f_crypto := db_key E (dek q) u, f_key_domain := u\<rparr>)) (length bs) (\<lambda>k. bs ! k)"
    using rekeyed_open [OF r(2)] h(2) fid(2) by (simp add: holds_def dev_of_def open_block_def slice_region g(2))
  then show ?thesis using g(1) f(3) by (auto simp: on_disk_def)
qed

lemma resealed_slot:
  assumes "aead_ok E" and "hash_ok E" and "resealed E dk nk db raw m out mo" and "u = slice 8 16 m"
    and fits: "MANIFEST_HDR_LEN + k * PHYS_BLOCK + PHYS_BLOCK \<le> length m"
    and blind: "\<not> is_ok (open_into E (db_key E nk u) (file_id_for E (manifest_name db)) u (word_of_nat k)
              (slice (MANIFEST_HDR_LEN + k * PHYS_BLOCK) PHYS_BLOCK m))"
  shows "MANIFEST_HDR_LEN + k * PHYS_BLOCK + PHYS_BLOCK \<le> length mo"
    and "(\<exists>x. open_into E (db_key E nk u) (file_id_for E (manifest_name db)) u (word_of_nat k) (slice (MANIFEST_HDR_LEN + k * PHYS_BLOCK) PHYS_BLOCK mo) = Inr x
          \<and> open_into E (db_key E dk u) (file_id_for E (manifest_name db)) u (word_of_nat k) (slice (MANIFEST_HDR_LEN + k * PHYS_BLOCK) PHYS_BLOCK m) = Inr x)
      \<or> \<not> is_ok (open_into E (db_key E nk u) (file_id_for E (manifest_name db)) u (word_of_nat k) (slice (MANIFEST_HDR_LEN + k * PHYS_BLOCK) PHYS_BLOCK mo))
          \<and> \<not> is_ok (open_into E (db_key E dk u) (file_id_for E (manifest_name db)) u (word_of_nat k) (slice (MANIFEST_HDR_LEN + k * PHYS_BLOCK) PHYS_BLOCK m))"
proof -
  let ?b = "slice (MANIFEST_HDR_LEN + k * PHYS_BLOCK) PHYS_BLOCK m" and ?b' = "slice (MANIFEST_HDR_LEN + k * PHYS_BLOCK) PHYS_BLOCK mo"
    and ?f = "file_id_for E (manifest_name db)"
  have r: "rekeyed E (db_key E dk u) (db_key E nk u) ?f u k ?b ?b' \<or> \<not> is_ok (open_into E (db_key E dk u) ?f u (word_of_nat k) ?b) \<and> ?b' = ?b"
    using assms(3) fits unfolding resealed_def Let_def assms(4) [symmetric] by blast
  have k: "key_ok (E, db_key E nk u)" using assms(1,2) by (simp add: key_ok_def len_simps)
  have "length ?b = PHYS_BLOCK" using fits by (simp add: slice_def)
  then have "length ?b' = PHYS_BLOCK" using r open_into_length [OF k] by (auto simp: rekeyed_def)
  then show "MANIFEST_HDR_LEN + k * PHYS_BLOCK + PHYS_BLOCK \<le> length mo"
    by (simp add: slice_def size_defs)
  show "(\<exists>x. open_into E (db_key E nk u) ?f u (word_of_nat k) ?b' = Inr x \<and> open_into E (db_key E dk u) ?f u (word_of_nat k) ?b = Inr x)
      \<or> \<not> is_ok (open_into E (db_key E nk u) ?f u (word_of_nat k) ?b') \<and> \<not> is_ok (open_into E (db_key E dk u) ?f u (word_of_nat k) ?b)"
    using r blind by (auto simp: rekeyed_def)
qed

lemma resealed_manifest:
  assumes "aead_ok E" and "hash_ok E" and "pool_inv E c q" and "manifest_ok E c p n u m"
    and "stored c p (manifest_name n) = Some man" and "stored c q (manifest_name n) = Some mo"
    and rs: "resealed E (dek p) (dek q) n raw man out mo" and blind: "unused_key E c p (dek q)"
  shows "manifest_ok E c q n u m" and "u = slice 8 16 man"
proof -
  obtain mf where mf: "lookup_file p (manifest_name n) = Some mf" "manifest_uuid (c (handle mf)) = Some u" "manifest_at 2 \<le> length (c (handle mf))"
      "parity_ok db_generation (manifest_slot E (db_key E (dek p) u) (file_id_for E (manifest_name n)) u (c (handle mf)))"
      "manifest_now E (dek p) (manifest_name n) u (c (handle mf)) = Some m"
    using assms(4) by (auto simp: manifest_ok_def)
  note man = stored_region [OF mf(1) assms(5)]
  show u: "u = slice 8 16 man" using exported_manifest [OF assms(4)] assms(5) by auto
  obtain g where g: "lookup_file q (manifest_name n) = Some g" "drop HEADER_OFFSET_DATA (c (handle g)) = mo" "HEADER_OFFSET_DATA \<le> length (c (handle g))"
    by (rule stored_Some [OF assms(3,6)])
  have lm: "MANIFEST_HDR_LEN + 2 * PHYS_BLOCK \<le> length man" using mf(3) by (simp add: man manifest_at_def)
  have fits: "MANIFEST_HDR_LEN + k * PHYS_BLOCK + PHYS_BLOCK \<le> length man" if "k < 2" for k :: nat
    using lm that by (auto simp: less_2_cases_iff size_defs)
  have bl: "\<not> is_ok (open_into E (db_key E (dek q) u) (file_id_for E (manifest_name n)) u (word_of_nat k)
              (slice (MANIFEST_HDR_LEN + k * PHYS_BLOCK) PHYS_BLOCK man))" for k
    using blind assms(5) unfolding unused_key_def u by blast
  note slot = resealed_slot [OF assms(1,2) rs u fits bl]
  have lo: "MANIFEST_HDR_LEN + k * PHYS_BLOCK + PHYS_BLOCK \<le> length mo" if "k < 2" for k using slot(1) that by blast
  have same: "manifest_slot E (db_key E (dek q) u) (file_id_for E (manifest_name n)) u (c (handle g)) k
      = manifest_slot E (db_key E (dek p) u) (file_id_for E (manifest_name n)) u (c (handle mf)) k" if k: "k < 2" for k
  proof -
    have "\<not> manifest_at k + PHYS_BLOCK > length (c (handle mf))" "\<not> manifest_at k + PHYS_BLOCK > length (c (handle g))"
      using fits [OF k] lo [OF k] mf(3) g(3) by (simp_all add: man manifest_at_def flip: g(2))
    moreover have "slice (manifest_at k) PHYS_BLOCK (c (handle g)) = slice (MANIFEST_HDR_LEN + k * PHYS_BLOCK) PHYS_BLOCK mo"
        "slice (manifest_at k) PHYS_BLOCK (c (handle mf)) = slice (MANIFEST_HDR_LEN + k * PHYS_BLOCK) PHYS_BLOCK man"
      by (simp_all only: manifest_at_def add.assoc slice_region g(2) man)
    ultimately show ?thesis using slot(2) [OF k] unfolding manifest_slot_def
      by (elim disjE exE conjE) (simp_all add: is_ok_iff split: sum.split)
  qed
  have "manifest_at 2 \<le> length (c (handle g))" using lo [of 1] g(3) by (simp add: manifest_at_def flip: g(2))
  moreover have "manifest_uuid (c (handle g)) = Some u"
  proof -
    have sl: "slice HEADER_OFFSET_DATA MANIFEST_HDR_LEN b = take MANIFEST_HDR_LEN (drop HEADER_OFFSET_DATA b)" for b by (simp add: slice_def)
    have "take MANIFEST_HDR_LEN mo = take MANIFEST_HDR_LEN man" using rs by (simp add: resealed_def Let_def)
    then show ?thesis using mf(2) by (simp add: manifest_uuid_def sl g(2) flip: man)
  qed
  moreover have "parity_ok db_generation (manifest_slot E (db_key E (dek q) u) (file_id_for E (manifest_name n)) u (c (handle g)))"
    using mf(4) same by (simp add: parity_ok_def)
  moreover have "manifest_now E (dek q) (manifest_name n) u (c (handle g)) = Some m"
    using mf(5) same [of 0] same [of 1] by (simp add: manifest_now_def newest_def)
  ultimately show "manifest_ok E c q n u m" using g(1) by (auto simp: manifest_ok_def)
qed

lemma resealed_exportable:
  assumes "aead_ok E" and "hash_ok E" and "pool_inv E c p" and "pool_inv E c q" and "exportable E c p n u bs m" and "unused_key E c p (dek q)"
    and "staged_db E (dek p) (dek q) (stored c p) t n" and "stored c q n = t (shadow_name n)"
    and "stored c q (manifest_name n) = t (shadow_name (manifest_name n))"
  shows "exportable E c q n u bs m"
proof -
  obtain raw where raw: "stored c p n = Some raw" using exportable_stored [OF assms(3,5), of n] by blast
  obtain man where man: "stored c p (manifest_name n) = Some man" using exportable_stored [OF assms(3,5), of "manifest_name n"] by blast
  obtain out mo where o: "stored c q n = Some out" "stored c q (manifest_name n) = Some mo" "resealed E (dek p) (dek q) n raw man out mo"
    using assms(7-9) raw man by (auto simp: staged_db_def)
  have x: "on_disk E c p n u bs" "manifest_ok E c p n u m" using assms(5) by (simp_all add: exportable_def)
  note m = resealed_manifest [OF assms(1,2,4) x(2) man o(2,3) assms(6)]
  show ?thesis using resealed_blocks [OF assms(1-4) x(1) raw o(1,3) m(2)] m(1) assms(5) by (simp add: exportable_def)
qed

section \<open>The handles in the directory\<close>

text \<open>
  The directory a pool was released to: its anchor file, its files in any order the iterator likes, fresh
  files for the capacity that may be missing, and a random source that passes the self-test.
\<close>

definition lists_pool :: "('h, 'z) env_scheme \<Rightarrow> 'h pool \<Rightarrow> 'h directory \<Rightarrow> bool" where
  "lists_pool E p dir \<longleftrightarrow> dir_anchor dir = anchor_handle p
     \<and> (\<exists>fs. mset fs = mset (map snd (files p) @ available p) \<and> dir_entries dir = map entry_of fs)
     \<and> (\<forall>e \<in> set (dir_fresh dir). snd e \<noteq> None) \<and> dir_registers dir \<and> fst (rng_selftest (dir_rng dir))"

definition dir_draws :: "'h directory \<Rightarrow> rng" where
  "dir_draws dir = snd (random_uuid (snd (rng_selftest (dir_rng dir))))"

lemma pool_reopens:
  assumes inv: "pool_inv E c p" and h: "anchor_handle p = Some h" "2 * PHYS_BLOCK \<le> length (c h)" and dir: "lists_pool E p dir"
  obtains q where "install E False k dir None = Inr q" and "pool_inv E c q" and "stored c q = stored c p" and "dek q = k"
    and "anchor_handle q = Some h" and "anchor_crypto q = anchor_key E k" and "p_rng q = dir_draws dir" and "open_files q = []"
proof -
  obtain g where g: "rng_selftest (dir_rng dir) = (True, g)" using dir by (cases "rng_selftest (dir_rng dir)") (auto simp: lists_pool_def)
  obtain fs where fs: "mset fs = mset (map snd (files p) @ available p)" "dir_entries dir = map entry_of fs"
    using dir by (auto simp: lists_pool_def)
  have S: "sah_ok E c" "flags_ok E" using inv by (simp_all add: pool_inv_def)
  let ?p0 = "empty_pool E k g :: 'a pool"
  have f0: "open_files ?p0 = []" "dek ?p0 = k" "anchor_handle ?p0 = None" "available ?p0 = []" "files ?p0 = []" "p_rng ?p0 = dir_draws dir"
      "p_fault ?p0 = fault_new" "length (header_buffer ?p0) = HEADER_CORPUS_SIZE" "anchor_crypto ?p0 = anchor_key E k"
    by (simp_all add: empty_pool_def dir_draws_def g split: prod.splits)
  let ?p1 = "?p0\<lparr>anchor_handle := Some h\<rparr>"
  have a: "acquire_anchor E (Some h) ?p0 = (Inr (), ?p1)"
    using f0(3) h(2) sah_okD(1) [OF S(1), of h] by (simp add: acquire_anchor_def)
  have i: "pool_inv E c ?p1" using S f0 by (simp add: pool_inv_def healthy_def fault_new_def lookup_file_def)
  obtain p2 where p2: "acquire_entries E False (map entry_of fs) ?p1 = (Inr (), p2)" "pool_inv E c p2" "stored c p2 = stored c p"
      "pool_rest p2 = pool_rest ?p1"
  proof -
    have l: "HEADER_OFFSET_DATA \<le> length (c (handle f))" if "f \<in> set fs" for f
    proof -
      have "f \<in> snd ` set (files p) \<or> f \<in> set (available p)" using that arg_cong [OF fs(1), of set_mset] by auto
      then show ?thesis using inv by (force simp: pool_inv_def handle_ok_def lookup_file_def)
    qed
    obtain p2 where "acquire_entries E False (map entry_of fs) ?p1 = (Inr (), p2)" "pool_rest p2 = pool_rest ?p1"
      using acquire_entries_effect [OF i l] by blast
    then show ?thesis using that reacquire_entries [OF inv fs(1) i] f0(5) by auto
  qed
  obtain q where q: "add_capacity E (take (INITIAL_CAPACITY - get_capacity p2) (dir_fresh dir)) p2 = (Inr (get_capacity q), q)" "pool_inv E c q"
      "stored c q = stored c p2" "pool_rest q = pool_rest p2"
    using add_capacity_effect [OF p2(2), of "take (INITIAL_CAPACITY - get_capacity p2) (dir_fresh dir)"] dir
    by (auto simp: lists_pool_def dest: in_set_takeD)
  have "install E False k dir None = Inr q"
    using dir g h(1) fs(2) a p2(1) q(1)
    by (simp add: install_def pool_new_def acquire_access_handles_def reserve_minimum_capacity_def lists_pool_def)
  then show ?thesis using that q p2 f0 by (simp add: pool_rest_def)
qed

section \<open>The names of the databases\<close>

lemma set_db_files: "set (db_files p) = {n. stored c p n \<noteq> None \<and> ends_with n (ascii ''.db'')}"
  by (auto simp: db_files_def get_filenames_def stored_def lookup_file_def map_of_eq_None_iff)

lemma db_shadow_ok:
  assumes "valid_db_name b" and "n = b @ ascii ''.db''"
  shows "name_ok (shadow_name n)" and "name_ok (shadow_name (manifest_name n))" and "\<not> staging_name n" and "\<not> staging_name (manifest_name n)"
proof -
  note v = valid_db_name_file [OF assms]
  have b: "b \<noteq> []" "length b \<le> 32" "\<forall>x \<in> set b. 0 < x \<and> x < 0x80"
    using assms(1) by (auto simp: valid_db_name_base list_all_iff base_char_def word_less_nat_alt word_le_nat_alt)
  show "name_ok (shadow_name n)" "name_ok (shadow_name (manifest_name n))"
    using b by (auto intro!: name_ok_ascii simp: assms(2) shadow_name_def manifest_name_def ROT_SHADOW_SUFFIX_def)
  show "\<not> staging_name n" using v(7,8) by (simp add: staging_name_def)
  show "\<not> staging_name (manifest_name n)"
    by (auto simp: manifest_name_def staging_name_def ends_with_def ROT_INTENT_NAME_def ROT_SHADOW_SUFFIX_def dest!: arg_cong [where f = rev])
qed

lemma distinct_live_names:
  assumes "distinct ds" and "\<forall>d \<in> set ds. ends_with d (ascii ''.db'')"
  shows "distinct (live_names ds)"
  using assms
proof (induction ds)
  case (Cons d ds)
  have "\<not> ends_with (manifest_name x) (ascii ''.db'')" for x by (rule manifest_suffix(2))
  then show ?case using Cons manifest_suffix(1) by (auto simp: live_names_def)
qed (simp add: live_names_def)

text \<open>The databases of a pool, all complete on disk, meet what staging asks of their names.\<close>

lemma live_db_names:
  assumes inv: "pool_inv E c p" and dbs: "\<forall>n \<in> set (db_files p). \<exists>u bs m. exportable E c p n u bs m"
  shows "\<forall>n \<in> set (live_names (db_files p)). name_ok n \<and> name_ok (shadow_name n) \<and> \<not> staging_name n \<and> stored c p n \<noteq> None"
    and "distinct (live_names (db_files p))" and "list_all utf8_valid (db_files p)"
proof -
  have "name_ok n \<and> name_ok (shadow_name n) \<and> \<not> staging_name n \<and> stored c p n \<noteq> None" if live: "n \<in> set (live_names (db_files p))" for n
  proof -
    obtain d where d: "d \<in> set (db_files p)" "n = d \<or> n = manifest_name d" using live by (auto simp: live_names_def)
    obtain u bs m where x: "exportable E c p d u bs m" using dbs d(1) by blast
    obtain b where b: "valid_db_name b" "d = b @ ascii ''.db''" using x by (auto simp: exportable_def)
    obtain v where "stored c p n = Some v" using exportable_stored [OF inv x d(2)] by blast
    then show ?thesis using db_shadow_ok [OF b] valid_db_name_file(1,2) [OF b] valid_name_ok d(2) by auto
  qed
  then show "\<forall>n \<in> set (live_names (db_files p)). name_ok n \<and> name_ok (shadow_name n) \<and> \<not> staging_name n \<and> stored c p n \<noteq> None" by blast
  have "distinct (db_files p)" using inv by (simp add: pool_inv_def db_files_def get_filenames_def)
  then show "distinct (live_names (db_files p))" by (rule distinct_live_names) (simp add: db_files_def)
  show "list_all utf8_valid (db_files p)" using dbs exportable_name(2) unfolding list_all_iff by metis
qed

section \<open>Both ways out of a rotation\<close>

text \<open>Closing connections leaves the stored files, the keys and the anchor as they are.\<close>

definition closes_well :: "('h, 'z) env_scheme \<Rightarrow> ('h \<Rightarrow> bytes) \<Rightarrow> 'h engine_close \<Rightarrow> bool" where
  "closes_well E c close \<longleftrightarrow> close_ok E c close \<and> (\<forall>n p. same_anchor p (close n p))"

lemma closed_anchor:
  assumes "closes_well E c close"
  shows "same_anchor p (fold close hs p)"
proof (induction hs arbitrary: p)
  case (Cons h hs)
  have "same_anchor p (close h p)" using assms by (simp add: closes_well_def)
  then show ?case using same_anchor_trans [OF _ Cons.IH [of "close h p"]] by simp
qed (simp add: same_anchor_def)

lemma rotate_dek_Inr:
  assumes "session s = Some (p, hs)" and "random_dek r = (Inr nk, r1)" and "rotate_dek_inner E close prf envelope r s = (Inr (new_env, code), s')"
    and "stage_rotation E nk (db_files (fold close hs p)) (envelope_generation envelope) (envelope_generation new_env) (fold close hs p) = (x, p1)"
  obtains r2 where "rotate_envelope E envelope nk prf r1 = (Inr (new_env, code), r2)" and "x = Inr ()"
    and "s' = s\<lparr>session := None, registered := None\<rparr>"
proof -
  obtain k where k: "open_with_prf E envelope prf = Inr k"
    using assms(1,3) by (auto simp: rotate_dek_inner_def split: sum.splits)
  obtain re r2 where re: "rotate_envelope E envelope nk prf r1 = (re, r2)" by fastforce
  have "\<exists>e. re = Inr e" using assms(1-3) k re by (cases re) (auto simp: rotate_dek_inner_def)
  then obtain env cd where e: "rotate_envelope E envelope nk prf r1 = (Inr (env, cd), r2)" using re by auto
  obtain y q where y: "stage_rotation E nk (db_files (fold close hs p)) (envelope_generation envelope) (envelope_generation env) (fold close hs p) = (y, q)"
    by fastforce
  have "y = Inr ()" using assms(1-3) k e y by (cases y) (auto simp: rotate_dek_inner_def Let_def)
  then have l: "st_then (session_lock_inner close (s\<lparr>session := Some (q, [])\<rparr>)) (\<lambda>_ s. (Inr (env, cd), s)) = (Inr (new_env, code), s')"
    using assms(1-3) k e y by (simp add: rotate_dek_inner_def Let_def)
  then have same: "env = new_env" "cd = code" by (auto simp: st_then_Inr_iff)
  obtain z p2 where "pause_vfs q = (z, p2)" by fastforce
  then have "s' = s\<lparr>session := None, registered := None\<rparr>" using l by (cases z) (auto simp: session_lock_inner_def)
  moreover have "x = Inr ()" using assms(4) y \<open>y = Inr ()\<close> same by simp
  ultimately show ?thesis using that e same by blast
qed

text \<open>What the staged vault is, as the next open finds it in the directory.\<close>

lemma staged_vault:
  assumes prims: "aead_ok E" "hash_ok E" and close: "closes_well E c close"
    and p: "pool_inv E c p" "sizes_ok (stored c p)" and dbs: "\<forall>n \<in> set (db_files p). \<exists>u bs m. exportable E c p n u bs m"
    and st: "stage_rotation E nk (db_files (fold close hs p)) og ng (fold close hs p) = (Inr (), p1)"
  obtains ds sealed plain where "set ds = set (db_files p)" and "distinct (live_names ds)"
    and "\<forall>n \<in> set (live_names ds). name_ok n \<and> n \<notin> shadow_name ` set (live_names ds) \<and> \<not> staging_name n \<and> stored c p n \<noteq> None"
    and "stored c p1 ROT_INTENT_NAME = Some sealed" and "open_bytes E (rotate_intent_key E nk) ROT_INTENT_AAD sealed = Inr plain"
    and "parse_rotation_intent plain = Inr (ds, snd (anchor_load E p))" and "pool_inv E c p1" and "sizes_ok (stored c p1)" and "same_anchor p p1"
    and "\<forall>n. \<not> staging_name n \<longrightarrow> stored c p1 n = stored c p n" and "\<forall>db \<in> set ds. staged_db E (dek p) nk (stored c p) (stored c p1) db"
proof -
  let ?p0 = "fold close hs p"
  have i: "pool_inv E c ?p0" "stored c ?p0 = stored c p" using close_all [of E c close p hs] close p(1) by (simp_all add: closes_well_def)
  have a: "same_anchor p ?p0" by (rule closed_anchor [OF close])
  then have dk: "dek ?p0 = dek p" by (simp add: same_anchor_def pool_keys_def)
  have ds: "set (db_files ?p0) = set (db_files p)" unfolding set_db_files [of _ c] i(2) by (rule refl)
  have x: "exportable E c ?p0 n u bs m" if "exportable E c p n u bs m" for n u bs m
    by (rule same_bytes_same_database [OF p(1) i(1) dk that]) (simp_all add: i(2))
  have dbs0: "\<forall>n \<in> set (db_files ?p0). \<exists>u bs m. exportable E c ?p0 n u bs m" using dbs x ds by blast
  note l = live_db_names [OF i(1) dbs0]
  have sh: "staging_name (shadow_name n)" for n by (simp add: staging_name_def)
  then have names: "\<forall>n \<in> set (live_names (db_files ?p0)). name_ok n \<and> n \<notin> shadow_name ` set (live_names (db_files ?p0)) \<and> \<not> staging_name n \<and> stored c p n \<noteq> None"
    using l(1) i(2) by auto
  have "\<forall>n \<in> set (live_names (db_files ?p0)). name_ok (shadow_name n) \<and> n \<notin> shadow_name ` set (live_names (db_files ?p0)) \<and> stored c ?p0 n \<noteq> None"
    using l(1) sh by auto
  moreover have "sizes_ok (stored c ?p0)" using p(2) i(2) by simp
  ultimately obtain sealed plain where s: "stored c p1 ROT_INTENT_NAME = Some sealed"
      "open_bytes E (rotate_intent_key E nk) ROT_INTENT_AAD sealed = Inr plain"
      "parse_rotation_intent plain = Inr (db_files ?p0, snd (anchor_load E ?p0))" "pool_inv E c p1" "sizes_ok (stored c p1)" "same_anchor ?p0 p1"
      "\<forall>n. n \<noteq> ROT_INTENT_NAME \<and> n \<notin> shadow_name ` set (live_names (db_files ?p0)) \<longrightarrow> stored c p1 n = stored c ?p0 n"
      "\<forall>db \<in> set (db_files ?p0). staged_db E (dek ?p0) nk (stored c ?p0) (stored c p1) db"
    using stage_rotation_effect [OF i(1) _ prims _ l(2,3) st] by blast
  have "\<forall>n. \<not> staging_name n \<longrightarrow> stored c p1 n = stored c p n" using s(7) sh i(2) by (auto simp: staging_name_def)
  then show ?thesis
    using that [OF ds l(2) names s(1,2) _ s(4,5) same_anchor_trans [OF a s(6)]] s(3,8) same_anchor_load [OF a, of E] i(2) dk by simp
qed

lemma idle_open:
  assumes "session s = None" and "registered s = None" and "open_with_prf E envelope prf = Inr k" and "install E False k dir None = Inr q"
    and "recover_rotation E q = (Inr x, q')"
  shows "session_open E close prf envelope [] dir s = (Inr (), s\<lparr>session := Some (q', []), registered := None\<rparr>)"
  using assms by (simp add: session_open_def session_begin_def session_lock_inner_def apply_peer_epoch_def)

lemma unused_anchor:
  assumes "unused_key E c p nk" and "aead_ok E" and "hash_ok E" and "pool_inv E c q" and "anchor_handle p = Some h" and "2 * PHYS_BLOCK \<le> length (c h)"
    and "anchor_handle q = Some h" and "anchor_crypto q = anchor_key E nk"
  shows "anchor_inv E c q" and "anchor_load E q = (0, [])"
proof -
  have none: "\<forall>k < 2. anchor_slot E (anchor_crypto q) (c h) k = None"
    using assms(1,5,8) by (simp add: unused_key_def anchor_bytes_def)
  have i: "sah_ok E c" "healthy q" using assms(4) by (simp_all add: pool_inv_def)
  have "key_ok (E, anchor_crypto q)" using assms(2,3,8) by (simp add: key_ok_def len_simps)
  then show "anchor_inv E c q" using i assms(6,7) none by (simp add: anchor_inv_def anchor_bytes_def parity_ok_def)
  have "newest fst (anchor_slot E (anchor_crypto q) (c h)) = None" using none by (simp add: newest_None)
  then show "anchor_load E q = (0, [])" using anchor_load_bytes [OF i(1) assms(7)] by simp
qed

text \<open>
  C11: A completed rotation loses nothing. After \<open>session_rotate_dek\<close> has returned the new envelope, with
  the vault locked and its handles back in the directory, the passkey opens a session with that
  envelope. The open finishes the swap: the pool runs under the fresh data key, every database is
  there with the same identifier, manifest and blocks, every other file is as it was, no staged file is
  left for any database, and the new anchor holds for each database values no lower than the old one's.
\<close>

theorem rotated_vault_opens:
  assumes prims: "aead_ok E" "hash_ok E" "argon_ok E" and close: "closes_well E c close"
    and live: "session s = Some (p, hs)" "pool_inv E c p" "sizes_ok (stored c p)" "anchor_inv E c p"
    and dbs: "\<forall>n \<in> set (db_files p). \<exists>u bs m. exportable E c p n u bs m"
    and key: "random_dek r = (Inr nk, r1)" "unused_key E c p nk" and gen: "gen_of envelope \<noteq> -1"
    and rot: "rotate_dek_inner E close prf envelope r s = (Inr (new_env, code), s')"
    and st: "stage_rotation E nk (db_files (fold close hs p)) (envelope_generation envelope) (envelope_generation new_env) (fold close hs p) = (x, p1)"
    and dir: "lists_pool E p1 dir" "rng_good (2 * length (snd (anchor_load E p))) (dir_draws dir)"
  shows "\<exists>q. session_open E close prf new_env [] dir s' = (Inr (), s'\<lparr>session := Some (q, []), registered := None\<rparr>)
    \<and> pool_inv E c q \<and> dek q = nk
    \<and> (\<forall>n \<in> set (db_files p). \<forall>u bs m. exportable E c p n u bs m \<longrightarrow> exportable E c q n u bs m)
    \<and> (\<forall>n. \<not> staging_name n \<longrightarrow> n \<notin> set (live_names (db_files p)) \<longrightarrow> stored c q n = stored c p n)
    \<and> stored c q ROT_INTENT_NAME = None \<and> (\<forall>n \<in> set (live_names (db_files p)). stored c q (shadow_name n) = None)
    \<and> (\<forall>e \<in> set (snd (anchor_load E p)). covered (snd (anchor_load E q)) e)"
proof -
  obtain r2 where re: "rotate_envelope E envelope nk prf r1 = (Inr (new_env, code), r2)" "x = Inr ()" "s' = s\<lparr>session := None, registered := None\<rparr>"
    by (rule rotate_dek_Inr [OF live(1) key(1) rot st])
  have op: "open_with_prf E new_env prf = Inr nk"
    using rotate_envelope_effect [OF prims random_dek_length [OF key(1)] re(1) gen] by blast
  note st' = st [unfolded re(2)]
  obtain ds sealed plain where v: "set ds = set (db_files p)" "distinct (live_names ds)"
      "\<forall>n \<in> set (live_names ds). name_ok n \<and> n \<notin> shadow_name ` set (live_names ds) \<and> \<not> staging_name n \<and> stored c p n \<noteq> None"
      "stored c p1 ROT_INTENT_NAME = Some sealed" "open_bytes E (rotate_intent_key E nk) ROT_INTENT_AAD sealed = Inr plain"
      "parse_rotation_intent plain = Inr (ds, snd (anchor_load E p))" "pool_inv E c p1" "sizes_ok (stored c p1)" "same_anchor p p1"
      "\<forall>n. \<not> staging_name n \<longrightarrow> stored c p1 n = stored c p n" "\<forall>db \<in> set ds. staged_db E (dek p) nk (stored c p) (stored c p1) db"
    by (rule staged_vault [OF prims(1,2) close live(2,3) dbs st'])
  have ln: "set (live_names ds) = set (live_names (db_files p))" using v(1) by (simp add: live_names_def)
  obtain h where h: "anchor_handle p = Some h" "2 * PHYS_BLOCK \<le> length (c h)" using live(4) by (auto simp: anchor_inv_def anchor_bytes_def)
  have h1: "anchor_handle p1 = Some h" using v(9) h(1) by (simp add: same_anchor_def)
  obtain q where q: "install E False nk dir None = Inr q" "pool_inv E c q" "stored c q = stored c p1" "dek q = nk"
      "anchor_handle q = Some h" "anchor_crypto q = anchor_key E nk" "p_rng q = dir_draws dir"
    by (rule pool_reopens [OF v(7) h1 h(2) dir(1), where k = nk])
  note a = unused_anchor [OF key(2) prims(1,2) q(2) h q(5,6)]
  have cap: "length (snd (anchor_load E p)) \<le> ANCHOR_CAP" "list_all entry_wf (snd (anchor_load E p))"
    using anchor_table_wf [of E p] by (simp_all add: anchor_wf_def)
  have room: "roll_room c (live_names ds) q" using v(3,10) by (auto simp: roll_room_def q(3))
  have small: "unat (fst (anchor_load E q)) + 2 * length (snd (anchor_load E p)) < 2 ^ 64" "length (snd (anchor_load E q)) + length (snd (anchor_load E p)) \<le> ANCHOR_CAP"
    using cap(1) by (simp_all add: a(2) manifest_sizes)
  obtain q' where q': "recover_rotation E q = (Inr (RolledForward (length ds) (length (snd (anchor_load E p)))), q')" "pool_inv E c q'"
      "stored c q' = (rolled (live_names ds) (stored c p1))(ROT_INTENT_NAME := None)" "\<forall>e \<in> set (snd (anchor_load E p)). covered (snd (anchor_load E q')) e"
    using rolls_forward [OF q(2) a(1) room _ _ _ v(6,2) _ cap(2) _ small, of sealed] v(3-5,8) dir(2) q(3,4,7) by auto
  have dk: "dek q' = nk" using keys_recover_rotation [of E q] q(4) q'(1) by (simp add: pool_keys_def)
  have db: "exportable E c q' n u bs m" if n: "n \<in> set (db_files p)" and x: "exportable E c p n u bs m" for n u bs m
  proof (rule resealed_exportable [OF prims(1,2) live(2) q'(2) x])
    have L: "n \<in> set (live_names ds)" "manifest_name n \<in> set (live_names ds)" using n v(1) by (auto simp: live_names_def)
    show sd: "staged_db E (dek p) (dek q') (stored c p) (stored c p1) n" using v(1,11) n dk by blast
    have "stored c p n \<noteq> None" "stored c p (manifest_name n) \<noteq> None" "\<not> staging_name n" "\<not> staging_name (manifest_name n)"
      using L by (simp_all add: v(3))
    then obtain out mo where "stored c p1 (shadow_name n) = Some out" "stored c p1 (shadow_name (manifest_name n)) = Some mo"
      using sd by (auto simp: staged_db_def)
    moreover have "n \<noteq> ROT_INTENT_NAME" "manifest_name n \<noteq> ROT_INTENT_NAME"
      using bspec [OF v(3) L(1)] bspec [OF v(3) L(2)] by (simp_all add: staging_name_def)
    ultimately show "stored c q' n = stored c p1 (shadow_name n)" "stored c q' (manifest_name n) = stored c p1 (shadow_name (manifest_name n))"
      using L by (simp_all add: q'(3) rolled_def)
  qed (use key(2) dk in simp)
  have other: "stored c q' n = stored c p n" if "\<not> staging_name n" "n \<notin> set (live_names ds)" for n
    using that v(10) by (auto simp: q'(3) rolled_def staging_name_def)
  have gone: "stored c q' ROT_INTENT_NAME = None" "\<forall>n \<in> set (live_names ds). stored c q' (shadow_name n) = None"
    using v(3) by (auto simp: q'(3) rolled_def staging_name_def)
  have "session_open E close prf new_env [] dir s' = (Inr (), s'\<lparr>session := Some (q', []), registered := None\<rparr>)"
    by (rule idle_open [OF _ _ op q(1) q'(1)]) (simp_all add: re(3))
  then show ?thesis using q'(2,4) dk db other gone unfolding ln
    by (intro exI [of _ q'] conjI allI ballI impI) simp_all
qed

text \<open>
  C12: A rotation whose new envelope never reached the page's storage is undone. The old envelope still
  opens the vault after \<open>session_rotate_dek\<close>: the open drops whatever was staged, the pool runs under
  the old data key with its anchor as it was, and holds every database and every other file unchanged.
\<close>

theorem unsaved_rotation_undone:
  assumes prims: "aead_ok E" "hash_ok E" and close: "closes_well E c close"
    and live: "session s = Some (p, hs)" "pool_inv E c p" "sizes_ok (stored c p)" "anchor_inv E c p"
    and dbs: "\<forall>n \<in> set (db_files p). \<exists>u bs m. exportable E c p n u bs m"
    and key: "random_dek r = (Inr nk, r1)" "open_with_prf E envelope prf = Inr (dek p)" "anchor_crypto p = anchor_key E (dek p)"
    and rot: "rotate_dek_inner E close prf envelope r s = (Inr (new_env, code), s')"
    and st: "stage_rotation E nk (db_files (fold close hs p)) (envelope_generation envelope) (envelope_generation new_env) (fold close hs p) = (x, p1)"
    and blind: "\<forall>sealed. stored c p1 ROT_INTENT_NAME = Some sealed \<longrightarrow> \<not> is_ok (open_bytes E (rotate_intent_key E (dek p)) ROT_INTENT_AAD sealed)"
    and dir: "lists_pool E p1 dir"
  shows "\<exists>q. session_open E close prf envelope [] dir s' = (Inr (), s'\<lparr>session := Some (q, []), registered := None\<rparr>)
    \<and> pool_inv E c q \<and> dek q = dek p \<and> anchor_load E q = anchor_load E p
    \<and> (\<forall>n u bs m. exportable E c p n u bs m \<longrightarrow> exportable E c q n u bs m)
    \<and> stored c q = (stored c p) |` {n. \<not> staging_name n}"
proof -
  obtain r2 where re: "rotate_envelope E envelope nk prf r1 = (Inr (new_env, code), r2)" "x = Inr ()" "s' = s\<lparr>session := None, registered := None\<rparr>"
    by (rule rotate_dek_Inr [OF live(1) key(1) rot st])
  note st' = st [unfolded re(2)]
  obtain sealed where v: "stored c p1 ROT_INTENT_NAME = Some sealed" "pool_inv E c p1" "same_anchor p p1"
      "\<forall>n. \<not> staging_name n \<longrightarrow> stored c p1 n = stored c p n"
    by (rule staged_vault [OF prims(1,2) close live(2,3) dbs st'])
  obtain h where h: "anchor_handle p = Some h" "2 * PHYS_BLOCK \<le> length (c h)" using live(4) by (auto simp: anchor_inv_def anchor_bytes_def)
  have h1: "anchor_handle p1 = Some h" using v(3) h(1) by (simp add: same_anchor_def)
  obtain q where q: "install E False (dek p) dir None = Inr q" "pool_inv E c q" "stored c q = stored c p1" "dek q = dek p"
      "anchor_handle q = Some h" "anchor_crypto q = anchor_key E (dek p)"
    by (rule pool_reopens [OF v(2) h1 h(2) dir, where k = "dek p"])
  obtain q' where q': "recover_rotation E q = (Inr RolledBack, q')" "pool_inv E c q'" "pool_rest q' = pool_rest q"
      "stored c q' = (stored c p1) |` {n. \<not> staging_name n}"
    using rolls_back [OF q(2)] v(1) blind q(3,4) by auto
  have st2: "stored c q' = (stored c p) |` {n. \<not> staging_name n}" unfolding q'(4) using v(4) by (auto simp: restrict_map_def)
  have dk: "dek q' = dek p" "anchor_handle q' = anchor_handle p" "anchor_crypto q' = anchor_crypto p"
    using q'(3) q(4-6) h(1) key(3) by (simp_all add: pool_rest_def)
  have al: "anchor_load E q' = anchor_load E p" using dk by (simp add: anchor_load_def cong: option.case_cong)
  have db: "exportable E c q' n u bs m" if x: "exportable E c p n u bs m" for n u bs m
  proof (rule same_bytes_same_database [OF live(2) q'(2) dk(1) x])
    obtain b where b: "valid_db_name b" "n = b @ ascii ''.db''" using x by (auto simp: exportable_def)
    show "stored c q' n = stored c p n" "stored c q' (manifest_name n) = stored c p (manifest_name n)"
      using db_shadow_ok(3,4) [OF b] by (simp_all add: st2 restrict_map_def)
  qed
  have "session_open E close prf envelope [] dir s' = (Inr (), s'\<lparr>session := Some (q', []), registered := None\<rparr>)"
    by (rule idle_open [OF _ _ key(2) q(1) q'(1)]) (simp_all add: re(3))
  then show ?thesis using q'(2) dk(1) al db st2
    by (intro exI [of _ q'] conjI allI impI) simp_all
qed

section \<open>A vault to rotate\<close>

text \<open>
  In the memory environment a block or record that opens under one key opens under no key of another
  byte sum, and zeros open under none.
\<close>

lemma mem_two_keys:
  assumes "sum_list k' \<noteq> sum_list k"
  shows "open_into mem_env k f u i b = Inr x \<Longrightarrow> \<not> is_ok (open_into mem_env k' f' u' i' b)"
    and "open_bytes mem_env k a sealed = Inr x \<Longrightarrow> \<not> is_ok (open_bytes mem_env k' a' sealed)"
  using assms by (auto simp: open_into_def open_bytes_def Let_def toy_tag_def is_ok_iff of_option_Inr_iff split: if_splits)

lemma mem_blank_anchor: "sum_list k \<noteq> 0 \<Longrightarrow> anchor_slot mem_env k (replicate (2 * PHYS_BLOCK) 0) j = None"
proof (cases "j * PHYS_BLOCK + PHYS_BLOCK > 2 * PHYS_BLOCK")
  case False
  assume s: "sum_list k \<noteq> 0"
  have t: "replicate 16 0 \<noteq> toy_tag k n a x" for n a x
    using s by (auto simp: toy_tag_def dest: arg_cong [where f = hd])
  then have o: "open_bytes mem_env k a (replicate PHYS_BLOCK 0) = Inl Open" for a
    by (simp add: open_bytes_def Let_def size_defs min_def)
  have "slice (j * PHYS_BLOCK) PHYS_BLOCK (replicate (2 * PHYS_BLOCK) 0) = (replicate PHYS_BLOCK 0 :: bytes)"
    using False unfolding slice_def by (simp only: drop_replicate take_replicate) (simp add: min_def PHYS_BLOCK_def BLOCK_SIZE_def)
  then show ?thesis by (simp add: anchor_slot_def o)
qed (simp add: anchor_slot_def)

abbreviation (input) old_dek :: bytes where "old_dek \<equiv> replicate 32 1"
abbreviation (input) new_dek :: bytes where "new_dek \<equiv> replicate 32 9"
abbreviation (input) rot_uuid :: bytes where "rot_uuid \<equiv> replicate 16 4"
abbreviation (input) rot_block :: bytes where "rot_block \<equiv> replicate BLOCK_SIZE 6"

lemma rot_sums:
  "sum_list (db_key mem_env new_dek u) \<noteq> sum_list (db_key mem_env old_dek u)"
  "sum_list (rotate_intent_key mem_env old_dek) \<noteq> sum_list (rotate_intent_key mem_env new_dek)"
  "sum_list (anchor_key mem_env new_dek) \<noteq> 0" "sum_list (anchor_key mem_env old_dek) \<noteq> 0"
  by (simp_all add: db_key_def rotate_intent_key_def anchor_key_def from_info_def toy_hash_def sum_list_replicate ascii_def)

definition rot_payload :: manifest_payload where
  "rot_payload = \<lparr>db_generation = 1, db_uuid = rot_uuid, merkle_root = replicate 32 2, prev_merkle_root = replicate 32 0, mp_files = []\<rparr>"

lemma rot_payload_ok: "payload_wf rot_payload" "length (mp_bytes rot_payload) = BLOCK_SIZE" "mp_decode (mp_bytes rot_payload) = Inr rot_payload"
proof -
  show w: "payload_wf rot_payload" by (simp add: payload_wf_def rot_payload_def)
  show "length (mp_bytes rot_payload) = BLOCK_SIZE" "mp_decode (mp_bytes rot_payload) = Inr rot_payload"
    using mp_bytes_slices(1) [OF w] mp_decode_bytes [OF w] by simp_all
qed

text \<open>Its manifest: the header, a slot of zeros, and the payload in the second slot.\<close>

definition rot_manifest :: "bytes \<Rightarrow> bytes" where
  "rot_manifest sealed = MANIFEST_MAGIC @ rot_uuid @ replicate 40 0 @ replicate PHYS_BLOCK 0 @ sealed"

lemma rot_manifest_parts:
  assumes "length sealed = PHYS_BLOCK"
  shows "length (rot_manifest sealed) = MANIFEST_HDR_LEN + 2 * PHYS_BLOCK" and "slice 0 8 (rot_manifest sealed) = MANIFEST_MAGIC"
    and "slice 8 16 (rot_manifest sealed) = rot_uuid" and "slice MANIFEST_HDR_LEN PHYS_BLOCK (rot_manifest sealed) = replicate PHYS_BLOCK 0"
    and "slice (MANIFEST_HDR_LEN + PHYS_BLOCK) PHYS_BLOCK (rot_manifest sealed) = sealed"
proof -
  have p: "length (MANIFEST_MAGIC @ rot_uuid @ replicate 40 0 @ replicate PHYS_BLOCK (0 :: byte)) = MANIFEST_HDR_LEN + PHYS_BLOCK"
    by (simp add: MANIFEST_MAGIC_def MANIFEST_HDR_LEN_def)
  have "rot_manifest sealed = (MANIFEST_MAGIC @ rot_uuid @ replicate 40 0 @ replicate PHYS_BLOCK 0) @ sealed" by (simp add: rot_manifest_def)
  then show "slice (MANIFEST_HDR_LEN + PHYS_BLOCK) PHYS_BLOCK (rot_manifest sealed) = sealed" using assms p by (simp add: slice_def)
qed (use assms in \<open>simp_all add: rot_manifest_def MANIFEST_MAGIC_def MANIFEST_HDR_LEN_def slice_def\<close>)

text \<open>A pool with that one database, three free files, a blank anchor and three draws.\<close>

definition rot_vault :: "bytes pool \<Rightarrow> bytes \<Rightarrow> bytes \<Rightarrow> bool" where
  "rot_vault p raw sealed \<longleftrightarrow> pool_inv mem_env (\<lambda>h. h) p \<and> stored (\<lambda>h. h) p = [a_db \<mapsto> raw, manifest_name a_db \<mapsto> rot_manifest sealed]
     \<and> length (available p) = 3 \<and> dek p = old_dek \<and> anchor_crypto p = anchor_key mem_env old_dek
     \<and> anchor_handle p = Some (replicate (2 * PHYS_BLOCK) 0) \<and> p_rng p = [Some (replicate 24 9), Some (replicate 24 8), Some (replicate 24 7)]
     \<and> open_files p = [] \<and> length raw = PHYS_BLOCK \<and> length sealed = PHYS_BLOCK
     \<and> open_into mem_env (db_key mem_env old_dek rot_uuid) (file_id_for mem_env a_db) rot_uuid 0 raw = Inr rot_block
     \<and> open_into mem_env (db_key mem_env old_dek rot_uuid) (file_id_for mem_env (manifest_name a_db)) rot_uuid 1 sealed = Inr (mp_bytes rot_payload)"

lemma rot_names: "name_ok a_db" "name_ok (manifest_name a_db)" "name_ok (shadow_name a_db)" "name_ok (shadow_name (manifest_name a_db))"
    "manifest_name a_db \<noteq> a_db"
  by (rule name_ok_ascii; auto simp: manifest_name_def shadow_name_def ROT_SHADOW_SUFFIX_def)+ (code_simp)

lemma rot_vault_ex:
  obtains p raw sealed where "rot_vault p raw sealed"
proof -
  let ?k = "db_key mem_env old_dek rot_uuid" and ?h = "\<lambda>h. h :: bytes"
  have k: "key_ok (mem_env, ?k)" by (simp add: key_ok_def len_simps)
  obtain raw where raw: "open_into mem_env ?k (file_id_for mem_env a_db) rot_uuid 0 raw = Inr rot_block" "length raw = PHYS_BLOCK"
    using block_box.seal_draw [OF k, of rot_block "[Some (replicate 24 1)]" "replicate 24 1" "[]" "(file_id_for mem_env a_db, rot_uuid, 0)"]
    by (auto simp: NONCE_LEN_def TAG_LEN_def PHYS_BLOCK_def)
  obtain sl where sl: "open_into mem_env ?k (file_id_for mem_env (manifest_name a_db)) rot_uuid 1 sl = Inr (mp_bytes rot_payload)" "length sl = PHYS_BLOCK"
    using block_box.seal_draw [OF k, of "mp_bytes rot_payload" "[Some (replicate 24 1)]" "replicate 24 1" "[]" "(file_id_for mem_env (manifest_name a_db), rot_uuid, 1)"]
    by (auto simp: NONCE_LEN_def TAG_LEN_def PHYS_BLOCK_def rot_payload_ok)
  let ?p0 = "anchor_pool\<lparr>available := replicate 5 free_file, anchor_crypto := anchor_key mem_env old_dek,
    p_rng := [Some (replicate 24 9), Some (replicate 24 8), Some (replicate 24 7)]\<rparr>"
  have i0: "pool_inv mem_env ?h ?p0"
    using mem_pool_inv by (simp add: anchor_pool_def mem_pool_def pool_inv_def healthy_def lookup_file_def)
  have s0: "stored ?h ?p0 = Map.empty" by (simp add: anchor_pool_def mem_pool_def stored_def lookup_file_def fun_eq_iff)
  obtain p1 where p1: "pool_inv mem_env ?h p1" "stored ?h p1 = [a_db \<mapsto> raw]" "length (available p1) = 4" "pool_rest p1 = pool_rest ?p0"
    using put_file_ex [OF i0 _ rot_names(1), of raw] raw(2) s0 by (auto simp: size_defs)
  have lm: "length (rot_manifest sl) < 2 ^ 31" using rot_manifest_parts(1) [OF sl(2)] by (simp add: size_defs MANIFEST_HDR_LEN_def)
  obtain p where p: "pool_inv mem_env ?h p" "stored ?h p = [a_db \<mapsto> raw, manifest_name a_db \<mapsto> rot_manifest sl]" "length (available p) = 3"
      "pool_rest p = pool_rest ?p0"
    using put_file_ex [OF p1(1) _ rot_names(2) lm] p1(2-4) rot_names(5) by auto
  have "rot_vault p raw sl" using p raw sl by (simp add: rot_vault_def pool_rest_def anchor_pool_def mem_pool_def)
  then show ?thesis by (rule that)
qed

lemma rot_vault_exportable:
  assumes v: "rot_vault p raw sealed"
  shows "exportable mem_env (\<lambda>h. h) p a_db rot_uuid [rot_block] rot_payload"
proof -
  let ?mn = "manifest_name a_db" and ?k = "db_key mem_env (dek p) rot_uuid"
  note d = v [unfolded rot_vault_def]
  have inv: "pool_inv mem_env (\<lambda>h. h) p" and dk: "dek p = old_dek" using d by simp_all
  have st: "stored (\<lambda>h. h) p a_db = Some raw" "stored (\<lambda>h. h) p ?mn = Some (rot_manifest sealed)" using d rot_names(5) by simp_all
  obtain f where f: "lookup_file p a_db = Some f" "drop HEADER_OFFSET_DATA (handle f) = raw" "HEADER_OFFSET_DATA \<le> length (handle f)"
    by (rule stored_Some [OF inv st(1)])
  obtain g where g: "lookup_file p ?mn = Some g" "drop HEADER_OFFSET_DATA (handle g) = rot_manifest sealed" "HEADER_OFFSET_DATA \<le> length (handle g)"
    by (rule stored_Some [OF inv st(2)])
  have fid: "f_file_id f = file_id_for mem_env a_db" using inv f(1) by (auto simp: pool_inv_def)
  have lf: "length (handle f) = HEADER_OFFSET_DATA + PHYS_BLOCK" using arg_cong [OF f(2), of length] f(3) d by simp
  have s0: "slice HEADER_OFFSET_DATA PHYS_BLOCK (handle f) = raw" using slice_region [of 0 PHYS_BLOCK "handle f"] f(2) d by (simp add: slice_def)
  have "holds mem_env (\<lambda>h. h) (dev_of p (f\<lparr>f_crypto := ?k, f_key_domain := rot_uuid\<rparr>)) (length [rot_block]) (\<lambda>k. [rot_block] ! k)"
    using lf s0 fid d by (simp add: holds_def dev_of_def open_block_def)
  then have od: "on_disk mem_env (\<lambda>h. h) p a_db rot_uuid [rot_block]" using f(1) by (auto simp: on_disk_def DEV_LIMIT_def BLOCK_SIZE_def)
  have ls: "length sealed = PHYS_BLOCK" using d by simp
  note m = rot_manifest_parts [OF ls]
  have lg: "length (handle g) = manifest_at 2" using arg_cong [OF g(2), of length] g(3) m(1) by (simp add: manifest_at_def)
  have z: "\<not> is_ok (open_into mem_env ?k (file_id_for mem_env ?mn) rot_uuid 0 (replicate PHYS_BLOCK 0))"
    using mem_blank_rejected [of "file_id_for mem_env ?mn" rot_uuid ?k] by (simp add: blank_rejected_def file_id_for_def FILE_ID_LEN_def)
  have sl: "slice (manifest_at k) PHYS_BLOCK (handle g) = slice (MANIFEST_HDR_LEN + k * PHYS_BLOCK) PHYS_BLOCK (rot_manifest sealed)" for k
    by (simp only: manifest_at_def add.assoc slice_region g(2))
  let ?s = "manifest_slot mem_env ?k (file_id_for mem_env ?mn) rot_uuid (handle g)"
  have s0: "?s 0 = None"
    using z sl [of 0] m(4) by (auto simp: manifest_slot_def is_ok_iff split: sum.split)
  have s1: "?s 1 = Some rot_payload"
    using sl [of 1] m(5) d lg rot_payload_ok(3) by (simp add: manifest_slot_def manifest_at_def rot_payload_def)
  have par: "parity_ok db_generation ?s" using s0 s1 by (auto simp: parity_ok_def less_2_cases_iff rot_payload_def slot_no_def)
  have "manifest_now mem_env (dek p) ?mn rot_uuid (handle g) = Some rot_payload"
    using s0 s1 by (simp add: manifest_now_def newest_cases)
  moreover have "manifest_uuid (handle g) = Some rot_uuid"
  proof -
    have "slice HEADER_OFFSET_DATA MANIFEST_HDR_LEN (handle g) = take MANIFEST_HDR_LEN (rot_manifest sealed)" by (simp add: slice_def g(2))
    then show ?thesis by (simp add: manifest_uuid_def rot_manifest_def MANIFEST_HDR_LEN_def MANIFEST_MAGIC_def slice_def)
  qed
  ultimately have mo: "manifest_ok mem_env (\<lambda>h. h) p a_db rot_uuid rot_payload" using g(1) lg par by (auto simp: manifest_ok_def)
  have "valid_db_name [97]" "a_db = [97] @ ascii ''.db''" by (simp_all add: valid_db_name_def ascii_def)
  then show ?thesis using od mo unfolding exportable_def by blast
qed

lemma one_name: "distinct xs \<Longrightarrow> set xs = {x} \<Longrightarrow> xs = [x]"
  by (cases xs; cases "tl xs") auto

lemma mem_import_room:
  assumes "pool_inv mem_env (\<lambda>h. h) r" and "Suc k \<le> length (available r)" and "name_ok n" and "HEADER_OFFSET_DATA + length b < 2 ^ 32"
  obtains q where "import_ciphertext_file mem_env n b r = (Inr (), q)" and "pool_inv mem_env (\<lambda>h. h) q" and "k \<le> length (available q)"
    and "pool_rest q = pool_rest r"
proof -
  have "available r \<noteq> []" using assms(2) by auto
  then show ?thesis using import_effect [OF assms(1) disjI1 assms(3,4)] that assms(2) by (fastforce split: if_splits)
qed

lemma rot_vault_stored:
  assumes "rot_vault p raw sealed"
  shows "stored (\<lambda>h. h) p a_db = Some raw" and "stored (\<lambda>h. h) p (manifest_name a_db) = Some (rot_manifest sealed)"
    and "set (db_files p) = {a_db}" and "db_files p = [a_db]" and "sizes_ok (stored (\<lambda>h. h) p)"
proof -
  note d = assms [unfolded rot_vault_def]
  show "stored (\<lambda>h. h) p a_db = Some raw" "stored (\<lambda>h. h) p (manifest_name a_db) = Some (rot_manifest sealed)" using d rot_names(5) by simp_all
  have e: "ends_with a_db (ascii ''.db'')" "\<not> ends_with (manifest_name a_db) (ascii ''.db'')" by code_simp+
  show s: "set (db_files p) = {a_db}" unfolding set_db_files [of p "\<lambda>h. h"] using d e by auto
  have "distinct (db_files p)" using d by (simp add: pool_inv_def db_files_def get_filenames_def)
  then show "db_files p = [a_db]" using s by (rule one_name)
  have "length (rot_manifest sealed) = MANIFEST_HDR_LEN + 2 * PHYS_BLOCK" using d by (intro rot_manifest_parts(1)) simp
  then show "sizes_ok (stored (\<lambda>h. h) p)" using d
    by (auto simp: sizes_ok_def size_defs MANIFEST_HDR_LEN_def HEADER_OFFSET_DATA_def split: if_splits)
qed

lemma rot_anchor:
  assumes "rot_vault p raw sealed"
  shows "anchor_inv mem_env (\<lambda>h. h) p" and "anchor_load mem_env p = (0, [])"
proof -
  note d = assms [unfolded rot_vault_def]
  have h: "anchor_handle p = Some (replicate (2 * PHYS_BLOCK) 0)" using d by simp
  have none: "anchor_slot mem_env (anchor_crypto p) (replicate (2 * PHYS_BLOCK) 0) k = None" for k
    using mem_blank_anchor [OF rot_sums(4)] d by simp
  have "healthy p" using d by (simp add: pool_inv_def)
  moreover have "key_ok (mem_env, anchor_crypto p)" using d by (simp add: key_ok_def len_simps)
  ultimately show "anchor_inv mem_env (\<lambda>h. h) p" using h none by (simp add: anchor_inv_def anchor_bytes_def parity_ok_def)
  have "newest fst (anchor_slot mem_env (anchor_crypto p) (replicate (2 * PHYS_BLOCK) 0)) = None" using none by (simp add: newest_None)
  then show "anchor_load mem_env p = (0, [])" using anchor_load_bytes [OF mem_env_ok h] by simp
qed

text \<open>A seal with a draw of 24 equal bytes.\<close>

lemma mem_seal:
  assumes "length plain = BLOCK_SIZE" and "x \<noteq> 0"
  obtains blk where "seal_into mem_env (db_key mem_env dk u) f u i plain (Some (replicate 24 x) # r) = (Inr blk, r)" and "length blk = PHYS_BLOCK"
  using block_box.seal_draw [of "(mem_env, db_key mem_env dk u)" plain "Some (replicate 24 x) # r" "replicate 24 x" r "(f, u, i)"] assms
  by (auto simp: NONCE_LEN_def TAG_LEN_def PHYS_BLOCK_def key_ok_def len_simps)

lemma rot_reseals:
  assumes v: "rot_vault p raw sealed"
  obtains out mo where "reseal_db_ciphertext mem_env a_db new_dek p = (Inr [(a_db, out), (manifest_name a_db, mo)], p\<lparr>p_rng := [Some (replicate 24 7)]\<rparr>)"
    and "length out = PHYS_BLOCK" and "length mo = MANIFEST_HDR_LEN + 2 * PHYS_BLOCK"
proof -
  let ?mn = "manifest_name a_db" and ?old = "db_key mem_env old_dek rot_uuid" and ?new = "db_key mem_env new_dek rot_uuid" and ?m = "rot_manifest sealed"
  note d = v [unfolded rot_vault_def] and st = rot_vault_stored [OF v]
  have inv: "pool_inv mem_env (\<lambda>h. h) p" and dk: "dek p = old_dek" and lr: "length raw = PHYS_BLOCK" using d by simp_all
  have x: "export_raw mem_env ?mn p = Inr ?m" "export_raw mem_env a_db p = Inr raw" "has_filename p a_db"
    using export_effect [OF inv] st(1,2) by (simp_all add: has_filename_stored [of _ _ "\<lambda>h. h"])
  have m: "length ?m = MANIFEST_HDR_LEN + 2 * PHYS_BLOCK" "slice 0 8 ?m = MANIFEST_MAGIC" "slice 8 16 ?m = rot_uuid"
      "slice MANIFEST_HDR_LEN PHYS_BLOCK ?m = replicate PHYS_BLOCK 0" "slice (MANIFEST_HDR_LEN + PHYS_BLOCK) PHYS_BLOCK ?m = sealed"
    using d by (auto intro: rot_manifest_parts)
  obtain out where out: "seal_into mem_env ?new (file_id_for mem_env a_db) rot_uuid 0 rot_block [Some (replicate 24 9), Some (replicate 24 8), Some (replicate 24 7)]
      = (Inr out, [Some (replicate 24 8), Some (replicate 24 7)])" "length out = PHYS_BLOCK"
    by (rule mem_seal [of rot_block 9]) simp_all
  have "length raw div PHYS_BLOCK = 1" unfolding lr by (simp add: size_defs)
  then have one: "[0..<length raw div PHYS_BLOCK] = [0]" by simp
  have "slice (0 * PHYS_BLOCK) PHYS_BLOCK raw = raw" by (simp add: slice_def lr)
  then have rb: "reseal_blocks mem_env ?old ?new (file_id_for mem_env a_db) rot_uuid raw [0] (p_rng p) = (Inr out, [Some (replicate 24 8), Some (replicate 24 7)])"
    using d out(1) by simp
  obtain sl where sl: "seal_into mem_env ?new (file_id_for mem_env ?mn) rot_uuid 1 (mp_bytes rot_payload) [Some (replicate 24 8), Some (replicate 24 7)]
      = (Inr sl, [Some (replicate 24 7)])" "length sl = PHYS_BLOCK"
    by (rule mem_seal [of "mp_bytes rot_payload" 8]) (simp_all add: rot_payload_ok)
  have z: "\<not> is_ok (open_into mem_env ?old (file_id_for mem_env ?mn) rot_uuid 0 (replicate PHYS_BLOCK 0))"
    using mem_blank_rejected [of "file_id_for mem_env ?mn" rot_uuid ?old] by (simp add: blank_rejected_def file_id_for_def FILE_ID_LEN_def)
  then obtain e where e: "open_into mem_env ?old (file_id_for mem_env ?mn) rot_uuid 0 (replicate PHYS_BLOCK 0) = Inl e"
    by (cases "open_into mem_env ?old (file_id_for mem_env ?mn) rot_uuid 0 (replicate PHYS_BLOCK 0)") auto
  let ?rs = "reseal_slots mem_env ?old ?new (file_id_for mem_env ?mn) rot_uuid ?m"
  have pos: "0 < PHYS_BLOCK" by (simp add: size_defs)
  have "?rs 2 r = (Inr [], r)" for r by (subst reseal_slots.simps) (simp add: m(1) pos Let_def)
  then have "?rs 1 [Some (replicate 24 8), Some (replicate 24 7)] = (Inr sl, [Some (replicate 24 7)])"
    using d sl(1) by (subst reseal_slots.simps) (simp add: m(1,5) Let_def numeral_2_eq_2)
  then have rs: "?rs 0 [Some (replicate 24 8), Some (replicate 24 7)] = (Inr (replicate PHYS_BLOCK 0 @ sl), [Some (replicate 24 7)])"
    using e by (subst reseal_slots.simps) (simp add: m(1,4) Let_def)
  have "reseal_db_ciphertext mem_env a_db new_dek p = (Inr [(a_db, out), (?mn, take MANIFEST_HDR_LEN ?m @ replicate PHYS_BLOCK 0 @ sl)], p\<lparr>p_rng := [Some (replicate 24 7)]\<rparr>)"
    using x m(1-3) one rb rs by (simp add: reseal_db_ciphertext_def Let_def dk MANIFEST_HDR_LEN_def)
  then show ?thesis using that out(2) sl(2) m(1) by simp
qed

lemma rot_stages:
  assumes v: "rot_vault p raw sealed"
  obtains p1 where "stage_rotation mem_env new_dek [a_db] og ng p = (Inr (), p1)" and "open_files p1 = []"
proof -
  let ?mn = "manifest_name a_db" and ?h = "\<lambda>h. h :: bytes"
  note d = v [unfolded rot_vault_def] and st = rot_vault_stored [OF v]
  obtain out mo where o: "reseal_db_ciphertext mem_env a_db new_dek p = (Inr [(a_db, out), (?mn, mo)], p\<lparr>p_rng := [Some (replicate 24 7)]\<rparr>)"
      "length out = PHYS_BLOCK" "length mo = MANIFEST_HDR_LEN + 2 * PHYS_BLOCK"
    by (rule rot_reseals [OF v])
  let ?p = "p\<lparr>p_rng := [Some (replicate 24 7)]\<rparr>"
  have i: "pool_inv mem_env ?h ?p" "length (available ?p) = 3" "open_files ?p = []" using d by simp_all
  have l: "HEADER_OFFSET_DATA + length out < 2 ^ 32" "HEADER_OFFSET_DATA + length mo < 2 ^ 32"
    using o(2,3) by (simp_all add: size_defs MANIFEST_HDR_LEN_def HEADER_OFFSET_DATA_def)
  obtain p1 where p1: "import_ciphertext_file mem_env (shadow_name a_db) out ?p = (Inr (), p1)" "pool_inv mem_env ?h p1" "2 \<le> length (available p1)" "pool_rest p1 = pool_rest ?p"
    by (rule mem_import_room [OF i(1) _ rot_names(3) l(1), of 2]) (use i(2) in simp)
  obtain p2 where p2: "import_ciphertext_file mem_env (shadow_name ?mn) mo p1 = (Inr (), p2)" "pool_inv mem_env ?h p2" "1 \<le> length (available p2)" "pool_rest p2 = pool_rest p1"
    by (rule mem_import_room [OF p1(2) _ rot_names(4) l(2), of 1]) (use p1(3) in simp)
  have s: "stage_dbs mem_env new_dek [a_db] p = (Inr (), p2)" using o(1) p1(1) p2(1) by simp
  have rest: "p_rng p2 = [Some (replicate 24 7)]" "anchor_load mem_env p2 = (0, [])" "open_files p2 = []"
  proof -
    have "pool_rest p2 = pool_rest ?p" using p1(4) p2(4) by simp
    then show "p_rng p2 = [Some (replicate 24 7)]" "open_files p2 = []" using i(3) by (simp_all add: pool_rest_def)
    have "same_anchor p p2" using \<open>pool_rest p2 = pool_rest ?p\<close> by (simp add: same_anchor_def pool_rest_def pool_keys_def)
    then show "anchor_load mem_env p2 = (0, [])" using same_anchor_load rot_anchor(2) [OF v] by metis
  qed
  have "utf8_valid a_db" by (rule utf8_valid_ascii) auto
  then obtain plain where pl: "encode_rotation_intent og ng [a_db] [] = Inr plain"
    using intent_roundtrip_eq [of "[a_db]" "[]" og ng] by (auto simp: intent_ok_def anchor_wf_def manifest_sizes)
  have lp: "length plain < 2 ^ 30" by (rule encode_intent_length [OF pl]) simp
  obtain sl where sl: "seal_bytes mem_env (rotate_intent_key mem_env new_dek) ROT_INTENT_AAD plain [Some (replicate 24 7)] = (Inr sl, [])" "length sl = length plain + 40"
    using bytes_box.seal_draw [of "(mem_env, rotate_intent_key mem_env new_dek)" plain "[Some (replicate 24 7)]" "replicate 24 7" "[]" ROT_INTENT_AAD] lp
    by (auto simp: NONCE_LEN_def TAG_LEN_def key_ok_def len_simps)
  have ls: "HEADER_OFFSET_DATA + length sl < 2 ^ 32" using lp sl(2) by (simp add: HEADER_OFFSET_DATA_def)
  have i2: "pool_inv mem_env ?h (p2\<lparr>p_rng := []\<rparr>)" "available (p2\<lparr>p_rng := []\<rparr>) \<noteq> []" using p2(2,3) by auto
  obtain p3 where p3: "import_ciphertext_file mem_env ROT_INTENT_NAME sl (p2\<lparr>p_rng := []\<rparr>) = (Inr (), p3)" "pool_rest p3 = pool_rest (p2\<lparr>p_rng := []\<rparr>)"
    using import_effect [OF i2(1) _ intent_name_ok ls] i2(2) by blast
  have "stage_rotation mem_env new_dek [a_db] og ng p = (Inr (), p3)" using s pl rest(1,2) sl(1) p3(1) by (simp add: stage_rotation_def)
  moreover have "open_files p3 = []" using p3(2) rest(3) by (simp add: pool_rest_def)
  ultimately show ?thesis by (rule that)
qed

text \<open>The calls on it: a session, its rotation by the passkey, the directory it leaves behind.\<close>

abbreviation (input) rot_draws :: rng where
  "rot_draws \<equiv> [Some (replicate 32 9), Some (replicate 16 1), Some (replicate 24 2), Some (replicate 16 3), Some (replicate 24 4)]"

definition left_dir :: "bytes pool \<Rightarrow> bytes directory" where
  "left_dir p = \<lparr>dir_anchor = anchor_handle p, dir_entries = map entry_of (map snd (files p) @ available p), dir_fresh = [],
     dir_rng = dir_rng ship_dir, dir_registers = True\<rparr>"

lemma left_dir_lists: "lists_pool mem_env p (left_dir p)"
proof -
  have "fst (rng_selftest (dir_rng ship_dir))" by (simp add: rng_selftest_def selftest_draw_def ship_dir_def)
  then show ?thesis unfolding lists_pool_def left_dir_def by (auto intro: exI [of _ "map snd (files p) @ available p"])
qed

lemma rot_random_dek: "random_dek rot_draws = (Inr new_dek, tl rot_draws)"
  by (simp add: random_dek_def env_draw_nonzero_def draw_nonzero_def DEK_LEN_def)

lemma rot_closes: "closes_well mem_env (\<lambda>h. h) (\<lambda>_ p. p)"
  by (simp add: closes_well_def close_ok_def same_anchor_def)

lemma rot_unused:
  assumes v: "rot_vault p raw sealed"
  shows "unused_key mem_env (\<lambda>h. h) p new_dek"
proof -
  note d = v [unfolded rot_vault_def]
  have a: "anchor_slot mem_env (anchor_key mem_env new_dek) (anchor_bytes (\<lambda>h. h) p) k = None" for k
    using d mem_blank_anchor [OF rot_sums(3)] by (simp add: anchor_bytes_def)
  have ls: "length sealed = PHYS_BLOCK" using d by simp
  note m = rot_manifest_parts [OF ls]
  have "\<not> is_ok (open_into mem_env (db_key mem_env new_dek (slice 8 16 x)) (file_id_for mem_env (manifest_name db)) (slice 8 16 x) (word_of_nat k)
              (slice (MANIFEST_HDR_LEN + k * PHYS_BLOCK) PHYS_BLOCK x))" if x: "stored (\<lambda>h. h) p (manifest_name db) = Some x" for db x k
  proof -
    have "manifest_name db \<noteq> a_db" by (auto simp: manifest_name_def dest!: arg_cong [where f = rev])
    then have e: "x = rot_manifest sealed" using x d by (auto split: if_splits)
    consider "k = 0" | "k = 1" | "2 \<le> k" by linarith
    then show ?thesis
    proof cases
      case 1
      then show ?thesis
        using mem_blank_rejected [of "file_id_for mem_env (manifest_name db)" rot_uuid "db_key mem_env new_dek rot_uuid"] m(3,4)
        by (simp add: e blank_rejected_def file_id_for_def FILE_ID_LEN_def)
    next
      case 2
      have "open_into mem_env (db_key mem_env old_dek rot_uuid) (file_id_for mem_env (manifest_name a_db)) rot_uuid 1 sealed = Inr (mp_bytes rot_payload)"
        using d by simp
      from mem_two_keys(1) [OF rot_sums(1) this] show ?thesis using 2 m(3,5) by (simp add: e)
    next
      case 3
      then have "MANIFEST_HDR_LEN + 2 * PHYS_BLOCK \<le> MANIFEST_HDR_LEN + k * PHYS_BLOCK" by simp
      then have "slice (MANIFEST_HDR_LEN + k * PHYS_BLOCK) PHYS_BLOCK x = []" using m(1) by (simp add: slice_def e)
      then show ?thesis by (simp add: open_into_def size_defs is_ok_iff)
    qed
  qed
  then show ?thesis using a by (auto simp: unused_key_def)
qed

lemma rot_rotates:
  assumes v: "rot_vault p raw sealed"
  obtains new_env code s' p1 where
    "rotate_dek_inner mem_env (\<lambda>_ p. p) [8] (shipped_envelope 7) rot_draws \<lparr>session = Some (p, []), registered = None\<rparr> = (Inr (new_env, code), s')"
    and "stage_rotation mem_env new_dek (db_files (fold (\<lambda>_ p. p) ([] :: str list) p)) (envelope_generation (shipped_envelope 7)) (envelope_generation new_env) (fold (\<lambda>_ p. p) ([] :: str list) p)
      = (Inr (), p1)" and "gen_of (shipped_envelope 7) \<noteq> -1"
proof -
  obtain new_env code where re: "rotate_envelope mem_env (shipped_envelope 7) new_dek [8] (tl rot_draws) = (Inr (new_env, code), [])"
    using rotate_envelope_succeeds [of mem_env new_dek "shipped_envelope 7" 3 "replicate 16 1" "replicate 16 3" "replicate 24 2" "replicate 24 4" "[8]"]
    by (auto simp: DEK_LEN_def ship_generation(2))
  have db: "db_files p = [a_db]" by (rule rot_vault_stored(4) [OF v])
  obtain p1 where st: "stage_rotation mem_env new_dek [a_db] (envelope_generation (shipped_envelope 7)) (envelope_generation new_env) p = (Inr (), p1)"
      and "open_files p1 = []"
    by (rule rot_stages [OF v])
  then have "pause_vfs p1 = (Inr (), p1) \<or> pause_vfs p1 = (Inr (), (release_access_handles p1)\<lparr>is_paused := True\<rparr>)" by (simp add: pause_vfs_def)
  then have rot: "\<exists>s'. rotate_dek_inner mem_env (\<lambda>_ p. p) [8] (shipped_envelope 7) rot_draws \<lparr>session = Some (p, []), registered = None\<rparr> = (Inr (new_env, code), s')"
    using re st rot_random_dek by (auto simp: rotate_dek_inner_def ship_opens Let_def db session_lock_inner_def)
  have "gen_of (shipped_envelope 7) \<noteq> -1"
    using env_blob_fields(3) [OF ship_env_ok(1,2), where P = mem_env and dek = "replicate 32 1"] by (simp add: ship_env_def)
  then show ?thesis using that rot st db by auto
qed

theorem rotated_vault_opens_witness:
  "\<exists>p new_env code s' dir q. exportable mem_env (\<lambda>h. h) p a_db rot_uuid [rot_block] rot_payload \<and> dek p = old_dek
    \<and> rotate_dek_inner mem_env (\<lambda>_ p. p) [8] (shipped_envelope 7) rot_draws \<lparr>session = Some (p, []), registered = None\<rparr> = (Inr (new_env, code), s')
    \<and> session_open mem_env (\<lambda>_ p. p) [8] new_env [] dir s' = (Inr (), s'\<lparr>session := Some (q, []), registered := None\<rparr>) \<and> dek q = new_dek
    \<and> exportable mem_env (\<lambda>h. h) q a_db rot_uuid [rot_block] rot_payload"
proof -
  obtain p raw sealed where v: "rot_vault p raw sealed" by (rule rot_vault_ex)
  note d = v [unfolded rot_vault_def] and x = rot_vault_exportable [OF v] and st = rot_vault_stored [OF v]
  obtain new_env code s' p1 where r: "rotate_dek_inner mem_env (\<lambda>_ p. p) [8] (shipped_envelope 7) rot_draws \<lparr>session = Some (p, []), registered = None\<rparr> = (Inr (new_env, code), s')"
      "stage_rotation mem_env new_dek (db_files (fold (\<lambda>_ p. p) ([] :: str list) p)) (envelope_generation (shipped_envelope 7)) (envelope_generation new_env) (fold (\<lambda>_ p. p) ([] :: str list) p)
      = (Inr (), p1)" "gen_of (shipped_envelope 7) \<noteq> -1"
    by (rule rot_rotates [OF v])
  have inv: "pool_inv mem_env (\<lambda>h. h) p" using d by simp
  have dbs: "\<forall>n \<in> set (db_files p). \<exists>u bs m. exportable mem_env (\<lambda>h. h) p n u bs m" using x st(4) by auto
  have g: "rng_good (2 * length (snd (anchor_load mem_env p))) (dir_draws (left_dir p1))" by (simp add: rot_anchor(2) [OF v])
  from rotated_vault_opens [OF _ _ _ rot_closes _ inv st(5) rot_anchor(1) [OF v] dbs rot_random_dek rot_unused [OF v] r(3,1,2) left_dir_lists g]
  obtain q where "session_open mem_env (\<lambda>_ p. p) [8] new_env [] (left_dir p1) s' = (Inr (), s'\<lparr>session := Some (q, []), registered := None\<rparr>)" "dek q = new_dek"
      "exportable mem_env (\<lambda>h. h) q a_db rot_uuid [rot_block] rot_payload"
    using x st(4) by auto
  then show ?thesis using x d r(1) by blast
qed

theorem unsaved_rotation_undone_witness:
  "\<exists>p new_env code s' dir q. exportable mem_env (\<lambda>h. h) p a_db rot_uuid [rot_block] rot_payload \<and> dek p = old_dek
    \<and> rotate_dek_inner mem_env (\<lambda>_ p. p) [8] (shipped_envelope 7) rot_draws \<lparr>session = Some (p, []), registered = None\<rparr> = (Inr (new_env, code), s')
    \<and> session_open mem_env (\<lambda>_ p. p) [8] (shipped_envelope 7) [] dir s' = (Inr (), s'\<lparr>session := Some (q, []), registered := None\<rparr>) \<and> dek q = old_dek
    \<and> exportable mem_env (\<lambda>h. h) q a_db rot_uuid [rot_block] rot_payload"
proof -
  obtain p raw sealed where v: "rot_vault p raw sealed" by (rule rot_vault_ex)
  note d = v [unfolded rot_vault_def] and x = rot_vault_exportable [OF v] and st = rot_vault_stored [OF v]
  obtain new_env code s' p1 where r: "rotate_dek_inner mem_env (\<lambda>_ p. p) [8] (shipped_envelope 7) rot_draws \<lparr>session = Some (p, []), registered = None\<rparr> = (Inr (new_env, code), s')"
      "stage_rotation mem_env new_dek (db_files (fold (\<lambda>_ p. p) ([] :: str list) p)) (envelope_generation (shipped_envelope 7)) (envelope_generation new_env) (fold (\<lambda>_ p. p) ([] :: str list) p)
      = (Inr (), p1)" "gen_of (shipped_envelope 7) \<noteq> -1"
    by (rule rot_rotates [OF v])
  have inv: "pool_inv mem_env (\<lambda>h. h) p" and dk: "dek p = old_dek" and ac: "anchor_crypto p = anchor_key mem_env (dek p)" using d by simp_all
  have dbs: "\<forall>n \<in> set (db_files p). \<exists>u bs m. exportable mem_env (\<lambda>h. h) p n u bs m" using x st(4) by auto
  obtain intent plain where i: "stored (\<lambda>h. h) p1 ROT_INTENT_NAME = Some intent" "open_bytes mem_env (rotate_intent_key mem_env new_dek) ROT_INTENT_AAD intent = Inr plain"
    using staged_vault [OF _ _ rot_closes inv st(5) dbs r(2)] by (metis mem_env_laws(1,2))
  have blind: "\<forall>sealed. stored (\<lambda>h. h) p1 ROT_INTENT_NAME = Some sealed \<longrightarrow> \<not> is_ok (open_bytes mem_env (rotate_intent_key mem_env (dek p)) ROT_INTENT_AAD sealed)"
    using mem_two_keys(2) [OF rot_sums(2) i(2)] i(1) dk by simp
  have op: "open_with_prf mem_env (shipped_envelope 7) [8] = Inr (dek p)" using ship_opens [of 7] dk by simp
  from unsaved_rotation_undone [OF _ _ rot_closes _ inv st(5) rot_anchor(1) [OF v] dbs rot_random_dek op ac r(1,2) blind left_dir_lists]
  obtain q where "session_open mem_env (\<lambda>_ p. p) [8] (shipped_envelope 7) [] (left_dir p1) s' = (Inr (), s'\<lparr>session := Some (q, []), registered := None\<rparr>)" "dek q = dek p"
      "exportable mem_env (\<lambda>h. h) q a_db rot_uuid [rot_block] rot_payload"
    using x by auto
  then show ?thesis using x dk r(1) by metis
qed

end
