(* ===== verification/Rig.thy ===== *)
theory Rig
  imports Anchor
begin

text \<open>
  The testing interface of \<open>crates/freehold/src/vfs.rs\<close> (feature \<open>testing-api\<close>): what a test rig, in the
  role of an attacker with write access to the storage or of a failing disk, does to the files and the
  anchor behind the back of the store, and the randomised self-test of the block device against a
  shadow byte array.
\<close>

section \<open>The attacker's hands\<close>

definition forget_logical :: "'h dev \<Rightarrow> 'h dev" where
  "forget_logical d = d\<lparr>d_file := (d_file d)\<lparr>logical_size := None\<rparr>\<rparr>"

definition import_raw :: "('h, 'z) env_scheme \<Rightarrow> str \<Rightarrow> bytes \<Rightarrow> 'h pool \<Rightarrow> ('h, unit) pool_result" where
  "import_raw E n b p =
     (case lookup_file p n of
        None \<Rightarrow> (Inl FileNotFound, p)
      | Some f \<Rightarrow>
        (case st_then (lift_vfs (phys_truncate E (length b) (dev_of p f))) (\<lambda>_ d.
              st_then (lift_vfs (phys_write E b 0 d)) (\<lambda>_ d.
              st_then (raw_flush E d) (\<lambda>_ d. (Inr (), forget_logical d)))) of
           (r, d) \<Rightarrow> (r, put_dev n d p)))"

definition manifest_generation :: "'h pool \<Rightarrow> str \<Rightarrow> u64 option" where
  "manifest_generation p db = map_option st_generation (map_of (dbs p) db)"

definition corrupt_anchor_slot :: "('h, 'z) env_scheme \<Rightarrow> nat \<Rightarrow> nat \<Rightarrow> 'h pool \<Rightarrow> ('h, unit) pool_result" where
  "corrupt_anchor_slot E slot len p =
     (case anchor_handle p of
        None \<Rightarrow> (Inl NoAnchor, p)
      | Some h \<Rightarrow>
        (case sah_write E h (slot * PHYS_BLOCK) (replicate len 0xFF) of (w, h) \<Rightarrow>
           let p = p\<lparr>anchor_handle := Some h\<rparr> in
           (case w of
              None \<Rightarrow> (Inl PWrite, p)
            | Some _ \<Rightarrow> (case sah_flush E h of (ok, h) \<Rightarrow>
                (if ok then Inr () else Inl PFlush, p\<lparr>anchor_handle := Some h\<rparr>)))))"

definition active_anchor_slot :: "('h, 'z) env_scheme \<Rightarrow> 'h pool \<Rightarrow> nat" where
  "active_anchor_slot E p = slot_no (fst (anchor_load E p))"

definition anchor_entries :: "('h, 'z) env_scheme \<Rightarrow> 'h pool \<Rightarrow> anchor_entry list" where
  "anchor_entries E p = snd (anchor_load E p)"

definition export_anchor_raw :: "('h, 'z) env_scheme \<Rightarrow> 'h pool \<Rightarrow> pool_error + bytes" where
  "export_anchor_raw E p =
     (case anchor_handle p of
        None \<Rightarrow> Inl NoAnchor
      | Some h \<Rightarrow>
        let sz = (case sah_size E h of Some s \<Rightarrow> s | None \<Rightarrow> 0); buf = replicate sz 0 in
        if sz > 0 then (case sah_read E h 0 sz of None \<Rightarrow> Inl PRead | Some data \<Rightarrow> Inr (put_at 0 data buf))
        else Inr buf)"

definition import_anchor_raw :: "('h, 'z) env_scheme \<Rightarrow> bytes \<Rightarrow> 'h pool \<Rightarrow> ('h, unit) pool_result" where
  "import_anchor_raw E b p =
     (case anchor_handle p of
        None \<Rightarrow> (Inl NoAnchor, p)
      | Some h \<Rightarrow>
        (case sah_truncate E h (length b) of (ok, h) \<Rightarrow>
           if \<not> ok then (Inl PTruncate, p\<lparr>anchor_handle := Some h\<rparr>)
           else (case (if b \<noteq> [] then sah_write E h 0 b else (Some 0, h)) of (w, h) \<Rightarrow>
             (case w of
                None \<Rightarrow> (Inl PWrite, p\<lparr>anchor_handle := Some h\<rparr>)
              | Some _ \<Rightarrow> (case sah_flush E h of (ok, h) \<Rightarrow>
                  (if ok then Inr () else Inl PFlush, p\<lparr>anchor_handle := Some h\<rparr>))))))"

text \<open>The fault injector: the next \<open>n\<close> physical writes land, then the power is gone; and back to life.\<close>

definition arm_fault :: "nat \<Rightarrow> 'h pool \<Rightarrow> 'h pool" where
  "arm_fault n p = p\<lparr>p_fault := arm n (p_fault p)\<rparr>"

definition pool_clear_fault :: "'h pool \<Rightarrow> 'h pool" where
  "pool_clear_fault p = p\<lparr>p_fault := clear_fault (p_fault p)\<rparr>"

section \<open>The self-test of the block device\<close>

text \<open>
  The test keeps a shadow of the scratch file, the state of its xorshift generator and two counters.
  A step draws an operation and its operands, runs it on the file and on the shadow, and compares.
\<close>

definition RIG_NAME :: str where "RIG_NAME = ascii ''__proptest__''"

datatype rig_error = RigVanished | RigVfs vfs_error | RigPool pool_error | RigRead nat | RigSize nat

record rig_state =
  rig_shadow :: bytes
  rig_seed :: u64
  rig_writes :: nat
  rig_cuts :: nat

definition xorshift :: "u64 \<Rightarrow> u64" where
  "xorshift s =
     (let s = s XOR push_bit 13 s;
          s = s XOR drop_bit 7 s
      in s XOR push_bit 17 s)"

definition with_file_of :: "str \<Rightarrow> ('h dev \<Rightarrow> (vfs_error + 'a) \<times> 'h dev) \<Rightarrow> 'h pool \<Rightarrow> (rig_error + 'a) \<times> 'h pool" where
  "with_file_of n op p =
     (case lookup_file p n of
        None \<Rightarrow> (Inl RigVanished, p)
      | Some f \<Rightarrow> (case op (dev_of p f) of (r, d) \<Rightarrow> (map_err RigVfs r, put_dev n d p)))"

text \<open>A write anywhere in the file or right behind it, with the low byte of the step's number.\<close>

definition rig_write :: "('h, 'z) env_scheme \<Rightarrow> nat \<Rightarrow> rig_state \<Rightarrow> 'h pool \<Rightarrow> (rig_error + rig_state) \<times> 'h pool" where
  "rig_write E i st p =
     (let sh = rig_shadow st;
          s1 = xorshift (rig_seed st); off = unat (s1 mod (word_of_nat (length sh) + 1));
          s2 = xorshift s1; len = 1 + unat (s2 mod 8192);
          byte = word_of_nat (i mod 256) :: byte
      in st_then (with_file_of RIG_NAME (dev_write E (replicate len byte) off) p) (\<lambda>_ p.
           let sh' = (if length sh < off + len then sh @ replicate (off + len - length sh) 0 else sh) in
           (Inr (st\<lparr>rig_shadow := take off sh' @ replicate len byte @ drop (off + len) sh', rig_seed := s2,
               rig_writes := rig_writes st + 1\<rparr>), p)))"

text \<open>A truncation that never grows the file.\<close>

definition rig_cut :: "('h, 'z) env_scheme \<Rightarrow> rig_state \<Rightarrow> 'h pool \<Rightarrow> (rig_error + rig_state) \<times> 'h pool" where
  "rig_cut E st p =
     (let sh = rig_shadow st;
          s1 = xorshift (rig_seed st); n = unat (s1 mod (word_of_nat (length sh) + 1))
      in st_then (with_file_of RIG_NAME (dev_truncate E n) p) (\<lambda>_ p.
           (Inr (st\<lparr>rig_shadow := take n sh, rig_seed := s1, rig_cuts := rig_cuts st + 1\<rparr>), p)))"

text \<open>A read, also past the end, compared byte by byte with the shadow, zero behind it.\<close>

definition rig_read :: "('h, 'z) env_scheme \<Rightarrow> rig_state \<Rightarrow> 'h pool \<Rightarrow> (rig_error + rig_state) \<times> 'h pool" where
  "rig_read E st p =
     (let sh = rig_shadow st;
          s1 = xorshift (rig_seed st); off = unat (s1 mod (word_of_nat (length sh) + 512));
          s2 = xorshift s1; len = 1 + unat (s2 mod 6000)
      in st_then (with_file_of RIG_NAME (\<lambda>d. (map_sum id fst (dev_read E (replicate len 0) off d), d)) p) (\<lambda>got p.
           case find (\<lambda>j. got ! j \<noteq> (if off + j < length sh then sh ! (off + j) else 0)) [0..<length got] of
             Some j \<Rightarrow> (Inl (RigRead (off + j)), p)
           | None \<Rightarrow> (Inr (st\<lparr>rig_seed := s2\<rparr>), p)))"

definition rig_step :: "('h, 'z) env_scheme \<Rightarrow> nat \<Rightarrow> rig_state \<Rightarrow> 'h pool \<Rightarrow> (rig_error + rig_state) \<times> 'h pool" where
  "rig_step E i st p =
     (let s = xorshift (rig_seed st); op = unat (s mod 4); st = st\<lparr>rig_seed := s\<rparr> in
      st_then (if op = 0 \<or> op = 1 then rig_write E i st p else if op = 2 then rig_cut E st p else rig_read E st p)
        (\<lambda>st p. st_then (with_file_of RIG_NAME (dev_size E) p)
          (\<lambda>n p. if n \<noteq> length (rig_shadow st) then (Inl (RigSize i), p) else (Inr st, p))))"

fun rig_loop :: "('h, 'z) env_scheme \<Rightarrow> nat list \<Rightarrow> rig_state \<Rightarrow> 'h pool \<Rightarrow> (rig_error + rig_state) \<times> 'h pool" where
  "rig_loop E [] st p = (Inr st, p)"
| "rig_loop E (i # ks) st p = st_then (rig_step E i st p) (\<lambda>st p. rig_loop E ks st p)"

text \<open>The numbers of the steps, the writes and the truncations, as the report has them.\<close>

definition proptest_blockdev :: "('h, 'z) env_scheme \<Rightarrow> nat \<Rightarrow> 'h pool \<Rightarrow> (rig_error + nat \<times> nat \<times> nat) \<times> 'h pool" where
  "proptest_blockdev E iters p =
     (let p = snd (delete_file E RIG_NAME p) in
      st_then (case with_new_file E RIG_NAME (SQLITE_OPEN_MAIN_DB E) (\<lambda>d. (Inr (), d)) p of (r, p) \<Rightarrow> (map_err RigPool r, p)) (\<lambda>_ p.
      st_then (rig_loop E [0..<iters] \<lparr>rig_shadow = [], rig_seed = 0x9E3779B97F4A7C15, rig_writes = 0, rig_cuts = 0\<rparr> p) (\<lambda>st p.
        (Inr (iters, rig_writes st, rig_cuts st), snd (delete_file E RIG_NAME p)))))"

section \<open>The self-test passes\<close>

lemma unat_mod_less: "n < 2 ^ 32 \<Longrightarrow> 0 < n \<Longrightarrow> unat (s mod word_of_nat n :: u64) < n"
proof -
  assume n: "n < 2 ^ 32" "0 < n"
  then have "unat (word_of_nat n :: u64) = n" by (simp add: unat_of_nat take_bit_eq_mod)
  then show ?thesis using n(2) by (simp add: unat_mod)
qed

lemma span_le: "len \<le> 8192 \<Longrightarrow> span off len \<le> 3"
  by (simp add: span_def BLOCK_SIZE_def)

lemma page_ok_constant: "page_ok d off (replicate len b)"
proof -
  have "\<not> starts_with (replicate len b) SQLITE_HEADER"
  proof
    assume "starts_with (replicate len b) SQLITE_HEADER"
    then obtain t where t: "replicate len b = SQLITE_HEADER @ t" by (auto simp: starts_with_iff)
    then have "set SQLITE_HEADER \<subseteq> {b}" by (metis Un_upper1 set_append set_replicate_conv_if subset_singleton_iff empty_subsetI order_trans)
    moreover have "83 \<in> set SQLITE_HEADER" "81 \<in> set SQLITE_HEADER" by (simp_all add: SQLITE_HEADER_def ascii_def)
    ultimately have "(83 :: byte) = 81" by blast
    then show False by simp
  qed
  then show ?thesis by (simp add: page_ok_def)
qed

text \<open>The scratch file holds the shadow and can seal \<open>m\<close> more blocks.\<close>

definition rig_holds :: "('h, 'z) env_scheme \<Rightarrow> ('h \<Rightarrow> bytes) \<Rightarrow> nat \<Rightarrow> bytes \<Rightarrow> 'h pool \<Rightarrow> bool" where
  "rig_holds E c m s p \<longleftrightarrow> (\<exists>f. lookup_file p RIG_NAME = Some f \<and> dev_holds E c m (dev_of p f) s)"

lemma dev_of_put_dev [simp]: "dev_of (put_dev n d p) (d_file d) = d"
  by (simp add: dev_of_def put_dev_def)

lemma rig_op:
  assumes "rig_holds E c m s p"
    and "\<And>d. dev_holds E c m d s \<Longrightarrow> \<exists>d'. op d = (Inr x, d') \<and> dev_holds E c m' d' s'"
  shows "\<exists>p'. with_file_of RIG_NAME op p = (Inr x, p') \<and> rig_holds E c m' s' p'"
proof -
  obtain f where f: "lookup_file p RIG_NAME = Some f" "dev_holds E c m (dev_of p f) s"
    using assms(1) by (auto simp: rig_holds_def)
  obtain d where d: "op (dev_of p f) = (Inr x, d)" "dev_holds E c m' d s'" using assms(2) [OF f(2)] by blast
  then show ?thesis using f(1) by (simp add: with_file_of_def rig_holds_def)
qed

lemma dev_holds_less: "dev_holds E c (m + n) d s \<Longrightarrow> dev_holds E c m d s"
proof -
  have "rng_good (m + n) r \<Longrightarrow> rng_good m r" for r by (induction n) (simp, metis add_Suc_right rng_good_Suc)
  then show "dev_holds E c (m + n) d s \<Longrightarrow> dev_holds E c m d s" by (simp add: dev_holds_def)
qed

lemma shadow_write:
  "off \<le> length s \<Longrightarrow> take off (if length s < off + length b then s @ replicate (off + length b - length s) 0 else s) @ b
     @ drop (off + length b) (if length s < off + length b then s @ replicate (off + length b - length s) 0 else s) = splice off b s"
  by (simp add: splice_def)

lemma rig_write_effect:
  assumes "rig_holds E c (m + 3) (rig_shadow st) p" and "length (rig_shadow st) + 8192 \<le> DEV_LIMIT - BLOCK_SIZE"
  shows "\<exists>st' p'. rig_write E i st p = (Inr st', p') \<and> rig_holds E c m (rig_shadow st') p'
    \<and> length (rig_shadow st') \<le> length (rig_shadow st) + 8192 \<and> rig_writes st' + rig_cuts st' = rig_writes st + rig_cuts st + 1"
proof -
  let ?sh = "rig_shadow st" and ?s1 = "xorshift (rig_seed st)"
  let ?off = "unat (?s1 mod (word_of_nat (length ?sh) + 1))" and ?len = "1 + unat (xorshift ?s1 mod 8192)"
  let ?buf = "replicate ?len (word_of_nat (i mod 256) :: byte)"
  have off: "?off \<le> length ?sh"
    using unat_mod_less [of "length ?sh + 1" ?s1] assms(2) by (simp add: DEV_LIMIT_def BLOCK_SIZE_def add.commute)
  have len: "?len \<le> 8192" using unat_mod_less [of 8192 "xorshift ?s1"] by simp
  obtain k where k: "m + 3 = span ?off (length ?buf) + m + k"
  proof -
    have "span ?off (length ?buf) + m + (3 - span ?off (length ?buf)) = m + 3"
      using span_le [OF len, of ?off] unfolding length_replicate by linarith
    then show ?thesis using that by metis
  qed
  have lim: "?off + length ?buf \<le> DEV_LIMIT - BLOCK_SIZE" using off len assms(2) by simp
  have w: "\<exists>d'. dev_write E ?buf ?off d = (Inr (), d') \<and> dev_holds E c m d' (splice ?off ?buf ?sh)"
    if d: "dev_holds E c (m + 3) d ?sh" for d
  proof (rule blockdev.writes [OF _ off lim _ page_ok_constant])
    show "dev_holds E c (span ?off (length ?buf) + m) d ?sh" using d unfolding k by (rule dev_holds_less)
  qed simp
  have "\<exists>p'. with_file_of RIG_NAME (dev_write E ?buf ?off) p = (Inr (), p') \<and> rig_holds E c m (splice ?off ?buf ?sh) p'"
    by (rule rig_op [OF assms(1)]) (rule w)
  then obtain p' where
    p': "with_file_of RIG_NAME (dev_write E ?buf ?off) p = (Inr (), p')" "rig_holds E c m (splice ?off ?buf ?sh) p'"
    by (elim exE conjE)
  have "length (splice ?off ?buf ?sh) \<le> length ?sh + 8192" using length_splice [OF off, of ?buf] off len by simp
  moreover have "rig_write E i st p = (Inr (st\<lparr>rig_shadow := splice ?off ?buf ?sh, rig_seed := xorshift ?s1, rig_writes := rig_writes st + 1\<rparr>), p')"
    unfolding rig_write_def Let_def p'(1) st_then.simps using shadow_write [OF off, of ?buf] unfolding length_replicate by (simp only:)
  ultimately show ?thesis using p'(2) by simp
qed

lemma rig_cut_effect:
  assumes "rig_holds E c (Suc m) (rig_shadow st) p" and "length (rig_shadow st) \<le> DEV_LIMIT - BLOCK_SIZE"
  shows "\<exists>st' p'. rig_cut E st p = (Inr st', p') \<and> rig_holds E c m (rig_shadow st') p'
    \<and> length (rig_shadow st') \<le> length (rig_shadow st) \<and> rig_writes st' + rig_cuts st' = rig_writes st + rig_cuts st + 1"
proof -
  let ?sh = "rig_shadow st" and ?s1 = "xorshift (rig_seed st)"
  let ?n = "unat (?s1 mod (word_of_nat (length ?sh) + 1))"
  have n: "?n \<le> length ?sh"
    using unat_mod_less [of "length ?sh + 1" ?s1] assms(2) by (simp add: DEV_LIMIT_def BLOCK_SIZE_def add.commute)
  have w: "\<exists>d'. dev_truncate E ?n d = (Inr (), d') \<and> dev_holds E c m d' (take ?n ?sh)"
    if "dev_holds E c (Suc m) d ?sh" for d
    by (rule blockdev.cuts [OF that n]) (use n assms(2) in linarith)
  have "\<exists>p'. with_file_of RIG_NAME (dev_truncate E ?n) p = (Inr (), p') \<and> rig_holds E c m (take ?n ?sh) p'"
    by (rule rig_op [OF assms(1)]) (rule w)
  then obtain p' where p': "with_file_of RIG_NAME (dev_truncate E ?n) p = (Inr (), p')" "rig_holds E c m (take ?n ?sh) p'"
    by (elim exE conjE)
  have "rig_cut E st p = (Inr (st\<lparr>rig_shadow := take ?n ?sh, rig_seed := ?s1, rig_cuts := rig_cuts st + 1\<rparr>), p')"
    unfolding rig_cut_def Let_def p'(1) st_then.simps ..
  then show ?thesis using p'(2) by simp
qed

lemma window_matches:
  "find (\<lambda>j. window s off len ! j \<noteq> (if off + j < length s then s ! (off + j) else 0)) [0..<length (window s off len)] = None"
  by (simp add: find_None_iff window_def padf_def)

lemma rig_read_effect:
  assumes "rig_holds E c m (rig_shadow st) p" and "length (rig_shadow st) + 8192 \<le> DEV_LIMIT"
  shows "\<exists>p'. rig_read E st p = (Inr (st\<lparr>rig_seed := xorshift (xorshift (rig_seed st))\<rparr>), p') \<and> rig_holds E c m (rig_shadow st) p'"
proof -
  let ?sh = "rig_shadow st" and ?s1 = "xorshift (rig_seed st)"
  let ?off = "unat (?s1 mod (word_of_nat (length ?sh) + 512))" and ?len = "1 + unat (xorshift ?s1 mod 6000)"
  let ?got = "window ?sh ?off ?len" and ?read = "\<lambda>d. (map_sum id fst (dev_read E (replicate ?len 0) ?off d), d)"
  have off: "?off < length ?sh + 512"
    using unat_mod_less [of "length ?sh + 512" ?s1] assms(2) by (simp add: DEV_LIMIT_def add.commute)
  have len: "?len \<le> 6000" using unat_mod_less [of 6000 "xorshift ?s1"] by simp
  have lim: "?off + length (replicate ?len (0 :: byte)) \<le> DEV_LIMIT" using off len assms(2) by simp
  have w: "\<exists>d'. ?read d = (Inr ?got, d') \<and> dev_holds E c m d' ?sh" if d: "dev_holds E c m d ?sh" for d
    using dev_read_repr [OF _ _ lim, of E c d ?sh] d by (simp add: dev_holds_def)
  have "\<exists>p'. with_file_of RIG_NAME ?read p = (Inr ?got, p') \<and> rig_holds E c m ?sh p'"
    by (rule rig_op [OF assms(1)]) (rule w)
  then obtain p' where p': "with_file_of RIG_NAME ?read p = (Inr ?got, p')" "rig_holds E c m ?sh p'" by (elim exE conjE)
  have "find (\<lambda>j. ?got ! j \<noteq> (if ?off + j < length ?sh then ?sh ! (?off + j) else 0)) [0..<length ?got] = None"
    by (rule window_matches)
  then show ?thesis using p' unfolding rig_read_def Let_def by simp
qed

lemma rig_step_effect:
  assumes "rig_holds E c (m + 3) (rig_shadow st) p" and "length (rig_shadow st) + 8192 \<le> DEV_LIMIT - BLOCK_SIZE"
  shows "\<exists>st' p'. rig_step E i st p = (Inr st', p') \<and> rig_holds E c m (rig_shadow st') p'
    \<and> length (rig_shadow st') \<le> length (rig_shadow st) + 8192 \<and> rig_writes st' + rig_cuts st' \<le> rig_writes st + rig_cuts st + 1"
proof -
  let ?s = "xorshift (rig_seed st)" and ?st = "st\<lparr>rig_seed := xorshift (rig_seed st)\<rparr>"
  let ?run = "if unat (?s mod 4) = 0 \<or> unat (?s mod 4) = 1 then rig_write E i ?st p
    else if unat (?s mod 4) = 2 then rig_cut E ?st p else rig_read E ?st p"
  have less: "rig_holds E c n s q" if "rig_holds E c (n + k) s q" for n k s and q :: "'a pool"
    using that dev_holds_less by (fastforce simp: rig_holds_def)
  have "\<exists>st' p'. ?run = (Inr st', p') \<and> rig_holds E c m (rig_shadow st') p'
      \<and> length (rig_shadow st') \<le> length (rig_shadow st) + 8192 \<and> rig_writes st' + rig_cuts st' \<le> rig_writes st + rig_cuts st + 1"
  proof -
    consider "unat (?s mod 4) = 0 \<or> unat (?s mod 4) = 1" | "unat (?s mod 4) = 2" | "unat (?s mod 4) \<notin> {0, 1, 2}" by blast
    then show ?thesis
    proof cases
      case 1
      then show ?thesis using rig_write_effect [of E c m ?st p i] assms by fastforce
    next
      case 2
      have "rig_holds E c (Suc m) (rig_shadow ?st) p" using less [of "Suc m" 2] assms(1) by (simp add: eval_nat_numeral)
      then show ?thesis using 2 rig_cut_effect [of E c m ?st p] assms(2) by fastforce
    next
      case 3
      have "rig_holds E c m (rig_shadow ?st) p" using less assms(1) by simp
      then show ?thesis using 3 rig_read_effect [of E c m ?st p] assms(2) by fastforce
    qed
  qed
  then obtain st' p' where r: "?run = (Inr st', p')" "rig_holds E c m (rig_shadow st') p'"
      "length (rig_shadow st') \<le> length (rig_shadow st) + 8192" "rig_writes st' + rig_cuts st' \<le> rig_writes st + rig_cuts st + 1"
    by blast
  obtain p2 where "with_file_of RIG_NAME (dev_size E) p' = (Inr (length (rig_shadow st')), p2)" "rig_holds E c m (rig_shadow st') p2"
    using rig_op [OF r(2), of "dev_size E"] blockdev.lens by blast
  then show ?thesis using r by (simp add: rig_step_def Let_def)
qed

lemma rig_loop_effect:
  assumes "rig_holds E c (3 * length ks + m) (rig_shadow st) p" and "length (rig_shadow st) + 8192 * length ks \<le> DEV_LIMIT - BLOCK_SIZE"
  shows "\<exists>st' p'. rig_loop E ks st p = (Inr st', p') \<and> rig_holds E c m (rig_shadow st') p'
    \<and> rig_writes st' + rig_cuts st' \<le> rig_writes st + rig_cuts st + length ks"
  using assms
proof (induction ks arbitrary: st p)
  case (Cons i ks)
  have "rig_holds E c (3 * length ks + m + 3) (rig_shadow st) p" using Cons.prems(1) by (simp add: algebra_simps)
  then obtain st1 p1 where s: "rig_step E i st p = (Inr st1, p1)" "rig_holds E c (3 * length ks + m) (rig_shadow st1) p1"
      "length (rig_shadow st1) \<le> length (rig_shadow st) + 8192" "rig_writes st1 + rig_cuts st1 \<le> rig_writes st + rig_cuts st + 1"
    using rig_step_effect [of E c "3 * length ks + m" st p i] Cons.prems(2) by auto
  have "length (rig_shadow st1) + 8192 * length ks \<le> DEV_LIMIT - BLOCK_SIZE" using s(3) Cons.prems(2) by simp
  from Cons.IH [OF s(2) this] s(1,4) show ?case by fastforce
qed simp

lemma new_file_crypto:
  "with_new_file E n fl (\<lambda>d. (Inr (), d)) p = (Inr (), p') \<Longrightarrow>
   \<exists>f. lookup_file p' n = Some f \<and> f_crypto f = f_crypto (last (available p))"
  by (auto simp: with_new_file_def Let_def dev_of_def split: if_splits prod.splits sum.splits)

lemma delete_file_gone: "\<not> has_filename (snd (delete_file E n p)) n"
proof (cases "lookup_file p n")
  case (Some f)
  obtain r h q where q: "set_associated_filename E (handle f) None 0 (p\<lparr>files := AList.delete n (files p)\<rparr>) = (r, h, q)"
    by (metis prod_cases3)
  then have "files q = AList.delete n (files p)"
    by (auto simp: set_associated_filename_def Let_def split: option.splits if_splits prod.splits)
  then show ?thesis using Some q by (simp add: delete_file_def has_filename_def lookup_file_def delete_conv')
qed (simp add: delete_file_def has_filename_def)

lemma rig_name_ok: "name_ok RIG_NAME"
  by (simp add: name_ok_def RIG_NAME_def) code_simp

text \<open>
  The self-test of the block device passes, on every pool with a free file and for any number of steps
  that keeps the scratch file below the bound of the device: no write, truncation or read of the
  drawn sequence fails, every byte read is that of the shadow or zero behind it, the size is exact
  after every step, and the scratch file is gone afterwards.
\<close>

theorem proptest_blockdev_passes:
  assumes "pool_inv E c p" and "aead_ok E" and "\<not> has_filename p RIG_NAME" and "available p \<noteq> []"
    and "length (c (handle (last (available p)))) = HEADER_OFFSET_DATA" and "length (f_crypto (last (available p))) = 32"
    and "rng_good (3 * iters) (p_rng p)" and "8192 * iters \<le> DEV_LIMIT - BLOCK_SIZE"
  shows "\<exists>w t p'. proptest_blockdev E iters p = (Inr (iters, w, t), p') \<and> w + t \<le> iters \<and> \<not> has_filename p' RIG_NAME"
proof -
  have fl: "flags_persist E (SQLITE_OPEN_MAIN_DB E)" using assms(1) by (intro flags_persist_main) (simp add: pool_inv_def)
  obtain f q where w0: "with_new_file E RIG_NAME (SQLITE_OPEN_MAIN_DB E) (\<lambda>d. (Inr (), d)) p
        = (case (Inr (), dev_of q f) of (r, d) \<Rightarrow> (r, put_dev RIG_NAME d q))"
      and ok: "handle_ok E c (Some RIG_NAME) (handle f)" and q: "healthy q" "pool_rest q = pool_rest p" "logical_size f = Some 0"
      and d: "drop HEADER_OFFSET_DATA (c (handle f)) = drop HEADER_OFFSET_DATA (c (handle (last (available p))))"
    by (rule with_new_file_effect [OF assms(1,4,3) rig_name_ok fl, where op = "\<lambda>d. (Inr (), d)"], rule that) assumption+
  note w = w0 [unfolded prod.case]
  have cr: "length (f_crypto f) = 32" using new_file_crypto [OF w] assms(6) by (simp add: dev_of_def)
  have "length (c (handle f)) = HEADER_OFFSET_DATA"
    using ok d assms(5) by (simp add: handle_ok_def)
  then have "dev_holds E c (3 * iters) (dev_of q f) []"
    using q cr assms(1,2,7) by (simp add: dev_holds_def dev_ok_def alive_def dev_repr_def holds_def dev_of_def healthy_def
        nblk_def BLOCK_SIZE_def pool_rest_def pool_inv_def)
  then have "rig_holds E c (3 * length [0..<iters] + 0) [] (put_dev RIG_NAME (dev_of q f) q)"
    by (simp add: rig_holds_def)
  then obtain st p1 where l: "rig_loop E [0..<iters] \<lparr>rig_shadow = [], rig_seed = 0x9E3779B97F4A7C15, rig_writes = 0, rig_cuts = 0\<rparr>
        (put_dev RIG_NAME (dev_of q f) q) = (Inr st, p1)" "rig_writes st + rig_cuts st \<le> iters"
    using rig_loop_effect [where st = "\<lparr>rig_shadow = [], rig_seed = 0x9E3779B97F4A7C15, rig_writes = 0, rig_cuts = 0\<rparr>"
        and ks = "[0..<iters]" and m = 0 and E = E and c = c] assms(8) by fastforce
  have "snd (delete_file E RIG_NAME p) = p" using assms(3) by (simp add: delete_file_def has_filename_def)
  moreover have "\<not> has_filename (snd (delete_file E RIG_NAME p1)) RIG_NAME" by (rule delete_file_gone)
  ultimately show ?thesis using w l by (simp add: proptest_blockdev_def Let_def)
qed

definition rig_pool :: "bytes pool" where
  "rig_pool = mem_pool\<lparr>available := [free_file\<lparr>f_crypto := replicate 32 2\<rparr>], p_rng := [Some nonce, Some nonce, Some nonce]\<rparr>"

theorem proptest_blockdev_passes_witness:
  "\<exists>w t p'. proptest_blockdev mem_env 1 rig_pool = (Inr (1, w, t), p') \<and> w + t \<le> 1 \<and> \<not> has_filename p' RIG_NAME"
proof (rule proptest_blockdev_passes [where c = "\<lambda>h. h"])
  show "pool_inv mem_env (\<lambda>h. h) rig_pool"
    using mem_pool_inv by (simp add: pool_inv_def rig_pool_def mem_pool_def lookup_file_def healthy_def)
  have "rng_good (Suc (Suc (Suc 0))) (p_rng rig_pool)"
    by (simp add: rig_pool_def draw_nonzero_def nonce_def NONCE_LEN_def)
  then show "rng_good (3 * 1) (p_rng rig_pool)" by (simp only: numeral_3_eq_3 mult_1_right)
  have "length (header_of [] 0) = HEADER_CORPUS_SIZE" by (rule length_header_of) simp
  then show "length (handle (last (available rig_pool))) = HEADER_OFFSET_DATA"
    by (simp add: rig_pool_def free_file_def header_sizes)
qed (simp_all add: rig_pool_def mem_pool_def has_filename_def lookup_file_def DEV_LIMIT_def BLOCK_SIZE_def)

section \<open>Snapshots of the anchor\<close>

lemma import_anchor_raw_effect:
  assumes S: "sah_ok E c" and h: "anchor_handle p = Some h"
  shows "\<exists>h'. import_anchor_raw E b p = (Inr (), p\<lparr>anchor_handle := Some h'\<rparr>) \<and> c h' = b"
proof -
  obtain ok h1 where t: "sah_truncate E h (length b) = (ok, h1)" by fastforce
  have t': "ok" "c h1 = resize (length b) (c h)" using sah_okD(5,6) [OF S, of h "length b"] t by simp_all
  obtain w h2 where w: "(if b \<noteq> [] then sah_write E h1 0 b else (Some 0, h1)) = (w, h2)" by fastforce
  have w': "(\<exists>n. w = Some n) \<and> c h2 = b"
  proof (cases "b = []")
    case True
    then show ?thesis using w t'(2) by (auto simp: resize_def)
  next
    case False
    then have "sah_write E h1 0 b = (w, h2)" using w by simp
    then show ?thesis using sah_okD(3,4) [OF S, of h1 0 b] t'(2) by (simp add: blit_def resize_def)
  qed
  obtain o3 h3 where f: "sah_flush E h2 = (o3, h3)" by fastforce
  have "o3" "c h3 = b" using sah_okD(7,8) [OF S, of h2] f w' by simp_all
  then show ?thesis using h t t'(1) w w' f by (auto simp: import_anchor_raw_def)
qed

lemma export_anchor_raw_effect: "sah_ok E c \<Longrightarrow> anchor_handle p = Some h \<Longrightarrow> export_anchor_raw E p = Inr (c h)"
  by (cases "c h = []") (auto simp: export_anchor_raw_def Let_def slice_def put_at_def)

text \<open>
  A snapshot of the anchor file restores exactly what it showed. Whatever was recorded in between,
  writing an exported anchor back under the same key makes the anchor load the sequence number and
  the entries of the moment of the export: an attacker who can replay the anchor together with the
  files is not noticed from the storage alone, which is what the peers' epoch tokens are for.
\<close>

theorem anchor_snapshot_restores:
  assumes "sah_ok E c" and "export_anchor_raw E p = Inr b" and "anchor_handle q \<noteq> None" and "anchor_crypto q = anchor_crypto p"
  shows "\<exists>q'. import_anchor_raw E b q = (Inr (), q') \<and> anchor_load E q' = anchor_load E p
    \<and> anchor_entries E q' = anchor_entries E p \<and> active_anchor_slot E q' = active_anchor_slot E p
    \<and> export_anchor_raw E q' = Inr b \<and> files q' = files q"
proof -
  obtain h where h: "anchor_handle p = Some h" using assms(2) by (cases "anchor_handle p") (simp_all add: export_anchor_raw_def)
  have b: "b = c h" using export_anchor_raw_effect [OF assms(1) h] assms(2) by simp
  obtain hq where hq: "anchor_handle q = Some hq" using assms(3) by blast
  obtain h' where h': "import_anchor_raw E b q = (Inr (), q\<lparr>anchor_handle := Some h'\<rparr>)" "c h' = b"
    using import_anchor_raw_effect [OF assms(1) hq] by blast
  let ?q = "q\<lparr>anchor_handle := Some h'\<rparr>"
  have l: "anchor_load E ?q = anchor_load E p"
    using anchor_load_bytes [OF assms(1) h] anchor_load_bytes [OF assms(1), of ?q h'] h'(2) b assms(4) by simp
  then show ?thesis using h' export_anchor_raw_effect [OF assms(1), of ?q h']
    by (simp add: anchor_entries_def active_anchor_slot_def)
qed

theorem anchor_snapshot_restores_witness:
  "\<exists>b p' q'. export_anchor_raw mem_env anchor_pool = Inr b
     \<and> anchor_record_full mem_env (replicate 16 1) (Some 5) None (Some 7) anchor_pool = (Inr (), p')
     \<and> import_anchor_raw mem_env b p' = (Inr (), q') \<and> anchor_entries mem_env p' \<noteq> [] \<and> anchor_entries mem_env q' = []"
proof -
  have u: "upsert_entry (replicate 16 1) (Some 5) None (Some 7) (snd (anchor_load mem_env anchor_pool))
      = Some [\<lparr>uuid = replicate 16 1, committed = 5, in_flight = 0, epoch_floor = 7\<rparr>]"
    by (simp add: anchor_pool_load upsert_entry_def or_zero_def manifest_sizes)
  have g: "rng_good (Suc (Suc 0)) (p_rng anchor_pool)" using anchor_pool_rng by (simp add: numeral_2_eq_2)
  have w: "fst (anchor_load mem_env anchor_pool) < fst (anchor_load mem_env anchor_pool) + 1"
      "fst (anchor_load mem_env anchor_pool) + 1 < fst (anchor_load mem_env anchor_pool) + 2"
    by (simp_all add: anchor_pool_load)
  have l: "length (replicate 16 (1 :: byte)) = 16" by simp
  from anchor_record_full_effect [OF anchor_pool_inv l g w u] obtain h q where
    r: "anchor_record_full mem_env (replicate 16 1) (Some 5) None (Some 7) anchor_pool = (Inr (), anchor_pool\<lparr>p_rng := q, anchor_handle := Some h\<rparr>)"
      "anchor_load mem_env (anchor_pool\<lparr>p_rng := q, anchor_handle := Some h\<rparr>)
        = (fst (anchor_load mem_env anchor_pool) + (if Some (7 :: u64) = None then 1 else 2), [\<lparr>uuid = replicate 16 1, committed = 5, in_flight = 0, epoch_floor = 7\<rparr>])"
    by (elim exE conjE) (rule that)
  let ?p = "anchor_pool\<lparr>p_rng := q, anchor_handle := Some h\<rparr>"
  have x: "export_anchor_raw mem_env anchor_pool = Inr (anchor_bytes (\<lambda>h. h) anchor_pool)"
    using export_anchor_raw_effect [of mem_env "\<lambda>h. h" anchor_pool] anchor_pool_inv
    by (auto simp: anchor_inv_def anchor_bytes_def)
  obtain q' where "import_anchor_raw mem_env (anchor_bytes (\<lambda>h. h) anchor_pool) ?p = (Inr (), q')"
      "anchor_entries mem_env q' = anchor_entries mem_env anchor_pool"
    using anchor_snapshot_restores [OF mem_env_ok x, of ?p] by auto
  then show ?thesis using x r anchor_pool_load by (intro exI conjI) (assumption | simp add: anchor_entries_def)+
qed

end
