(* ===== verification/Bounds.thy ===== *)
theory Bounds
  imports Lifecycle
begin

text \<open>
  The table of lengths in a manifest has room for \<open>MAX_ENTRIES\<close> files, and the encoder of
  \<open>crates/freehold/src/manifest.rs\<close> indexes past its block, which aborts the program, when it is given
  more. The commit of \<open>crates/freehold/src/vfs.rs\<close> never gives it more, whatever the storage, the random
  source and the fault gate do: a database is tracked with its journal and its WAL only.
\<close>

section \<open>The bound on the table\<close>

lemma max_entries: "MAX_ENTRIES = 166"
  by (simp add: MAX_ENTRIES_def manifest_sizes)

lemma length_file_id: "hash_ok E \<Longrightarrow> length (file_id_for E n) = FILE_ID_LEN"
  by (simp add: file_id_for_def hash_ok_def FILE_ID_LEN_def)

lemma table_bounded:
  "hash_ok E \<Longrightarrow> length_table E ns p = (Inr t, p') \<Longrightarrow>
   length t \<le> length ns \<and> list_all (\<lambda>e. length (fst e) = FILE_ID_LEN) t"
proof (induction E ns p arbitrary: t p' rule: length_table.induct)
  case (2 E n ns p)
  then show ?case
    by (fastforce simp: length_file_id st_then_Inr_iff Let_def split: option.splits prod.splits sum.splits)
qed simp

section \<open>What the steps of a commit answer\<close>

definition no_panic :: "('h, 'a) pool_result \<Rightarrow> bool" where
  "no_panic r \<longleftrightarrow> fst r \<noteq> Inl ManifestPanic"

lemma no_panic_simps [simp]: "no_panic (Inr x, p)" "no_panic (Inl e, p) \<longleftrightarrow> e \<noteq> ManifestPanic"
  by (simp_all add: no_panic_def)

lemma no_panic_then [intro]:
  "no_panic m \<Longrightarrow> (\<And>x p. m = (Inr x, p) \<Longrightarrow> no_panic (f x p)) \<Longrightarrow> no_panic (st_then m f)"
  by (cases m; cases "fst m") auto

lemma map_err_Inl_iff [simp]: "map_err g r = Inl e \<longleftrightarrow> (\<exists>x. r = Inl x \<and> e = g x)"
  by (cases r) auto

lemma anchor_save_quiet: "no_panic (anchor_save E seq es p) \<and> files (snd (anchor_save E seq es p)) = files p \<and> dbs (snd (anchor_save E seq es p)) = dbs p"
  by (simp add: anchor_save_def Let_def split: option.split prod.split sum.split)

lemma anchor_record_quiet:
  "no_panic (anchor_record E u co infl p)" "anchor_record E u co infl p = (r, q) \<Longrightarrow> files q = files p \<and> dbs q = dbs p"
  using anchor_save_quiet [of E _ _ p]
  by (auto simp: anchor_record_def anchor_record_full_def split: option.splits prod.splits) (metis snd_conv)+

lemma put_dev_names: "distinct (map fst (files p)) \<Longrightarrow> distinct (map fst (files (put_dev n d p)))"
  by (simp add: put_dev_def)

lemma put_dev_dbs [simp]: "dbs (put_dev n d p) = dbs p"
  by (simp add: put_dev_def put_file_def)

lemma root_blocks_quiet: "root_blocks E d ks s \<noteq> Inl ManifestPanic"
  by (induction E d ks s rule: root_blocks.induct) (auto simp: try_then_Inl_iff)

lemma full_state_root_quiet:
  "no_panic (full_state_root E name p)"
  "full_state_root E name p = (Inr root, q) \<Longrightarrow> hash_ok E \<Longrightarrow> length root = 32"
  "full_state_root E name p = (r, q) \<Longrightarrow> distinct (map fst (files p)) \<Longrightarrow> distinct (map fst (files q)) \<and> dbs q = dbs p"
  using root_blocks_quiet
  by (auto simp: full_state_root_def no_panic_def try_then_Inl_iff try_then_Inr_iff Let_def put_dev_names fsr_finish_def hash_ok_def
      split: option.splits prod.splits)

lemma length_table_quiet: "no_panic (length_table E ns p)"
proof (induction E ns p rule: length_table.induct)
  case (2 E n ns p)
  then show ?case
    by (auto simp: Let_def split: option.split prod.split sum.split)
qed simp

lemma write_slot_quiet:
  assumes "payload_wf m"
  shows "fst (write_manifest_slot E k mn m d) \<noteq> Inl ManifestPanic"
proof -
  have "fst (st_then (lift_vfs w) (\<lambda>_ d. raw_flush E d)) \<noteq> Inl ManifestPanic" for w :: "('a, unit) dev_result"
    by (cases w; cases "fst w") (auto simp: lift_vfs_def raw_flush_def split: prod.split)
  then show ?thesis
    by (simp add: write_manifest_slot_def mp_encode_eq [OF assms] Let_def split: prod.split sum.split)
qed

lemma seal_slot_quiet: "payload_wf m \<Longrightarrow> no_panic (seal_slot E name st m p)"
  using write_slot_quiet [of m E]
  by (auto simp: seal_slot_def no_panic_def split: option.split prod.split) (metis fst_conv)

text \<open>The state of the open databases that the barrier reads: identifiers and roots of their width.\<close>

definition states_typed :: "'h pool \<Rightarrow> bool" where
  "states_typed p \<longleftrightarrow> distinct (map fst (files p))
     \<and> (\<forall>n st. map_of (dbs p) n = Some st \<longrightarrow> length (st_uuid st) = 16 \<and> length (st_root st) = 32)"

lemma commit_quiet:
  assumes E: "hash_ok E" and s: "states_typed p"
  shows "no_panic (on_main_synced E name p)"
proof (cases "map_of (dbs p) name")
  case (Some st)
  have st: "length (st_uuid st) = 16" "length (st_root st) = 32" using s Some by (auto simp: states_typed_def)
  have w: "payload_wf \<lparr>db_generation = g, db_uuid = st_uuid st, merkle_root = root, prev_merkle_root = st_root st, mp_files = t\<rparr>"
    if "full_state_root E name p1 = (Inr root, p2)" "length_table E (tracked_files name p2) p2 = (Inr t, p3)"
      "anchor_record E u co infl p = (r, p1)" for g root t u co infl r p1 p2 p3
  proof -
    have "distinct (map fst (files p1))" using anchor_record_quiet(2) [OF that(3)] s by (simp add: states_typed_def)
    then have "distinct (map fst (files p2))" using full_state_root_quiet(3) [OF that(1)] by blast
    then have "length (tracked_files name p2) \<le> 3" by (rule tracked_files_table)
    then show ?thesis using table_bounded [OF E that(2)] full_state_root_quiet(2) [OF that(1) E] st
      by (simp add: payload_wf_def max_entries)
  qed
  show ?thesis unfolding on_main_synced_def
    by (simp add: Some Let_def) (intro no_panic_then anchor_record_quiet(1) full_state_root_quiet(1) length_table_quiet
        seal_slot_quiet, (erule (2) w | simp)+)
qed (simp add: on_main_synced_def)

lemma finalize_quiet: "hash_ok E \<Longrightarrow> states_typed p \<Longrightarrow> no_panic (finalize_if_journal E name p)"
  by (auto simp: finalize_if_journal_def journal_finalize_barrier_def commit_quiet split: option.split)

lemma delete_quiet: "no_panic (delete_file E n p)"
  by (auto simp: delete_file_def set_associated_filename_def Let_def no_panic_def split: option.split prod.split sum.split)

lemma with_file_quiet: "no_panic (with_file n op p)"
  by (auto simp: with_file_def no_panic_def split: option.split prod.split)

section \<open>The bound\<close>

lemma st_then_assoc: "st_then (st_then m f) g = st_then m (\<lambda>x s. st_then (f x s) g)"
  by (cases m; cases "fst m") auto

text \<open>
  The commit in two halves: up to the payload that is to be sealed, and the sealing of it.
\<close>

definition next_payload :: "('h, 'z) env_scheme \<Rightarrow> str \<Rightarrow> db_state \<Rightarrow> 'h pool \<Rightarrow> ('h, manifest_payload) pool_result" where
  "next_payload E name st p =
     st_then (anchor_record E (st_uuid st) None (Some (st_generation st + 1)) p) (\<lambda>_ p.
     st_then (full_state_root E name p) (\<lambda>root p.
     st_then (length_table E (tracked_files name p) p) (\<lambda>table p.
       (Inr \<lparr>db_generation = st_generation st + 1, db_uuid = st_uuid st, merkle_root = root, prev_merkle_root = st_root st,
             mp_files = table\<rparr>, p))))"

definition seal_payload :: "('h, 'z) env_scheme \<Rightarrow> str \<Rightarrow> db_state \<Rightarrow> manifest_payload \<Rightarrow> 'h pool \<Rightarrow> ('h, unit) pool_result" where
  "seal_payload E name st m p =
     st_then (seal_slot E name st m p) (\<lambda>_ p.
     st_then (anchor_record E (st_uuid st) (Some (db_generation m)) (Some (db_generation m)) p) (\<lambda>_ p.
       (Inr (), p\<lparr>dbs := AList.update name (st\<lparr>st_generation := db_generation m, st_root := merkle_root m\<rparr>) (dbs p)\<rparr>)))"

lemma commit_halves:
  "map_of (dbs p) name = Some st \<Longrightarrow> on_main_synced E name p = st_then (next_payload E name st p) (seal_payload E name st)"
  by (simp add: on_main_synced_def next_payload_def seal_payload_def Let_def st_then_assoc)

lemma next_payload_wf:
  assumes E: "hash_ok E" and s: "states_typed p" and st: "map_of (dbs p) name = Some st" and m: "next_payload E name st p = (Inr m, q)"
  shows "payload_wf m" and "length (mp_files m) \<le> 3"
proof -
  obtain x p1 root p2 t where a: "anchor_record E (st_uuid st) None (Some (st_generation st + 1)) p = (Inr x, p1)"
      and f: "full_state_root E name p1 = (Inr root, p2)" and l: "length_table E (tracked_files name p2) p2 = (Inr t, q)"
      and m: "m = \<lparr>db_generation = st_generation st + 1, db_uuid = st_uuid st, merkle_root = root, prev_merkle_root = st_root st, mp_files = t\<rparr>"
    using m by (auto simp: next_payload_def st_then_Inr_iff)
  have "distinct (map fst (files p1))" using anchor_record_quiet(2) [OF a] s by (simp add: states_typed_def)
  then have "distinct (map fst (files p2))" using full_state_root_quiet(3) [OF f] by blast
  then have "length (tracked_files name p2) \<le> 3" by (rule tracked_files_table)
  moreover note table_bounded [OF E l] full_state_root_quiet(2) [OF f E]
  moreover have "length (st_uuid st) = 16" "length (st_root st) = 32" using s st by (auto simp: states_typed_def)
  ultimately show "payload_wf m" "length (mp_files m) \<le> 3" by (simp_all add: m payload_wf_def max_entries)
qed

text \<open>
  C27: A commit never overruns its manifest. The payload a commit comes to seal lists at most three
  files, of the 166 that fit, and the encoder turns it into exactly one block; so whatever the handles,
  the random source and the fault gate answer, neither the commit nor a callback that can finalize a
  journal (a write, a truncation, a deletion) ever reaches the abort of the encoder.
\<close>

theorem commit_fits_manifest:
  assumes "hash_ok E" and "states_typed p"
  shows "fst (x_write E name buf off p) \<noteq> Inl ManifestPanic \<and> fst (x_truncate E name sz p) \<noteq> Inl ManifestPanic
    \<and> fst (store_delete_file E name p) \<noteq> Inl ManifestPanic \<and> fst (on_main_synced E name p) \<noteq> Inl ManifestPanic
    \<and> MAX_ENTRIES = 166
    \<and> (\<forall>st m q. map_of (dbs p) name = Some st \<and> next_payload E name st p = (Inr m, q) \<longrightarrow>
         on_main_synced E name p = seal_payload E name st m q \<and> length (mp_files m) \<le> 3
         \<and> (\<exists>b. mp_encode m = Some b \<and> length b = BLOCK_SIZE))"
proof -
  note f = finalize_quiet [OF assms]
  have "no_panic (x_write E name buf off p)" "no_panic (x_truncate E name sz p)" "no_panic (store_delete_file E name p)"
    by (auto simp: x_write_def x_truncate_def store_delete_file_def f with_file_quiet delete_quiet intro!: no_panic_then)
  moreover have "on_main_synced E name p = seal_payload E name st m q \<and> length (mp_files m) \<le> 3 \<and> (\<exists>b. mp_encode m = Some b \<and> length b = BLOCK_SIZE)"
    if st: "map_of (dbs p) name = Some st" and m: "next_payload E name st p = (Inr m, q)" for st m q
    using commit_halves [OF st, of E] next_payload_wf [OF assms st m] m by (simp add: mp_encode_eq mp_bytes_slices(1))
  ultimately show ?thesis using commit_quiet [OF assms, of name] max_entries by (simp add: no_panic_def)
qed

text \<open>An instance that comes to its table: the database of one block, alone in its pool.\<close>

lemma one_db_payload:
  obtains p m q where "states_typed p" and "map_of (dbs p) a_db = Some new_state" and "next_payload mem_env a_db new_state p = (Inr m, q)"
    and "mp_files m \<noteq> []"
proof -
  let ?m = "first_payload mem_env a_db (replicate 16 4)"
  obtain p0 where p0: "db_inv mem_env (\<lambda>h. h) a_db new_state [first_block] ?m p0" "rng_good 17 (p_rng p0)" "unat (fst (anchor_load mem_env p0)) = 1"
    using one_block_db by metis
  let ?p = "p0\<lparr>dbs := [(a_db, new_state)]\<rparr>"
  note i = p0(1) [unfolded db_inv_def]
  have al: "anchor_load mem_env ?p = anchor_load mem_env p0" by (rule anchor_rest_frame(1); simp)
  have "anchor_inv mem_env (\<lambda>h. h) ?p = anchor_inv mem_env (\<lambda>h. h) p0" by (rule anchor_rest_frame(2); simp)
  then have ai: "anchor_inv mem_env (\<lambda>h. h) ?p" using i by blast
  have "main_holds mem_env (\<lambda>h. h) ?p a_db new_state [first_block] = main_holds mem_env (\<lambda>h. h) p0 a_db new_state [first_block]"
    by (rule main_holds_frame) simp
  then have mh: "main_holds mem_env (\<lambda>h. h) ?p a_db new_state [first_block]" using i by blast
  have "manifest_ok mem_env (\<lambda>h. h) ?p a_db (st_uuid new_state) ?m = manifest_ok mem_env (\<lambda>h. h) p0 a_db (st_uuid new_state) ?m"
    by (rule manifest_ok_frame) simp_all
  then have mo: "manifest_ok mem_env (\<lambda>h. h) ?p a_db (st_uuid new_state) ?m" using i by blast
  have inv: "db_inv mem_env (\<lambda>h. h) a_db new_state [first_block] ?m ?p"
    using i ai al mh mo by (simp add: db_inv_def lengths_known_def)
  note j = inv [unfolded db_inv_def]
  have r: "rng_good (15 + 2) (p_rng ?p)" "unat (fst (anchor_load mem_env ?p)) + 2 < 2 ^ 64" using p0(2,3) al by simp_all
  obtain hh q where a: "anchor_record mem_env (st_uuid new_state) None (Some (st_generation new_state + 1)) ?p
      = (Inr (), ?p\<lparr>p_rng := q, anchor_handle := Some hh\<rparr>)"
    using record_step [OF ai _ disjI1 r, of "st_uuid new_state" None "Some (st_generation new_state + 1)"] j by metis
  let ?q = "?p\<lparr>p_rng := q, anchor_handle := Some hh\<rparr>"
  have n: "next_payload mem_env a_db new_state ?p = (Inr (commit_payload mem_env a_db new_state [first_block] ?p), ?q)"
    using commit_reads(1,2) [OF inv, of ?q] a by (simp add: next_payload_def commit_payload_def)
  have "distinct (map fst (files ?p))" "has_filename ?p a_db" using j by (auto simp: pool_inv_def main_holds_def has_filename_def)
  then have "a_db \<in> set (tracked_files a_db ?p)" using tracked_files_table(3) [of ?p a_db a_db] by (simp add: tracked_def)
  then have "mp_files (commit_payload mem_env a_db new_state [first_block] ?p) \<noteq> []" by (auto simp: commit_payload_def table_of_def)
  moreover have "states_typed ?p" using j by (simp add: states_typed_def pool_inv_def)
  ultimately show ?thesis using that n by simp
qed

theorem commit_fits_manifest_witness:
  "\<exists>p m q b. next_payload mem_env a_db new_state p = (Inr m, q) \<and> mp_files m \<noteq> [] \<and> length (mp_files m) \<le> 3
    \<and> mp_encode m = Some b \<and> fst (on_main_synced mem_env a_db p) \<noteq> Inl ManifestPanic"
proof -
  obtain p m q where p: "states_typed p" "map_of (dbs p) a_db = Some new_state" "next_payload mem_env a_db new_state p = (Inr m, q)" "mp_files m \<noteq> []"
    by (rule one_db_payload)
  from commit_fits_manifest [OF mem_env_laws(2) p(1), of a_db] p(2-4) show ?thesis by blast
qed

section \<open>The replay of a journal ends\<close>












end
