(* ===== verification/Crash.thy ===== *)
theory Crash
  imports Lifecycle
begin

text \<open>
  A commit cut by a power loss. The fault gate of the pool lets a number of physical writes through
  and drops every later one without an error; whatever the number, the files it leaves behind open
  again, on the state before the commit or on the state after it.
\<close>

section \<open>The writes of a commit behind the gate\<close>

lemma anchor_load_fault [simp]: "anchor_load E (p\<lparr>p_fault := f\<rparr>) = anchor_load E p"
  by (simp add: anchor_load_def cong: option.case_cong)

lemma lookup_fault [simp]: "lookup_file (p\<lparr>p_fault := f\<rparr>) = lookup_file p"
  by (simp add: lookup_file_def fun_eq_iff)

lemma anchor_save_dead: "gate f = (False, f') \<Longrightarrow> anchor_save E s es (p\<lparr>p_fault := f\<rparr>) = (Inr (), p\<lparr>p_fault := f'\<rparr>)"
  by (simp add: anchor_save_def)

lemma anchor_save_live:
  assumes "gate f = (True, f')" and "healthy p"
  shows "anchor_save E s es (p\<lparr>p_fault := f\<rparr>) = (case anchor_save E s es p of (r, p') \<Rightarrow> (r, p'\<lparr>p_fault := f'\<rparr>))"
  using assms gate_healthy [OF assms(2)]
  by (cases p) (simp add: anchor_save_def Let_def split: option.split prod.split sum.split)

text \<open>A record either goes through or is lost as a whole.\<close>

lemma record_gated:
  assumes inv: "anchor_inv E c p" and u: "length u = 16" "u \<in> uuid ` set (snd (anchor_load E p))" and r: "rng_good (m + 2) (p_rng p)"
    and s: "unat (fst (anchor_load E p)) + 2 < 2 ^ 64"
  obtains p' f' where "anchor_record E u co infl (p\<lparr>p_fault := f\<rparr>) = (Inr (), p'\<lparr>p_fault := f'\<rparr>)"
    and "anchor_inv E c p'" and "rng_good m (p_rng p')" and "unat (fst (anchor_load E p')) \<le> unat (fst (anchor_load E p)) + 1"
    and "snd (anchor_load E p') = snd (anchor_load E p)
      \<or> upsert_entry u co infl None (snd (anchor_load E p)) = Some (snd (anchor_load E p'))"
    and "\<exists>q h. p' = p\<lparr>p_rng := q, anchor_handle := h\<rparr>"
proof -
  obtain h q where x: "anchor_record E u co infl p = (Inr (), p\<lparr>p_rng := q, anchor_handle := Some h\<rparr>)" "rng_good m q"
      "anchor_inv E c (p\<lparr>p_rng := q, anchor_handle := Some h\<rparr>)"
      "unat (fst (anchor_load E (p\<lparr>p_rng := q, anchor_handle := Some h\<rparr>))) = unat (fst (anchor_load E p)) + 1"
      "upsert_entry u co infl None (snd (anchor_load E p)) = Some (snd (anchor_load E (p\<lparr>p_rng := q, anchor_handle := Some h\<rparr>)))"
    using record_step [OF inv u(1) disjI1 [OF u(2)] r s, of co infl] by metis
  obtain seq es0 where ld: "anchor_load E p = (seq, es0)" by fastforce
  obtain es where es: "upsert_entry u co infl None es0 = Some es" using x(5) ld by simp
  have rec: "anchor_record E u co infl (p\<lparr>p_fault := g\<rparr>) = anchor_save E (seq + 1) es (p\<lparr>p_fault := g\<rparr>)" for g
    using ld es by (simp add: anchor_record_def anchor_record_full_def)
  have rec0: "anchor_record E u co infl p = anchor_save E (seq + 1) es p"
    using ld es by (simp add: anchor_record_def anchor_record_full_def)
  have hp: "healthy p" using inv by (simp add: anchor_inv_def)
  obtain go f' where g: "gate f = (go, f')" by fastforce
  show ?thesis
  proof (cases go)
    case True
    have "anchor_record E u co infl (p\<lparr>p_fault := f\<rparr>) = (Inr (), (p\<lparr>p_rng := q, anchor_handle := Some h\<rparr>)\<lparr>p_fault := f'\<rparr>)"
      unfolding rec using anchor_save_live [where E = E and s = "seq + 1" and es = es, OF _ hp, of f f'] g True x(1) unfolding rec0 by simp
    then show ?thesis
      by (rule that) (use x in \<open>auto intro: exI [of _ q]\<close>)
  next
    case False
    have "anchor_record E u co infl (p\<lparr>p_fault := f\<rparr>) = (Inr (), p\<lparr>p_fault := f'\<rparr>)"
      unfolding rec using anchor_save_dead [where E = E and s = "seq + 1" and es = es, of f f'] g False by simp
    moreover have "rng_good m (p_rng p)" using r by (rule rng_good_less [rotated]) simp
    moreover have "p = p\<lparr>p_rng := p_rng p, anchor_handle := anchor_handle p\<rparr>" by (cases p) simp
    ultimately show ?thesis using that inv by (metis le_add1)
  qed
qed

lemma write_slot_live:
  assumes "gate f = (True, f')" and "alive d" and "write_manifest_slot E k n m d = (Inr (), d')"
  shows "write_manifest_slot E k n m (d\<lparr>d_fault := f\<rparr>) = (Inr (), d'\<lparr>d_fault := f'\<rparr>)"
  using assms gate_alive [OF assms(2)]
  by (cases d) (auto simp: write_manifest_slot_def phys_write_def raw_flush_def lift_vfs_def set_handle_def Let_def
      split: option.splits prod.splits sum.splits if_splits)

lemma write_slot_dead:
  assumes S: "sah_ok E c" and k: "key_ok (E, k)" and wf: "payload_wf m" and r: "rng_good (Suc n) (d_rng d)" and g: "gate f = (False, f')"
  shows "\<exists>h q. write_manifest_slot E k mn m (d\<lparr>d_fault := f\<rparr>) = (Inr (), set_handle h (d\<lparr>d_fault := f', d_rng := q\<rparr>)) \<and> rng_good n q
    \<and> c h = c (handle (d_file d))"
proof -
  obtain x q where d: "draw_nonzero NONCE_LEN (d_rng d) = (Some x, q)" and q: "rng_good n q"
    using r by (auto split: prod.splits option.splits)
  let ?s = "slot_no (db_generation m)"
  obtain sealed where s: "seal_into E k (file_id_for E mn) (db_uuid m) (word_of_nat ?s) (mp_bytes m) (d_rng d) = (Inr sealed, q)"
    using block_box.seal_draw [OF k _ d, of "mp_bytes m" "(file_id_for E mn, db_uuid m, word_of_nat ?s)"]
      mp_bytes_slices(1) [OF wf] by auto
  obtain ok h where f: "sah_flush E (handle (d_file d)) = (ok, h)" by fastforce
  have f': "ok" "c h = c (handle (d_file d))" using sah_okD(7,8) [OF S, of "handle (d_file d)"] f by simp_all
  have "write_manifest_slot E k mn m (d\<lparr>d_fault := f\<rparr>) = (Inr (), set_handle h (d\<lparr>d_fault := f', d_rng := q\<rparr>))"
    using g s f f'(1) by (simp add: write_manifest_slot_def Let_def mp_encode_eq [OF wf] phys_write_def lift_vfs_def raw_flush_def set_handle_def)
  then show ?thesis using q f'(2) by blast
qed

lemma seal_gated:
  assumes inv: "pool_inv E c p" and a: "aead_ok E" "hash_ok E" and mo: "manifest_ok E c p name u m"
    and k: "st_crypto st = db_key E (dek p) u" and wf: "payload_wf m'" and u: "db_uuid m' = u"
    and new: "db_generation m < db_generation m'" and r: "rng_good (Suc n) (p_rng p)"
  obtains g q f' where "seal_slot E name st m' (p\<lparr>p_fault := f\<rparr>) = (Inr (), ((put_file (manifest_name name) g p)\<lparr>p_rng := q\<rparr>)\<lparr>p_fault := f'\<rparr>)"
    and "rng_good n q" and "pool_inv E c ((put_file (manifest_name name) g p)\<lparr>p_rng := q\<rparr>)"
    and "manifest_ok E c ((put_file (manifest_name name) g p)\<lparr>p_rng := q\<rparr>) name u m
      \<or> manifest_ok E c ((put_file (manifest_name name) g p)\<lparr>p_rng := q\<rparr>) name u m'"
proof -
  let ?mn = "manifest_name name" and ?key = "db_key E (dek p) u"
  note i = inv [unfolded pool_inv_def]
  have S: "sah_ok E c" and hp: "healthy p" using i by blast+
  have key: "key_ok (E, ?key)" using a by (simp add: key_ok_def len_simps)
  obtain mf where mf: "lookup_file p ?mn = Some mf" using mo by (auto simp: manifest_ok_def)
  have al: "alive (dev_of p mf)" using hp by (simp add: alive_def dev_of_def healthy_def)
  have df: "dev_of (p\<lparr>p_fault := f\<rparr>) mf = (dev_of p mf)\<lparr>d_fault := f\<rparr>" by (simp add: dev_of_def)
  obtain go f' where g: "gate f = (go, f')" by fastforce
  show ?thesis
  proof (cases go)
    case True
    obtain g0 q where e: "seal_slot E name st m' p = (Inr (), (put_file ?mn g0 p)\<lparr>p_rng := q\<rparr>)" "rng_good n q"
        "pool_inv E c ((put_file ?mn g0 p)\<lparr>p_rng := q\<rparr>)" "manifest_ok E c ((put_file ?mn g0 p)\<lparr>p_rng := q\<rparr>) name u m'"
      using seal_slot_effect [OF inv a mo k wf u new r] by blast
    obtain d where d: "write_manifest_slot E ?key ?mn m' (dev_of p mf) = (Inr (), d)" "put_dev ?mn d p = (put_file ?mn g0 p)\<lparr>p_rng := q\<rparr>"
      using e(1) mf k by (auto simp: seal_slot_def split: prod.splits)
    have pd: "put_dev ?mn (d\<lparr>d_fault := f'\<rparr>) (p\<lparr>p_fault := f\<rparr>) = (put_dev ?mn d p)\<lparr>p_fault := f'\<rparr>"
      by (simp add: put_dev_def put_file_def)
    have "seal_slot E name st m' (p\<lparr>p_fault := f\<rparr>) = (Inr (), ((put_file ?mn g0 p)\<lparr>p_rng := q\<rparr>)\<lparr>p_fault := f'\<rparr>)"
      using write_slot_live [OF _ al d(1), of f f'] g True mf k pd unfolding seal_slot_def d(2) [symmetric] by (simp add: df)
    then show ?thesis using that e by blast
  next
    case False
    have "rng_good (Suc n) (d_rng (dev_of p mf))" using r by (simp add: dev_of_def)
    then obtain h q where w: "write_manifest_slot E ?key ?mn m' ((dev_of p mf)\<lparr>d_fault := f\<rparr>) = (Inr (), set_handle h ((dev_of p mf)\<lparr>d_fault := f', d_rng := q\<rparr>))"
        "rng_good n q" "c h = c (handle mf)"
      using write_slot_dead [OF S key wf, of n "dev_of p mf" f f' ?mn] g False by auto
    let ?g = "mf\<lparr>handle := h\<rparr>"
    have pd: "put_dev ?mn (set_handle h ((dev_of p mf)\<lparr>d_fault := f', d_rng := q\<rparr>)) (p\<lparr>p_fault := f\<rparr>) = ((put_file ?mn ?g p)\<lparr>p_rng := q\<rparr>)\<lparr>p_fault := f'\<rparr>"
      by (simp add: put_dev_def set_handle_def dev_of_def put_file_def)
    have "seal_slot E name st m' (p\<lparr>p_fault := f\<rparr>) = (Inr (), ((put_file ?mn ?g p)\<lparr>p_rng := q\<rparr>)\<lparr>p_fault := f'\<rparr>)"
      using w(1) mf k pd by (simp add: seal_slot_def df)
    moreover have "handle_ok E c (Some ?mn) (handle mf)" "f_file_id mf = file_id_for E ?mn" using i mf by blast+
    then have "pool_inv E c (put_file ?mn ?g p)" using i w(3) by (auto simp: pool_inv_def handle_ok_def)
    then have "pool_inv E c ((put_file ?mn ?g p)\<lparr>p_rng := q\<rparr>)" by simp
    moreover have "manifest_ok E c ((put_file ?mn ?g p)\<lparr>p_rng := q\<rparr>) name u m"
      using mo mf w(3) by (simp add: manifest_ok_def)
    ultimately show ?thesis using that w(2) by blast
  qed
qed

section \<open>The commit behind the gate\<close>

text \<open>A raise by a commit, made or dropped, keeps what the anchor admits.\<close>

lemma raise_kept:
  assumes "es' = es \<or> upsert_entry u co (Some g) None es = Some es'" and "co \<in> {None, Some g}"
    and "anchor_below u g h es" and "u \<in> uuid ` set es"
  shows "anchor_below u g h es' \<and> u \<in> uuid ` set es'"
proof (cases "es' = es")
  case False
  then have up: "upsert_entry u co (Some g) None es = Some es'" using assms(1) by blast
  have "u \<in> uuid ` set es'" by (rule uuid_kept [OF upsert_effect(1) [OF up] assms(4)])
  then show ?thesis using upsert_below [OF up assms(3,2)] by blast
qed (use assms in blast)

text \<open>
  What a commit leaves on disk, wherever it was cut: the blocks and the journal as they were, the
  manifest before or after, and an anchor that admits both.
\<close>

lemma commit_gated:
  assumes inv: "db_inv E c name st bs m p" and r: "rng_good 5 (p_rng p)" and s: "unat (fst (anchor_load E p)) + 3 < 2 ^ 64"
    and g: "st_generation st < st_generation st + 1"
  shows "\<exists>p' f' m'. on_main_synced E name (p\<lparr>p_fault := f\<rparr>) = (Inr (), p'\<lparr>p_fault := f'\<rparr>)
    \<and> m' \<in> {m, commit_payload E name st bs p} \<and> pool_inv E c p' \<and> anchor_inv E c p' \<and> dek p' = dek p
    \<and> manifest_ok E c p' name (st_uuid st) m' \<and> (\<forall>n. n \<noteq> manifest_name name \<longrightarrow> lookup_file p' n = lookup_file p n)
    \<and> anchor_below (st_uuid st) (st_generation st + 1) (st_generation st) (snd (anchor_load E p'))
    \<and> st_uuid st \<in> uuid ` set (snd (anchor_load E p')) \<and> unat (fst (anchor_load E p')) \<le> unat (fst (anchor_load E p)) + 2"
proof -
  note i = inv [unfolded db_inv_def]
  let ?u = "st_uuid st" and ?g = "st_generation st + 1" and ?mn = "manifest_name name" and ?m = "commit_payload E name st bs p"
  have pi: "pool_inv E c p" and ai: "anchor_inv E c p" and S: "sah_ok E c" using i by (simp_all add: pool_inv_def)
  have u: "length ?u = 16" "?u \<in> uuid ` set (snd (anchor_load E p))" using i by blast+
  have ab0: "anchor_below ?u ?g (st_generation st) (snd (anchor_load E p))" using i g by (blast intro: anchor_below_mono less_imp_le)
  have r1: "rng_good (3 + 2) (p_rng p)" and s1: "unat (fst (anchor_load E p)) + 2 < 2 ^ 64" using r s by simp_all
  obtain p1 f1 where a1: "anchor_record E ?u None (Some ?g) (p\<lparr>p_fault := f\<rparr>) = (Inr (), p1\<lparr>p_fault := f1\<rparr>)" "anchor_inv E c p1"
      "rng_good 3 (p_rng p1)" "unat (fst (anchor_load E p1)) \<le> unat (fst (anchor_load E p)) + 1"
      "snd (anchor_load E p1) = snd (anchor_load E p) \<or> upsert_entry ?u None (Some ?g) None (snd (anchor_load E p)) = Some (snd (anchor_load E p1))"
      "\<exists>q h. p1 = p\<lparr>p_rng := q, anchor_handle := h\<rparr>"
    by (rule record_gated [OF ai u r1 s1, of None "Some ?g" f])
  obtain q1 h1 where p1: "p1 = p\<lparr>p_rng := q1, anchor_handle := h1\<rparr>" using a1(6) by blast
  note k1 = raise_kept [OF a1(5) _ ab0 u(2), simplified]
  let ?q1 = "p1\<lparr>p_fault := f1\<rparr>"
  have l1: "lookup_file ?q1 = lookup_file p" and e1: "lookup_file p1 = lookup_file p" and fs: "files ?q1 = files p" "dbs ?q1 = dbs p"
    by (simp_all add: p1)
  note rd = commit_reads [OF inv fs(1)]
  have tf: "tracked_files name ?q1 = tracked_files name p" by (simp add: tracked_files_def get_filenames_def fs)
  have lt: "length_table E (tracked_files name p) ?q1 = (Inr (table_of E name p), ?q1)" using rd(2) unfolding tf .
  have pi1: "pool_inv E c p1" using pi by (simp add: p1 pool_anchor_frame)
  have dk1: "dek p1 = dek p" by (simp add: p1)
  have mo: "manifest_ok E c p1 name ?u m" using i manifest_ok_frame [of p1 name p E c ?u m] by (simp add: e1 dk1)
  have gm: "db_generation m < db_generation ?m" using i g by (simp add: commit_payload_def)
  have cr: "st_crypto st = db_key E (dek p1) ?u" and um: "db_uuid ?m = ?u" using i by (simp_all add: dk1 commit_payload_def)
  have ha: "aead_ok E" "hash_ok E" using i by blast+
  have r3: "rng_good (Suc 2) (p_rng p1)" using a1(3) by (simp add: numeral_3_eq_3 numeral_2_eq_2)
  obtain g2 q2 f2 where s2: "seal_slot E name st ?m ?q1 = (Inr (), ((put_file ?mn g2 p1)\<lparr>p_rng := q2\<rparr>)\<lparr>p_fault := f2\<rparr>)" "rng_good 2 q2"
      "pool_inv E c ((put_file ?mn g2 p1)\<lparr>p_rng := q2\<rparr>)"
      "manifest_ok E c ((put_file ?mn g2 p1)\<lparr>p_rng := q2\<rparr>) name ?u m \<or> manifest_ok E c ((put_file ?mn g2 p1)\<lparr>p_rng := q2\<rparr>) name ?u ?m"
    by (rule seal_gated [OF pi1 ha mo cr rd(3) um gm r3, of f1])
  let ?p2 = "(put_file ?mn g2 p1)\<lparr>p_rng := q2\<rparr>"
  obtain m' where m': "m' \<in> {m, ?m}" "manifest_ok E c ?p2 name ?u m'" using s2(4) by blast
  have al2: "anchor_load E ?p2 = anchor_load E p1" by (rule anchor_rest_frame(1); simp)
  have "anchor_inv E c ?p2 = anchor_inv E c p1" by (rule anchor_rest_frame(2); simp)
  then have ai2: "anchor_inv E c ?p2" using a1(2) by blast
  have u2: "?u \<in> uuid ` set (snd (anchor_load E ?p2))" unfolding al2 using k1 by blast
  have s2': "unat (fst (anchor_load E ?p2)) + 2 < 2 ^ 64" unfolding al2 using a1(4) s by linarith
  have "p_rng ?p2 = q2" by simp
  then have r2: "rng_good (0 + 2) (p_rng ?p2)" using s2(2) by (simp only: add_0)
  obtain p3 f3 where a3: "anchor_record E ?u (Some ?g) (Some ?g) (?p2\<lparr>p_fault := f2\<rparr>) = (Inr (), p3\<lparr>p_fault := f3\<rparr>)" "anchor_inv E c p3"
      "unat (fst (anchor_load E p3)) \<le> unat (fst (anchor_load E ?p2)) + 1"
      "snd (anchor_load E p3) = snd (anchor_load E ?p2) \<or> upsert_entry ?u (Some ?g) (Some ?g) None (snd (anchor_load E ?p2)) = Some (snd (anchor_load E p3))"
      "\<exists>q h. p3 = ?p2\<lparr>p_rng := q, anchor_handle := h\<rparr>"
    by (rule record_gated [OF ai2 u(1) u2 r2 s2', of "Some ?g" "Some ?g" f2])
  obtain q3 h3 where p3: "p3 = ?p2\<lparr>p_rng := q3, anchor_handle := h3\<rparr>" using a3(5) by blast
  have k3: "anchor_below ?u ?g (st_generation st) (snd (anchor_load E p3)) \<and> ?u \<in> uuid ` set (snd (anchor_load E p3))"
    using k1 by (intro raise_kept [OF a3(4) [unfolded al2]]) simp_all
  let ?st = "st\<lparr>st_generation := ?g, st_root := root_of_blocks E bs\<rparr>"
  let ?p4 = "p3\<lparr>dbs := AList.update name ?st (dbs p3)\<rparr>"
  have run: "on_main_synced E name (p\<lparr>p_fault := f\<rparr>) = (Inr (), ?p4\<lparr>p_fault := f3\<rparr>)"
    using i a1(1) rd(1) lt s2(1) a3(1) tf by (simp add: on_main_synced_def commit_payload_def Let_def)
  have al4: "anchor_load E ?p4 = anchor_load E p3" by (rule anchor_rest_frame(1); simp)
  have "anchor_inv E c ?p4 = anchor_inv E c p3" by (rule anchor_rest_frame(2); simp)
  then have ai4: "anchor_inv E c ?p4" using a3(2) by blast
  have pi3: "pool_inv E c p3" using s2(3) by (simp add: p3 pool_anchor_frame)
  have l4: "lookup_file ?p4 n = lookup_file ?p2 n" for n by (simp add: p3)
  have mo4: "manifest_ok E c ?p4 name ?u m'" using m'(2) by (simp add: manifest_ok_def l4 p3)
  have lo: "\<forall>n. n \<noteq> ?mn \<longrightarrow> lookup_file ?p4 n = lookup_file p n" unfolding l4 by (simp add: p1)
  have dk: "dek ?p4 = dek p" by (simp add: p3 p1)
  have bound: "unat (fst (anchor_load E ?p4)) \<le> unat (fst (anchor_load E p)) + 2" unfolding al4 using a3(3) a1(4) unfolding al2 by linarith
  show ?thesis
    using run m'(1) pi3 ai4 dk mo4 lo bound k3 k1 unfolding al4 [symmetric]
    by (intro exI [of _ ?p4] exI [of _ f3] exI [of _ m']) simp
qed

section \<open>What the next session finds\<close>

text \<open>A hot journal whose replay gives the image of the last commit.\<close>

definition journal_ready :: "('h, 'z) env_scheme \<Rightarrow> str \<Rightarrow> db_state \<Rightarrow> 'h pool \<Rightarrow> bool" where
  "journal_ready E name st p \<longleftrightarrow> hot_journal E name (st_uuid st) (st_crypto st) p
     \<and> replay_journal_root E name (journal_name name) (st_crypto st) (st_uuid st) p = Inr (st_root st)"

text \<open>Either manifest of the crash passes the generation check of the anchor the crash left.\<close>

lemma fresh_after_crash:
  assumes "anchor_below u (g + 1) g es" and "gen = g \<or> gen = g + 1" and "g < g + 1" and "g + 1 < g + 2"
  shows "check_generation u gen es = Inr ()"
proof (cases "find (\<lambda>e. uuid e = u) es")
  case (Some e)
  then have "e \<in> set es" "uuid e = u" by (auto simp: find_Some_iff)
  then have e: "committed e \<le> g + 1" "epoch_floor e \<le> g" using assms(1) by (auto simp: anchor_below_def)
  have "g + 1 \<le> gen + 1" "g \<le> gen" using assms(2-4) by (auto simp: add.assoc)
  then have "\<not> gen + 1 < committed e" "\<not> gen < epoch_floor e" using e by (auto simp: not_less intro: order_trans)
  then show ?thesis using Some by (simp add: check_generation_def)
qed (simp add: check_generation_def)

text \<open>And its root, or the one before it, is that of the image the journal restores.\<close>

lemma image_after_crash:
  assumes ready: "bs \<noteq> [] \<longrightarrow> journal_ready E name st p \<and> st_root st \<noteq> ZERO_ROOT \<and> root_of_blocks E bs \<noteq> ZERO_ROOT"
    and m: "m' = m \<or> m' = commit_payload E name st bs p" "merkle_root m = st_root st"
    and h: "\<And>n. n \<noteq> manifest_name name \<Longrightarrow> handles q n = handles p n" and k: "db_key E (dek q) (st_uuid st) = st_crypto st"
  shows "image_ok E name (st_uuid st) m' bs q"
proof (cases "bs = []")
  case False
  have hn: "handles q name = handles p name" "handles q (journal_name name) = handles p (journal_name name)" by (simp_all add: h manifest_ne)
  have jr: "hot_journal E name (st_uuid st) (st_crypto st) p" "st_root st \<noteq> ZERO_ROOT" "root_of_blocks E bs \<noteq> ZERO_ROOT"
      "replay_journal_root E name (journal_name name) (st_crypto st) (st_uuid st) p = Inr (st_root st)"
    using ready False by (auto simp: journal_ready_def)
  have "hot_journal E name (st_uuid st) (st_crypto st) q" using jr(1) hot_journal_frame [OF hn(2)] by blast
  moreover have "replay_journal_root E name (journal_name name) (st_crypto st) (st_uuid st) q = Inr (st_root st)"
    using jr(4) replay_root_frame [where E = E and k = "st_crypto st" and u = "st_uuid st", OF hn(2,1)] by simp
  moreover have "accepted m' (st_root st)" "merkle_root m' \<noteq> ZERO_ROOT"
    using m jr(2,3) by (auto simp: accepted_def commit_payload_def)
  ultimately show ?thesis by (simp add: image_ok_def k)
qed (simp add: image_ok_def)

text \<open>The open after the crash: what it answers, its state, and the files it leaves.\<close>

lemma crashed_files_reopen:
  assumes inv: "db_inv E c name st bs m p" and r: "rng_good 5 (p_rng p)" and s: "unat (fst (anchor_load E p)) + 5 < 2 ^ 64"
    and g: "unat (st_generation st) + 2 < 2 ^ 64"
    and j: "bs \<noteq> [] \<longrightarrow> journal_ready E name st p \<and> st_root st \<noteq> ZERO_ROOT \<and> root_of_blocks E bs \<noteq> ZERO_ROOT"
    and run: "on_main_synced E name (p\<lparr>p_fault := f\<rparr>) = (x, p')"
    and q: "pool_inv E c q" "handles q = handles p'" "dek q = dek p'" "anchor_handle q = anchor_handle p'" "anchor_crypto q = anchor_crypto p'"
    and rq: "rng_good 2 (p_rng q)"
  shows "\<exists>q' m'. x = Inr () \<and> open_main_db E name q = (Inr (), q') \<and> m' \<in> {m, commit_payload E name st bs p}
    \<and> map_of (dbs q') name = Some \<lparr>st_uuid = st_uuid st, st_crypto = db_key E (dek q) (st_uuid st), st_generation = db_generation m', st_root = merkle_root m'\<rparr>
    \<and> pool_inv E c q' \<and> dek q' = dek p \<and> handles q' = handles q \<and> (\<forall>n. n \<noteq> manifest_name name \<longrightarrow> handles q' n = handles p n)"
proof -
  note i = inv [unfolded db_inv_def]
  let ?u = "st_uuid st"
  have gw: "st_generation st < st_generation st + 1" "st_generation st + 1 < st_generation st + 2" using g by (rule seq_room)+
  have s3: "unat (fst (anchor_load E p)) + 3 < 2 ^ 64" using s by simp
  obtain p1 f' m' where c: "on_main_synced E name (p\<lparr>p_fault := f\<rparr>) = (Inr (), p1\<lparr>p_fault := f'\<rparr>)"
      "m' \<in> {m, commit_payload E name st bs p}" "pool_inv E c p1" "anchor_inv E c p1" "dek p1 = dek p" "manifest_ok E c p1 name ?u m'"
      "\<forall>n. n \<noteq> manifest_name name \<longrightarrow> lookup_file p1 n = lookup_file p n"
      "anchor_below ?u (st_generation st + 1) (st_generation st) (snd (anchor_load E p1))" "?u \<in> uuid ` set (snd (anchor_load E p1))"
      "unat (fst (anchor_load E p1)) \<le> unat (fst (anchor_load E p)) + 2"
    using commit_gated [OF inv r s3 gw(1), of f] by blast
  have x: "x = Inr ()" "p' = p1\<lparr>p_fault := f'\<rparr>" using run c(1) by simp_all
  have hq: "handles q = handles p1" and dq: "dek q = dek p1" and aq: "anchor_handle q = anchor_handle p1" "anchor_crypto q = anchor_crypto p1"
    using q x(2) by (simp_all add: handles_def fun_eq_iff)
  note a = anchor_same [OF c(4) q(1) aq]
  have hn: "handles q n = handles p n" if "n \<noteq> manifest_name name" for n using c(7) that unfolding hq by (simp add: handles_def)
  have on: "on_disk E c q name ?u bs"
    using i dq c(5) hn [OF manifest_ne(2)] by (intro main_on_disk [OF _ _ _ _ q(1)]) simp_all
  have mo: "manifest_ok E c q name ?u m'" by (rule manifest_ok_handles [OF c(6) _ dq]) (simp only: hq)
  have gm: "db_generation m' = st_generation st \<or> db_generation m' = st_generation st + 1" using c(2) i by (auto simp: commit_payload_def)
  have fresh: "check_generation ?u (db_generation m') (snd (anchor_load E q)) = Inr ()"
    using c(8) by (intro fresh_after_crash [OF _ gm gw]) (simp add: a(2))
  have im: "image_ok E name ?u m' bs q"
    using c(2) i dq c(5) by (intro image_after_crash [OF j _ _ hn]) auto
  have r0: "rng_good (0 + 2) (p_rng q)" unfolding add_0 by (rule rq)
  have sq: "unat (fst (anchor_load E q)) + 2 < 2 ^ 64" using c(10) s unfolding a(2) by linarith
  have u: "length ?u = 16" and room: "?u \<in> uuid ` set (snd (anchor_load E q)) \<or> length (snd (anchor_load E q)) < ANCHOR_CAP"
    using i c(9) a(2) by simp_all
  obtain q' where o: "open_main_db E name q = (Inr (), q')"
      "map_of (dbs q') name = Some \<lparr>st_uuid = ?u, st_crypto = db_key E (dek q) ?u, st_generation = db_generation m', st_root = merkle_root m'\<rparr>"
      "pool_inv E c q'" "dek q' = dek q" "handles q' = handles q"
    using open_effect [OF q(1) a(1) on mo u fresh room r0 sq im] by blast
  have "dek q' = dek p" using o(4) dq c(5) by simp
  moreover have "\<forall>n. n \<noteq> manifest_name name \<longrightarrow> handles q' n = handles p n" using hn o(5) by simp
  ultimately show ?thesis using x(1) c(2) o by blast
qed

lemma chunks_exact_concat: "0 < n \<Longrightarrow> \<forall>b \<in> set bs. length b = n \<Longrightarrow> chunks_exact n (concat bs) = bs"
  by (induction bs) (simp_all add: chunks_exact.simps [of n "[]"] chunks_exact.simps [of n "b @ c" for b c])

lemma chunks_exact_blocks: "0 < n \<Longrightarrow> length b = k * n \<Longrightarrow>
    concat (chunks_exact n b) = b \<and> (\<forall>x \<in> set (chunks_exact n b). length x = n) \<and> length (chunks_exact n b) = k"
proof (induction k arbitrary: b)
  case (Suc k)
  have e: "chunks_exact n b = take n b # chunks_exact n (drop n b)" using Suc.prems by (subst chunks_exact.simps) simp
  show ?case unfolding e using Suc.IH [of "drop n b"] Suc.prems by simp
qed (simp add: chunks_exact.simps)

text \<open>Decryption gives back what was sealed.\<close>

lemma decrypt_region:
  assumes S: "sah_ok E c" and l: "length (c (handle (d_file d))) = HEADER_OFFSET_DATA + length bs * PHYS_BLOCK" and lim: "length bs * BLOCK_SIZE \<le> DEV_LIMIT"
    and o: "\<forall>i < length bs. open_into E k fid u (word_of_nat i) (slice (HEADER_OFFSET_DATA + i * PHYS_BLOCK) PHYS_BLOCK (c (handle (d_file d)))) = Inr (bs ! i)"
  shows "decrypt_whole_file E d k u fid = Inr (concat bs)"
proof -
  have "decrypt_blocks E d k u fid [j..<length bs] = Inr (concat (drop j bs))" if "j \<le> length bs" for j
    using that
  proof (induction "length bs - j" arbitrary: j)
    case (Suc n)
    then have j: "j < length bs" by simp
    then have "j * BLOCK_SIZE < DEV_LIMIT" using lim mult_less_mono1 [of j "length bs" BLOCK_SIZE] by (simp add: BLOCK_SIZE_def)
    then have a: "usize_add HEADER_OFFSET_DATA (j * PHYS_BLOCK) = HEADER_OFFSET_DATA + j * PHYS_BLOCK" by (rule phys_fits(4))
    let ?sl = "slice (HEADER_OFFSET_DATA + j * PHYS_BLOCK) PHYS_BLOCK (c (handle (d_file d)))"
    have "Suc j * PHYS_BLOCK \<le> length bs * PHYS_BLOCK" using j by (intro mult_le_mono1) simp
    then have ls: "length ?sl = PHYS_BLOCK" using l by (intro length_slice) simp
    have rd: "phys_read E d PHYS_BLOCK (j * PHYS_BLOCK) = Inr ?sl" using S a by (simp add: phys_read_def)
    have "decrypt_blocks E d k u fid [Suc j..<length bs] = Inr (concat (drop (Suc j) bs))" using Suc by simp
    then show ?case using j rd ls o by (simp add: upt_conv_Cons Cons_nth_drop_Suc [symmetric])
  qed simp
  from this [of 0] have "decrypt_blocks E d k u fid [0..<length bs] = Inr (concat bs)" by simp
  moreover have "phys_size E d = Inr (length bs * PHYS_BLOCK)" using S l by (simp add: phys_size_def)
  ultimately show ?thesis by (simp add: decrypt_whole_file_def size_defs)
qed

text \<open>
  The image behind a root that the replay computes: the journal, decrypted, played back over the blocks
  that lie on disk.
\<close>

definition restored_image :: "('h, 'z) env_scheme \<Rightarrow> str \<Rightarrow> bytes \<Rightarrow> bytes list \<Rightarrow> 'h pool \<Rightarrow> pool_error + bytes list" where
  "restored_image E name u bs p = (case lookup_file p (journal_name name) of
       None \<Rightarrow> Inl FileNotFound
     | Some jf \<Rightarrow> try_then (decrypt_whole_file E (dev_of p jf) (db_key E (dek p) u) u (file_id_for E (journal_name name))) (\<lambda>jbytes.
         replay jbytes bs))"

lemma replay_root_image:
  assumes inv: "pool_inv E c p" and on: "on_disk E c p name u bs" and k: "key_ok (E, db_key E (dek p) u)"
    and r: "replay_journal_root E name (journal_name name) (db_key E (dek p) u) u p = Inr r"
  shows "\<exists>img. restored_image E name u bs p = Inr img \<and> root_of_blocks E img = r"
proof -
  let ?k = "db_key E (dek p) u"
  obtain f where f: "lookup_file p name = Some f" "holds E c (dev_of p (f\<lparr>f_crypto := ?k, f_key_domain := u\<rparr>)) (length bs) (\<lambda>k. bs ! k)"
      "length bs * BLOCK_SIZE \<le> DEV_LIMIT"
    using on by (auto simp: on_disk_def)
  have S: "sah_ok E c" and fid: "f_file_id f = file_id_for E name" using inv f(1) by (auto simp: pool_inv_def)
  have o: "open_into E ?k (file_id_for E name) u (word_of_nat i) (slice (HEADER_OFFSET_DATA + i * PHYS_BLOCK) PHYS_BLOCK (c (handle f))) = Inr (bs ! i)"
    if "i < length bs" for i
    using f(2) that fid by (simp add: holds_def open_block_def)
  have l: "length (c (handle (d_file (dev_of p f)))) = HEADER_OFFSET_DATA + length bs * PHYS_BLOCK" using f(2) by (simp add: holds_def)
  have d: "decrypt_whole_file E (dev_of p f) ?k u (file_id_for E name) = Inr (concat bs)"
    by (rule decrypt_region [OF S l f(3)]) (use o in simp)
  have "\<forall>b \<in> set bs. length b = BLOCK_SIZE" using open_into_length [OF k o] by (auto simp: in_set_conv_nth)
  then have "chunks_exact BLOCK_SIZE (concat bs) = bs" by (intro chunks_exact_concat) (simp_all add: BLOCK_SIZE_def)
  then show ?thesis
    using r f(1) d by (auto simp: replay_journal_root_def restored_image_def try_then_Inr_iff split: option.splits)
qed

text \<open>
  C5: A commit is atomic under power loss. Let the disk die after any number of the commit's writes,
  every later write being dropped without an error: \<open>on_main_synced\<close> still returns, and when the
  next session finds the files as they were left, with the rollback journal still hot, the open
  succeeds, on the generation and root before the commit or on those after it. It leaves every file as
  the crash did, and, unless the main file has no block, the journal is still hot and, played back over
  the blocks that lie on disk as SQLite does before it serves a page, gives an image with the root of
  the last completed commit.
\<close>

theorem crashed_commit_reopens:
  assumes inv: "db_inv E c name st bs m p" and r: "rng_good 5 (p_rng p)" and s: "unat (fst (anchor_load E p)) + 5 < 2 ^ 64"
    and g: "unat (st_generation st) + 2 < 2 ^ 64"
    and j: "bs \<noteq> [] \<longrightarrow> journal_ready E name st p \<and> st_root st \<noteq> ZERO_ROOT \<and> root_of_blocks E bs \<noteq> ZERO_ROOT"
    and run: "on_main_synced E name (p\<lparr>p_fault := f\<rparr>) = (x, p')"
    and q: "pool_inv E c q" "handles q = handles p'" "dek q = dek p'" "anchor_handle q = anchor_handle p'" "anchor_crypto q = anchor_crypto p'"
    and rq: "rng_good 2 (p_rng q)"
  shows "x = Inr () \<and> (\<exists>q' st'. open_main_db E name q = (Inr (), q') \<and> map_of (dbs q') name = Some st'
    \<and> (st_generation st', st_root st') \<in> {(st_generation st, st_root st), (st_generation st + 1, root_of_blocks E bs)}
    \<and> handles q' = handles q \<and> on_disk E c q' name (st_uuid st) bs
    \<and> (bs = [] \<or> hot_journal E name (st_uuid st) (st_crypto st) q'
         \<and> (\<exists>img. restored_image E name (st_uuid st) bs q' = Inr img \<and> root_of_blocks E img = st_root st)))"
proof -
  obtain q' m' where o: "x = Inr ()" "open_main_db E name q = (Inr (), q')" "m' \<in> {m, commit_payload E name st bs p}"
      "map_of (dbs q') name = Some \<lparr>st_uuid = st_uuid st, st_crypto = db_key E (dek q) (st_uuid st), st_generation = db_generation m', st_root = merkle_root m'\<rparr>"
      "pool_inv E c q'" "dek q' = dek p" "handles q' = handles q" "\<And>n. n \<noteq> manifest_name name \<Longrightarrow> handles q' n = handles p n"
    using crashed_files_reopen [OF assms] by blast
  note i = inv [unfolded db_inv_def]
  have h: "handles q' name = handles p name" "handles q' (journal_name name) = handles p (journal_name name)" by (rule o(8), simp add: manifest_ne)+
  have k: "db_key E (dek q') (st_uuid st) = st_crypto st" using i o(6) by simp
  have on: "on_disk E c q' name (st_uuid st) bs" using i by (intro main_on_disk [OF _ _ h(1) o(6,5)]) simp_all
  have "bs = [] \<or> hot_journal E name (st_uuid st) (st_crypto st) q'
      \<and> (\<exists>img. restored_image E name (st_uuid st) bs q' = Inr img \<and> root_of_blocks E img = st_root st)"
  proof (cases "bs = []")
    case False
    then have jr: "hot_journal E name (st_uuid st) (st_crypto st) p"
        "replay_journal_root E name (journal_name name) (st_crypto st) (st_uuid st) p = Inr (st_root st)"
      using j by (auto simp: journal_ready_def)
    have "hot_journal E name (st_uuid st) (st_crypto st) q'" using jr(1) hot_journal_frame [OF h(2)] by blast
    moreover have "replay_journal_root E name (journal_name name) (db_key E (dek q') (st_uuid st)) (st_uuid st) q' = Inr (st_root st)"
      unfolding k using jr(2) replay_root_frame [where E = E and k = "st_crypto st" and u = "st_uuid st", OF h(2,1)] by simp
    moreover have "key_ok (E, db_key E (dek q') (st_uuid st))" using i by (simp add: key_ok_def len_simps)
    ultimately show ?thesis using replay_root_image [OF o(5) on] by blast
  qed simp
  moreover obtain st' where st': "map_of (dbs q') name = Some st'" "st_generation st' = db_generation m'" "st_root st' = merkle_root m'"
    using o(4) by simp
  moreover have "(db_generation m', merkle_root m') \<in> {(st_generation st, st_root st), (st_generation st + 1, root_of_blocks E bs)}"
    using o(3) i by (auto simp: commit_payload_def)
  ultimately show ?thesis using o(1,2,7) on by (intro conjI exI [of _ q'] exI [of _ st']) simp_all
qed

section \<open>An instance with a journal\<close>

lemma db_inv_journal:
  assumes inv: "db_inv E c name st bs m p" and h: "handle_ok E c (Some (journal_name name)) (handle jf)"
    and id: "f_file_id jf = file_id_for E (journal_name name)" and lg: "logical_size jf \<noteq> None"
  shows "db_inv E c name st bs m (put_file (journal_name name) jf p)"
proof -
  note i = inv [unfolded db_inv_def]
  let ?p = "put_file (journal_name name) jf p"
  have a: "anchor_load E ?p = anchor_load E p" by (rule anchor_rest_frame(1); simp)
  have "anchor_inv E c ?p = anchor_inv E c p" by (rule anchor_rest_frame(2); simp)
  moreover have "pool_inv E c ?p" using i h id by (auto simp: pool_inv_def)
  moreover have "main_holds E c ?p name st bs = main_holds E c p name st bs" using manifest_ne(5) [of name] by (intro main_holds_frame) simp
  moreover have "lengths_known name ?p" using i lg by (auto simp: lengths_known_def)
  moreover have "manifest_ok E c ?p name (st_uuid st) m = manifest_ok E c p name (st_uuid st) m"
    using manifest_ne(3) [of name] by (intro manifest_ok_frame) simp_all
  ultimately show ?thesis using i a by (simp add: db_inv_def)
qed

text \<open>A database of one block in the middle of a transaction: its journal holds the block to restore.\<close>

definition new_block :: bytes where "new_block = replicate BLOCK_SIZE 7"

definition old_journal :: bytes where "old_journal = journal_bytes 4096 1 [(5, [(1, first_block)])]"

lemma old_journal_blocks:
  "length old_journal = 3 * BLOCK_SIZE" "replay old_journal [new_block] = Inr [first_block]" "starts_with (take BLOCK_SIZE old_journal) JOURNAL_MAGIC"
proof -
  have s: "sector_ok 4096" by (simp add: sector_ok_def BLOCK_SIZE_def)
  have "length (records_bytes 5 [(1, first_block)]) = 4104"
    by (simp add: records_bytes_def record_bytes_def first_block_ok(2)) (simp add: BLOCK_SIZE_def)
  then show l: "length old_journal = 3 * BLOCK_SIZE"
    using length_segment [OF s, of 1 "(5, [(1, first_block)])"] by (simp add: old_journal_def journal_bytes_def BLOCK_SIZE_def)
  then show "replay old_journal [new_block] = Inr [first_block]"
    using replay_preimage [of 4096 "[(5, [(1, first_block)])]" "[first_block]" "[new_block]"] s first_block_ok(2)
    by (simp add: old_journal_def BLOCK_SIZE_def)
  show "starts_with (take BLOCK_SIZE old_journal) JOURNAL_MAGIC"
    by (simp add: old_journal_def journal_bytes_def segment_bytes_def seg_header_def JOURNAL_MAGIC_def starts_with_def BLOCK_SIZE_def)
qed

lemma main_decrypts:
  assumes "db_inv E c name st bs m p"
  obtains f where "lookup_file p name = Some f"
    and "decrypt_whole_file E (dev_of p f) (st_crypto st) (st_uuid st) (file_id_for E name) = Inr (concat bs)"
proof -
  note i = assms [unfolded db_inv_def]
  obtain f where f: "lookup_file p name = Some f" "f_crypto f = st_crypto st" "f_key_domain f = st_uuid st" "f_file_id f = file_id_for E name"
      "holds E c (dev_of p f) (length bs) (\<lambda>k. bs ! k)" "length bs * BLOCK_SIZE \<le> DEV_LIMIT"
    using i by (auto simp: main_holds_def)
  have "sah_ok E c" using i by (simp add: pool_inv_def)
  from decrypt_region [OF this holds_size [OF f(5)] f(6)] f(2-5)
  have "decrypt_whole_file E (dev_of p f) (st_crypto st) (st_uuid st) (file_id_for E name) = Inr (concat bs)"
    by (simp add: holds_def open_block_def)
  then show ?thesis using that f(1) by blast
qed

lemma journal_ready_db:
  obtains p m where "db_inv mem_env (\<lambda>h. h) a_db (new_state\<lparr>st_generation := 2, st_root := root_of_blocks mem_env [first_block]\<rparr>) [new_block] m p"
    and "journal_ready mem_env a_db (new_state\<lparr>st_generation := 2, st_root := root_of_blocks mem_env [first_block]\<rparr>) p"
    and "rng_good 5 (p_rng p)" and "unat (fst (anchor_load mem_env p)) = 3"
proof -
  let ?s = "new_state\<lparr>st_generation := 2, st_root := root_of_blocks mem_env [first_block]\<rparr>" and ?jn = "journal_name a_db"
  obtain p0 where p0: "db_inv mem_env (\<lambda>h. h) a_db new_state [first_block] (first_payload mem_env a_db (replicate 16 4)) p0"
      "rng_good 17 (p_rng p0)" "unat (fst (anchor_load mem_env p0)) = 1"
    using one_block_db by metis
  have r: "rng_good (12 + 5) (p_rng p0)" using p0(2) by simp
  have g2: "new_state\<lparr>st_generation := st_generation new_state + 1, st_root := root_of_blocks mem_env [first_block]\<rparr> = ?s" by (simp add: new_state_def)
  define m where "m = commit_payload mem_env a_db new_state [first_block] p0"
  have "db_inv mem_env (\<lambda>h. h) a_db ?s [first_block] m p1 \<Longrightarrow> rng_good 12 (p_rng p1) \<Longrightarrow> unat (fst (anchor_load mem_env p1)) = 3 \<Longrightarrow> thesis" for p1
  proof -
    assume p1: "db_inv mem_env (\<lambda>h. h) a_db ?s [first_block] m p1" "rng_good 12 (p_rng p1)" "unat (fst (anchor_load mem_env p1)) = 3"
    note i = p1(1) [unfolded db_inv_def]
    obtain f where f: "lookup_file p1 a_db = Some f" "f_crypto f = new_key" "f_key_domain f = new_uuid" "f_file_id f = file_id_for mem_env a_db"
      using i by (auto simp: main_holds_def new_state_def)
    have k: "key_ok (mem_env, new_key)" by (simp add: key_ok_def len_simps)
    have "\<forall>b \<in> set [new_block]. length b = BLOCK_SIZE" by (simp add: new_block_def)
    from sealed_region [OF k this, of "file_id_for mem_env a_db" new_uuid] obtain x where x: "length x = length [new_block] * PHYS_BLOCK"
      "\<forall>i < length [new_block]. open_into mem_env new_key (file_id_for mem_env a_db) new_uuid (word_of_nat i) (slice (i * PHYS_BLOCK) PHYS_BLOCK x) = Inr ([new_block] ! i)"
      by blast
    let ?h = "take HEADER_OFFSET_DATA (handle f) @ x"
    have "handle_ok mem_env (\<lambda>h. h) (Some a_db) (handle f)" using i f(1) by (auto simp: pool_inv_def)
    then have h: "handle_ok mem_env (\<lambda>h. h) (Some a_db) ?h" and lt: "length (take HEADER_OFFSET_DATA (handle f)) = HEADER_OFFSET_DATA"
      by (auto simp: handle_ok_def header_sizes min_def)
    have hold: "holds mem_env (\<lambda>h. h) (dev_of p1 (f\<lparr>handle := ?h\<rparr>)) (length [new_block]) (\<lambda>k. [new_block] ! k)"
      using x f(2-4) lt by (simp add: holds_def open_block_def slice_append_right)
    have lim: "length [new_block] * BLOCK_SIZE \<le> DEV_LIMIT" by (simp add: DEV_LIMIT_def BLOCK_SIZE_def)
    note i2 = db_inv_main [OF p1(1) f(1) h hold lim]
    let ?p2 = "put_file a_db (f\<lparr>handle := ?h, logical_size := Some (length [new_block] * BLOCK_SIZE)\<rparr>) p1"
    let ?js = "chunks_exact BLOCK_SIZE old_journal"
    have js: "concat ?js = old_journal" "\<forall>b \<in> set ?js. length b = BLOCK_SIZE" "length ?js = 3"
      using chunks_exact_blocks [of BLOCK_SIZE old_journal 3] old_journal_blocks(1) by (auto simp: BLOCK_SIZE_def)
    obtain y where y: "length y = length ?js * PHYS_BLOCK"
      "\<forall>i < length ?js. open_into mem_env new_key (file_id_for mem_env ?jn) new_uuid (word_of_nat i) (slice (i * PHYS_BLOCK) PHYS_BLOCK y) = Inr (?js ! i)"
      using sealed_region [OF k js(2), of "file_id_for mem_env ?jn" new_uuid] by blast
    let ?hd = "header_of ?jn 0x100 @ replicate (HEADER_OFFSET_DATA - HEADER_CORPUS_SIZE) 0"
    let ?jf = "blank_file\<lparr>handle := ?hd @ y, f_file_id := file_id_for mem_env ?jn, logical_size := Some 0\<rparr>"
    have nj: "name_ok ?jn" by (rule name_ok_ascii) (auto simp: journal_name_def)
    have fp: "flags_persist mem_env 0x100"
      using flags_persist_main [OF mem_env_flags] by (simp add: mem_env_def prims.extend_def)
    have lh: "length (header_of ?jn 0x100) = HEADER_CORPUS_SIZE"
      by (rule length_header_of) (simp add: HEADER_MAX_FILENAME_SIZE_def journal_name_def)
    then have lhd: "length ?hd = HEADER_OFFSET_DATA" by (simp add: header_sizes)
    have hj: "handle_ok mem_env (\<lambda>h. h) (Some ?jn) (handle ?jf)"
      using hdr_name_header [OF nj fp] lh lhd by (simp add: handle_ok_def)
    have i3: "db_inv mem_env (\<lambda>h. h) a_db ?s [new_block] m (put_file ?jn ?jf ?p2)" (is "db_inv _ _ _ _ _ _ ?p3")
      by (rule db_inv_journal [OF i2 hj]) simp_all
    have lj: "lookup_file ?p3 ?jn = Some ?jf" by simp
    have dj: "decrypt_whole_file mem_env (dev_of ?p3 ?jf) new_key new_uuid (file_id_for mem_env ?jn) = Inr (concat ?js)"
      by (rule decrypt_region [OF mem_env_ok]) (use y lhd js(3) in \<open>simp_all add: slice_append_right DEV_LIMIT_def BLOCK_SIZE_def\<close>)
    obtain f3 where f3: "lookup_file ?p3 a_db = Some f3"
        "decrypt_whole_file mem_env (dev_of ?p3 f3) new_key new_uuid (file_id_for mem_env a_db) = Inr new_block"
      using main_decrypts [OF i3] by (auto simp: new_state_def)
    have cx: "chunks_exact BLOCK_SIZE new_block = [new_block]"
      using chunks_exact_concat [of BLOCK_SIZE "[new_block]"] by (simp add: new_block_def BLOCK_SIZE_def)
    have rep: "replay_journal_root mem_env a_db ?jn new_key new_uuid ?p3 = Inr (root_of_blocks mem_env [first_block])"
      unfolding replay_journal_root_def lj f3(1) option.case dj [unfolded js(1)] f3(2) try_then.simps cx old_journal_blocks(2) ..
    have b0: "?js ! 0 = take BLOCK_SIZE old_journal"
      using old_journal_blocks(1) by (subst chunks_exact.simps) (simp add: BLOCK_SIZE_def)
    have sl: "slice HEADER_OFFSET_DATA PHYS_BLOCK (?hd @ y) = slice 0 PHYS_BLOCK y" using lhd by (simp add: slice_append_right)
    have l0: "length (slice 0 PHYS_BLOCK y) = PHYS_BLOCK" using y(1) js(3) by simp
    have o0: "open_into mem_env new_key (file_id_for mem_env ?jn) new_uuid 0 (slice 0 PHYS_BLOCK y) = Inr (take BLOCK_SIZE old_journal)"
      using y(2) [rule_format, of 0] js(3) b0 by simp
    have ps: "phys_size mem_env (dev_of ?p3 ?jf) = Inr (3 * PHYS_BLOCK)" using phys_size_of [OF mem_env_ok, of ?p3 ?jf] lhd y(1) js(3) by simp
    have pr: "phys_read mem_env (dev_of ?p3 ?jf) PHYS_BLOCK 0 = Inr (slice 0 PHYS_BLOCK y)"
      using sl by (simp add: phys_read_def usize_add_def HEADER_OFFSET_DATA_def sah_okD(2) [OF mem_env_ok])
    have "hot_journal mem_env a_db new_uuid new_key ?p3"
      unfolding hot_journal_def lj option.case journal_is_hot_def ps sum.case pr using l0 o0 old_journal_blocks(3) by simp
    then have jr: "journal_ready mem_env a_db ?s ?p3" using rep by (simp add: journal_ready_def new_state_def)
    have al: "anchor_load mem_env ?p3 = anchor_load mem_env p1" by (rule anchor_rest_frame(1); simp)
    have "rng_good 5 (p_rng ?p3)" using p1(2) by (auto elim: rng_good_less [rotated])
    moreover have "unat (fst (anchor_load mem_env ?p3)) = 3" unfolding al by (rule p1(3))
    ultimately show thesis by (rule that [OF i3 jr])
  qed
  moreover obtain p1 where "db_inv mem_env (\<lambda>h. h) a_db ?s [first_block] m p1" "rng_good 12 (p_rng p1)" "unat (fst (anchor_load mem_env p1)) = 3"
    using commit_effect [OF p0(1) r, unfolded g2] p0(3) unfolding m_def by (auto simp: new_state_def)
  ultimately show thesis by blast
qed

theorem crashed_commit_reopens_witness:
  "\<exists>p p' q' img. map_option st_generation (map_of (dbs p) a_db) = Some 2
    \<and> on_main_synced mem_env a_db (p\<lparr>p_fault := arm 1 fault_new\<rparr>) = (Inr (), p')
    \<and> open_main_db mem_env a_db (p'\<lparr>p_fault := fault_new, p_rng := replicate 2 (Some (replicate 24 9))\<rparr>) = (Inr (), q')
    \<and> restored_image mem_env a_db new_uuid [new_block] q' = Inr img \<and> root_of_blocks mem_env img = root_of_blocks mem_env [first_block]"
proof -
  let ?s = "new_state\<lparr>st_generation := 2, st_root := root_of_blocks mem_env [first_block]\<rparr>"
  obtain p m where p: "db_inv mem_env (\<lambda>h. h) a_db ?s [new_block] m p" "journal_ready mem_env a_db ?s p" "rng_good 5 (p_rng p)"
      "unat (fst (anchor_load mem_env p)) = 3"
    by (rule journal_ready_db)
  have g: "st_generation ?s = 2" "st_root ?s \<noteq> ZERO_ROOT" using toy_root by simp_all
  obtain p1 f' where c: "on_main_synced mem_env a_db (p\<lparr>p_fault := arm 1 fault_new\<rparr>) = (Inr (), p1\<lparr>p_fault := f'\<rparr>)" "pool_inv mem_env (\<lambda>h. h) p1"
    using commit_gated [OF p(1,3), of "arm 1 fault_new"] p(4) by auto
  let ?q = "(p1\<lparr>p_fault := f'\<rparr>)\<lparr>p_fault := fault_new, p_rng := replicate 2 (Some (replicate 24 9))\<rparr>"
  have "pool_inv mem_env (\<lambda>h. h) ?q" using c(2) by (simp add: pool_inv_def healthy_def fault_new_def lookup_file_def)
  moreover have "handles ?q = handles (p1\<lparr>p_fault := f'\<rparr>)" by (simp add: handles_def lookup_file_def fun_eq_iff)
  moreover have "rng_good 2 (p_rng ?q)" using rng_good_replicate [of "replicate 24 9" 2 2] by (simp add: NONCE_LEN_def)
  ultimately obtain q' img where q': "open_main_db mem_env a_db ?q = (Inr (), q')"
      "restored_image mem_env a_db (st_uuid ?s) [new_block] q' = Inr img" "root_of_blocks mem_env img = st_root ?s"
    using crashed_commit_reopens [where q = ?q, OF p(1,3) _ _ _ c(1)] p(2,4) g toy_root by auto
  have "map_option st_generation (map_of (dbs p) a_db) = Some 2" using p(1) by (simp add: db_inv_def)
  moreover have "restored_image mem_env a_db new_uuid [new_block] q' = Inr img" "root_of_blocks mem_env img = root_of_blocks mem_env [first_block]"
    using q'(2,3) by (simp_all add: new_state_def)
  ultimately show ?thesis using c(1) q'(1) by blast
qed

end
