(* ===== verification/Self_Check.thy ===== *)
theory Self_Check
  imports Session
begin

text \<open>
  The self-checks that the sync test calls before its devices are set up, \<open>sync::self_check\<close>,
  \<open>relay_auth::self_check\<close> and \<open>device::self_check\<close>, and the helpers of \<open>lib.rs\<close> that carry the image of
  one database from device to device there. Each check returns the first check that missed, so
  that a pass is a statement about the functions checked. The first needs no primitive and passes
  outright; the other two pass for primitives with the documented behaviour that tell the handful
  of keys, identifiers and messages of the check apart.
\<close>

section \<open>Version vectors and reconciliation\<close>

datatype sync_miss =
    NotEqual | NotDominates | NotDominatedBy | NotConcurrent | NotForkBothWays | WinnerNotFlipped
  | WinnersDiffer | VVDecode sync_error | VVRoundTrip

definition sync_self_check :: "sync_miss + unit" where
  "sync_self_check =
     (let a = replicate 16 0xa1; b = replicate 16 0xb2;
          x = vv_increment a vv_new; y = vv_increment a vv_new
      in if vv_relation x y \<noteq> EqualVV then Inl NotEqual
      else let y = vv_increment a y in
      if vv_relation y x \<noteq> Dominates then Inl NotDominates
      else if vv_relation x y \<noteq> DominatedBy then Inl NotDominatedBy
      else let z = vv_increment b (vv_increment a vv_new) in
      if vv_relation y z \<noteq> Concurrent then Inl NotConcurrent
      else (case (reconcile y z, reconcile z y) of
        (Fork f, Fork r) \<Rightarrow>
          if f = r then Inl WinnerNotFlipped
          else if (if f then z else y) \<noteq> (if r then y else z) then Inl WinnersDiffer
          else let enc = vv_encode z in
          try_then (map_err VVDecode (vv_decode enc 0)) (\<lambda>(dec, at).
            if dec \<noteq> z \<or> at \<noteq> length enc then Inl VVRoundTrip else Inr ())
      | _ \<Rightarrow> Inl NotForkBothWays))"

text \<open>The vectors the check works on: one device twice, and two devices once each.\<close>

definition check_id :: bytes where "check_id = replicate 16 0xa1"
definition check_id2 :: bytes where "check_id2 = replicate 16 0xb2"
definition check_z :: version_vector where "check_z = [(check_id, 1), (check_id2, 1)]"

lemma check_ids:
  "check_id < check_id2" "\<not> check_id2 < check_id" "check_id \<noteq> check_id2" "check_id2 \<noteq> check_id"
  "length check_id = 16" "length check_id2 = 16"
proof -
  have b: "(0xa1 :: byte) < 0xb2" by simp
  have l: "x < y \<Longrightarrow> replicate (Suc n) x < replicate (Suc n) y" for x y :: byte and n by simp
  have n: "(16 :: nat) = Suc 15" by simp
  show "check_id < check_id2" unfolding check_id_def check_id2_def n by (rule l [OF b])
  then show "\<not> check_id2 < check_id" "check_id \<noteq> check_id2" "check_id2 \<noteq> check_id" by auto
qed (simp_all add: check_id_def check_id2_def)

lemmas check_get = vv_get_def bt_get_def check_z_def check_ids

lemma check_vectors:
  "vv_increment check_id vv_new = [(check_id, 1)]"
  "vv_increment check_id [(check_id, 1)] = [(check_id, 2)]"
  "vv_increment check_id2 [(check_id, 1)] = check_z"
  by (simp_all add: vv_increment_def vv_new_def sat_add_def check_get)

lemma check_relations:
  "vv_relation [(check_id, 1)] [(check_id, 1)] = EqualVV"
  "vv_relation [(check_id, 2)] [(check_id, 1)] = Dominates"
  "vv_relation [(check_id, 1)] [(check_id, 2)] = DominatedBy"
  "vv_relation [(check_id, 2)] check_z = Concurrent"
  "vv_relation check_z [(check_id, 2)] = Concurrent"
  by (simp_all add: vv_relation_def check_get)

lemma check_forks:
  "reconcile [(check_id, 2)] check_z = Fork False" "reconcile check_z [(check_id, 2)] = Fork True"
  unfolding reconcile_def check_relations
  by (simp_all add: incoming_wins_def vv_total_count_def vv_device_id_set_def sat_add_def check_z_def)

lemma check_decodes: "vv_decode (vv_encode check_z) 0 = Inr (check_z, length (vv_encode check_z))"
proof -
  have wf: "vv_wf check_z" using check_ids by (auto simp: vv_wf_def bt_inv_def check_z_def)
  then have "length (vv_encode check_z) = 52" by (simp add: length_vv_encode check_z_def)
  then show ?thesis using vv_codec.dec_at_enc [OF wf, of "[]" "[]"] by (simp add: USIZE_MAX_32_def)
qed

lemma sync_self_check_passes: "sync_self_check = Inr ()"
  by (simp add: sync_self_check_def Let_def flip: check_id_def check_id2_def)
    (simp add: check_vectors check_relations check_forks check_decodes)

section \<open>Relay authorization\<close>

datatype relay_miss =
    KeyNotDeterministic | KeyNotPerDatabase | IdNotCommitment | SignOtherKey | PushRejected
  | PushOtherBlob | PushAsList | WrongKeyAccepted | GetRejected

definition check_dek :: bytes where "check_dek = replicate 32 0x11"
definition check_uuid :: bytes where "check_uuid = ascii ''freehold-ra-uuid''"
definition other_uuid :: bytes where "other_uuid = check_uuid[0 := xor (check_uuid ! 0) 0xff]"
definition check_blob :: bytes where "check_blob = ascii ''opaque-sealed-bytes''"

definition relay_self_check :: "'z prims_scheme \<Rightarrow> relay_miss + unit" where
  "relay_self_check P =
     (let pk = relay_public_key P check_dek check_uuid in
      if pk \<noteq> relay_public_key P check_dek check_uuid then Inl KeyNotDeterministic
      else if relay_public_key P check_dek other_uuid = pk then Inl KeyNotPerDatabase
      else if sync_id P check_dek check_uuid \<noteq> sync_id_from_pubkey P pk
           \<or> length (sync_id P check_dek check_uuid) \<noteq> 16 then Inl IdNotCommitment
      else case relay_sign P check_dek check_uuid METHOD_PUSH check_blob of (spk, sig) \<Rightarrow>
      if spk \<noteq> pk then Inl SignOtherKey
      else if \<not> relay_verify P pk METHOD_PUSH check_blob sig then Inl PushRejected
      else if relay_verify P pk METHOD_PUSH (ascii ''different-bytes'') sig then Inl PushOtherBlob
      else if relay_verify P pk METHOD_LIST check_blob sig then Inl PushAsList
      else let wrong = relay_public_key P check_dek other_uuid in
      if relay_verify P wrong METHOD_PUSH check_blob sig then Inl WrongKeyAccepted
      else case relay_sign P check_dek check_uuid METHOD_GET [] of (_, rsig) \<Rightarrow>
      if \<not> relay_verify P pk METHOD_GET [] rsig then Inl GetRejected
      else Inr ())"

text \<open>
  The three presentations of the check that must be refused, as the key and the bytes a verifier
  would hand to the signature check.
\<close>

definition relay_presented :: "'z prims_scheme \<Rightarrow> (bytes \<times> bytes) list" where
  "relay_presented P =
     (let pk = relay_public_key P check_dek check_uuid; wrong = relay_public_key P check_dek other_uuid
      in [(pk, relay_message METHOD_PUSH (sync_id_from_pubkey P pk) (ascii ''different-bytes'')),
          (pk, relay_message METHOD_LIST (sync_id_from_pubkey P pk) check_blob),
          (wrong, relay_message METHOD_PUSH (sync_id_from_pubkey P wrong) check_blob)])"

lemma relay_self_check_passes:
  assumes "ed_ok P" and "hash_ok P"
    and "relay_public_key P check_dek other_uuid \<noteq> relay_public_key P check_dek check_uuid"
    and "\<forall>(k, m) \<in> set (relay_presented P). \<not> ed_verify P k m (snd (relay_sign P check_dek check_uuid METHOD_PUSH check_blob))"
  shows "relay_self_check P = Inr ()"
proof -
  let ?pk = "relay_public_key P check_dek check_uuid"
  have pk: "fst (relay_sign P check_dek check_uuid m x) = ?pk" for m x
    by (simp add: relay_sign_def relay_public_key_def Let_def)
  have ok: "relay_verify P ?pk m x (snd (relay_sign P check_dek check_uuid m x))" for m x
    using relay_sign_verifies [OF assms(1,2), of check_dek check_uuid m x] pk [of m x] by (metis prod.collapse)
  show ?thesis
    using assms(3,4) ok [of METHOD_PUSH check_blob] ok [of METHOD_GET "[]"] pk
    by (simp add: relay_self_check_def Let_def case_prod_beta' sync_id_def length_sync_id [OF assms(2)]
        relay_presented_def relay_verify_def split: if_splits)
qed

section \<open>Device certificates\<close>

text \<open>
  \<open>None\<close> is an abort of the functions checked, as in their own definitions. A string of the claim's
  alphabet has one byte to a character, so the mutation of a middle character is an update by index.
\<close>

datatype device_miss =
    DeviceKeyNotDeterministic | IdVector str str | IdShape str | SameIdTwice | CapsCanon str
  | CapsGate | ClaimUnparsed | ClaimFields | ClaimNotIdempotent | IssueNotCanonical | ValidRejected
  | OtherKeyAccepted | CapsTampered | ExpiryTampered | ClaimMutated | WrongTrustAccepted
  | IdNotHashAccepted | ExpiredAccepted | EarlyAccepted | ShortKeyAccepted | ShortSigAccepted
  | LongTrustAccepted | ZeroSigAccepted

definition device_id_check :: "'z prims_scheme \<Rightarrow> device_miss + (bytes \<times> str \<times> bytes)" where
  "device_id_check P =
     (let dev_seed = replicate 32 0x24; dev_pk = device_public_key P dev_seed in
      if dev_pk \<noteq> device_public_key P dev_seed then Inl DeviceKeyNotDeterministic
      else let did = device_id_from_pubkey P dev_pk;
               d = sha256 P (DEVICE_ID_LABEL @ dev_pk);
               expect = ascii ''dev_'' @ base64url_encode (take DEVICE_ID_BYTES d)
      in if did \<noteq> expect then Inl (IdVector did expect)
      else if take 4 did \<noteq> ascii ''dev_'' \<or> length did \<noteq> 4 + 16 then Inl (IdShape did)
      else let other_pk = device_public_key P (replicate 32 0x25) in
      if device_id_from_pubkey P other_pk = did then Inl SameIdTwice
      else Inr (dev_pk, did, other_pk))"

definition check_caps :: "str list" where
  "check_caps = [ascii ''sync.write'', ascii ''sync.read'', ascii ''sync.read'', ascii ''  '']"

definition canon_caps :: str where
  "canon_caps = ascii ''sync.read'' @ [NEWLINE] @ ascii ''sync.write''"

definition device_caps_check :: "device_miss + str" where
  "device_caps_check =
     (let canon = canonicalize_caps check_caps in
      if canon \<noteq> canon_caps then Inl (CapsCanon canon)
      else if \<not> caps_well_formed canon
           \<or> caps_well_formed (ascii ''sync.write'' @ [NEWLINE] @ ascii ''sync.read'') then Inl CapsGate
      else Inr canon)"

definition CHECK_ISSUED :: u64 where "CHECK_ISSUED = 1700000000"
definition CHECK_EXPIRY :: u64 where "CHECK_EXPIRY = CHECK_ISSUED + 86400"

definition device_claim_check ::
  "bytes \<Rightarrow> str \<Rightarrow> bytes \<Rightarrow> str \<Rightarrow> (device_miss + str) option" where
  "device_claim_check trust_pk did dev_pk canon =
     Option.bind (build_device_cert_claim trust_pk did dev_pk check_caps CHECK_ISSUED CHECK_EXPIRY) (\<lambda>claim.
     case parse_device_cert_claim claim of
       None \<Rightarrow> Some (Inl ClaimUnparsed)
     | Some parsed \<Rightarrow>
       if cf_trust_pubkey parsed \<noteq> trust_pk \<or> cf_device_id parsed \<noteq> did \<or> cf_device_pubkey parsed \<noteq> dev_pk
         \<or> cf_caps parsed \<noteq> canon \<or> cf_issued_at parsed \<noteq> CHECK_ISSUED \<or> cf_expiry parsed \<noteq> CHECK_EXPIRY
       then Some (Inl ClaimFields)
       else Option.bind (build_device_cert_claim (cf_trust_pubkey parsed) (cf_device_id parsed)
           (cf_device_pubkey parsed) [cf_caps parsed] (cf_issued_at parsed) (cf_expiry parsed)) (\<lambda>again.
         if again = claim then Some (Inr claim)
         else let scopes = split_on NEWLINE (cf_caps parsed) in
         Option.bind (build_device_cert_claim (cf_trust_pubkey parsed) (cf_device_id parsed)
             (cf_device_pubkey parsed) scopes (cf_issued_at parsed) (cf_expiry parsed)) (\<lambda>again.
           if again \<noteq> claim then Some (Inl ClaimNotIdempotent) else Some (Inr claim))))"

text \<open>A presentation that must be refused: the check goes on only when it was.\<close>

fun refuse_then :: "'e \<Rightarrow> bool option \<Rightarrow> ('e + unit) option \<Rightarrow> ('e + unit) option" where
  "refuse_then e None k = None"
| "refuse_then e (Some True) k = Some (Inl e)"
| "refuse_then e (Some False) k = k"

definition mutate_middle :: "str \<Rightarrow> str option" where
  "mutate_middle cs =
     (let mid = length cs div 2 in
      if mid \<ge> length cs then None else Some (cs[mid := (if cs ! mid = 65 then 66 else 65)]))"

definition device_tamper_check ::
  "'z prims_scheme \<Rightarrow> bytes \<Rightarrow> bytes \<Rightarrow> str \<Rightarrow> bytes \<Rightarrow> bytes \<Rightarrow> str \<Rightarrow> bytes \<Rightarrow> u64
     \<Rightarrow> (device_miss + unit) option \<Rightarrow> (device_miss + unit) option" where
  "device_tamper_check P tseed trust_pk did dev_pk other_pk claim2 sig now rest =
     refuse_then OtherKeyAccepted (verify_device_cert P trust_pk claim2 other_pk sig now)
       (Option.bind (build_device_cert_claim trust_pk did dev_pk [ascii ''sync.admin''] CHECK_ISSUED CHECK_EXPIRY) (\<lambda>tampered.
        refuse_then CapsTampered (verify_device_cert P trust_pk tampered dev_pk sig now)
       (Option.bind (issue_device_cert P tseed dev_pk check_caps CHECK_ISSUED (CHECK_EXPIRY + 1)) (\<lambda>(later_claim, _).
        refuse_then ExpiryTampered (verify_device_cert P trust_pk later_claim dev_pk sig now)
       (Option.bind (mutate_middle claim2) (\<lambda>bad.
        refuse_then ClaimMutated (verify_device_cert P trust_pk bad dev_pk sig now) rest))))))"

definition device_refusal_check ::
  "'z prims_scheme \<Rightarrow> bytes \<Rightarrow> bytes \<Rightarrow> bytes \<Rightarrow> bytes \<Rightarrow> str \<Rightarrow> bytes \<Rightarrow> u64 \<Rightarrow> (device_miss + unit) option" where
  "device_refusal_check P tseed trust_pk dev_pk other_pk claim2 sig now =
     (let wrong_trust_pk = vault_trust_public_key P (replicate 32 0x78); bad_id = device_id_from_pubkey P other_pk in
      refuse_then WrongTrustAccepted (verify_device_cert P wrong_trust_pk claim2 dev_pk sig now)
       (Option.bind (build_device_cert_claim trust_pk bad_id dev_pk check_caps CHECK_ISSUED CHECK_EXPIRY) (\<lambda>forged_claim.
        Option.bind (attest_with_seed P tseed forged_claim bad_id CHECK_ISSUED CHECK_EXPIRY) (\<lambda>forged_sig.
        refuse_then IdNotHashAccepted (verify_device_cert P trust_pk forged_claim dev_pk forged_sig now)
       (refuse_then ExpiredAccepted (verify_device_cert P trust_pk claim2 dev_pk sig (CHECK_EXPIRY + 1))
       (refuse_then EarlyAccepted (verify_device_cert P trust_pk claim2 dev_pk sig (CHECK_ISSUED - 1))
       (refuse_then ShortKeyAccepted (session_verify_device_cert P trust_pk claim2 (replicate 31 0) sig now)
       (refuse_then ShortSigAccepted (session_verify_device_cert P trust_pk claim2 dev_pk (replicate 63 0) now)
       (refuse_then LongTrustAccepted (session_verify_device_cert P (replicate 33 0) claim2 dev_pk sig now)
       (refuse_then ZeroSigAccepted (verify_device_cert P trust_pk claim2 dev_pk (replicate 64 0) now)
         (Some (Inr ()))))))))))))"

definition device_self_check :: "'z prims_scheme \<Rightarrow> (device_miss + unit) option" where
  "device_self_check P =
     (case device_id_check P of
        Inl e \<Rightarrow> Some (Inl e)
      | Inr (dev_pk, did, other_pk) \<Rightarrow>
        let tseed = replicate 32 0x77; trust_pk = vault_trust_public_key P tseed in
        (case device_caps_check of
           Inl e \<Rightarrow> Some (Inl e)
         | Inr canon \<Rightarrow>
           Option.bind (device_claim_check trust_pk did dev_pk canon) (\<lambda>r.
           case r of
             Inl e \<Rightarrow> Some (Inl e)
           | Inr claim \<Rightarrow>
             Option.bind (issue_device_cert P tseed dev_pk check_caps CHECK_ISSUED CHECK_EXPIRY) (\<lambda>(claim2, sig).
             if claim2 \<noteq> claim then Some (Inl IssueNotCanonical)
             else let now = CHECK_ISSUED + 100 in
             Option.bind (verify_device_cert P trust_pk claim2 dev_pk sig now) (\<lambda>ok.
             if \<not> ok then Some (Inl ValidRejected)
             else device_tamper_check P tseed trust_pk did dev_pk other_pk claim2 sig now
                    (device_refusal_check P tseed trust_pk dev_pk other_pk claim2 sig now))))))"

text \<open>The keys, the identifier and the fields of the check.\<close>

definition dev_key :: "'z prims_scheme \<Rightarrow> bytes" where "dev_key P = device_public_key P (replicate 32 0x24)"
definition other_key :: "'z prims_scheme \<Rightarrow> bytes" where "other_key P = device_public_key P (replicate 32 0x25)"
definition trust_key :: "'z prims_scheme \<Rightarrow> bytes" where "trust_key P = vault_trust_public_key P (replicate 32 0x77)"

definition check_fields :: "'z prims_scheme \<Rightarrow> bytes \<Rightarrow> str \<Rightarrow> u64 \<Rightarrow> cert_fields" where
  "check_fields P of_key caps expiry =
     \<lparr>cf_trust_pubkey = trust_key P, cf_device_id = device_id_from_pubkey P of_key, cf_device_pubkey = dev_key P,
      cf_caps = caps, cf_issued_at = CHECK_ISSUED, cf_expiry = expiry\<rparr>"

definition check_claim :: "'z prims_scheme \<Rightarrow> str" where
  "check_claim P = claim_of (check_fields P (dev_key P) canon_caps CHECK_EXPIRY)"

lemma canon_check:
  "canonicalize_caps check_caps = canon_caps" "canonicalize_caps [canon_caps] = canon_caps"
  "canonicalize_caps [ascii ''sync.admin''] = ascii ''sync.admin''"
  "caps_well_formed canon_caps" "\<not> caps_well_formed (ascii ''sync.write'' @ [NEWLINE] @ ascii ''sync.read'')"
  by code_simp+

lemma check_fields_wf:
  assumes "ed_ok P" and "hash_ok P" and "length caps < 32" and "\<forall>b \<in> set caps. b < 0x80"
  shows "fields_wf (check_fields P k caps ex)" and "length (claim_of (check_fields P k caps ex)) < 300"
    and "0 < length (claim_of (check_fields P k caps ex))"
proof -
  have k: "length (trust_key P) = 32" "length (dev_key P) = 32"
    using assms(1) by (simp_all add: ed_ok_def trust_key_def dev_key_def vault_trust_public_key_def device_public_key_def)
  have c: "utf8_valid caps" using assms(4) by (intro utf8_valid_ascii) blast
  show "fields_wf (check_fields P k caps ex)"
    using k c assms(3) device_id_shape [OF assms(2), of k] by (simp add: fields_wf_def check_fields_def fits_u16_def)
  have "length (claim_bytes (check_fields P k caps ex)) < 200" "0 < length (claim_bytes (check_fields P k caps ex))"
    using k assms(3) device_id_shape(1) [OF assms(2), of k]
    by (simp_all add: claim_bytes_def claim_fields_def field16_def CERT_DOMAIN_def check_fields_def)
  then show "length (claim_of (check_fields P k caps ex)) < 300" "0 < length (claim_of (check_fields P k caps ex))"
    unfolding claim_of_def length_base64url by linarith+
qed

text \<open>A claim is refused on its fields, or on a signature that is not one over its message.\<close>

definition presented_message :: "str \<Rightarrow> bytes option" where
  "presented_message c = (case parse_device_cert_claim c of
     None \<Rightarrow> None | Some f \<Rightarrow> attest_message c (cf_device_id f) (cf_issued_at f) (cf_expiry f))"

lemma refuses_unsigned:
  assumes "length c < 300" and "\<forall>m. presented_message c = Some m \<longrightarrow> \<not> ed_verify P tpk m sig"
  shows "verify_device_cert P tpk c dpk sig now = Some False"
proof (cases "parse_device_cert_claim c")
  case (Some f)
  have w: "fields_wf f" by (rule parse_claim_wf [OF Some])
  then obtain m where m: "attest_message c (cf_device_id f) (cf_issued_at f) (cf_expiry f) = Some m"
    using assms(1) by (auto simp: attest_message_def fits_u16_def fields_wf_def)
  then have "\<not> ed_verify P tpk m sig" using assms(2) Some by (simp add: presented_message_def)
  then show ?thesis using Some m canonical_wf [OF w] by (auto simp: verify_device_cert_def attest_verify_def)
qed (simp add: verify_device_cert_def)

lemma refuses_fields:
  assumes "fields_wf f" and "cf_trust_pubkey f \<noteq> tpk \<or> cf_device_pubkey f \<noteq> dpk \<or> cf_device_id f \<noteq> device_id_from_pubkey P dpk"
  shows "verify_device_cert P tpk (claim_of f) dpk sig now = Some False"
  using assms parse_claim_of [OF assms(1)] canonical_wf [OF assms(1)] by (auto simp: verify_device_cert_def claim_of_def)

lemma build_claim:
  assumes "fields_wf f" and "cf_caps f = canonicalize_caps caps"
  shows "build_device_cert_claim (cf_trust_pubkey f) (cf_device_id f) (cf_device_pubkey f) caps (cf_issued_at f) (cf_expiry f)
    = Some (claim_of f)"
proof -
  have "f = \<lparr>cf_trust_pubkey = cf_trust_pubkey f, cf_device_id = cf_device_id f, cf_device_pubkey = cf_device_pubkey f,
      cf_caps = canonicalize_caps caps, cf_issued_at = cf_issued_at f, cf_expiry = cf_expiry f\<rparr>"
    using assms(2) by simp
  then show ?thesis using canonical_wf [OF assms(1)] by (simp add: build_device_cert_claim_def claim_of_def)
qed

text \<open>The presentations that only a second signature could admit.\<close>

definition device_presented :: "'z prims_scheme \<Rightarrow> str list" where
  "device_presented P =
     [claim_of (check_fields P (dev_key P) (ascii ''sync.admin'') CHECK_EXPIRY),
      claim_of (check_fields P (dev_key P) canon_caps (CHECK_EXPIRY + 1))]
     @ (case mutate_middle (check_claim P) of None \<Rightarrow> [] | Some c \<Rightarrow> [c])"

lemma canon_ascii: "length canon_caps < 32" "\<forall>b \<in> set canon_caps. b < 0x80"
    "length (ascii ''sync.admin'') < 32" "\<forall>b \<in> set (ascii ''sync.admin''). b < 0x80"
  by (simp_all add: canon_caps_def NEWLINE_def)

lemma issue_check:
  assumes "ed_ok P" and "hash_ok P"
  shows "\<exists>sig. issue_device_cert P (replicate 32 0x77) (dev_key P) check_caps CHECK_ISSUED ex
    = Some (claim_of (check_fields P (dev_key P) canon_caps ex), sig)"
proof -
  let ?f = "check_fields P (dev_key P) canon_caps ex"
  note w = check_fields_wf [OF assms canon_ascii(1,2), of "dev_key P" ex]
  have "build_device_cert_claim (trust_key P) (device_id_from_pubkey P (dev_key P)) (dev_key P) check_caps CHECK_ISSUED ex
      = Some (claim_of ?f)"
    using build_claim [OF w(1), of check_caps] by (simp add: check_fields_def canon_check)
  then show ?thesis
    using w(2) device_id_shape(1) [OF assms(2), of "dev_key P"]
    by (simp add: issue_device_cert_def attest_with_seed_def attest_message_def fits_u16_def flip: trust_key_def)
qed

text \<open>The groups of the check, each on the values the earlier ones hand over.\<close>

lemma device_ids_pass:
  assumes "hash_ok P" and "device_id_from_pubkey P (other_key P) \<noteq> device_id_from_pubkey P (dev_key P)"
  shows "device_id_check P = Inr (dev_key P, device_id_from_pubkey P (dev_key P), other_key P)"
  using assms(2) device_id_shape(1) [OF assms(1), of "dev_key P"]
  by (simp add: device_id_check_def Let_def device_id_from_pubkey_def flip: dev_key_def other_key_def)

lemma device_claim_passes:
  assumes "ed_ok P" and "hash_ok P"
  shows "device_claim_check (trust_key P) (device_id_from_pubkey P (dev_key P)) (dev_key P) canon_caps = Some (Inr (check_claim P))"
proof -
  let ?f = "check_fields P (dev_key P) canon_caps CHECK_EXPIRY"
  have w: "fields_wf ?f" by (rule check_fields_wf(1) [OF assms canon_ascii(1,2)])
  show ?thesis
    using build_claim [OF w, of check_caps] build_claim [OF w, of "[canon_caps]"] parse_claim_of [OF w]
    by (simp add: device_claim_check_def check_claim_def canon_check) (simp add: check_fields_def)
qed

lemma device_tampering_passes:
  assumes "ed_ok P" and "hash_ok P" and "dev_key P \<noteq> other_key P"
    and "\<forall>c \<in> set (device_presented P). \<forall>m. presented_message c = Some m \<longrightarrow> \<not> ed_verify P (trust_key P) m sig"
  shows "device_tamper_check P (replicate 32 0x77) (trust_key P) (device_id_from_pubkey P (dev_key P)) (dev_key P) (other_key P)
    (check_claim P) sig now rest = rest"
proof -
  let ?f = "check_fields P (dev_key P)" and ?k = "trust_key P"
  note w = check_fields_wf [OF assms(1,2) canon_ascii(1,2), of "dev_key P"]
  note wa = check_fields_wf [OF assms(1,2) canon_ascii(3,4), of "dev_key P"]
  have o: "verify_device_cert P ?k (check_claim P) (other_key P) sig now = Some False"
    unfolding check_claim_def by (rule refuses_fields [OF w(1)]) (use assms(3) in \<open>simp add: check_fields_def\<close>)
  have b: "build_device_cert_claim ?k (device_id_from_pubkey P (dev_key P)) (dev_key P) [ascii ''sync.admin''] CHECK_ISSUED CHECK_EXPIRY
      = Some (claim_of (?f (ascii ''sync.admin'') CHECK_EXPIRY))"
    using build_claim [OF wa(1) [of CHECK_EXPIRY], of "[ascii ''sync.admin'']"] unfolding canon_check by (simp add: check_fields_def)
  obtain s2 where i: "issue_device_cert P (replicate 32 0x77) (dev_key P) check_caps CHECK_ISSUED (CHECK_EXPIRY + 1)
      = Some (claim_of (?f canon_caps (CHECK_EXPIRY + 1)), s2)"
    using issue_check [OF assms(1,2)] by blast
  obtain bad where m: "mutate_middle (check_claim P) = Some bad" "length bad < 300"
    using w(2,3) [of CHECK_EXPIRY] by (auto simp: mutate_middle_def Let_def check_claim_def not_le)
  have r: "verify_device_cert P ?k c (dev_key P) sig now = Some False" if "c \<in> set (device_presented P)" "length c < 300" for c
    using assms(4) that by (intro refuses_unsigned) blast+
  show ?thesis
    unfolding device_tamper_check_def o b i m(1) bind.simps case_prod_conv refuse_then.simps
    using r w(2) wa(2) m by (simp add: device_presented_def)
qed

lemma check_verifies:
  assumes "ed_ok P" and "hash_ok P"
    and "issue_device_cert P (replicate 32 0x77) (dev_key P) check_caps CHECK_ISSUED CHECK_EXPIRY = Some (check_claim P, sig)"
  shows "verify_device_cert P (trust_key P) (check_claim P) (dev_key P) sig now = Some (CHECK_ISSUED \<le> now \<and> now \<le> CHECK_EXPIRY)"
proof -
  have k: "length (dev_key P) = 32" using assms(1) by (simp add: ed_ok_def dev_key_def device_public_key_def)
  have n: "\<forall>s \<in> set check_caps. NEWLINE \<notin> set s" by (simp add: check_caps_def NEWLINE_def)
  have u: "utf8_valid (canonicalize_caps check_caps)" unfolding canon_check using canon_ascii(2) by (intro utf8_valid_ascii) blast
  show ?thesis using issue_then_verify [OF assms(1,2) _ k n u assms(3)] by (simp add: trust_key_def)
qed

lemma device_refusals_pass:
  assumes "ed_ok P" and "hash_ok P"
    and "device_id_from_pubkey P (other_key P) \<noteq> device_id_from_pubkey P (dev_key P)"
    and "vault_trust_public_key P (replicate 32 0x78) \<noteq> trust_key P"
    and "issue_device_cert P (replicate 32 0x77) (dev_key P) check_caps CHECK_ISSUED CHECK_EXPIRY = Some (check_claim P, sig)"
    and "\<forall>m. presented_message (check_claim P) = Some m \<longrightarrow> \<not> ed_verify P (trust_key P) m (replicate 64 0)"
  shows "device_refusal_check P (replicate 32 0x77) (trust_key P) (dev_key P) (other_key P) (check_claim P) sig now = Some (Inr ())"
proof -
  let ?k = "trust_key P" and ?f = "check_fields P (dev_key P) canon_caps CHECK_EXPIRY"
  let ?g = "check_fields P (other_key P) canon_caps CHECK_EXPIRY"
  note w = check_fields_wf [OF assms(1,2) canon_ascii(1,2)]
  have t: "verify_device_cert P (vault_trust_public_key P (replicate 32 0x78)) (check_claim P) (dev_key P) sig now = Some False"
    unfolding check_claim_def by (rule refuses_fields [OF w(1)]) (use assms(4) in \<open>simp add: check_fields_def\<close>)
  have b: "build_device_cert_claim ?k (device_id_from_pubkey P (other_key P)) (dev_key P) check_caps CHECK_ISSUED CHECK_EXPIRY
      = Some (claim_of ?g)"
    using build_claim [OF w(1) [of "other_key P" CHECK_EXPIRY], of check_caps] unfolding canon_check by (simp add: check_fields_def)
  obtain fs where fs: "attest_with_seed P (replicate 32 0x77) (claim_of ?g) (device_id_from_pubkey P (other_key P))
      CHECK_ISSUED CHECK_EXPIRY = Some fs"
    using w(2) [of "other_key P" CHECK_EXPIRY] device_id_shape(1) [OF assms(2), of "other_key P"]
    by (simp add: attest_with_seed_def attest_message_def fits_u16_def)
  have i: "verify_device_cert P ?k (claim_of ?g) (dev_key P) fs now = Some False"
    by (rule refuses_fields [OF w(1)]) (use assms(3) in \<open>simp add: check_fields_def\<close>)
  have e: "verify_device_cert P ?k (check_claim P) (dev_key P) sig (CHECK_EXPIRY + 1) = Some False"
    "verify_device_cert P ?k (check_claim P) (dev_key P) sig (CHECK_ISSUED - 1) = Some False"
    using check_verifies [OF assms(1,2,5)] by (simp_all add: CHECK_EXPIRY_def CHECK_ISSUED_def)
  have z: "verify_device_cert P ?k (check_claim P) (dev_key P) (replicate 64 0) now = Some False"
    using w(2) by (intro refuses_unsigned [OF _ assms(6)]) (simp add: check_claim_def)
  show ?thesis
    by (simp add: device_refusal_check_def Let_def t b fs i e z session_verify_device_cert_def)
qed

text \<open>
  The check of the certificates passes, and does not abort, for signatures and hashes with the
  documented behaviour: it needs two device keys with different identifiers, two trust keys that
  differ, and that neither the check's own signature nor the all-zero one is a signature over
  another of the messages presented.
\<close>

lemma device_self_check_passes:
  assumes "ed_ok P" and "hash_ok P"
    and "device_id_from_pubkey P (other_key P) \<noteq> device_id_from_pubkey P (dev_key P)"
    and "vault_trust_public_key P (replicate 32 0x78) \<noteq> trust_key P"
    and "issue_device_cert P (replicate 32 0x77) (dev_key P) check_caps CHECK_ISSUED CHECK_EXPIRY = Some (check_claim P, sig)"
    and "\<forall>c \<in> set (device_presented P). \<forall>m. presented_message c = Some m \<longrightarrow> \<not> ed_verify P (trust_key P) m sig"
    and "\<forall>m. presented_message (check_claim P) = Some m \<longrightarrow> \<not> ed_verify P (trust_key P) m (replicate 64 0)"
  shows "device_self_check P = Some (Inr ())"
proof -
  have d: "dev_key P \<noteq> other_key P" using assms(3) by auto
  have c: "device_caps_check = Inr canon_caps" unfolding device_caps_check_def canon_check Let_def by (simp only: canon_check) simp
  have v: "verify_device_cert P (trust_key P) (check_claim P) (dev_key P) sig (CHECK_ISSUED + 100) = Some True"
    using check_verifies [OF assms(1,2,5)] by (simp add: CHECK_EXPIRY_def CHECK_ISSUED_def)
  show ?thesis
    using device_tampering_passes [OF assms(1,2) d assms(6)] device_refusals_pass [OF assms(1-5,7)]
    by (simp add: device_self_check_def device_ids_pass [OF assms(2,3)] c device_claim_passes [OF assms(1,2)] assms(5) v
        flip: trust_key_def)
qed

section \<open>The image of one database\<close>

definition export_image :: "('h, 'z) env_scheme \<Rightarrow> str \<Rightarrow> 'h pool \<Rightarrow> session_error + bytes" where
  "export_image E db_name util =
     try_then (map_err (\<lambda>e. Collect (CExport e)) (export_bundle E db_name util)) (\<lambda>t.
     try_then (map_err (\<lambda>e. Collect (CHex e)) (read_lines (lines_of t))) (\<lambda>files.
       Inr (bundle_encode [] [] files [])))"

definition import_image :: "('h, 'z) env_scheme \<Rightarrow> bytes \<Rightarrow> 'h pool \<Rightarrow> (session_error + unit) \<times> 'h pool" where
  "import_image E img util =
     (case bundle_decode img of
        Inl e \<Rightarrow> (Inl (BadBundle e), util)
      | Inr b \<Rightarrow> (case import_files E (b_files b) util of (r, util') \<Rightarrow> (map_err Pool r, util')))"

text \<open>What one device exports, another imports: exactly the stored files, byte for byte.\<close>

lemma image_carries_files:
  assumes "pool_inv E c p" and "line_name n" and "utf8_valid n" and "utf8_valid (manifest_name n)"
    and "length (manifest_name n) < 2 ^ 16" and "export_image E n p = Inr img" and "length img \<le> USIZE_MAX_32"
  shows "import_image E img q =
    (case import_files E (stored_entry c p n @ stored_entry c p (manifest_name n)) q of (r, q') \<Rightarrow> (map_err Pool r, q'))"
proof -
  let ?fs = "stored_entry c p n @ stored_entry c p (manifest_name n)"
  let ?b = "\<lparr>b_envelope = [], b_cred_id = [], b_files = ?fs, b_epoch = []\<rparr>"
  have "collect_files E p [n] = Inr ?fs" using collect_files_stored [OF assms(1), of "[n]"] assms(2) by simp
  then have img: "img = bundle_bytes ?b"
    using assms(6) by (auto simp: export_image_def result_simps bundle_bytes_def)
  have "length n < 2 ^ 16" using assms(5) by (simp add: manifest_name_def)
  then have "bundle_wf ?b" using assms(3-5) by (auto simp: bundle_wf_def stored_entry_def split: option.splits)
  then show ?thesis using bundle_decode_encode [of ?b] assms(7) by (simp add: import_image_def img)
qed

end
