(* ===== verification/Spec2Isabelle.thy ===== *)
theory Spec2Isabelle
  imports Rotation_Session Rig Bounds Crash Self_Check
begin

text \<open>
  A model of freehold (\<open>src/crates/freehold\<close>, Rust), an encrypted SQLite store for the browser: every
  database lives as ciphertext in files of the origin private file system, under a data key (DEK) that
  only an envelope holds, and the store notices when the files under it are changed, mixed or rolled
  back. \<open>src/crates/freehold-decrypt\<close> is a second, standalone reader of its export format.

  The parts of the program, bottom up, each with its theory.

  \<^item> \<open>crypto.rs\<close> (Crypto_Core): subkeys of the DEK, sealed blocks and payloads, the full-state root.
  \<^item> \<open>manifest.rs\<close> (Manifest): the payloads of a database's manifest and of the freshness anchor.
  \<^item> \<open>envelope.rs\<close> (Envelope): the slots that wrap the DEK under a passkey, a recovery code or a device
    secret, their generation and the MAC over all of it; recovery codes.
  \<^item> \<open>bundle.rs\<close> (Bundle), \<open>attest.rs\<close> (Attest), \<open>relay_auth.rs\<close> (Relay_Auth), \<open>device.rs\<close> (Device), \<open>sync.rs\<close>
    (Sync, on the ordered map of BTree): the export container, signatures of the vault, certificates of
    devices, version vectors and sealed sync blobs.
  \<^item> \<open>vfs.rs\<close>, the file system that SQLite calls: \<open>SyncAccessFile\<close> with the fault gate (Block_Device), the
    pool of handles (Pool), the anchor (Double_Buffer, Anchor), the manifest file (Manifest_Store), the
    rollback journal (Journal), the commit barrier and the callbacks (Commit), the opening of a
    database (Open_Db), the rotation of the DEK (Rotation), the services that use the DEK (Epoch).
  \<^item> \<open>lib.rs\<close>, the interface to the page: rows as JSON and bound parameters (Json), the text in which the
    pool hands out files (Interchange), the session with its operations (Session).
  \<^item> The testing interface of \<open>vfs.rs\<close> (feature \<open>testing-api\<close>): the attacker's and the failing disk's calls,
    and the randomised self-test of the block device (Rig); the self-checks of \<open>sync.rs\<close>, \<open>relay_auth.rs\<close> and
    \<open>device.rs\<close> and the image helpers of the sync test (Self_Check).
  \<^item> \<open>freehold-decrypt/src/lib.rs\<close> (Offline).

  How they interact. \<open>session_open\<close> unwraps the DEK from the envelope, installs a pool under it, finishes
  a staged rotation and applies a peer's epoch token. SQLite then opens files of the pool: the main
  database through \<open>open_main_db\<close>, which reads the manifest, checks its generation against the anchor,
  the physical length, the first block and the root of all blocks (after replaying a hot journal on a
  shadow image), and binds the database's key to the file and its satellites. Writes seal blocks; the
  write, truncation or deletion that ends the journal is the commit: the root and the table of lengths
  are sealed into the older manifest slot and the generation is recorded in the anchor, before the
  journal is finalized. A pool file is a record with its handle, key, key domain and cached length; the
  pool is a record passed through every operation and returned, also by one that fails, so that effects
  before an error stay. Errors, and the panics of the source, are constructors of error types; a value
  \<open>None\<close> stands for an abort where the source returns no result.

  Theories of shared material. Prelude (results, byte strings, slices, cursors), Utf8 (Rust strings as
  their UTF-8 bytes), Codec (locales \<open>codec\<close>, \<open>strict_codec\<close>, \<open>prefix_codec\<close>, interpreted by each format),
  Double_Buffer (locale \<open>double_buffer\<close> of two slots written alternately, interpreted by the anchor and
  the manifest), Prims and Storage (the parameters). Further interfaces: \<open>sealed_box\<close> (Crypto_Core),
  \<open>byte_file\<close> (Block_Device: the device as a file of plain bytes), \<open>file_store\<close> (Pool: the pool as a map
  from names to contents), \<open>ordered_map\<close> (BTree); each is interpreted on the model's own operations.

  What the lemmas show. Lifecycle: the invariant \<open>db_inv\<close> of an open database is established by its
  first open, kept by every commit, and what it says is what an open accepts, a main file without any
  block excepted, which opens unchecked; Crash: a commit cut at any physical write opens again, with a
  journal that restores the image of the last completed one; Rotation_Recovery: a rotation is completed or undone, never mixed; Epoch
  and Anchor: the generations only rise, and survive the loss of a slot; Block_Device and Journal: the
  encrypted device and the replay refine their plaintext counterparts; Exchange: a bundle, a token, a
  sync image, a certificate or an enrolment followed from one device to another; Pool_Keys and
  Session_Machine: the keys of a pool never change, and the session cell as a step relation over
  the calls of the page that use it, with its invariants by rule induction (a well-formed cell, a
  locked vault that stays locked, keys that only an unlock brings in); Rotation_Session: the rotation from the call of the
  page over the released handles to the next open, completed with the new envelope and undone with the
  old one, every database carried through; Bounds: the loops over a hostile journal end
  within limits given by its length, and a commit seals a table of at most three files, which never
  overruns its manifest block; Json: what a query returns reads back as the rows, each text up to its
  first NUL and made valid UTF-8; Rig: the self-test
  passes on every healthy pool, and a replayed anchor file restores what it showed; Self_Check: the
  self-checks of the signatures, certificates and version vectors pass, and an exported image is
  imported file by file.

  Parameters and their hypotheses. Third-party ciphers, hashes and signatures are the fields of the
  record \<open>prims\<close> (Prims), their documented behaviour the predicates \<open>aead_ok\<close>, \<open>hash_ok\<close>, \<open>ed_ok\<close>, \<open>argon_ok\<close>,
  \<open>upper_ok\<close>; the storage handles are the fields of \<open>env\<close> (Storage) with \<open>sah_ok\<close>, where a function \<open>c\<close> gives
  the bytes of a handle; SQLite's flag values with \<open>flags_ok\<close>. The random source is the list of its
  answers, one per call, \<open>None\<close> for a failure; \<open>rng_good n\<close> says that the next \<open>n\<close> draws are usable nonces.
  Concrete instances, \<open>toy\<close> and \<open>mem_env\<close>, appear in witnesses only. What SQLite does between the
  callbacks, the JSON parser of the page and the directory listing are arguments of the definitions.

  Bounds. \<open>usize\<close> is the 32-bit type of the target where the source can overflow (\<open>USIZE_MAX_32\<close>, the
  bound \<open>DEV_LIMIT\<close> on a file), \<open>u64\<close> counters are words that wrap. Loops are structural recursions over
  the list of blocks, slots or records, or functions with a measure; none needs fuel. The fuel of
  \<open>replay_within\<close> (Bounds) only states how many turns the replay of a journal takes.

  Not modelled: the test harness of \<open>lib.rs\<close> (lines 58 to 2395 and 3445 on, compiled for
  the browser tests only; of it, Self_Check has the two image helpers) and the unit tests of the other
  files; the \<open>wasm_bindgen\<close> wrappers that only convert types; the registration of C
  callbacks with SQLite and the engine itself; the OPFS directory, whose answers are arguments; the
  JavaScript kit, the relay server and the examples.
\<close>

end
